(* ===== verification/Prelude.thy ===== *)
theory Prelude
  imports Main "HOL-Library.Word" "HOL-Library.List_Lexorder"
begin

text \<open>
  What the components share: the byte strings of the engine with the order of
  \<^verbatim>\<open>bytes.Compare\<close> (the lexicographic order of \<^verbatim>\<open>List_Lexorder\<close> on lists of bytes), the
  big-endian integers of \<^verbatim>\<open>encoding/binary\<close>, slices and the copy into a buffer, the
  first-index search of \<^verbatim>\<open>sort.Search\<close>, and two interfaces stated as locales: a codec
  (what is written can be read back) and a self-delimiting codec (what is written can be
  read back out of a longer stream). Each component that writes bytes interprets one of them.
\<close>

named_theorems bytes_simps "lengths and slices of encoded byte strings"
named_theorems layout "offsets and sizes of the file format"

type_synonym byte = "8 word"
type_synonym bytes = "byte list"

section \<open>Slices and buffers\<close>

text \<open>The Go seg expression \<^verbatim>\<open>xs[i:j]\<close>, for bounds the caller has checked.\<close>

definition seg :: "'a list \<Rightarrow> nat \<Rightarrow> nat \<Rightarrow> 'a list" where
  "seg xs i j = take (j - i) (drop i xs)"

text \<open>\<^verbatim>\<open>copy(dst[off:], src)\<close>: overwrites from \<open>off\<close>, as far as the destination reaches.\<close>

definition put :: "'a list \<Rightarrow> nat \<Rightarrow> 'a list \<Rightarrow> 'a list" where
  "put dst off src =
     take off dst @ take (length dst - off) src @ drop (off + length src) dst"

lemma length_seg [bytes_simps]: "length (seg xs i j) = min (j - i) (length xs - i)"
  by (auto simp: seg_def)

lemma length_put [simp]: "off \<le> length dst \<Longrightarrow> length (put dst off src) = length dst"
  by (auto simp: put_def)

lemma nth_put:
  assumes "off + length src \<le> length dst" "k < length dst"
  shows "put dst off src ! k =
    (if off \<le> k \<and> k < off + length src then src ! (k - off) else dst ! k)"
  using assms by (auto simp: put_def nth_append)

lemma nth_seg: "k < j - i \<Longrightarrow> i + k < length xs \<Longrightarrow> seg xs i j ! k = xs ! (i + k)"
  by (simp add: seg_def)

lemma seg_put_same:
  assumes "off + length src \<le> length dst"
  shows "seg (put dst off src) off (off + length src) = src"
  using assms by (simp add: seg_def put_def)

lemma seg_put_disjoint:
  assumes "off + length src \<le> length dst" "j \<le> off \<or> off + length src \<le> i"
  shows "seg (put dst off src) i j = seg dst i j"
proof (rule nth_equalityI)
  show "length (seg (put dst off src) i j) = length (seg dst i j)"
    using assms by (simp add: length_seg)
next
  fix k assume k: "k < length (seg (put dst off src) i j)"
  then have "k < j - i" "i + k < length dst"
    using assms by (auto simp: length_seg)
  then show "seg (put dst off src) i j ! k = seg dst i j ! k"
    using assms by (simp add: nth_seg nth_put) auto
qed

lemma seg_put_within:
  assumes "off + length src \<le> length dst" "off \<le> i" "j \<le> off + length src"
  shows "seg (put dst off src) i j = seg src (i - off) (j - off)"
proof (rule nth_equalityI)
  show "length (seg (put dst off src) i j) = length (seg src (i - off) (j - off))"
    using assms by (simp add: length_seg)
next
  fix k assume k: "k < length (seg (put dst off src) i j)"
  then have "k < j - i" "i + k < length dst"
    using assms by (auto simp: length_seg)
  then show "seg (put dst off src) i j ! k = seg src (i - off) (j - off) ! k"
    using assms by (auto simp: nth_seg nth_put)
qed

lemma seg_append_left [bytes_simps]: "j \<le> length xs \<Longrightarrow> seg (xs @ ys) i j = seg xs i j"
  by (auto simp: seg_def)

lemma seg_append_right [bytes_simps]:
  "length xs \<le> i \<Longrightarrow> seg (xs @ ys) i j = seg ys (i - length xs) (j - length xs)"
  by (simp add: seg_def)

lemma seg_all: "seg xs 0 (length xs) = xs"
  by (simp add: seg_def)

section \<open>Big-endian integers\<close>

text \<open>
  \<open>be k n\<close> is what \<^verbatim>\<open>binary.BigEndian.PutUint16/32/64\<close> writes for \<open>k = 2, 4, 8\<close>: the low
  \<open>8 * k\<close> bits of \<open>n\<close>, most significant byte first; \<open>unbe\<close> is what \<^verbatim>\<open>Uint16/32/64\<close> reads.
\<close>

primrec be :: "nat \<Rightarrow> nat \<Rightarrow> bytes" where
  "be 0 n = []"
| "be (Suc k) n = be k (n div 256) @ [word_of_nat n]"

lemma be_numeral: "be (numeral k) n = be (pred_numeral k) (n div 256) @ [word_of_nat n]"
  by (simp only: numeral_eq_Suc be.simps)

definition unbe :: "bytes \<Rightarrow> nat" where
  "unbe bs = foldl (\<lambda>a b. a * 256 + unat b) 0 bs"

lemma length_be [simp, bytes_simps]: "length (be k n) = k"
  by (induction k arbitrary: n) auto

lemma unbe_Nil [simp]: "unbe [] = 0"
  by (simp add: unbe_def)

lemma unbe_snoc [simp]: "unbe (bs @ [b]) = unbe bs * 256 + unat b"
  by (simp add: unbe_def)

lemma unbe_be: "unbe (be k n) = n mod 256 ^ k"
proof (induction k arbitrary: n)
  case 0
  then show ?case by simp
next
  case (Suc k)
  have "unbe (be (Suc k) n) = (n div 256) mod 256 ^ k * 256 + n mod 256"
    by (simp add: Suc unat_of_nat)
  also have "\<dots> = n mod (256 * 256 ^ k)"
    by (simp add: mod_mult2_eq)
  finally show ?case by simp
qed

lemma unbe_be_small [simp]: "n < 256 ^ k \<Longrightarrow> unbe (be k n) = n"
  by (simp add: unbe_be)

lemma unbe_Cons: "unbe (b # bs) = unat b * 256 ^ length bs + unbe bs"
proof (induction bs rule: rev_induct)
  case Nil
  then show ?case using unbe_snoc [of "[]" b] by simp
next
  case (snoc x xs)
  have "unbe (b # xs @ [x]) = unbe (b # xs) * 256 + unat x"
    using unbe_snoc [of "b # xs" x] by simp
  then show ?case by (simp add: snoc algebra_simps)
qed

lemma unbe_less: "unbe bs < 256 ^ length bs"
proof (induction bs rule: rev_induct)
  case Nil
  then show ?case by simp
next
  case (snoc x xs)
  have "unat x < 256" using unsigned_less [of x] by simp
  then have "unbe xs * 256 + unat x < Suc (unbe xs) * 256" by simp
  also have "\<dots> \<le> 256 ^ length xs * 256"
    using snoc by (intro mult_right_mono) auto
  finally show ?case by (simp add: mult.commute)
qed

lemma be_unbe [simp]: "be (length bs) (unbe bs) = bs"
proof (induction bs rule: rev_induct)
  case Nil
  then show ?case by simp
next
  case (snoc x xs)
  have "unat x < 256" using unsigned_less [of x] by simp
  then have "(unbe xs * 256 + unat x) div 256 = unbe xs"
    by simp
  moreover have "(word_of_nat (unbe xs * 256 + unat x) :: byte) = x"
  proof -
    have "(word_of_nat (unbe xs * 256 + unat x) :: byte) = word_of_nat (unbe xs) * word_of_nat 256 + word_of_nat (unat x)"
      by (simp only: of_nat_add of_nat_mult)
    also have "(word_of_nat 256 :: byte) = 0"
      by simp
    finally show ?thesis by simp
  qed
  ultimately show ?case by (simp add: snoc)
qed

text \<open>Equal-width big-endian strings sort as the integers they stand for.\<close>

lemma less_iff_unbe:
  "length xs = length ys \<Longrightarrow> (xs < ys) = (unbe xs < unbe ys)"
proof (induction xs ys rule: list_induct2)
  case Nil
  then show ?case by simp
next
  case (Cons x xs y ys)
  let ?B = "(256::nat) ^ length xs"
  have bx: "unbe xs < ?B" and by': "unbe ys < ?B"
    using unbe_less [of xs] unbe_less [of ys] Cons.hyps by simp_all
  have lt: "a * ?B + c < b * ?B + d" if "a < b" "c < ?B" for a b c d :: nat
  proof -
    have "a * ?B + c < Suc a * ?B" using that by simp
    also have "\<dots> \<le> b * ?B" using that by (intro mult_right_mono) auto
    finally show ?thesis by simp
  qed
  show ?case
  proof (cases "x = y")
    case True
    then show ?thesis using Cons by (simp add: unbe_Cons)
  next
    case False
    then have "unat x < unat y \<or> unat y < unat x"
      by (meson linorder_neqE_nat word_unat_eq_iff)
    then show ?thesis
      using lt [of "unat x" "unat y" "unbe xs" "unbe ys"] lt [of "unat y" "unat x" "unbe ys" "unbe xs"]
        bx by' Cons.hyps False
      by (auto simp: unbe_Cons word_less_nat_alt)
  qed
qed

lemma be_less: "n < m \<Longrightarrow> m < 256 ^ k \<Longrightarrow> be k n < be k m"
  using less_iff_unbe [of "be k n" "be k m"] by simp

text \<open>The byte complement \<^verbatim>\<open>^b\<close> reverses the order of bytes.\<close>

unbundle bit_operations_syntax

lemma uint_not: "uint (NOT x) = mask LENGTH('a) - uint (x :: 'a::len word)"
  by (simp add: unsigned_not_eq take_bit_not_eq_mask_diff take_bit_int_eq_self_iff)

lemma not_less_not [simp]: "(NOT x < NOT y) = (y < (x :: 'a::len word))"
  by (simp add: word_less_def uint_not)

section \<open>Binary search\<close>

text \<open>
  \<^verbatim>\<open>sort.Search(n, f)\<close> of Go's standard library: the bisection loop over \<open>[i, j)\<close>. On a
  predicate that is false and then true it is the first index at which it is true, or \<open>n\<close>.
\<close>

function bisect :: "(nat \<Rightarrow> bool) \<Rightarrow> nat \<Rightarrow> nat \<Rightarrow> nat" where
  "bisect f i j =
     (if i < j
      then let h = (i + j) div 2 in if f h then bisect f i h else bisect f (Suc h) j
      else i)"
  by pat_completeness auto
termination
  by (relation "measure (\<lambda>(f, i, j). j - i)") auto

declare bisect.simps [simp del]

definition search :: "nat \<Rightarrow> (nat \<Rightarrow> bool) \<Rightarrow> nat" where
  "search n f = bisect f 0 n"

lemma bisect_bounds: "i \<le> j \<Longrightarrow> i \<le> bisect f i j \<and> bisect f i j \<le> j"
proof (induction f i j rule: bisect.induct)
  case (1 f i j)
  show ?case
  proof (cases "i < j")
    case True
    then have "i \<le> (i + j) div 2" "(i + j) div 2 < j" by auto
    with 1 True show ?thesis
      by (subst (1 2) bisect.simps) (auto simp: Let_def)
  next
    case False
    with 1 show ?thesis by (subst (1 2) bisect.simps) auto
  qed
qed

lemma bisect_least:
  assumes "i \<le> j" "\<And>a b. a \<le> b \<Longrightarrow> b < n \<Longrightarrow> f a \<Longrightarrow> f b" "j \<le> n"
    "\<And>k. k < i \<Longrightarrow> \<not> f k" "\<And>k. j \<le> k \<Longrightarrow> k < n \<Longrightarrow> f k"
  shows "(\<forall>k < bisect f i j. \<not> f k) \<and> (\<forall>k. bisect f i j \<le> k \<longrightarrow> k < n \<longrightarrow> f k)"
  using assms
proof (induction f i j rule: bisect.induct)
  case (1 f i j)
  let ?h = "(i + j) div 2"
  show ?case
  proof (cases "i < j")
    case False
    then have "bisect f i j = i" by (subst bisect.simps) simp
    moreover have "i = j" using False "1.prems"(1) by simp
    ultimately show ?thesis using "1.prems"(4,5) by simp
  next
    case lt: True
    then have h: "i \<le> ?h" "?h < j" by auto
    show ?thesis
    proof (cases "f ?h")
      case True
      have "f k" if "?h \<le> k" "k < n" for k
        using "1.prems"(2) [of ?h k] True that by simp
      then have "(\<forall>k < bisect f i ?h. \<not> f k) \<and> (\<forall>k. bisect f i ?h \<le> k \<longrightarrow> k < n \<longrightarrow> f k)"
        using h "1.prems"(3) by (intro "1.IH"(1) [OF lt refl True h(1) "1.prems"(2) _ "1.prems"(4)]) simp_all
      with lt True show ?thesis by (simp add: Let_def bisect.simps [of f i j])
    next
      case False
      have "\<not> f k" if "k < Suc ?h" for k
        using "1.prems"(2) [of k ?h] False that h "1.prems"(3) by auto
      then have "(\<forall>k < bisect f (Suc ?h) j. \<not> f k) \<and> (\<forall>k. bisect f (Suc ?h) j \<le> k \<longrightarrow> k < n \<longrightarrow> f k)"
        using h by (intro "1.IH"(2) [OF lt refl False _ "1.prems"(2,3) _ "1.prems"(5)]) simp_all
      with lt False show ?thesis by (simp add: Let_def bisect.simps [of f i j])
    qed
  qed
qed

lemma search_le: "search n f \<le> n"
  using bisect_bounds [of 0 n f] by (simp add: search_def)

lemma search_spec:
  assumes "\<And>a b. a \<le> b \<Longrightarrow> b < n \<Longrightarrow> f a \<Longrightarrow> f b"
  shows "k < search n f \<Longrightarrow> \<not> f k" and "search n f \<le> k \<Longrightarrow> k < n \<Longrightarrow> f k"
  using bisect_least [of 0 n n f] assms by (auto simp: search_def)

lemma search_eqI:
  assumes "\<And>k. k < m \<Longrightarrow> \<not> f k" "\<And>k. m \<le> k \<Longrightarrow> k < n \<Longrightarrow> f k" "m \<le> n"
  shows "search n f = m"
proof -
  have mono: "f b" if "a \<le> b" "b < n" "f a" for a b
    using assms(1) [of a] assms(2) [of b] that by (cases "a < m") auto
  have "\<not> search n f < m"
    using search_spec(2) [of n f "search n f"] mono assms by (meson le_refl less_le_trans)
  moreover have "\<not> m < search n f"
    using search_spec(1) [of n f m] mono assms search_le [of n f]
    by (meson le_refl less_le_trans)
  ultimately show ?thesis by simp
qed

lemma append_less_append: "(zs @ xs < zs @ ys) = (xs < (ys :: 'a::linorder list))"
  by (induction zs) auto

section \<open>Interfaces: codecs\<close>

text \<open>
  A codec promises that every value it accepts reads back from the bytes written for it.
  What follows once and for all: two accepted values with the same bytes are the same value.
\<close>

locale codec =
  fixes enc :: "'v \<Rightarrow> 'b" and dec :: "'b \<Rightarrow> 'v option" and ok :: "'v \<Rightarrow> bool"
  assumes dec_enc: "ok v \<Longrightarrow> dec (enc v) = Some v"
begin

lemma enc_inject: "ok v \<Longrightarrow> ok w \<Longrightarrow> enc v = enc w \<Longrightarrow> v = w"
  by (metis dec_enc option.inject)

lemma inj_on_enc: "inj_on enc {v. ok v}"
  by (auto intro: inj_onI enc_inject)

end

text \<open>
  A self-delimiting codec finds the end of what it wrote by itself, so that values can be
  written one after the other. \<open>dec_all\<close> reads a stream of such values to its end.
\<close>

locale stream_codec =
  fixes enc :: "'p \<Rightarrow> 'v \<Rightarrow> bytes" and dec :: "'p \<Rightarrow> bytes \<Rightarrow> ('v \<times> bytes) option"
    and ok :: "'p \<Rightarrow> 'v \<Rightarrow> bool"
  assumes dec_enc_append: "ok p v \<Longrightarrow> dec p (enc p v @ rest) = Some (v, rest)"
begin

fun enc_all :: "'p list \<Rightarrow> 'v list \<Rightarrow> bytes" where
  "enc_all (p # ps) (v # vs) = enc p v @ enc_all ps vs"
| "enc_all _ _ = []"

fun dec_all :: "'p list \<Rightarrow> bytes \<Rightarrow> ('v list \<times> bytes) option" where
  "dec_all [] bs = Some ([], bs)"
| "dec_all (p # ps) bs =
     (case dec p bs of
        None \<Rightarrow> None
      | Some (v, rest) \<Rightarrow>
          (case dec_all ps rest of None \<Rightarrow> None | Some (vs, rest') \<Rightarrow> Some (v # vs, rest')))"

lemma prefix_free:
  assumes "ok p v" "ok p w" "enc p v @ xs = enc p w @ ys"
  shows "v = w" and "xs = ys"
  using assms by (metis dec_enc_append option.inject prod.inject)+

lemma dec_all_enc_all:
  "list_all2 ok ps vs \<Longrightarrow> dec_all ps (enc_all ps vs @ rest) = Some (vs, rest)"
proof (induction ps vs rule: list_all2_induct)
  case Nil
  then show ?case by simp
next
  case (Cons p ps v vs)
  then show ?case by (simp add: dec_enc_append)
qed

lemma enc_all_inject:
  assumes "list_all2 ok ps vs" "list_all2 ok ps ws" "enc_all ps vs = enc_all ps ws"
  shows "vs = ws"
  using assms by (metis dec_all_enc_all option.inject prod.inject)

end

text \<open>
  An order-preserving self-delimiting codec: where two values differ, their bytes are
  decided before either encoding ends, in the order of the values. Then whole composite
  keys compare as byte strings the way their components compare in turn.
\<close>

locale ordered_codec = stream_codec enc dec ok
  for enc :: "'p \<Rightarrow> 'v \<Rightarrow> bytes" and dec :: "'p \<Rightarrow> bytes \<Rightarrow> ('v \<times> bytes) option"
    and ok :: "'p \<Rightarrow> 'v \<Rightarrow> bool" +
  fixes lt :: "'p \<Rightarrow> 'v \<Rightarrow> 'v \<Rightarrow> bool"
  assumes enc_less: "ok p v \<Longrightarrow> ok p w \<Longrightarrow> lt p v w \<Longrightarrow> enc p v @ xs < enc p w @ ys"
    and lt_total: "ok p v \<Longrightarrow> ok p w \<Longrightarrow> lt p v w \<or> v = w \<or> lt p w v"
begin

fun lt_all :: "'p list \<Rightarrow> 'v list \<Rightarrow> 'v list \<Rightarrow> bool" where
  "lt_all (p # ps) (v # vs) (w # ws) = (lt p v w \<or> v = w \<and> lt_all ps vs ws)"
| "lt_all _ _ _ = False"

lemma enc_all_less:
  assumes "list_all2 ok ps vs" "list_all2 ok ps ws" "lt_all ps vs ws"
  shows "enc_all ps vs @ xs < enc_all ps ws @ ys"
  using assms
proof (induction ps vs ws rule: lt_all.induct)
  case (1 p ps v vs w ws)
  then have "ok p v" "ok p w" "enc_all ps vs @ xs < enc_all ps ws @ ys" if "v = w" "\<not> lt p v w"
    using that by auto
  with 1 show ?case
    using enc_less [of p v w] by (auto simp: append_less_append)
qed auto

lemma lt_all_total:
  "list_all2 ok ps vs \<Longrightarrow> list_all2 ok ps ws \<Longrightarrow> lt_all ps vs ws \<or> vs = ws \<or> lt_all ps ws vs"
proof (induction ps arbitrary: vs ws)
  case Nil
  then show ?case by simp
next
  case (Cons p ps)
  then obtain v vs' w ws' where "vs = v # vs'" "ws = w # ws'" "ok p v" "ok p w"
    "list_all2 ok ps vs'" "list_all2 ok ps ws'"
    by (auto simp: list_all2_Cons1)
  with Cons.IH [of vs' ws'] lt_total [of p v w] show ?case by auto
qed

lemma enc_all_order:
  assumes "list_all2 ok ps vs" "list_all2 ok ps ws"
  shows "(enc_all ps vs < enc_all ps ws) = lt_all ps vs ws"
proof
  assume "lt_all ps vs ws"
  then show "enc_all ps vs < enc_all ps ws"
    using enc_all_less [OF assms, of "[]" "[]"] by simp
next
  assume less: "enc_all ps vs < enc_all ps ws"
  then have "vs \<noteq> ws" by auto
  moreover have "\<not> lt_all ps ws vs"
    using enc_all_less [OF assms(2,1), of "[]" "[]"] less by auto
  ultimately show "lt_all ps vs ws"
    using lt_all_total [OF assms] by auto
qed

end

end
