(* ===== verification/Keys.thy ===== *)
theory Keys
  imports Prelude
begin

text \<open>
  The order-preserving key encoding of \<^verbatim>\<open>internal/keys/keys.go\<close>: a tag per value, IEEE-754 bits
  with the sign folded in for numbers, escaped and terminated strings, complemented bytes for
  a descending field. The interface \<open>ordered_codec\<close> of the prelude is interpreted on it at the
  end; its facts give the properties of composite keys.

  A Go value of type \<^verbatim>\<open>any\<close> is a \<open>key_value\<close>; a \<^verbatim>\<open>float64\<close> is its 64 bits, an \<^verbatim>\<open>int\<close> or
  \<^verbatim>\<open>int64\<close> its two's-complement word, a string its bytes.
\<close>

section \<open>Values, fields, errors\<close>

datatype key_value =
    VAbsent
  | VNil
  | VBool bool
  | VFloat64 "64 word"
  | VFloat32 "32 word"
  | VInt "64 word"
  | VInt64 "64 word"
  | VString bytes
  | VOther

datatype missing = MissingSkip | MissingFirst | MissingLast

record field =
  Descending :: bool
  Missing :: missing

datatype keys_error =
    ErrNotIndexable
  | ErrNotANumber
  | ErrTooLarge int
  | ErrSkipped
  | ErrTruncated
  | ErrTag byte
  | ErrArity nat nat

definition tagMissingFirst :: byte where "tagMissingFirst = 0x01"
definition tagNull :: byte where "tagNull = 0x10"
definition tagFalse :: byte where "tagFalse = 0x20"
definition tagTrue :: byte where "tagTrue = 0x21"
definition tagNumber :: byte where "tagNumber = 0x30"
definition tagString :: byte where "tagString = 0x40"
definition tagMissingLast :: byte where "tagMissingLast = 0xfe"
definition escape :: byte where "escape = 0x00"
definition escaped :: byte where "escaped = 0xff"
definition terminator :: byte where "terminator = 0x01"

lemmas tag_defs = tagMissingFirst_def tagNull_def tagFalse_def tagTrue_def tagNumber_def
  tagString_def tagMissingLast_def escape_def escaped_def terminator_def

definition exactIntegers :: int where "exactIntegers = 2 ^ 53"

section \<open>Floating point, as far as keys need it\<close>

text \<open>
  The language's \<^verbatim>\<open>float64\<close>: sign bit, eleven bits of exponent, 52 bits of fraction.
  \<open>f64_scaled\<close> is the number the bits stand for, in units of the smallest subnormal
  \<open>2^-1074\<close>, so that it is an integer; an infinity comes out above every finite number.
\<close>

definition f64_sign :: "64 word \<Rightarrow> bool" where
  "f64_sign w = bit w 63"

definition f64_mag :: "64 word \<Rightarrow> nat" where
  "f64_mag w = unat w mod 2 ^ 63"

definition f64_nan :: "64 word \<Rightarrow> bool" where
  "f64_nan w = (f64_mag w > 2047 * 2 ^ 52)"

definition mag_scaled :: "nat \<Rightarrow> nat" where
  "mag_scaled m =
     (let e = m div 2 ^ 52; f = m mod 2 ^ 52 in if e = 0 then f else (2 ^ 52 + f) * 2 ^ (e - 1))"

definition f64_scaled :: "64 word \<Rightarrow> int" where
  "f64_scaled w = (if f64_sign w then - int (mag_scaled (f64_mag w)) else int (mag_scaled (f64_mag w)))"

fun log2n :: "nat \<Rightarrow> nat" where
  "log2n n = (if n < 2 then 0 else Suc (log2n (n div 2)))"

declare log2n.simps [simp del]

text \<open>The conversion \<^verbatim>\<open>float64(v)\<close> of an integer a \<^verbatim>\<open>float64\<close> holds exactly.\<close>

definition int_to_f64 :: "int \<Rightarrow> 64 word" where
  "int_to_f64 v =
     (if v = 0 then 0
      else let m = nat \<bar>v\<bar>; k = log2n m; mag = (k + 1023) * 2 ^ 52 + (m * 2 ^ 52 div 2 ^ k - 2 ^ 52)
           in word_of_nat (if v < 0 then 2 ^ 63 + mag else mag))"

text \<open>The widening \<^verbatim>\<open>float64(v)\<close> of a \<^verbatim>\<open>float32\<close>, which is exact.\<close>

definition f32_to_f64 :: "32 word \<Rightarrow> 64 word" where
  "f32_to_f64 w =
     (let s = unat w div 2 ^ 31; e = unat w div 2 ^ 23 mod 2 ^ 8; f = unat w mod 2 ^ 23;
          mag = (if e = 255 then 2047 * 2 ^ 52 + f * 2 ^ 29
                 else if e = 0 then
                   if f = 0 then 0
                   else let k = log2n f in (k + 874) * 2 ^ 52 + (f * 2 ^ 52 div 2 ^ k - 2 ^ 52)
                 else (e + 896) * 2 ^ 52 + f * 2 ^ 29)
      in word_of_nat (s * 2 ^ 63 + mag))"

section \<open>Encoding\<close>

definition encodeNumber :: "bytes \<Rightarrow> 64 word \<Rightarrow> keys_error + bytes" where
  "encodeNumber dst v =
     (if f64_nan v then Inl ErrNotANumber
      else let v = (if f64_mag v = 0 then 0 else v);
               bits = (if bit v 63 then NOT v else v OR push_bit 63 1)
           in Inr (dst @ [tagNumber] @ be 8 (unat bits)))"

definition encodeInteger :: "bytes \<Rightarrow> int \<Rightarrow> keys_error + bytes" where
  "encodeInteger dst v =
     (if v > exactIntegers \<or> v < - exactIntegers then Inl (ErrTooLarge v)
      else encodeNumber dst (int_to_f64 v))"

fun escapeBytes :: "bytes \<Rightarrow> bytes" where
  "escapeBytes [] = []"
| "escapeBytes (b # bs) = (if b = escape then [escape, escaped] else [b]) @ escapeBytes bs"

definition encodeString :: "bytes \<Rightarrow> bytes \<Rightarrow> bytes" where
  "encodeString dst s = dst @ [tagString] @ escapeBytes s @ [escape, terminator]"

fun encode :: "bytes \<Rightarrow> key_value \<Rightarrow> missing \<Rightarrow> keys_error + bytes" where
  "encode dst VAbsent m =
     (case m of MissingFirst \<Rightarrow> Inr (dst @ [tagMissingFirst])
      | MissingLast \<Rightarrow> Inr (dst @ [tagMissingLast])
      | MissingSkip \<Rightarrow> Inl ErrSkipped)"
| "encode dst VNil m = Inr (dst @ [tagNull])"
| "encode dst (VBool b) m = Inr (dst @ [if b then tagTrue else tagFalse])"
| "encode dst (VFloat64 w) m = encodeNumber dst w"
| "encode dst (VFloat32 w) m = encodeNumber dst (f32_to_f64 w)"
| "encode dst (VInt w) m = encodeInteger dst (sint w)"
| "encode dst (VInt64 w) m = encodeInteger dst (sint w)"
| "encode dst (VString s) m = Inr (encodeString dst s)"
| "encode dst VOther m = Inl ErrNotIndexable"

definition Encode :: "bytes \<Rightarrow> key_value \<Rightarrow> field \<Rightarrow> keys_error + bytes" where
  "Encode dst v f =
     (case encode dst v (Missing f) of
        Inl e \<Rightarrow> Inl e
      | Inr out \<Rightarrow>
          (if Descending f then Inr (take (length dst) out @ map (\<lambda>b. NOT b) (drop (length dst) out))
           else Inr out))"

fun encodeFields :: "bytes \<Rightarrow> key_value list \<Rightarrow> field list \<Rightarrow> keys_error + bytes" where
  "encodeFields dst (v # vs) (f # fs) =
     (case Encode dst v f of Inl e \<Rightarrow> Inl e | Inr out \<Rightarrow> encodeFields out vs fs)"
| "encodeFields dst _ _ = Inr dst"

definition EncodeKey :: "bytes \<Rightarrow> key_value list \<Rightarrow> field list \<Rightarrow> keys_error + bytes" where
  "EncodeKey dst vs fs =
     (if length vs \<noteq> length fs then Inl (ErrArity (length vs) (length fs))
      else encodeFields dst vs fs)"

section \<open>Decoding\<close>

text \<open>\<open>c\<close> is the closure \<^verbatim>\<open>at\<close>: the identity, or the complement for a descending field.\<close>

fun decodeString :: "(byte \<Rightarrow> byte) \<Rightarrow> bytes \<Rightarrow> bytes \<Rightarrow> keys_error + (bytes \<times> bytes)" where
  "decodeString c acc [] = Inl ErrTruncated"
| "decodeString c acc (b # bs) =
     (if c b \<noteq> escape then decodeString c (acc @ [c b]) bs
      else case bs of
             [] \<Rightarrow> Inl ErrTruncated
           | b' # bs' \<Rightarrow>
               (if c b' = terminator then Inr (acc, bs')
                else if c b' = escaped then decodeString c (acc @ [escape]) bs'
                else Inl (ErrTag (c b'))))"

definition Decode :: "bytes \<Rightarrow> field \<Rightarrow> keys_error + (key_value \<times> bytes)" where
  "Decode src f =
     (let c = (\<lambda>b. if Descending f then NOT b else b) in
      case src of
        [] \<Rightarrow> Inl ErrTruncated
      | b # rest \<Rightarrow>
          (let tag = c b in
           if tag = tagMissingFirst \<or> tag = tagMissingLast then Inr (VAbsent, rest)
           else if tag = tagNull then Inr (VNil, rest)
           else if tag = tagFalse then Inr (VBool False, rest)
           else if tag = tagTrue then Inr (VBool True, rest)
           else if tag = tagNumber then
             (if length src < 9 then Inl ErrTruncated
              else let bits = word_of_nat (unbe (map c (take 8 rest))) :: 64 word;
                       bits = (if bit bits 63 then unset_bit 63 bits else NOT bits)
                   in Inr (VFloat64 bits, drop 8 rest))
           else if tag = tagString then
             (case decodeString c [] rest of Inl e \<Rightarrow> Inl e | Inr (s, rest') \<Rightarrow> Inr (VString s, rest'))
           else Inl (ErrTag tag)))"

fun DecodeKey :: "bytes \<Rightarrow> field list \<Rightarrow> keys_error + (key_value list \<times> bytes)" where
  "DecodeKey src [] = Inr ([], src)"
| "DecodeKey src (f # fs) =
     (case Decode src f of
        Inl e \<Rightarrow> Inl e
      | Inr (v, rest) \<Rightarrow>
          (case DecodeKey rest fs of Inl e \<Rightarrow> Inl e | Inr (vs, rest') \<Rightarrow> Inr (v # vs, rest')))"

section \<open>Strings that part company\<close>

text \<open>
  \<open>diverge xs ys\<close>: the strings differ at a position both have, and \<open>xs\<close> is the smaller there.
  Whatever is appended to either, the order stands; complementing both reverses it.
\<close>

definition diverge :: "bytes \<Rightarrow> bytes \<Rightarrow> bool" where
  "diverge xs ys \<longleftrightarrow> (\<exists>zs a b us vs. xs = zs @ a # us \<and> ys = zs @ b # vs \<and> a < b)"

lemma divergeI: "a < b \<Longrightarrow> diverge (a # xs) (b # ys)"
  unfolding diverge_def by (intro exI [of _ "[]"]) auto

lemma diverge_append: "diverge xs ys \<Longrightarrow> diverge (zs @ xs) (zs @ ys)"
  unfolding diverge_def by (metis append_assoc)

lemma diverge_Cons: "diverge xs ys \<Longrightarrow> diverge (z # xs) (z # ys)"
  using diverge_append [of xs ys "[z]"] by simp

lemma diverge_suffix: "diverge xs ys \<Longrightarrow> diverge (xs @ us) (ys @ vs)"
  unfolding diverge_def by force

lemma diverge_less: "diverge xs ys \<Longrightarrow> xs @ us < ys @ vs"
  unfolding diverge_def by (auto simp: append_less_append)

lemma diverge_complement: "diverge xs ys \<Longrightarrow> diverge (map (\<lambda>b. NOT b) ys) (map (\<lambda>b. NOT b) xs)"
  unfolding diverge_def by (force simp: map_append)

lemma diverge_same_length: "length xs = length ys \<Longrightarrow> xs < ys \<Longrightarrow> diverge xs ys"
proof (induction xs ys rule: list_induct2)
  case Nil
  then show ?case by simp
next
  case (Cons x xs y ys)
  then show ?case by (auto intro: divergeI diverge_Cons)
qed

section \<open>Numbers\<close>

lemma bit63_iff: "bit w 63 \<longleftrightarrow> 2 ^ 63 \<le> unat (w :: 64 word)"
proof -
  have "bit w 63 = bit (unat w) 63"
    by (simp add: bit_unsigned_iff)
  also have "\<dots> = odd (unat w div 2 ^ 63)"
    by (simp add: bit_iff_odd)
  also have "\<dots> = (2 ^ 63 \<le> unat w)"
  proof -
    have "unat w < 2 ^ 64" using unsigned_less [of w] by simp
    then have "unat w div 2 ^ 63 < 2" by (simp add: less_mult_imp_div_less)
    then have "unat w div 2 ^ 63 = 0 \<or> unat w div 2 ^ 63 = 1" by linarith
    then show ?thesis by (auto simp: div_eq_0_iff)
  qed
  finally show ?thesis .
qed

lemma unat_lt64: "unat (w :: 64 word) < 2 ^ 64"
  using unsigned_less [of w] by simp

lemma unat_not64: "unat (NOT (w :: 64 word)) = 2 ^ 64 - 1 - unat w"
proof -
  have "uint (NOT w) = 2 ^ 64 - 1 - uint w"
    by (simp add: uint_not mask_eq_exp_minus_1)
  then have "int (unat (NOT w)) = 18446744073709551615 - int (unat w)"
    by simp
  moreover have "unat w < 18446744073709551616"
    using unat_lt64 [of w] by simp
  ultimately have "unat (NOT w) = 18446744073709551615 - unat w"
    by linarith
  then show ?thesis by simp
qed

lemma f64_mag_nonneg: "\<not> bit w 63 \<Longrightarrow> f64_mag w = unat w"
  by (simp add: f64_mag_def bit63_iff)

lemma f64_mag_neg: "bit w 63 \<Longrightarrow> f64_mag w = unat w - 2 ^ 63"
proof -
  assume "bit w 63"
  then have "2 ^ 63 \<le> unat w" "unat w < 2 * 2 ^ 63" using unat_lt64 [of w] by (auto simp: bit63_iff)
  then show ?thesis by (simp add: f64_mag_def mod_if)
qed

text \<open>The 64 bits a number is written as, read as an unsigned integer.\<close>

definition number_code :: "64 word \<Rightarrow> nat" where
  "number_code v = (if bit v 63 then 2 ^ 63 - 1 - f64_mag v else 2 ^ 63 + f64_mag v)"

lemma unat_set63: "\<not> bit v 63 \<Longrightarrow> unat (v OR push_bit 63 1) = 2 ^ 63 + unat (v :: 64 word)"
proof -
  assume b: "\<not> bit v 63"
  have "v AND push_bit 63 1 = 0"
  proof (rule bit_word_eqI)
    fix n
    show "bit (v AND push_bit 63 1) n = bit (0 :: 64 word) n"
      using b by (cases "n = 63") (auto simp only: bit_and_iff bit_push_bit_iff bit_1_iff bit_0_eq bot_apply bot_bool_def)
  qed
  then have "v OR push_bit 63 1 = v + push_bit 63 1"
    by (simp add: disjunctive_add_eq_or)
  also have "unat \<dots> = unat v + 2 ^ 63"
    using b by (simp add: bit63_iff unat_word_ariths push_bit_eq_mult)
  finally show ?thesis by simp
qed

lemma mag_less: "f64_mag w < 2 ^ 63"
  by (simp add: f64_mag_def)

lemma number_code_less: "number_code v < 2 ^ 64"
  using mag_less [of v] by (auto simp: number_code_def)

lemma encodeNumber_code:
  "\<not> f64_nan v \<Longrightarrow>
     encodeNumber dst v = Inr (dst @ tagNumber # be 8 (number_code (if f64_mag v = 0 then 0 else v)))"
proof -
  assume nan: "\<not> f64_nan v"
  define u where "u = (if f64_mag v = 0 then 0 else v)"
  have "unat (if bit u 63 then NOT u else u OR push_bit 63 1) = number_code u"
    using unat_lt64 [of u]
    by (auto simp: number_code_def unat_not64 unat_set63 f64_mag_nonneg f64_mag_neg bit63_iff
        simp del: push_bit_of_1)
  then show ?thesis
    using nan by (simp add: encodeNumber_def Let_def u_def [symmetric] del: push_bit_of_1)
qed

text \<open>The magnitude is strictly monotone in the bits below the sign.\<close>

lemma mag_scaled_Suc: "mag_scaled m < mag_scaled (Suc m)"
proof -
  let ?e = "m div 2 ^ 52" and ?f = "m mod 2 ^ 52"
  show ?thesis
  proof (cases "Suc ?f = 2 ^ 52")
    case True
    then have "Suc m div 2 ^ 52 = Suc ?e" "Suc m mod 2 ^ 52 = 0"
      by (auto simp: div_Suc mod_Suc)
    then have s: "mag_scaled (Suc m) = 2 ^ 52 * 2 ^ ?e"
      by (simp add: mag_scaled_def Let_def)
    show ?thesis
    proof (cases "?e = 0")
      case True
      then show ?thesis using s by (simp add: mag_scaled_def Let_def)
    next
      case False
      then have "mag_scaled m = (2 ^ 52 + ?f) * 2 ^ (?e - 1)"
        by (simp add: mag_scaled_def Let_def)
      also have "\<dots> < 2 ^ 53 * 2 ^ (?e - 1)"
        by (intro mult_strict_right_mono) auto
      also have "\<dots> = 2 ^ 52 * 2 ^ ?e"
        using False by (cases ?e) auto
      finally show ?thesis using s by simp
    qed
  next
    case False
    then have "Suc m div 2 ^ 52 = ?e" "Suc m mod 2 ^ 52 = Suc ?f"
      by (auto simp: div_Suc mod_Suc)
    then show ?thesis by (simp add: mag_scaled_def Let_def)
  qed
qed

lemma mag_scaled_mono: "m < n \<Longrightarrow> mag_scaled m < mag_scaled n"
  by (rule lift_Suc_mono_less [of mag_scaled]) (auto intro: mag_scaled_Suc)

lemma mag_scaled_less_iff [simp]: "(mag_scaled m < mag_scaled n) = (m < n)"
  by (metis linorder_neqE_nat mag_scaled_mono order_less_asym order_less_irrefl)

lemma mag_scaled_0_iff: "(0 < mag_scaled m) = (0 < m)"
  using mag_scaled_less_iff [of 0 m] by (simp add: mag_scaled_def)

text \<open>A number other than negative zero: the only one with two encodings as \<^verbatim>\<open>float64\<close> bits.\<close>

definition f64_canonical :: "64 word \<Rightarrow> bool" where
  "f64_canonical v \<longleftrightarrow> \<not> f64_nan v \<and> (f64_mag v = 0 \<longrightarrow> v = 0)"

lemma number_code_order:
  assumes "f64_canonical v" "f64_canonical w"
  shows "(number_code v < number_code w) = (f64_scaled v < f64_scaled w)"
proof -
  have z: "\<not> bit u 63" if "f64_canonical u" "f64_mag u = 0" for u
    using that by (simp add: f64_canonical_def)
  have p: "f64_mag u > 0" if "f64_canonical u" "bit u 63" for u
    using z [of u] that by auto
  have q: "- int (mag_scaled (f64_mag u)) < int n" if "f64_canonical u" "bit u 63" for u n
    using p [OF that] mag_scaled_0_iff [of "f64_mag u"] by linarith
  show ?thesis
    using assms mag_less [of v] mag_less [of w] q [of v "mag_scaled (f64_mag w)"]
      q [of w "mag_scaled (f64_mag v)"]
    by (cases "bit v 63"; cases "bit w 63") (auto simp: number_code_def f64_scaled_def f64_sign_def)
qed

lemma unbe_number_code [simp]: "unbe (be 8 (number_code v)) = number_code v"
  using number_code_less [of v] by simp

text \<open>The 64 bits read back: the inverse of \<open>number_code\<close>.\<close>

definition number_uncode :: "64 word \<Rightarrow> 64 word" where
  "number_uncode bits = (if bit bits 63 then unset_bit 63 bits else NOT bits)"

lemma unat_unset63: "bit v 63 \<Longrightarrow> unat (unset_bit 63 (v :: 64 word)) = unat v - 2 ^ 63"
proof -
  assume b: "bit v 63"
  have nb: "\<not> bit (unset_bit 63 v) 63" by (simp add: bit_unset_bit_iff)
  have "unset_bit 63 v OR push_bit 63 1 = v"
  proof (rule bit_word_eqI)
    fix n
    show "bit (unset_bit 63 v OR push_bit 63 1) n = bit v n" if "n < LENGTH(64)"
      using b that by (cases "n = 63") (auto simp: bit_or_iff bit_unset_bit_iff bit_push_bit_iff bit_1_iff
          simp del: push_bit_of_1)
  qed
  then show ?thesis
    using unat_set63 [OF nb] by simp
qed

lemma number_uncode_code:
  "number_uncode (word_of_nat (number_code v)) = v"
proof -
  let ?c = "word_of_nat (number_code v) :: 64 word"
  have u: "unat ?c = number_code v"
    using number_code_less [of v] by (simp add: unat_of_nat)
  show ?thesis
  proof (cases "bit v 63")
    case True
    then have "\<not> bit ?c 63" using u mag_less [of v] by (simp add: bit63_iff number_code_def)
    then have "unat (number_uncode ?c) = unat v"
      using True u mag_less [of v] unat_lt64 [of v]
      by (simp add: number_uncode_def unat_not64 number_code_def f64_mag_neg bit63_iff)
    then show ?thesis by (simp add: word_unat_eq_iff)
  next
    case False
    then have "bit ?c 63" using u by (simp add: bit63_iff number_code_def)
    then have "unat (number_uncode ?c) = unat v"
      using False u by (simp add: number_uncode_def unat_unset63 number_code_def f64_mag_nonneg)
    then show ?thesis by (simp add: word_unat_eq_iff)
  qed
qed

section \<open>Strings\<close>

lemma escapeBytes_diverge:
  "s < t \<Longrightarrow> diverge (escapeBytes s @ [escape, terminator]) (escapeBytes t @ [escape, terminator])"
proof (induction s t rule: list_induct2')
  case (3 y ys)
  show ?case
  proof (cases "y = 0")
    case True
    have "diverge [0, 1] (0 # 255 # escapeBytes ys @ [0, 1])"
      by (intro diverge_Cons [of "[1]"] divergeI) simp
    with True show ?thesis by (simp add: tag_defs)
  next
    case False
    then have "0 < y" by (simp add: word_neq_0_conv)
    with False show ?thesis by (auto simp: tag_defs intro!: divergeI)
  qed
next
  case (4 x xs y ys)
  show ?case
  proof (cases "x = y")
    case True
    with 4 show ?thesis by (auto simp: tag_defs intro!: diverge_Cons)
  next
    case False
    with 4 have "x < y" by simp
    then have "y \<noteq> 0" by (metis word_not_simps(1))
    moreover have "0 < y" using \<open>y \<noteq> 0\<close> by (simp add: word_neq_0_conv)
    ultimately show ?thesis using \<open>x < y\<close> by (auto simp: tag_defs intro!: divergeI)
  qed
qed auto

lemma decodeString_escape:
  assumes "\<And>b. c (d b) = b"
  shows "decodeString c acc (map d (escapeBytes s @ [escape, terminator]) @ rest) = Inr (acc @ s, rest)"
proof (induction s arbitrary: acc)
  case Nil
  then show ?case using assms by (simp add: tag_defs)
next
  case (Cons b s)
  then show ?case using assms by (simp add: tag_defs)
qed

section \<open>The interface\<close>

fun canonical :: "key_value \<Rightarrow> bool" where
  "canonical (VFloat64 w) = f64_canonical w"
| "canonical (VFloat32 _) = False"
| "canonical (VInt _) = False"
| "canonical (VInt64 _) = False"
| "canonical VOther = False"
| "canonical _ = True"

definition key_ok :: "field \<Rightarrow> key_value \<Rightarrow> bool" where
  "key_ok f v \<longleftrightarrow> canonical v \<and> (v = VAbsent \<longrightarrow> Missing f \<noteq> MissingSkip)"

text \<open>The order keys promise: by kind, then within numbers by value and within strings by byte.\<close>

fun kind_rank :: "missing \<Rightarrow> key_value \<Rightarrow> nat" where
  "kind_rank m VAbsent = (if m = MissingLast then 6 else 0)"
| "kind_rank m VNil = 1"
| "kind_rank m (VBool b) = (if b then 3 else 2)"
| "kind_rank m (VString _) = 5"
| "kind_rank m _ = 4"

fun value_less :: "missing \<Rightarrow> key_value \<Rightarrow> key_value \<Rightarrow> bool" where
  "value_less m (VFloat64 v) (VFloat64 w) = (f64_scaled v < f64_scaled w)"
| "value_less m (VString s) (VString t) = (s < t)"
| "value_less m v w = (kind_rank m v < kind_rank m w)"

definition field_less :: "field \<Rightarrow> key_value \<Rightarrow> key_value \<Rightarrow> bool" where
  "field_less f v w = (if Descending f then value_less (Missing f) w v else value_less (Missing f) v w)"

definition complement_if :: "bool \<Rightarrow> bytes \<Rightarrow> bytes" where
  "complement_if d bs = (if d then map (\<lambda>b. NOT b) bs else bs)"

definition enc_component :: "field \<Rightarrow> key_value \<Rightarrow> bytes" where
  "enc_component f v = (case Encode [] v f of Inl _ \<Rightarrow> [] | Inr bs \<Rightarrow> bs)"

definition dec_component :: "field \<Rightarrow> bytes \<Rightarrow> (key_value \<times> bytes) option" where
  "dec_component f bs = (case Decode bs f of Inl _ \<Rightarrow> None | Inr r \<Rightarrow> Some r)"

fun plain :: "missing \<Rightarrow> key_value \<Rightarrow> bytes" where
  "plain m VAbsent = [if m = MissingLast then tagMissingLast else tagMissingFirst]"
| "plain m VNil = [tagNull]"
| "plain m (VBool b) = [if b then tagTrue else tagFalse]"
| "plain m (VFloat64 w) = tagNumber # be 8 (number_code w)"
| "plain m (VString s) = tagString # escapeBytes s @ [escape, terminator]"
| "plain m _ = []"

lemma encode_plain: "key_ok f v \<Longrightarrow> encode dst v (Missing f) = Inr (dst @ plain (Missing f) v)"
  by (cases v) (auto simp: key_ok_def f64_canonical_def encodeNumber_code encodeString_def split: missing.splits)

lemma Encode_plain: "key_ok f v \<Longrightarrow> Encode dst v f = Inr (dst @ complement_if (Descending f) (plain (Missing f) v))"
  by (simp add: Encode_def encode_plain complement_if_def)

lemma enc_component_plain: "key_ok f v \<Longrightarrow> enc_component f v = complement_if (Descending f) (plain (Missing f) v)"
  by (simp add: enc_component_def Encode_plain)

lemma plain_diverge:
  assumes "key_ok f v" "key_ok f w" "value_less (Missing f) v w"
  shows "diverge (plain (Missing f) v) (plain (Missing f) w)"
proof (cases "kind_rank (Missing f) v = kind_rank (Missing f) w")
  case False
  then have "kind_rank (Missing f) v < kind_rank (Missing f) w"
    using assms(3) by (cases v; cases w) auto
  with assms show ?thesis
    by (cases v; cases w) (auto simp: tag_defs key_ok_def intro!: divergeI split: if_splits)
next
  case True
  have num: "diverge (be 8 (number_code a)) (be 8 (number_code b))"
    if "f64_canonical a" "f64_canonical b" "f64_scaled a < f64_scaled b" for a b
    using that number_code_order [of a b] number_code_less [of b]
    by (intro diverge_same_length be_less) auto
  from True assms show ?thesis
    by (cases v; cases w)
      (auto simp: key_ok_def intro!: diverge_Cons num escapeBytes_diverge split: if_splits)
qed

lemma Decode_plain:
  assumes "key_ok f v"
  shows "Decode (complement_if (Descending f) (plain (Missing f) v) @ rest) f = Inr (v, rest)"
proof (cases "Descending f")
  case True
  then show ?thesis
    using assms decodeString_escape [of "\<lambda>b. NOT b" "\<lambda>b. NOT b" "[]"] number_uncode_code
    by (cases v) (auto simp: complement_if_def Decode_def tag_defs key_ok_def Let_def comp_def
        number_uncode_def [symmetric] simp del: unbe_be_small)
next
  case False
  then show ?thesis
    using assms decodeString_escape [of "\<lambda>b. b" "\<lambda>b. b" "[]"] number_uncode_code
    by (cases v) (auto simp: complement_if_def Decode_def tag_defs key_ok_def Let_def
        number_uncode_def [symmetric] simp del: unbe_be_small)
qed

lemma value_less_total:
  "key_ok f v \<Longrightarrow> key_ok f w \<Longrightarrow> value_less (Missing f) v w \<or> v = w \<or> value_less (Missing f) w v"
proof (cases "(\<exists>a b. v = VFloat64 a \<and> w = VFloat64 b)")
  case True
  assume ok: "key_ok f v" "key_ok f w"
  from True obtain a b where ab: "v = VFloat64 a" "w = VFloat64 b" by auto
  with ok have "f64_scaled a < f64_scaled b \<or> number_code a = number_code b \<or> f64_scaled b < f64_scaled a"
    using number_code_order [of a b] number_code_order [of b a] by (auto simp: key_ok_def)
  then show ?thesis using ab by (auto, metis number_uncode_code)
next
  case False
  assume "key_ok f v" "key_ok f w"
  with False show ?thesis by (cases v; cases w) (auto simp: key_ok_def)
qed

interpretation keyc: ordered_codec enc_component dec_component key_ok field_less
proof
  fix f v rest
  assume "key_ok f v"
  then show "dec_component f (enc_component f v @ rest) = Some (v, rest)"
    by (simp add: dec_component_def enc_component_plain Decode_plain)
next
  fix f v w xs ys
  assume ok: "key_ok f v" "key_ok f w" and less: "field_less f v w"
  show "enc_component f v @ xs < enc_component f w @ ys"
  proof (cases "Descending f")
    case True
    then have "diverge (plain (Missing f) w) (plain (Missing f) v)"
      using ok less by (auto simp: field_less_def intro: plain_diverge)
    then show ?thesis
      using ok True diverge_complement by (auto simp: enc_component_plain complement_if_def intro: diverge_less)
  next
    case False
    then show ?thesis
      using ok less by (auto simp: field_less_def enc_component_plain complement_if_def
          intro: diverge_less plain_diverge)
  qed
next
  fix f v w
  assume "key_ok f v" "key_ok f w"
  then show "field_less f v w \<or> v = w \<or> field_less f w v"
    using value_less_total by (auto simp: field_less_def)
qed

lemma encodeFields_enc_all:
  "list_all2 key_ok fs vs \<Longrightarrow> encodeFields dst vs fs = Inr (dst @ keyc.enc_all fs vs)"
proof (induction fs vs arbitrary: dst rule: list_all2_induct)
  case Nil
  then show ?case by simp
next
  case (Cons f fs v vs)
  then show ?case by (simp add: Encode_plain enc_component_plain)
qed

lemma EncodeKey_enc_all: "list_all2 key_ok fs vs \<Longrightarrow> EncodeKey dst vs fs = Inr (dst @ keyc.enc_all fs vs)"
  by (simp add: EncodeKey_def encodeFields_enc_all list_all2_lengthD)

lemma dec_component_Some: "dec_component f bs = Some r \<longleftrightarrow> Decode bs f = Inr r"
  by (simp add: dec_component_def split: sum.splits)

lemma DecodeKey_dec_all: "keyc.dec_all fs bs = Some r \<Longrightarrow> DecodeKey bs fs = Inr r"
proof (induction fs arbitrary: bs r)
  case Nil
  then show ?case by simp
next
  case (Cons f fs)
  then show ?case
    by (auto simp: dec_component_Some split: option.splits)
qed

section \<open>Every value that encodes\<close>

text \<open>
  What a value is once it is part of a key: numbers of every Go type become the \<^verbatim>\<open>float64\<close>
  they convert to, and negative zero is zero.
\<close>

definition canon_number :: "64 word \<Rightarrow> key_value" where
  "canon_number w = VFloat64 (if f64_mag w = 0 then 0 else w)"

fun canon :: "key_value \<Rightarrow> key_value" where
  "canon (VFloat64 w) = canon_number w"
| "canon (VFloat32 w) = canon_number (f32_to_f64 w)"
| "canon (VInt w) = canon_number (int_to_f64 (sint w))"
| "canon (VInt64 w) = canon_number (int_to_f64 (sint w))"
| "canon v = v"

lemma f64_mag_0 [simp]: "f64_mag 0 = 0"
  by (simp add: f64_mag_def)

lemma encodeNumber_canon:
  "encodeNumber dst w = Inr out \<Longrightarrow>
     canonical (canon_number w) \<and> encode dst (canon_number w) m = Inr out"
  by (auto simp: canon_number_def encodeNumber_def f64_canonical_def f64_nan_def Let_def split: if_splits)

lemma canon_number_VAbsent [simp]: "canon_number w \<noteq> VAbsent"
  by (simp add: canon_number_def)

lemma encode_canon:
  assumes "encode dst v m = Inr out"
  shows "canonical (canon v) \<and> encode dst (canon v) m = Inr out \<and> (canon v = VAbsent \<longrightarrow> m \<noteq> MissingSkip)"
proof (cases v)
  case VAbsent
  with assms show ?thesis by (auto split: missing.splits)
qed (use assms in \<open>auto simp: encodeInteger_def dest!: encodeNumber_canon [where m = m] split: if_splits\<close>)

lemma Encode_canon:
  assumes "Encode dst v f = Inr out"
  shows "key_ok f (canon v) \<and> Encode dst (canon v) f = Inr out"
proof -
  from assms obtain mid where "encode dst v (Missing f) = Inr mid"
    by (auto simp: Encode_def split: sum.splits)
  with encode_canon [OF this] assms show ?thesis
    by (simp add: Encode_def key_ok_def)
qed

lemma encodeFields_canon:
  "encodeFields dst vs fs = Inr out \<Longrightarrow> length vs = length fs \<Longrightarrow>
     list_all2 key_ok fs (map canon vs) \<and> encodeFields dst (map canon vs) fs = Inr out"
proof (induction dst vs fs rule: encodeFields.induct)
  case (1 dst v vs f fs)
  then show ?case
    using Encode_canon [of dst v f] by (auto split: sum.splits)
qed auto

lemma EncodeKey_canon:
  assumes "EncodeKey dst vs fs = Inr out"
  shows "list_all2 key_ok fs (map canon vs)" and "out = dst @ keyc.enc_all fs (map canon vs)"
proof -
  from assms have "length vs = length fs" "encodeFields dst vs fs = Inr out"
    by (auto simp: EncodeKey_def split: if_splits)
  from encodeFields_canon [OF this(2,1)]
  show "list_all2 key_ok fs (map canon vs)" and "out = dst @ keyc.enc_all fs (map canon vs)"
    using encodeFields_enc_all [of fs "map canon vs" dst] by auto
qed

text \<open>Keys compare component by component: the first field that differs decides.\<close>

fun key_less :: "field list \<Rightarrow> key_value list \<Rightarrow> key_value list \<Rightarrow> bool" where
  "key_less (f # fs) (v # vs) (w # ws) = (field_less f v w \<or> v = w \<and> key_less fs vs ws)"
| "key_less _ _ _ = False"

lemma lt_all_key_less: "keyc.lt_all fs vs ws = key_less fs vs ws"
  by (induction fs vs ws rule: key_less.induct) auto

lemma EncodeKey_less:
  assumes "EncodeKey [] vs fs = Inr a" and "EncodeKey [] ws fs = Inr b"
  shows "(a < b) = key_less fs (map canon vs) (map canon ws)"
  using EncodeKey_canon [OF assms(1)] EncodeKey_canon [OF assms(2)]
    keyc.enc_all_order [of fs "map canon vs" "map canon ws"]
  by (simp add: lt_all_key_less)

section \<open>Integers\<close>

lemma log2n_bounds: "0 < n \<Longrightarrow> 2 ^ log2n n \<le> n \<and> n < 2 ^ Suc (log2n n)"
proof (induction n rule: log2n.induct)
  case (1 n)
  show ?case
  proof (cases "n < 2")
    case True
    with 1 show ?thesis by (subst (1 2) log2n.simps) auto
  next
    case False
    with 1 have IH: "2 ^ log2n (n div 2) \<le> n div 2 \<and> n div 2 < 2 ^ Suc (log2n (n div 2))" by auto
    have "log2n n = Suc (log2n (n div 2))" using False by (subst log2n.simps) simp
    then show ?thesis using IH by auto
  qed
qed

lemma exact_shift:
  assumes "0 < m" "m \<le> 2 ^ 53"
  defines "k \<equiv> log2n m"
  shows "k \<le> 53" and "m * 2 ^ 52 div 2 ^ k * 2 ^ k = m * 2 ^ 52"
    and "2 ^ 52 \<le> m * 2 ^ 52 div 2 ^ k" and "m * 2 ^ 52 div 2 ^ k < 2 ^ 53"
proof -
  have b: "2 ^ k \<le> m" "m < 2 ^ Suc k" using log2n_bounds [OF assms(1)] by (auto simp: k_def)
  then have "(2::nat) ^ k \<le> 2 ^ 53" using assms(2) by linarith
  then show k: "k \<le> 53" by (meson le_refl not_less power_strict_increasing_iff one_less_numeral_iff semiring_norm(76) leD linorder_le_less_linear)
  show e: "m * 2 ^ 52 div 2 ^ k * 2 ^ k = m * 2 ^ 52"
  proof (cases "k = 53")
    case True
    then have "m = 2 ^ 53" using b assms(2) by simp
    then show ?thesis using True by simp
  next
    case False
    then have "(2::nat) ^ k dvd m * 2 ^ 52" using k by (intro dvd_mult le_imp_power_dvd) simp
    then show ?thesis by (rule dvd_div_mult_self)
  qed
  have "2 ^ 52 * 2 ^ k \<le> m * 2 ^ 52" using b(1) by simp
  then show "2 ^ 52 \<le> m * 2 ^ 52 div 2 ^ k"
    by (simp add: less_eq_div_iff_mult_less_eq)
  have "m * 2 ^ 52 < 2 ^ 53 * 2 ^ k" using b(2) by simp
  then show "m * 2 ^ 52 div 2 ^ k < 2 ^ 53"
    by (simp add: div_less_iff_less_mult)
qed

lemma mag_scaled_int:
  assumes "0 < m" "m \<le> 2 ^ 53"
  defines "k \<equiv> log2n m"
  defines "mag \<equiv> (k + 1023) * 2 ^ 52 + (m * 2 ^ 52 div 2 ^ k - 2 ^ 52)"
  shows "mag_scaled mag = m * 2 ^ 1074" and "mag < 2047 * 2 ^ 52"
proof -
  let ?q = "m * 2 ^ 52 div 2 ^ k"
  note s = exact_shift [OF assms(1,2), folded k_def]
  have f: "?q - 2 ^ 52 < 2 ^ 52" using s(3,4) by simp
  have dm: "(a * c + b) div c = a \<and> (a * c + b) mod c = b" if "b < c" for a b c :: nat
    using that by simp
  have d: "mag div 2 ^ 52 = k + 1023" "mag mod 2 ^ 52 = ?q - 2 ^ 52"
    using dm [OF f, of "k + 1023"] unfolding mag_def by blast+
  have "mag_scaled mag = ?q * 2 ^ (k + 1022)"
    unfolding mag_scaled_def Let_def d using s(3) by simp
  also have "\<dots> = ?q * 2 ^ k * 2 ^ 1022" by (simp add: power_add)
  also have "\<dots> = m * 2 ^ 52 * 2 ^ 1022" using s(2) by simp
  also have "\<dots> = m * 2 ^ 1074" by (simp flip: power_add)
  finally show "mag_scaled mag = m * 2 ^ 1074" .
  show "mag < 2047 * 2 ^ 52" using f s(1) by (simp add: mag_def)
qed

lemma int_to_f64_exact:
  assumes "\<bar>v\<bar> \<le> exactIntegers"
  shows "f64_scaled (int_to_f64 v) = v * 2 ^ 1074" and "f64_canonical (int_to_f64 v)"
proof -
  have "f64_scaled (int_to_f64 v) = v * 2 ^ 1074 \<and> f64_canonical (int_to_f64 v)"
  proof (cases "v = 0")
    case True
    then show ?thesis
      by (simp add: int_to_f64_def f64_scaled_def f64_canonical_def f64_nan_def f64_sign_def mag_scaled_def)
  next
    case False
    define m where "m = nat \<bar>v\<bar>"
    have m: "0 < m" "m \<le> 2 ^ 53" using False assms by (auto simp: m_def exactIntegers_def)
    define mag where "mag = (log2n m + 1023) * 2 ^ 52 + (m * 2 ^ 52 div 2 ^ log2n m - 2 ^ 52)"
    note s = mag_scaled_int [OF m, folded mag_def]
    define w where "w = int_to_f64 v"
    have w: "w = word_of_nat (if v < 0 then 2 ^ 63 + mag else mag)"
      using False by (simp add: w_def int_to_f64_def Let_def m_def mag_def)
    have u: "unat w = (if v < 0 then 2 ^ 63 + mag else mag)"
      using s(2) by (simp add: w unat_of_nat)
    have b: "bit w 63 = (v < 0)" using s(2) u by (simp add: bit63_iff)
    have g: "f64_mag w = mag" using s(2) u by (simp add: f64_mag_def)
    have "0 < mag" by (simp add: mag_def)
    moreover have "v = (if v < 0 then - int m else int m)" using False by (simp add: m_def)
    ultimately show ?thesis
      using s b g by (auto simp: w_def [symmetric] f64_scaled_def f64_canonical_def f64_nan_def f64_sign_def)
  qed
  then show "f64_scaled (int_to_f64 v) = v * 2 ^ 1074" and "f64_canonical (int_to_f64 v)"
    by simp_all
qed

section \<open>Properties\<close>

text \<open>
  C5. Keys sort the way their values do: whenever two lists of values both encode under the
  same fields, the encoded keys compare as byte strings exactly as the values compare field by
  field, numbers by arithmetic value, strings by byte, a descending field reversed, documents
  without the field where the index says. No two different keys share an encoding.
\<close>

theorem encode_key_order:
  assumes "EncodeKey [] vs fs = Inr a" and "EncodeKey [] ws fs = Inr b"
  shows "(a < b) = key_less fs (map canon vs) (map canon ws) \<and> (a = b) = (map canon vs = map canon ws)"
  using EncodeKey_less [OF assms] EncodeKey_canon [OF assms(1)] EncodeKey_canon [OF assms(2)]
    keyc.enc_all_inject by auto

theorem encode_key_order_witness:
  "EncodeKey [] [VString [97], VBool True] [\<lparr>Descending = False, Missing = MissingSkip\<rparr>, \<lparr>Descending = True, Missing = MissingLast\<rparr>]
     = Inr [0x40, 97, 0, 1, 0xde]
   \<and> EncodeKey [] [VString [97, 98], VNil] [\<lparr>Descending = False, Missing = MissingSkip\<rparr>, \<lparr>Descending = True, Missing = MissingLast\<rparr>]
     = Inr [0x40, 97, 98, 0, 1, 0xef]
   \<and> ([0x40, 97, 0, 1, 0xde] :: bytes) < [0x40, 97, 98, 0, 1, 0xef]
   \<and> key_less [\<lparr>Descending = False, Missing = MissingSkip\<rparr>, \<lparr>Descending = True, Missing = MissingLast\<rparr>]
        [VString [97], VBool True] [VString [97, 98], VNil]"
proof -
  let ?fs = "[\<lparr>Descending = False, Missing = MissingSkip\<rparr>, \<lparr>Descending = True, Missing = MissingLast\<rparr>]"
  have a: "EncodeKey [] [VString [97], VBool True] ?fs = Inr [0x40, 97, 0, 1, 0xde]"
    by (simp add: EncodeKey_def Encode_def encodeString_def tag_defs)
  have b: "EncodeKey [] [VString [97, 98], VNil] ?fs = Inr [0x40, 97, 98, 0, 1, 0xef]"
    by (simp add: EncodeKey_def Encode_def encodeString_def tag_defs)
  have "([0x40, 97, 0, 1, 0xde] :: bytes) < [0x40, 97, 98, 0, 1, 0xef]"
    by simp
  with a b encode_key_order [OF a b] show ?thesis by simp
qed

text \<open>
  C29. A key reads back: what \<^verbatim>\<open>EncodeKey\<close> wrote for a list of values, followed by anything,
  is read by \<^verbatim>\<open>DecodeKey\<close> as those values (numbers as the \<^verbatim>\<open>float64\<close> they are), and what
  followed is left over untouched.
\<close>

theorem decode_encode_key:
  assumes "EncodeKey [] vs fs = Inr k"
  shows "DecodeKey (k @ rest) fs = Inr (map canon vs, rest)"
  using EncodeKey_canon [OF assms] keyc.dec_all_enc_all [of fs "map canon vs" rest]
  by (simp add: DecodeKey_dec_all)

theorem decode_encode_key_witness:
  "EncodeKey [] [VString [0, 7], VNil] [\<lparr>Descending = True, Missing = MissingSkip\<rparr>, \<lparr>Descending = False, Missing = MissingFirst\<rparr>]
     = Inr [0xbf, 0xff, 0x00, 0xf8, 0xff, 0xfe, 0x10]
   \<and> DecodeKey ([0xbf, 0xff, 0x00, 0xf8, 0xff, 0xfe, 0x10] @ [1, 2])
       [\<lparr>Descending = True, Missing = MissingSkip\<rparr>, \<lparr>Descending = False, Missing = MissingFirst\<rparr>]
     = Inr ([VString [0, 7], VNil], [1, 2])"
proof -
  let ?fs = "[\<lparr>Descending = True, Missing = MissingSkip\<rparr>, \<lparr>Descending = False, Missing = MissingFirst\<rparr>]"
  have k: "EncodeKey [] [VString [0, 7], VNil] ?fs = Inr [0xbf, 0xff, 0x00, 0xf8, 0xff, 0xfe, 0x10]"
    by (simp add: EncodeKey_def Encode_def encodeString_def tag_defs)
  from decode_encode_key [OF k, of "[1, 2]"] k show ?thesis by simp
qed

text \<open>
  Integers sort as integers and are never rounded: an \<^verbatim>\<open>int\<close> encodes exactly when its
  magnitude is at most \<open>2^53\<close>, and two integers that encode sort in an ascending field as they
  compare as signed 64-bit integers, in a descending one the other way round.
\<close>

theorem encode_integer_order:
  assumes "Encode [] (VInt a) f = Inr x" and "Encode [] (VInt b) f = Inr y"
  shows "\<bar>sint a\<bar> \<le> 2 ^ 53 \<and> (x < y) = (if Descending f then sint b < sint a else sint a < sint b)"
proof -
  have le: "\<bar>sint u\<bar> \<le> exactIntegers" if "Encode [] (VInt u) f = Inr z" for u z
    using that by (auto simp: Encode_def encodeInteger_def split: sum.splits if_splits)
  have c: "canon (VInt u) = VFloat64 (int_to_f64 (sint u))" if "Encode [] (VInt u) f = Inr z" for u z
    using int_to_f64_exact [OF le [OF that]] by (auto simp: canon_number_def f64_canonical_def)
  have k: "EncodeKey [] [VInt u] [f] = Inr z" if "Encode [] (VInt u) f = Inr z" for u z
    using that by (simp add: EncodeKey_def)
  have "(x < y) = key_less [f] (map canon [VInt a]) (map canon [VInt b])"
    by (rule EncodeKey_less [OF k [OF assms(1)] k [OF assms(2)]])
  then show ?thesis
    using le [OF assms(1)] int_to_f64_exact(1) [OF le [OF assms(1)]] int_to_f64_exact(1) [OF le [OF assms(2)]]
    by (simp only: list.map c [OF assms(1)] c [OF assms(2)] key_less.simps field_less_def value_less.simps
        exactIntegers_def if_distrib) auto
qed

theorem encode_integer_order_witness:
  "(\<exists>x y. Encode [] (VInt (- 1)) \<lparr>Descending = False, Missing = MissingSkip\<rparr> = Inr x
      \<and> Encode [] (VInt 2) \<lparr>Descending = False, Missing = MissingSkip\<rparr> = Inr y \<and> x < y)"
proof -
  let ?f = "\<lparr>Descending = False, Missing = MissingSkip\<rparr>"
  have "\<not> f64_nan (int_to_f64 v)" if "\<bar>v\<bar> \<le> exactIntegers" for v
    using int_to_f64_exact(2) [OF that] by (simp add: f64_canonical_def)
  then have "\<exists>x. Encode [] (VInt u) ?f = Inr x" if "\<bar>sint u\<bar> \<le> exactIntegers" for u
    using that by (auto simp: Encode_def encodeInteger_def encodeNumber_code)
  then obtain x y where xy: "Encode [] (VInt (- 1)) ?f = Inr x" "Encode [] (VInt 2) ?f = Inr y"
    by (fastforce simp: exactIntegers_def)
  from encode_integer_order [OF xy] xy show ?thesis by auto
qed

end
