(* ===== verification/Protocol.thy ===== *)
theory Protocol
  imports Prelude
begin

text \<open>
  The wire format of \<^verbatim>\<open>internal/protocol/frame.go\<close>: how a frame is written and how one is read
  off a stream that delivers bytes in pieces of its own choosing. An \<^verbatim>\<open>io.Reader\<close> is the list of
  pieces its successive \<^verbatim>\<open>Read\<close> calls deliver; \<^verbatim>\<open>io.ReadFull\<close> of the standard library is
  \<open>readFull\<close>. The interface \<open>stream_codec\<close> is interpreted on the frames a reader accepts.
\<close>

section \<open>Frames\<close>

type_synonym frame_type = byte

definition Hello :: frame_type where "Hello = 1"
definition Welcome :: frame_type where "Welcome = 2"
definition Ping :: frame_type where "Ping = 3"
definition Pong :: frame_type where "Pong = 4"
definition Invoke :: frame_type where "Invoke = 5"
definition Result :: frame_type where "Result = 6"
definition Failure :: frame_type where "Failure = 7"
definition Subscribe :: frame_type where "Subscribe = 8"
definition Event :: frame_type where "Event = 9"
definition Goodbye :: frame_type where "Goodbye = 10"
definition Elevate :: frame_type where "Elevate = 11"
definition Explore :: frame_type where "Explore = 12"
definition Declare :: frame_type where "Declare = 13"
definition Establish :: frame_type where "Establish = 14"

lemmas frame_types = Hello_def Welcome_def Ping_def Pong_def Invoke_def Result_def Failure_def
  Subscribe_def Event_def Goodbye_def Elevate_def Explore_def Declare_def Establish_def

definition typeNames :: "(frame_type \<times> string) list" where
  "typeNames =
     [(Hello, ''hello''), (Welcome, ''welcome''), (Ping, ''ping''), (Pong, ''pong''), (Invoke, ''invoke''),
      (Result, ''result''), (Failure, ''failure''), (Subscribe, ''subscribe''), (Event, ''event''),
      (Goodbye, ''goodbye''), (Elevate, ''elevate''), (Explore, ''explore''), (Declare, ''declare''),
      (Establish, ''establish'')]"

text \<open>The decimal rendering \<^verbatim>\<open>%d\<close> of a natural number.\<close>

fun decimal :: "nat \<Rightarrow> string" where
  "decimal n = (if n < 10 then [char_of (n + 48)] else decimal (n div 10) @ [char_of (n mod 10 + 48)])"

declare decimal.simps [simp del]

definition String :: "frame_type \<Rightarrow> string" where
  "String t = (case map_of typeNames t of Some name \<Rightarrow> name | None \<Rightarrow> ''type('' @ decimal (unat t) @ '')'')"

record frame =
  Version :: byte
  Type :: frame_type
  ID :: "32 word"
  Payload :: bytes

definition thisVersion :: byte where "thisVersion = 1"

definition HeaderBytes :: nat where "HeaderBytes = 10"

definition MaxPayload :: nat where "MaxPayload = 16 * 2 ^ 20"

datatype frame_error =
    ErrPayloadTooLarge nat
  | ErrVersion byte
  | EOF
  | ErrUnexpectedEOF

definition Encode_frame :: "frame \<Rightarrow> frame_error + bytes" where
  "Encode_frame f =
     (if length (Payload f) > MaxPayload then Inl (ErrPayloadTooLarge (length (Payload f)))
      else let version = (if Version f = 0 then thisVersion else Version f)
           in Inr ([version, Type f] @ be 4 (unat (ID f)) @ be 4 (length (Payload f)) @ Payload f))"

section \<open>Reading\<close>

record reader =
  source :: "bytes list"
  maxPayload :: int
  versions :: "byte set"

definition NewReader :: "bytes list \<Rightarrow> reader" where
  "NewReader src = \<lparr>source = src, maxPayload = int MaxPayload, versions = {thisVersion}\<rparr>"

definition Accept :: "reader \<Rightarrow> byte \<Rightarrow> reader" where
  "Accept r v = r\<lparr>versions := insert v (versions r)\<rparr>"

definition Limit :: "reader \<Rightarrow> int \<Rightarrow> reader" where
  "Limit r n = r\<lparr>maxPayload := n\<rparr>"

text \<open>
  \<^verbatim>\<open>io.ReadFull\<close>: reads pieces until \<open>need\<close> more bytes are there. The end of the stream is
  \<^verbatim>\<open>EOF\<close> when nothing was read and \<^verbatim>\<open>ErrUnexpectedEOF\<close> when something was.
\<close>

fun readFull :: "nat \<Rightarrow> bytes \<Rightarrow> bytes list \<Rightarrow> (frame_error + bytes) \<times> bytes list" where
  "readFull need acc [] =
     (if need = 0 then Inr acc else if acc = [] then Inl EOF else Inl ErrUnexpectedEOF, [])"
| "readFull need acc (c # cs) =
     (if need = 0 then (Inr acc, c # cs)
      else if length c \<le> need then readFull (need - length c) (acc @ c) cs
      else (Inr (acc @ take need c), drop need c # cs))"

definition Read_frame :: "reader \<Rightarrow> (frame_error + frame) \<times> reader" where
  "Read_frame r =
     (case readFull HeaderBytes [] (source r) of
        (Inl e, src) \<Rightarrow> (Inl e, r\<lparr>source := src\<rparr>)
      | (Inr header, src) \<Rightarrow>
          (let version = header ! 0 in
           if version \<notin> versions r then (Inl (ErrVersion version), r\<lparr>source := src\<rparr>)
           else let len = unbe (seg header 6 10) in
           if int len > maxPayload r then (Inl (ErrPayloadTooLarge len), r\<lparr>source := src\<rparr>)
           else (case readFull len [] src of
                   (Inl e, src') \<Rightarrow> (Inl (if e = EOF then ErrUnexpectedEOF else e), r\<lparr>source := src'\<rparr>)
                 | (Inr payload, src') \<Rightarrow>
                     (Inr \<lparr>Version = version, Type = header ! 1,
                           ID = word_of_nat (unbe (seg header 2 6)), Payload = payload\<rparr>,
                      r\<lparr>source := src'\<rparr>))))"

text \<open>Reading to the end of the stream: the frames read before the error that stopped it.\<close>

fun readAll :: "nat \<Rightarrow> reader \<Rightarrow> frame list \<times> frame_error option" where
  "readAll 0 r = ([], None)"
| "readAll (Suc n) r =
     (case Read_frame r of
        (Inl e, _) \<Rightarrow> ([], Some e)
      | (Inr f, r') \<Rightarrow> (let (fs, e) = readAll n r' in (f # fs, e)))"

section \<open>The pieces do not matter\<close>

lemma readFull_enough:
  "need \<le> length (concat cs) \<Longrightarrow>
     \<exists>cs'. readFull need acc cs = (Inr (acc @ take need (concat cs)), cs') \<and> concat cs' = drop need (concat cs)"
proof (induction need acc cs rule: readFull.induct)
  case (1 need acc)
  then show ?case by simp
next
  case (2 need acc c cs)
  show ?case
  proof (cases "need = 0 \<or> need < length c")
    case True
    then show ?thesis by auto
  next
    case False
    then have "\<exists>cs'. readFull (need - length c) (acc @ c) cs =
        (Inr ((acc @ c) @ take (need - length c) (concat cs)), cs') \<and> concat cs' = drop (need - length c) (concat cs)"
      using 2 by auto
    with False show ?thesis by auto
  qed
qed

lemma readFull_short:
  "length (concat cs) < need \<Longrightarrow>
     readFull need acc cs = (Inl (if acc = [] \<and> concat cs = [] then EOF else ErrUnexpectedEOF), [])"
  by (induction need acc cs rule: readFull.induct) auto

text \<open>The frame as it comes back: a version of zero is written as this side's version.\<close>

definition sent :: "frame \<Rightarrow> frame" where
  "sent f = f\<lparr>Version := (if Version f = 0 then thisVersion else Version f)\<rparr>"

definition readable :: "reader \<Rightarrow> frame \<Rightarrow> bool" where
  "readable r f \<longleftrightarrow>
     Version (sent f) \<in> versions r \<and> int (length (Payload f)) \<le> maxPayload r \<and> length (Payload f) \<le> MaxPayload"

lemma frame_eqI:
  "Version f = Version g \<Longrightarrow> Type f = Type g \<Longrightarrow> ID f = ID g \<Longrightarrow> Payload f = Payload g \<Longrightarrow> f = (g :: frame)"
  by (cases f; cases g) simp

definition header_of :: "frame \<Rightarrow> bytes" where
  "header_of f = [Version (sent f), Type f] @ be 4 (unat (ID f)) @ be 4 (length (Payload f))"

lemma Encode_frame_eq:
  "length (Payload f) \<le> MaxPayload \<Longrightarrow> Encode_frame f = Inr (header_of f @ Payload f)"
  by (simp add: Encode_frame_def header_of_def sent_def Let_def)

lemma header_fields:
  assumes "length (Payload f) \<le> MaxPayload"
  shows "length (header_of f) = HeaderBytes" "header_of f ! 0 = Version (sent f)" "header_of f ! 1 = Type f"
    "unbe (seg (header_of f) 6 10) = length (Payload f)"
    "(word_of_nat (unbe (seg (header_of f) 2 6)) :: 32 word) = ID f"
proof -
  have id: "unat (ID f) < 256 ^ 4" using unsigned_less [of "ID f"] by simp
  have len: "length (Payload f) < 256 ^ 4" using assms by (simp add: MaxPayload_def)
  show "length (header_of f) = HeaderBytes" "header_of f ! 0 = Version (sent f)" "header_of f ! 1 = Type f"
    by (simp_all add: header_of_def HeaderBytes_def)
  have "seg (header_of f) 6 10 = be 4 (length (Payload f))" "seg (header_of f) 2 6 = be 4 (unat (ID f))"
    by (simp_all add: header_of_def seg_def)
  with id len show "unbe (seg (header_of f) 6 10) = length (Payload f)"
    "(word_of_nat (unbe (seg (header_of f) 2 6)) :: 32 word) = ID f"
    by simp_all
qed

lemma Read_frame_sent:
  assumes "readable r f" "Encode_frame f = Inr bs" "concat (source r) = bs @ rest"
  shows "\<exists>src. Read_frame r = (Inr (sent f), r\<lparr>source := src\<rparr>) \<and> concat src = rest"
proof -
  have len: "length (Payload f) \<le> MaxPayload" using assms(1) by (simp add: readable_def)
  have src: "concat (source r) = header_of f @ Payload f @ rest"
    using assms(2,3) Encode_frame_eq [OF len] by simp
  note h = header_fields [OF len]
  obtain s1 where s1: "readFull HeaderBytes [] (source r) = (Inr (header_of f), s1)" "concat s1 = Payload f @ rest"
    using readFull_enough [of HeaderBytes "source r" "[]"] src h(1) by auto
  obtain s2 where s2: "readFull (length (Payload f)) [] s1 = (Inr (Payload f), s2)" "concat s2 = rest"
    using readFull_enough [of "length (Payload f)" s1 "[]"] s1(2) by auto
  have "Read_frame r = (Inr \<lparr>Version = Version (sent f), Type = Type f, ID = ID f, Payload = Payload f\<rparr>, r\<lparr>source := s2\<rparr>)"
    using assms(1) s1(1) s2(1) h by (simp add: Read_frame_def Let_def readable_def)
  moreover have "\<lparr>Version = Version (sent f), Type = Type f, ID = ID f, Payload = Payload f\<rparr> = sent f"
    by (simp add: frame_eqI sent_def)
  ultimately show ?thesis using s2(2) by auto
qed

section \<open>The interface\<close>

definition enc_frame :: "reader \<Rightarrow> frame \<Rightarrow> bytes" where
  "enc_frame r f = (case Encode_frame f of Inl _ \<Rightarrow> [] | Inr bs \<Rightarrow> bs)"

definition dec_frame :: "reader \<Rightarrow> bytes \<Rightarrow> (frame \<times> bytes) option" where
  "dec_frame r bs =
     (case Read_frame (r\<lparr>source := [bs]\<rparr>) of
        (Inl _, _) \<Rightarrow> None
      | (Inr f, r') \<Rightarrow> Some (f, concat (source r')))"

definition frame_ok :: "reader \<Rightarrow> frame \<Rightarrow> bool" where
  "frame_ok r f \<longleftrightarrow> readable r f \<and> Version f \<noteq> 0"

interpretation framec: stream_codec enc_frame dec_frame frame_ok
proof
  fix r f rest
  assume "frame_ok r f"
  then have "readable (r\<lparr>source := [enc_frame r f @ rest]\<rparr>) f" "Encode_frame f = Inr (enc_frame r f)" "sent f = f"
    by (auto simp: frame_ok_def readable_def enc_frame_def Encode_frame_eq sent_def)
  then show "dec_frame r (enc_frame r f @ rest) = Some (f, rest)"
    using Read_frame_sent [of "r\<lparr>source := [enc_frame r f @ rest]\<rparr>" f "enc_frame r f" rest]
    by (auto simp: dec_frame_def)
qed

section \<open>Properties\<close>

lemma readAll_sent:
  assumes "list_all (readable r) fs" "concat (source r) = concat (map (enc_frame r) fs)"
  shows "readAll (Suc (length fs)) r = (map sent fs, Some EOF)"
  using assms
proof (induction fs arbitrary: r)
  case Nil
  then have "readFull HeaderBytes [] (source r) = (Inl EOF, [])"
    using readFull_short [of "source r" HeaderBytes "[]"] by (simp only: list.map concat.simps HeaderBytes_def) simp
  then show ?case by (simp add: Read_frame_def)
next
  case (Cons f fs)
  then have f: "readable r f" "Encode_frame f = Inr (enc_frame r f)"
    by (auto simp: enc_frame_def readable_def Encode_frame_eq)
  obtain src where src: "Read_frame r = (Inr (sent f), r\<lparr>source := src\<rparr>)"
    "concat src = concat (map (enc_frame r) fs)"
    using Read_frame_sent [OF f] Cons.prems(2) by auto
  have "list_all (readable (r\<lparr>source := src\<rparr>)) fs"
    using Cons.prems(1) by (simp add: readable_def list_all_iff)
  moreover have "enc_frame (r\<lparr>source := src\<rparr>) = enc_frame r"
    by (simp add: enc_frame_def fun_eq_iff)
  ultimately have "readAll (Suc (length fs)) (r\<lparr>source := src\<rparr>) = (map sent fs, Some EOF)"
    using Cons.IH [of "r\<lparr>source := src\<rparr>"] src(2) by simp
  with src(1) show ?case by simp
qed

text \<open>
  C33. Frames survive the wire whatever the pieces: when a list of frames the reader accepts is
  written one after the other and arrives cut into pieces anywhere, reading returns exactly
  those frames in order (a zero version as this side's version) and then a clean end of stream.
\<close>

theorem read_all_frames:
  assumes "\<forall>f \<in> set fs. readable r f"
    and "\<forall>f \<in> set fs. Encode_frame f = Inr (enc f)"
    and "concat (source r) = concat (map enc fs)"
  shows "readAll (Suc (length fs)) r = (map sent fs, Some EOF)"
proof -
  have "map enc fs = map (enc_frame r) fs"
    using assms(2) by (simp add: enc_frame_def)
  with assms show ?thesis
    using readAll_sent [of r fs] by (simp add: list_all_iff)
qed

theorem read_all_frames_witness:
  "let f = \<lparr>Version = 0, Type = Ping, ID = 7, Payload = [1, 2]\<rparr>;
       r = NewReader [[1, 3, 0], [0, 0], [7, 0, 0, 0, 2, 1], [2]] in
     readable r f \<and> Encode_frame f = Inr [1, 3, 0, 0, 0, 7, 0, 0, 0, 2, 1, 2]
     \<and> readAll (Suc (length [f])) r = ([f\<lparr>Version := 1\<rparr>], Some EOF)"
proof -
  let ?f = "\<lparr>Version = 0, Type = Ping, ID = 7, Payload = [1, 2]\<rparr>"
  let ?r = "NewReader [[1, 3, 0], [0, 0], [7, 0, 0, 0, 2, 1], [2]]"
  have a: "readable ?r ?f"
    by (simp add: readable_def NewReader_def sent_def thisVersion_def MaxPayload_def)
  have e: "Encode_frame ?f = Inr [1, 3, 0, 0, 0, 7, 0, 0, 0, 2, 1, 2]"
    by (simp add: Encode_frame_def MaxPayload_def thisVersion_def Ping_def Let_def be_numeral)
  have "readAll (Suc (length [?f])) ?r = (map sent [?f], Some EOF)"
    by (rule read_all_frames [where enc = "\<lambda>_. [1, 3, 0, 0, 0, 7, 0, 0, 0, 2, 1, 2]"])
      (use a e in \<open>simp_all add: NewReader_def\<close>)
  with a e show ?thesis by (simp add: sent_def thisVersion_def Let_def)
qed

text \<open>
  A reader never believes a length: whatever the stream holds, a frame that is returned
  carries a version the reader was told to accept and a payload within its limit, and it is
  exactly the bytes that were taken off the stream, written out again.
\<close>

theorem read_frame_sound:
  assumes "Read_frame r = (Inr f, r')"
  shows "Version f \<in> versions r \<and> int (length (Payload f)) \<le> maxPayload r
    \<and> (\<exists>bs. concat (source r) = bs @ concat (source r') \<and> length bs = HeaderBytes + length (Payload f)
          \<and> drop HeaderBytes bs = Payload f \<and> bs ! 0 = Version f)"
proof -
  let ?bs = "concat (source r)"
  from assms obtain header s1 where h: "readFull HeaderBytes [] (source r) = (Inr header, s1)"
    by (auto simp: Read_frame_def Let_def split: prod.splits sum.splits if_splits)
  have l1: "HeaderBytes \<le> length ?bs"
    using h readFull_short [of "source r" HeaderBytes "[]"] by (cases "HeaderBytes \<le> length ?bs") auto
  then have h': "header = take HeaderBytes ?bs" "concat s1 = drop HeaderBytes ?bs"
    using readFull_enough [OF l1, of "[]"] h by auto
  define len where "len = unbe (seg header 6 10)"
  from assms h obtain s2 where p: "readFull len [] s1 = (Inr (Payload f), s2)"
    "Version f = header ! 0" "header ! 0 \<in> versions r" "int len \<le> maxPayload r" "source r' = s2"
    by (auto simp: Read_frame_def Let_def len_def split: prod.splits sum.splits if_splits)
  have l2: "len \<le> length (concat s1)"
    using p(1) readFull_short [of s1 len "[]"] by (cases "len \<le> length (concat s1)") auto
  then have p': "Payload f = take len (concat s1)" "concat s2 = drop len (concat s1)"
    using readFull_enough [OF l2, of "[]"] p(1) by auto
  have "?bs = take (HeaderBytes + len) ?bs @ concat (source r')"
    using p' h' p(5) by (simp add: add.commute)
  moreover have "drop HeaderBytes (take (HeaderBytes + len) ?bs) = Payload f"
    using p' h' by (simp add: drop_take)
  ultimately show ?thesis
    using p p' h' l1 l2 by (intro conjI exI [of _ "take (HeaderBytes + len) ?bs"]) (auto simp: HeaderBytes_def)
qed

theorem read_frame_sound_witness:
  "let r = NewReader [[1, 3, 0, 0, 0, 7, 0, 0, 0, 1, 9, 5]] in
     (\<exists>f r'. Read_frame r = (Inr f, r') \<and> Version f \<in> versions r \<and> Payload f = [9])"
proof -
  let ?r = "NewReader [[1, 3, 0, 0, 0, 7, 0, 0, 0, 1, 9, 5]]"
  have e: "Read_frame ?r = (Inr \<lparr>Version = 1, Type = 3, ID = 7, Payload = [9]\<rparr>, ?r\<lparr>source := [[5]]\<rparr>)"
    by (simp add: Read_frame_def NewReader_def HeaderBytes_def thisVersion_def MaxPayload_def seg_def
        unbe_def)
  from read_frame_sound [OF e] e show ?thesis by (simp add: Let_def)
qed

end
