(* ===== verification/Ulid.thy ===== *)
theory Ulid
  imports Prelude
begin

unbundle bit_operations_syntax

text \<open>
  Identifiers that sort by the time they were made (\<^verbatim>\<open>internal/ulid/ulid.go\<close>): 48 bits of millisecond
  timestamp and 80 bits of randomness, written as 26 characters of Crockford's base32.

  The clock and the reader of random bytes are the source's own functions. Here each is the sequence
  of what it will answer: the clock a number of milliseconds (the 64 bits of the \<^verbatim>\<open>int64\<close>), the reader
  the bytes of the next \<^verbatim>\<open>io.ReadFull\<close>, which is an error when they are fewer than asked for - after
  the ones that did come were copied.
\<close>

section \<open>The source\<close>

datatype ulid_error = ErrExhausted | ErrClock "64 word" | ErrNoRandomness | ErrIdLength nat | ErrIdCharacter nat

definition Size :: nat where "Size = 26"

definition alphabet :: bytes where
  "alphabet = map of_char ''0123456789ABCDEFGHJKMNPQRSTVWXYZ''"

record source =
  now :: "nat \<Rightarrow> 64 word"
  random :: "nat \<Rightarrow> bytes"
  last_stamp :: "64 word"
  seed :: bytes

definition With :: "(nat \<Rightarrow> 64 word) \<Rightarrow> (nat \<Rightarrow> bytes) \<Rightarrow> source" where
  "With clock reader = \<lparr>now = clock, random = reader, last_stamp = 0, seed = replicate 10 0\<rparr>"

text \<open>One reading of the clock; one \<^verbatim>\<open>io.ReadFull\<close> into the seed.\<close>

definition readClock :: "source \<Rightarrow> 64 word \<times> source" where
  "readClock s = (now s 0, s\<lparr>now := \<lambda>i. now s (Suc i)\<rparr>)"

definition readSeed :: "source \<Rightarrow> bool \<times> source" where
  "readSeed s =
     (let got = take 10 (random s 0) in
      (length got = 10, s\<lparr>random := \<lambda>i. random s (Suc i), seed := got @ drop (length got) (seed s)\<rparr>))"

text \<open>The loop of \<^verbatim>\<open>increment\<close> from a byte towards the front: whether it stopped, and the bytes.\<close>

fun incrementFrom :: "nat \<Rightarrow> bytes \<Rightarrow> bool \<times> bytes" where
  "incrementFrom 0 bs = (False, bs)"
| "incrementFrom (Suc i) bs =
     (let bs = bs[i := bs ! i + 1] in if bs ! i \<noteq> 0 then (True, bs) else incrementFrom i bs)"

definition increment :: "bytes \<Rightarrow> bool \<times> bytes" where
  "increment bs = incrementFrom (length bs) bs"

section \<open>Writing and reading identifiers\<close>

text \<open>The inner loop: characters are put in front of the ones there are, five bits at a time.\<close>

function takeFives :: "16 word \<times> nat \<times> bytes \<Rightarrow> 16 word \<times> nat \<times> bytes" where
  "takeFives (bits, held, out) =
     (if held \<ge> 5 then takeFives (drop_bit 5 bits, held - 5, alphabet ! unat (bits AND 0x1f) # out)
      else (bits, held, out))"
  by pat_completeness auto
termination by (relation "measure (\<lambda>(bits, held, out). held)") auto

declare takeFives.simps [simp del]

fun writeBytes :: "bytes \<Rightarrow> 16 word \<times> nat \<times> bytes \<Rightarrow> 16 word \<times> nat \<times> bytes" where
  "writeBytes [] st = st"
| "writeBytes (b # bs) (bits, held, out) =
     writeBytes bs (takeFives (bits OR push_bit held (ucast b), held + 8, out))"

definition write_id :: "64 word \<Rightarrow> bytes \<Rightarrow> bytes" where
  "write_id stamp sd =
     (let raw = map (\<lambda>i. ucast (drop_bit (40 - 8 * i) stamp)) [0..<6] @ sd;
          (bits, held, out) = writeBytes (rev raw) (0, 0, []);
          out = (if length out < Size then alphabet ! unat (bits AND 0x1f) # out else out)
      in replicate (Size - length out) (alphabet ! 0) @ out)"

definition index_of :: "byte \<Rightarrow> nat option" where
  "index_of c = find (\<lambda>i. alphabet ! i = c) [0..<length alphabet]"

fun timeFrom :: "nat \<Rightarrow> bytes \<Rightarrow> 64 word \<Rightarrow> ulid_error + 64 word" where
  "timeFrom i [] stamp = Inr stamp"
| "timeFrom i (c # cs) stamp =
     (case index_of c of
        None \<Rightarrow> Inl (ErrIdCharacter i)
      | Some v \<Rightarrow> timeFrom (Suc i) cs (push_bit 5 stamp OR word_of_nat v))"

text \<open>The milliseconds of \<^verbatim>\<open>Time\<close>.\<close>

definition Time :: "bytes \<Rightarrow> ulid_error + 64 word" where
  "Time i =
     (if length i \<noteq> Size then Inl (ErrIdLength (length i))
      else case timeFrom 0 (take 10 i) 0 of
             Inl e \<Rightarrow> Inl e
           | Inr stamp \<Rightarrow> Inr (stamp AND mask 48))"

section \<open>The next identifier\<close>

definition Next :: "source \<Rightarrow> (ulid_error + bytes) \<times> source" where
  "Next s =
     (let (stamp, s) = readClock s in
      if drop_bit 48 stamp \<noteq> 0 then (Inl (ErrClock stamp), s)
      else if stamp > last_stamp s then
        (let (ok, s) = readSeed s in
         if \<not> ok then (Inl ErrNoRandomness, s)
         else let s = s\<lparr>last_stamp := stamp\<rparr> in (Inr (write_id stamp (seed s)), s))
      else
        (let (ok, sd) = increment (seed s); s = s\<lparr>seed := sd\<rparr> in
         if \<not> ok then (Inl ErrExhausted, s)
         else (Inr (write_id (last_stamp s) sd), s)))"

text \<open>Identifiers asked for one after the other, as long as none fails.\<close>

fun issue :: "nat \<Rightarrow> source \<Rightarrow> (ulid_error + bytes list) \<times> source" where
  "issue 0 s = (Inr [], s)"
| "issue (Suc n) s =
     (case Next s of
        (Inl e, s) \<Rightarrow> (Inl e, s)
      | (Inr i, s) \<Rightarrow> (case issue n s of (Inl e, s) \<Rightarrow> (Inl e, s) | (Inr ids, s) \<Rightarrow> (Inr (i # ids), s)))"

section \<open>Base 32\<close>

text \<open>The number a string of digits stands for, and the digits of a number, most significant first.\<close>

primrec b32 :: "nat \<Rightarrow> nat \<Rightarrow> bytes" where
  "b32 0 n = []"
| "b32 (Suc k) n = b32 k (n div 32) @ [alphabet ! (n mod 32)]"

lemma length_b32 [simp]: "length (b32 k n) = k"
  by (induction k arbitrary: n) auto

lemma alphabet_sorted: "sorted_wrt (<) alphabet" and length_alphabet [simp]: "length alphabet = 32"
  by (simp_all add: alphabet_def)

lemma alphabet_less: "i < j \<Longrightarrow> j < 32 \<Longrightarrow> alphabet ! i < alphabet ! j"
  using sorted_wrt_nth_less [OF alphabet_sorted] by simp

lemma alphabet_less_iff: "i < 32 \<Longrightarrow> j < 32 \<Longrightarrow> alphabet ! i < alphabet ! j \<longleftrightarrow> i < j"
  using alphabet_less [of i j] alphabet_less [of j i] by (cases i j rule: linorder_cases) auto

lemma b32_less: "n < m \<Longrightarrow> m < 32 ^ k \<Longrightarrow> b32 k n < b32 k m"
proof (induction k arbitrary: n m)
  case (Suc k)
  have lt: "m div 32 < 32 ^ k" using Suc.prems(2) by (simp add: div_less_iff_less_mult mult.commute)
  show ?case
  proof (cases "n div 32 = m div 32")
    case True
    then have "n mod 32 < m mod 32" using Suc.prems(1) by (metis div_mult_mod_eq nat_add_left_cancel_less)
    then show ?thesis using True by (simp add: append_less_append alphabet_less)
  next
    case False
    then have "n div 32 < m div 32" using Suc.prems(1) by (simp add: div_le_mono le_neq_implies_less)
    from Suc.IH [OF this lt] have "b32 k (n div 32) < b32 k (m div 32)" .
    then show ?thesis by (auto simp: list_less_def intro: lexord_sufI)
  qed
qed simp

lemma b32_Cons: "b32 (Suc k) n = alphabet ! (n div 32 ^ k mod 32) # b32 k n"
  by (induction k arbitrary: n) (auto simp: div_mult2_eq mult.commute)

lemma b32_mod: "b32 k (n mod 32 ^ k) = b32 k n"
proof (induction k arbitrary: n)
  case (Suc k)
  have "n mod 32 ^ Suc k div 32 = n div 32 mod 32 ^ k" by (simp add: mod_mult2_eq)
  moreover have "n mod 32 ^ Suc k mod 32 = n mod 32" by (simp add: mod_mod_cancel)
  ultimately show ?case using Suc by simp
qed simp

section \<open>What is written is the number in base 32\<close>

lemma nat_or_push: "a < 2 ^ n \<Longrightarrow> (a :: nat) OR push_bit n b = a + 2 ^ n * b"
proof -
  assume "a < 2 ^ n"
  then have "take_bit n a = a" by (simp add: take_bit_nat_eq_self)
  moreover have "take_bit n a AND push_bit n b = 0" by (simp add: bit_eq_iff bit_simps)
  ultimately show ?thesis using disjunctive_add_eq_or [of a "push_bit n b"] by (simp add: push_bit_eq_mult mult.commute)
qed

lemma unat_low5: "unat ((bits :: 16 word) AND 0x1f) = unat bits mod 32"
proof -
  have "bits AND 0x1f = take_bit 5 bits" by (simp add: take_bit_eq_mask mask_eq_exp_minus_1)
  then show ?thesis by (simp only: unsigned_take_bit_eq) (simp add: take_bit_eq_mod)
qed

lemma unat_drop: "unat (drop_bit k (w :: 'a::len word)) = unat w div 2 ^ k"
  by (simp only: unsigned_drop_bit_eq) (simp add: drop_bit_eq_div take_bit_nat_eq_self)

text \<open>\<open>spelled (bits, held, out) n\<close>: the digits written and the bits held back are the number \<open>n\<close>.\<close>

definition spelled :: "16 word \<times> nat \<times> bytes \<Rightarrow> nat \<Rightarrow> bool" where
  "spelled st n \<longleftrightarrow> (case st of (bits, held, out) \<Rightarrow>
     out = b32 (length out) n \<and> unat bits = n div 32 ^ length out \<and> unat bits < 2 ^ held)"

lemma takeFives_spelled:
  "spelled (bits, held, out) n \<Longrightarrow> takeFives (bits, held, out) = (bits', held', out') \<Longrightarrow>
     spelled (bits', held', out') n \<and> held' < 5 \<and> held' + 5 * length out' = held + 5 * length out"
proof (induction "(bits, held, out)" arbitrary: bits held out rule: takeFives.induct)
  case (1 bits held out)
  show ?case
  proof (cases "held \<ge> 5")
    case True
    let ?st = "(drop_bit 5 bits, held - 5, alphabet ! unat (bits AND 0x1f) # out)"
    have "unat (drop_bit 5 bits) < 2 ^ (held - 5)"
    proof -
      have "unat bits < 2 ^ (held - 5) * 32"
        using 1(2) True power_add [of "2::nat" "held - 5" 5] by (simp add: spelled_def)
      then show ?thesis unfolding unat_drop by (simp add: div_less_iff_less_mult)
    qed
    moreover have "b32 (Suc (length out)) n = alphabet ! unat (bits AND 0x1f) # out"
      using 1(2) by (simp add: spelled_def b32_Cons unat_low5 del: b32.simps)
    moreover have "unat (drop_bit 5 bits) = n div 32 ^ Suc (length out)"
      using 1(2) unfolding unat_drop spelled_def by (simp add: div_mult2_eq [symmetric] mult.commute)
    ultimately have "spelled ?st n" by (simp add: spelled_def del: b32.simps)
    moreover have "takeFives ?st = (bits', held', out')" using 1(3) True by (simp add: takeFives.simps [of bits])
    ultimately show ?thesis using 1(1) [OF True] True by fastforce
  next
    case False
    with 1 show ?thesis by (auto simp: takeFives.simps [of bits])
  qed
qed

lemma byte_less: "unat (b :: byte) < 256"
  using unsigned_less [of b] by simp

lemma or_byte: "unat (bits :: 16 word) < 2 ^ held \<Longrightarrow> held < 5 \<Longrightarrow>
   unat (bits OR push_bit held (ucast (b :: byte))) = unat bits + 2 ^ held * unat b"
proof -
  assume b: "unat bits < 2 ^ held" and h: "held < 5"
  have "(2::nat) ^ held \<le> 2 ^ 4" using h by (intro power_increasing) auto
  then have "2 ^ held * unat b < 2 ^ 4 * 2 ^ 8"
    using byte_less [of b] by (intro mult_le_less_imp_less) auto
  then have "unat (push_bit held (ucast b :: 16 word)) = push_bit held (unat b)"
    by (simp only: unsigned_push_bit_eq unsigned_ucast_eq)
      (simp add: take_bit_nat_eq_self push_bit_eq_mult mult.commute byte_less [THEN less_trans])
  then show ?thesis using nat_or_push [OF b, of "unat b"] by (simp only: unsigned_or_eq)
qed

lemma writeBytes_spelled:
  assumes "spelled (bits, held, out) n" "held < 5" "n < 2 ^ (held + 5 * length out)" "writeBytes bs (bits, held, out) = (bits', held', out')"
  shows "spelled (bits', held', out') (n + 2 ^ (held + 5 * length out) * unbe (rev bs))
    \<and> held' < 5 \<and> held' + 5 * length out' = 8 * length bs + held + 5 * length out"
  using assms
proof (induction bs arbitrary: bits held out n)
  case (Cons b bs)
  let ?k = "length out" and ?w = "held + 5 * length out"
  let ?n = "n + 2 ^ ?w * unat b"
  have p: "(2::nat) ^ ?w = 2 ^ held * 32 ^ ?k" by (simp add: power_add power_mult)
  have d: "?n div 32 ^ ?k = n div 32 ^ ?k + 2 ^ held * unat b"
  proof -
    have "?n = n + 32 ^ ?k * (2 ^ held * unat b)" unfolding p by simp
    then show ?thesis by (simp only: div_mult_self2 power_not_zero zero_neq_numeral simp_thms)
  qed
  have m: "?n mod 32 ^ ?k = n mod 32 ^ ?k"
  proof -
    have "?n = n + 32 ^ ?k * (2 ^ held * unat b)" unfolding p by simp
    then show ?thesis by (simp only: mod_mult_self2)
  qed
  have u: "unat (bits OR push_bit held (ucast b)) = unat bits + 2 ^ held * unat b"
    by (rule or_byte) (use Cons.prems(1,2) in \<open>auto simp: spelled_def\<close>)
  have "unat bits + 2 ^ held * unat b < 2 ^ (held + 8)"
  proof -
    have "unat bits < 2 ^ held" using Cons.prems(1) by (simp add: spelled_def)
    then have "unat bits + 2 ^ held * unat b < 2 ^ held * (unat b + 1)" by simp
    also have "\<dots> \<le> 2 ^ held * 2 ^ 8" using byte_less [of b] by (intro mult_le_mono) auto
    finally show ?thesis by (simp only: power_add)
  qed
  then have s: "spelled (bits OR push_bit held (ucast b), held + 8, out) ?n"
    using Cons.prems(1) b32_mod [of ?k n] b32_mod [of ?k ?n] by (simp add: spelled_def u d m)
  obtain b1 h1 o1 where t: "takeFives (bits OR push_bit held (ucast b), held + 8, out) = (b1, h1, o1)"
    by (cases "takeFives (bits OR push_bit held (ucast b), held + 8, out)")
  note tf = takeFives_spelled [OF s t]
  have "?n < 2 ^ (h1 + 5 * length o1)"
  proof -
    have "n + 2 ^ ?w * unat b < 2 ^ ?w * (unat b + 1)" using Cons.prems(3) by simp
    also have "\<dots> \<le> 2 ^ ?w * 2 ^ 8" using byte_less [of b] by (intro mult_le_mono) auto
    finally show ?thesis using tf by (simp add: power_add mult.assoc)
  qed
  from Cons.IH [OF conjunct1 [OF tf] _ this] tf t Cons.prems(4)
  have ih: "spelled (bits', held', out') (?n + 2 ^ (h1 + 5 * length o1) * unbe (rev bs))" "held' < 5"
    "held' + 5 * length out' = 8 * length bs + h1 + 5 * length o1"
    by auto
  have eq: "?n + 2 ^ (h1 + 5 * length o1) * unbe (rev bs) = n + 2 ^ ?w * unbe (rev (b # bs))"
    using tf by (simp add: power_add algebra_simps)
  show ?case
  proof (intro conjI)
    show "spelled (bits', held', out') (n + 2 ^ ?w * unbe (rev (b # bs)))" using ih(1) unfolding eq .
  qed (use ih(2,3) tf in simp_all)
qed simp

lemma stamp_bytes: "map (\<lambda>i. ucast (drop_bit (40 - 8 * i) stamp)) [0..<6] = be 6 (unat (stamp :: 64 word))"
proof -
  have "(ucast (drop_bit k stamp) :: byte) = word_of_nat (unat stamp div 2 ^ k)" for k
    by (simp add: unsigned_of_nat flip: unat_drop)
  then show ?thesis by (simp add: upt_rec be_numeral div_mult2_eq [symmetric])
qed

text \<open>The number an identifier stands for, and the identifier as that number in base 32.\<close>

definition id_number :: "64 word \<Rightarrow> bytes \<Rightarrow> nat" where
  "id_number stamp sd = unat stamp * 256 ^ length sd + unbe sd"

lemma unbe_append: "unbe (xs @ ys) = unbe xs * 256 ^ length ys + unbe ys"
  by (induction ys rule: rev_induct) (auto simp: append_assoc [symmetric] simp del: append_assoc)

lemma write_id_b32:
  assumes "unat stamp < 2 ^ 48" "length sd = 10"
  shows "write_id stamp sd = b32 26 (id_number stamp sd)"
proof -
  let ?raw = "be 6 (unat stamp) @ sd"
  obtain bits held out where w: "writeBytes (rev ?raw) (0, 0, []) = (bits, held, out)"
    by (cases "writeBytes (rev ?raw) (0, 0, [])")
  have n: "unbe ?raw = id_number stamp sd" using assms by (simp add: unbe_append id_number_def)
  have s0: "spelled (0, 0, []) 0" by (simp add: spelled_def)
  from writeBytes_spelled [OF s0 _ _ w] n assms(2)
  have s: "spelled (bits, held, out) (id_number stamp sd)" "held < 5" "held + 5 * length out = 128" by simp_all
  then have l: "length out = 25" by presburger
  have "unat bits < 32" using s l by (simp add: spelled_def)
  then have "alphabet ! unat (bits AND 0x1f) # out = b32 26 (id_number stamp sd)"
    using s(1) l b32_Cons [of 25 "id_number stamp sd"] by (simp add: spelled_def unat_low5 del: b32.simps)
  then show ?thesis using w l by (simp add: write_id_def stamp_bytes Size_def)
qed

section \<open>Order and time\<close>

lemma increment_spec:
  "i \<le> length bs \<Longrightarrow> incrementFrom i bs = (ok, bs') \<Longrightarrow>
     length bs' = length bs \<and> drop i bs' = drop i bs \<and> (ok \<longrightarrow> unbe (take i bs') = unbe (take i bs) + 1)
       \<and> (\<not> ok \<longrightarrow> take i bs' = replicate i 0 \<and> unbe (take i bs) + 1 = 256 ^ i)"
proof (induction i arbitrary: bs)
  case (Suc i)
  let ?bs = "bs[i := bs ! i + 1]"
  have t: "take (Suc i) xs = take i xs @ [xs ! i]" if "length xs = length bs" for xs :: bytes
    using Suc.prems(1) that by (simp add: take_Suc_conv_app_nth)
  show ?case
  proof (cases "bs ! i + 1 = 0")
    case False
    then have "unat (bs ! i + 1) = unat (bs ! i) + 1"
      by (metis add.commute unatSuc Suc_eq_plus1)
    with Suc.prems False show ?thesis by (auto simp: t Let_def)
  next
    case True
    then have "bs ! i = - 1" by (simp add: eq_neg_iff_add_eq_0)
    then have u: "unat (bs ! i) = 255" by (simp add: unsigned_minus_1_eq_mask mask_eq_exp_minus_1)
    have run: "incrementFrom i ?bs = (ok, bs')" using Suc.prems True by simp
    note ih = Suc.IH [OF _ run]
    have l: "length bs' = length bs" "drop i bs' = drop i ?bs" using ih Suc.prems(1) by auto
    then have "bs' ! i = 0" "drop (Suc i) bs' = drop (Suc i) bs"
      using Suc.prems(1) True by (metis Suc_le_lessD hd_drop_conv_nth length_list_update nth_list_update_eq,
          metis drop_Suc tl_drop drop_update_cancel lessI)
    with ih Suc.prems(1) u l show ?thesis by (auto simp: t replicate_append_same [symmetric])
  qed
qed simp

lemma increment_full:
  assumes "increment bs = (ok, bs')"
  shows "length bs' = length bs" "ok \<Longrightarrow> unbe bs' = unbe bs + 1" "\<not> ok \<Longrightarrow> bs' = replicate (length bs) 0"
proof -
  note i = increment_spec [OF order_refl assms [unfolded increment_def]]
  show l: "length bs' = length bs" using i by blast
  then have t: "take (length bs) bs' = bs'" by simp
  show "ok \<Longrightarrow> unbe bs' = unbe bs + 1" "\<not> ok \<Longrightarrow> bs' = replicate (length bs) 0" using i unfolding t by simp_all
qed

lemma id_number_less: "unat stamp < 2 ^ 48 \<Longrightarrow> length sd = 10 \<Longrightarrow> id_number stamp sd < 32 ^ 26"
proof -
  assume a: "unat stamp < 2 ^ 48" "length sd = 10"
  have "unbe sd < 256 ^ 10" using unbe_less [of sd] a by simp
  with a show ?thesis by (simp add: id_number_def)
qed

lemma id_number_mono: "unat a < unat b \<Longrightarrow> length x = 10 \<Longrightarrow> length y = 10 \<Longrightarrow> id_number a x < id_number b y"
proof -
  assume a: "unat a < unat b" "length x = 10" "length y = 10"
  have "unbe x < 256 ^ 10" using unbe_less [of x] a by simp
  then have "id_number a x < (unat a + 1) * 256 ^ 10" using a by (simp add: id_number_def)
  also have "\<dots> \<le> unat b * 256 ^ 10" using a(1) by (intro mult_le_mono) auto
  finally show ?thesis using a by (simp add: id_number_def)
qed

lemma index_alphabet: "i < 32 \<Longrightarrow> index_of (alphabet ! i) = Some i"
proof -
  assume i: "i < 32"
  have "alphabet ! j \<noteq> alphabet ! i" if "j < i" for j using alphabet_less [OF that i] by auto
  then show ?thesis using i unfolding index_of_def
    by (intro find_Some_iff [THEN iffD2]) (auto intro!: exI [of _ i])
qed

lemma push5: "unat (stamp :: 64 word) < 2 ^ 50 \<Longrightarrow> v < 32 \<Longrightarrow> unat (push_bit 5 stamp OR word_of_nat v) = unat stamp * 32 + v"
proof -
  assume s: "unat stamp < 2 ^ 50" and v: "v < 32"
  have "unat (push_bit 5 stamp) = push_bit 5 (unat stamp)"
    using s by (simp only: unsigned_push_bit_eq) (simp add: take_bit_nat_eq_self push_bit_eq_mult)
  moreover have "unat (word_of_nat v :: 64 word) = v" using v by (simp add: unsigned_of_nat take_bit_nat_eq_self)
  ultimately show ?thesis
    using nat_or_push [of v 5 "unat stamp"] v by (simp only: unsigned_or_eq) (simp add: or.commute mult.commute)
qed

lemma timeFrom_b32:
  "k \<le> 10 \<Longrightarrow> m < 32 ^ k \<Longrightarrow> unat stamp * 32 ^ k < 2 ^ 50 \<Longrightarrow>
     timeFrom i (b32 k m) stamp = Inr (word_of_nat (unat stamp * 32 ^ k + m))"
proof (induction k arbitrary: i m stamp)
  case (Suc k)
  let ?d = "m div 32 ^ k"
  have d: "?d < 32" using Suc.prems(2) by (simp add: div_less_iff_less_mult)
  have "unat stamp < 2 ^ 50" using Suc.prems(3) by (metis le_less_trans le_add1 mult.commute mult_le_mono1 nat_mult_1
        one_le_numeral one_le_power)
  then have p: "unat (push_bit 5 stamp OR word_of_nat ?d) = unat stamp * 32 + ?d" using push5 d by blast
  have "(unat stamp * 32 + ?d) * 32 ^ k + m mod 32 ^ k = unat stamp * 32 ^ Suc k + m"
    using div_mult_mod_eq [of m "32 ^ k"] by (simp add: add_mult_distrib)
  moreover have "(unat stamp * 32 + ?d) * 32 ^ k < 2 ^ 50"
  proof -
    have e: "(2::nat) ^ 50 = 32 ^ (9 - k) * 32 ^ Suc k" using Suc.prems(1) by (simp flip: power_add)
    have "unat stamp * 32 ^ Suc k < 32 ^ (9 - k) * 32 ^ Suc k" using Suc.prems(3) by (simp only: e)
    then have "unat stamp < 32 ^ (9 - k)" unfolding mult_less_cancel2 by blast
    then have "unat stamp * 32 + ?d < 32 ^ (9 - k) * 32" using d by linarith
    then have "(unat stamp * 32 + ?d) * 32 ^ k < 32 ^ (9 - k) * 32 * 32 ^ k" by simp
    also have "\<dots> = 2 ^ 50" unfolding e by (simp only: power_Suc mult.assoc)
    finally show ?thesis .
  qed
  moreover have "b32 (Suc k) m = alphabet ! ?d # b32 k (m mod 32 ^ k)"
    using d by (simp add: b32_Cons b32_mod del: b32.simps)
  ultimately show ?case
    using Suc.IH [of "m mod 32 ^ k" "push_bit 5 stamp OR word_of_nat ?d" "Suc i"] Suc.prems(1) d p
    by (simp add: index_alphabet del: b32.simps)
qed simp

lemma b32_take: "j \<le> k \<Longrightarrow> take j (b32 k n) = b32 j (n div 32 ^ (k - j))"
proof (induction k arbitrary: n)
  case (Suc k)
  show ?case
  proof (cases "j = Suc k")
    case False
    then have "j \<le> k" using Suc.prems by simp
    then have "take j (b32 (Suc k) n) = b32 j (n div 32 div 32 ^ (k - j))" using Suc.IH [of "n div 32"] by simp
    with \<open>j \<le> k\<close> show ?thesis by (simp add: Suc_diff_le div_mult2_eq)
  qed (simp del: b32.simps)
qed simp

lemma Time_write:
  assumes s: "unat stamp < 2 ^ 48" and l: "length sd = 10"
  shows "Time (write_id stamp sd) = Inr stamp"
proof -
  have u: "unbe sd < 256 ^ 10" using unbe_less [of sd] l by simp
  have "id_number stamp sd div 32 ^ 16 = unat stamp"
    using u l by (simp add: id_number_def)
  then have "take 10 (write_id stamp sd) = b32 10 (unat stamp)"
    using b32_take [of 10 26 "id_number stamp sd"] by (simp add: write_id_b32 [OF assms] del: b32.simps)
  moreover have "timeFrom 0 (b32 10 (unat stamp)) 0 = Inr stamp"
    using timeFrom_b32 [of 10 "unat stamp" 0 0] s by (simp del: b32.simps)
  moreover have "stamp AND mask 48 = stamp"
  proof (rule word_unat_eq_iff [THEN iffD2])
    show "unat (stamp AND mask 48) = unat stamp"
      unfolding take_bit_eq_mask [symmetric] unsigned_take_bit_eq using s by (rule take_bit_nat_eq_self)
  qed
  ultimately show ?thesis by (simp add: Time_def write_id_b32 [OF assms] Size_def del: b32.simps)
qed

section \<open>Properties\<close>

text \<open>
  Everything an identifier comes with: it is written from the source's own stamp and seed, after any
  identifier written from the stamp and seed before.
\<close>

definition ready_source :: "source \<Rightarrow> bool" where
  "ready_source s \<longleftrightarrow> length (seed s) = 10 \<and> unat (last_stamp s) < 2 ^ 48"

abbreviation number_of :: "source \<Rightarrow> nat" where
  "number_of s \<equiv> id_number (last_stamp s) (seed s)"

lemma Next_spec:
  assumes r: "ready_source s" and n: "Next s = (Inr i, s')"
  shows "ready_source s'" "i = write_id (last_stamp s') (seed s')" "number_of s < number_of s'"
proof -
  let ?t = "now s 0"
  have t: "drop_bit 48 ?t = 0" using n by (auto simp: Next_def readClock_def split: if_splits)
  then have "unat ?t div 2 ^ 48 = 0" by (metis unat_drop unsigned_0)
  then have s48: "unat ?t < 2 ^ 48" by (simp add: div_eq_0_iff)
  have "ready_source s' \<and> i = write_id (last_stamp s') (seed s') \<and> number_of s < number_of s'"
  proof (cases "?t > last_stamp s")
    case True
    have "length (take 10 (random s 0)) = 10" "last_stamp s' = ?t" "seed s' = take 10 (random s 0)" "i = write_id ?t (seed s')"
      using n t True r by (auto simp: Next_def readClock_def readSeed_def Let_def ready_source_def split: if_splits)
    with True r s48 show ?thesis by (auto simp: ready_source_def word_less_nat_alt intro!: id_number_mono)
  next
    case False
    obtain ok sd where i: "increment (seed s) = (ok, sd)" by (cases "increment (seed s)")
    have "ok" "last_stamp s' = last_stamp s" "seed s' = sd" "i = write_id (last_stamp s) sd"
      using n t False i by (auto simp: Next_def readClock_def Let_def split: if_splits)
    with increment_full [OF i] r show ?thesis by (auto simp: ready_source_def id_number_def)
  qed
  then show "ready_source s'" "i = write_id (last_stamp s') (seed s')" "number_of s < number_of s'" by auto
qed

lemma issue_spec:
  "ready_source s \<Longrightarrow> issue n s = (Inr ids, s') \<Longrightarrow>
     ready_source s' \<and> length ids = n \<and> sorted_wrt (<) ids
       \<and> (\<forall>i \<in> set ids. length i = Size \<and> (\<exists>m. i = b32 26 m \<and> number_of s < m \<and> m < 32 ^ 26) \<and> (\<exists>t. Time i = Inr t \<and> unat t < 2 ^ 48))"
proof (induction n arbitrary: s ids)
  case (Suc n)
  from Suc.prems(2) obtain i s1 ids' where n: "Next s = (Inr i, s1)" "issue n s1 = (Inr ids', s')" "ids = i # ids'"
    by (auto split: sum.splits prod.splits)
  note sp = Next_spec [OF Suc.prems(1) n(1)]
  have r: "unat (last_stamp s1) < 2 ^ 48" "length (seed s1) = 10" using sp(1) by (simp_all add: ready_source_def)
  note ih = Suc.IH [OF sp(1) n(2)]
  have i: "i = b32 26 (number_of s1)" using sp(2) write_id_b32 [OF r] by simp
  have "i < j" if "j \<in> set ids'" for j
  proof -
    from ih that obtain m where "j = b32 26 m" "number_of s1 < m" "m < 32 ^ 26" by blast
    then show ?thesis using b32_less [of "number_of s1" m 26] i by (simp del: b32.simps)
  qed
  moreover have "Time i = Inr (last_stamp s1)" using sp(2) Time_write [OF r] by simp
  moreover have "length i = Size" using i by (simp add: Size_def del: b32.simps)
  moreover have "number_of s < number_of s1" "number_of s1 < 32 ^ 26" using sp(3) id_number_less [OF r] by auto
  moreover have "\<exists>m. j = b32 26 m \<and> number_of s < m \<and> m < 32 ^ 26" if "j \<in> set ids'" for j
    using ih that sp(3) less_trans by blast
  ultimately show ?case using ih i r n(3) by (auto simp del: b32.simps)
qed simp


lemma ten: "replicate 10 x = [x, x, x, x, x, x, x, x, x, x]"
  by (simp add: numeral_eq_Suc)


text \<open>
  The time in an identifier is the time it was given: \<^verbatim>\<open>Time\<close> reads back the stamp \<^verbatim>\<open>write\<close> was given, for
  every 48-bit stamp and every seed.
\<close>

theorem time_round_trip:
  assumes "unat stamp < 2 ^ 48" "length sd = 10"
  shows "Time (write_id stamp sd) = Inr stamp"
  by (rule Time_write [OF assms])

theorem time_round_trip_witness: "Time (write_id 1469918176385 (replicate 10 255)) = Inr 1469918176385"
  by (rule time_round_trip) simp_all


end
