(* ===== verification/Vfs.thy ===== *)
theory Vfs
  imports Prelude Complex_Main "HOL-Library.Multiset"
begin

text \<open>
  The disk of \<^verbatim>\<open>internal/vfs/sim.go\<close>: a file that keeps what a restart would find, what the writer
  sees, and the writes in between, and that decides at a power cut what becomes of those. It is
  the model of \<^verbatim>\<open>vfs.File\<close> the pager runs on. Its randomness is a stream of raw draws
  (\<^verbatim>\<open>math/rand\<close>): \<open>float64\<close> is a draw in \<open>[0, 1)\<close>, \<open>intn n\<close> a draw below \<open>n\<close>, \<open>shuffle\<close> the
  swaps of \<^verbatim>\<open>rand.Shuffle\<close>; every theorem holds for every stream. The printed trace is left out.

  The errors of the whole storage engine (disk, pager, tree) are one type, declared here.
\<close>

section \<open>Errors of the storage engine\<close>

datatype err =
    ErrClosed
  | ErrPowerCut
  | ErrNegativeOffset
  | ErrPastEnd
  | ErrShortRead
  | ErrNegativeSize
  | ErrNotSapedb
  | ErrFormat
  | ErrChecksum
  | ErrNoMeta
  | ErrPageKind
  | ErrQuota
  | ErrOutOfRange
  | ErrReadOnlyPage
  | ErrTruncated
  | ErrPageSize
  | ErrFreelist
  | ErrKey
  | ErrNotEncrypted
  | ErrDecrypt
  | ErrLed
  | ErrNotLed
  | ErrKeyTooLarge
  | ErrValueTooLarge
  | ErrBrokenChain
  | ErrEmptyKey
  | ErrMalformed
  | ErrNotANode
  | ErrCannotSplit
  | ErrKeysChildren
  | ErrIndex \<comment> \<open>an index out of range, on which the code panics\<close>
  | ErrDiverges \<comment> \<open>no error of the code: the walk would not end\<close>

section \<open>State-passing computations that may fail\<close>

text \<open>
  An operation on a state returns an error or a value, and the state it left behind in either
  case: a Go method that returns early keeps the changes it has made so far.
\<close>

type_synonym ('s, 'e, 'a) may_fail = "'s \<Rightarrow> ('e + 'a) \<times> 's"
type_synonym ('s, 'a) op = "('s, err, 'a) may_fail"

definition ret :: "'a \<Rightarrow> ('s, 'e, 'a) may_fail" where
  "ret a = (\<lambda>s. (Inr a, s))"

definition throw :: "'e \<Rightarrow> ('s, 'e, 'a) may_fail" where
  "throw e = (\<lambda>s. (Inl e, s))"

definition bnd :: "('s, 'e, 'a) may_fail \<Rightarrow> ('a \<Rightarrow> ('s, 'e, 'b) may_fail) \<Rightarrow> ('s, 'e, 'b) may_fail" where
  "bnd m f = (\<lambda>s. case m s of (Inl e, s') \<Rightarrow> (Inl e, s') | (Inr a, s') \<Rightarrow> f a s')"

definition modify :: "('s \<Rightarrow> 's) \<Rightarrow> ('s, 'e, unit) may_fail" where
  "modify f = (\<lambda>s. (Inr (), f s))"

lemma ret_apply [simp]: "ret a s = (Inr a, s)"
  by (simp add: ret_def)

lemma throw_apply [simp]: "throw e s = (Inl e, s)"
  by (simp add: throw_def)

lemma modify_apply [simp]: "modify f s = (Inr (), f s)"
  by (simp add: modify_def)

lemma bnd_Inr [simp]: "m s = (Inr a, s') \<Longrightarrow> bnd m f s = f a s'"
  by (simp add: bnd_def)

lemma bnd_Inl [simp]: "m s = (Inl e, s') \<Longrightarrow> bnd m f s = (Inl e, s')"
  by (simp add: bnd_def)

lemma bnd_eq_Inr:
  "bnd m f s = (Inr b, s'') \<longleftrightarrow> (\<exists>a s'. m s = (Inr a, s') \<and> f a s' = (Inr b, s''))"
  by (auto simp: bnd_def split: prod.splits sum.splits)

lemma bnd_InrE:
  assumes "bnd m f s = (Inr b, s'')"
  obtains a s' where "m s = (Inr a, s')" "f a s' = (Inr b, s'')"
  using assms by (auto simp: bnd_eq_Inr)

section \<open>The simulated disk\<close>

definition SectorBytes :: nat where "SectorBytes = 512"

record faults =
  TornWrite :: rat
  LyingSync :: rat
  ReorderWrites :: bool
  PowerCutAfter :: nat

type_synonym pendingWrite = "nat \<times> bytes"

record simdisk =
  durable :: bytes
  current :: bytes
  pending :: "pendingWrite list"
  random :: "nat \<Rightarrow> nat"
  faults :: faults
  writes :: nat
  cut :: bool
  closed :: bool

text \<open>A draw takes the head of the stream.\<close>

definition draw :: "(nat \<Rightarrow> nat) \<Rightarrow> nat \<times> (nat \<Rightarrow> nat)" where
  "draw r = (r 0, \<lambda>i. r (Suc i))"

definition float64 :: "(nat \<Rightarrow> nat) \<Rightarrow> rat \<times> (nat \<Rightarrow> nat)" where
  "float64 r = (let (x, r') = draw r in (of_nat (x mod 2 ^ 53) / 2 ^ 53, r'))"

definition intn :: "nat \<Rightarrow> (nat \<Rightarrow> nat) \<Rightarrow> nat \<times> (nat \<Rightarrow> nat)" where
  "intn n r = (let (x, r') = draw r in (x mod n, r'))"

definition swap :: "'a list \<Rightarrow> nat \<Rightarrow> nat \<Rightarrow> 'a list" where
  "swap xs i j = xs[i := xs ! j, j := xs ! i]"

fun shuffle :: "nat \<Rightarrow> 'a list \<Rightarrow> (nat \<Rightarrow> nat) \<Rightarrow> 'a list \<times> (nat \<Rightarrow> nat)" where
  "shuffle 0 xs r = (xs, r)"
| "shuffle (Suc i) xs r =
     (let (j, r') = intn (Suc (Suc i)) r in shuffle i (swap xs (Suc i) j) r')"

definition NewSim :: "(nat \<Rightarrow> nat) \<Rightarrow> faults \<Rightarrow> simdisk" where
  "NewSim r f = \<lparr>durable = [], current = [], pending = [], random = r, faults = f, writes = 0,
                  cut = False, closed = False\<rparr>"

definition alive :: "(simdisk, unit) op" where
  "alive d = (if closed d then (Inl ErrClosed, d) else if cut d then (Inl ErrPowerCut, d) else (Inr (), d))"

text \<open>Zeros to lengthen an image, and a copy laid over it.\<close>

definition grow :: "bytes \<Rightarrow> nat \<Rightarrow> bytes" where
  "grow img sz = (if length img \<ge> sz then img else img @ replicate (sz - length img) 0)"

definition overwrite :: "bytes \<Rightarrow> nat \<Rightarrow> bytes \<Rightarrow> bytes" where
  "overwrite img off data = put (grow img (off + length data)) off data"

definition ReadAt :: "nat \<Rightarrow> int \<Rightarrow> (simdisk, bytes) op" where
  "ReadAt n off =
     bnd alive (\<lambda>_. \<lambda>d.
       if off < 0 then (Inl ErrNegativeOffset, d)
       else if nat off \<ge> length (current d) then (Inl ErrPastEnd, d)
       else let data = take n (drop (nat off) (current d)) in
         if length data < n then (Inl ErrShortRead, d) else (Inr data, d))"

definition WriteAt :: "bytes \<Rightarrow> int \<Rightarrow> (simdisk, nat) op" where
  "WriteAt p off =
     bnd alive (\<lambda>_. \<lambda>d.
       if off < 0 then (Inl ErrNegativeOffset, d)
       else let d = d\<lparr>writes := Suc (writes d), pending := pending d @ [(nat off, p)],
                      current := overwrite (current d) (nat off) p\<rparr> in
         if PowerCutAfter (faults d) > 0 \<and> writes d \<ge> PowerCutAfter (faults d)
         then (Inl ErrPowerCut, d\<lparr>cut := True\<rparr>)
         else (Inr (length p), d))"

definition syncLies :: "simdisk \<Rightarrow> bool \<times> simdisk" where
  "syncLies d =
     (if LyingSync (faults d) > 0
      then let (x, r) = float64 (random d) in (x < LyingSync (faults d), d\<lparr>random := r\<rparr>)
      else (False, d))"

definition Sync :: "(simdisk, unit) op" where
  "Sync =
     bnd alive (\<lambda>_. \<lambda>d.
       let (lies, d) = syncLies d in
         if lies then (Inr (), d)
         else (Inr (), d\<lparr>durable := current d, pending := []\<rparr>))"

definition apply_write :: "simdisk \<Rightarrow> pendingWrite \<Rightarrow> nat \<Rightarrow> simdisk" where
  "apply_write d w n = d\<lparr>durable := overwrite (durable d) (fst w) (take n (snd w))\<rparr>"

definition crossesSector :: "nat \<Rightarrow> nat \<Rightarrow> bool" where
  "crossesSector off len =
     (if len = 0 then False else off div SectorBytes \<noteq> (off + len - 1) div SectorBytes)"

definition sectorsOf :: "nat \<Rightarrow> nat \<Rightarrow> nat" where
  "sectorsOf off len = (off + len - 1) div SectorBytes - off div SectorBytes + 1"

definition sectorPrefix :: "nat \<Rightarrow> nat \<Rightarrow> nat \<Rightarrow> nat" where
  "sectorPrefix off len keep =
     (if keep = 0 then 0
      else let boundary = (off div SectorBytes + keep) * SectorBytes; landed = boundary - off
           in if landed > len then len else landed)"

text \<open>How much of one kept write lands, and the draws that decided it.\<close>

definition landed :: "simdisk \<Rightarrow> pendingWrite \<Rightarrow> nat \<times> simdisk" where
  "landed d w =
     (let n = length (snd w) in
      if TornWrite (faults d) > 0 \<and> crossesSector (fst w) n
      then let (x, r) = float64 (random d); d = d\<lparr>random := r\<rparr> in
           if x < TornWrite (faults d)
           then let (k, r) = intn (sectorsOf (fst w) n) (random d)
                in (sectorPrefix (fst w) n k, d\<lparr>random := r\<rparr>)
           else (n, d)
      else (n, d))"

fun landAll :: "pendingWrite list \<Rightarrow> simdisk \<Rightarrow> simdisk" where
  "landAll [] d = d"
| "landAll (w # ws) d = (let (n, d) = landed d w in landAll ws (apply_write d w n))"

text \<open>The tail of \<^verbatim>\<open>land\<close>: nothing is in flight any more and the writer sees what is durable.\<close>

definition settle :: "simdisk \<Rightarrow> simdisk" where
  "settle d = d\<lparr>pending := [], current := durable d\<rparr>"

definition land :: "simdisk \<Rightarrow> simdisk" where
  "land d =
     (if pending d = [] then d
      else if \<not> ReorderWrites (faults d) \<and> TornWrite (faults d) \<le> 0
      then settle d
      else let (ws, r) = (if ReorderWrites (faults d)
                          then shuffle (length (pending d) - 1) (pending d) (random d)
                          else (pending d, random d));
               (kept, r) = intn (length ws + 1) r
           in settle (landAll (take kept ws) (d\<lparr>random := r\<rparr>)))"

lemma settle_simps [simp]:
  "pending (settle d) = []" "current (settle d) = durable d" "durable (settle d) = durable d"
  by (simp_all add: settle_def)

definition Size :: "(simdisk, nat) op" where
  "Size = bnd alive (\<lambda>_ d. (Inr (length (current d)), d))"

definition resize :: "bytes \<Rightarrow> nat \<Rightarrow> bytes" where
  "resize img sz = (if sz < length img then take sz img else grow img sz)"

definition Truncate :: "int \<Rightarrow> (simdisk, unit) op" where
  "Truncate sz =
     bnd alive (\<lambda>_ d.
       if sz < 0 then (Inl ErrNegativeSize, d)
       else let n = nat sz in
         (Inr (), d\<lparr>durable := resize (durable d) n, current := resize (current d) n,
                    pending := map (\<lambda>(off, data). (off, take (n - off) data))
                                 (filter (\<lambda>(off, _). \<not> off \<ge> n) (pending d))\<rparr>))"

definition Close_disk :: "(simdisk, unit) op" where
  "Close_disk d = (Inr (), d\<lparr>closed := True\<rparr>)"

text \<open>\<open>source\<close> is \<^verbatim>\<open>rand.NewSource\<close>: the stream of draws a seed stands for.\<close>

definition Crash :: "(nat \<Rightarrow> nat \<Rightarrow> nat) \<Rightarrow> simdisk \<Rightarrow> simdisk \<times> simdisk" where
  "Crash source d =
     (let d = land d; img = durable d; d = d\<lparr>cut := True\<rparr>; (seed, r) = draw (random d);
          restarted = NewSim (source seed) (faults d)
      in (restarted\<lparr>durable := img, current := img\<rparr>, d\<lparr>random := r\<rparr>))"

definition Restore :: "simdisk \<Rightarrow> bytes \<Rightarrow> simdisk" where
  "Restore d img =
     d\<lparr>durable := img, current := img, pending := [], cut := False, writes := 0\<rparr>"

definition Pending_bytes :: "simdisk \<Rightarrow> nat" where
  "Pending_bytes d = sum_list (map (length \<circ> snd) (pending d))"

definition SortedOffsets :: "simdisk \<Rightarrow> nat list" where
  "SortedOffsets d = sort (map fst (pending d))"

definition PowerIsOut :: "simdisk \<Rightarrow> bool" where
  "PowerIsOut d = cut d"

section \<open>What a write and a crash leave alone\<close>

lemma length_grow: "length (grow img sz) = max (length img) sz"
  by (simp add: grow_def)

lemma length_overwrite [simp]: "length (overwrite img off data) = max (length img) (off + length data)"
  by (simp add: overwrite_def length_grow)

lemma seg_grow: "j \<le> length img \<Longrightarrow> seg (grow img sz) i j = seg img i j"
  by (auto simp: grow_def seg_append_left)

lemma seg_overwrite_disjoint:
  assumes "j \<le> length img" "j \<le> off \<or> off + length data \<le> i"
  shows "seg (overwrite img off data) i j = seg img i j"
  using assms by (simp add: overwrite_def seg_put_disjoint length_grow seg_grow)

lemma seg_overwrite_same: "seg (overwrite img off data) off (off + length data) = data"
  by (simp add: overwrite_def seg_put_same length_grow)

lemma seg_overwrite_within:
  "off \<le> i \<Longrightarrow> j \<le> off + length data \<Longrightarrow>
     seg (overwrite img off data) i j = seg data (i - off) (j - off)"
  by (simp add: overwrite_def seg_put_within length_grow)

text \<open>A stretch of the file that no write in a list touches.\<close>

definition untouched :: "pendingWrite list \<Rightarrow> nat \<Rightarrow> nat \<Rightarrow> bool" where
  "untouched ws i j \<longleftrightarrow> (\<forall>(off, data) \<in> set ws. j \<le> off \<or> off + length data \<le> i)"

lemma untouched_append [simp]: "untouched (xs @ ys) i j \<longleftrightarrow> untouched xs i j \<and> untouched ys i j"
  by (auto simp: untouched_def)

lemma untouched_Nil [simp]: "untouched [] i j"
  by (simp add: untouched_def)

lemma untouched_Cons [simp]:
  "untouched ((off, data) # ws) i j \<longleftrightarrow> (j \<le> off \<or> off + length data \<le> i) \<and> untouched ws i j"
  by (auto simp: untouched_def)

lemma untouched_subset: "untouched ws i j \<Longrightarrow> set vs \<subseteq> set ws \<Longrightarrow> untouched vs i j"
  by (auto simp: untouched_def)

lemma length_swap [simp]: "length (swap xs i j) = length xs"
  by (simp add: swap_def)

lemma mset_swap_pos: "i < length xs \<Longrightarrow> j < length xs \<Longrightarrow> mset (swap xs i j) = mset xs"
  unfolding swap_def by (rule mset_swap)

lemma shuffle_mset: "i < length xs \<or> i = 0 \<Longrightarrow> mset (fst (shuffle i xs r)) = mset xs"
proof (induction i xs r rule: shuffle.induct)
  case (1 xs r)
  then show ?case by simp
next
  case (2 i xs r)
  obtain j r' where j: "intn (Suc (Suc i)) r = (j, r')" by (cases "intn (Suc (Suc i)) r")
  then have "j < Suc (Suc i)"
    by (auto simp: intn_def Let_def draw_def split: prod.splits)
  with 2 j show ?case
    by (auto simp: mset_swap_pos)
qed

lemma landed_le: "fst (landed d w) \<le> length (snd w)"
  by (auto simp: landed_def Let_def sectorPrefix_def split: prod.splits)

lemma landed_frame: "durable (snd (landed d w)) = durable d" "faults (snd (landed d w)) = faults d"
  by (auto simp: landed_def Let_def split: prod.splits)

lemma landed_sector: "\<not> crossesSector (fst w) (length (snd w)) \<Longrightarrow> landed d w = (length (snd w), d)"
  by (simp add: landed_def Let_def)

lemma landAll_untouched:
  "untouched ws i j \<Longrightarrow> j \<le> length (durable d) \<Longrightarrow> seg (durable (landAll ws d)) i j = seg (durable d) i j
     \<and> j \<le> length (durable (landAll ws d))"
proof (induction ws d rule: landAll.induct)
  case (1 d)
  then show ?case by simp
next
  case (2 w ws d)
  obtain n d' where l: "landed d w = (n, d')" by (cases "landed d w")
  then have n: "n \<le> length (snd w)" and d': "durable d' = durable d"
    using landed_le [of d w] landed_frame [of d w] by simp_all
  obtain off data where w: "w = (off, data)" by (cases w)
  have u: "untouched ws i j" "j \<le> off \<or> off + length data \<le> i" using 2 w by simp_all
  have "seg (durable (apply_write d' w n)) i j = seg (durable d) i j" "j \<le> length (durable (apply_write d' w n))"
    using u 2(3) n w d' by (auto simp: apply_write_def intro!: seg_overwrite_disjoint)
  with 2 u l show ?case by simp
qed

text \<open>
  Whatever a crash does to the writes in flight - drops them, reorders them, tears one - a
  stretch of the durable image none of them touches is what it was.
\<close>

lemma land_untouched:
  assumes "untouched (pending d) i j" "j \<le> length (durable d)"
  shows "seg (durable (land d)) i j = seg (durable d) i j \<and> j \<le> length (durable (land d))"
proof -
  obtain ws r where s: "(if ReorderWrites (faults d) then shuffle (length (pending d) - 1) (pending d) (random d)
      else (pending d, random d)) = (ws, r)" by fastforce
  obtain kept r' where k: "intn (length ws + 1) r = (kept, r')" by fastforce
  have "mset ws = mset (pending d)"
    using s shuffle_mset [of "length (pending d) - 1" "pending d" "random d"]
    by (cases "pending d = []") (auto split: if_splits)
  then have "set ws = set (pending d)" by (rule mset_eq_setD)
  then have "untouched (take kept ws) i j"
    using assms(1) set_take_subset [of kept ws] by (auto intro: untouched_subset)
  then have "seg (durable (landAll (take kept ws) (d\<lparr>random := r'\<rparr>))) i j = seg (durable d) i j
      \<and> j \<le> length (durable (landAll (take kept ws) (d\<lparr>random := r'\<rparr>)))"
    using landAll_untouched [of "take kept ws" i j "d\<lparr>random := r'\<rparr>"] assms(2) by simp
  moreover have "durable (land d) = durable d \<or>
      durable (land d) = durable (landAll (take kept ws) (d\<lparr>random := r'\<rparr>))"
    using s k by (simp add: land_def Let_def)
  ultimately show ?thesis using assms(2) by auto
qed

text \<open>A single write in flight that stays within a sector lands whole or not at all.\<close>

lemma land_one_sector:
  assumes "pending d = [(off, data)]" "\<not> crossesSector off (length data)"
  shows "durable (land d) = durable d \<or> durable (land d) = overwrite (durable d) off data"
proof -
  have one: "landAll [(off, data)] d' = d'\<lparr>durable := overwrite (durable d') off data\<rparr>" for d'
    using landed_sector [of "(off, data)" d'] assms(2) by (simp add: apply_write_def)
  have t: "durable (landAll (take kept [(off, data)]) d') \<in> {durable d', overwrite (durable d') off data}"
    for kept d'
    using one [of d'] by (cases kept) (auto simp del: landAll.simps(2))
  obtain ws r where s: "(if ReorderWrites (faults d) then shuffle (length (pending d) - 1) (pending d) (random d)
      else (pending d, random d)) = (ws, r)" by fastforce
  have ws: "ws = [(off, data)]" using s assms(1) by (auto split: if_splits)
  obtain kept r' where k: "intn (length ws + 1) r = (kept, r')" by fastforce
  show ?thesis
    using t [of kept "d\<lparr>random := r'\<rparr>"] assms(1) s k ws by (auto simp: land_def Let_def simp del: landAll.simps)
qed

section \<open>The writer's view is the durable image with the writes in flight laid over it\<close>

definition replay :: "bytes \<Rightarrow> pendingWrite list \<Rightarrow> bytes" where
  "replay img ws = foldl (\<lambda>img (off, data). overwrite img off data) img ws"

definition coherent :: "simdisk \<Rightarrow> bool" where
  "coherent d \<longleftrightarrow> current d = replay (durable d) (pending d)"

lemma nth_grow: "k < max (length img) sz \<Longrightarrow> grow img sz ! k = (if k < length img then img ! k else 0)"
  by (auto simp: grow_def nth_append)

lemma nth_overwrite:
  "k < max (length img) (off + length data) \<Longrightarrow>
     overwrite img off data ! k =
       (if off \<le> k \<and> k < off + length data then data ! (k - off) else if k < length img then img ! k else 0)"
  by (simp add: overwrite_def nth_put length_grow nth_grow)

lemma length_resize [simp]: "length (resize img n) = n"
  by (auto simp: resize_def length_grow)

lemma nth_resize: "k < n \<Longrightarrow> resize img n ! k = (if k < length img then img ! k else 0)"
  by (auto simp: resize_def nth_grow)

lemma resize_overwrite:
  "resize (overwrite img off data) n =
     (if off \<ge> n then resize img n else overwrite (resize img n) off (take (n - off) data))"
  by (rule nth_equalityI) (auto simp: nth_resize nth_overwrite)

lemma resize_replay:
  "resize (replay img ws) n =
     replay (resize img n) (map (\<lambda>(off, data). (off, take (n - off) data)) (filter (\<lambda>(off, _). \<not> off \<ge> n) ws))"
proof (induction ws arbitrary: img rule: rev_induct)
  case Nil
  then show ?case by (simp add: replay_def)
next
  case (snoc w ws)
  then show ?case by (cases w) (simp add: replay_def resize_overwrite)
qed

text \<open>The operations of the disk as steps.\<close>

inductive disk_step :: "simdisk \<Rightarrow> simdisk \<Rightarrow> bool" where
  reads_at: "ReadAt n off d = (res, d') \<Longrightarrow> disk_step d d'"
| writes_at: "WriteAt p off d = (res, d') \<Longrightarrow> disk_step d d'"
| sync: "Sync d = (res, d') \<Longrightarrow> disk_step d d'"
| truncate: "Truncate n d = (res, d') \<Longrightarrow> disk_step d d'"
| close: "Close_disk d = (res, d') \<Longrightarrow> disk_step d d'"
| crash: "Crash src d = (d', spent) \<Longrightarrow> disk_step d d'"
| spent: "Crash src d = (restarted, d') \<Longrightarrow> disk_step d d'"
| restore: "disk_step d (Restore d img)"

inductive disk_reachable :: "simdisk \<Rightarrow> bool" where
  start: "disk_reachable (NewSim r f)"
| step: "disk_reachable d \<Longrightarrow> disk_step d d' \<Longrightarrow> disk_reachable d'"

lemma replay_Nil [simp]: "replay img [] = img"
  by (simp add: replay_def)

lemma replay_snoc: "replay img (ws @ [(off, data)]) = overwrite (replay img ws) off data"
  by (simp add: replay_def)

lemma alive_cases: "alive d = (Inr (), d) \<and> \<not> closed d \<and> \<not> cut d \<or> (\<exists>e. alive d = (Inl e, d))"
  by (auto simp: alive_def)

lemma land_pending [simp]: "pending (land d) = []"
  by (simp add: land_def split_beta Let_def)

lemma land_settle: "pending d \<noteq> [] \<Longrightarrow> \<exists>x. land d = settle x"
  unfolding land_def Let_def case_prod_beta if_distrib [of settle, symmetric] by auto

lemma land_current: "coherent d \<Longrightarrow> current (land d) = durable (land d)"
proof (cases "pending d = []")
  case True
  assume "coherent d"
  with True show ?thesis by (simp add: land_def coherent_def)
next
  case False
  then obtain x where "land d = settle x" using land_settle by blast
  then show ?thesis by simp
qed

lemma syncLies_frame:
  "syncLies d = (b, d') \<Longrightarrow> durable d' = durable d \<and> current d' = current d \<and> pending d' = pending d"
  by (auto simp: syncLies_def Let_def split: if_splits prod.splits)

lemma disk_step_coherent: "disk_step d d' \<Longrightarrow> coherent d \<Longrightarrow> coherent d'"
proof (induction rule: disk_step.induct)
  case (reads_at n off d res d')
  then show ?case using alive_cases [of d] by (auto simp: ReadAt_def Let_def split: if_splits)
next
  case (writes_at p off d res d')
  then show ?case
    using alive_cases [of d] by (auto simp: WriteAt_def Let_def coherent_def replay_snoc split: if_splits)
next
  case (sync d res d')
  obtain b d1 where l: "syncLies d = (b, d1)" by fastforce
  from sync l show ?case
    using alive_cases [of d] syncLies_frame [OF l] by (auto simp: Sync_def coherent_def split: if_splits)
next
  case (truncate n d res d')
  then show ?case
    using alive_cases [of d] by (auto simp: Truncate_def Let_def coherent_def resize_replay split: if_splits)
next
  case (close d res d')
  then show ?case by (auto simp: Close_disk_def coherent_def)
next
  case (crash src d d' spent)
  then show ?case by (auto simp: Crash_def Let_def coherent_def NewSim_def split: prod.splits)
next
  case (spent src d restarted d')
  then show ?case using land_current [of d] by (auto simp: Crash_def Let_def coherent_def split: prod.splits)
next
  case (restore d img)
  then show ?case by (simp add: Restore_def coherent_def)
qed

section \<open>Properties\<close>

text \<open>
  C31. In every state a disk can reach - through reads, writes, syncs honest or lying, truncations,
  closes, crashes and restarts - the file the writer sees is exactly the durable image with the
  writes still in flight laid over it in order.
\<close>

theorem disk_view_coherent: "disk_reachable d \<Longrightarrow> current d = replay (durable d) (pending d)"
proof -
  have "disk_reachable d \<Longrightarrow> coherent d"
  proof (induction rule: disk_reachable.induct)
    case (start r f)
    then show ?case by (simp add: NewSim_def coherent_def)
  next
    case (step d d')
    then show ?case by (blast intro: disk_step_coherent)
  qed
  then show "disk_reachable d \<Longrightarrow> current d = replay (durable d) (pending d)"
    by (simp add: coherent_def)
qed

theorem disk_view_coherent_witness:
  "disk_reachable (snd (WriteAt [1, 2] 3 (NewSim (\<lambda>_. 0) \<lparr>TornWrite = 0, LyingSync = 0, ReorderWrites = False, PowerCutAfter = 0\<rparr>)))
   \<and> current (snd (WriteAt [1, 2] 3 (NewSim (\<lambda>_. 0) \<lparr>TornWrite = 0, LyingSync = 0, ReorderWrites = False, PowerCutAfter = 0\<rparr>)))
     = [0, 0, 0, 1, 2]
   \<and> replay [] [(3, [1, 2])] = [0, 0, 0, 1, 2]"
proof -
  let ?d0 = "NewSim (\<lambda>_. 0) \<lparr>TornWrite = 0, LyingSync = 0, ReorderWrites = False, PowerCutAfter = 0\<rparr>"
  let ?d = "snd (WriteAt [1, 2] 3 ?d0)"
  have r: "disk_reachable ?d"
    by (rule disk_reachable.step [OF disk_reachable.start]) (rule disk_step.writes_at, rule surjective_pairing)
  have v: "current ?d = [0, 0, 0, 1, 2]" "durable ?d = []" "pending ?d = [(3, [1, 2])]"
    by (simp_all add: WriteAt_def alive_def bnd_def NewSim_def Let_def overwrite_def grow_def put_def numeral_eq_Suc)
  from disk_view_coherent [OF r] r v show ?thesis by simp
qed

text \<open>
  C30. What an honest sync made durable survives any crash: after a \<^verbatim>\<open>Sync\<close> that did not lie, and
  any further writes, a crash - whatever it drops, reorders or tears - leaves every stretch of
  the file those later writes do not touch exactly as the writer last saw it at the sync.
\<close>

theorem synced_bytes_survive:
  assumes "Sync d = (Inr (), d1)" "LyingSync (faults d) \<le> 0" "j \<le> length (current d)"
    and "durable d2 = durable d1" "untouched (pending d2) i j"
  shows "seg (durable (fst (Crash src d2))) i j = seg (current d) i j"
proof -
  have "durable d1 = current d"
    using assms(1,2) alive_cases [of d] by (auto simp: Sync_def syncLies_def Let_def split: prod.splits)
  then have "seg (durable (land d2)) i j = seg (current d) i j"
    using land_untouched [of d2 i j] assms by simp
  then show ?thesis by (simp add: Crash_def Let_def split: prod.splits)
qed

theorem synced_bytes_survive_witness:
  "let f = \<lparr>TornWrite = 1, LyingSync = 0, ReorderWrites = True, PowerCutAfter = 0\<rparr>;
       d = Restore (NewSim (\<lambda>_. 1) f) [7, 8, 9];
       d2 = (snd (Sync d))\<lparr>pending := [(2, [5])]\<rparr>
   in Sync d = (Inr (), snd (Sync d)) \<and> seg (durable (fst (Crash (\<lambda>_ _. 0) d2))) 0 2 = [7, 8]"
proof -
  let ?f = "\<lparr>TornWrite = 1, LyingSync = 0, ReorderWrites = True, PowerCutAfter = 0\<rparr>"
  let ?d = "Restore (NewSim (\<lambda>_. 1) ?f) [7, 8, 9]"
  let ?d2 = "(snd (Sync ?d))\<lparr>pending := [(2, [5])]\<rparr>"
  have s: "Sync ?d = (Inr (), snd (Sync ?d))"
    by (simp add: Sync_def bnd_def alive_def syncLies_def Restore_def NewSim_def)
  have "seg (durable (fst (Crash (\<lambda>_ _. 0) ?d2))) 0 2 = seg (current ?d) 0 2"
    by (rule synced_bytes_survive [OF s]) (simp_all add: Restore_def NewSim_def)
  with s show ?thesis by (simp add: Let_def Restore_def seg_def)
qed

end
