(* ===== verification/Store_Spec.thy ===== *)
theory Store_Spec
  imports Ulid Keys Vfs
begin

unbundle bit_operations_syntax

text \<open>
  Declarations (\<^verbatim>\<open>internal/store/spec.go\<close>, \<^verbatim>\<open>partition.go\<close> and the declared part of \<^verbatim>\<open>rollup.go\<close>): collections,
  their primary keys, indexes and totals, what is checked when one is declared, and how a partitioned
  collection is divided into files. Strings of the language are byte strings.
\<close>

section \<open>Errors and names\<close>

datatype store_error =
    ErrName | ErrDeclaration | ErrIncompatible | ErrNoCollection | ErrNoIndex | ErrNoRollup | ErrNoKey
  | ErrType | ErrDuplicate | ErrDamaged | ErrArgument | ErrMarshal | ErrOutOfOrder | ErrNoFiles | ErrPartName
  | ErrNoOperation | ErrNotAllowed | ErrExists | ErrMissing | ErrCondition | ErrUncommitted | ErrDigest | ErrCeiling
  | ErrAnswerTooLarge | ErrNamespace | ErrFileName | ErrLocked
  | Panicked \<comment> \<open>a nil pointer was followed\<close> | OutOfFuel \<comment> \<open>no outcome of the program: a call depth the model did not allow for\<close>
  | OfTree err | OfKeys keys_error | OfUlid ulid_error

definition ascii :: "string \<Rightarrow> bytes" where
  "ascii s = map of_char s"

lemma ascii_simps [simp]: "ascii [] = []" "ascii (c # cs) = of_char c # ascii cs" "ascii (xs @ ys) = ascii xs @ ascii ys"
  by (simp_all add: ascii_def)

definition usableName :: "bytes \<Rightarrow> store_error + unit" where
  "usableName name =
     (if name = [] then Inl ErrName
      else if length name > 128 then Inl ErrName
      else if 0 \<in> set name then Inl ErrName
      else Inr ())"

section \<open>Declarations\<close>

definition TypeString :: bytes where "TypeString = ascii ''string''"
definition TypeNumber :: bytes where "TypeNumber = ascii ''number''"
definition TypeBool :: bytes where "TypeBool = ascii ''bool''"
definition TypeAny :: bytes where "TypeAny = ascii ''any''"

definition SkipMissing :: bytes where "SkipMissing = ascii ''skip''"
definition FirstMissing :: bytes where "FirstMissing = ascii ''first''"
definition LastMissing :: bytes where "LastMissing = ascii ''last''"

record key_decl =
  k_path :: bytes
  k_type :: bytes
  k_auto :: bytes

record field_decl =
  f_path :: bytes
  f_type :: bytes
  f_descending :: bool
  f_missing :: bytes

record index_decl =
  i_name :: bytes
  i_fields :: "field_decl list"
  i_unique :: bool
  i_array :: bytes
  i_include :: "bytes list"
  i_id :: "16 word"

record rollup_decl =
  r_name :: bytes
  r_group :: "field_decl list"
  r_count :: bool
  r_sum :: "bytes list"
  r_id :: "16 word"

record partition_decl =
  p_by :: bytes
  p_every :: bytes
  p_keep :: int
  p_into :: int

record spec =
  s_name :: bytes
  s_key :: key_decl
  s_indexes :: "index_decl list"
  s_partition :: "partition_decl option"
  s_rollups :: "rollup_decl list"
  s_id :: "32 word"
  s_next_index :: "16 word"
  s_next_rollup :: "16 word"

text \<open>How a field is encoded in a key.\<close>

definition encoding :: "field_decl \<Rightarrow> field" where
  "encoding f =
     \<lparr>Descending = f_descending f,
      Missing = (if f_missing f = FirstMissing then MissingFirst else if f_missing f = LastMissing then MissingLast else MissingSkip)\<rparr>"

definition encodings :: "field_decl list \<Rightarrow> field list" where
  "encodings fs = map encoding fs"

section \<open>What a declaration may say\<close>

text \<open>Checks made one after the other, up to the first that fails.\<close>

definition refuse :: "bool \<Rightarrow> 'e \<Rightarrow> 'e + unit" where
  "refuse b e = (if b then Inl e else Inr ())"

fun checks :: "('e + unit) list \<Rightarrow> 'e + unit" where
  "checks [] = Inr ()"
| "checks (Inl e # cs) = Inl e"
| "checks (Inr _ # cs) = checks cs"

definition checkField :: "bytes list \<Rightarrow> field_decl \<Rightarrow> store_error + unit" where
  "checkField types f =
     checks [refuse (f_missing f \<notin> {SkipMissing, FirstMissing, LastMissing}) ErrDeclaration,
             refuse (f_type f \<notin> set types) ErrDeclaration]"

definition validate_rollup :: "rollup_decl \<Rightarrow> store_error + unit" where
  "validate_rollup r =
     checks ([usableName (r_name r), refuse (\<not> r_count r \<and> r_sum r = []) ErrDeclaration]
       @ concat (map (\<lambda>f. [refuse (f_path f = []) ErrDeclaration, checkField [TypeString, TypeNumber, TypeBool] f]) (r_group r))
       @ map (\<lambda>p. refuse (p = []) ErrDeclaration) (r_sum r))"

definition ByTime :: bytes where "ByTime = ascii ''time''"
definition ByHash :: bytes where "ByHash = ascii ''hash''"
definition EveryDay :: bytes where "EveryDay = ascii ''day''"
definition EveryMonth :: bytes where "EveryMonth = ascii ''month''"
definition EveryYear :: bytes where "EveryYear = ascii ''year''"
definition AutoUlid :: bytes where "AutoUlid = ascii ''ulid''"

definition check_partition :: "partition_decl \<Rightarrow> key_decl \<Rightarrow> store_error + unit" where
  "check_partition p key =
     (if p_by p = ByTime then
        checks [refuse (k_type key \<noteq> TypeString \<or> k_auto key \<noteq> AutoUlid) ErrDeclaration,
                refuse (p_every p \<notin> {EveryDay, EveryMonth, EveryYear}) ErrDeclaration,
                refuse (p_keep p < 0) ErrDeclaration,
                refuse (p_into p \<noteq> 0) ErrDeclaration]
      else if p_by p = ByHash then
        checks [refuse (p_into p < 2) ErrDeclaration,
                refuse (p_into p > 4096) ErrDeclaration,
                refuse (p_every p \<noteq> [] \<or> p_keep p \<noteq> 0) ErrDeclaration]
      else Inl ErrDeclaration)"

text \<open>The loops over the rollups, the fields of an index and the indexes, with the names seen so far.\<close>

fun validate_rollups :: "bytes set \<Rightarrow> rollup_decl list \<Rightarrow> store_error + unit" where
  "validate_rollups named [] = Inr ()"
| "validate_rollups named (r # rs) =
     checks [validate_rollup r, refuse (r_name r \<in> named) ErrDeclaration, validate_rollups (insert (r_name r) named) rs]"

fun validate_fields :: "bytes set \<Rightarrow> field_decl list \<Rightarrow> store_error + unit" where
  "validate_fields paths [] = Inr ()"
| "validate_fields paths (f # fs) =
     checks [refuse (f_path f = []) ErrDeclaration, refuse (f_path f \<in> paths) ErrDeclaration,
             refuse (f_type f \<notin> {TypeString, TypeNumber, TypeBool, TypeAny}) ErrDeclaration,
             refuse (f_missing f \<notin> {SkipMissing, FirstMissing, LastMissing}) ErrDeclaration,
             validate_fields (insert (f_path f) paths) fs]"

fun validate_indexes :: "bytes set \<Rightarrow> index_decl list \<Rightarrow> store_error + unit" where
  "validate_indexes seen [] = Inr ()"
| "validate_indexes seen (x # xs) =
     checks [usableName (i_name x), refuse (i_name x \<in> seen) ErrDeclaration, refuse (i_fields x = []) ErrDeclaration,
             validate_fields {} (i_fields x),
             refuse (i_array x \<noteq> [] \<and> i_array x \<notin> f_path ` set (i_fields x)) ErrDeclaration,
             refuse ([] \<in> set (i_include x)) ErrDeclaration,
             validate_indexes (insert (i_name x) seen) xs]"

definition validate :: "spec \<Rightarrow> store_error + unit" where
  "validate s =
     checks [usableName (s_name s),
             refuse (of_char CHR ''.'' \<in> set (k_path (s_key s)) \<or> k_path (s_key s) = []) ErrDeclaration,
             refuse (k_type (s_key s) \<notin> {TypeString, TypeNumber}) ErrDeclaration,
             (case s_partition s of None \<Rightarrow> Inr () | Some p \<Rightarrow> check_partition p (s_key s)),
             validate_rollups {} (s_rollups s),
             (if k_auto (s_key s) = [] then Inr ()
              else if k_auto (s_key s) = AutoUlid then refuse (k_type (s_key s) \<noteq> TypeString) ErrDeclaration
              else Inl ErrDeclaration),
             validate_indexes {} (s_indexes s)]"

definition sameShape :: "index_decl \<Rightarrow> index_decl \<Rightarrow> bool" where
  "sameShape a b \<longleftrightarrow> i_unique a = i_unique b \<and> i_array a = i_array b \<and> i_fields a = i_fields b \<and> i_include a = i_include b"

definition sameRollup :: "rollup_decl \<Rightarrow> rollup_decl \<Rightarrow> bool" where
  "sameRollup a b \<longleftrightarrow> r_count a = r_count b \<and> r_group a = r_group b \<and> r_sum a = r_sum b"

definition samePartition :: "partition_decl option \<Rightarrow> partition_decl option \<Rightarrow> bool" where
  "samePartition a b \<longleftrightarrow> a = b"

section \<open>Partitions\<close>

text \<open>
  The calendar of the standard library, as far as it is used: the day a moment falls on, in UTC, for
  moments from 1970 on, and numbers written with at least so many digits.
\<close>

definition leapYear :: "nat \<Rightarrow> bool" where
  "leapYear y \<longleftrightarrow> 4 dvd y \<and> (\<not> 100 dvd y \<or> 400 dvd y)"

definition yearDays :: "nat \<Rightarrow> nat" where
  "yearDays y = (if leapYear y then 366 else 365)"

definition monthDays :: "bool \<Rightarrow> nat list" where
  "monthDays leap = [31, if leap then 29 else 28, 31, 30, 31, 30, 31, 31, 30, 31, 30, 31]"

function yearFrom :: "nat \<Rightarrow> nat \<Rightarrow> nat \<times> nat" where
  "yearFrom y d = (if d < yearDays y then (y, d) else yearFrom (Suc y) (d - yearDays y))"
  by pat_completeness auto
termination by (relation "measure snd") (auto simp: yearDays_def split: if_splits)

declare yearFrom.simps [simp del]

fun monthFrom :: "nat \<Rightarrow> nat list \<Rightarrow> nat \<Rightarrow> nat \<times> nat" where
  "monthFrom m [] d = (m, d)"
| "monthFrom m (n # ns) d = (if d < n then (m, d) else monthFrom (Suc m) ns (d - n))"

text \<open>Year, month and day of the month of a moment in milliseconds.\<close>

definition civil :: "nat \<Rightarrow> nat \<times> nat \<times> nat" where
  "civil ms =
     (let (y, d) = yearFrom 1970 (ms div 86400000); (m, d) = monthFrom 1 (monthDays (leapYear y)) d in (y, m, Suc d))"

fun decimal :: "nat \<Rightarrow> bytes" where
  "decimal n = (if n < 10 then [word_of_nat (48 + n)] else decimal (n div 10) @ [word_of_nat (48 + n mod 10)])"

declare decimal.simps [simp del]

definition padded :: "nat \<Rightarrow> nat \<Rightarrow> bytes" where
  "padded w n = replicate (w - length (decimal n)) 48 @ decimal n"

definition dash :: byte where "dash = of_char CHR ''-''"

definition period :: "nat \<Rightarrow> bytes \<Rightarrow> bytes" where
  "period ms every =
     (let (y, m, d) = civil ms in
      if every = EveryDay then padded 4 y @ [dash] @ padded 2 m @ [dash] @ padded 2 d
      else if every = EveryMonth then padded 4 y @ [dash] @ padded 2 m
      else if every = EveryYear then padded 4 y
      else [])"

text \<open>The 32-bit FNV-1a hash of \<^verbatim>\<open>hash/fnv\<close>.\<close>

definition fnv32a :: "bytes \<Rightarrow> 32 word" where
  "fnv32a bs = foldl (\<lambda>h b. (h XOR ucast b) * 16777619) 2166136261 bs"

definition partition_name :: "partition_decl \<Rightarrow> bytes \<Rightarrow> key_value \<Rightarrow> store_error + bytes" where
  "partition_name p collection key =
     (case key of
        VString text \<Rightarrow>
          if p_by p = ByTime then
            (case Time text of
               Inl e \<Rightarrow> Inl ErrType
             | Inr ms \<Rightarrow> Inr (collection @ [dash] @ period (unat ms) (p_every p)))
          else if p_by p = ByHash then
            Inr (collection @ [dash, of_char CHR ''h''] @ padded 3 (unat (fnv32a text mod word_of_int (p_into p))))
          else Inl ErrDeclaration
      | _ \<Rightarrow> Inl ErrType)"

definition expired :: "partition_decl \<Rightarrow> bytes list \<Rightarrow> bytes list" where
  "expired p here =
     (if p_by p \<noteq> ByTime \<or> p_keep p \<le> 0 \<or> int (length here) \<le> p_keep p then []
      else take (length here - nat (p_keep p)) here)"

text \<open>The partitions a collection takes for its own, of all the partitions of the database.\<close>

definition hasPrefix :: "bytes \<Rightarrow> bytes \<Rightarrow> bool" where
  "hasPrefix pre bs \<longleftrightarrow> take (length pre) bs = pre"

definition mine :: "bytes \<Rightarrow> bytes list \<Rightarrow> bytes list" where
  "mine collection names = filter (hasPrefix (collection @ [dash])) names"

text \<open>What \<^verbatim>\<open>expire\<close> drops: nothing of a collection that is not partitioned, or keeps everything.\<close>

definition expiring :: "spec \<Rightarrow> bytes list \<Rightarrow> bytes list" where
  "expiring s names =
     (case s_partition s of
        None \<Rightarrow> []
      | Some p \<Rightarrow> if p_keep p \<le> 0 then [] else expired p (mine (s_name s) names))"

section \<open>What a declaration that is accepted says\<close>

definition name_ok :: "bytes \<Rightarrow> bool" where
  "name_ok n \<longleftrightarrow> n \<noteq> [] \<and> length n \<le> 128 \<and> 0 \<notin> set n"

definition field_ok :: "bytes set \<Rightarrow> field_decl \<Rightarrow> bool" where
  "field_ok types f \<longleftrightarrow> f_path f \<noteq> [] \<and> f_type f \<in> types \<and> f_missing f \<in> {SkipMissing, FirstMissing, LastMissing}"

definition index_ok :: "index_decl \<Rightarrow> bool" where
  "index_ok x \<longleftrightarrow> name_ok (i_name x) \<and> i_fields x \<noteq> [] \<and> distinct (map f_path (i_fields x))
     \<and> (\<forall>f \<in> set (i_fields x). field_ok {TypeString, TypeNumber, TypeBool, TypeAny} f)
     \<and> (i_array x = [] \<or> i_array x \<in> f_path ` set (i_fields x)) \<and> [] \<notin> set (i_include x)"

definition rollup_ok :: "rollup_decl \<Rightarrow> bool" where
  "rollup_ok r \<longleftrightarrow> name_ok (r_name r) \<and> (r_count r \<or> r_sum r \<noteq> [])
     \<and> (\<forall>f \<in> set (r_group r). field_ok {TypeString, TypeNumber, TypeBool} f) \<and> [] \<notin> set (r_sum r)"

definition partition_ok :: "key_decl \<Rightarrow> partition_decl \<Rightarrow> bool" where
  "partition_ok key p \<longleftrightarrow>
     p_by p = ByTime \<and> k_type key = TypeString \<and> k_auto key = AutoUlid \<and> p_every p \<in> {EveryDay, EveryMonth, EveryYear}
       \<and> p_keep p \<ge> 0 \<and> p_into p = 0
     \<or> p_by p = ByHash \<and> 2 \<le> p_into p \<and> p_into p \<le> 4096 \<and> p_every p = [] \<and> p_keep p = 0"

definition spec_ok :: "spec \<Rightarrow> bool" where
  "spec_ok s \<longleftrightarrow> name_ok (s_name s) \<and> k_path (s_key s) \<noteq> [] \<and> of_char CHR ''.'' \<notin> set (k_path (s_key s))
     \<and> k_type (s_key s) \<in> {TypeString, TypeNumber}
     \<and> (k_auto (s_key s) = [] \<or> k_auto (s_key s) = AutoUlid \<and> k_type (s_key s) = TypeString)
     \<and> (\<forall>p \<in> set_option (s_partition s). partition_ok (s_key s) p)
     \<and> distinct (map i_name (s_indexes s)) \<and> (\<forall>x \<in> set (s_indexes s). index_ok x)
     \<and> distinct (map r_name (s_rollups s)) \<and> (\<forall>r \<in> set (s_rollups s). rollup_ok r)"

named_theorems accepts "when a check lets a declaration through"

lemma checks_accept [accepts]: "checks cs = Inr () \<longleftrightarrow> (\<forall>c \<in> set cs. c = Inr ())"
  by (induction cs rule: checks.induct) auto

lemma refuse_accept [accepts]: "refuse b e = Inr () \<longleftrightarrow> \<not> b"
  by (simp add: refuse_def)

lemma usableName_accept [accepts]: "usableName n = Inr () \<longleftrightarrow> name_ok n"
  by (auto simp: usableName_def name_ok_def)

lemma validate_rollup_accept [accepts]: "validate_rollup r = Inr () \<longleftrightarrow> rollup_ok r"
  by (auto simp: validate_rollup_def rollup_ok_def field_ok_def checkField_def accepts ball_Un UN_ball_bex_simps)

lemma check_partition_accept [accepts]: "check_partition p key = Inr () \<longleftrightarrow> partition_ok key p"
  by (auto simp: check_partition_def partition_ok_def accepts ByTime_def ByHash_def)

lemma validate_rollups_accept [accepts]:
  "validate_rollups named rs = Inr () \<longleftrightarrow> (\<forall>r \<in> set rs. rollup_ok r) \<and> distinct (map r_name rs) \<and> named \<inter> r_name ` set rs = {}"
  by (induction rs arbitrary: named) (auto simp: accepts)

lemma validate_fields_accept [accepts]:
  "validate_fields paths fs = Inr () \<longleftrightarrow> (\<forall>f \<in> set fs. field_ok {TypeString, TypeNumber, TypeBool, TypeAny} f)
     \<and> distinct (map f_path fs) \<and> paths \<inter> f_path ` set fs = {}"
  by (induction fs arbitrary: paths) (auto simp: accepts field_ok_def)

lemma validate_indexes_accept [accepts]:
  "validate_indexes seen xs = Inr () \<longleftrightarrow> (\<forall>x \<in> set xs. index_ok x) \<and> distinct (map i_name xs) \<and> seen \<inter> i_name ` set xs = {}"
  by (induction xs arbitrary: seen) (auto simp: accepts index_ok_def)

lemma validate_accept [accepts]: "validate s = Inr () \<longleftrightarrow> spec_ok s"
  by (cases "s_partition s") (auto simp: validate_def spec_ok_def accepts)

text \<open>
  C38. \<^verbatim>\<open>validate\<close> accepts exactly the well-formed declarations: usable and distinct names of indexes and
  rollups, a primary key that is one field, indexes with distinct fields of known types that say what
  they do with documents without them, totals of something, and a division that can work.
\<close>

theorem validate_exact: "validate s = Inr () \<longleftrightarrow> spec_ok s"
  by (rule validate_accept)

section \<open>Partitions in the order of their periods\<close>

primrec dec :: "nat \<Rightarrow> nat \<Rightarrow> bytes" where
  "dec 0 n = []"
| "dec (Suc k) n = dec k (n div 10) @ [word_of_nat (48 + n mod 10)]"

lemma length_dec [simp]: "length (dec k n) = k"
  by (induction k arbitrary: n) auto

lemma digit_less: "a < b \<Longrightarrow> b < 10 \<Longrightarrow> (word_of_nat (48 + a) :: byte) < word_of_nat (48 + b)"
  by (simp only: word_less_nat_alt unsigned_of_nat) (simp add: take_bit_nat_eq_self)

lemma dec_less: "n < m \<Longrightarrow> m < 10 ^ k \<Longrightarrow> dec k n < dec k m"
proof (induction k arbitrary: n m)
  case (Suc k)
  have lt: "m div 10 < 10 ^ k" using Suc.prems(2) by (simp add: div_less_iff_less_mult mult.commute)
  show ?case
  proof (cases "n div 10 = m div 10")
    case True
    then have "n mod 10 < m mod 10" using Suc.prems(1) by (metis div_mult_mod_eq nat_add_left_cancel_less)
    then show ?thesis using True digit_less [of "n mod 10" "m mod 10"] by (simp add: append_less_append)
  next
    case False
    then have "n div 10 < m div 10" using Suc.prems(1) by (simp add: div_le_mono le_neq_implies_less)
    from Suc.IH [OF this lt] show ?thesis by (auto simp: list_less_def intro: lexord_sufI)
  qed
qed simp

lemma dec_zero: "dec k 0 = replicate k 48"
  by (induction k) (simp_all add: replicate_append_same)

lemma decimal_dec: "0 < k \<Longrightarrow> n < 10 ^ k \<Longrightarrow> length (decimal n) \<le> k \<and> padded k n = dec k n"
proof (induction n arbitrary: k rule: decimal.induct)
  case (1 n)
  then obtain j where k: "k = Suc j" by (cases k) auto
  show ?case
  proof (cases "n < 10")
    case True
    then show ?thesis by (simp add: k padded_def decimal.simps [of n] dec_zero)
  next
    case False
    have n: "n div 10 < 10 ^ j" using "1.prems"(2) k by (simp add: div_less_iff_less_mult mult.commute)
    moreover have "0 < j" using False "1.prems"(2) k by (cases j) auto
    ultimately have ih: "length (decimal (n div 10)) \<le> j" "padded j (n div 10) = dec j (n div 10)"
      using "1.IH" [OF False] by auto
    have d: "decimal n = decimal (n div 10) @ [word_of_nat (48 + n mod 10)]" using False by (simp add: decimal.simps [of n])
    show ?thesis using ih unfolding k padded_def d by simp
  qed
qed

lemma yearFrom_mono: "d \<le> d' \<Longrightarrow> yearFrom y d = (a, r) \<Longrightarrow> yearFrom y d' = (a', r') \<Longrightarrow> a < a' \<or> a = a' \<and> r \<le> r'"
proof (induction y d arbitrary: d' rule: yearFrom.induct)
  case (1 y d)
  have ge: "y \<le> fst (yearFrom y e)" for y e
    by (induction y e rule: yearFrom.induct) (subst yearFrom.simps, auto)
  show ?case
  proof (cases "d < yearDays y")
    case True
    with "1.prems" have "a = y" "r = d" by (simp_all add: yearFrom.simps [of y d])
    moreover have "a' = y \<and> r' = d' \<or> y < a'"
      using "1.prems"(3) ge [of "Suc y" "d' - yearDays y"] by (auto simp: yearFrom.simps [of y d'] split: if_splits)
    ultimately show ?thesis using "1.prems"(1) by auto
  next
    case False
    with "1.prems" "1.IH" [OF False, of "d' - yearDays y"] show ?thesis
      by (auto simp: yearFrom.simps [of y d] yearFrom.simps [of y d'] split: if_splits)
  qed
qed

lemma monthFrom_mono:
  "d \<le> d' \<Longrightarrow> monthFrom m ns d = (a, r) \<Longrightarrow> monthFrom m ns d' = (a', r') \<Longrightarrow> a < a' \<or> a = a' \<and> r \<le> r'"
proof (induction m ns d arbitrary: d' rule: monthFrom.induct)
  case (2 m n ns d)
  have ge: "m \<le> fst (monthFrom m ns e)" for m ns e
    by (induction m ns e rule: monthFrom.induct) auto
  show ?case
  proof (cases "d < n")
    case True
    with "2.prems" ge [of "Suc m" ns "d' - n"] show ?thesis by (auto split: if_splits)
  next
    case False
    with "2.prems" have "\<not> d' < n" "d - n \<le> d' - n" by auto
    with False "2.prems" "2.IH" [OF False, of "d' - n"] show ?thesis by simp
  qed
qed auto

text \<open>The month and the day of the month of a day of the year.\<close>

lemma yearFrom_bound: "yearFrom y d = (a, r) \<Longrightarrow> r < yearDays a"
  by (induction y d rule: yearFrom.induct) (auto simp: yearFrom.simps split: if_splits)

lemma monthFrom_bound:
  "d < sum_list ns \<Longrightarrow> monthFrom m ns d = (a, r) \<Longrightarrow> a < m + length ns \<and> (\<exists>n \<in> set ns. r < n)"
proof (induction m ns d rule: monthFrom.induct)
  case (2 m n ns d)
  show ?case
  proof (cases "d < n")
    case False
    with "2.prems" have "d - n < sum_list ns" "monthFrom (Suc m) ns (d - n) = (a, r)" by auto
    from "2.IH" [OF False this] show ?thesis by auto
  qed (use "2.prems" in auto)
qed simp

lemma civil_bound: "civil ms = (y, m, d) \<Longrightarrow> m < 13 \<and> d < 100"
proof -
  assume c: "civil ms = (y, m, d)"
  obtain r where r: "yearFrom 1970 (ms div 86400000) = (y, r)"
    and m: "monthFrom 1 (monthDays (leapYear y)) r = (m, d - 1)" "0 < d"
    using c by (auto simp: civil_def split: prod.splits)
  have "r < sum_list (monthDays (leapYear y))"
    using yearFrom_bound [OF r] by (auto simp: yearDays_def monthDays_def split: if_splits)
  from monthFrom_bound [OF this m(1)] m(2) show ?thesis by (auto simp: monthDays_def split: if_splits)
qed

lemma civil_mono:
  assumes "a \<le> b" "civil a = (y, m, d)" "civil b = (y', m', d')"
  shows "y < y' \<or> y = y' \<and> (m < m' \<or> m = m' \<and> d \<le> d')"
proof -
  obtain r r' where r: "yearFrom 1970 (a div 86400000) = (y, r)" "monthFrom 1 (monthDays (leapYear y)) r = (m, d - 1)" "0 < d"
    "yearFrom 1970 (b div 86400000) = (y', r')" "monthFrom 1 (monthDays (leapYear y')) r' = (m', d' - 1)" "0 < d'"
    using assms(2,3) by (auto simp: civil_def split: prod.splits)
  have "y < y' \<or> y = y' \<and> r \<le> r'" by (rule yearFrom_mono [OF _ r(1,4)]) (use assms(1) in \<open>simp add: div_le_mono\<close>)
  then show ?thesis using monthFrom_mono [of r r' 1 "monthDays (leapYear y)" m "d - 1" m' "d' - 1"] r by auto
qed

lemma append_le_append [simp]: "(zs @ xs \<le> zs @ ys) = (xs \<le> (ys :: bytes))"
  by (simp add: list_le_def append_less_append)

lemma dec_le_prefix:
  assumes "x < x' \<or> x = x' \<and> us \<le> vs" "x' < 10 ^ k"
  shows "dec k x @ us \<le> dec k x' @ (vs :: bytes)"
  using assms(1)
proof
  assume "x < x'"
  from dec_less [OF this assms(2)] have "dec k x @ us < dec k x' @ vs" by (auto simp: list_less_def intro: lexord_sufI)
  then show ?thesis by simp
qed (auto simp: list_le_def append_less_append)

text \<open>
  The names of a collection's partitions sort in the order of the periods they hold, up to the end of
  the year 9999: of two identifiers, the one made earlier goes to the partition that sorts first, or to the same one.
\<close>

theorem partitions_sort_by_time:
  assumes "p_by p = ByTime" "Time i = Inr t" "Time j = Inr u" "t \<le> u" "fst (civil (unat u)) < 10000"
    and "partition_name p c (VString i) = Inr a" "partition_name p c (VString j) = Inr b"
  shows "a \<le> b"
proof -
  obtain y m d where c: "civil (unat t) = (y, m, d)" by (cases "civil (unat t)")
  obtain y' m' d' where c': "civil (unat u) = (y', m', d')" by (cases "civil (unat u)")
  have le: "unat t \<le> unat u" using assms(4) by (simp add: word_le_nat_alt)
  note mo = civil_mono [OF le c c']
  have y: "y' < 10 ^ 4" "y < 10 ^ 4" using assms(5) c' mo by auto
  have bd: "m < 10 ^ 2" "d < 10 ^ 2" "m' < 10 ^ 2" "d' < 10 ^ 2" using civil_bound [OF c] civil_bound [OF c'] by auto
  have p: "padded 4 y = dec 4 y" "padded 4 y' = dec 4 y'" "padded 2 m = dec 2 m" "padded 2 m' = dec 2 m'" "padded 2 d = dec 2 d" "padded 2 d' = dec 2 d'"
    using decimal_dec y bd by auto
  have dd: "d \<le> d' \<Longrightarrow> dec 2 d \<le> dec 2 d'" using dec_le_prefix [of d d' "[]" "[]" 2] bd by (simp add: le_less)
  have yy: "dec 4 y @ us \<le> dec 4 y' @ vs" if "y < y' \<or> y = y' \<and> us \<le> vs" for us vs by (rule dec_le_prefix [OF that y(1)])
  have mm: "dec 2 m @ us \<le> dec 2 m' @ vs" if "m < m' \<or> m = m' \<and> us \<le> vs" for us vs by (rule dec_le_prefix [OF that bd(3)])
  have day: "dec 4 y @ [dash] @ dec 2 m @ [dash] @ dec 2 d \<le> dec 4 y' @ [dash] @ dec 2 m' @ [dash] @ dec 2 d'"
    using mo dd by (intro yy) (auto intro!: mm)
  have month: "dec 4 y @ [dash] @ dec 2 m \<le> dec 4 y' @ [dash] @ dec 2 m'"
    using mo mm [of "[]" "[]"] by (intro yy) auto
  have year: "dec 4 y \<le> dec 4 y'" using mo yy [of "[]" "[]"] by auto
  have "period (unat t) (p_every p) \<le> period (unat u) (p_every p)"
    unfolding period_def c c' Let_def case_prod_conv p using day month year by simp
  then show ?thesis using assms(1-3,6,7) by (auto simp: partition_name_def list_le_def append_less_append)
qed

theorem partitions_sort_by_time_witness:
  "\<exists>a b. partition_name \<lparr>p_by = ByTime, p_every = EveryMonth, p_keep = 0, p_into = 0\<rparr> (ascii ''log'') (VString (write_id 86400000 (replicate 10 7))) = Inr a
     \<and> partition_name \<lparr>p_by = ByTime, p_every = EveryMonth, p_keep = 0, p_into = 0\<rparr> (ascii ''log'') (VString (write_id 8640000000 (replicate 10 7))) = Inr b
     \<and> a \<le> b \<and> b = ascii ''log-1970-04''"
proof -
  let ?p = "\<lparr>p_by = ByTime, p_every = EveryMonth, p_keep = 0, p_into = 0\<rparr> :: partition_decl"
  let ?i = "write_id 86400000 (replicate 10 7)" and ?j = "write_id 8640000000 (replicate 10 7)"
  have t: "Time ?i = Inr 86400000" "Time ?j = Inr 8640000000" by (simp_all add: Time_write)
  have c: "civil 8640000000 = (1970, 4, 11)"
    by (simp add: civil_def yearFrom.simps yearDays_def leapYear_def monthDays_def)
  obtain a b where n: "partition_name ?p (ascii ''log'') (VString ?i) = Inr a" "partition_name ?p (ascii ''log'') (VString ?j) = Inr b"
    using t by (simp add: partition_name_def)
  have "b = ascii ''log-1970-04''"
    using n(2) t(2) c by (simp add: partition_name_def period_def EveryMonth_def EveryDay_def padded_def decimal.simps dash_def)
  moreover have "a \<le> b" by (rule partitions_sort_by_time [OF _ t _ _ n]) (simp_all add: c)
  ultimately show ?thesis using n by blast
qed


end
