(* ===== verification/Pager.thy ===== *)
theory Pager
  imports Vfs "HOL-Library.AList"
begin

text \<open>
  The file format and the commit protocol of \<^verbatim>\<open>internal/pager\<close> (\<^verbatim>\<open>pager.go\<close>, \<^verbatim>\<open>freelist.go\<close>,
  \<^verbatim>\<open>crypt.go\<close>, \<^verbatim>\<open>led.go\<close>): sealed pages over the disk of \<^verbatim>\<open>Vfs\<close>, two alternating meta pages, the
  free list with its snapshots, the files whose commit point is in another file.

  Page numbers and transaction numbers are natural numbers; their 64-bit width appears where
  they are written to the file (\<open>be 8\<close>). A Go map is an association list (\<open>fpending\<close>,
  \<open>readers\<close>) or a set (\<open>taken\<close>, \<open>seen\<close>). AES-GCM and HKDF are the parameter \<open>crypto\<close>: the
  AEAD a secret and a salt stand for. The bytes of \<^verbatim>\<open>crypto/rand\<close> are the stream \<open>entropy\<close>.
\<close>

section \<open>Layout\<close>

definition PageBytes :: nat where [layout]: "PageBytes = 4096"
definition MetaBytes :: nat where [layout]: "MetaBytes = 256"
definition Magic :: bytes where "Magic = [83, 65, 80, 69, 68, 66, 0, 1]"
definition Format :: nat where [layout]: "Format = 1"

definition KindMeta :: byte where "KindMeta = 1"
definition KindLeaf :: byte where "KindLeaf = 2"
definition KindNode :: byte where "KindNode = 3"
definition KindFree :: byte where "KindFree = 4"
definition KindBlob :: byte where "KindBlob = 5"
definition KindLabel :: byte where "KindLabel = 6"

lemmas kinds = KindMeta_def KindLeaf_def KindNode_def KindFree_def KindBlob_def KindLabel_def

definition NonceBytes :: nat where [layout]: "NonceBytes = 12"
definition TagBytes :: nat where [layout]: "TagBytes = 16"
definition SaltBytes :: nat where [layout]: "SaltBytes = 16"

definition offChecksum :: nat where [layout]: "offChecksum = 0"
definition offKind :: nat where [layout]: "offKind = 4"
definition offReserved :: nat where [layout]: "offReserved = 5"
definition offPageID :: nat where [layout]: "offPageID = 8"
definition offNonce :: nat where [layout]: "offNonce = 16"
definition offTag :: nat where [layout]: "offTag = 28"
definition HeaderBytes :: nat where [layout]: "HeaderBytes = 48"

definition offMagic :: nat where [layout]: "offMagic = HeaderBytes"
definition offFormat :: nat where [layout]: "offFormat = HeaderBytes + 8"
definition offPageSize :: nat where [layout]: "offPageSize = HeaderBytes + 10"
definition offTxID :: nat where [layout]: "offTxID = HeaderBytes + 16"
definition offRoot :: nat where [layout]: "offRoot = HeaderBytes + 24"
definition offFreelist :: nat where [layout]: "offFreelist = HeaderBytes + 32"
definition offPageCount :: nat where [layout]: "offPageCount = HeaderBytes + 40"
definition offEncrypted :: nat where [layout]: "offEncrypted = HeaderBytes + 48"
definition offClean :: nat where [layout]: "offClean = HeaderBytes + 49"
definition offSalt :: nat where [layout]: "offSalt = HeaderBytes + 56"
definition offCheck :: nat where [layout]: "offCheck = HeaderBytes + 72"

section \<open>The checksum\<close>

text \<open>\<^verbatim>\<open>crc32.Checksum\<close> with the Castagnoli polynomial, bit by bit.\<close>

definition crcBit :: "32 word \<Rightarrow> 32 word" where
  "crcBit c = (if bit c 0 then drop_bit 1 c XOR 0x82F63B78 else drop_bit 1 c)"

definition crcByte :: "32 word \<Rightarrow> byte \<Rightarrow> 32 word" where
  "crcByte c b = (crcBit ^^ 8) (c XOR ucast b)"

definition checksum :: "bytes \<Rightarrow> 32 word" where
  "checksum bs = NOT (foldl crcByte 0xFFFFFFFF bs)"

section \<open>State\<close>

record meta =
  TxID :: nat
  Root :: nat
  Freelist :: nat
  PageCount :: nat
  Clean :: bool
  Encrypted :: bool
  Salt :: bytes
  Check :: bytes

record page =
  PID :: nat
  Kind :: byte
  Data :: bytes

definition Payload :: "page \<Rightarrow> bytes" where
  "Payload p = drop HeaderBytes (Data p)"

record freelist =
  ready :: "nat list"
  fpending :: "(nat \<times> nat list) list"
  freeing :: "nat list"
  seen :: "nat set"
  chain :: "nat list"

definition newFreelist :: freelist where
  "newFreelist = \<lparr>ready = [], fpending = [], freeing = [], seen = {}, chain = []\<rparr>"

text \<open>An AEAD of \<^verbatim>\<open>crypto/cipher\<close>: \<open>seal nonce plain extra\<close> and \<open>open nonce sealed extra\<close>.\<close>

record aead =
  aead_seal :: "bytes \<Rightarrow> bytes \<Rightarrow> bytes \<Rightarrow> bytes"
  aead_open :: "bytes \<Rightarrow> bytes \<Rightarrow> bytes \<Rightarrow> bytes option"

text \<open>
  The ciphers derived from a secret and a salt, under the page label (\<^verbatim>\<open>newCrypt\<close>) and under
  the check label (\<^verbatim>\<open>checkCipher\<close>).
\<close>

record crypto =
  page_aead :: "bytes \<Rightarrow> bytes \<Rightarrow> aead"
  check_aead :: "bytes \<Rightarrow> bytes \<Rightarrow> aead"

record pager =
  disk :: simdisk
  meta :: meta
  nextMeta :: nat
  maxPages :: nat
  committed :: nat
  taken :: "nat set"
  free :: freelist
  readers :: "(nat \<times> nat) list"
  cipher :: "aead option"
  reserved :: nat
  led :: bool
  entropy :: "nat \<Rightarrow> byte"

definition zeroMeta :: meta where
  "zeroMeta = \<lparr>TxID = 0, Root = 0, Freelist = 0, PageCount = 0, Clean = False, Encrypted = False,
               Salt = replicate SaltBytes 0, Check = replicate (NonceBytes + TagBytes) 0\<rparr>"

definition newPager :: "simdisk \<Rightarrow> nat \<Rightarrow> (nat \<Rightarrow> byte) \<Rightarrow> pager" where
  "newPager f n rnd =
     \<lparr>disk = f, meta = zeroMeta, nextMeta = 0, maxPages = n, committed = 0, taken = {},
      free = newFreelist, readers = [], cipher = None, reserved = 2, led = False, entropy = rnd\<rparr>"

text \<open>An operation of the file, run inside the pager.\<close>

definition onFile :: "(simdisk, 'a) op \<Rightarrow> (pager, 'a) op" where
  "onFile m st = (let (res, f) = m (disk st) in (res, st\<lparr>disk := f\<rparr>))"

definition randRead :: "nat \<Rightarrow> pager \<Rightarrow> bytes \<times> pager" where
  "randRead n st = (map (entropy st) [0..<n], st\<lparr>entropy := (\<lambda>i. entropy st (n + i))\<rparr>)"

section \<open>Sealing, verifying, encrypting\<close>

definition seal :: "bytes \<Rightarrow> nat \<Rightarrow> byte \<Rightarrow> bytes" where
  "seal data pid kind =
     (let data = put data offKind [kind, 0, 0, 0];
          data = put data offPageID (be 8 pid);
          data = put data offNonce (replicate (NonceBytes + TagBytes) 0)
      in put data offChecksum (be 4 (unat (checksum (drop offKind data)))))"

definition verify :: "bytes \<Rightarrow> nat \<Rightarrow> err + unit" where
  "verify data pid =
     (if unat (checksum (drop offKind data)) \<noteq> unbe (seg data offChecksum (offChecksum + 4)) then Inl ErrChecksum
      else if unbe (seg data offPageID (offPageID + 8)) \<noteq> pid then Inl ErrChecksum
      else Inr ())"

definition encrypt :: "aead \<Rightarrow> bytes \<Rightarrow> bytes \<Rightarrow> bytes" where
  "encrypt c nonce data =
     (let data = put data offNonce nonce;
          plain = drop HeaderBytes data;
          sealed = aead_seal c nonce plain (take offNonce data);
          data = put data HeaderBytes (take (length plain) sealed)
      in put data offTag (take TagBytes (drop (length plain) sealed)))"

definition decrypt :: "aead \<Rightarrow> bytes \<Rightarrow> err + bytes" where
  "decrypt c data =
     (let nonce = seg data offNonce (offNonce + NonceBytes);
          sealed = drop HeaderBytes data @ seg data offTag (offTag + TagBytes)
      in case aead_open c nonce sealed (take offNonce data) of
           None \<Rightarrow> Inl ErrDecrypt
         | Some plain \<Rightarrow>
             Inr (put (put data HeaderBytes plain) offNonce (replicate (NonceBytes + TagBytes) 0)))"

definition makeCheck :: "crypto \<Rightarrow> bytes \<Rightarrow> bytes \<Rightarrow> bytes \<Rightarrow> bytes" where
  "makeCheck C secret salt nonce =
     nonce @ take TagBytes (aead_seal (check_aead C secret salt) nonce [] salt)"

definition openCheck :: "crypto \<Rightarrow> bytes \<Rightarrow> bytes \<Rightarrow> bytes \<Rightarrow> err + unit" where
  "openCheck C secret salt stored =
     (case aead_open (check_aead C secret salt) (take NonceBytes stored)
             (seg stored NonceBytes (NonceBytes + TagBytes)) salt of
        None \<Rightarrow> Inl ErrKey
      | Some _ \<Rightarrow> Inr ())"

section \<open>Pages\<close>

definition NewPage :: "nat \<Rightarrow> byte \<Rightarrow> page" where
  "NewPage pid kind = \<lparr>PID = pid, Kind = kind, Data = replicate PageBytes 0\<rparr>"

definition Dirty :: "pager \<Rightarrow> nat \<Rightarrow> bool" where
  "Dirty st pid \<longleftrightarrow> pid \<ge> committed st \<or> pid \<in> taken st"

definition Read :: "pager \<Rightarrow> nat \<Rightarrow> err + page" where
  "Read st pid =
     (if pid \<ge> PageCount (meta st) then Inl ErrOutOfRange
      else case fst (ReadAt PageBytes (int (pid * PageBytes)) (disk st)) of
             Inl _ \<Rightarrow> Inl ErrTruncated
           | Inr data \<Rightarrow>
               (case (case cipher st of None \<Rightarrow> Inr data | Some c \<Rightarrow> decrypt c data) of
                  Inl e \<Rightarrow> Inl e
                | Inr data \<Rightarrow>
                    (case verify data pid of
                       Inl e \<Rightarrow> Inl e
                     | Inr _ \<Rightarrow> Inr \<lparr>PID = pid, Kind = data ! offKind, Data = data\<rparr>)))"

definition Write :: "page \<Rightarrow> (pager, unit) op" where
  "Write p st =
     (if PID p < reserved st then (Inl ErrReadOnlyPage, st)
      else if length (Data p) \<noteq> PageBytes then (Inl ErrPageSize, st)
      else let data = seal (Data p) (PID p) (Kind p);
               (data, st) = (case cipher st of
                               None \<Rightarrow> (data, st)
                             | Some c \<Rightarrow> (let (nonce, st) = randRead NonceBytes st in (encrypt c nonce data, st)))
           in bnd (onFile (WriteAt data (int (PID p * PageBytes)))) (\<lambda>_. ret ()) st)"

section \<open>Meta pages\<close>

definition metaImage :: "nat \<Rightarrow> meta \<Rightarrow> bytes" where
  "metaImage pid m =
     (let data = replicate MetaBytes 0;
          data = put data offMagic Magic;
          data = put data offFormat (be 2 Format);
          data = put data offPageSize (be 4 PageBytes);
          data = put data offTxID (be 8 (TxID m));
          data = put data offRoot (be 8 (Root m));
          data = put data offFreelist (be 8 (Freelist m));
          data = put data offPageCount (be 8 (PageCount m));
          data = (if Encrypted m then put data offEncrypted [1] else data);
          data = (if Clean m then put data offClean [1] else data);
          data = put data offSalt (Salt m);
          data = put data offCheck (Check m)
      in seal data pid KindMeta)"

definition writeMeta :: "nat \<Rightarrow> meta \<Rightarrow> (pager, unit) op" where
  "writeMeta pid m = bnd (onFile (WriteAt (metaImage pid m) (int (pid * PageBytes)))) (\<lambda>_. ret ())"

definition parseMeta :: "nat \<Rightarrow> bytes \<Rightarrow> err + meta" where
  "parseMeta pid data =
     (if seg data offMagic (offMagic + 8) \<noteq> Magic then Inl ErrNotSapedb
      else if unbe (seg data offFormat (offFormat + 2)) \<noteq> Format then Inl ErrFormat
      else if unbe (seg data offPageSize (offPageSize + 4)) \<noteq> PageBytes then Inl ErrFormat
      else case verify data pid of
             Inl e \<Rightarrow> Inl e
           | Inr _ \<Rightarrow>
               if data ! offKind \<noteq> KindMeta then Inl ErrPageKind
               else Inr \<lparr>TxID = unbe (seg data offTxID (offTxID + 8)),
                         Root = unbe (seg data offRoot (offRoot + 8)),
                         Freelist = unbe (seg data offFreelist (offFreelist + 8)),
                         PageCount = unbe (seg data offPageCount (offPageCount + 8)),
                         Clean = (data ! offClean = 1), Encrypted = (data ! offEncrypted = 1),
                         Salt = seg data offSalt (offSalt + SaltBytes),
                         Check = seg data offCheck (offCheck + (NonceBytes + TagBytes))\<rparr>)"

definition readMeta :: "pager \<Rightarrow> nat \<Rightarrow> err + meta" where
  "readMeta st pid =
     (case fst (ReadAt MetaBytes (int (pid * PageBytes)) (disk st)) of
        Inl e \<Rightarrow> Inl e
      | Inr data \<Rightarrow> parseMeta pid data)"

definition chooseMeta :: "err + meta \<Rightarrow> err + meta \<Rightarrow> err + (meta \<times> nat)" where
  "chooseMeta first second =
     (case (first, second) of
        (Inl e1, Inl e2) \<Rightarrow> if e1 = ErrNotSapedb \<or> e1 = ErrFormat then Inl e1 else Inl ErrNoMeta
      | (Inr m1, Inl _) \<Rightarrow> Inr (m1, 1)
      | (Inl _, Inr m2) \<Rightarrow> Inr (m2, 0)
      | (Inr m1, Inr m2) \<Rightarrow>
          if TxID m2 > TxID m1 then Inr (m2, 0)
          else if TxID m2 = TxID m1 \<and> Clean m2 \<and> \<not> Clean m1 then Inr (m2, 0)
          else Inr (m1, 1))"

definition loadMeta :: "(pager, unit) op" where
  "loadMeta st =
     (case chooseMeta (readMeta st 0) (readMeta st 1) of
        Inl e \<Rightarrow> (Inl e, st)
      | Inr (m, n) \<Rightarrow> (Inr (), st\<lparr>meta := m, nextMeta := n, committed := PageCount m\<rparr>))"

section \<open>The free list\<close>

definition freeNext :: nat where [layout]: "freeNext = 0"
definition freeCount :: nat where [layout]: "freeCount = 8"
definition freeHeader :: nat where [layout]: "freeHeader = 12"
definition freeEntry :: nat where [layout]: "freeEntry = 16"
definition freePerPage :: nat where "freePerPage = (PageBytes - HeaderBytes - freeHeader) div freeEntry"

definition fcount :: "freelist \<Rightarrow> nat" where
  "fcount f = length (ready f) + sum_list (map (length \<circ> snd) (fpending f))"

definition Free :: "nat \<Rightarrow> pager \<Rightarrow> pager" where
  "Free pid st =
     (if pid < reserved st \<or> pid \<in> seen (free st) then st
      else let st = st\<lparr>free := (free st)\<lparr>seen := insert pid (seen (free st))\<rparr>\<rparr> in
        if Dirty st pid then st\<lparr>free := (free st)\<lparr>ready := ready (free st) @ [pid]\<rparr>\<rparr>
        else st\<lparr>free := (free st)\<lparr>freeing := freeing (free st) @ [pid]\<rparr>\<rparr>)"

record snapshot =
  held :: bool
  STxID :: nat
  SRoot :: nat

definition heldAt :: "pager \<Rightarrow> nat \<Rightarrow> nat" where
  "heldAt st t = (case map_of (readers st) t of None \<Rightarrow> 0 | Some n \<Rightarrow> n)"

definition Snapshot :: "pager \<Rightarrow> snapshot \<times> pager" where
  "Snapshot st =
     (let t = TxID (meta st) in
      (\<lparr>held = True, STxID = t, SRoot = Root (meta st)\<rparr>,
       st\<lparr>readers := AList.update t (heldAt st t + 1) (readers st)\<rparr>))"

definition Release :: "snapshot \<Rightarrow> pager \<Rightarrow> snapshot \<times> pager" where
  "Release s st =
     (if \<not> held s then (s, st)
      else (s\<lparr>held := False\<rparr>,
            if heldAt st (STxID s) \<le> 1 then st\<lparr>readers := AList.delete (STxID s) (readers st)\<rparr>
            else st\<lparr>readers := AList.update (STxID s) (heldAt st (STxID s) - 1) (readers st)\<rparr>))"

definition oldestHeld :: "pager \<Rightarrow> nat" where
  "oldestHeld st = foldl (\<lambda>oldest t. if oldest = 0 \<or> t < oldest then t else oldest) 0 (map fst (readers st))"

definition promoteOne :: "nat \<Rightarrow> nat \<Rightarrow> freelist \<Rightarrow> nat \<Rightarrow> freelist" where
  "promoteOne tx oldest f t =
     (if t > tx then f
      else if oldest \<noteq> 0 \<and> oldest < t then f
      else f\<lparr>ready := ready f @ (case map_of (fpending f) t of None \<Rightarrow> [] | Some ids \<Rightarrow> ids),
             fpending := AList.delete t (fpending f)\<rparr>)"

definition promote :: "pager \<Rightarrow> pager" where
  "promote st =
     (if fpending (free st) = [] then st
      else st\<lparr>free := foldl (promoteOne (TxID (meta st)) (oldestHeld st)) (free st)
                        (sort (map fst (fpending (free st))))\<rparr>)"

definition Allocate :: "(pager, nat) op" where
  "Allocate st =
     (let st = promote st in
      if ready (free st) \<noteq> [] then
        let pid = last (ready (free st)) in
        (Inr pid, st\<lparr>free := (free st)\<lparr>ready := butlast (ready (free st)), seen := seen (free st) - {pid}\<rparr>,
                     taken := insert pid (taken st)\<rparr>)
      else if maxPages st > 0 \<and> PageCount (meta st) \<ge> maxPages st then (Inl ErrQuota, st)
      else let pid = PageCount (meta st) in
        (Inr pid, st\<lparr>meta := (meta st)\<lparr>PageCount := pid + 1\<rparr>, taken := insert pid (taken st)\<rparr>))"

lemma sum_delete_le:
  "length (case map_of al t of None \<Rightarrow> [] | Some ids \<Rightarrow> ids) + sum_list (map (length \<circ> snd) (AList.delete t al))
     \<le> sum_list (map (length \<circ> snd) al)"
proof (induction al)
  case Nil
  then show ?case by simp
next
  case (Cons x al)
  obtain k v where x: "x = (k, v)" by (cases x)
  have "sum_list (map (length \<circ> snd) (AList.delete t al)) \<le> sum_list (map (length \<circ> snd) al)"
    using Cons by linarith
  with Cons x show ?case by auto
qed

lemma fcount_promoteOne: "fcount (promoteOne tx oldest f t) \<le> fcount f"
  using sum_delete_le [of "fpending f" t] by (simp add: promoteOne_def fcount_def)

lemma fcount_promotes: "fcount (foldl (promoteOne tx oldest) f ts) \<le> fcount f"
proof (induction ts arbitrary: f)
  case Nil
  then show ?case by simp
next
  case (Cons t ts)
  from Cons [of "promoteOne tx oldest f t"] fcount_promoteOne [of tx oldest f t] show ?case by simp
qed

lemma fcount_promote: "fcount (free (promote st)) \<le> fcount (free st)"
  by (simp add: promote_def fcount_promotes)

lemma fcount_Allocate: "Allocate st = (res, st') \<Longrightarrow> fcount (free st') \<le> fcount (free st)"
  using fcount_promote [of st] by (auto simp: Allocate_def Let_def fcount_def split: if_splits)

definition listPagesNeeded :: "pager \<Rightarrow> nat" where
  "listPagesNeeded st = (fcount (free st) + freePerPage - 1) div freePerPage"

text \<open>The loop that takes the pages the list itself will be written on.\<close>

function takeListPages :: "nat list \<Rightarrow> (pager, nat list) op" where
  "takeListPages ids st =
     (if listPagesNeeded st \<le> length ids then (Inr ids, st)
      else case Allocate st of
             (Inl e, st') \<Rightarrow> (Inl e, st')
           | (Inr pid, st') \<Rightarrow> takeListPages (ids @ [pid]) st')"
  by pat_completeness auto
termination
proof (relation "measure (\<lambda>(ids, st). listPagesNeeded st - length ids)", simp)
  fix ids :: "nat list" and st x st' and pid :: nat
  assume "\<not> listPagesNeeded st \<le> length ids" "(x, st') = Allocate st" "x = Inr pid"
  moreover from this have "listPagesNeeded st' \<le> listPagesNeeded st"
    using fcount_Allocate [of st "Inr pid" st'] by (simp add: listPagesNeeded_def div_le_mono)
  ultimately show "((ids @ [pid], st'), ids, st) \<in> measure (\<lambda>(ids, st). listPagesNeeded st - length ids)"
    by simp
qed

declare takeListPages.simps [simp del]

definition listEntries :: "freelist \<Rightarrow> (nat \<times> nat) list" where
  "listEntries f =
     map (\<lambda>pid. (0, pid)) (ready f) @
     concat (map (\<lambda>t. map (\<lambda>pid. (t, pid)) (case map_of (fpending f) t of None \<Rightarrow> [] | Some ids \<Rightarrow> ids))
              (sort (map fst (fpending f))))"

definition listPayload :: "nat \<Rightarrow> (nat \<times> nat) list \<Rightarrow> bytes" where
  "listPayload next es =
     put (put (put (replicate (PageBytes - HeaderBytes) 0) freeNext (be 8 next)) freeCount (be 4 (length es)))
       freeHeader (concat (map (\<lambda>(t, pid). be 8 t @ be 8 pid) es))"

definition listPage :: "nat \<Rightarrow> nat \<Rightarrow> (nat \<times> nat) list \<Rightarrow> page" where
  "listPage pid next es =
     (let p = NewPage pid KindFree in p\<lparr>Data := take HeaderBytes (Data p) @ listPayload next es\<rparr>)"

text \<open>The list pages, last first, so that each knows where the rest of the list continues.\<close>

fun writeListPages :: "nat list \<Rightarrow> (nat \<times> nat) list \<Rightarrow> nat \<Rightarrow> nat \<Rightarrow> (pager, unit) op" where
  "writeListPages ids es 0 next = ret ()"
| "writeListPages ids es (Suc i) next =
     bnd (Write (listPage (ids ! i) next (seg es (i * freePerPage) (min (i * freePerPage + freePerPage) (length es)))))
       (\<lambda>_. writeListPages ids es i (ids ! i))"

definition writeFreelist :: "(pager, nat \<times> nat list) op" where
  "writeFreelist =
     bnd (takeListPages []) (\<lambda>ids.
       if ids = [] then ret (0, [])
       else bnd (\<lambda>st. writeListPages ids (listEntries (free st)) (length ids) 0 st) (\<lambda>_. ret (ids ! 0, ids)))"

definition addFree :: "nat \<Rightarrow> pager \<Rightarrow> pager" where
  "addFree pid st = st\<lparr>free := (free st)\<lparr>ready := ready (free st) @ [pid]\<rparr>\<rparr>"

fun readEntries :: "bytes \<Rightarrow> nat \<Rightarrow> nat \<Rightarrow> (pager, unit) op" where
  "readEntries payload j 0 = ret ()"
| "readEntries payload j (Suc n) =
     (\<lambda>st. let pos = freeHeader + j * freeEntry; freed = unbe (seg payload (pos + 8) (pos + 16)) in
        if freed \<le> 1 \<or> freed \<ge> PageCount (meta st) then (Inl ErrFreelist, st)
        else readEntries payload (Suc j) n (addFree freed st))"

lemma readEntries_frame:
  "readEntries payload j n st = (res, st') \<Longrightarrow> meta st' = meta st \<and> chain (free st') = chain (free st)"
proof (induction n arbitrary: j st)
  case 0
  then show ?case by simp
next
  case (Suc n)
  then show ?case by (auto simp: Let_def addFree_def split: if_splits)
qed

function readList :: "nat \<Rightarrow> (pager, unit) op" where
  "readList pid st =
     (if pid = 0 then (Inr (), st)
      else if pid < reserved st \<or> pid \<ge> PageCount (meta st) then (Inl ErrFreelist, st)
      else if length (chain (free st)) > PageCount (meta st) then (Inl ErrFreelist, st)
      else case Read st pid of
             Inl e \<Rightarrow> (Inl e, st)
           | Inr p \<Rightarrow>
               if Kind p \<noteq> KindFree then (Inl ErrFreelist, st)
               else let st = st\<lparr>free := (free st)\<lparr>chain := chain (free st) @ [pid]\<rparr>\<rparr>;
                        payload = Payload p;
                        n = unbe (seg payload freeCount (freeCount + 4)) in
                 if n > freePerPage then (Inl ErrFreelist, st)
                 else case readEntries payload 0 n st of
                        (Inl e, st') \<Rightarrow> (Inl e, st')
                      | (Inr _, st') \<Rightarrow> readList (unbe (seg payload freeNext (freeNext + 8))) st')"
  by pat_completeness auto
termination
proof (relation "measure (\<lambda>(pid, st). PageCount (meta st) + 1 - length (chain (free st)))", simp, goal_cases)
  case (1 pid st p st1 payload n x st' u)
  then have "meta st' = meta st1" "chain (free st') = chain (free st1)"
    using readEntries_frame [of payload 0 n st1 x st'] by simp_all
  with 1 show ?case by auto
qed

declare readList.simps [simp del]

definition readFreelist :: "nat \<Rightarrow> (pager, unit) op" where
  "readFreelist head st = readList head (st\<lparr>free := newFreelist\<rparr>)"

definition FreePages :: "pager \<Rightarrow> nat" where
  "FreePages st = fcount (free st)"

definition FreeSet :: "pager \<Rightarrow> nat set" where
  "FreeSet st = set (ready (free st)) \<union> (\<Union>(t, ids) \<in> set (fpending (free st)). set ids) \<union> set (freeing (free st))"

section \<open>Opening, committing, rolling back, closing\<close>

definition CreateWith :: "crypto \<Rightarrow> simdisk \<Rightarrow> nat \<Rightarrow> bytes \<Rightarrow> (nat \<Rightarrow> byte) \<Rightarrow> (err + unit) \<times> pager" where
  "CreateWith C f pages key rnd =
     (let st = newPager f pages rnd;
          st = st\<lparr>meta := zeroMeta\<lparr>TxID := 1, PageCount := 2\<rparr>\<rparr>;
          st = (if key = [] then st
                else let (salt, st) = randRead SaltBytes st; (nonce, st) = randRead NonceBytes st in
                  st\<lparr>meta := (meta st)\<lparr>Salt := salt, Check := makeCheck C key salt nonce, Encrypted := True\<rparr>,
                     cipher := Some (page_aead C key salt)\<rparr>)
      in bnd (writeMeta 0 (meta st)) (\<lambda>_. bnd (writeMeta 1 (meta st)) (\<lambda>_. bnd (onFile Sync) (\<lambda>_.
           modify (\<lambda>st. st\<lparr>nextMeta := 0, committed := PageCount (meta st)\<rparr>)))) st)"

definition unlock :: "crypto \<Rightarrow> bytes \<Rightarrow> meta \<Rightarrow> err + aead option" where
  "unlock C key m =
     (if Encrypted m \<and> key = [] then Inl ErrKey
      else if Encrypted m then
        (case openCheck C key (Salt m) (Check m) of
           Inl e \<Rightarrow> Inl e
         | Inr _ \<Rightarrow> Inr (Some (page_aead C key (Salt m))))
      else if key \<noteq> [] then Inl ErrNotEncrypted
      else Inr None)"

definition OpenWith :: "crypto \<Rightarrow> simdisk \<Rightarrow> nat \<Rightarrow> bytes \<Rightarrow> (nat \<Rightarrow> byte) \<Rightarrow> (err + unit) \<times> pager" where
  "OpenWith C f pages key rnd =
     bnd loadMeta (\<lambda>_ st.
       case unlock C key (meta st) of
         Inl e \<Rightarrow> (Inl e, st)
       | Inr c \<Rightarrow> readFreelist (Freelist (meta st)) (st\<lparr>cipher := c\<rparr>))
     (newPager f pages rnd)"

definition Rollback :: "(pager, unit) op" where
  "Rollback = bnd loadMeta (\<lambda>_ st. readFreelist (Freelist (meta st)) (st\<lparr>taken := {}\<rparr>))"

definition Pending :: "pager \<Rightarrow> bool" where
  "Pending st \<longleftrightarrow> taken st \<noteq> {} \<or> freeing (free st) \<noteq> []"

text \<open>
  What \<^verbatim>\<open>Commit\<close> and \<^verbatim>\<open>Flush\<close> do to the list before they write it: last time's list pages are
  freed, and this transaction's garbage is put down under its number.
\<close>

definition rollGarbage :: "pager \<Rightarrow> pager" where
  "rollGarbage st =
     (let st = foldl (\<lambda>st pid. Free pid st) st (chain (free st)) in
      if freeing (free st) = [] then st
      else let next = TxID (meta st) + 1;
               old = (case map_of (fpending (free st)) next of None \<Rightarrow> [] | Some ids \<Rightarrow> ids) in
        st\<lparr>free := (free st)\<lparr>fpending := AList.update next (old @ freeing (free st)) (fpending (free st)),
                              freeing := []\<rparr>\<rparr>)"

definition Commit :: "nat \<Rightarrow> (pager, unit) op" where
  "Commit rt st =
     (if led st then (Inl ErrLed, st)
      else let next = (meta st)\<lparr>TxID := TxID (meta st) + 1, Root := rt, Clean := False\<rparr> in
        bnd writeFreelist (\<lambda>(head, list) st.
          let next = next\<lparr>Freelist := head, PageCount := PageCount (meta st)\<rparr> in
          bnd (onFile Sync) (\<lambda>_. bnd (\<lambda>st. writeMeta (nextMeta st) next st) (\<lambda>_. bnd (onFile Sync) (\<lambda>_.
            modify (\<lambda>st. st\<lparr>meta := next, nextMeta := 1 - nextMeta st, committed := PageCount next,
                           free := (free st)\<lparr>chain := list, seen := {}\<rparr>, taken := {}\<rparr>)))) st)
        (rollGarbage st))"

definition Close :: "(pager, unit) op" where
  "Close st =
     (let st = (if \<not> led st \<and> \<not> Clean (meta st)
                then (case writeMeta (nextMeta st) ((meta st)\<lparr>Clean := True\<rparr>) st of
                        (Inl _, st) \<Rightarrow> st
                      | (Inr _, st) \<Rightarrow> snd (onFile Sync st))
                else st)
      in onFile Close_disk st)"

definition Interrupted :: "(pager, nat) op" where
  "Interrupted =
     bnd (onFile Size) (\<lambda>n st.
       let counted = PageCount (meta st) * PageBytes in
       (Inr (if n \<le> counted then 0 else (n - counted) div PageBytes), st))"

section \<open>Led stores\<close>

record led_at =
  LRoot :: nat
  LFreelist :: nat
  LPageCount :: nat

definition labelImage :: "meta \<Rightarrow> bytes" where
  "labelImage m =
     (let data = replicate MetaBytes 0;
          data = put data offMagic Magic;
          data = put data offFormat (be 2 Format);
          data = put data offPageSize (be 4 PageBytes);
          data = (if Encrypted m then put data offEncrypted [1] else data);
          data = put data offSalt (Salt m);
          data = put data offCheck (Check m)
      in seal data 0 KindLabel)"

definition writeLabel :: "(pager, unit) op" where
  "writeLabel = bnd (\<lambda>st. onFile (WriteAt (labelImage (meta st)) 0) st) (\<lambda>_. ret ())"

definition readLabel :: "pager \<Rightarrow> err + meta" where
  "readLabel st =
     (case fst (ReadAt MetaBytes 0 (disk st)) of
        Inl e \<Rightarrow> Inl e
      | Inr data \<Rightarrow>
          if seg data offMagic (offMagic + 8) \<noteq> Magic then Inl ErrNotSapedb
          else if unbe (seg data offFormat (offFormat + 2)) \<noteq> Format then Inl ErrFormat
          else if unbe (seg data offPageSize (offPageSize + 4)) \<noteq> PageBytes then Inl ErrFormat
          else case verify data 0 of
                 Inl e \<Rightarrow> Inl e
               | Inr _ \<Rightarrow>
                   if data ! offKind \<noteq> KindLabel then Inl ErrPageKind
                   else Inr (zeroMeta\<lparr>Encrypted := (data ! offEncrypted = 1),
                                      Salt := seg data offSalt (offSalt + SaltBytes),
                                      Check := seg data offCheck (offCheck + (NonceBytes + TagBytes))\<rparr>))"

definition CreateLed :: "crypto \<Rightarrow> simdisk \<Rightarrow> nat \<Rightarrow> bytes \<Rightarrow> (nat \<Rightarrow> byte) \<Rightarrow> (err + unit) \<times> pager" where
  "CreateLed C f pages key rnd =
     (let st = newPager f pages rnd;
          st = st\<lparr>reserved := 1, led := True, meta := zeroMeta\<lparr>TxID := 1, PageCount := 1\<rparr>\<rparr>;
          st = (if key = [] then st
                else let (salt, st) = randRead SaltBytes st; (nonce, st) = randRead NonceBytes st in
                  st\<lparr>meta := (meta st)\<lparr>Salt := salt, Check := makeCheck C key salt nonce, Encrypted := True\<rparr>,
                     cipher := Some (page_aead C key salt)\<rparr>)
      in bnd writeLabel (\<lambda>_. bnd (onFile Sync) (\<lambda>_.
           modify (\<lambda>st. st\<lparr>committed := PageCount (meta st)\<rparr>))) st)"

definition atLeastOne :: "nat \<Rightarrow> nat" where
  "atLeastOne n = (if n < 1 then 1 else n)"

definition OpenLed ::
  "crypto \<Rightarrow> simdisk \<Rightarrow> led_at \<Rightarrow> nat \<Rightarrow> bytes \<Rightarrow> (nat \<Rightarrow> byte) \<Rightarrow> (err + unit) \<times> pager" where
  "OpenLed C f where_at pages key rnd =
     (let st = (newPager f pages rnd)\<lparr>reserved := 1, led := True\<rparr> in
      case readLabel st of
        Inl e \<Rightarrow> (Inl e, st)
      | Inr label \<Rightarrow>
          (case unlock C key label of
             Inl e \<Rightarrow> (Inl e, st)
           | Inr c \<Rightarrow>
               let m = label\<lparr>TxID := 1, Root := LRoot where_at, Freelist := LFreelist where_at,
                             PageCount := atLeastOne (LPageCount where_at)\<rparr>;
                   st = st\<lparr>cipher := c, meta := m, committed := PageCount m\<rparr>
               in readFreelist (Freelist m) st))"

definition At :: "pager \<Rightarrow> led_at" where
  "At st = \<lparr>LRoot = Root (meta st), LFreelist = Freelist (meta st), LPageCount = PageCount (meta st)\<rparr>"

definition Flush :: "nat \<Rightarrow> (pager, led_at) op" where
  "Flush rt st =
     (if \<not> led st then (Inl ErrNotLed, st)
      else bnd writeFreelist (\<lambda>(head, list). bnd (onFile Sync) (\<lambda>_ st.
             let st = st\<lparr>meta := (meta st)\<lparr>TxID := TxID (meta st) + 1, Root := rt, Freelist := head\<rparr>,
                         committed := PageCount (meta st),
                         free := (free st)\<lparr>chain := list, seen := {}\<rparr>, taken := {}\<rparr>
             in (Inr (At st), st)))
           (rollGarbage st))"

definition Abandon :: "led_at \<Rightarrow> (pager, unit) op" where
  "Abandon where_at st =
     (if \<not> led st then (Inl ErrNotLed, st)
      else let m = (meta st)\<lparr>Root := LRoot where_at, Freelist := LFreelist where_at,
                             PageCount := atLeastOne (LPageCount where_at)\<rparr>
           in readFreelist (Freelist m)
                (st\<lparr>meta := m, committed := PageCount m, taken := {}, free := newFreelist\<rparr>))"

end
