(* ===== verification/Pager_Pages.thy ===== *)
theory Pager_Pages
  imports Pager
begin

text \<open>
  What the pager promises about single pages: a sealed page verifies, an encrypted page decrypts,
  a page written is the page read, and a write disturbs no other page; a meta page reads back as
  the meta that was written, and the newer of two is the one a file is opened at. The promise is
  the interface \<open>page_store\<close>, interpreted on \<^verbatim>\<open>Read\<close> and \<^verbatim>\<open>Write\<close>; the tree rests on it.
\<close>

section \<open>Sealing\<close>

lemma length_seal [simp]: "HeaderBytes \<le> length data \<Longrightarrow> length (seal data pid kind) = length data"
  by (simp add: seal_def Let_def layout)

lemma drop_put_below: "off + length src \<le> n \<Longrightarrow> n \<le> length dst \<Longrightarrow> drop n (put dst off src) = drop n dst"
  by (rule nth_equalityI) (auto simp: nth_put)

lemma drop_seal: "HeaderBytes \<le> length data \<Longrightarrow> drop HeaderBytes (seal data pid kind) = drop HeaderBytes data"
  by (simp add: seal_def Let_def layout drop_put_below)

lemma seg_seal: "44 \<le> i \<Longrightarrow> HeaderBytes \<le> length data \<Longrightarrow> seg (seal data pid kind) i j = seg data i j"
  by (simp add: seal_def Let_def layout seg_put_disjoint)

lemma nth_seal: "44 \<le> k \<Longrightarrow> k < length data \<Longrightarrow> HeaderBytes \<le> length data \<Longrightarrow> seal data pid kind ! k = data ! k"
  by (simp add: seal_def Let_def layout nth_put)

lemma seal_kind: "HeaderBytes \<le> length data \<Longrightarrow> seal data pid kind ! offKind = kind"
  by (simp add: seal_def Let_def layout nth_put)

lemma seal_nonce_zero:
  "HeaderBytes \<le> length data \<Longrightarrow> seg (seal data pid kind) offNonce (offNonce + (NonceBytes + TagBytes)) = replicate (NonceBytes + TagBytes) 0"
proof -
  assume "HeaderBytes \<le> length data"
  then have "seg (put (put (put data 4 [kind, 0, 0, 0]) 8 (be 8 pid)) 16 (replicate 28 0)) 16 44 = (replicate 28 0 :: bytes)"
    using seg_put_same [of 16 "replicate 28 0 :: bytes"] by (simp add: layout)
  then show ?thesis
    using \<open>HeaderBytes \<le> length data\<close> by (simp add: seal_def Let_def layout seg_put_disjoint)
qed

lemma verify_seal:
  assumes "HeaderBytes \<le> length data" "pid < 2 ^ 64"
  shows "verify (seal data pid kind) pid = Inr ()"
proof -
  define d where "d = put (put (put data 4 [kind, 0, 0, 0]) 8 (be 8 pid)) 16 (replicate 28 0)"
  have len: "length d = length data" "48 \<le> length d"
    using assms(1) by (simp_all add: d_def layout)
  have s: "seal data pid kind = put d 0 (be 4 (unat (checksum (drop 4 d))))"
    by (simp add: seal_def Let_def layout d_def)
  have "drop 4 (seal data pid kind) = drop 4 d"
    using len by (simp add: s drop_put_below)
  moreover have "seg (seal data pid kind) 0 4 = be 4 (unat (checksum (drop 4 d)))"
    using seg_put_same [of 0 "be 4 (unat (checksum (drop 4 d)))" d] len by (simp add: s)
  moreover have "unat (checksum (drop 4 d)) < 256 ^ 4"
    using unsigned_less [of "checksum (drop 4 d)"] by simp
  moreover have "seg (seal data pid kind) 8 16 = be 8 pid"
  proof -
    have "seg (seal data pid kind) 8 16 = seg d 8 16"
      using len by (simp add: s seg_put_disjoint)
    also have "\<dots> = seg (put (put data 4 [kind, 0, 0, 0]) 8 (be 8 pid)) 8 (8 + length (be 8 pid))"
      using assms(1) by (simp add: d_def seg_put_disjoint layout)
    also have "\<dots> = be 8 pid"
      using assms(1) by (intro seg_put_same) (simp add: layout)
    finally show ?thesis .
  qed
  moreover have "pid < 256 ^ 8" using assms(2) by simp
  ultimately show ?thesis by (simp add: verify_def layout)
qed

section \<open>Encryption\<close>

definition aead_ok :: "aead \<Rightarrow> bool" where
  "aead_ok c \<longleftrightarrow> (\<forall>nonce plain extra. length nonce = NonceBytes \<longrightarrow>
     aead_open c nonce (aead_seal c nonce plain extra) extra = Some plain
     \<and> length (aead_seal c nonce plain extra) = length plain + TagBytes)"

lemma length_encrypt [simp]:
  "HeaderBytes \<le> length data \<Longrightarrow> length (encrypt c nonce data) = length data"
  by (simp add: encrypt_def Let_def layout)

lemma encrypt_parts:
  assumes "aead_ok c" "length nonce = NonceBytes" "HeaderBytes \<le> length data"
  defines "e \<equiv> encrypt c nonce data"
    and "sealed \<equiv> aead_seal c nonce (drop HeaderBytes data) (take offNonce data)"
  shows "take offNonce e = take offNonce data" "seg e offNonce (offNonce + NonceBytes) = nonce"
    "drop HeaderBytes e = take (length data - HeaderBytes) sealed"
    "seg e offTag (offTag + TagBytes) = drop (length data - HeaderBytes) sealed"
    "seg e 44 48 = seg data 44 48"
proof -
  have l: "length sealed = length data - 48 + 16"
    using assms(1,2) by (simp add: aead_ok_def sealed_def layout)
  have n: "length nonce = 12" and d: "48 \<le> length data" using assms(2,3) by (simp_all add: layout)
  have plain: "drop 48 (put data 16 nonce) = drop 48 data" "take 16 (put data 16 nonce) = take 16 data"
    using n d by (auto simp: put_def)
  define t where "t = drop (length data - 48) sealed"
  define s where "s = take (length data - 48) sealed"
  have ls: "length s = length data - 48" "length t = 16" using l by (simp_all add: s_def t_def)
  have e: "e = put (put (put data 16 nonce) 48 s) 28 t"
    using d n plain ls by (simp add: e_def encrypt_def Let_def layout sealed_def s_def t_def take_all)
  have seg0: "seg xs 0 k = take k xs" for xs :: bytes and k by (simp add: seg_def)
  have "seg e 0 16 = seg data 0 16" using e d n ls by (simp add: seg_put_disjoint)
  then show "take offNonce e = take offNonce data" by (simp add: seg0 layout)
  have "seg e 16 28 = seg (put data 16 nonce) 16 28"
    using e d n ls by (simp add: seg_put_disjoint)
  also have "\<dots> = nonce" using seg_put_same [of 16 nonce data] d n by simp
  finally show "seg e offNonce (offNonce + NonceBytes) = nonce" by (simp add: layout)
  have "drop 48 e = drop 48 (put (put data 16 nonce) 48 s)"
    using e d n ls by (simp add: drop_put_below)
  also have "\<dots> = s" using d n ls by (simp add: put_def)
  finally show "drop HeaderBytes e = take (length data - HeaderBytes) sealed" by (simp add: s_def layout)
  have "seg e 28 (28 + length t) = t" unfolding e using d n ls by (intro seg_put_same) simp
  then show "seg e offTag (offTag + TagBytes) = drop (length data - HeaderBytes) sealed"
    using ls by (simp add: t_def layout)
  show "seg e 44 48 = seg data 44 48" using e d n ls by (simp add: seg_put_disjoint)
qed

lemma split_page: "48 \<le> length xs \<Longrightarrow> xs = take 16 xs @ seg xs 16 44 @ seg xs 44 48 @ drop 48 xs"
  by (rule nth_equalityI) (auto simp: seg_def nth_append)

lemma decrypt_encrypt:
  assumes "aead_ok c" "length nonce = NonceBytes" "HeaderBytes \<le> length data"
    and "seg data offNonce (offNonce + (NonceBytes + TagBytes)) = replicate (NonceBytes + TagBytes) 0"
  shows "decrypt c (encrypt c nonce data) = Inr data"
proof -
  define e where "e = encrypt c nonce data"
  define sealed where "sealed = aead_seal c nonce (drop HeaderBytes data) (take offNonce data)"
  note p = encrypt_parts [OF assms(1-3), folded e_def sealed_def]
  have "aead_open c nonce sealed (take offNonce data) = Some (drop HeaderBytes data)"
    using assms(1,2) by (simp add: aead_ok_def sealed_def)
  then have d: "decrypt c e = Inr (put (put e 48 (drop 48 data)) 16 (replicate 28 0))"
    using p by (simp add: decrypt_def Let_def layout)
  let ?x = "put (put e 48 (drop 48 data)) 16 (replicate 28 0)"
  have len: "48 \<le> length data" "length e = length data" using assms(3) by (simp_all add: layout e_def)
  have seg0: "seg xs 0 k = take k xs" for xs :: bytes and k by (simp add: seg_def)
  have "seg ?x 0 16 = seg e 0 16" using len by (simp add: seg_put_disjoint)
  then have "take 16 ?x = take 16 data" using p(1) by (simp add: seg0 layout)
  moreover have "seg ?x 16 44 = replicate 28 0"
    using seg_put_same [of 16 "replicate 28 0" "put e 48 (drop 48 data)"] len by simp
  moreover have "seg ?x 44 48 = seg data 44 48" using len p(5) by (simp add: seg_put_disjoint)
  moreover have "drop 48 ?x = drop 48 (put e 48 (drop 48 data))" using len by (simp add: drop_put_below)
  moreover have "\<dots> = drop 48 data" using len by (simp add: put_def)
  ultimately have "?x = data"
    using split_page [of ?x] split_page [of data] len assms(4) by (simp add: layout)
  with d show ?thesis by (simp add: e_def)
qed

section \<open>Reading and writing the file\<close>

lemma ReadAt_Inr:
  "0 < n \<Longrightarrow> fst (ReadAt n (int off) d) = Inr data \<longleftrightarrow>
     \<not> closed d \<and> \<not> cut d \<and> off + n \<le> length (current d) \<and> data = seg (current d) off (off + n)"
  by (auto simp: ReadAt_def bnd_def alive_def Let_def seg_def min_def)

lemma WriteAt_Inr:
  assumes "WriteAt p (int off) d = (Inr n, d')"
  shows "current d' = overwrite (current d) off p" "closed d' = closed d" "cut d' = cut d"
    "durable d' = durable d" "pending d' = pending d @ [(off, p)]" "faults d' = faults d"
    "\<not> closed d" "\<not> cut d"
  using assms by (auto simp: WriteAt_def bnd_def alive_def Let_def split: if_splits)

definition cipher_ok :: "pager \<Rightarrow> bool" where
  "cipher_ok st \<longleftrightarrow> (case cipher st of None \<Rightarrow> True | Some c \<Rightarrow> aead_ok c)"

text \<open>The bytes \<^verbatim>\<open>Write\<close> puts in the file for a page.\<close>

definition written :: "pager \<Rightarrow> page \<Rightarrow> bytes" where
  "written st p =
     (case cipher st of
        None \<Rightarrow> seal (Data p) (PID p) (Kind p)
      | Some c \<Rightarrow> encrypt c (map (entropy st) [0..<NonceBytes]) (seal (Data p) (PID p) (Kind p)))"

lemma Write_Inr:
  assumes "Write p st = (Inr u, st')"
  shows "reserved st \<le> PID p" "length (Data p) = PageBytes"
    "\<exists>n d. WriteAt (written st p) (int (PID p * PageBytes)) (disk st) = (Inr n, d) \<and> disk st' = d"
    "meta st' = meta st" "cipher st' = cipher st" "free st' = free st" "taken st' = taken st"
    "committed st' = committed st" "reserved st' = reserved st" "readers st' = readers st"
    "maxPages st' = maxPages st" "nextMeta st' = nextMeta st" "led st' = led st"
  using assms
  by (auto simp: Write_def Let_def written_def onFile_def randRead_def bnd_def
      split: if_splits option.splits prod.splits sum.splits)

lemma length_written: "length (Data p) = PageBytes \<Longrightarrow> length (written st p) = PageBytes"
  by (auto simp: written_def layout split: option.splits)

lemma Read_Inr:
  "Read st pid = Inr pg \<longleftrightarrow>
     pid < PageCount (meta st) \<and>
     (\<exists>data plain. fst (ReadAt PageBytes (int (pid * PageBytes)) (disk st)) = Inr data
        \<and> (case cipher st of None \<Rightarrow> Inr data | Some c \<Rightarrow> decrypt c data) = Inr plain
        \<and> verify plain pid = Inr () \<and> pg = \<lparr>PID = pid, Kind = plain ! offKind, Data = plain\<rparr>)"
  by (auto simp: Read_def split: sum.splits)

lemma Read_Write_same:
  assumes w: "Write p st = (Inr u, st')" and "cipher_ok st" "PID p < PageCount (meta st)" "PID p < 2 ^ 64"
  shows "Read st' (PID p) = Inr (p\<lparr>Data := seal (Data p) (PID p) (Kind p)\<rparr>)"
proof -
  note wr = Write_Inr [OF w]
  have len: "length (written st p) = 4096" "length (Data p) = 4096"
    using length_written [OF wr(2)] wr(2) by (simp_all add: layout)
  obtain n d where d: "WriteAt (written st p) (int (PID p * PageBytes)) (disk st) = (Inr n, d)" "disk st' = d"
    using wr(3) by blast
  note da = WriteAt_Inr [OF d(1)]
  have "seg (current d) (PID p * 4096) (PID p * 4096 + 4096) = written st p"
    using seg_overwrite_same [of "current (disk st)" "PID p * 4096" "written st p"] da(1) len
    by (simp add: layout)
  then have rd: "fst (ReadAt PageBytes (int (PID p * PageBytes)) (disk st')) = Inr (written st p)"
    using da d(2) len by (subst ReadAt_Inr) (auto simp: layout)
  have dec: "(case cipher st' of None \<Rightarrow> Inr (written st p) | Some c \<Rightarrow> decrypt c (written st p))
      = Inr (seal (Data p) (PID p) (Kind p))"
    using assms(2) wr(5) len decrypt_encrypt seal_nonce_zero [of "Data p"]
    by (auto simp: written_def cipher_ok_def layout split: option.splits)
  show ?thesis
    using rd dec assms(3,4) wr(4) len verify_seal [of "Data p" "PID p" "Kind p"] seal_kind [of "Data p"]
    by (simp add: Read_def layout)
qed

lemma Read_Write_other:
  assumes w: "Write p st = (Inr u, st')" and r: "Read st q = Inr pg" and "q \<noteq> PID p"
  shows "Read st' q = Inr pg"
proof -
  note wr = Write_Inr [OF w]
  have len: "length (written st p) = 4096" using length_written [OF wr(2)] by (simp add: layout)
  obtain n d where d: "WriteAt (written st p) (int (PID p * PageBytes)) (disk st) = (Inr n, d)" "disk st' = d"
    using wr(3) by blast
  note da = WriteAt_Inr [OF d(1)]
  have "q * 4096 + 4096 \<le> PID p * 4096 \<or> PID p * 4096 + 4096 \<le> q * 4096"
    using assms(3) by (cases "q < PID p") auto
  moreover from r obtain data where rd: "fst (ReadAt PageBytes (int (q * PageBytes)) (disk st)) = Inr data"
    by (auto simp: Read_Inr)
  moreover from rd have "q * 4096 + 4096 \<le> length (current (disk st))"
    "data = seg (current (disk st)) (q * 4096) (q * 4096 + 4096)"
    by (simp_all only: ReadAt_Inr layout zero_less_numeral)
  ultimately have "data = seg (current d) (q * 4096) (q * 4096 + 4096)" "q * 4096 + 4096 \<le> length (current d)"
    using da(1) len by (auto simp: layout seg_overwrite_disjoint)
  then have "fst (ReadAt PageBytes (int (q * PageBytes)) (disk st')) = Inr data"
    using da d(2) by (simp only: ReadAt_Inr layout zero_less_numeral) simp
  with rd r wr(4,5) show ?thesis
    by (auto simp: Read_Inr)
qed

section \<open>Meta pages\<close>

definition meta_ok :: "meta \<Rightarrow> bool" where
  "meta_ok m \<longleftrightarrow> TxID m < 2 ^ 64 \<and> Root m < 2 ^ 64 \<and> Freelist m < 2 ^ 64 \<and> PageCount m < 2 ^ 64
     \<and> length (Salt m) = SaltBytes \<and> length (Check m) = NonceBytes + TagBytes"

lemma seg_put_eq:
  "off + length src \<le> length dst \<Longrightarrow> i = off \<Longrightarrow> j = off + length src \<Longrightarrow> seg (put dst off src) i j = src"
  by (simp add: seg_put_same)

lemma meta_offsets:
  "offMagic = 48" "offFormat = 56" "offPageSize = 58" "offTxID = 64" "offRoot = 72" "offFreelist = 80"
  "offPageCount = 88" "offEncrypted = 96" "offClean = 97" "offSalt = 104" "offCheck = 120"
  "MetaBytes = 256" "Format = 1" "PageBytes = 4096"
  by (simp_all add: layout)

text \<open>A one-byte flag, set when it holds.\<close>

definition flag :: "bool \<Rightarrow> nat \<Rightarrow> bytes \<Rightarrow> bytes" where
  "flag b k data = (if b then put data k [1] else data)"

lemma length_flag [simp]: "k \<le> length data \<Longrightarrow> length (flag b k data) = length data"
  by (simp add: flag_def)

lemma seg_flag: "k < length data \<Longrightarrow> j \<le> k \<or> k < i \<Longrightarrow> seg (flag b k data) i j = seg data i j"
  using seg_put_disjoint [of k "[1]" data j i] by (auto simp: flag_def)

lemma nth_flag:
  "k < length data \<Longrightarrow> n < length data \<Longrightarrow> flag b k data ! n = (if b \<and> n = k then 1 else data ! n)"
  by (auto simp: flag_def nth_put)

lemma meta_image_segs:
  fixes pid :: nat
  assumes "meta_ok m"
  defines "d \<equiv> metaImage pid m"
  shows "length d = 256" "seg d 48 56 = Magic" "seg d 56 58 = be 2 1" "seg d 58 62 = be 4 4096"
    "seg d 64 72 = be 8 (TxID m)" "seg d 72 80 = be 8 (Root m)" "seg d 80 88 = be 8 (Freelist m)"
    "seg d 88 96 = be 8 (PageCount m)" "(d ! 96 = 1) = Encrypted m" "(d ! 97 = 1) = Clean m"
    "seg d 104 120 = Salt m" "seg d 120 148 = Check m" "d ! 4 = KindMeta"
    "pid < 2 ^ 64 \<Longrightarrow> verify d pid = Inr ()"
proof -
  have l: "length (Salt m) = 16" "length (Check m) = 28" "length Magic = 8"
    using assms by (simp_all add: meta_ok_def layout Magic_def)
  obtain z :: bytes where z: "length z = 256" "z ! 96 = 0" "z ! 97 = 0"
    and d: "d = seal (put (put
      (let data = put (put (put (put (put (put (put z 48 Magic) 56 (be 2 1)) 58 (be 4 4096))
         64 (be 8 (TxID m))) 72 (be 8 (Root m))) 80 (be 8 (Freelist m))) 88 (be 8 (PageCount m));
         data = (if Encrypted m then put data 96 [1] else data)
       in if Clean m then put data 97 [1] else data) 104 (Salt m)) 120 (Check m)) pid KindMeta"
  proof (rule that)
    show "length (replicate 256 (0::byte)) = 256" by (rule length_replicate)
    show "replicate 256 (0::byte) ! 96 = 0" "replicate 256 (0::byte) ! 97 = 0"
      by (rule nth_replicate; simp)+
  qed (simp only: d_def metaImage_def Let_def meta_offsets)
  define x where "x = put (put (put (put (put (put (put z 48 Magic) 56 (be 2 1)) 58 (be 4 4096))
     64 (be 8 (TxID m))) 72 (be 8 (Root m))) 80 (be 8 (Freelist m))) 88 (be 8 (PageCount m))"
  define y where "y = flag (Clean m) 97 (flag (Encrypted m) 96 x)"
  have lx: "length x = 256" by (simp add: x_def z l)
  have ly: "length y = 256" by (simp add: y_def lx)
  have dy: "d = seal (put (put y 104 (Salt m)) 120 (Check m)) pid KindMeta"
    by (simp only: d y_def x_def flag_def Let_def)
  have ld: "length (put (put y 104 (Salt m)) 120 (Check m)) = 256" by (simp add: ly l)
  show "length d = 256" by (simp add: dy ld layout)
  have low: "seg d i j = seg x i j" if "48 \<le> i" "j \<le> 96" for i j
    using that by (simp add: dy y_def seg_seal seg_put_disjoint ly lx l layout seg_flag)
  have x: "seg x 48 56 = Magic" "seg x 56 58 = be 2 1" "seg x 58 62 = be 4 4096"
    "seg x 64 72 = be 8 (TxID m)" "seg x 72 80 = be 8 (Root m)" "seg x 80 88 = be 8 (Freelist m)"
    "seg x 88 96 = be 8 (PageCount m)" "x ! 96 = 0" "x ! 97 = 0"
    by (simp_all add: x_def seg_put_eq seg_put_disjoint nth_put z l)
  then show "seg d 48 56 = Magic" "seg d 56 58 = be 2 1" "seg d 58 62 = be 4 4096"
    "seg d 64 72 = be 8 (TxID m)" "seg d 72 80 = be 8 (Root m)" "seg d 80 88 = be 8 (Freelist m)"
    "seg d 88 96 = be 8 (PageCount m)"
    by (simp_all add: low)
  show "(d ! 96 = 1) = Encrypted m" "(d ! 97 = 1) = Clean m"
    by (simp_all add: dy nth_seal nth_put ly lx l layout y_def nth_flag x)
  show "seg d 104 120 = Salt m" "seg d 120 148 = Check m"
    by (simp_all add: dy seg_seal seg_put_eq seg_put_disjoint ly l layout)
  show "d ! 4 = KindMeta"
    using seal_kind [of "put (put y 104 (Salt m)) 120 (Check m)" pid KindMeta] ld by (simp add: dy layout)
  show "pid < 2 ^ 64 \<Longrightarrow> verify d pid = Inr ()"
    using verify_seal [of "put (put y 104 (Salt m)) 120 (Check m)"] ld by (simp add: dy layout)
qed

lemma parse_metaImage:
  assumes "meta_ok m" "pid < 2 ^ 64"
  shows "parseMeta pid (metaImage pid m) = Inr m"
proof -
  note s = meta_image_segs [OF assms(1), of pid]
  have b: "TxID m < 256 ^ 8" "Root m < 256 ^ 8" "Freelist m < 256 ^ 8" "PageCount m < 256 ^ 8"
    using assms(1) by (simp_all add: meta_ok_def)
  have "unbe (be 2 1) = 1" "unbe (be 4 4096) = 4096" by simp_all
  with s b assms(2) show ?thesis
    by (simp add: parseMeta_def layout)
qed

text \<open>One codec for each slot a meta page can be in.\<close>

interpretation metac: codec "metaImage pid" "\<lambda>d. case parseMeta pid d of Inl _ \<Rightarrow> None | Inr m \<Rightarrow> Some m"
  "\<lambda>m. meta_ok m \<and> pid < 2 ^ 64" for pid
  by unfold_locales (simp add: parse_metaImage)

text \<open>A file image holds a meta in a slot when the 256 bytes there are its image.\<close>

definition metaAt :: "bytes \<Rightarrow> nat \<Rightarrow> meta \<Rightarrow> bool" where
  "metaAt img slot m \<longleftrightarrow>
     slot * PageBytes + MetaBytes \<le> length img
     \<and> seg img (slot * PageBytes) (slot * PageBytes + MetaBytes) = metaImage slot m"

lemma readMeta_metaAt:
  assumes "metaAt (current (disk st)) slot m" "meta_ok m" "slot < 2" "\<not> closed (disk st)" "\<not> cut (disk st)"
  shows "readMeta st slot = Inr m"
proof -
  have "fst (ReadAt MetaBytes (int (slot * PageBytes)) (disk st)) = Inr (metaImage slot m)"
    using assms by (subst ReadAt_Inr) (auto simp: metaAt_def layout)
  then show ?thesis
    using parse_metaImage [OF assms(2), of slot] assms(3) by (simp add: readMeta_def)
qed

lemma writeMeta_Inr:
  assumes "writeMeta slot m st = (Inr u, st')"
  shows "\<exists>n d. WriteAt (metaImage slot m) (int (slot * PageBytes)) (disk st) = (Inr n, d) \<and> st' = st\<lparr>disk := d\<rparr>"
  using assms
  by (auto simp: writeMeta_def onFile_def bnd_def Let_def split: sum.splits prod.splits)

section \<open>The interface: a store of pages\<close>

text \<open>
  What a client of the pager relies on: a page it may write (\<open>ok\<close>) is written without error and
  is then the page that is seen, every other page is seen as before, and nothing else changes
  (\<open>rest\<close>). Writing several distinct pages then leaves all of them to be seen.
\<close>

locale page_store =
  fixes view :: "'s \<Rightarrow> nat \<Rightarrow> 'p option"
    and write_page :: "nat \<Rightarrow> 'p \<Rightarrow> ('s, unit) op"
    and ok :: "'s \<Rightarrow> nat \<Rightarrow> 'p \<Rightarrow> bool"
    and rest :: "'s \<Rightarrow> 'r"
  assumes write_ok: "ok st pid p \<Longrightarrow> \<exists>st'. write_page pid p st = (Inr (), st')"
    and view_same: "ok st pid p \<Longrightarrow> write_page pid p st = (Inr (), st') \<Longrightarrow> view st' pid = Some p"
    and view_other: "write_page pid p st = (Inr (), st') \<Longrightarrow> q \<noteq> pid \<Longrightarrow> view st q = Some x \<Longrightarrow> view st' q = Some x"
    and write_rest: "write_page pid p st = (Inr (), st') \<Longrightarrow> rest st' = rest st"
    and write_keeps_ok: "write_page pid p st = (Inr (), st') \<Longrightarrow> ok st' q y = ok st q y"
begin

fun write_all :: "(nat \<times> 'p) list \<Rightarrow> ('s, unit) op" where
  "write_all [] = ret ()"
| "write_all ((pid, p) # ps) = bnd (write_page pid p) (\<lambda>_. write_all ps)"

lemma write_all_ok:
  assumes "\<And>pid p. (pid, p) \<in> set ps \<Longrightarrow> ok st pid p" "distinct (map fst ps)"
  shows "\<exists>st'. write_all ps st = (Inr (), st') \<and> (\<forall>(pid, p) \<in> set ps. view st' pid = Some p)
    \<and> (\<forall>q x. q \<notin> fst ` set ps \<longrightarrow> view st q = Some x \<longrightarrow> view st' q = Some x)
    \<and> rest st' = rest st \<and> (\<forall>q y. ok st' q y = ok st q y)"
  using assms
proof (induction ps arbitrary: st)
  case Nil
  then show ?case by simp
next
  case (Cons a ps)
  obtain pid p where a: "a = (pid, p)" by (cases a)
  from Cons.prems(1) a obtain s1 where s1: "write_page pid p st = (Inr (), s1)"
    using write_ok [of st pid p] by auto
  have v: "view s1 pid = Some p" using view_same [OF _ s1] Cons.prems(1) a by simp
  have k: "\<And>q y. ok s1 q y = ok st q y" by (rule write_keeps_ok [OF s1])
  have fresh: "pid \<notin> fst ` set ps" using Cons.prems(2) a by auto
  have "\<And>pid p. (pid, p) \<in> set ps \<Longrightarrow> ok s1 pid p" using Cons.prems(1) k by simp
  then obtain s2 where s2: "write_all ps s1 = (Inr (), s2)" "\<forall>(pid, p) \<in> set ps. view s2 pid = Some p"
    "\<forall>q x. q \<notin> fst ` set ps \<longrightarrow> view s1 q = Some x \<longrightarrow> view s2 q = Some x"
    "rest s2 = rest s1" "\<forall>q y. ok s2 q y = ok s1 q y"
    using Cons.IH [of s1] Cons.prems(2) by auto
  have "write_all (a # ps) st = (Inr (), s2)" using a s1 s2(1) by simp
  moreover have "view s2 pid = Some p" using s2(3) v fresh by simp
  moreover have "view s2 q = Some x" if "q \<notin> fst ` set (a # ps)" "view st q = Some x" for q x
    using s2(3) view_other [OF s1, of q x] that a by simp
  moreover have "rest s2 = rest st" using s2(4) write_rest [OF s1] by simp
  ultimately show ?case using s2(2,5) k a by auto
qed

end

text \<open>The pager's side of it: a page is seen as its kind and its payload.\<close>

type_synonym view_page = "byte \<times> bytes"

definition viewPage :: "pager \<Rightarrow> nat \<Rightarrow> view_page option" where
  "viewPage st pid = (case Read st pid of Inl _ \<Rightarrow> None | Inr p \<Rightarrow> Some (Kind p, Payload p))"

text \<open>A new page filled with a payload and written: the way every caller of \<^verbatim>\<open>Write\<close> does it.\<close>

definition fillPage :: "nat \<Rightarrow> byte \<Rightarrow> bytes \<Rightarrow> page" where
  "fillPage pid kind payload =
     (let p = NewPage pid kind in p\<lparr>Data := take HeaderBytes (Data p) @ payload\<rparr>)"

definition writePage :: "nat \<Rightarrow> view_page \<Rightarrow> (pager, unit) op" where
  "writePage pid p = Write (fillPage pid (fst p) (snd p))"

definition PayloadBytes :: nat where "PayloadBytes = PageBytes - HeaderBytes"

definition disk_ok :: "pager \<Rightarrow> bool" where
  "disk_ok st \<longleftrightarrow> \<not> closed (disk st) \<and> \<not> cut (disk st) \<and> PowerCutAfter (faults (disk st)) = 0"

definition page_ok :: "pager \<Rightarrow> nat \<Rightarrow> view_page \<Rightarrow> bool" where
  "page_ok st pid p \<longleftrightarrow>
     disk_ok st \<and> cipher_ok st \<and> reserved st \<le> pid \<and> pid < PageCount (meta st) \<and> pid < 2 ^ 64
     \<and> length (snd p) = PayloadBytes"

text \<open>Everything of the pager but its file and its randomness.\<close>

definition bookkeeping :: "pager \<Rightarrow> pager" where
  "bookkeeping st = st\<lparr>disk := (NewSim (\<lambda>_. 0) (faults (disk st)))\<lparr>closed := closed (disk st), cut := cut (disk st)\<rparr>,
                         entropy := (\<lambda>_. 0)\<rparr>"

lemma bookkeeping_eqD:
  assumes "bookkeeping st' = bookkeeping st"
  shows "meta st' = meta st" "free st' = free st" "taken st' = taken st" "committed st' = committed st"
    "reserved st' = reserved st" "readers st' = readers st" "cipher st' = cipher st"
    "maxPages st' = maxPages st" "nextMeta st' = nextMeta st" "led st' = led st"
    "faults (disk st') = faults (disk st)" "disk_ok st' = disk_ok st"
  using assms by (cases st; cases st'; simp add: bookkeeping_def NewSim_def disk_ok_def)+

lemma length_fillPage: "length payload = PayloadBytes \<Longrightarrow> length (Data (fillPage pid kind payload)) = PageBytes"
  by (simp add: fillPage_def NewPage_def PayloadBytes_def Let_def layout)

lemma fillPage_simps [simp]: "PID (fillPage pid kind payload) = pid" "Kind (fillPage pid kind payload) = kind"
  by (simp_all add: fillPage_def NewPage_def Let_def)

lemma Payload_fillPage: "Payload (fillPage pid kind payload) = payload"
  by (simp add: fillPage_def NewPage_def Payload_def Let_def layout)

lemma Write_disk_ok:
  assumes "Write p st = (Inr u, st')"
  shows "disk_ok st' = disk_ok st"
proof -
  obtain n d where d: "WriteAt (written st p) (int (PID p * PageBytes)) (disk st) = (Inr n, d)" "disk st' = d"
    using Write_Inr(3) [OF assms] by blast
  from WriteAt_Inr [OF d(1)] d(2) show ?thesis by (simp add: disk_ok_def)
qed

lemma Write_bookkeeping:
  assumes "Write p st = (Inr u, st')"
  shows "bookkeeping st' = bookkeeping st"
proof -
  note wr = Write_Inr [OF assms]
  obtain n d where d: "WriteAt (written st p) (int (PID p * PageBytes)) (disk st) = (Inr n, d)" "disk st' = d"
    using wr(3) by blast
  have "faults (disk st') = faults (disk st)" "closed (disk st') = closed (disk st)" "cut (disk st') = cut (disk st)"
    using WriteAt_Inr [OF d(1)] d(2) by simp_all
  with wr show ?thesis by (cases st; cases st') (simp add: bookkeeping_def)
qed

lemma WriteAt_succeeds:
  "\<not> closed d \<Longrightarrow> \<not> cut d \<Longrightarrow> PowerCutAfter (faults d) = 0 \<Longrightarrow> \<exists>n d'. WriteAt p (int off) d = (Inr n, d')"
  by (simp add: WriteAt_def bnd_def alive_def Let_def)

lemma Write_succeeds:
  assumes "disk_ok st" "reserved st \<le> PID p" "length (Data p) = PageBytes"
  shows "\<exists>st'. Write p st = (Inr (), st')"
proof -
  obtain n d where "WriteAt (written st p) (int (PID p * PageBytes)) (disk st) = (Inr n, d)"
    using WriteAt_succeeds [of "disk st" "written st p" "PID p * PageBytes"] assms(1) by (auto simp: disk_ok_def)
  then show ?thesis
    using assms(2,3)
    by (cases "cipher st") (auto simp: Write_def Let_def onFile_def bnd_def written_def randRead_def)
qed

interpretation pages: page_store viewPage writePage page_ok bookkeeping
proof
  fix st pid p
  assume "page_ok st pid p"
  then show "\<exists>st'. writePage pid p st = (Inr (), st')"
    by (auto simp: page_ok_def writePage_def intro!: Write_succeeds length_fillPage)
next
  fix st pid and p :: view_page and st'
  assume ok: "page_ok st pid p" and w: "writePage pid p st = (Inr (), st')"
  have "Read st' pid = Inr ((fillPage pid (fst p) (snd p))\<lparr>Data := seal (Data (fillPage pid (fst p) (snd p))) pid (fst p)\<rparr>)"
    using Read_Write_same [OF w [unfolded writePage_def]] ok by (simp add: page_ok_def)
  then show "viewPage st' pid = Some p"
    using ok drop_seal [of "Data (fillPage pid (fst p) (snd p))" pid "fst p"]
      Payload_fillPage [of pid "fst p" "snd p"] length_fillPage [of "snd p"]
    by (simp add: viewPage_def Payload_def page_ok_def layout)
next
  fix pid st st' q x and p :: view_page
  assume w: "writePage pid p st = (Inr (), st')" and "q \<noteq> pid" "viewPage st q = Some x"
  then show "viewPage st' q = Some x"
    using Read_Write_other [OF w [unfolded writePage_def]] by (auto simp: viewPage_def split: sum.splits)
next
  fix pid p st st'
  assume "writePage pid p st = (Inr (), st')"
  then show "bookkeeping st' = bookkeeping st"
    unfolding writePage_def by (rule Write_bookkeeping)
next
  fix pid p st st' q y
  assume w: "writePage pid p st = (Inr (), st')"
  then show "page_ok st' q y = page_ok st q y"
    using Write_disk_ok [OF w [unfolded writePage_def]] bookkeeping_eqD [OF Write_bookkeeping [OF w [unfolded writePage_def]]]
    by (simp add: page_ok_def cipher_ok_def)
qed

section \<open>Properties\<close>

text \<open>
  C32. A page that is written is the page that is read: on a working disk, with any cipher that
  opens what it sealed or with none, writing a page of the right size at a number in range
  succeeds, reading that number then returns its kind and payload, and every other readable
  page of the file reads exactly as before.
\<close>

theorem page_write_read:
  assumes "disk_ok st" "cipher_ok st" "reserved st \<le> pid" "pid < PageCount (meta st)" "pid < 2 ^ 64"
    and "length payload = PayloadBytes"
  shows "\<exists>st'. Write (fillPage pid kind payload) st = (Inr (), st')
    \<and> viewPage st' pid = Some (kind, payload)
    \<and> (\<forall>q x. q \<noteq> pid \<and> viewPage st q = Some x \<longrightarrow> viewPage st' q = Some x)"
proof -
  have ok: "page_ok st pid (kind, payload)" using assms by (simp add: page_ok_def)
  from pages.write_ok [OF this] obtain st' where w: "writePage pid (kind, payload) st = (Inr (), st')" by blast
  from w pages.view_same [OF ok w] pages.view_other [OF w] show ?thesis
    by (auto simp: writePage_def)
qed

theorem page_write_read_witness:
  "let c = \<lparr>aead_seal = (\<lambda>n p a. p @ replicate 16 0), aead_open = (\<lambda>n s a. Some (take (length s - 16) s))\<rparr>;
       d = NewSim (\<lambda>_. 0) \<lparr>TornWrite = 0, LyingSync = 0, ReorderWrites = False, PowerCutAfter = 0\<rparr>;
       st = (newPager d 0 (\<lambda>_. 3))\<lparr>meta := zeroMeta\<lparr>PageCount := 3\<rparr>, cipher := Some c\<rparr>
   in aead_ok c \<and> (\<exists>st'. Write (fillPage 2 KindLeaf (replicate PayloadBytes 7)) st = (Inr (), st')
        \<and> viewPage st' 2 = Some (KindLeaf, replicate PayloadBytes 7))"
proof -
  let ?c = "\<lparr>aead_seal = (\<lambda>n p a. p @ replicate 16 0), aead_open = (\<lambda>n s a. Some (take (length s - 16) s))\<rparr> :: aead"
  let ?d = "NewSim (\<lambda>_. 0) \<lparr>TornWrite = 0, LyingSync = 0, ReorderWrites = False, PowerCutAfter = 0\<rparr>"
  let ?st = "(newPager ?d 0 (\<lambda>_. 3))\<lparr>meta := zeroMeta\<lparr>PageCount := 3\<rparr>, cipher := Some ?c\<rparr>"
  have c: "aead_ok ?c" by (simp add: aead_ok_def layout)
  have "\<exists>st'. Write (fillPage 2 KindLeaf (replicate PayloadBytes 7)) ?st = (Inr (), st')
        \<and> viewPage st' 2 = Some (KindLeaf, replicate PayloadBytes 7)
        \<and> (\<forall>q x. q \<noteq> 2 \<and> viewPage ?st q = Some x \<longrightarrow> viewPage st' q = Some x)"
    by (rule page_write_read) (use c in \<open>simp_all add: disk_ok_def cipher_ok_def newPager_def NewSim_def zeroMeta_def\<close>)
  with c show ?thesis by (auto simp: Let_def)
qed

end
