(* ===== verification/Btree_Node.thy ===== *)
theory Btree_Node
  imports Pager_Pages
begin

text \<open>
  The nodes of the tree (\<^verbatim>\<open>internal/btree/node.go\<close>): leaves and branches as slotted pages, how keys are
  found in them, and where an overflowing node is cut. What is written is read back, entry by entry;
  both kinds of page share one argument, the interface \<open>slotted\<close>. A search is the position the order
  gives. A cut, when there is one, leaves two nodes that fit.
\<close>

section \<open>Sizes\<close>

definition capacityBytes :: nat where "capacityBytes = PageBytes - HeaderBytes"
definition leafHeader :: nat where [layout]: "leafHeader = 2"
definition branchHeader :: nat where [layout]: "branchHeader = 2 + 8"
definition slotBytes :: nat where [layout]: "slotBytes = 2"
definition leafEntry :: nat where [layout]: "leafEntry = 2 + 4"
definition branchEntry :: nat where [layout]: "branchEntry = 2 + 8"
definition MaxKey :: nat where [layout]: "MaxKey = 512"
definition MaxInline :: nat where "MaxInline = capacityBytes div 2 - leafEntry - slotBytes - MaxKey"
definition MaxValue :: nat where "MaxValue = 16 * 2 ^ 20"
definition overflowFlag :: "32 word" where "overflowFlag = push_bit 31 1"
definition overflowNext :: nat where [layout]: "overflowNext = 0"
definition overflowLength :: nat where [layout]: "overflowLength = 8"
definition overflowHeader :: nat where [layout]: "overflowHeader = 12"
definition overflowChunk :: nat where "overflowChunk = capacityBytes - overflowHeader"
definition referenceBytes :: nat where [layout]: "referenceBytes = 8"

lemma sizes: "capacityBytes = 4048" "MaxInline = 1504" "MaxValue = 16777216" "overflowChunk = 4036" "PayloadBytes = 4048"
  by (simp_all add: capacityBytes_def MaxInline_def MaxValue_def overflowChunk_def PayloadBytes_def layout)

section \<open>Nodes\<close>

record kv =
  kv_key :: bytes
  kv_value :: bytes
  kv_head :: nat
  kv_length :: "32 word"

definition overflows :: "kv \<Rightarrow> bool" where
  "overflows e \<longleftrightarrow> kv_head e \<noteq> 0"

definition inlineBytes :: "kv \<Rightarrow> nat" where
  "inlineBytes e = (if overflows e then referenceBytes else length (kv_value e))"

record branch =
  bkeys :: "bytes list"
  children :: "nat list"

definition checkKey :: "bytes \<Rightarrow> err + unit" where
  "checkKey key =
     (if key = [] then Inl ErrEmptyKey else if length key > MaxKey then Inl ErrKeyTooLarge else Inr ())"

definition leafBytes :: "kv list \<Rightarrow> nat" where
  "leafBytes entries =
     foldl (\<lambda>total e. total + (slotBytes + leafEntry + length (kv_key e) + inlineBytes e)) leafHeader entries"

definition branchBytes :: "branch \<Rightarrow> nat" where
  "branchBytes node = foldl (\<lambda>total key. total + (slotBytes + branchEntry + length key)) branchHeader (bkeys node)"

section \<open>Writing and reading them\<close>

text \<open>
  One turn of the loop of \<^verbatim>\<open>encodeLeaf\<close>, for the \<open>i\<close>-th entry with its block at \<open>heap\<close>: slots grow up from
  the front, entries down from the back.
\<close>

definition putLeaf :: "nat \<Rightarrow> nat \<Rightarrow> kv \<Rightarrow> bytes \<Rightarrow> bytes" where
  "putLeaf i heap e payload =
     (let payload = put payload (leafHeader + i * slotBytes) (be 2 heap);
          payload = put payload heap (be 2 (length (kv_key e)));
          payload = put payload (heap + leafEntry) (kv_key e);
          pos = heap + leafEntry + length (kv_key e)
      in if overflows e
         then put (put payload (heap + 2) (be 4 (unat (kv_length e OR overflowFlag)))) pos (be 8 (kv_head e))
         else put (put payload (heap + 2) (be 4 (length (kv_value e)))) pos (kv_value e))"

fun leafSlots :: "nat \<Rightarrow> nat \<Rightarrow> kv list \<Rightarrow> bytes \<Rightarrow> bytes" where
  "leafSlots i heap [] payload = payload"
| "leafSlots i heap (e # es) payload =
     (let heap = heap - (leafEntry + length (kv_key e) + inlineBytes e)
      in leafSlots (Suc i) heap es (putLeaf i heap e payload))"

definition setPayload :: "page \<Rightarrow> bytes \<Rightarrow> page" where
  "setPayload p payload = p\<lparr>Data := take HeaderBytes (Data p) @ payload\<rparr>"

definition encodeLeaf :: "page \<Rightarrow> kv list \<Rightarrow> err + page" where
  "encodeLeaf p entries =
     (if leafBytes entries > capacityBytes then Inl ErrCannotSplit
      else let payload = put (Payload p) 0 (be 2 (length entries)) in
        Inr (setPayload p (leafSlots 0 (length payload) entries payload)))"

text \<open>One turn of the loop of \<^verbatim>\<open>decodeLeaf\<close>, for the entry a slot points at.\<close>

definition leafAt :: "bytes \<Rightarrow> nat \<Rightarrow> nat \<Rightarrow> err + kv" where
  "leafAt payload slotsEnd pos =
     (if pos < slotsEnd \<or> pos + leafEntry > length payload then Inl ErrMalformed
      else let keyLen = unbe (seg payload pos (pos + 2));
               stored = word_of_nat (unbe (seg payload (pos + 2) (pos + 6))) :: 32 word;
               start = pos + leafEntry
           in if keyLen > MaxKey \<or> start + keyLen > length payload then Inl ErrMalformed
           else let key = seg payload start (start + keyLen) in
             if stored AND overflowFlag \<noteq> 0 then
               (let len = stored AND NOT overflowFlag in
                if unat len > MaxValue \<or> start + keyLen + referenceBytes > length payload then Inl ErrMalformed
                else let head = unbe (seg payload (start + keyLen) (start + keyLen + 8)) in
                  if head \<le> 1 then Inl ErrMalformed
                  else Inr \<lparr>kv_key = key, kv_value = [], kv_head = head, kv_length = len\<rparr>)
             else let valueLen = unat stored in
               if valueLen > capacityBytes \<or> start + keyLen + valueLen > length payload then Inl ErrMalformed
               else Inr \<lparr>kv_key = key, kv_value = seg payload (start + keyLen) (start + keyLen + valueLen),
                         kv_head = 0, kv_length = 0\<rparr>)"

fun leafEntries :: "bytes \<Rightarrow> nat \<Rightarrow> nat \<Rightarrow> nat \<Rightarrow> err + kv list" where
  "leafEntries payload slotsEnd i 0 = Inr []"
| "leafEntries payload slotsEnd i (Suc n) =
     (case leafAt payload slotsEnd (unbe (seg payload (leafHeader + i * slotBytes) (leafHeader + i * slotBytes + 2))) of
        Inl e \<Rightarrow> Inl e
      | Inr entry \<Rightarrow>
          (case leafEntries payload slotsEnd (Suc i) n of
             Inl e \<Rightarrow> Inl e
           | Inr entries \<Rightarrow> Inr (entry # entries)))"

definition decodeLeaf :: "page \<Rightarrow> err + kv list" where
  "decodeLeaf p =
     (let payload = Payload p in
      if length payload < leafHeader then Inl ErrMalformed
      else let count = unbe (seg payload 0 2); slotsEnd = leafHeader + count * slotBytes in
        if slotsEnd > length payload then Inl ErrMalformed
        else leafEntries payload slotsEnd 0 count)"

definition putBranch :: "nat \<Rightarrow> nat \<Rightarrow> bytes \<times> nat \<Rightarrow> bytes \<Rightarrow> bytes" where
  "putBranch i heap e payload =
     (let (key, child) = e;
          payload = put payload (branchHeader + i * slotBytes) (be 2 heap);
          payload = put payload heap (be 2 (length key));
          payload = put payload (heap + 2) (be 8 child)
      in put payload (heap + branchEntry) key)"

fun branchSlots :: "nat \<Rightarrow> nat \<Rightarrow> (bytes \<times> nat) list \<Rightarrow> bytes \<Rightarrow> bytes" where
  "branchSlots i heap [] payload = payload"
| "branchSlots i heap (e # es) payload =
     (let heap = heap - (branchEntry + length (fst e))
      in branchSlots (Suc i) heap es (putBranch i heap e payload))"

definition encodeBranch :: "page \<Rightarrow> branch \<Rightarrow> err + page" where
  "encodeBranch p node =
     (if length (children node) \<noteq> length (bkeys node) + 1 then Inl ErrKeysChildren
      else if branchBytes node > capacityBytes then Inl ErrCannotSplit
      else let payload = put (Payload p) 0 (be 2 (length (bkeys node)));
               payload = put payload 2 (be 8 (hd (children node)))
           in Inr (setPayload p (branchSlots 0 (length payload) (zip (bkeys node) (tl (children node))) payload)))"

definition branchAt :: "bytes \<Rightarrow> nat \<Rightarrow> nat \<Rightarrow> err + bytes \<times> nat" where
  "branchAt payload slotsEnd pos =
     (if pos < slotsEnd \<or> pos + branchEntry > length payload then Inl ErrMalformed
      else let keyLen = unbe (seg payload pos (pos + 2)); start = pos + branchEntry in
        if keyLen > MaxKey \<or> start + keyLen > length payload then Inl ErrMalformed
        else Inr (seg payload start (start + keyLen), unbe (seg payload (pos + 2) (pos + 10))))"

fun branchEntries :: "bytes \<Rightarrow> nat \<Rightarrow> nat \<Rightarrow> nat \<Rightarrow> err + (bytes \<times> nat) list" where
  "branchEntries payload slotsEnd i 0 = Inr []"
| "branchEntries payload slotsEnd i (Suc n) =
     (case branchAt payload slotsEnd (unbe (seg payload (branchHeader + i * slotBytes) (branchHeader + i * slotBytes + 2))) of
        Inl e \<Rightarrow> Inl e
      | Inr entry \<Rightarrow>
          (case branchEntries payload slotsEnd (Suc i) n of
             Inl e \<Rightarrow> Inl e
           | Inr entries \<Rightarrow> Inr (entry # entries)))"

definition decodeBranch :: "page \<Rightarrow> err + branch" where
  "decodeBranch p =
     (let payload = Payload p in
      if length payload < branchHeader then Inl ErrMalformed
      else let count = unbe (seg payload 0 2); slotsEnd = branchHeader + count * slotBytes in
        if slotsEnd > length payload then Inl ErrMalformed
        else case branchEntries payload slotsEnd 0 count of
               Inl e \<Rightarrow> Inl e
             | Inr entries \<Rightarrow> Inr \<lparr>bkeys = map fst entries, children = unbe (seg payload 2 10) # map snd entries\<rparr>)"

section \<open>Searching and cutting\<close>

definition childFor :: "bytes list \<Rightarrow> bytes \<Rightarrow> nat" where
  "childFor keys key = search (length keys) (\<lambda>i. key < keys ! i)"

definition findKey :: "kv list \<Rightarrow> bytes \<Rightarrow> nat \<times> bool" where
  "findKey entries key =
     (let pos = search (length entries) (\<lambda>i. kv_key (entries ! i) \<ge> key) in
      (pos, pos < length entries \<and> kv_key (entries ! pos) = key))"

definition entryBytes :: "kv \<Rightarrow> nat" where
  "entryBytes e = slotBytes + leafEntry + length (kv_key e) + inlineBytes e"

text \<open>
  The loop over the cuts: \<open>left\<close> and \<open>right\<close> are the sizes of the two halves at a cut, and the
  fittest cut so far is kept with its skew.
\<close>

fun bestCut :: "(nat \<Rightarrow> int) \<Rightarrow> (nat \<Rightarrow> int) \<Rightarrow> (nat \<times> int) option \<Rightarrow> nat list \<Rightarrow> nat option" where
  "bestCut left right best [] = map_option fst best"
| "bestCut left right best (c # cuts) =
     (if left c > int capacityBytes \<or> right c > int capacityBytes then bestCut left right best cuts
      else let skew = \<bar>left c - right c\<bar> in
        bestCut left right
          (case best of None \<Rightarrow> Some (c, skew)
           | Some (b, s) \<Rightarrow> if skew < s then Some (c, skew) else best) cuts)"

definition prefixSum :: "nat list \<Rightarrow> nat \<Rightarrow> int" where
  "prefixSum sizes k = int (sum_list (take k sizes))"

definition splitLeaf :: "kv list \<Rightarrow> nat option" where
  "splitLeaf entries =
     (let prefix = prefixSum (map entryBytes entries); n = length entries in
      bestCut (\<lambda>c. int leafHeader + prefix c) (\<lambda>c. int leafHeader + prefix n - prefix c) None [1..<n])"

definition splitBranch :: "branch \<Rightarrow> nat option" where
  "splitBranch node =
     (let prefix = prefixSum (map (\<lambda>key. slotBytes + branchEntry + length key) (bkeys node)); n = length (bkeys node) in
      bestCut (\<lambda>c. int branchHeader + prefix c) (\<lambda>c. int branchHeader + prefix n - prefix (Suc c)) None [0..<n])"


section \<open>The interface: slotted pages\<close>

text \<open>
  A page with a slot per entry, growing up from \<open>base\<close>, and a block per entry, growing down from the
  end. What a kind of page has to promise is that an entry's block, wherever it lies beyond the
  slots, reads back as the entry (\<open>read_block\<close>). Then laying out entries that fit and reading the
  slots in order gives the entries.
\<close>

locale slotted =
  fixes base :: nat
    and block :: "'e \<Rightarrow> bytes"
    and readBlock :: "bytes \<Rightarrow> nat \<Rightarrow> nat \<Rightarrow> err + 'e"
    and ok :: "'e \<Rightarrow> bool"
  assumes read_block:
    "ok e \<Longrightarrow> slotsEnd \<le> pos \<Longrightarrow> pos + length (block e) \<le> length payload \<Longrightarrow> length payload \<le> capacityBytes
      \<Longrightarrow> seg payload pos (pos + length (block e)) = block e \<Longrightarrow> readBlock payload slotsEnd pos = Inr e"
begin

fun lay :: "nat \<Rightarrow> nat \<Rightarrow> 'e list \<Rightarrow> bytes \<Rightarrow> bytes" where
  "lay i heap [] payload = payload"
| "lay i heap (e # es) payload =
     lay (Suc i) (heap - length (block e)) es
       (put (put payload (base + i * 2) (be 2 (heap - length (block e)))) (heap - length (block e)) (block e))"

fun readSlots :: "bytes \<Rightarrow> nat \<Rightarrow> nat \<Rightarrow> nat \<Rightarrow> err + 'e list" where
  "readSlots payload slotsEnd i 0 = Inr []"
| "readSlots payload slotsEnd i (Suc n) =
     (case readBlock payload slotsEnd (unbe (seg payload (base + i * 2) (base + i * 2 + 2))) of
        Inl e \<Rightarrow> Inl e
      | Inr entry \<Rightarrow>
          (case readSlots payload slotsEnd (Suc i) n of Inl e \<Rightarrow> Inl e | Inr entries \<Rightarrow> Inr (entry # entries)))"

definition room :: "'e list \<Rightarrow> nat" where
  "room es = sum_list (map (\<lambda>e. length (block e)) es)"

lemma lay_length:
  "base + (i + length es) * 2 + room es \<le> heap \<Longrightarrow> heap \<le> length payload \<Longrightarrow> length (lay i heap es payload) = length payload"
  by (induction i heap es payload rule: lay.induct) (auto simp: room_def)

lemma lay_other:
  assumes "base + (i + length es) * 2 + room es \<le> heap" "heap \<le> length payload"
    and "k \<le> base + i * 2 \<or> (heap \<le> j \<and> k \<le> length payload)"
  shows "seg (lay i heap es payload) j k = seg payload j k"
  using assms
proof (induction i heap es payload rule: lay.induct)
  case (1 i heap payload)
  then show ?case by simp
next
  case (2 i heap e es payload)
  let ?h = "heap - length (block e)"
  let ?p = "put (put payload (base + i * 2) (be 2 ?h)) ?h (block e)"
  have le: "length (block e) \<le> heap" "base + (Suc i + length es) * 2 + room es \<le> ?h"
    using 2(2) by (simp_all add: room_def)
  have "seg (lay i heap (e # es) payload) j k = seg ?p j k"
    unfolding lay.simps by (rule 2(1)) (use le 2(2-4) in auto)
  also have "\<dots> = seg payload j k"
    using le 2(2-4) by (subst seg_put_disjoint; (subst seg_put_disjoint)?) auto
  finally show ?case .
qed

lemma readSlots_lay:
  assumes "base + (i + length es) * 2 + room es \<le> heap" "heap \<le> length payload" "length payload \<le> capacityBytes"
    and "\<And>e. e \<in> set es \<Longrightarrow> ok e" "slotsEnd = base + (i + length es) * 2"
  shows "readSlots (lay i heap es payload) slotsEnd i (length es) = Inr es"
  using assms
proof (induction i heap es payload rule: lay.induct)
  case (1 i heap payload)
  then show ?case by simp
next
  case (2 i heap e es payload)
  let ?h = "heap - length (block e)"
  let ?q = "put payload (base + i * 2) (be 2 ?h)"
  let ?p = "put ?q ?h (block e)"
  let ?f = "lay (Suc i) ?h es ?p"
  have le: "length (block e) \<le> heap" "base + (Suc i + length es) * 2 + room es \<le> ?h"
    using 2(2) by (simp_all add: room_def)
  have lp: "length ?p = length payload" using le 2(3) by simp
  have lf: "length ?f = length payload" using lay_length [of "Suc i" es ?h ?p] le lp 2(3) by simp
  have "seg ?f (base + i * 2) (base + i * 2 + 2) = seg ?p (base + i * 2) (base + i * 2 + 2)"
    using le lp 2(3) by (intro lay_other) auto
  also have "\<dots> = seg ?q (base + i * 2) (base + i * 2 + 2)"
    using le 2(3) by (intro seg_put_disjoint) auto
  also have "\<dots> = be 2 ?h"
    using le 2(3) by (intro seg_put_eq) auto
  finally have slot: "unbe (seg ?f (base + i * 2) (base + i * 2 + 2)) = ?h"
    using 2(3,4) by (simp add: capacityBytes_def layout)
  have "seg ?f ?h (?h + length (block e)) = seg ?p ?h (?h + length (block e))"
    using le lp 2(3) by (intro lay_other) auto
  also have "\<dots> = block e" using le 2(3) by (intro seg_put_same) auto
  finally have "readBlock ?f slotsEnd ?h = Inr e"
    using le lf 2(3-6) by (intro read_block) auto
  moreover have "readSlots ?f slotsEnd (Suc i) (length es) = Inr es"
    using le lp 2(3-6) by (intro 2(1)) auto
  ultimately show ?case using slot by simp
qed

end


section \<open>Leaves and branches are slotted pages\<close>

lemma put_append:
  "off + length a + length b \<le> length p \<Longrightarrow> put p off (a @ b) = put (put p off a) (off + length a) b"
  by (rule nth_equalityI) (auto simp: nth_put nth_append)

lemma put_comm:
  "i + length a \<le> length p \<Longrightarrow> j + length b \<le> length p \<Longrightarrow> i + length a \<le> j \<or> j + length b \<le> i
     \<Longrightarrow> put (put p i a) j b = put (put p j b) i a"
  by (rule nth_equalityI) (auto simp: nth_put)

lemma seg_seg: "i + b \<le> j \<Longrightarrow> seg (seg xs i j) a b = seg xs (i + a) (i + b)"
  by (auto simp: seg_def min_def drop_take add.commute)

definition leafBlock :: "kv \<Rightarrow> bytes" where
  "leafBlock e =
     be 2 (length (kv_key e))
     @ be 4 (if overflows e then unat (kv_length e OR overflowFlag) else length (kv_value e))
     @ kv_key e @ (if overflows e then be 8 (kv_head e) else kv_value e)"

definition branchBlock :: "bytes \<times> nat \<Rightarrow> bytes" where
  "branchBlock e = be 2 (length (fst e)) @ be 8 (snd e) @ fst e"

lemma length_leafBlock: "length (leafBlock e) = leafEntry + length (kv_key e) + inlineBytes e"
  by (simp add: leafBlock_def inlineBytes_def layout)

lemma length_branchBlock: "length (branchBlock e) = branchEntry + length (fst e)"
  by (simp add: branchBlock_def layout)

definition kv_ok :: "kv \<Rightarrow> bool" where
  "kv_ok e \<longleftrightarrow> length (kv_key e) \<le> MaxKey \<and>
     (if overflows e then kv_value e = [] \<and> 2 \<le> kv_head e \<and> kv_head e < 2 ^ 64 \<and> unat (kv_length e) \<le> MaxValue
      else kv_length e = 0)"

definition child_ok :: "bytes \<times> nat \<Rightarrow> bool" where
  "child_ok e \<longleftrightarrow> length (fst e) \<le> MaxKey \<and> snd e < 2 ^ 64"

lemma small_no_flag: "n < 2 ^ 31 \<Longrightarrow> \<not> bit (word_of_nat n :: 32 word) 31"
proof -
  assume n: "n < 2 ^ 31"
  then have "unat (word_of_nat n :: 32 word) = n" by (simp add: unsigned_of_nat take_bit_nat_eq_self)
  moreover have "bit (word_of_nat n :: 32 word) 31 = bit (unat (word_of_nat n :: 32 word)) 31"
    by (simp add: bit_unsigned_iff)
  ultimately show ?thesis using n by (simp add: bit_iff_odd)
qed

lemma flag_bit: "bit overflowFlag n \<longleftrightarrow> n = 31"
  unfolding overflowFlag_def bit_push_bit_iff bit_1_iff by (auto simp: possible_bit_def)

lemma and_flag: "(x AND overflowFlag = 0) = (\<not> bit x 31)" for x :: "32 word"
  by (auto simp: bit_eq_iff [where 'a = "32 word"] bit_simps flag_bit dest: spec [of _ 31])

lemma flag_nonzero [simp]: "overflowFlag \<noteq> 0"
  using flag_bit [of 31] by auto

lemma clear_flag: "\<not> bit x 31 \<Longrightarrow> (x OR overflowFlag) AND NOT overflowFlag = x" for x :: "32 word"
  by (auto simp: bit_eq_iff [where 'a = "32 word"] bit_simps flag_bit)

lemma set_flag: "bit (x OR overflowFlag) 31" for x :: "32 word"
  by (simp add: bit_simps flag_bit)

lemma length_no_flag: "unat (x :: 32 word) \<le> MaxValue \<Longrightarrow> \<not> bit x 31"
  using small_no_flag [of "unat x"] by (simp add: sizes)

lemma leaf_read_block:
  assumes ok: "kv_ok e" and "slotsEnd \<le> pos" "pos + length (leafBlock e) \<le> length payload" "length payload \<le> capacityBytes"
    and b: "seg payload pos (pos + length (leafBlock e)) = leafBlock e"
  shows "leafAt payload slotsEnd pos = Inr e"
proof -
  let ?n = "length (kv_key e)"
  have len: "length (leafBlock e) = 6 + ?n + inlineBytes e" by (simp add: length_leafBlock layout)
  have key: "?n \<le> 512" using ok by (simp add: kv_ok_def layout)
  have sub: "seg payload (pos + i) (pos + j) = seg (leafBlock e) i j" if "j \<le> length (leafBlock e)" for i j
    using seg_seg [of pos j "pos + length (leafBlock e)" payload i] that b by simp
  have parts: "seg payload pos (pos + 2) = be 2 ?n"
    "seg payload (pos + 2) (pos + 6) = be 4 (if overflows e then unat (kv_length e OR overflowFlag) else length (kv_value e))"
    "seg payload (pos + 6) (pos + 6 + ?n) = kv_key e"
    "seg payload (pos + 6 + ?n) (pos + 6 + ?n + inlineBytes e) = (if overflows e then be 8 (kv_head e) else kv_value e)"
    using sub [of 2 0] sub [of 6 2] sub [of "6 + ?n" 6] sub [of "6 + ?n + inlineBytes e" "6 + ?n"] len
    by (simp_all add: leafBlock_def seg_def inlineBytes_def layout add.assoc)
  have k2: "unbe (be 2 ?n) = ?n" using key by simp
  show ?thesis
  proof (cases "overflows e")
    case True
    then have o: "kv_value e = []" "2 \<le> kv_head e" "kv_head e < 256 ^ 8" "unat (kv_length e) \<le> MaxValue"
      using ok by (simp_all add: kv_ok_def)
    have i8: "inlineBytes e = 8" using True by (simp add: inlineBytes_def layout)
    have "unat (kv_length e OR overflowFlag) < 256 ^ 4" using unsigned_less [of "kv_length e OR overflowFlag"] by simp
    with True o assms(2,3) len key k2 parts i8 clear_flag [OF length_no_flag [OF o(4)]] show ?thesis
      by (simp add: leafAt_def Let_def layout and_flag set_flag add.assoc)
  next
    case False
    then have o: "kv_head e = 0" "kv_length e = 0" using ok by (simp_all add: kv_ok_def overflows_def)
    have iv: "inlineBytes e = length (kv_value e)" using False by (simp add: inlineBytes_def)
    have vl: "length (kv_value e) \<le> 4048" using len iv assms(3,4) by (simp add: sizes)
    then have "unat (word_of_nat (length (kv_value e)) :: 32 word) = length (kv_value e)"
      by (simp add: unsigned_of_nat take_bit_nat_eq_self)
    with False o assms(2,3) len key k2 parts iv vl small_no_flag [of "length (kv_value e)"] show ?thesis
      by (simp add: leafAt_def Let_def layout and_flag add.assoc sizes)
  qed
qed

lemma branch_read_block:
  assumes ok: "child_ok e" and "slotsEnd \<le> pos" "pos + length (branchBlock e) \<le> length payload" "length payload \<le> capacityBytes"
    and b: "seg payload pos (pos + length (branchBlock e)) = branchBlock e"
  shows "branchAt payload slotsEnd pos = Inr e"
proof -
  let ?n = "length (fst e)"
  have len: "length (branchBlock e) = 10 + ?n" by (simp add: length_branchBlock layout)
  have sub: "seg payload (pos + i) (pos + j) = seg (branchBlock e) i j" if "j \<le> length (branchBlock e)" for i j
    using seg_seg [of pos j "pos + length (branchBlock e)" payload i] that b by simp
  have parts: "seg payload pos (pos + 2) = be 2 ?n" "seg payload (pos + 2) (pos + 10) = be 8 (snd e)"
    "seg payload (pos + 10) (pos + 10 + ?n) = fst e"
    using sub [of 2 0] sub [of 10 2] sub [of "10 + ?n" 10] len
    by (simp_all add: branchBlock_def seg_def layout add.assoc)
  have o: "?n \<le> 512" "snd e < 256 ^ 8" using ok by (simp_all add: child_ok_def layout)
  have "unbe (be 2 ?n) = ?n" using o by simp
  with parts o assms(2,3) len show ?thesis
    by (simp add: branchAt_def Let_def layout)
qed

interpretation leaf: slotted leafHeader leafBlock leafAt kv_ok
  by unfold_locales (rule leaf_read_block)

interpretation node: slotted branchHeader branchBlock branchAt child_ok
  by unfold_locales (rule branch_read_block)


lemma putLeaf_block:
  assumes "heap + length (leafBlock e) \<le> length payload" "leafHeader + i * slotBytes + 2 \<le> length payload"
  shows "putLeaf i heap e payload = put (put payload (leafHeader + i * 2) (be 2 heap)) heap (leafBlock e)"
proof -
  let ?q = "put payload (leafHeader + i * 2) (be 2 heap)"
  let ?x = "if overflows e then unat (kv_length e OR overflowFlag) else length (kv_value e)"
  let ?v = "if overflows e then be 8 (kv_head e) else kv_value e"
  have lq: "length ?q = length payload" using assms(2) by (simp add: layout)
  have fit: "heap + 6 + length (kv_key e) + length ?v \<le> length ?q"
    using assms(1) lq by (auto simp: leafBlock_def)
  have "putLeaf i heap e payload =
      put (put (put (put ?q heap (be 2 (length (kv_key e)))) (heap + 6) (kv_key e)) (heap + 2) (be 4 ?x)) (heap + 6 + length (kv_key e)) ?v"
    by (simp add: putLeaf_def Let_def layout)
  also have "put (put (put ?q heap (be 2 (length (kv_key e)))) (heap + 6) (kv_key e)) (heap + 2) (be 4 ?x)
      = put (put (put ?q heap (be 2 (length (kv_key e)))) (heap + 2) (be 4 ?x)) (heap + 6) (kv_key e)"
    using fit by (intro put_comm) auto
  also have "put (put (put (put ?q heap (be 2 (length (kv_key e)))) (heap + 2) (be 4 ?x)) (heap + 6) (kv_key e)) (heap + 6 + length (kv_key e)) ?v
      = put ?q heap (leafBlock e)"
    using fit by (simp add: leafBlock_def put_append ac_simps)
  finally show ?thesis .
qed

lemma putBranch_block:
  assumes "heap + length (branchBlock e) \<le> length payload" "branchHeader + i * slotBytes + 2 \<le> length payload"
  shows "putBranch i heap e payload = put (put payload (branchHeader + i * 2) (be 2 heap)) heap (branchBlock e)"
  using assms by (cases e) (simp add: putBranch_def branchBlock_def put_append Let_def layout ac_simps)

lemma leafSlots_lay:
  "leafHeader + (i + length es) * 2 + leaf.room es \<le> heap \<Longrightarrow> heap \<le> length payload \<Longrightarrow>
     leafSlots i heap es payload = leaf.lay i heap es payload"
proof (induction i heap es payload rule: leafSlots.induct)
  case (1 i heap payload)
  then show ?case by simp
next
  case (2 i heap e es payload)
  let ?h = "heap - (leafEntry + length (kv_key e) + inlineBytes e)"
  have h: "length (leafBlock e) = leafEntry + length (kv_key e) + inlineBytes e" by (rule length_leafBlock)
  have fit: "length (leafBlock e) \<le> heap" "leafHeader + (Suc i + length es) * 2 + leaf.room es \<le> ?h"
    using 2(2) h by (simp_all add: leaf.room_def)
  have p: "putLeaf i ?h e payload = put (put payload (leafHeader + i * 2) (be 2 ?h)) ?h (leafBlock e)"
    using fit 2(3) h by (intro putLeaf_block) (simp_all add: layout)
  have l: "length (putLeaf i ?h e payload) = length payload" unfolding p using fit 2(3) h by (simp add: layout)
  have "leafSlots (Suc i) ?h es (putLeaf i ?h e payload) = leaf.lay (Suc i) ?h es (putLeaf i ?h e payload)"
    using 2(1) [OF refl fit(2)] l 2(3) by simp
  then show ?case using p h by (simp add: Let_def)
qed

lemma branchSlots_lay:
  "branchHeader + (i + length es) * 2 + node.room es \<le> heap \<Longrightarrow> heap \<le> length payload \<Longrightarrow>
     branchSlots i heap es payload = node.lay i heap es payload"
proof (induction i heap es payload rule: branchSlots.induct)
  case (1 i heap payload)
  then show ?case by simp
next
  case (2 i heap e es payload)
  let ?h = "heap - (branchEntry + length (fst e))"
  have h: "length (branchBlock e) = branchEntry + length (fst e)" by (rule length_branchBlock)
  have fit: "length (branchBlock e) \<le> heap" "branchHeader + (Suc i + length es) * 2 + node.room es \<le> ?h"
    using 2(2) h by (simp_all add: node.room_def)
  have p: "putBranch i ?h e payload = put (put payload (branchHeader + i * 2) (be 2 ?h)) ?h (branchBlock e)"
    using fit 2(3) h by (intro putBranch_block) (simp_all add: layout)
  have l: "length (putBranch i ?h e payload) = length payload" unfolding p using fit 2(3) h by (simp add: layout)
  have "branchSlots (Suc i) ?h es (putBranch i ?h e payload) = node.lay (Suc i) ?h es (putBranch i ?h e payload)"
    using 2(1) [OF refl fit(2)] l 2(3) by simp
  then show ?case using p h by (simp add: Let_def)
qed

lemma leafEntries_slots: "leafEntries payload slotsEnd i n = leaf.readSlots payload slotsEnd i n"
  by (induction n arbitrary: i) (simp_all add: slotBytes_def cong: sum.case_cong)

lemma branchEntries_slots: "branchEntries payload slotsEnd i n = node.readSlots payload slotsEnd i n"
  by (induction n arbitrary: i) (simp_all add: slotBytes_def cong: sum.case_cong)


section \<open>Round trips\<close>

lemma foldl_sum: "foldl (\<lambda>total x. total + f x) n xs = n + sum_list (map f xs)" for n :: nat
  by (induction xs arbitrary: n) simp_all

lemma leafBytes_room: "leafBytes es = leafHeader + length es * 2 + leaf.room es"
  unfolding leafBytes_def foldl_sum leaf.room_def
  by (induction es) (simp_all add: length_leafBlock layout)

lemma branchBytes_room:
  "length (children n) = length (bkeys n) + 1 \<Longrightarrow>
     branchBytes n = branchHeader + length (bkeys n) * 2 + node.room (zip (bkeys n) (tl (children n)))"
proof -
  have "sum_list (map (\<lambda>key. slotBytes + branchEntry + length key) ks) = length ks * 2 + node.room (zip ks cs)"
    if "length ks = length cs" for ks cs
    using that by (induction ks cs rule: list_induct2) (simp_all add: node.room_def length_branchBlock layout)
  from this [of "bkeys n" "tl (children n)"] show "length (children n) = length (bkeys n) + 1 \<Longrightarrow> ?thesis"
    by (simp add: branchBytes_def foldl_sum)
qed

definition leaf_ok :: "kv list \<Rightarrow> bool" where
  "leaf_ok es \<longleftrightarrow> leafBytes es \<le> capacityBytes \<and> (\<forall>e \<in> set es. kv_ok e)"

definition branch_ok :: "branch \<Rightarrow> bool" where
  "branch_ok n \<longleftrightarrow> branchBytes n \<le> capacityBytes \<and> length (children n) = length (bkeys n) + 1
     \<and> (\<forall>k \<in> set (bkeys n). length k \<le> MaxKey) \<and> (\<forall>c \<in> set (children n). c < 2 ^ 64)"

lemma Payload_setPayload: "HeaderBytes \<le> length (Data p) \<Longrightarrow> Payload (setPayload p d) = d"
  by (simp add: Payload_def setPayload_def)

lemma leafBytes_count: "leafBytes es \<le> capacityBytes \<Longrightarrow> length es < 65536"
  by (simp add: leafBytes_room sizes)

lemma encodeLeaf_payload:
  assumes "leaf_ok es" "length (Data p) = PageBytes"
  obtains q where "encodeLeaf p es = Inr q" "length (Data q) = PageBytes" "PID q = PID p" "Kind q = Kind p"
    "Payload q = leaf.lay 0 capacityBytes es (put (Payload p) 0 (be 2 (length es)))"
proof -
  have l: "length (Payload p) = capacityBytes" using assms(2) by (simp add: Payload_def capacityBytes_def)
  let ?d = "put (Payload p) 0 (be 2 (length es))"
  have fit: "leafHeader + (0 + length es) * 2 + leaf.room es \<le> capacityBytes" "capacityBytes \<le> length ?d"
    using assms(1) l by (simp_all add: leaf_ok_def leafBytes_room sizes)
  note e = leafSlots_lay [OF fit] and n = leaf.lay_length [OF fit]
  have "encodeLeaf p es = Inr (setPayload p (leaf.lay 0 capacityBytes es ?d))"
    using assms(1) e l by (simp add: encodeLeaf_def leaf_ok_def)
  moreover have "length (Data (setPayload p (leaf.lay 0 capacityBytes es ?d))) = PageBytes"
    using n l assms(2) by (simp add: setPayload_def capacityBytes_def layout)
  ultimately show thesis
    using that Payload_setPayload [of p] assms(2) by (simp add: setPayload_def layout)
qed

lemma decodeLeaf_encodeLeaf:
  assumes ok: "leaf_ok es" and p: "length (Data p) = PageBytes"
  obtains q where "encodeLeaf p es = Inr q" "length (Data q) = PageBytes" "PID q = PID p" "Kind q = Kind p"
    "\<And>r. Payload r = Payload q \<Longrightarrow> decodeLeaf r = Inr es"
proof -
  obtain q where q: "encodeLeaf p es = Inr q" "length (Data q) = PageBytes" "PID q = PID p" "Kind q = Kind p"
    "Payload q = leaf.lay 0 capacityBytes es (put (Payload p) 0 (be 2 (length es)))"
    by (rule encodeLeaf_payload [OF ok p])
  let ?d = "put (Payload p) 0 (be 2 (length es))"
  have l: "length ?d = capacityBytes" using p by (simp add: Payload_def capacityBytes_def)
  have fit: "leafHeader + (0 + length es) * 2 + leaf.room es \<le> capacityBytes" "capacityBytes \<le> length ?d"
    using ok l by (simp_all add: leaf_ok_def leafBytes_room)
  have "decodeLeaf r = Inr es" if r: "Payload r = Payload q" for r
  proof -
    have "seg (Payload r) 0 2 = seg ?d 0 2"
      unfolding r q(5) by (rule leaf.lay_other [OF fit]) (simp add: layout)
    also have "\<dots> = be 2 (length es)" using l by (intro seg_put_eq) (simp_all add: sizes)
    finally have c: "unbe (seg (Payload r) 0 2) = length es"
      using leafBytes_count [of es] ok by (simp add: leaf_ok_def)
    have "leaf.readSlots (Payload r) (leafHeader + length es * 2) 0 (length es) = Inr es"
      unfolding r q(5) using fit l ok by (intro leaf.readSlots_lay) (auto simp: leaf_ok_def)
    moreover have "length (Payload r) = capacityBytes"
      unfolding r q(5) using leaf.lay_length [OF fit] l by simp
    ultimately show ?thesis
      using c fit(1) by (simp add: decodeLeaf_def Let_def leafEntries_slots slotBytes_def leafHeader_def sizes)
  qed
  with that q show thesis by blast
qed


lemma decodeBranch_encodeBranch:
  assumes ok: "branch_ok n" and p: "length (Data p) = PageBytes"
  obtains q where "encodeBranch p n = Inr q" "length (Data q) = PageBytes" "PID q = PID p" "Kind q = Kind p"
    "\<And>r. Payload r = Payload q \<Longrightarrow> decodeBranch r = Inr n"
proof -
  let ?es = "zip (bkeys n) (tl (children n))"
  let ?d = "put (put (Payload p) 0 (be 2 (length (bkeys n)))) 2 (be 8 (hd (children n)))"
  have c: "length (children n) = length (bkeys n) + 1" "branchBytes n \<le> capacityBytes" using ok by (simp_all add: branch_ok_def)
  then have le: "length ?es = length (bkeys n)" by simp
  have lp: "length (Payload p) = capacityBytes" using p by (simp add: Payload_def capacityBytes_def)
  have l: "length ?d = capacityBytes" using lp by (simp add: sizes)
  have fit: "branchHeader + (0 + length ?es) * 2 + node.room ?es \<le> capacityBytes" "capacityBytes \<le> length ?d"
    using branchBytes_room [OF c(1)] c l le by simp_all
  define q where "q = setPayload p (node.lay 0 capacityBytes ?es ?d)"
  have n: "length (node.lay 0 capacityBytes ?es ?d) = capacityBytes" using node.lay_length [OF fit] l by simp
  have q: "Payload q = node.lay 0 capacityBytes ?es ?d" "length (Data q) = PageBytes" "PID q = PID p" "Kind q = Kind p"
  proof -
    show "Payload q = node.lay 0 capacityBytes ?es ?d" using p by (simp add: q_def Payload_setPayload layout)
    show "length (Data q) = PageBytes" using n p by (simp add: q_def setPayload_def capacityBytes_def layout)
  qed (simp_all add: q_def setPayload_def)
  have e: "encodeBranch p n = Inr q"
    using c branchSlots_lay [OF fit] l by (simp add: encodeBranch_def q_def Let_def)
  have "decodeBranch r = Inr n" if r: "Payload r = Payload q" for r
  proof -
    have s: "seg (Payload r) i j = seg ?d i j" if "j \<le> 10" for i j
      unfolding r q(1) by (rule node.lay_other [OF fit]) (use that in \<open>simp add: layout\<close>)
    have "seg ?d 0 2 = be 2 (length (bkeys n))" "seg ?d 2 10 = be 8 (hd (children n))"
      using lp by (simp_all add: seg_put_eq seg_put_disjoint sizes)
    moreover have "length (bkeys n) < 65536" using fit(1) le by (simp add: sizes)
    moreover have "hd (children n) < 256 ^ 8" using ok c(1) by (cases "children n") (auto simp: branch_ok_def)
    ultimately have k: "unbe (seg (Payload r) 0 2) = length (bkeys n)" "unbe (seg (Payload r) 2 10) = hd (children n)"
      using s by simp_all
    have "\<And>x. x \<in> set ?es \<Longrightarrow> child_ok x"
      using ok by (cases "children n") (auto simp: branch_ok_def child_ok_def dest: set_zip_leftD set_zip_rightD)
    then have "node.readSlots (Payload r) (branchHeader + length (bkeys n) * 2) 0 (length (bkeys n)) = Inr ?es"
      unfolding r q(1) using node.readSlots_lay [OF fit, of "branchHeader + length (bkeys n) * 2"] l le by simp
    moreover have "length (Payload r) = capacityBytes" unfolding r q(1) by (rule n)
    moreover have "hd (children n) # tl (children n) = children n" using c(1) by (cases "children n") auto
    ultimately show ?thesis
      using k fit(1) le c(1) by (simp add: decodeBranch_def Let_def branchEntries_slots slotBytes_def branchHeader_def sizes)
  qed
  with that e q show thesis by blast
qed

section \<open>Positions\<close>

lemma search_upto:
  assumes "\<forall>i j. i \<le> j \<and> j < n \<and> f i \<longrightarrow> f j"
  shows "i < search n f \<Longrightarrow> \<not> f i" "search n f \<le> i \<Longrightarrow> i < n \<Longrightarrow> f i"
  using search_spec [of n f i] assms by blast+

definition keys_sorted :: "kv list \<Rightarrow> bool" where
  "keys_sorted es \<longleftrightarrow> sorted_wrt (<) (map kv_key es)"

lemma findKey_spec:
  assumes "keys_sorted es" "findKey es key = (pos, found)"
  shows "pos \<le> length es" "\<And>i. i < pos \<Longrightarrow> kv_key (es ! i) < key"
    "\<And>i. pos \<le> i \<Longrightarrow> i < length es \<Longrightarrow> key \<le> kv_key (es ! i)"
    "found \<longleftrightarrow> pos < length es \<and> kv_key (es ! pos) = key"
    "found \<longleftrightarrow> key \<in> kv_key ` set es"
proof -
  let ?f = "\<lambda>i. key \<le> kv_key (es ! i)"
  have p: "pos = search (length es) ?f" and f: "found \<longleftrightarrow> pos < length es \<and> kv_key (es ! pos) = key"
    using assms(2) by (auto simp: findKey_def Let_def)
  have mono: "kv_key (es ! i) \<le> kv_key (es ! j)" if "i \<le> j" "j < length es" for i j
    using assms(1) that by (cases "i = j") (auto simp: keys_sorted_def sorted_wrt_iff_nth_less less_imp_le)
  then have up: "\<forall>i j. i \<le> j \<and> j < length es \<and> ?f i \<longrightarrow> ?f j" by (meson order_trans)
  show le: "pos \<le> length es" unfolding p by (rule search_le)
  show lo: "kv_key (es ! i) < key" if "i < pos" for i
    using search_upto(1) [OF up, of i] that p by auto
  show hi: "key \<le> kv_key (es ! i)" if "pos \<le> i" "i < length es" for i
    using search_upto(2) [OF up, of i] that p by auto
  show "found \<longleftrightarrow> pos < length es \<and> kv_key (es ! pos) = key" by (rule f)
  show "found \<longleftrightarrow> key \<in> kv_key ` set es"
  proof
    assume "found"
    then show "key \<in> kv_key ` set es" using f by auto
  next
    assume "key \<in> kv_key ` set es"
    then obtain i where i: "i < length es" "kv_key (es ! i) = key" by (auto simp: in_set_conv_nth)
    then have "pos \<le> i" using lo [of i] by (cases "i < pos") auto
    then show found using f hi [of pos] mono [of pos i] i by (auto intro: antisym)
  qed
qed


lemma childFor_spec:
  assumes "sorted_wrt (<) keys"
  shows "childFor keys key \<le> length keys" "\<And>i. i < childFor keys key \<Longrightarrow> keys ! i \<le> key"
    "\<And>i. childFor keys key \<le> i \<Longrightarrow> i < length keys \<Longrightarrow> key < keys ! i"
proof -
  let ?f = "\<lambda>i. key < keys ! i"
  have "keys ! i \<le> keys ! j" if "i \<le> j" "j < length keys" for i j
    using assms that by (cases "i = j") (auto simp: sorted_wrt_iff_nth_less less_imp_le)
  then have up: "\<forall>i j. i \<le> j \<and> j < length keys \<and> ?f i \<longrightarrow> ?f j" by (meson less_le_trans)
  show "childFor keys key \<le> length keys" unfolding childFor_def by (rule search_le)
  show "keys ! i \<le> key" if "i < childFor keys key" for i
    using search_upto(1) [OF up, of i] that by (auto simp: childFor_def)
  show "key < keys ! i" if "childFor keys key \<le> i" "i < length keys" for i
    using search_upto(2) [OF up, of i] that by (auto simp: childFor_def)
qed

section \<open>Cuts\<close>

definition fits :: "(nat \<Rightarrow> int) \<Rightarrow> (nat \<Rightarrow> int) \<Rightarrow> nat \<Rightarrow> bool" where
  "fits left right c \<longleftrightarrow> left c \<le> int capacityBytes \<and> right c \<le> int capacityBytes"

definition skew :: "(nat \<Rightarrow> int) \<Rightarrow> (nat \<Rightarrow> int) \<Rightarrow> nat \<Rightarrow> int" where
  "skew left right c = \<bar>left c - right c\<bar>"

text \<open>The fittest cut so far, after one more.\<close>

definition better :: "(nat \<Rightarrow> int) \<Rightarrow> (nat \<Rightarrow> int) \<Rightarrow> (nat \<times> int) option \<Rightarrow> nat \<Rightarrow> (nat \<times> int) option" where
  "better left right best a =
     (case best of None \<Rightarrow> Some (a, skew left right a)
      | Some (b, s) \<Rightarrow> if skew left right a < s then Some (a, skew left right a) else best)"

lemma bestCut_Cons:
  "bestCut left right best (a # cuts) = bestCut left right (if fits left right a then better left right best a else best) cuts"
  by (cases best) (auto simp: fits_def better_def skew_def Let_def)

lemma bestCut_spec:
  assumes "bestCut left right best cuts = Some c" "\<And>b s. best = Some (b, s) \<Longrightarrow> s = skew left right b"
  shows "((\<exists>s. best = Some (c, s)) \<or> c \<in> set cuts \<and> fits left right c)
    \<and> (\<forall>b s. best = Some (b, s) \<longrightarrow> skew left right c \<le> s)
    \<and> (\<forall>c' \<in> set cuts. fits left right c' \<longrightarrow> skew left right c \<le> skew left right c')"
  using assms
proof (induction cuts arbitrary: best)
  case Nil
  then show ?case by auto
next
  case (Cons a cuts)
  let ?b = "if fits left right a then better left right best a else best"
  have "bestCut left right ?b cuts = Some c" using Cons.prems(1) by (simp only: bestCut_Cons)
  moreover have "s = skew left right b" if "?b = Some (b, s)" for b s
    using that Cons.prems(2) by (auto simp: better_def split: if_splits option.splits)
  ultimately have ih: "((\<exists>s. ?b = Some (c, s)) \<or> c \<in> set cuts \<and> fits left right c)
    \<and> (\<forall>b s. ?b = Some (b, s) \<longrightarrow> skew left right c \<le> s)
    \<and> (\<forall>c' \<in> set cuts. fits left right c' \<longrightarrow> skew left right c \<le> skew left right c')"
    by (rule Cons.IH)
  show ?case
  proof (cases "fits left right a")
    case False
    with ih show ?thesis by auto
  next
    case True
    with ih have b: "(\<exists>s. better left right best a = Some (c, s)) \<or> c \<in> set cuts \<and> fits left right c"
      "\<forall>b s. better left right best a = Some (b, s) \<longrightarrow> skew left right c \<le> s" by auto
    have "skew left right c \<le> skew left right a" "\<forall>b s. best = Some (b, s) \<longrightarrow> skew left right c \<le> s"
      using b(2) by (auto simp: better_def split: option.splits if_splits)
    moreover have "(\<exists>s. best = Some (c, s)) \<or> c \<in> set (a # cuts) \<and> fits left right c"
      using b(1) True by (auto simp: better_def split: option.splits if_splits)
    ultimately show ?thesis using ih by auto
  qed
qed

lemma bestCut_keeps: "best \<noteq> None \<Longrightarrow> bestCut left right best cuts \<noteq> None"
proof (induction cuts arbitrary: best)
  case Nil
  then show ?case by auto
next
  case (Cons a cuts)
  moreover have "better left right best a \<noteq> None" by (auto simp: better_def split: option.splits)
  ultimately show ?case by (simp only: bestCut_Cons) auto
qed

lemma bestCut_complete: "c \<in> set cuts \<Longrightarrow> fits left right c \<Longrightarrow> bestCut left right best cuts \<noteq> None"
proof (induction cuts arbitrary: best)
  case Nil
  then show ?case by simp
next
  case (Cons a cuts)
  have "better left right best a \<noteq> None" by (auto simp: better_def split: option.splits)
  with Cons show ?case
    using bestCut_keeps [of "better left right best a" left right cuts] by (simp only: bestCut_Cons) auto
qed

lemma leafBytes_sum: "leafBytes es = leafHeader + sum_list (map entryBytes es)"
  unfolding leafBytes_def foldl_sum entryBytes_def ..

lemma prefix_split: "c \<le> length xs \<Longrightarrow> prefixSum xs (length xs) - prefixSum xs c = int (sum_list (drop c xs))"
  using sum_list_append [of "take c xs" "drop c xs"] by (simp add: prefixSum_def)

lemma splitLeaf_fits:
  "c \<le> length es \<Longrightarrow> fits (\<lambda>c. int leafHeader + prefixSum (map entryBytes es) c)
       (\<lambda>c. int leafHeader + prefixSum (map entryBytes es) (length es) - prefixSum (map entryBytes es) c) c
     \<longleftrightarrow> leafBytes (take c es) \<le> capacityBytes \<and> leafBytes (drop c es) \<le> capacityBytes"
  using prefix_split [of c "map entryBytes es"]
  by (simp add: fits_def leafBytes_sum prefixSum_def take_map drop_map) linarith

lemma splitLeaf_Some:
  assumes "splitLeaf es = Some c"
  shows "0 < c" "c < length es" "leafBytes (take c es) \<le> capacityBytes" "leafBytes (drop c es) \<le> capacityBytes"
proof -
  let ?l = "\<lambda>c. int leafHeader + prefixSum (map entryBytes es) c"
  let ?r = "\<lambda>c. int leafHeader + prefixSum (map entryBytes es) (length es) - prefixSum (map entryBytes es) c"
  have "bestCut ?l ?r None [1..<length es] = Some c" using assms by (simp add: splitLeaf_def Let_def)
  from bestCut_spec [OF this] have "c \<in> set [1..<length es]" "fits ?l ?r c" by auto
  with splitLeaf_fits [of c es] show "0 < c" "c < length es" "leafBytes (take c es) \<le> capacityBytes"
    "leafBytes (drop c es) \<le> capacityBytes" by auto
qed

lemma splitLeaf_even:
  assumes "splitLeaf es = Some c" "0 < k" "k < length es" "leafBytes (take k es) \<le> capacityBytes" "leafBytes (drop k es) \<le> capacityBytes"
  shows "\<bar>int (leafBytes (take c es)) - int (leafBytes (drop c es))\<bar> \<le> \<bar>int (leafBytes (take k es)) - int (leafBytes (drop k es))\<bar>"
proof -
  let ?l = "\<lambda>c. int leafHeader + prefixSum (map entryBytes es) c"
  let ?r = "\<lambda>c. int leafHeader + prefixSum (map entryBytes es) (length es) - prefixSum (map entryBytes es) c"
  have sk: "skew ?l ?r i = \<bar>int (leafBytes (take i es)) - int (leafBytes (drop i es))\<bar>" if "i \<le> length es" for i
    using prefix_split [of i "map entryBytes es"] that
    by (simp add: skew_def leafBytes_sum prefixSum_def take_map drop_map)
  have "bestCut ?l ?r None [1..<length es] = Some c" using assms(1) by (simp add: splitLeaf_def Let_def)
  from bestCut_spec [OF this] have "\<forall>k \<in> set [1..<length es]. fits ?l ?r k \<longrightarrow> skew ?l ?r c \<le> skew ?l ?r k" by simp
  moreover have "fits ?l ?r k" using splitLeaf_fits [of k es] assms by simp
  ultimately have "skew ?l ?r c \<le> skew ?l ?r k" using assms by simp
  with sk [of c] sk [of k] splitLeaf_Some(2) [OF assms(1)] assms(3) show ?thesis by simp
qed

lemma splitLeaf_complete:
  assumes "0 < c" "c < length es" "leafBytes (take c es) \<le> capacityBytes" "leafBytes (drop c es) \<le> capacityBytes"
  shows "splitLeaf es \<noteq> None"
  unfolding splitLeaf_def Let_def
  by (rule bestCut_complete [of c]) (use assms splitLeaf_fits [of c es] in auto)

text \<open>The last position a budget reaches.\<close>

lemma last_prefix:
  assumes "sum_list xs > (b::nat)"
  obtains c where "c < length xs" "sum_list (take c xs) \<le> b" "b < sum_list (take (Suc c) xs)"
proof -
  have "\<exists>c < length xs. sum_list (take c xs) \<le> b \<and> b < sum_list (take (Suc c) xs)"
    using assms
  proof (induction xs arbitrary: b)
    case Nil
    then show ?case by simp
  next
    case (Cons x xs)
    show ?case
    proof (cases "x \<le> b")
      case True
      with Cons.prems have "b - x < sum_list xs" by simp
      then obtain c where "c < length xs" "sum_list (take c xs) \<le> b - x" "b - x < sum_list (take (Suc c) xs)"
        using Cons.IH by blast
      with True show ?thesis by (intro exI [of _ "Suc c"]) auto
    next
      case False
      then show ?thesis by (intro exI [of _ 0]) simp
    qed
  qed
  with that show thesis by blast
qed

lemma splitLeaf_succeeds:
  assumes "\<forall>e \<in> set es. entryBytes e \<le> 2024" "capacityBytes < leafBytes es" "leafBytes es \<le> capacityBytes + 2023"
  shows "splitLeaf es \<noteq> None"
proof -
  let ?xs = "map entryBytes es"
  have S: "4046 < sum_list ?xs" "sum_list ?xs \<le> 6069" using assms(2,3) by (simp_all add: leafBytes_sum sizes layout)
  obtain c where c: "c < length ?xs" "sum_list (take c ?xs) \<le> 4046" "4046 < sum_list (take (Suc c) ?xs)"
    by (rule last_prefix [OF S(1)])
  have "take (Suc c) ?xs = take c ?xs @ [?xs ! c]" using c(1) by (rule take_Suc_conv_app_nth)
  moreover have "?xs ! c \<le> 2024" using assms(1) c(1) by simp
  ultimately have lo: "2022 < sum_list (take c ?xs)" using c(3) by simp
  then have "0 < c" by (cases c) auto
  moreover have "sum_list (take c ?xs) + sum_list (drop c ?xs) = sum_list ?xs"
    using sum_list_append [of "take c ?xs" "drop c ?xs"] by simp
  ultimately show ?thesis
    using S(2) lo c by (intro splitLeaf_complete [of c]) (simp_all add: leafBytes_sum sizes layout take_map drop_map)
qed


definition keyBytes :: "bytes \<Rightarrow> nat" where
  "keyBytes k = slotBytes + branchEntry + length k"

lemma branchBytes_sum: "branchBytes n = branchHeader + sum_list (map keyBytes (bkeys n))"
  unfolding branchBytes_def foldl_sum keyBytes_def ..

lemma splitBranch_fits:
  assumes "c < length (bkeys n)"
  defines "xs \<equiv> map keyBytes (bkeys n)"
  shows "fits (\<lambda>c. int branchHeader + prefixSum xs c) (\<lambda>c. int branchHeader + prefixSum xs (length (bkeys n)) - prefixSum xs (Suc c)) c
     \<longleftrightarrow> branchHeader + sum_list (take c xs) \<le> capacityBytes \<and> branchHeader + sum_list (drop (Suc c) xs) \<le> capacityBytes"
  using prefix_split [of "Suc c" xs] assms by (simp add: fits_def prefixSum_def) linarith

lemma splitBranch_def': "splitBranch n = (let xs = map keyBytes (bkeys n) in
    bestCut (\<lambda>c. int branchHeader + prefixSum xs c) (\<lambda>c. int branchHeader + prefixSum xs (length (bkeys n)) - prefixSum xs (Suc c))
      None [0..<length (bkeys n)])"
  by (simp add: splitBranch_def Let_def keyBytes_def [abs_def])

lemma splitBranch_Some:
  assumes "splitBranch n = Some c"
  shows "c < length (bkeys n)"
    "branchBytes \<lparr>bkeys = take c (bkeys n), children = xs\<rparr> \<le> capacityBytes"
    "branchBytes \<lparr>bkeys = drop (Suc c) (bkeys n), children = ys\<rparr> \<le> capacityBytes"
proof -
  let ?xs = "map keyBytes (bkeys n)"
  let ?l = "\<lambda>c. int branchHeader + prefixSum ?xs c"
  let ?r = "\<lambda>c. int branchHeader + prefixSum ?xs (length (bkeys n)) - prefixSum ?xs (Suc c)"
  have "bestCut ?l ?r None [0..<length (bkeys n)] = Some c" using assms by (simp only: splitBranch_def' Let_def)
  from bestCut_spec [OF this] have "c \<in> set [0..<length (bkeys n)]" "fits ?l ?r c" by auto
  then show "c < length (bkeys n)" "branchBytes \<lparr>bkeys = take c (bkeys n), children = xs\<rparr> \<le> capacityBytes"
    "branchBytes \<lparr>bkeys = drop (Suc c) (bkeys n), children = ys\<rparr> \<le> capacityBytes"
    using splitBranch_fits [of c n] by (simp_all add: branchBytes_sum take_map drop_map)
qed

lemma splitBranch_succeeds:
  assumes "capacityBytes < branchBytes n" "branchBytes n \<le> 2 * capacityBytes - branchHeader"
  shows "splitBranch n \<noteq> None"
proof -
  let ?xs = "map keyBytes (bkeys n)"
  have S: "4038 < sum_list ?xs" "sum_list ?xs \<le> 8076" using assms by (simp_all add: branchBytes_sum sizes layout)
  obtain c where c: "c < length ?xs" "sum_list (take c ?xs) \<le> 4038" "4038 < sum_list (take (Suc c) ?xs)"
    by (rule last_prefix [OF S(1)])
  have "sum_list (take (Suc c) ?xs) + sum_list (drop (Suc c) ?xs) = sum_list ?xs"
    using sum_list_append [of "take (Suc c) ?xs" "drop (Suc c) ?xs"] by simp
  then have "branchHeader + sum_list (take c ?xs) \<le> capacityBytes" "branchHeader + sum_list (drop (Suc c) ?xs) \<le> capacityBytes"
    using S(2) c by (simp_all add: sizes layout)
  then show ?thesis
    unfolding splitBranch_def' Let_def
    by (intro bestCut_complete [of c]) (use c(1) splitBranch_fits [of c n] in auto)
qed

section \<open>Properties\<close>

text \<open>
  A leaf that fits its page is read back exactly as it was written: encoding it into any page
  succeeds, and decoding any page with that payload gives the same entries in the same order, keys,
  inline values and references to overflow chains alike.
\<close>

theorem leaf_round_trip:
  assumes "leafBytes es \<le> capacityBytes" "\<forall>e \<in> set es. kv_ok e" "length (Data p) = PageBytes"
  shows "\<exists>q. encodeLeaf p es = Inr q \<and> length (Data q) = PageBytes \<and> (\<forall>r. Payload r = Payload q \<longrightarrow> decodeLeaf r = Inr es)"
proof -
  have "leaf_ok es" using assms by (simp add: leaf_ok_def)
  then obtain q where "encodeLeaf p es = Inr q" "length (Data q) = PageBytes" "\<And>r. Payload r = Payload q \<Longrightarrow> decodeLeaf r = Inr es"
    by (rule decodeLeaf_encodeLeaf [OF _ assms(3)]) blast
  then show ?thesis by blast
qed

theorem leaf_round_trip_witness:
  "\<exists>q. encodeLeaf (NewPage 7 KindLeaf) [\<lparr>kv_key = [1], kv_value = [5, 6], kv_head = 0, kv_length = 0\<rparr>,
        \<lparr>kv_key = [2, 9], kv_value = [], kv_head = 40, kv_length = 9000\<rparr>] = Inr q
     \<and> decodeLeaf q = Inr [\<lparr>kv_key = [1], kv_value = [5, 6], kv_head = 0, kv_length = 0\<rparr>,
        \<lparr>kv_key = [2, 9], kv_value = [], kv_head = 40, kv_length = 9000\<rparr>]"
  using leaf_round_trip [of "[\<lparr>kv_key = [1], kv_value = [5, 6], kv_head = 0, kv_length = 0\<rparr>,
        \<lparr>kv_key = [2, 9], kv_value = [], kv_head = 40, kv_length = 9000\<rparr>]" "NewPage 7 KindLeaf"]
  by (auto simp: leafBytes_sum entryBytes_def inlineBytes_def overflows_def kv_ok_def sizes layout NewPage_def)

text \<open>
  The same of a branch: its separators and its children are read back as they were written.
\<close>

theorem branch_round_trip:
  assumes "branchBytes n \<le> capacityBytes" "length (children n) = length (bkeys n) + 1"
    and "\<forall>k \<in> set (bkeys n). length k \<le> MaxKey" "\<forall>c \<in> set (children n). c < 2 ^ 64" "length (Data p) = PageBytes"
  shows "\<exists>q. encodeBranch p n = Inr q \<and> length (Data q) = PageBytes \<and> (\<forall>r. Payload r = Payload q \<longrightarrow> decodeBranch r = Inr n)"
proof -
  have "branch_ok n" using assms by (simp add: branch_ok_def)
  then obtain q where "encodeBranch p n = Inr q" "length (Data q) = PageBytes" "\<And>r. Payload r = Payload q \<Longrightarrow> decodeBranch r = Inr n"
    by (rule decodeBranch_encodeBranch [OF _ assms(5)]) blast
  then show ?thesis by blast
qed

theorem branch_round_trip_witness:
  "\<exists>q. encodeBranch (NewPage 7 KindNode) \<lparr>bkeys = [[5], [6, 1]], children = [11, 12, 13]\<rparr> = Inr q
     \<and> decodeBranch q = Inr \<lparr>bkeys = [[5], [6, 1]], children = [11, 12, 13]\<rparr>"
  using branch_round_trip [of "\<lparr>bkeys = [[5], [6, 1]], children = [11, 12, 13]\<rparr>" "NewPage 7 KindNode"]
  by (auto simp: branchBytes_sum keyBytes_def sizes layout NewPage_def)


lemma upt_3: "[Suc 0..<3] = [1, 2]"
  by (simp add: upt_rec)


text \<open>
  An overflowing branch always has a cut: when the separators fit in two nodes, \<^verbatim>\<open>splitBranch\<close> finds a
  separator to hand to the parent such that what stands to its left and to its right fits.
\<close>

theorem branch_split_succeeds:
  assumes "capacityBytes < branchBytes n" "branchBytes n \<le> 2 * capacityBytes - branchHeader"
  shows "\<exists>c. splitBranch n = Some c \<and> c < length (bkeys n)
    \<and> branchBytes \<lparr>bkeys = take c (bkeys n), children = take (c + 1) (children n)\<rparr> \<le> capacityBytes
    \<and> branchBytes \<lparr>bkeys = drop (c + 1) (bkeys n), children = drop (c + 1) (children n)\<rparr> \<le> capacityBytes"
proof -
  obtain c where "splitBranch n = Some c" using splitBranch_succeeds [OF assms] by auto
  then show ?thesis using splitBranch_Some by auto
qed

theorem branch_split_succeeds_witness:
  "let n = \<lparr>bkeys = replicate 9 (replicate 500 0), children = [2..<12]\<rparr>
   in capacityBytes < branchBytes n \<and> (\<exists>c. splitBranch n = Some c \<and> c < 9)"
proof -
  let ?n = "\<lparr>bkeys = replicate 9 (replicate 500 0), children = [2..<12]\<rparr>"
  have b: "capacityBytes < branchBytes ?n" "branchBytes ?n \<le> 2 * capacityBytes - branchHeader"
    by (simp_all add: branchBytes_sum keyBytes_def sizes layout sum_list_replicate)
  from branch_split_succeeds [OF b] b(1) show ?thesis by (auto simp: Let_def)
qed

text \<open>
  But a leaf of legal entries can overflow with nowhere to cut it: the header of a leaf takes two
  bytes that \<^verbatim>\<open>MaxInline\<close> leaves out of account. A leaf of two entries of 2023 bytes each fills its page
  exactly; an entry of the largest size that belongs between them leaves three entries no two
  neighbours of which fit one page, and \<^verbatim>\<open>splitLeaf\<close> finds no cut.
\<close>

theorem leaf_without_a_cut:
  "let e = (\<lambda>k n. \<lparr>kv_key = replicate 511 0 @ [k], kv_value = replicate n 0, kv_head = 0, kv_length = 0\<rparr>);
       a = e 1 1503; b = e 2 1504; c = e 3 1503
   in length (kv_key b) = MaxKey \<and> length (kv_value b) = MaxInline \<and> kv_ok a \<and> kv_ok b \<and> kv_ok c
      \<and> keys_sorted [a, b, c] \<and> leafBytes [a, c] = capacityBytes \<and> findKey [a, c] (kv_key b) = (1, False)
      \<and> splitLeaf [a, b, c] = None"
proof -
  let ?e = "\<lambda>k n. \<lparr>kv_key = replicate 511 0 @ [k], kv_value = replicate n 0, kv_head = 0, kv_length = 0\<rparr>"
  let ?a = "?e 1 1503" and ?b = "?e 2 1504" and ?c = "?e 3 1503"
  have s: "entryBytes ?a = 2023" "entryBytes ?b = 2024" "entryBytes ?c = 2023"
    by (simp_all add: entryBytes_def inlineBytes_def overflows_def layout)
  have none: "splitLeaf [?a, ?b, ?c] = None"
    by (simp add: splitLeaf_def Let_def upt_3 prefixSum_def s sizes layout)
  have lt: "kv_key ?a < kv_key ?b" "kv_key ?b < kv_key ?c" "kv_key ?a < kv_key ?c"
    by (simp_all add: append_less_append)
  have sorted: "keys_sorted [?a, ?b, ?c]" "keys_sorted [?a, ?c]"
    using lt by (simp_all add: keys_sorted_def del: replicate.simps)
  have "findKey [?a, ?c] (kv_key ?b) = (1, False)"
  proof -
    have "search 2 (\<lambda>i. kv_key ?b \<le> kv_key ([?a, ?c] ! i)) = 1"
      using lt by (intro search_eqI) (auto simp: less_Suc_eq numeral_2_eq_2)
    with lt show ?thesis by (auto simp: findKey_def Let_def numeral_2_eq_2)
  qed
  moreover have "leafBytes [?a, ?c] = capacityBytes" by (simp add: leafBytes_sum s sizes layout)
  moreover have "kv_ok ?a" "kv_ok ?b" "kv_ok ?c" by (simp_all add: kv_ok_def overflows_def layout)
  ultimately show ?thesis using none sorted(1) by (simp add: Let_def sizes layout)
qed

end
