(* ===== verification/Pager_Free.thy ===== *)
theory Pager_Free
  imports Pager_Pages
begin

text \<open>
  When a page may be handed out again (\<^verbatim>\<open>freelist.go\<close>). \<open>vis t\<close> stands for the pages of the tree
  transaction \<open>t\<close> left behind; \<open>visible_safe\<close> says that no page of the last committed
  transaction or of a transaction a snapshot is held at can be handed out. Allocating, freeing,
  writing, taking and releasing snapshots, and committing all keep it; handing out a page therefore
  never takes one away from a reader or from the state a crash falls back to.
\<close>

section \<open>Association lists as Go maps\<close>

lemma keys_delete: "fst ` set (AList.delete k al) = fst ` set al - {k}"
  by (auto simp: AList.delete_eq)

lemma keys_update: "fst ` set (AList.update k v al) = insert k (fst ` set al)"
  by (induction al) auto

section \<open>Held snapshots\<close>

definition heldTx :: "pager \<Rightarrow> nat set" where
  "heldTx st = fst ` set (readers st)"

lemma oldest_fold:
  "(\<And>t. t \<in> set ts \<Longrightarrow> 0 < t) \<Longrightarrow>
     (let m = foldl (\<lambda>oldest t. if oldest = 0 \<or> t < oldest then t else oldest) (x::nat) ts in
       (m = 0 \<longleftrightarrow> x = 0 \<and> ts = []) \<and> (\<forall>t \<in> set ts. m \<le> t) \<and> (x \<noteq> 0 \<longrightarrow> m \<le> x))"
proof (induction ts arbitrary: x)
  case Nil
  then show ?case by simp
next
  case (Cons t ts)
  let ?y = "if x = 0 \<or> t < x then t else x"
  have "0 < t" using Cons.prems by simp
  then show ?case using Cons.IH [of ?y] Cons.prems by (auto simp: Let_def split: if_splits)
qed

lemma oldestHeld_le: "\<forall>t \<in> heldTx st. 0 < t \<Longrightarrow> t \<in> heldTx st \<Longrightarrow> oldestHeld st \<noteq> 0 \<and> oldestHeld st \<le> t"
proof -
  assume "\<forall>t \<in> heldTx st. 0 < t" and t: "t \<in> heldTx st"
  then have "0 < k" if "k \<in> set (map fst (readers st))" for k
    using that by (auto simp: heldTx_def)
  from oldest_fold [of "map fst (readers st)" 0, OF this] t show ?thesis
    by (auto simp: heldTx_def oldestHeld_def Let_def)
qed

section \<open>Safety\<close>

definition anchors :: "pager \<Rightarrow> nat set" where
  "anchors st = insert (TxID (meta st)) (heldTx st)"

definition out_of_reach :: "pager \<Rightarrow> nat \<Rightarrow> nat set \<Rightarrow> bool" where
  "out_of_reach st t V \<longleftrightarrow>
     V \<subseteq> {..<committed st} \<and> V \<inter> taken st = {} \<and> V \<inter> set (ready (free st)) = {}
     \<and> (\<forall>(n, ids) \<in> set (fpending (free st)). n \<le> t \<longrightarrow> V \<inter> set ids = {})"

definition visible_safe :: "(nat \<Rightarrow> nat set) \<Rightarrow> pager \<Rightarrow> bool" where
  "visible_safe vis st \<longleftrightarrow>
     committed st \<le> PageCount (meta st) \<and> distinct (map fst (fpending (free st)))
     \<and> (\<forall>t \<in> anchors st. 0 < t \<and> t \<le> TxID (meta st) \<and> out_of_reach st t (vis t))"

lemma promoteOne_reach:
  fixes n :: nat
  assumes "distinct (map fst (fpending f))" "V \<inter> set (ready f) = {}"
    "\<forall>(n, ids) \<in> set (fpending f). n \<le> t \<longrightarrow> V \<inter> set ids = {}" 
    and le: "\<And>k. k \<le> tx \<Longrightarrow> oldest = 0 \<or> k \<le> oldest \<Longrightarrow> k \<le> t"
  defines "f' \<equiv> promoteOne tx oldest f n"
  shows "V \<inter> set (ready f') = {}" "\<forall>(n, ids) \<in> set (fpending f'). n \<le> t \<longrightarrow> V \<inter> set ids = {}"
    "distinct (map fst (fpending f'))" "freeing f' = freeing f" "seen f' = seen f" "chain f' = chain f"
proof -
  have d: "distinct (map fst (AList.delete n (fpending f)))" "set (AList.delete n (fpending f)) \<subseteq> set (fpending f)"
    using assms(1) by (auto simp: AList.delete_eq distinct_map inj_on_def)
  have "V \<inter> set ids = {}" if "map_of (fpending f) n = Some ids" "n \<le> t" for ids
    using assms(3) that map_of_SomeD by fastforce
  then have m: "V \<inter> set (case map_of (fpending f) n of None \<Rightarrow> [] | Some ids \<Rightarrow> ids) = {}" if "n \<le> t"
    using that by (cases "map_of (fpending f) n") simp_all
  show "V \<inter> set (ready f') = {}"
  proof (cases "n \<le> tx \<and> (oldest = 0 \<or> n \<le> oldest)")
    case True
    then have "ready f' = ready f @ (case map_of (fpending f) n of None \<Rightarrow> [] | Some ids \<Rightarrow> ids)"
      by (auto simp: f'_def promoteOne_def)
    with m le [of n] True assms(2) show ?thesis by (simp only: set_append Int_Un_distrib) simp
  next
    case False
    then have "f' = f" by (auto simp: f'_def promoteOne_def)
    with assms(2) show ?thesis by simp
  qed
  show "\<forall>(n, ids) \<in> set (fpending f'). n \<le> t \<longrightarrow> V \<inter> set ids = {}"
    using assms(3) d(2) by (auto simp: f'_def promoteOne_def)
  show "distinct (map fst (fpending f'))" "freeing f' = freeing f" "seen f' = seen f" "chain f' = chain f"
    using d(1) assms(1) by (auto simp: f'_def promoteOne_def)
qed

lemma promotes_reach:
  fixes ts :: "nat list"
  assumes "distinct (map fst (fpending f))" "V \<inter> set (ready f) = {}"
    "\<forall>(n, ids) \<in> set (fpending f). n \<le> t \<longrightarrow> V \<inter> set ids = {}" 
    and le: "\<And>k. k \<le> tx \<Longrightarrow> oldest = 0 \<or> k \<le> oldest \<Longrightarrow> k \<le> t"
  defines "f' \<equiv> foldl (promoteOne tx oldest) f ts"
  shows "V \<inter> set (ready f') = {} \<and> (\<forall>(n, ids) \<in> set (fpending f'). n \<le> t \<longrightarrow> V \<inter> set ids = {})
    \<and> distinct (map fst (fpending f')) \<and> freeing f' = freeing f \<and> seen f' = seen f \<and> chain f' = chain f"
  using assms(1-3) unfolding f'_def
proof (induction ts arbitrary: f)
  case Nil
  then show ?case by simp
next
  case (Cons n ts)
  note p = promoteOne_reach [where tx = tx and oldest = oldest and n = n, OF Cons.prems le]
  have "foldl (promoteOne tx oldest) f (n # ts) = foldl (promoteOne tx oldest) (promoteOne tx oldest f n) ts"
    by simp
  with Cons.IH [OF p(3,1,2)] p(4-6) show ?case by simp
qed

lemma promote_frame [simp]:
  "meta (promote st) = meta st" "disk (promote st) = disk st" "taken (promote st) = taken st"
  "committed (promote st) = committed st" "readers (promote st) = readers st" "reserved (promote st) = reserved st"
  "cipher (promote st) = cipher st" "maxPages (promote st) = maxPages st" "nextMeta (promote st) = nextMeta st"
  "led (promote st) = led st" "entropy (promote st) = entropy st"
  by (simp_all add: promote_def)

lemma anchor_bound:
  assumes "visible_safe vis st" "t \<in> anchors st" "k \<le> TxID (meta st)" "oldestHeld st = 0 \<or> k \<le> oldestHeld st"
  shows "k \<le> t"
proof (cases "t = TxID (meta st)")
  case False
  then have "t \<in> heldTx st" "\<forall>t \<in> heldTx st. 0 < t" using assms(1,2) by (auto simp: visible_safe_def anchors_def)
  with oldestHeld_le [of st t] assms(4) show ?thesis by auto
qed (use assms(3) in simp)

lemma promote_safe: "visible_safe vis st \<Longrightarrow> visible_safe vis (promote st)"
proof -
  assume s: "visible_safe vis st"
  have a: "anchors (promote st) = anchors st" by (simp add: anchors_def heldTx_def)
  have "out_of_reach (promote st) t (vis t)" "distinct (map fst (fpending (free (promote st))))"
    if "t \<in> anchors st" for t
  proof -
    have o: "out_of_reach st t (vis t)" "distinct (map fst (fpending (free st)))"
      using s that by (simp_all add: visible_safe_def)
    then show "out_of_reach (promote st) t (vis t)" "distinct (map fst (fpending (free (promote st))))"
      using promotes_reach [of "free st" "vis t" t "TxID (meta st)" "oldestHeld st" "sort (map fst (fpending (free st)))"]
        anchor_bound [OF s that]
      by (auto simp: out_of_reach_def promote_def)
  qed
  then show ?thesis using s a by (auto simp: visible_safe_def anchors_def)
qed

lemma visible_safeD:
  assumes "visible_safe vis st" "t \<in> anchors st"
  shows "0 < t" "t \<le> TxID (meta st)" "out_of_reach st t (vis t)"
  using assms by (auto simp: visible_safe_def)

lemma visible_safe_step:
  assumes s: "visible_safe vis st"
    and "anchors st' \<subseteq> anchors st" "TxID (meta st') = TxID (meta st)" "committed st' = committed st"
    and "PageCount (meta st) \<le> PageCount (meta st')" "fpending (free st') = fpending (free st)"
    and "taken st' \<subseteq> taken st \<union> X" "set (ready (free st')) \<subseteq> set (ready (free st)) \<union> X"
    and "\<And>t. t \<in> anchors st \<Longrightarrow> vis t \<inter> X = {}"
  shows "visible_safe vis st'"
proof -
  have "0 < t \<and> t \<le> TxID (meta st') \<and> out_of_reach st' t (vis t)" if "t \<in> anchors st'" for t
  proof -
    have t: "t \<in> anchors st" using that assms(2) by blast
    note d = visible_safeD [OF s t]
    have "vis t \<inter> taken st' = {}" "vis t \<inter> set (ready (free st')) = {}"
      using d(3) assms(7,8) assms(9) [OF t] by (auto simp: out_of_reach_def)
    with d assms show ?thesis by (simp add: out_of_reach_def)
  qed
  with s assms show ?thesis by (simp add: visible_safe_def)
qed

lemma Allocate_Inr:
  assumes "Allocate st = (Inr pid, st')"
  obtains (reuse) "ready (free (promote st)) \<noteq> []" "pid = last (ready (free (promote st)))"
      "st' = (promote st)\<lparr>free := (free (promote st))\<lparr>ready := butlast (ready (free (promote st))), seen := seen (free (promote st)) - {pid}\<rparr>,
                     taken := insert pid (taken st)\<rparr>"
    | (fresh) "ready (free (promote st)) = []" "pid = PageCount (meta st)"
      "st' = (promote st)\<lparr>meta := (meta st)\<lparr>PageCount := pid + 1\<rparr>, taken := insert pid (taken st)\<rparr>"
  using assms by (auto simp: Allocate_def Let_def split: if_splits)

lemma Allocate_outside:
  assumes "visible_safe vis st" "Allocate st = (Inr pid, st')" "t \<in> anchors st"
  shows "pid \<notin> vis t"
proof -
  have "anchors (promote st) = anchors st" by (simp add: anchors_def heldTx_def)
  then have r: "out_of_reach (promote st) t (vis t)"
    using visible_safeD(3) [OF promote_safe [OF assms(1)], of t] assms(3) by simp
  from assms(2) show ?thesis
  proof (cases rule: Allocate_Inr)
    case reuse
    then have "pid \<in> set (ready (free (promote st)))" by simp
    with r show ?thesis by (auto simp: out_of_reach_def)
  next
    case fresh
    with r assms(1) show ?thesis by (auto simp: out_of_reach_def visible_safe_def)
  qed
qed

lemma Allocate_safe:
  assumes s: "visible_safe vis st" and a: "Allocate st = (Inr pid, st')"
  shows "visible_safe vis st'"
proof (rule visible_safe_step [OF promote_safe [OF s], where X = "{pid}"])
  have an: "anchors (promote st) = anchors st" by (simp add: anchors_def heldTx_def)
  show "vis t \<inter> {pid} = {}" if "t \<in> anchors (promote st)" for t
    using Allocate_outside [OF s a, of t] that an by simp
qed (use a in \<open>cases rule: Allocate_Inr; auto simp: anchors_def heldTx_def dest: in_set_butlastD\<close>)+

lemma Allocate_error_safe: "visible_safe vis st \<Longrightarrow> Allocate st = (Inl e, st') \<Longrightarrow> visible_safe vis st'"
  using promote_safe [of vis st] by (auto simp: Allocate_def Let_def split: if_splits)

lemma Dirty_outside: "visible_safe vis st \<Longrightarrow> Dirty st pid \<Longrightarrow> t \<in> anchors st \<Longrightarrow> pid \<notin> vis t"
  using visible_safeD(3) [of vis st t] by (auto simp: Dirty_def out_of_reach_def)

lemma Free_safe:
  assumes "visible_safe vis st"
  shows "visible_safe vis (Free pid st)"
proof (rule visible_safe_step [OF assms, where X = "{q. q = pid \<and> Dirty st pid}"])
  show "vis t \<inter> {q. q = pid \<and> Dirty st pid} = {}" if "t \<in> anchors st" for t
    using Dirty_outside [OF assms _ that] by auto
qed (auto simp: Free_def Let_def Dirty_def anchors_def heldTx_def)

lemma Frees_safe: "visible_safe vis st \<Longrightarrow> visible_safe vis (foldl (\<lambda>st pid. Free pid st) st pids)"
  by (induction pids arbitrary: st) (auto intro: Free_safe)

lemma Snapshot_safe: "visible_safe vis st \<Longrightarrow> visible_safe vis (snd (Snapshot st))"
  by (auto simp: Snapshot_def Let_def visible_safe_def anchors_def heldTx_def out_of_reach_def keys_update)

lemma heldAt_mem: "heldAt st t \<noteq> 0 \<Longrightarrow> t \<in> heldTx st"
  by (force simp: heldAt_def heldTx_def split: option.splits dest: map_of_SomeD)

lemma heldTx_Release: "heldTx (snd (Release s st)) \<subseteq> heldTx st"
  using heldAt_mem [of st "STxID s"] by (auto simp: Release_def heldTx_def keys_update keys_delete)

lemma Release_safe: "visible_safe vis st \<Longrightarrow> visible_safe vis (snd (Release s st))"
  using heldTx_Release [of s st]
  by (elim visible_safe_step [where X = "{}"]) (auto simp: Release_def anchors_def)

lemma bookkeeping_safe: "bookkeeping st' = bookkeeping st \<Longrightarrow> visible_safe vis st' = visible_safe vis st"
  using bookkeeping_eqD [of st' st] by (simp add: visible_safe_def anchors_def heldTx_def out_of_reach_def)

lemma Write_safe: "visible_safe vis st \<Longrightarrow> Write p st = (Inr u, st') \<Longrightarrow> visible_safe vis st'"
  using Write_bookkeeping [of p st u st'] bookkeeping_safe [of st' st vis] by simp

section \<open>Writing the list\<close>

lemma takeListPages_safe:
  "takeListPages ids st = (res, st') \<Longrightarrow> visible_safe vis st \<Longrightarrow> visible_safe vis st'"
proof (induction ids st rule: takeListPages.induct)
  case (1 ids st)
  show ?case
  proof (cases "listPagesNeeded st \<le> length ids")
    case True
    with 1 show ?thesis by (simp add: takeListPages.simps [of ids st])
  next
    case False
    obtain r s1 where a: "Allocate st = (r, s1)" by fastforce
    show ?thesis
    proof (cases r)
      case (Inl e)
      with 1 a False show ?thesis
        by (auto simp: takeListPages.simps [of ids st] dest: Allocate_error_safe)
    next
      case (Inr pid)
      with 1 a False show ?thesis
        using Allocate_safe [of vis st pid s1] by (simp add: takeListPages.simps [of ids st])
    qed
  qed
qed

text \<open>What a commit changes besides the page lists.\<close>

definition same_anchor :: "pager \<Rightarrow> pager \<Rightarrow> bool" where
  "same_anchor st st' \<longleftrightarrow> TxID (meta st') = TxID (meta st) \<and> Root (meta st') = Root (meta st) \<and> committed st' = committed st
     \<and> readers st' = readers st \<and> reserved st' = reserved st \<and> nextMeta st' = nextMeta st \<and> led st' = led st
     \<and> cipher st' = cipher st \<and> maxPages st' = maxPages st \<and> PageCount (meta st) \<le> PageCount (meta st')
     \<and> taken st \<subseteq> taken st'"

lemma same_anchor_refl [simp]: "same_anchor st st"
  by (simp add: same_anchor_def)

lemma same_anchor_trans: "same_anchor a b \<Longrightarrow> same_anchor b c \<Longrightarrow> same_anchor a c"
  by (auto simp: same_anchor_def)

lemma Allocate_anchor: "Allocate st = (res, st') \<Longrightarrow> same_anchor st st' \<and> disk st' = disk st"
  by (auto simp: Allocate_def Let_def same_anchor_def split: if_splits)

lemma Allocate_taken: "Allocate st = (Inr pid, st') \<Longrightarrow> pid \<in> taken st'"
  by (auto simp: Allocate_def Let_def split: if_splits)

lemma Free_anchor: "same_anchor st (Free pid st) \<and> disk (Free pid st) = disk st"
  by (auto simp: Free_def Let_def same_anchor_def)

lemma Frees_anchor:
  "same_anchor st (foldl (\<lambda>st pid. Free pid st) st pids) \<and> disk (foldl (\<lambda>st pid. Free pid st) st pids) = disk st"
proof (induction pids arbitrary: st)
  case Nil
  then show ?case by simp
next
  case (Cons p pids)
  then show ?case
    using Free_anchor [of st p] same_anchor_trans [of st "Free p st"] by simp
qed

lemma takeListPages_anchor:
  "takeListPages ids st = (res, st') \<Longrightarrow> set ids \<subseteq> taken st \<Longrightarrow>
     same_anchor st st' \<and> disk st' = disk st \<and> (\<forall>ids'. res = Inr ids' \<longrightarrow> set ids' \<subseteq> taken st')"
proof (induction ids st rule: takeListPages.induct)
  case (1 ids st)
  show ?case
  proof (cases "listPagesNeeded st \<le> length ids")
    case True
    with 1 show ?thesis by (auto simp: takeListPages.simps [of ids st])
  next
    case False
    obtain r s1 where a: "Allocate st = (r, s1)" by fastforce
    note an = Allocate_anchor [OF a]
    show ?thesis
    proof (cases r)
      case (Inl e)
      with 1 a an False show ?thesis by (auto simp: takeListPages.simps [of ids st])
    next
      case (Inr pid)
      have "set (ids @ [pid]) \<subseteq> taken s1"
        using an Allocate_taken [of st pid s1] a Inr "1.prems"(2) by (auto simp: same_anchor_def)
      with 1 a Inr False an show ?thesis
        by (auto simp: takeListPages.simps [of ids st] intro: same_anchor_trans)
    qed
  qed
qed

lemma rollGarbage_anchor: "same_anchor st (rollGarbage st) \<and> disk (rollGarbage st) = disk st"
  using Frees_anchor [of st "chain (free st)"] by (auto simp: rollGarbage_def Let_def same_anchor_def)

lemma same_anchor_anchors: "same_anchor st st' \<Longrightarrow> anchors st' = anchors st"
  by (simp add: same_anchor_def anchors_def heldTx_def)

lemma update_pairs:
  "distinct (map fst al) \<Longrightarrow> (n, v) \<in> set (AList.update k w al) \<Longrightarrow> n = k \<and> v = w \<or> n \<noteq> k \<and> (n, v) \<in> set al"
  by (induction al) (force split: if_splits)+

lemma rollGarbage_safe:
  assumes "visible_safe vis st"
  shows "visible_safe vis (rollGarbage st)"
proof -
  define s1 where "s1 = foldl (\<lambda>st pid. Free pid st) st (chain (free st))"
  have s: "visible_safe vis s1" unfolding s1_def using assms by (rule Frees_safe)
  show ?thesis
  proof (cases "freeing (free s1) = []")
    case True
    then have "rollGarbage st = s1" by (simp add: rollGarbage_def s1_def Let_def)
    with s show ?thesis by simp
  next
    case False
    define k where "k = TxID (meta s1) + 1"
    define w where "w = (case map_of (fpending (free s1)) k of None \<Rightarrow> [] | Some ids \<Rightarrow> ids) @ freeing (free s1)"
    have r: "rollGarbage st = s1\<lparr>free := (free s1)\<lparr>fpending := AList.update k w (fpending (free s1)), freeing := []\<rparr>\<rparr>"
      using False by (simp add: rollGarbage_def s1_def [symmetric] Let_def k_def w_def)
    have d: "distinct (map fst (fpending (free s1)))" using s by (simp add: visible_safe_def)
    have "out_of_reach (rollGarbage st) t (vis t)" if "t \<in> anchors s1" for t
      using visible_safeD [OF s that] update_pairs [OF d, of _ _ k w] by (force simp: r out_of_reach_def k_def)
    moreover have "anchors (rollGarbage st) = anchors s1" by (simp add: r anchors_def heldTx_def)
    moreover have "distinct (map fst (fpending (free (rollGarbage st))))" using d by (simp add: r distinct_update)
    ultimately show ?thesis using s by (simp add: visible_safe_def r)
  qed
qed


lemma Write_anchor: "Write p st = (res, st') \<Longrightarrow> same_anchor st st' \<and> free st' = free st \<and> taken st' = taken st \<and> meta st' = meta st"
  by (auto simp: Write_def Let_def onFile_def randRead_def bnd_def same_anchor_def
      split: if_splits option.splits prod.splits sum.splits)

lemma frame_safe:
  "visible_safe vis st \<Longrightarrow> same_anchor st st' \<Longrightarrow> free st' = free st \<Longrightarrow> taken st' = taken st \<Longrightarrow> visible_safe vis st'"
  by (elim visible_safe_step [where X = "{}"]) (auto simp: same_anchor_def anchors_def heldTx_def)

lemma writeListPages_anchor:
  "writeListPages ids es k next st = (res, st') \<Longrightarrow> same_anchor st st' \<and> free st' = free st \<and> taken st' = taken st \<and> meta st' = meta st"
proof (induction k arbitrary: "next" st)
  case 0
  then show ?case by simp
next
  case (Suc k)
  let ?p = "listPage (ids ! k) next (seg es (k * freePerPage) (min (k * freePerPage + freePerPage) (length es)))"
  obtain r s1 where w: "Write ?p st = (r, s1)" by fastforce
  note a = Write_anchor [OF w]
  show ?case
  proof (cases r)
    case (Inl e)
    with Suc.prems w a show ?thesis by auto
  next
    case (Inr u)
    with Suc.prems w have "writeListPages ids es k (ids ! k) s1 = (res, st')" by simp
    from Suc.IH [OF this] a show ?thesis by (auto intro: same_anchor_trans)
  qed
qed

lemma writeFreelist_Inr:
  assumes "writeFreelist st = (Inr (head, ids), st')"
  obtains s1 where "takeListPages [] st = (Inr ids, s1)" "same_anchor s1 st'" "free st' = free s1"
    "taken st' = taken s1" "meta st' = meta s1" "head = (if ids = [] then 0 else ids ! 0)"
proof -
  from assms obtain xs s1 where t: "takeListPages [] st = (Inr xs, s1)"
    unfolding writeFreelist_def by (rule bnd_InrE)
  show thesis
  proof (cases "xs = []")
    case True
    with assms t that show ?thesis by (auto simp: writeFreelist_def)
  next
    case False
    have "bnd (\<lambda>st. writeListPages xs (listEntries (free st)) (length xs) 0 st) (\<lambda>_. ret (xs ! 0, xs)) s1
        = (Inr (head, ids), st')"
      using assms False unfolding writeFreelist_def bnd_Inr [where m = "takeListPages []", OF t] by simp
    then have w: "writeListPages xs (listEntries (free s1)) (length xs) 0 s1 = (Inr (), st')"
      and "head = xs ! 0" "ids = xs"
      by (auto simp: bnd_def split: sum.splits prod.splits)
    with writeListPages_anchor [OF w] t False that show ?thesis by auto
  qed
qed

lemma onFile_same: "onFile m st = (res, st') \<Longrightarrow> \<exists>d. st' = st\<lparr>disk := d\<rparr>"
  by (auto simp: onFile_def Let_def split: prod.splits)

lemma writeMeta_same: "writeMeta slot m st = (res, st') \<Longrightarrow> \<exists>d. st' = st\<lparr>disk := d\<rparr>"
  by (auto simp: writeMeta_def onFile_def bnd_def Let_def split: prod.splits sum.splits)

lemma Commit_Inr:
  assumes "Commit rt st = (Inr u, st')"
  obtains head ids s1 where "\<not> led st" "writeFreelist (rollGarbage st) = (Inr (head, ids), s1)"
    "TxID (meta st') = TxID (meta st) + 1" "Root (meta st') = rt" "Freelist (meta st') = head"
    "PageCount (meta st') = PageCount (meta s1)" "committed st' = PageCount (meta s1)" "taken st' = {}"
    "free st' = (free s1)\<lparr>chain := ids, seen := {}\<rparr>" "readers st' = readers s1" "reserved st' = reserved s1" "led st' = led s1" "cipher st' = cipher s1"
proof -
  from assms have nl: "\<not> led st" by (auto simp: Commit_def split: if_splits)
  with assms obtain head ids s1 s2 s3 s4 where w: "writeFreelist (rollGarbage st) = (Inr (head, ids), s1)"
    and s2: "onFile Sync s1 = (Inr (), s2)"
    and s3: "writeMeta (nextMeta s2) ((meta st)\<lparr>TxID := TxID (meta st) + 1, Root := rt, Clean := False,
               Freelist := head, PageCount := PageCount (meta s1)\<rparr>) s2 = (Inr (), s3)"
    and s4: "onFile Sync s3 = (Inr (), s4)"
    and st': "st' = s4\<lparr>meta := (meta st)\<lparr>TxID := TxID (meta st) + 1, Root := rt, Clean := False,
               Freelist := head, PageCount := PageCount (meta s1)\<rparr>, nextMeta := 1 - nextMeta s4,
               committed := PageCount (meta s1), free := (free s4)\<lparr>chain := ids, seen := {}\<rparr>, taken := {}\<rparr>"
    by (fastforce simp: Commit_def Let_def elim!: bnd_InrE)
  from onFile_same [OF s2] writeMeta_same [OF s3] onFile_same [OF s4] w nl st' that show thesis by auto
qed

lemma Commit_safe:
  assumes s: "visible_safe vis st" and c: "Commit rt st = (Inr u, st')"
    and "vis (TxID (meta st')) \<subseteq> {..<PageCount (meta st')} - FreeSet st'"
  shows "visible_safe vis st'"
  using c
proof (cases rule: Commit_Inr)
  case (1 head ids s1)
  obtain s0 where s0: "takeListPages [] (rollGarbage st) = (Inr ids, s0)" "same_anchor s0 s1"
    "free s1 = free s0" "taken s1 = taken s0"
    by (rule writeFreelist_Inr [OF 1(2)])
  have v0: "visible_safe vis s0"
    using takeListPages_safe [OF s0(1)] rollGarbage_safe [OF s] by blast
  have v: "visible_safe vis s1" by (rule frame_safe [OF v0 s0(2-4)])
  have "same_anchor (rollGarbage st) s0" using takeListPages_anchor [OF s0(1)] by simp
  then have sa: "same_anchor st s1"
    using rollGarbage_anchor s0(2) by (blast intro: same_anchor_trans)
  have r: "readers st' = readers st" "TxID (meta s1) = TxID (meta st)" using 1 sa by (simp_all add: same_anchor_def)
  have "committed s1 \<le> PageCount (meta s1)" "distinct (map fst (fpending (free s1)))"
    using v by (simp_all add: visible_safe_def)
  moreover have "0 < t \<and> t \<le> TxID (meta st') \<and> out_of_reach st' t (vis t)" if "t \<in> anchors st'" for t
  proof (cases "t = TxID (meta st')")
    case True
    with assms(3) 1 show ?thesis by (fastforce simp: out_of_reach_def FreeSet_def)
  next
    case False
    with that r have "t \<in> anchors s1" using 1 by (auto simp: anchors_def heldTx_def)
    from visible_safeD [OF v this] 1 r \<open>committed s1 \<le> _\<close> show ?thesis
      by (fastforce simp: out_of_reach_def)
  qed
  ultimately show ?thesis using 1 by (simp add: visible_safe_def)
qed


section \<open>Transactions as steps\<close>

text \<open>
  What can happen to a pager between its creation and its end. The client's part of the bargain is
  in \<open>create\<close>, \<open>open\<close>, \<open>rollback\<close> and \<open>commit\<close>: the tree it commits, or finds, uses no page that is
  on the free list. Rolling back is a step only while no snapshot is held.
\<close>

definition usable :: "pager \<Rightarrow> nat set" where
  "usable st = {..<PageCount (meta st)} - FreeSet st"

inductive tx_reachable :: "(nat \<Rightarrow> nat set) \<Rightarrow> pager \<Rightarrow> bool" for vis where
  create: "CreateWith C f pages key rnd = (Inr (), st) \<Longrightarrow> vis (TxID (meta st)) = {} \<Longrightarrow> tx_reachable vis st"
| opened: "OpenWith C f pages key rnd = (Inr (), st) \<Longrightarrow> 0 < TxID (meta st) \<Longrightarrow> vis (TxID (meta st)) \<subseteq> usable st
     \<Longrightarrow> tx_reachable vis st"
| allocate: "tx_reachable vis st \<Longrightarrow> Allocate st = (res, st') \<Longrightarrow> tx_reachable vis st'"
| free: "tx_reachable vis st \<Longrightarrow> tx_reachable vis (Free pid st)"
| write_page: "tx_reachable vis st \<Longrightarrow> Write p st = (res, st') \<Longrightarrow> tx_reachable vis st'"
| snapshot: "tx_reachable vis st \<Longrightarrow> Snapshot st = (s, st') \<Longrightarrow> tx_reachable vis st'"
| release: "tx_reachable vis st \<Longrightarrow> Release s st = (s', st') \<Longrightarrow> tx_reachable vis st'"
| commit: "tx_reachable vis st \<Longrightarrow> Commit rt st = (Inr (), st') \<Longrightarrow> vis (TxID (meta st')) \<subseteq> usable st'
     \<Longrightarrow> tx_reachable vis st'"
| rollback: "tx_reachable vis st \<Longrightarrow> Rollback st = (Inr (), st') \<Longrightarrow> readers st = [] \<Longrightarrow> 0 < TxID (meta st')
     \<Longrightarrow> vis (TxID (meta st')) \<subseteq> usable st' \<Longrightarrow> tx_reachable vis st'"

lemma readEntries_fields:
  "readEntries payload j n st = (res, st') \<Longrightarrow> committed st' = committed st \<and> taken st' = taken st
     \<and> readers st' = readers st \<and> fpending (free st') = fpending (free st)"
proof (induction n arbitrary: j st)
  case 0
  then show ?case by simp
next
  case (Suc n)
  then show ?case by (auto simp: Let_def addFree_def split: if_splits)
qed

lemma readList_fields:
  "readList pid st = (res, st') \<Longrightarrow> meta st' = meta st \<and> committed st' = committed st \<and> taken st' = taken st
     \<and> readers st' = readers st \<and> fpending (free st') = fpending (free st)"
proof (induction pid st rule: readList.induct)
  case (1 pid st)
  show ?case
  proof (cases "\<exists>p. pid \<noteq> 0 \<and> \<not> (pid < reserved st \<or> pid \<ge> PageCount (meta st))
      \<and> \<not> length (chain (free st)) > PageCount (meta st) \<and> Read st pid = Inr p \<and> Kind p = KindFree
      \<and> \<not> unbe (seg (Payload p) freeCount (freeCount + 4)) > freePerPage")
    case False
    with 1(2) show ?thesis by (auto simp: readList.simps [of pid st] Let_def split: if_splits sum.splits)
  next
    case True
    then obtain p where p: "pid \<noteq> 0" "\<not> (pid < reserved st \<or> pid \<ge> PageCount (meta st))"
      "\<not> length (chain (free st)) > PageCount (meta st)" "Read st pid = Inr p" "Kind p = KindFree"
      "\<not> unbe (seg (Payload p) freeCount (freeCount + 4)) > freePerPage" by blast
    let ?s = "st\<lparr>free := (free st)\<lparr>chain := chain (free st) @ [pid]\<rparr>\<rparr>"
    obtain r s1 where e: "readEntries (Payload p) 0 (unbe (seg (Payload p) freeCount (freeCount + 4))) ?s = (r, s1)"
      by fastforce
    note f = readEntries_fields [OF e] readEntries_frame [OF e]
    show ?thesis
    proof (cases r)
      case (Inl x)
      with 1(2) p e f show ?thesis by (simp add: readList.simps [of pid st] Let_def)
    next
      case (Inr u)
      with 1(2) p e have "readList (unbe (seg (Payload p) freeNext (freeNext + 8))) s1 = (res, st')"
        by (simp add: readList.simps [of pid st] Let_def)
      with 1(1) [OF p(1,2,3,4) _ refl refl refl _ e [symmetric] Inr] p f show ?thesis by simp
    qed
  qed
qed

lemma opened_safe:
  assumes "readFreelist h st = (res, st')" "readers st = []" "taken st = {}" "committed st = PageCount (meta st)"
    and "0 < TxID (meta st')" "vis (TxID (meta st')) \<subseteq> usable st'"
  shows "visible_safe vis st'"
proof -
  have "meta st' = meta st" "committed st' = committed st" "taken st' = {}" "readers st' = []" "fpending (free st') = []"
    using readList_fields [OF assms(1) [unfolded readFreelist_def]] assms(2,3) by (simp_all add: newFreelist_def)
  with assms(4-6) show ?thesis
    by (auto simp: visible_safe_def anchors_def heldTx_def out_of_reach_def usable_def FreeSet_def)
qed

lemma CreateWith_safe:
  assumes "CreateWith C f pages key rnd = (Inr (), st)" "vis (TxID (meta st)) = {}"
  shows "visible_safe vis st"
proof -
  define s0 where "s0 = (let st = (newPager f pages rnd)\<lparr>meta := zeroMeta\<lparr>TxID := 1, PageCount := 2\<rparr>\<rparr> in
     if key = [] then st
     else let (salt, st) = randRead SaltBytes st; (nonce, st) = randRead NonceBytes st in
       st\<lparr>meta := (meta st)\<lparr>Salt := salt, Check := makeCheck C key salt nonce, Encrypted := True\<rparr>,
          cipher := Some (page_aead C key salt)\<rparr>)"
  have z: "TxID (meta s0) = 1" "PageCount (meta s0) = 2" "taken s0 = {}" "readers s0 = []" "free s0 = newFreelist"
    by (simp_all add: s0_def newPager_def Let_def randRead_def)
  have eq: "CreateWith C f pages key rnd =
      bnd (writeMeta 0 (meta s0)) (\<lambda>_. bnd (writeMeta 1 (meta s0)) (\<lambda>_. bnd (onFile Sync) (\<lambda>_.
           modify (\<lambda>st. st\<lparr>nextMeta := 0, committed := PageCount (meta st)\<rparr>)))) s0"
    unfolding CreateWith_def s0_def Let_def ..
  from assms(1) obtain s1 s2 s3 where "writeMeta 0 (meta s0) s0 = (Inr (), s1)" "writeMeta 1 (meta s0) s1 = (Inr (), s2)"
    "onFile Sync s2 = (Inr (), s3)" "st = s3\<lparr>nextMeta := 0, committed := PageCount (meta s3)\<rparr>"
    unfolding eq by (elim bnd_InrE) simp
  with writeMeta_same [of 0 "meta s0" s0 "Inr ()" s1] writeMeta_same [of 1 "meta s0" s1 "Inr ()" s2]
    onFile_same [of Sync s2 "Inr ()" s3] z assms(2) show ?thesis
    by (auto simp: visible_safe_def anchors_def heldTx_def out_of_reach_def newFreelist_def)
qed

lemma loadMeta_Inr:
  assumes "loadMeta st = (Inr u, st')"
  shows "\<exists>m n. chooseMeta (readMeta st 0) (readMeta st 1) = Inr (m, n) \<and> st' = st\<lparr>meta := m, nextMeta := n, committed := PageCount m\<rparr>"
  using assms by (auto simp: loadMeta_def split: sum.splits)

lemma tx_reachable_safe: "tx_reachable vis st \<Longrightarrow> visible_safe vis st"
proof (induction rule: tx_reachable.induct)
  case (create C f pages key rnd st)
  then show ?case by (rule CreateWith_safe)
next
  case (opened C f pages key rnd st)
  from opened(1) obtain s1 where l: "loadMeta (newPager f pages rnd) = (Inr (), s1)"
    and r: "(case unlock C key (meta s1) of Inl e \<Rightarrow> (Inl e, s1)
       | Inr c \<Rightarrow> readFreelist (Freelist (meta s1)) (s1\<lparr>cipher := c\<rparr>)) = (Inr (), st)"
    unfolding OpenWith_def by (elim bnd_InrE) simp
  from r obtain c where "readFreelist (Freelist (meta s1)) (s1\<lparr>cipher := c\<rparr>) = (Inr (), st)"
    by (auto split: sum.splits)
  with opened(2,3) loadMeta_Inr [OF l] show ?case
    by (elim opened_safe) (auto simp: newPager_def)
next
  case (allocate st res st')
  then show ?case by (cases res) (auto intro: Allocate_safe Allocate_error_safe)
next
  case (free st pid)
  then show ?case by (simp add: Free_safe)
next
  case (write_page st p res st')
  then show ?case using Write_anchor [of p st res st'] frame_safe [of vis st st'] by simp
next
  case (snapshot st s st')
  then show ?case using Snapshot_safe [of vis st] by simp
next
  case (release st s s' st')
  then show ?case using Release_safe [of vis st s] by simp
next
  case (commit st rt st')
  then show ?case by (auto simp: usable_def intro: Commit_safe)
next
  case (rollback st st')
  from rollback(2) obtain s1 where l: "loadMeta st = (Inr (), s1)"
    and r: "readFreelist (Freelist (meta s1)) (s1\<lparr>taken := {}\<rparr>) = (Inr (), st')"
    unfolding Rollback_def by (elim bnd_InrE) simp
  with rollback loadMeta_Inr [OF l] show ?case
    by (elim opened_safe) auto
qed

section \<open>Properties\<close>


lemma writeFreelist_empty: "fcount (free st) = 0 \<Longrightarrow> writeFreelist st = (Inr (0, []), st)"
proof -
  assume "fcount (free st) = 0"
  then have "takeListPages [] st = (Inr [], st)"
    by (simp add: takeListPages.simps [of "[]" st] listPagesNeeded_def freePerPage_def layout)
  then show ?thesis by (simp add: writeFreelist_def)
qed

lemma fresh_commit_steps:
  fixes d :: simdisk
  assumes "\<not> closed d" "\<not> cut d" "faults d = \<lparr>TornWrite = 0, LyingSync = 0, ReorderWrites = False, PowerCutAfter = 0\<rparr>"
  obtains s0 s1 s2 where "CreateWith C d 0 [] rnd = (Inr (), s0)" "Allocate s0 = (Inr 2, s1)"
    "Commit 2 s1 = (Inr (), s2)" "TxID (meta s0) = 1" "TxID (meta s2) = 2" "usable s2 = {..<3}" "readers s2 = []"
    "PageCount (meta s2) = 3" "free s2 = newFreelist" "maxPages s2 = 0" "disk_ok s1" "cipher s1 = None" "committed s1 = 2"
    "TxID (meta s1) = 1" "\<not> Encrypted (meta s1)"
proof -
  let ?z = "zeroMeta\<lparr>TxID := 1, PageCount := 2\<rparr>"
  let ?n = "?z\<lparr>TxID := 2, Root := 2, Clean := False, Freelist := 0, PageCount := 3\<rparr>"
  have wa: "WriteAt p (int off) d' = (Inr (length p), d'\<lparr>writes := Suc (writes d'), pending := pending d' @ [(off, p)],
       current := overwrite (current d') off p\<rparr>)"
    if "\<not> closed d'" "\<not> cut d'" "faults d' = faults d" for p off d'
    using that assms(3) by (simp add: WriteAt_def bnd_def alive_def Let_def)
  have sy: "Sync d' = (Inr (), d'\<lparr>durable := current d', pending := []\<rparr>)"
    if "\<not> closed d'" "\<not> cut d'" "faults d' = faults d" for d'
    using that assms(3) by (simp add: Sync_def bnd_def alive_def syncLies_def Let_def)
  obtain d1 where d1: "WriteAt (metaImage 0 ?z) (int (0 * PageBytes)) d = (Inr (length (metaImage 0 ?z)), d1)"
    "\<not> closed d1" "\<not> cut d1" "faults d1 = faults d" using wa [of d "metaImage 0 ?z" "0 * PageBytes"] assms by simp
  obtain d2 where d2: "WriteAt (metaImage 1 ?z) (int (1 * PageBytes)) d1 = (Inr (length (metaImage 1 ?z)), d2)"
    "\<not> closed d2" "\<not> cut d2" "faults d2 = faults d" using wa [of d1 "metaImage 1 ?z" "1 * PageBytes"] d1 by simp
  obtain d3 where d3: "Sync d2 = (Inr (), d3)" "\<not> closed d3" "\<not> cut d3" "faults d3 = faults d"
    using sy [of d2] d2 by simp
  obtain d4 where d4: "Sync d3 = (Inr (), d4)" "\<not> closed d4" "\<not> cut d4" "faults d4 = faults d"
    using sy [of d3] d3 by simp
  obtain d5 where d5: "WriteAt (metaImage 0 ?n) (int (0 * PageBytes)) d4 = (Inr (length (metaImage 0 ?n)), d5)"
    "\<not> closed d5" "\<not> cut d5" "faults d5 = faults d" using wa [of d4 "metaImage 0 ?n" "0 * PageBytes"] d4 by simp
  obtain d6 where d6: "Sync d5 = (Inr (), d6)" using sy [of d5] d5 by simp
  let ?s0 = "(newPager d3 0 rnd)\<lparr>meta := ?z, committed := 2\<rparr>"
  let ?s1 = "?s0\<lparr>meta := ?z\<lparr>PageCount := 3\<rparr>, taken := {2}\<rparr>"
  let ?s2 = "?s1\<lparr>disk := d6, meta := ?n, nextMeta := 1, committed := 3, taken := {}\<rparr>"
  have c: "CreateWith C d 0 [] rnd = (Inr (), ?s0)"
    using d1 d2 d3 by (simp add: CreateWith_def writeMeta_def bnd_def onFile_def newPager_def)
  have a: "Allocate ?s0 = (Inr 2, ?s1)"
    by (simp add: Allocate_def promote_def newPager_def newFreelist_def Let_def)
  have rg: "rollGarbage ?s1 = ?s1" by (simp add: rollGarbage_def newPager_def newFreelist_def)
  have wf: "writeFreelist ?s1 = (Inr (0, []), ?s1)"
    by (rule writeFreelist_empty) (simp add: fcount_def newPager_def newFreelist_def)
  have k: "Commit 2 ?s1 = (Inr (), ?s2)"
    using rg wf d4 d5 d6
    by (simp add: Commit_def bnd_def onFile_def writeMeta_def newPager_def newFreelist_def zeroMeta_def numeral_2_eq_2)
  show thesis
    by (rule that [OF c a k])
      (use d3 assms(3) in \<open>simp_all add: usable_def FreeSet_def newPager_def newFreelist_def zeroMeta_def disk_ok_def\<close>)
qed



end
