(* ===== verification/Pager_List.thy ===== *)
theory Pager_List
  imports Pager_Free
begin

text \<open>
  The free list as it stands in the file: no page is on it twice, every page on it is a page of the
  file, and the list a commit writes is the list the next opening reads, on pages of its own that
  are not on it.
\<close>

section \<open>No page twice\<close>

definition listed :: "freelist \<Rightarrow> nat list" where
  "listed f = ready f @ concat (map snd (fpending f)) @ freeing f"

lemma set_listed: "set (listed (free st)) = FreeSet st"
  by (force simp: listed_def FreeSet_def)

definition list_ok :: "pager \<Rightarrow> bool" where
  "list_ok st \<longleftrightarrow>
     distinct (map fst (fpending (free st))) \<and> distinct (listed (free st)) \<and> distinct (chain (free st))
     \<and> FreeSet st \<union> set (chain (free st)) \<union> taken st \<subseteq> {reserved st..<PageCount (meta st)}
     \<and> set (chain (free st)) \<subseteq> {..<committed st}
     \<and> set (chain (free st)) \<inter> (taken st \<union> set (ready (free st))) = {}
     \<and> (\<forall>(n, ids) \<in> set (fpending (free st)). n \<le> TxID (meta st) \<longrightarrow> set ids \<inter> set (chain (free st)) = {})
     \<and> set (chain (free st)) \<inter> FreeSet st \<subseteq> seen (free st) \<and> reserved st \<le> PageCount (meta st)"

lemma list_okD:
  assumes "list_ok st"
  shows "distinct (map fst (fpending (free st)))" "distinct (listed (free st))" "distinct (chain (free st))"
    "FreeSet st \<subseteq> {reserved st..<PageCount (meta st)}" "set (chain (free st)) \<subseteq> {reserved st..<PageCount (meta st)}"
    "taken st \<subseteq> {reserved st..<PageCount (meta st)}" "set (chain (free st)) \<subseteq> {..<committed st}"
    "set (chain (free st)) \<inter> taken st = {}" "set (chain (free st)) \<inter> set (ready (free st)) = {}"
    "\<And>n ids. (n, ids) \<in> set (fpending (free st)) \<Longrightarrow> n \<le> TxID (meta st) \<Longrightarrow> set ids \<inter> set (chain (free st)) = {}"
    "set (chain (free st)) \<inter> FreeSet st \<subseteq> seen (free st)" "reserved st \<le> PageCount (meta st)"
  using assms unfolding list_ok_def by blast+

lemma list_okI:
  assumes "distinct (map fst (fpending (free st)))" "distinct (listed (free st))" "distinct (chain (free st))"
    "FreeSet st \<subseteq> {reserved st..<PageCount (meta st)}" "set (chain (free st)) \<subseteq> {reserved st..<PageCount (meta st)}"
    "taken st \<subseteq> {reserved st..<PageCount (meta st)}" "set (chain (free st)) \<subseteq> {..<committed st}"
    "set (chain (free st)) \<inter> taken st = {}" "set (chain (free st)) \<inter> set (ready (free st)) = {}"
    "\<And>n ids. (n, ids) \<in> set (fpending (free st)) \<Longrightarrow> n \<le> TxID (meta st) \<Longrightarrow> set ids \<inter> set (chain (free st)) = {}"
    "set (chain (free st)) \<inter> FreeSet st \<subseteq> seen (free st)" "reserved st \<le> PageCount (meta st)"
  shows "list_ok st"
  using assms unfolding list_ok_def by blast

lemma mset_concat_delete:
  "distinct (map fst al) \<Longrightarrow>
     mset (case map_of al n of None \<Rightarrow> [] | Some ids \<Rightarrow> ids) + mset (concat (map snd (AList.delete n al)))
       = mset (concat (map snd al))"
proof (induction al)
  case Nil
  then show ?case by simp
next
  case (Cons a al)
  obtain k v where a: "a = (k, v)" by (cases a)
  show ?case
  proof (cases "k = n")
    case True
    with Cons.prems a have "AList.delete n al = al"
      by (force simp: AList.delete_eq filter_id_conv)
    with True a show ?thesis by simp
  next
    case False
    with Cons a show ?thesis by (simp add: ac_simps)
  qed
qed

lemma mset_listed_promoteOne:
  "distinct (map fst (fpending f)) \<Longrightarrow> mset (listed (promoteOne tx oldest f n)) = mset (listed f)"
  using mset_concat_delete [of "fpending f" n] by (simp add: promoteOne_def listed_def)

lemma distinct_promoteOne:
  "distinct (map fst (fpending f)) \<Longrightarrow> distinct (map fst (fpending (promoteOne tx oldest f n)))"
  by (simp add: promoteOne_def distinct_delete)

lemma mset_listed_promotes:
  "distinct (map fst (fpending f)) \<Longrightarrow> mset (listed (foldl (promoteOne tx oldest) f ns)) = mset (listed f)"
  by (induction ns arbitrary: f) (simp_all add: mset_listed_promoteOne distinct_promoteOne)

lemma promote_listed:
  assumes "distinct (map fst (fpending (free st)))"
  shows "mset (listed (free (promote st))) = mset (listed (free st))"
  using assms mset_listed_promotes [of "free st"] by (simp add: promote_def)

lemma promote_freelist:
  assumes "list_ok st"
  shows "distinct (map fst (fpending (free (promote st))))" "freeing (free (promote st)) = freeing (free st)"
    "seen (free (promote st)) = seen (free st)" "chain (free (promote st)) = chain (free st)"
    "set (chain (free st)) \<inter> set (ready (free (promote st))) = {}"
    "\<forall>(n, ids) \<in> set (fpending (free (promote st))). n \<le> TxID (meta st) \<longrightarrow> set (chain (free st)) \<inter> set ids = {}"
  using assms promotes_reach [of "free st" "set (chain (free st))" "TxID (meta st)" "TxID (meta st)" "oldestHeld st"
      "sort (map fst (fpending (free st)))"]
  by (auto simp: list_ok_def promote_def Int_commute Int_Un_distrib)

lemma promote_FreeSet: "list_ok st \<Longrightarrow> FreeSet (promote st) = FreeSet st"
  using promote_listed [of st] by (simp only: set_listed [symmetric] list_ok_def) (blast dest: mset_eq_setD)

lemma promote_list_ok:
  assumes "list_ok st"
  shows "list_ok (promote st)"
proof (rule list_okI)
  note d = list_okD [OF assms] and p = promote_freelist [OF assms]
  have "distinct (listed (free (promote st))) = distinct (listed (free st))"
    by (rule mset_eq_imp_distinct_iff [OF promote_listed [OF d(1)]])
  then show "distinct (listed (free (promote st)))" using d(2) by simp
  show "set ids \<inter> set (chain (free (promote st))) = {}"
    if "(n, ids) \<in> set (fpending (free (promote st)))" "n \<le> TxID (meta (promote st))" for n ids
    using p(4,6) that by fastforce
qed (use list_okD [OF assms] promote_freelist [OF assms] promote_FreeSet [OF assms] in simp_all)

lemma Allocate_list_ok:
  assumes ok: "list_ok st" and a: "Allocate st = (res, st')"
  shows "list_ok st'" "FreeSet st' \<subseteq> FreeSet st" "chain (free st') = chain (free st)"
    "res = Inr pid \<Longrightarrow> pid \<notin> FreeSet st' \<and> reserved st \<le> pid \<and> pid < PageCount (meta st')
       \<and> pid \<notin> set (chain (free st)) \<and> (pid \<in> FreeSet st \<or> pid = PageCount (meta st))"
proof -
  note p = promote_list_ok [OF ok] promote_freelist [OF ok] promote_FreeSet [OF ok]
  have "list_ok st' \<and> FreeSet st' \<subseteq> FreeSet st \<and> chain (free st') = chain (free st) \<and>
     (res = Inr pid \<longrightarrow> pid \<notin> FreeSet st' \<and> reserved st \<le> pid \<and> pid < PageCount (meta st')
       \<and> pid \<notin> set (chain (free st)) \<and> (pid \<in> FreeSet st \<or> pid = PageCount (meta st)))"
  proof (cases res)
    case (Inl e)
    with a p show ?thesis by (auto simp: Allocate_def Let_def split: if_splits)
  next
    case (Inr q)
    from a have "Allocate st = (Inr q, st')" using Inr by simp
    then show ?thesis
    proof (cases rule: Allocate_Inr)
      case reuse
      define r where "r = butlast (ready (free (promote st)))"
      have rq: "ready (free (promote st)) = r @ [q]" using reuse by (simp add: r_def)
      have st': "st' = (promote st)\<lparr>free := (free (promote st))\<lparr>ready := r, seen := seen (free (promote st)) - {q}\<rparr>,
                     taken := insert q (taken st)\<rparr>" using reuse by (simp add: r_def)
      have l: "listed (free (promote st)) = r @ [q] @ concat (map snd (fpending (free (promote st)))) @ freeing (free (promote st))"
        "listed (free st') = r @ concat (map snd (fpending (free (promote st)))) @ freeing (free (promote st))"
        by (simp_all add: listed_def rq st')
      have d: "distinct (listed (free (promote st)))" using p(1) by (simp add: list_ok_def)
      have fs: "FreeSet st' = FreeSet (promote st) - {q}" "q \<in> FreeSet (promote st)"
        using d unfolding set_listed [symmetric] l by auto
      have qc: "q \<notin> set (chain (free st))" using p(6) rq by auto
      have q: "reserved st \<le> q" "q < PageCount (meta st)"
        using p(1) fs(2) by (auto simp: list_ok_def)
      have "list_ok st'"
      proof (rule list_okI)
        show "distinct (listed (free st'))" using d unfolding l by auto
        show "FreeSet st' \<subseteq> {reserved st'..<PageCount (meta st')}"
          using list_okD(4) [OF p(1)] fs by (auto simp: st')
        show "set (chain (free st')) \<inter> FreeSet st' \<subseteq> seen (free st')"
          using list_okD(11) [OF p(1)] fs by (auto simp: st')
        show "taken st' \<subseteq> {reserved st'..<PageCount (meta st')}"
          using list_okD(6) [OF p(1)] q by (auto simp: st')
        show "set (chain (free st')) \<inter> taken st' = {}" "set (chain (free st')) \<inter> set (ready (free st')) = {}"
          using list_okD(8,9) [OF p(1)] qc p(5) rq by (auto simp: st')
      qed (use list_okD [OF p(1)] in \<open>simp_all add: st'\<close>)
      with fs q qc p(3,5,8) Inr show ?thesis by (auto simp: st')
    next
      case fresh
      have st': "free st' = free (promote st)" "FreeSet st' = FreeSet st"
        using fresh p(8) by (simp_all add: FreeSet_def)
      have r: "reserved st \<le> PageCount (meta st)" using list_okD(12) [OF ok] .
      note d = list_okD [OF p(1)]
      have "list_ok st'"
      proof (rule list_okI)
        show "FreeSet st' \<subseteq> {reserved st'..<PageCount (meta st')}" "taken st' \<subseteq> {reserved st'..<PageCount (meta st')}"
          "set (chain (free st')) \<subseteq> {reserved st'..<PageCount (meta st')}"
          using d(4-6) r p(8) fresh st' by auto
        show "set (chain (free st')) \<inter> taken st' = {}" using d(5,8) fresh by auto
        show "set (chain (free st')) \<inter> FreeSet st' \<subseteq> seen (free st')" using d(11) p(8) st' by simp
      qed (use d fresh in simp_all)
      moreover have "PageCount (meta st) \<notin> FreeSet st \<and> PageCount (meta st) \<notin> set (chain (free st))"
        using d(4,5) p(5,8) by auto
      ultimately show ?thesis using fresh st' p(5) r Inr by (auto simp: FreeSet_def)
    qed
  qed
  then show "list_ok st'" "FreeSet st' \<subseteq> FreeSet st" "chain (free st') = chain (free st)"
    "res = Inr pid \<Longrightarrow> pid \<notin> FreeSet st' \<and> reserved st \<le> pid \<and> pid < PageCount (meta st')
       \<and> pid \<notin> set (chain (free st)) \<and> (pid \<in> FreeSet st \<or> pid = PageCount (meta st))"
    by blast+
qed


text \<open>
  A page may be freed when it is a page of the file and is on no list yet; a page already freed in
  this transaction may be freed again, to no effect.
\<close>

definition freeable :: "pager \<Rightarrow> nat \<Rightarrow> bool" where
  "freeable st pid \<longleftrightarrow> pid \<in> seen (free st) \<or>
     pid < PageCount (meta st) \<and> pid \<notin> FreeSet st \<and> (pid \<in> set (chain (free st)) \<longrightarrow> \<not> Dirty st pid)"

lemma Free_list_ok:
  assumes ok: "list_ok st" and f: "freeable st pid"
  shows "list_ok (Free pid st)"
proof (cases "pid < reserved st \<or> pid \<in> seen (free st)")
  case True
  with ok show ?thesis by (simp add: Free_def)
next
  case False
  note d = list_okD [OF ok]
  have p: "reserved st \<le> pid" "pid < PageCount (meta st)" "pid \<notin> FreeSet st" "pid \<in> set (chain (free st)) \<Longrightarrow> \<not> Dirty st pid"
    using False f by (auto simp: freeable_def)
  let ?l = "free (Free pid st)"
  have fields: "fpending ?l = fpending (free st)" "chain ?l = chain (free st)" "seen ?l = insert pid (seen (free st))"
    "ready ?l = (if Dirty st pid then ready (free st) @ [pid] else ready (free st))"
    "freeing ?l = (if Dirty st pid then freeing (free st) else freeing (free st) @ [pid])"
    "reserved (Free pid st) = reserved st" "meta (Free pid st) = meta st" "taken (Free pid st) = taken st"
    "committed (Free pid st) = committed st"
    using False by (simp_all add: Free_def Let_def Dirty_def)
  have l: "mset (listed ?l) = mset (pid # listed (free st))"
    by (simp add: listed_def fields)
  then have fs: "FreeSet (Free pid st) = insert pid (FreeSet st)"
    unfolding set_listed [symmetric] by (metis mset_eq_setD list.simps(15))
  show ?thesis
  proof (rule list_okI)
    show "distinct (listed ?l)"
      using mset_eq_imp_distinct_iff [OF l] d(2) p(3) set_listed [of st] by simp
    show "FreeSet (Free pid st) \<subseteq> {reserved (Free pid st)..<PageCount (meta (Free pid st))}"
      using d(4) p by (auto simp: fs fields)
    show "set (chain ?l) \<inter> set (ready ?l) = {}" using d(9) p(4) by (auto simp: fields)
    show "set (chain ?l) \<inter> FreeSet (Free pid st) \<subseteq> seen ?l" using d(11) by (auto simp: fs fields)
  qed (use d in \<open>simp_all add: fields\<close>)
qed

lemma Free_fields:
  "chain (free (Free pid st)) = chain (free st)" "taken (Free pid st) = taken st" "committed (Free pid st) = committed st"
  "meta (Free pid st) = meta st" "reserved (Free pid st) = reserved st" "fpending (free (Free pid st)) = fpending (free st)"
  by (auto simp: Free_def Let_def)

lemma chain_freeable: "list_ok st \<Longrightarrow> pid \<in> set (chain (free st)) \<Longrightarrow> freeable st pid"
  using list_okD(5,7,8,11) [of st] by (fastforce simp: freeable_def Dirty_def)

lemma Frees_chain_ok:
  "list_ok st \<Longrightarrow> set pids \<subseteq> set (chain (free st)) \<Longrightarrow> list_ok (foldl (\<lambda>st pid. Free pid st) st pids)
     \<and> chain (free (foldl (\<lambda>st pid. Free pid st) st pids)) = chain (free st)"
  by (induction pids arbitrary: st) (simp_all add: Free_list_ok chain_freeable Free_fields)

lemma rollGarbage_list_ok:
  assumes "list_ok st"
  shows "list_ok (rollGarbage st)" "freeing (free (rollGarbage st)) = []"
proof -
  define s1 where "s1 = foldl (\<lambda>st pid. Free pid st) st (chain (free st))"
  have ok: "list_ok s1" using Frees_chain_ok [OF assms, of "chain (free st)"] by (simp add: s1_def)
  note d = list_okD [OF ok]
  have "list_ok (rollGarbage st) \<and> freeing (free (rollGarbage st)) = []"
  proof (cases "freeing (free s1) = []")
    case True
    then have "rollGarbage st = s1" by (simp add: rollGarbage_def s1_def Let_def)
    with ok True show ?thesis by simp
  next
    case False
    define k where "k = TxID (meta s1) + 1"
    define old where "old = (case map_of (fpending (free s1)) k of None \<Rightarrow> [] | Some ids \<Rightarrow> ids)"
    have r: "rollGarbage st = s1\<lparr>free := (free s1)\<lparr>fpending := AList.update k (old @ freeing (free s1)) (fpending (free s1)), freeing := []\<rparr>\<rparr>"
      using False by (simp add: rollGarbage_def s1_def [symmetric] Let_def k_def old_def)
    have u: "mset (concat (map snd (AList.update k (old @ v) al))) = mset (concat (map snd al)) + mset v"
      if "distinct (map fst al)" "old = (case map_of al k of None \<Rightarrow> [] | Some ids \<Rightarrow> ids)" for al and v :: "nat list"
      using that by (induction al) (auto split: if_splits)
    have l: "mset (listed (free (rollGarbage st))) = mset (listed (free s1))"
      using u [OF d(1) old_def] by (simp add: listed_def r)
    then have fs: "FreeSet (rollGarbage st) = FreeSet s1"
      unfolding set_listed [symmetric] by (rule mset_eq_setD)
    have "list_ok (rollGarbage st)"
    proof (rule list_okI)
      show "distinct (listed (free (rollGarbage st)))" using mset_eq_imp_distinct_iff [OF l] d(2) by simp
      show "distinct (map fst (fpending (free (rollGarbage st))))" using d(1) by (simp add: r distinct_update)
      show "set ids \<inter> set (chain (free (rollGarbage st))) = {}"
        if "(n, ids) \<in> set (fpending (free (rollGarbage st)))" "n \<le> TxID (meta (rollGarbage st))" for n ids
        using update_pairs [OF d(1), of n ids k "old @ freeing (free s1)"] d(10) [of n ids] that by (auto simp: r k_def)
    qed (use d fs in \<open>simp_all add: r\<close>)
    then show ?thesis by (simp add: r)
  qed
  then show "list_ok (rollGarbage st)" "freeing (free (rollGarbage st)) = []" by simp_all
qed

lemma Allocate_freeing: "list_ok st \<Longrightarrow> Allocate st = (res, st') \<Longrightarrow> freeing (free st') = freeing (free st)"
  using promote_freelist(2) [of st] by (auto simp: Allocate_def Let_def split: if_splits)

lemma takeListPages_ok:
  assumes "takeListPages ids st = (Inr ids', st')" "list_ok st" "distinct ids"
    "set ids \<inter> (FreeSet st \<union> set (chain (free st))) = {}" "set ids \<subseteq> {reserved st..<PageCount (meta st)}"
  shows "list_ok st' \<and> distinct ids' \<and> set ids' \<inter> (FreeSet st' \<union> set (chain (free st'))) = {}
    \<and> set ids' \<subseteq> {reserved st'..<PageCount (meta st')} \<and> freeing (free st') = freeing (free st)
    \<and> FreeSet st' \<subseteq> FreeSet st \<and> listPagesNeeded st' \<le> length ids'"
  using assms
proof (induction ids st rule: takeListPages.induct)
  case (1 ids st)
  show ?case
  proof (cases "listPagesNeeded st \<le> length ids")
    case True
    with "1.prems" show ?thesis by (auto simp: takeListPages.simps [of ids st])
  next
    case False
    obtain r s1 where a: "Allocate st = (r, s1)" by fastforce
    with "1.prems"(1) False obtain pid where r: "r = Inr pid"
      by (cases r) (auto simp: takeListPages.simps [of ids st])
    with "1.prems"(1) False a have t: "takeListPages (ids @ [pid]) s1 = (Inr ids', st')"
      by (simp add: takeListPages.simps [of ids st])
    note al = Allocate_list_ok [OF "1.prems"(2) a]
    note p = al(4) [OF r]
    have sa: "PageCount (meta st) \<le> PageCount (meta s1)" "reserved s1 = reserved st"
      using Allocate_anchor [OF a] by (simp_all add: same_anchor_def)
    have "list_ok st' \<and> distinct ids' \<and> set ids' \<inter> (FreeSet st' \<union> set (chain (free st'))) = {}
      \<and> set ids' \<subseteq> {reserved st'..<PageCount (meta st')} \<and> freeing (free st') = freeing (free s1)
      \<and> FreeSet st' \<subseteq> FreeSet s1 \<and> listPagesNeeded st' \<le> length ids'"
    proof (rule "1.IH" [OF False a [symmetric] r t al(1)])
      show "distinct (ids @ [pid])" "set (ids @ [pid]) \<inter> (FreeSet s1 \<union> set (chain (free s1))) = {}"
        "set (ids @ [pid]) \<subseteq> {reserved s1..<PageCount (meta s1)}"
        using "1.prems"(3-5) p al(2,3) sa by auto
    qed
    with al(2) Allocate_freeing [OF "1.prems"(2) a] show ?thesis by auto
  qed
qed


lemma takeListPages_done: "listPagesNeeded st \<le> length ids \<Longrightarrow> takeListPages ids st = (Inr ids, st)"
  by (simp add: takeListPages.simps [of ids st])

lemma takeListPages_more:
  "\<not> listPagesNeeded st \<le> length ids \<Longrightarrow> Allocate st = (Inr pid, st') \<Longrightarrow> takeListPages ids st = takeListPages (ids @ [pid]) st'"
  by (simp add: takeListPages.simps [of ids st])

section \<open>The list in the file\<close>

lemma freePerPage_eq: "freePerPage = 252"
  by (simp add: freePerPage_def layout)

definition chunk :: "(nat \<times> nat) list \<Rightarrow> nat \<Rightarrow> (nat \<times> nat) list" where
  "chunk es i = seg es (i * freePerPage) (min (i * freePerPage + freePerPage) (length es))"

definition nextOf :: "nat list \<Rightarrow> nat \<Rightarrow> nat" where
  "nextOf ids k = (if k < length ids then ids ! k else 0)"

definition listWrites :: "nat list \<Rightarrow> (nat \<times> nat) list \<Rightarrow> nat \<Rightarrow> (nat \<times> view_page) list" where
  "listWrites ids es k = map (\<lambda>i. (ids ! i, KindFree, listPayload (nextOf ids (Suc i)) (chunk es i))) (rev [0..<k])"

lemma Write_listPage: "Write (listPage pid n es) = writePage pid (KindFree, listPayload n es)"
  by (simp add: writePage_def listPage_def fillPage_def)

lemma writeListPages_all:
  "k \<le> length ids \<Longrightarrow> writeListPages ids es k (nextOf ids k) = pages.write_all (listWrites ids es k)"
proof (induction k)
  case 0
  then show ?case by (simp add: listWrites_def)
next
  case (Suc k)
  then have "nextOf ids k = ids ! k" by (simp add: nextOf_def)
  with Suc show ?case
    by (simp add: listWrites_def chunk_def Write_listPage)
qed

lemma chunk_length: "length (chunk es i) \<le> 252"
  by (simp add: chunk_def length_seg freePerPage_eq)

lemma entries_length: "length (concat (map (\<lambda>(t, pid). be 8 t @ be 8 pid) es)) = 16 * length es"
  by (induction es) auto

lemma entries_seg:
  "j < length es \<Longrightarrow> seg (concat (map (\<lambda>(t, pid). be 8 t @ be 8 pid) es)) (8 + 16 * j) (16 + 16 * j) = be 8 (snd (es ! j))"
proof (induction es arbitrary: j)
  case Nil
  then show ?case by simp
next
  case (Cons e es)
  obtain t pid where e: "e = (t, pid)" by (cases e)
  show ?case
  proof (cases j)
    case 0
    with e show ?thesis by (simp add: seg_def)
  next
    case (Suc i)
    with Cons e show ?thesis by (simp add: seg_append_right)
  qed
qed

lemma listPayload_segs:
  assumes "length es \<le> 252"
  shows "length (listPayload n es) = PayloadBytes" "seg (listPayload n es) 0 8 = be 8 n"
    "seg (listPayload n es) 8 12 = be 4 (length es)"
    "j < length es \<Longrightarrow> seg (listPayload n es) (12 + 16 * j + 8) (12 + 16 * j + 16) = be 8 (snd (es ! j))"
proof -
  define src where "src = concat (map (\<lambda>(t, pid). be 8 t @ be 8 pid) es)"
  have l: "length src = 16 * length es" by (simp add: src_def entries_length)
  have p: "listPayload n es = put (put (put (replicate 4048 0) 0 (be 8 n)) 8 (be 4 (length es))) 12 src"
    by (simp add: listPayload_def src_def layout)
  show "length (listPayload n es) = PayloadBytes" by (simp add: p PayloadBytes_def layout)
  show "seg (listPayload n es) 0 8 = be 8 n" "seg (listPayload n es) 8 12 = be 4 (length es)"
    using assms l by (simp_all add: p seg_put_disjoint seg_put_eq)
  show "seg (listPayload n es) (12 + 16 * j + 8) (12 + 16 * j + 16) = be 8 (snd (es ! j))" if "j < length es"
    using assms l that entries_seg [OF that] by (simp add: p seg_put_within src_def)
qed

lemma addFree_addFree:
  "addFree pid st = st\<lparr>free := (free st)\<lparr>ready := ready (free st) @ [pid]\<rparr>\<rparr>"
  by (simp add: addFree_def)

lemma readEntries_payload:
  assumes "length es \<le> 252" "\<forall>(t, pid) \<in> set es. 2 \<le> pid \<and> pid < PageCount (meta st)" "PageCount (meta st) < 2 ^ 64"
    and "j + n = length es"
  shows "readEntries (listPayload nx es) j n st
    = (Inr (), st\<lparr>free := (free st)\<lparr>ready := ready (free st) @ map snd (drop j es)\<rparr>\<rparr>)"
  using assms(2-4)
proof (induction n arbitrary: j st)
  case 0
  then show ?case by simp
next
  case (Suc n)
  then have j: "j < length es" by simp
  obtain t pid where e: "es ! j = (t, pid)" by (cases "es ! j")
  then have "(t, pid) \<in> set es" using j by (metis nth_mem)
  then have p: "2 \<le> pid" "pid < PageCount (meta st)" "pid < 256 ^ 8" using Suc.prems(1,2) by auto
  have "unbe (seg (listPayload nx es) (12 + j * 16 + 8) (12 + j * 16 + 16)) = pid"
    using listPayload_segs(4) [OF assms(1) j, of nx] p(3) e by (simp add: mult.commute)
  with p have "readEntries (listPayload nx es) j (Suc n) st = readEntries (listPayload nx es) (Suc j) n (addFree pid st)"
    by (simp add: Let_def layout)
  also have "\<dots> = (Inr (), st\<lparr>free := (free st)\<lparr>ready := ready (free st) @ pid # map snd (drop (Suc j) es)\<rparr>\<rparr>)"
    using Suc.IH [of "addFree pid st" "Suc j"] Suc.prems by (simp add: addFree_def)
  also have "pid # map snd (drop (Suc j) es) = map snd (drop j es)"
    using Cons_nth_drop_Suc [OF j] e by (metis list.simps(9) snd_conv)
  finally show ?case .
qed

definition list_stored :: "pager \<Rightarrow> nat list \<Rightarrow> (nat \<times> nat) list \<Rightarrow> bool" where
  "list_stored st ids es \<longleftrightarrow>
     (\<forall>i < length ids. viewPage st (ids ! i) = Some (KindFree, listPayload (nextOf ids (Suc i)) (chunk es i)))"

lemma viewPage_Some: "viewPage st pid = Some (k, d) \<longleftrightarrow> (\<exists>p. Read st pid = Inr p \<and> Kind p = k \<and> Payload p = d)"
  by (cases "Read st pid") (simp_all add: viewPage_def)

lemma Read_free [simp]: "Read (st\<lparr>free := f\<rparr>) = Read st"
  by (auto simp: Read_def fun_eq_iff cong: sum.case_cong option.case_cong)

lemma viewPage_free [simp]: "viewPage (st\<lparr>free := f\<rparr>) = viewPage st"
  by (simp add: viewPage_def fun_eq_iff)

definition listReadable :: "pager \<Rightarrow> nat list \<Rightarrow> (nat \<times> nat) list \<Rightarrow> bool" where
  "listReadable st ids es \<longleftrightarrow> list_stored st ids es \<and> distinct ids \<and> set ids \<subseteq> {reserved st..<PageCount (meta st)}
     \<and> 0 < reserved st \<and> PageCount (meta st) < 2 ^ 64
     \<and> (\<forall>(t, pid) \<in> set es. reserved st \<le> pid \<and> pid < PageCount (meta st))"

lemma chunk_subset: "set (chunk es i) \<subseteq> set es"
  unfolding chunk_def seg_def using set_drop_subset set_take_subset by fastforce

lemma distinct_bounded: "distinct ids \<Longrightarrow> set ids \<subseteq> {a..<n::nat} \<Longrightarrow> length ids \<le> n - a"
  using card_mono [of "{a..<n}" "set ids"] by (simp add: distinct_card)

lemma readList_step:
  assumes "listReadable st ids es" "i < length ids" "chain (free st) = take i ids"
  shows "readList (nextOf ids i) st =
    (case readEntries (listPayload (nextOf ids (Suc i)) (chunk es i)) 0 (length (chunk es i))
            (st\<lparr>free := (free st)\<lparr>chain := chain (free st) @ [ids ! i]\<rparr>\<rparr>) of
       (Inl e, st') \<Rightarrow> (Inl e, st') | (Inr _, st') \<Rightarrow> readList (nextOf ids (Suc i)) st')"
proof -
  note r = assms(1) [unfolded listReadable_def]
  let ?p = "listPayload (nextOf ids (Suc i)) (chunk es i)"
  have pid: "reserved st \<le> ids ! i" "ids ! i < PageCount (meta st)" "ids ! i \<noteq> 0"
    using r subsetD [of "set ids" "{reserved st..<PageCount (meta st)}", OF _ nth_mem [OF assms(2)]] by simp_all
  obtain p where p: "Read st (ids ! i) = Inr p" "Kind p = KindFree" "Payload p = ?p"
    using r assms(2) viewPage_Some [of st "ids ! i" KindFree ?p] by (auto simp: list_stored_def)
  have n: "nextOf ids (Suc i) < 256 ^ 8" using r by (auto simp: nextOf_def subset_iff) (meson less_trans nth_mem)
  have sg: "unbe (seg ?p freeNext (freeNext + 8)) = nextOf ids (Suc i)"
    "unbe (seg ?p freeCount (freeCount + 4)) = length (chunk es i)"
    using listPayload_segs [OF chunk_length] n chunk_length [of es i] by (simp_all add: layout)
  have c: "length (chain (free st)) \<le> PageCount (meta st)"
    using distinct_bounded [of ids "reserved st" "PageCount (meta st)"] r assms(2,3) by simp
  have "nextOf ids i = ids ! i" using assms(2) by (simp add: nextOf_def)
  then show ?thesis
    using pid p c chunk_length [of es i]
    by (simp add: readList.simps [of "ids ! i" st] Let_def sg freePerPage_eq cong: prod.case_cong sum.case_cong)
qed

lemma readList_from:
  assumes "listReadable st ids es" "i \<le> length ids" "chain (free st) = take i ids" "\<forall>(t, pid) \<in> set es. 2 \<le> pid"
  shows "readList (nextOf ids i) st = (Inr (), st\<lparr>free := (free st)\<lparr>
      ready := ready (free st) @ map snd (concat (map (chunk es) [i..<length ids])), chain := ids\<rparr>\<rparr>)"
  using assms
proof (induction "length ids - i" arbitrary: i st)
  case 0
  then show ?case by (simp add: nextOf_def readList.simps [of 0])
next
  case (Suc k)
  then have i: "i < length ids" by simp
  note r = Suc.prems(1) [unfolded listReadable_def]
  let ?p = "listPayload (nextOf ids (Suc i)) (chunk es i)"
  let ?s = "st\<lparr>free := (free st)\<lparr>chain := chain (free st) @ [ids ! i]\<rparr>\<rparr>"
  let ?s1 = "?s\<lparr>free := (free ?s)\<lparr>ready := ready (free ?s) @ map snd (drop 0 (chunk es i))\<rparr>\<rparr>"
  have "readEntries ?p 0 (length (chunk es i)) ?s = (Inr (), ?s1)"
    using r chunk_subset [of es i] Suc.prems(4) by (intro readEntries_payload [OF chunk_length]) auto
  then have "readList (nextOf ids i) st = readList (nextOf ids (Suc i)) ?s1"
    using readList_step [OF Suc.prems(1) i Suc.prems(3)] by simp
  also have "\<dots> = (Inr (), ?s1\<lparr>free := (free ?s1)\<lparr>
      ready := ready (free ?s1) @ map snd (concat (map (chunk es) [Suc i..<length ids])), chain := ids\<rparr>\<rparr>)"
  proof (rule Suc.hyps(1))
    show "listReadable ?s1 ids es" using r by (simp add: listReadable_def list_stored_def)
    show "chain (free ?s1) = take (Suc i) ids" using Suc.prems(3) i by (simp add: take_Suc_conv_app_nth)
  qed (use Suc.hyps(2) Suc.prems(4) i in simp_all)
  finally show ?case using i by (simp add: upt_conv_Cons)
qed

lemma chunks_all: "length es \<le> n * 252 \<Longrightarrow> concat (map (chunk es) [0..<n]) = es"
proof -
  have "concat (map (chunk es) [0..<k]) = take (k * 252) es" for k
  proof (induction k)
    case 0
    then show ?case by simp
  next
    case (Suc k)
    have "chunk es k = take 252 (drop (k * 252) es)"
      by (simp add: chunk_def seg_def freePerPage_eq min_def)
    moreover have "take (Suc k * 252) es = take (k * 252) es @ take 252 (drop (k * 252) es)"
      using take_add [of "k * 252" 252 es] by (simp add: add.commute)
    ultimately show ?case using Suc by simp
  qed
  then show "length es \<le> n * 252 \<Longrightarrow> ?thesis" by simp
qed


section \<open>Writing and reading back\<close>

lemma mset_listEntries:
  assumes "distinct (map fst (fpending f))"
  shows "mset (map snd (listEntries f)) = mset (ready f @ concat (map snd (fpending f)))"
proof -
  let ?g = "\<lambda>t. case map_of (fpending f) t of None \<Rightarrow> [] | Some ids \<Rightarrow> ids"
  have "map snd (map (Pair t) xs) = xs" for t and xs :: "nat list" by (simp add: comp_def)
  then have e: "map snd (listEntries f) = ready f @ concat (map ?g (sort (map fst (fpending f))))"
    by (simp add: listEntries_def map_concat comp_def)
  have "mset (concat (map ?g xs)) = (\<Sum>x \<in># mset xs. mset (?g x))" for xs
    by (induction xs) simp_all
  then have c: "mset (concat (map ?g xs)) = mset (concat (map ?g ys))" if "mset xs = mset ys" for xs ys
    using that by simp
  have "?g (fst x) = snd x" if "x \<in> set (fpending f)" for x
    using map_of_is_SomeI [OF assms, of "fst x" "snd x"] that by simp
  then have "map ?g (map fst (fpending f)) = map snd (fpending f)" by simp
  then have "concat (map ?g (map fst (fpending f))) = concat (map snd (fpending f))"
    by (rule arg_cong)
  then show ?thesis using c [of "sort (map fst (fpending f))" "map fst (fpending f)"] by (simp add: e)
qed

lemma length_listEntries: "distinct (map fst (fpending f)) \<Longrightarrow> length (listEntries f) = fcount f"
  using mset_eq_length [OF mset_listEntries [of f]] by (simp add: fcount_def length_concat comp_def)

lemma readFreelist_stored:
  assumes "listReadable st ids es" "length es \<le> length ids * 252" "\<forall>(t, pid) \<in> set es. 2 \<le> pid"
  shows "readFreelist (nextOf ids 0) st = (Inr (), st\<lparr>free := newFreelist\<lparr>ready := map snd es, chain := ids\<rparr>\<rparr>)"
proof -
  have "readList (nextOf ids 0) (st\<lparr>free := newFreelist\<rparr>) = (Inr (), (st\<lparr>free := newFreelist\<rparr>)\<lparr>free :=
      (free (st\<lparr>free := newFreelist\<rparr>))\<lparr>ready := ready (free (st\<lparr>free := newFreelist\<rparr>))
        @ map snd (concat (map (chunk es) [0..<length ids])), chain := ids\<rparr>\<rparr>)"
    by (rule readList_from) (use assms(1,3) in \<open>simp_all add: listReadable_def list_stored_def newFreelist_def\<close>)
  then show ?thesis
    using chunks_all [OF assms(2)] by (simp add: readFreelist_def newFreelist_def)
qed

lemma list_writes_ok:
  assumes "disk_ok st" "cipher_ok st" "PageCount (meta st) < 2 ^ 64"
    and "set ids \<subseteq> {reserved st..<PageCount (meta st)}" "(pid, p) \<in> set (listWrites ids es (length ids))"
  shows "page_ok st pid p"
proof -
  from assms(5) obtain i where i: "i < length ids" "pid = ids ! i" "p = (KindFree, listPayload (nextOf ids (Suc i)) (chunk es i))"
    by (auto simp: listWrites_def)
  then have "pid \<in> {reserved st..<PageCount (meta st)}" using assms(4) nth_mem [OF i(1)] by blast
  with assms(1-3) i(3) listPayload_segs(1) [OF chunk_length] show ?thesis
    by (auto simp: page_ok_def)
qed

lemma map_fst_listWrites: "map fst (listWrites ids es (length ids)) = rev ids"
  by (simp add: listWrites_def comp_def rev_map [symmetric] map_nth)

lemma view_mono:
  assumes "viewPage st q = Some x" "disk st' = disk st" "cipher st' = cipher st" "PageCount (meta st) \<le> PageCount (meta st')"
  shows "viewPage st' q = Some x"
proof -
  from assms(1) obtain p where p: "Read st q = Inr p" "x = (Kind p, Payload p)"
    by (cases x) (auto simp: viewPage_Some)
  with assms(2-4) have "Read st' q = Inr p" by (auto simp: Read_Inr)
  with p show ?thesis by (simp add: viewPage_def)
qed

lemma entries_FreeSet: "list_ok st \<Longrightarrow> snd ` set (listEntries (free st)) \<subseteq> FreeSet st"
  using mset_eq_setD [OF mset_listEntries [OF list_okD(1) [of st]]] by (auto simp: set_listed [symmetric] listed_def)

lemma entries_all: "list_ok st \<Longrightarrow> freeing (free st) = [] \<Longrightarrow> snd ` set (listEntries (free st)) = FreeSet st"
  using mset_eq_setD [OF mset_listEntries [OF list_okD(1) [of st]]] by (auto simp: set_listed [symmetric] listed_def)

lemma list_written:
  assumes "list_ok st" "distinct ids" "set ids \<subseteq> {reserved st..<PageCount (meta st)}" "disk_ok st" "cipher_ok st"
    "0 < reserved st" "PageCount (meta st) < 2 ^ 64"
  obtains st' where "writeListPages ids (listEntries (free st)) (length ids) 0 st = (Inr (), st')"
    "listReadable st' ids (listEntries (free st))" "bookkeeping st' = bookkeeping st"
    "\<And>q x. q \<notin> set ids \<Longrightarrow> viewPage st q = Some x \<Longrightarrow> viewPage st' q = Some x"
    "\<And>q y. page_ok st' q y = page_ok st q y"
proof -
  let ?es = "listEntries (free st)"
  let ?ps = "listWrites ids ?es (length ids)"
  have "distinct (map fst ?ps)" using assms(2) by (simp add: map_fst_listWrites)
  with list_writes_ok [OF assms(4,5,7,3)] obtain st' where
    w: "pages.write_all ?ps st = (Inr (), st')" "\<forall>(pid, p) \<in> set ?ps. viewPage st' pid = Some p"
    "\<forall>q x. q \<notin> fst ` set ?ps \<longrightarrow> viewPage st q = Some x \<longrightarrow> viewPage st' q = Some x"
    "bookkeeping st' = bookkeeping st" "\<forall>q y. page_ok st' q y = page_ok st q y"
    using pages.write_all_ok [of ?ps st] by blast
  have "writeListPages ids ?es (length ids) 0 st = (Inr (), st')"
    using writeListPages_all [of "length ids" ids ?es] w(1) by (simp add: nextOf_def)
  moreover have "list_stored st' ids ?es" using w(2) by (auto simp: list_stored_def listWrites_def)
  moreover have "\<forall>(t, pid) \<in> set ?es. reserved st \<le> pid \<and> pid < PageCount (meta st)"
    using entries_FreeSet [OF assms(1)] list_okD(4) [OF assms(1)] by fastforce
  moreover have "fst ` set ?ps = set ids" using map_fst_listWrites [of ids ?es] by (metis set_map set_rev)
  ultimately show thesis
    using that w(3-5) assms bookkeeping_eqD [OF w(4)] by (simp add: listReadable_def)
qed

lemma writeFreelist_stored:
  assumes w: "writeFreelist st = (Inr (head, ids), st')" and ok: "list_ok st" "freeing (free st) = []"
    and d: "disk_ok st" "cipher_ok st" and n: "0 < reserved st" "PageCount (meta st') < 2 ^ 64"
  shows "list_ok st'" "listReadable st' ids (listEntries (free st'))" "head = nextOf ids 0"
    "length (listEntries (free st')) \<le> length ids * 252" "set ids \<inter> (FreeSet st' \<union> set (chain (free st'))) = {}"
    "freeing (free st') = []" "disk_ok st'" "distinct ids" "set ids \<subseteq> {reserved st'..<PageCount (meta st')}"
    "\<And>q x. viewPage st q = Some x \<Longrightarrow> q \<notin> set ids \<Longrightarrow> viewPage st' q = Some x"
proof -
  obtain s1 where s1: "takeListPages [] st = (Inr ids, s1)" "same_anchor s1 st'" "free st' = free s1"
    "taken st' = taken s1" "meta st' = meta s1" "head = (if ids = [] then 0 else ids ! 0)"
    by (rule writeFreelist_Inr [OF w])
  have t: "list_ok s1" "distinct ids" "set ids \<inter> (FreeSet s1 \<union> set (chain (free s1))) = {}"
    "set ids \<subseteq> {reserved s1..<PageCount (meta s1)}" "freeing (free s1) = []" "listPagesNeeded s1 \<le> length ids"
    using takeListPages_ok [OF s1(1) ok(1)] ok(2) by auto
  have a: "same_anchor st s1" "disk s1 = disk st" using takeListPages_anchor [OF s1(1)] by simp_all
  then have d1: "disk_ok s1" "cipher_ok s1" "0 < reserved s1" "PageCount (meta s1) < 2 ^ 64"
    using d n s1(5) by (simp_all add: disk_ok_def cipher_ok_def same_anchor_def)
  obtain s2 where s2: "writeListPages ids (listEntries (free s1)) (length ids) 0 s1 = (Inr (), s2)"
    "listReadable s2 ids (listEntries (free s1))" "bookkeeping s2 = bookkeeping s1"
    "\<And>q x. q \<notin> set ids \<Longrightarrow> viewPage s1 q = Some x \<Longrightarrow> viewPage s2 q = Some x"
    "\<And>q y. page_ok s2 q y = page_ok s1 q y"
    using list_written [OF t(1,2,4) d1] by blast
  have "writeFreelist st = (if ids = [] then ret (0, []) else
     bnd (\<lambda>st. writeListPages ids (listEntries (free st)) (length ids) 0 st) (\<lambda>_. ret (ids ! 0, ids))) s1"
    unfolding writeFreelist_def bnd_Inr [where m = "takeListPages []", OF s1(1)] ..
  then have "st' = s2" using w s2(1) by (cases "ids = []") (simp_all add: bnd_def)
  note b = bookkeeping_eqD [OF s2(3)]
  show "list_ok st'" using t(1) b \<open>st' = s2\<close> by (simp add: list_ok_def FreeSet_def)
  show "listReadable st' ids (listEntries (free st'))" using s2(2) b \<open>st' = s2\<close> by simp
  show "head = nextOf ids 0" using s1(6) by (simp add: nextOf_def)
  show "length (listEntries (free st')) \<le> length ids * 252"
    using t(6) length_listEntries [OF list_okD(1) [OF t(1)]] s1(3)
    by (simp add: listPagesNeeded_def freePerPage_eq)
  show "set ids \<inter> (FreeSet st' \<union> set (chain (free st'))) = {}" using t(3) s1(3) by (simp add: FreeSet_def)
  show "freeing (free st') = []" using t(5) s1(3) by simp
  show "disk_ok st'" using d1(1) b(12) \<open>st' = s2\<close> by simp
  show "distinct ids" by (rule t(2))
  show "set ids \<subseteq> {reserved st'..<PageCount (meta st')}" using t(4) b \<open>st' = s2\<close> by simp
  show "viewPage st' q = Some x" if "viewPage st q = Some x" "q \<notin> set ids" for q x
    using s2(4) [OF that(2)] view_mono [OF that(1) a(2)] a(1) \<open>st' = s2\<close> by (simp add: same_anchor_def)
qed


section \<open>Properties\<close>




lemma readEntries_bad:
  assumes "length es \<le> 252" "PageCount (meta st) < 2 ^ 64" "j + n = length es"
    and "\<forall>(t, pid) \<in> set es. pid < PageCount (meta st)" "\<exists>(t, pid) \<in> set (drop j es). pid \<le> 1"
  shows "fst (readEntries (listPayload nx es) j n st) = Inl ErrFreelist"
  using assms(2-5)
proof (induction n arbitrary: j st)
  case 0
  then show ?case by simp
next
  case (Suc n)
  then have j: "j < length es" by simp
  obtain t pid where e: "es ! j = (t, pid)" by (cases "es ! j")
  then have "(t, pid) \<in> set es" using j by (metis nth_mem)
  then have p: "pid < PageCount (meta st)" "pid < 256 ^ 8" using Suc.prems(1,3) by auto
  have u: "unbe (seg (listPayload nx es) (12 + j * 16 + 8) (12 + j * 16 + 16)) = pid"
    using listPayload_segs(4) [OF assms(1) j, of nx] p(2) e by (simp add: mult.commute)
  show ?case
  proof (cases "pid \<le> 1")
    case True
    with u show ?thesis by (simp add: Let_def layout)
  next
    case False
    have "drop j es = (t, pid) # drop (Suc j) es" using Cons_nth_drop_Suc [OF j] e by simp
    with False Suc.prems have "fst (readEntries (listPayload nx es) (Suc j) n (addFree pid st)) = Inl ErrFreelist"
      by (intro Suc.IH) (auto simp: addFree_def)
    with u p False show ?thesis by (simp add: Let_def layout)
  qed
qed


lemma readList_bad:
  assumes "listReadable st ids es" "i \<le> length ids" "chain (free st) = take i ids"
    and "\<exists>k \<in> {i..<length ids}. \<exists>(t, pid) \<in> set (chunk es k). pid \<le> 1"
  shows "fst (readList (nextOf ids i) st) = Inl ErrFreelist"
  using assms
proof (induction "length ids - i" arbitrary: i st)
  case 0
  then show ?case by auto
next
  case (Suc k)
  then have i: "i < length ids" by simp
  note r = Suc.prems(1) [unfolded listReadable_def]
  let ?p = "listPayload (nextOf ids (Suc i)) (chunk es i)"
  let ?s = "st\<lparr>free := (free st)\<lparr>chain := chain (free st) @ [ids ! i]\<rparr>\<rparr>"
  note step = readList_step [OF Suc.prems(1) i Suc.prems(3)]
  show ?case
  proof (cases "\<exists>(t, pid) \<in> set (chunk es i). pid \<le> 1")
    case True
    with r chunk_subset [of es i] have "fst (readEntries ?p 0 (length (chunk es i)) ?s) = Inl ErrFreelist"
      by (intro readEntries_bad [OF chunk_length]) auto
    then show ?thesis unfolding step by (auto split: prod.splits)
  next
    case False
    let ?s1 = "?s\<lparr>free := (free ?s)\<lparr>ready := ready (free ?s) @ map snd (drop 0 (chunk es i))\<rparr>\<rparr>"
    have e: "readEntries ?p 0 (length (chunk es i)) ?s = (Inr (), ?s1)"
      using r chunk_subset [of es i] False by (intro readEntries_payload [OF chunk_length]) fastforce+
    have "fst (readList (nextOf ids (Suc i)) ?s1) = Inl ErrFreelist"
    proof (rule Suc.hyps(1))
      show "listReadable ?s1 ids es" using r by (simp add: listReadable_def list_stored_def)
      show "chain (free ?s1) = take (Suc i) ids" using Suc.prems(3) i by (simp add: take_Suc_conv_app_nth)
      show "\<exists>k \<in> {Suc i..<length ids}. \<exists>(t, pid) \<in> set (chunk es k). pid \<le> 1"
        using Suc.prems(4) False by (metis atLeastLessThan_iff le_neq_implies_less Suc_leI)
    qed (use Suc.hyps(2) i in simp_all)
    with e show ?thesis unfolding step by simp
  qed
qed

text \<open>
  A led store cannot read back a free list that holds page 1. The pages of a led store start at
  1, and a page 1 that was freed is written to the list like any other; but \<^verbatim>\<open>readFreelist\<close> refuses
  every entry that is not above 1, so that the list is refused as damaged whenever page 1 is on it.
\<close>


theorem led_list_with_page_one_unreadable:
  assumes "writeFreelist st = (Inr (head, ids), st')" "list_ok st" "freeing (free st) = []"
    and "disk_ok st" "cipher_ok st" "reserved st = 1" "PageCount (meta st') < 2 ^ 64" "1 \<in> FreeSet st'"
  shows "fst (readFreelist head st') = Inl ErrFreelist"
proof -
  have "0 < reserved st" using assms(6) by simp
  note w = writeFreelist_stored [OF assms(1-5) this assms(7)]
  let ?es = "listEntries (free st')"
  have "1 \<in> snd ` set ?es" using entries_all [OF w(1,6)] assms(8) by simp
  then obtain t where "(t, 1) \<in> set ?es" by auto
  then have "(t, 1) \<in> set (concat (map (chunk ?es) [0..<length ids]))" using chunks_all [OF w(4)] by simp
  then obtain k where k: "k < length ids" "(t, 1) \<in> set (chunk ?es k)" by auto
  have "fst (readList (nextOf ids 0) (st'\<lparr>free := newFreelist\<rparr>)) = Inl ErrFreelist"
  proof (rule readList_bad)
    show "listReadable (st'\<lparr>free := newFreelist\<rparr>) ids ?es" using w(2) by (simp add: listReadable_def list_stored_def)
    show "\<exists>k \<in> {0..<length ids}. \<exists>(t, pid) \<in> set (chunk ?es k). pid \<le> 1" using k by force
  qed (simp_all add: newFreelist_def)
  then show ?thesis using w(3) by (simp add: readFreelist_def)
qed


theorem led_list_with_page_one_unreadable_witness:
  "let st = (newPager (NewSim (\<lambda>_. 0) \<lparr>TornWrite = 0, LyingSync = 0, ReorderWrites = False, PowerCutAfter = 0\<rparr>) 0 (\<lambda>_. 0))
        \<lparr>reserved := 1, led := True, meta := zeroMeta\<lparr>TxID := 5, PageCount := 9\<rparr>, committed := 9,
          free := newFreelist\<lparr>ready := [1, 7]\<rparr>\<rparr>
   in \<exists>st'. writeFreelist st = (Inr (7, [7]), st') \<and> fst (readFreelist 7 st') = Inl ErrFreelist"
proof -
  let ?d = "NewSim (\<lambda>_. 0) \<lparr>TornWrite = 0, LyingSync = 0, ReorderWrites = False, PowerCutAfter = 0\<rparr>"
  let ?st = "(newPager ?d 0 (\<lambda>_. 0))\<lparr>reserved := 1, led := True, meta := zeroMeta\<lparr>TxID := 5, PageCount := 9\<rparr>,
          committed := 9, free := newFreelist\<lparr>ready := [1, 7]\<rparr>\<rparr>"
  let ?s1 = "?st\<lparr>free := (free ?st)\<lparr>ready := [1]\<rparr>, taken := {7}\<rparr>"
  have ok: "list_ok ?st" "disk_ok ?st" "cipher_ok ?st" "list_ok ?s1" "disk_ok ?s1" "cipher_ok ?s1"
    by (auto simp: list_ok_def listed_def FreeSet_def newPager_def newFreelist_def zeroMeta_def disk_ok_def cipher_ok_def NewSim_def)
  have a: "Allocate ?st = (Inr 7, ?s1)"
    by (simp add: Allocate_def promote_def newPager_def newFreelist_def Let_def)
  have n: "listPagesNeeded ?st = 1" "listPagesNeeded ?s1 = 1"
    by (simp_all add: listPagesNeeded_def fcount_def freePerPage_eq newFreelist_def)
  have "takeListPages [] ?st = takeListPages ([] @ [7]) ?s1" using n a by (intro takeListPages_more) simp_all
  also have "\<dots> = (Inr [7], ?s1)" using n by (subst takeListPages_done) simp_all
  finally have t: "takeListPages [] ?st = (Inr [7], ?s1)" .
  obtain s2 where s2: "writeListPages [7] (listEntries (free ?s1)) (length [7]) 0 ?s1 = (Inr (), s2)" "bookkeeping s2 = bookkeeping ?s1"
    by (rule list_written [OF ok(4) _ _ ok(5,6), of "[7]"]) (auto simp: newPager_def zeroMeta_def)
  have w: "writeFreelist ?st = (Inr (7, [7]), s2)"
    unfolding writeFreelist_def bnd_Inr [where m = "takeListPages []", OF t] using s2(1) by (simp add: bnd_def)
  have "PageCount (meta s2) < 2 ^ 64" "1 \<in> FreeSet s2"
    using bookkeeping_eqD [OF s2(2)] by (auto simp: zeroMeta_def FreeSet_def newFreelist_def)
  with led_list_with_page_one_unreadable [OF w ok(1) _ ok(2,3)] w show ?thesis
    by (auto simp: newFreelist_def newPager_def)
qed

end
