(* ===== verification/Pager_Crash.thy ===== *)
theory Pager_Crash
  imports Pager_List
begin

text \<open>
  The commit protocol against the disk of \<^verbatim>\<open>vfs/sim.go\<close>: writes in flight that a power cut drops,
  reorders and tears, at any point of a transaction or of \<^verbatim>\<open>Commit\<close> itself. The image that is left
  opens at the transaction before, with every page of its tree untouched, or at the new one, with
  everything the writer wrote; there is no third outcome.
\<close>

section \<open>The meta page an image opens at\<close>

definition metaIn :: "bytes \<Rightarrow> nat \<Rightarrow> err + meta" where
  "metaIn img slot =
     (let off = slot * PageBytes in
      if off \<ge> length img then Inl ErrPastEnd
      else if length img < off + MetaBytes then Inl ErrShortRead
      else parseMeta slot (seg img off (off + MetaBytes)))"

definition openImage :: "bytes \<Rightarrow> err + (meta \<times> nat)" where
  "openImage img = chooseMeta (metaIn img 0) (metaIn img 1)"

lemma ReadAt_result:
  assumes "\<not> closed d" "\<not> cut d" "0 < n"
  shows "fst (ReadAt n (int off) d) =
    (if off \<ge> length (current d) then Inl ErrPastEnd
     else if length (current d) < off + n then Inl ErrShortRead
     else Inr (seg (current d) off (off + n)))"
  using assms by (auto simp: ReadAt_def bnd_def alive_def Let_def seg_def)

lemma readMeta_metaIn:
  "\<not> closed (disk st) \<Longrightarrow> \<not> cut (disk st) \<Longrightarrow> readMeta st slot = metaIn (current (disk st)) slot"
  unfolding readMeta_def metaIn_def by (subst ReadAt_result) (simp_all add: layout Let_def)

lemma loadMeta_openImage:
  "\<not> closed (disk st) \<Longrightarrow> \<not> cut (disk st) \<Longrightarrow>
     loadMeta st = (case openImage (current (disk st)) of Inl e \<Rightarrow> (Inl e, st)
       | Inr (m, n) \<Rightarrow> (Inr (), st\<lparr>meta := m, nextMeta := n, committed := PageCount m\<rparr>))"
  by (simp add: loadMeta_def openImage_def readMeta_metaIn)

definition pageSeg :: "bytes \<Rightarrow> nat \<Rightarrow> bytes" where
  "pageSeg img pid = seg img (pid * PageBytes) (pid * PageBytes + PageBytes)"

text \<open>Both meta slots and every page of a set lie within an image.\<close>

definition holds :: "nat set \<Rightarrow> bytes \<Rightarrow> bool" where
  "holds V img \<longleftrightarrow> PageBytes + MetaBytes \<le> length img \<and> (\<forall>pid \<in> V. pid * PageBytes + PageBytes \<le> length img)"

definition sameState :: "nat set \<Rightarrow> bytes \<Rightarrow> bytes \<Rightarrow> bool" where
  "sameState V img img' \<longleftrightarrow>
     (\<forall>slot < 2. metaIn img' slot = metaIn img slot) \<and> (\<forall>pid \<in> V. pageSeg img' pid = pageSeg img pid) \<and> holds V img'"

text \<open>Writes of whole pages outside a set, none of them a meta page.\<close>

definition whole_page :: "nat set \<Rightarrow> pendingWrite \<Rightarrow> bool" where
  "whole_page V w \<longleftrightarrow> (\<exists>pid. fst w = pid * PageBytes \<and> length (snd w) = PageBytes \<and> 2 \<le> pid \<and> pid \<notin> V)"

definition flight_ok :: "nat set \<Rightarrow> pendingWrite list \<Rightarrow> bool" where
  "flight_ok V ws \<longleftrightarrow> (\<forall>w \<in> set ws. whole_page V w)"

lemma flight_ok_append [simp]: "flight_ok V (xs @ ys) \<longleftrightarrow> flight_ok V xs \<and> flight_ok V ys"
  by (auto simp: flight_ok_def)

lemma flight_ok_Nil [simp]: "flight_ok V []"
  by (simp add: flight_ok_def)

lemma page_apart: "(q::nat) \<noteq> p \<Longrightarrow> q * PageBytes + PageBytes \<le> p * PageBytes \<or> p * PageBytes + PageBytes \<le> q * PageBytes"
  by (cases "q < p") (auto simp: layout)

lemma flight_untouched:
  assumes "flight_ok V ws"
  shows "untouched ws 0 MetaBytes" "untouched ws PageBytes (PageBytes + MetaBytes)"
    "pid \<in> V \<Longrightarrow> untouched ws (pid * PageBytes) (pid * PageBytes + PageBytes)"
proof -
  have w: "\<exists>pid. fst w = pid * PageBytes \<and> length (snd w) = PageBytes \<and> 2 \<le> pid \<and> pid \<notin> V" if "w \<in> set ws" for w
    using assms that by (simp add: flight_ok_def whole_page_def)
  have "PageBytes + PageBytes \<le> fst w" if "w \<in> set ws" for w
    using w [OF that] by (auto simp: layout)
  then show "untouched ws 0 MetaBytes" "untouched ws PageBytes (PageBytes + MetaBytes)"
    by (fastforce simp: untouched_def layout)+
  show "untouched ws (pid * PageBytes) (pid * PageBytes + PageBytes)" if "pid \<in> V"
    unfolding untouched_def
  proof (safe)
    fix off data
    assume m: "(off, data) \<in> set ws" and no: "\<not> off + length data \<le> pid * PageBytes"
    obtain q where "off = q * PageBytes" "length data = PageBytes" "q \<notin> V" using w [OF m] by auto
    moreover from this that have "q \<noteq> pid" by blast
    ultimately show "pid * PageBytes + PageBytes \<le> off" using page_apart [of pid q] no by simp
  qed
qed

lemma sameStateI:
  assumes h: "holds V img"
    and s: "\<And>i j. untouched ws i j \<Longrightarrow> j \<le> length img \<Longrightarrow> seg img' i j = seg img i j \<and> j \<le> length img'"
    and f: "flight_ok V ws"
  shows "sameState V img img'"
proof -
  note u = flight_untouched [OF f]
  have l: "PageBytes + MetaBytes \<le> length img" using h by (simp add: holds_def)
  have "seg img' 0 MetaBytes = seg img 0 MetaBytes"
    "seg img' PageBytes (PageBytes + MetaBytes) = seg img PageBytes (PageBytes + MetaBytes)"
    "PageBytes + MetaBytes \<le> length img'"
    using s [OF u(1)] s [OF u(2)] l by simp_all
  then have "metaIn img' 0 = metaIn img 0" "metaIn img' 1 = metaIn img 1"
    using l by (auto simp: metaIn_def Let_def layout)
  moreover have "pageSeg img' pid = pageSeg img pid \<and> pid * PageBytes + PageBytes \<le> length img'" if "pid \<in> V" for pid
    using s [OF u(3) [OF that]] h that by (simp add: pageSeg_def holds_def)
  ultimately show ?thesis
    using \<open>PageBytes + MetaBytes \<le> length img'\<close> by (auto simp: sameState_def holds_def less_2_cases_iff)
qed

lemma replay_untouched:
  "untouched ws i j \<Longrightarrow> j \<le> length img \<Longrightarrow> seg (replay img ws) i j = seg img i j \<and> j \<le> length (replay img ws)"
proof (induction ws arbitrary: img)
  case Nil
  then show ?case by simp
next
  case (Cons w ws)
  obtain off data where w: "w = (off, data)" by (cases w)
  have "replay img (w # ws) = replay (overwrite img off data) ws" by (simp add: replay_def w)
  moreover have "seg (overwrite img off data) i j = seg img i j"
    using Cons.prems w by (intro seg_overwrite_disjoint) auto
  ultimately show ?case using Cons.IH [of "overwrite img off data"] Cons.prems w by simp
qed

lemma replay_same: "holds V img \<Longrightarrow> flight_ok V ws \<Longrightarrow> sameState V img (replay img ws)"
  by (rule sameStateI [OF _ replay_untouched])

lemma land_same: "holds V (durable d) \<Longrightarrow> flight_ok V (pending d) \<Longrightarrow> sameState V (durable d) (durable (land d))"
  by (rule sameStateI [OF _ land_untouched]) auto

lemma sameState_open: "sameState V img img' \<Longrightarrow> openImage img' = openImage img"
  by (simp add: sameState_def openImage_def)

lemma sameState_trans: "sameState V a b \<Longrightarrow> sameState V b c \<Longrightarrow> sameState V a c"
  by (simp add: sameState_def)

lemma sameState_refl: "holds V a \<Longrightarrow> sameState V a a"
  by (simp add: sameState_def)

section \<open>What the operations do to the disk\<close>

text \<open>A disk that has taken more writes and nothing else.\<close>

definition wrote :: "nat set \<Rightarrow> simdisk \<Rightarrow> simdisk \<Rightarrow> bool" where
  "wrote V d d' \<longleftrightarrow> durable d' = durable d \<and> faults d' = faults d
     \<and> (\<exists>ws. pending d' = pending d @ ws \<and> flight_ok V ws \<and> current d' = replay (current d) ws)"

lemma wrote_refl [simp]: "wrote V d d"
  by (simp add: wrote_def)

lemma replay_append: "replay img (xs @ ys) = replay (replay img xs) ys"
  by (simp add: replay_def)

lemma wrote_trans: "wrote V a b \<Longrightarrow> wrote V b c \<Longrightarrow> wrote V a c"
  by (force simp: wrote_def replay_append)

lemma wrote_coherent: "wrote V d d' \<Longrightarrow> coherent d \<Longrightarrow> coherent d'"
  by (auto simp: wrote_def coherent_def replay_append)

lemma WriteAt_disk:
  assumes "WriteAt p (int off) d = (res, d')"
  shows "d' = d \<and> (\<forall>n. res \<noteq> Inr n) \<or>
    (durable d' = durable d \<and> faults d' = faults d \<and> pending d' = pending d @ [(off, p)] \<and> current d' = overwrite (current d) off p
     \<and> closed d' = closed d)"
  using assms alive_cases [of d] by (auto simp: WriteAt_def Let_def split: if_splits)

lemma Write_wrote:
  assumes "Write p st = (res, st')" "2 \<le> reserved st" "PID p \<notin> V"
  shows "wrote V (disk st) (disk st')"
proof (cases "PID p < reserved st \<or> length (Data p) \<noteq> PageBytes")
  case True
  with assms(1) show ?thesis by (auto simp: Write_def split: if_splits)
next
  case False
  obtain r d where w: "WriteAt (written st p) (int (PID p * PageBytes)) (disk st) = (r, d)" by fastforce
  then have "disk st' = d"
    using False assms(1)
    by (auto simp: Write_def Let_def written_def onFile_def randRead_def bnd_def split: option.splits sum.splits prod.splits)
  moreover have "wrote V (disk st) d"
  proof -
    have "whole_page V (PID p * PageBytes, written st p)"
      using False assms(2,3) length_written [of p st] by (auto simp: whole_page_def)
    then have "flight_ok V [(PID p * PageBytes, written st p)]" by (simp add: flight_ok_def)
    moreover have "replay img [(PID p * PageBytes, written st p)] = overwrite img (PID p * PageBytes) (written st p)" for img
      by (simp add: replay_def)
    ultimately show ?thesis using WriteAt_disk [OF w]
      by (elim disjE) (auto simp: wrote_def intro!: exI [of _ "[(PID p * PageBytes, written st p)]"])
  qed
  ultimately show ?thesis by simp
qed

lemma Sync_disk:
  assumes "Sync d = (res, d')" "LyingSync (faults d) \<le> 0"
  shows "d' = d \<and> res \<noteq> Inr () \<or>
    res = Inr () \<and> \<not> closed d \<and> \<not> cut d \<and> d' = d\<lparr>durable := current d, pending := []\<rparr>"
  using assms alive_cases [of d] by (auto simp: Sync_def syncLies_def)


section \<open>A transaction in progress\<close>

definition oldMeta :: "pager \<Rightarrow> meta" where
  "oldMeta st = (meta st)\<lparr>PageCount := committed st\<rparr>"

text \<open>
  A file with a transaction in progress: the durable image opens at the last commit and holds its
  tree, and nothing in flight touches it.
\<close>

definition crash_ready :: "(nat \<Rightarrow> nat set) \<Rightarrow> pager \<Rightarrow> bool" where
  "crash_ready vis st \<longleftrightarrow>
     \<not> led st \<and> nextMeta st < 2 \<and> reserved st = 2 \<and> LyingSync (faults (disk st)) \<le> 0 \<and> coherent (disk st)
     \<and> metaIn (durable (disk st)) (1 - nextMeta st) = Inr (oldMeta st)
     \<and> (\<exists>n. openImage (durable (disk st)) = Inr (oldMeta st, n))
     \<and> holds (vis (TxID (meta st))) (durable (disk st)) \<and> flight_ok (vis (TxID (meta st))) (pending (disk st))
     \<and> visible_safe vis st \<and> list_ok st
     \<and> length (Salt (meta st)) = SaltBytes \<and> length (Check (meta st)) = NonceBytes + TagBytes"

text \<open>The parts of a meta page no transaction changes.\<close>

definition meta_fixed :: "meta \<Rightarrow> meta" where
  "meta_fixed m = m\<lparr>TxID := 0, Root := 0, Freelist := 0, PageCount := 0, Clean := False\<rparr>"

lemma writeListPages_wrote:
  "writeListPages ids es k next st = (res, st') \<Longrightarrow> 2 \<le> reserved st \<Longrightarrow> k \<le> length ids \<Longrightarrow> set ids \<inter> V = {}
     \<Longrightarrow> wrote V (disk st) (disk st')"
proof (induction k arbitrary: "next" st)
  case 0
  then show ?case by simp
next
  case (Suc k)
  let ?p = "listPage (ids ! k) next (seg es (k * freePerPage) (min (k * freePerPage + freePerPage) (length es)))"
  obtain r s1 where w: "Write ?p st = (r, s1)" by fastforce
  have "PID ?p = ids ! k" by (simp add: listPage_def NewPage_def Let_def)
  moreover have "ids ! k \<in> set ids" using Suc.prems(3) by simp
  ultimately have a: "wrote V (disk st) (disk s1)"
    using Write_wrote [OF w Suc.prems(2), of V] Suc.prems(4) by auto
  show ?case
  proof (cases r)
    case (Inl e)
    with Suc.prems w a show ?thesis by auto
  next
    case (Inr u)
    with Suc.prems w have "writeListPages ids es k (ids ! k) s1 = (res, st')" by simp
    moreover have "reserved s1 = reserved st" using Write_anchor [OF w] by (simp add: same_anchor_def)
    ultimately show ?thesis using Suc.IH [of "ids ! k" s1] Suc.prems a by (auto intro: wrote_trans)
  qed
qed

lemma taken_outside: "visible_safe vis st \<Longrightarrow> t \<in> anchors st \<Longrightarrow> taken st \<inter> vis t = {}"
  using visible_safeD(3) [of vis st t] by (auto simp: out_of_reach_def)

lemma takeListPages_meta: "takeListPages ids st = (res, st') \<Longrightarrow> \<exists>n. meta st' = (meta st)\<lparr>PageCount := n\<rparr>"
proof (induction ids st rule: takeListPages.induct)
  case (1 ids st)
  obtain r s1 where a: "Allocate st = (r, s1)" by fastforce
  then have m: "\<exists>n. meta s1 = (meta st)\<lparr>PageCount := n\<rparr>"
    by (auto simp: Allocate_def Let_def split: if_splits intro: exI [of _ "PageCount (meta st)"])
  show ?case
  proof (cases "listPagesNeeded st \<le> length ids \<or> (\<exists>e. r = Inl e)")
    case True
    with 1 a m show ?thesis
      by (auto simp: takeListPages.simps [of ids st] intro: exI [of _ "PageCount (meta st)"] split: if_splits)
  next
    case False
    then obtain pid where "r = Inr pid" by (cases r) auto
    with 1 a False m show ?thesis by (auto simp: takeListPages.simps [of ids st])
  qed
qed

lemma rollGarbage_meta: "meta (rollGarbage st) = meta st"
proof -
  have "meta (foldl (\<lambda>st pid. Free pid st) st ids) = meta st" for ids
    by (induction ids arbitrary: st) (simp_all add: Free_fields)
  then show ?thesis by (simp add: rollGarbage_def Let_def)
qed

text \<open>Up to its first sync a commit only adds writes that leave the old tree alone.\<close>

lemma commit_list:
  assumes c: "crash_ready vis st" and w: "writeFreelist (rollGarbage st) = (res, st')"
  shows "wrote (vis (TxID (meta st))) (disk st) (disk st')" "\<exists>n. meta st' = (meta st)\<lparr>PageCount := n\<rparr>"
    "committed st' = committed st" "nextMeta st' = nextMeta st" "reserved st' = reserved st"
    "res = Inr (head, ids) \<Longrightarrow> head = 0 \<or> head < PageCount (meta st')"
proof -
  let ?V = "vis (TxID (meta st))"
  have s: "visible_safe vis st" "list_ok st" "reserved st = 2" using c by (simp_all add: crash_ready_def)
  obtain r s1 where t: "takeListPages [] (rollGarbage st) = (r, s1)" by fastforce
  have an: "same_anchor st s1" "disk s1 = disk st" "\<forall>ids. r = Inr ids \<longrightarrow> set ids \<subseteq> taken s1"
    using takeListPages_anchor [OF t] rollGarbage_anchor [of st] by (auto intro: same_anchor_trans)
  have m: "\<exists>n. meta s1 = (meta st)\<lparr>PageCount := n\<rparr>" using takeListPages_meta [OF t] rollGarbage_meta by simp
  have v: "visible_safe vis s1" using takeListPages_safe [OF t] rollGarbage_safe [OF s(1)] by blast
  have out: "taken s1 \<inter> ?V = {}" using taken_outside [OF v, of "TxID (meta st)"] m by (auto simp: anchors_def)
  have "wrote ?V (disk st) (disk st') \<and> meta st' = meta s1 \<and> same_anchor s1 st' \<and>
      (res = Inr (head, ids) \<longrightarrow> head = 0 \<or> head < PageCount (meta st'))"
  proof (cases "\<exists>e. r = Inl e \<or> r = Inr []")
    case True
    with t w have "st' = s1" "res = Inr (head, ids) \<Longrightarrow> head = 0" by (auto simp: writeFreelist_def bnd_def)
    with an(2) show ?thesis by auto
  next
    case False
    then obtain xs where r: "r = Inr xs" "xs \<noteq> []" by (cases r) auto
    obtain r2 s2 where w2: "writeListPages xs (listEntries (free s1)) (length xs) 0 s1 = (r2, s2)" by fastforce
    have st': "st' = s2" "res = Inr (head, ids) \<Longrightarrow> head = xs ! 0"
      using w t r w2 by (auto simp: writeFreelist_def bnd_def split: sum.splits)
    have "set xs \<inter> ?V = {}" using an(3) r out by blast
    moreover have "2 \<le> reserved s1" using an(1) s(3) by (simp add: same_anchor_def)
    ultimately have "wrote ?V (disk s1) (disk s2)" using writeListPages_wrote [OF w2] by simp
    moreover have "set xs \<subseteq> {reserved s1..<PageCount (meta s1)}"
      using takeListPages_ok [of "[]" "rollGarbage st" xs s1] t r rollGarbage_list_ok(1) [OF s(2)] by simp
    moreover have "xs ! 0 \<in> set xs" using r(2) by simp
    ultimately show ?thesis using writeListPages_anchor [OF w2] st' an(2) by auto
  qed
  with an(1) m show "wrote ?V (disk st) (disk st')" "\<exists>n. meta st' = (meta st)\<lparr>PageCount := n\<rparr>"
    "committed st' = committed st" "nextMeta st' = nextMeta st" "reserved st' = reserved st"
    "res = Inr (head, ids) \<Longrightarrow> head = 0 \<or> head < PageCount (meta st')"
    by (auto simp: same_anchor_def)
qed


section \<open>Commit, stage by stage\<close>

definition metaWrite :: "pager \<Rightarrow> meta \<Rightarrow> pendingWrite" where
  "metaWrite st m = (nextMeta st * PageBytes, metaImage (nextMeta st) m)"

definition newMeta :: "pager \<Rightarrow> nat \<Rightarrow> nat \<Rightarrow> nat \<Rightarrow> meta" where
  "newMeta st rt head n =
     (meta st)\<lparr>TxID := TxID (meta st) + 1, Root := rt, Clean := False, Freelist := head, PageCount := n\<rparr>"

text \<open>The disk a commit leaves behind: before its first sync, after it, with the meta page in flight, done.\<close>

inductive commit_disk :: "simdisk \<Rightarrow> pendingWrite \<Rightarrow> bool \<Rightarrow> simdisk \<Rightarrow> bool" for d w where
  listing: "commit_disk d w False d"
| synced: "durable d' = current d \<Longrightarrow> current d' = current d \<Longrightarrow> pending d' = [] \<Longrightarrow> commit_disk d w False d'"
| meta_in_flight: "durable d' = current d \<Longrightarrow> pending d' = [w] \<Longrightarrow> current d' = overwrite (current d) (fst w) (snd w)
     \<Longrightarrow> commit_disk d w False d'"
| finished: "durable d' = overwrite (current d) (fst w) (snd w) \<Longrightarrow> current d' = durable d' \<Longrightarrow> pending d' = []
     \<Longrightarrow> faults d' = faults d \<Longrightarrow> commit_disk d w True d'"

lemma commit_tail:
  assumes k: "bnd (onFile Sync) (\<lambda>_. bnd (\<lambda>st. writeMeta (nextMeta st) m st) (\<lambda>_. bnd (onFile Sync) (\<lambda>_.
      modify (\<lambda>st. st\<lparr>meta := m, nextMeta := 1 - nextMeta st, committed := PageCount m,
                     free := (free st)\<lparr>chain := ids, seen := {}\<rparr>, taken := {}\<rparr>)))) s2 = (res, st')"
    and ly: "LyingSync (faults (disk s2)) \<le> 0" and n: "PageCount m = PageCount (meta s2)"
  shows "commit_disk (disk s2) (metaWrite s2 m) (res = Inr ()) (disk st') \<and> PageCount (meta st') = PageCount m
    \<and> (res = Inr () \<longrightarrow> meta st' = m \<and> nextMeta st' = 1 - nextMeta s2 \<and> committed st' = PageCount m)"
proof -
  obtain r3 d3 where sy: "Sync (disk s2) = (r3, d3)" by fastforce
  note S3 = Sync_disk [OF sy ly]
  obtain r4 d4 where wm: "WriteAt (metaImage (nextMeta s2) m) (int (nextMeta s2 * PageBytes)) d3 = (r4, d4)" by fastforce
  note W4 = WriteAt_disk [OF wm]
  obtain r5 d5 where sy5: "Sync d4 = (r5, d5)" by fastforce
  consider (first) "r3 \<noteq> Inr ()" | (write_fails) e where "r3 = Inr ()" "r4 = Inl e"
    | (second) u where "r3 = Inr ()" "r4 = Inr u" "r5 \<noteq> Inr ()" | (all) u where "r3 = Inr ()" "r4 = Inr u" "r5 = Inr ()"
    by (cases r4) auto
  then show ?thesis
  proof cases
    case first
    with k sy S3 have "disk st' = disk s2" "meta st' = meta s2" "res \<noteq> Inr ()"
      by (auto simp: bnd_def onFile_def split: sum.splits)
    with n show ?thesis by (simp add: commit_disk.listing)
  next
    case write_fails
    with k sy wm have "disk st' = d4" "meta st' = meta s2" "res \<noteq> Inr ()"
      by (auto simp: bnd_def onFile_def writeMeta_def)
    moreover have "commit_disk (disk s2) (metaWrite s2 m) False d4"
      using W4 S3 write_fails by (elim disjE) (auto simp: metaWrite_def intro: commit_disk.synced commit_disk.meta_in_flight)
    ultimately show ?thesis using n by simp
  next
    case second
    then have d4: "durable d4 = current (disk s2)" "pending d4 = [metaWrite s2 m]" "faults d4 = faults (disk s2)"
      "current d4 = overwrite (current (disk s2)) (fst (metaWrite s2 m)) (snd (metaWrite s2 m))"
      using W4 S3 by (auto simp: metaWrite_def)
    with Sync_disk [OF sy5] second ly k sy wm sy5 have "disk st' = d4" "meta st' = meta s2" "res \<noteq> Inr ()"
      by (auto simp: bnd_def onFile_def writeMeta_def split: sum.splits)
    with n d4 show ?thesis by (simp add: commit_disk.meta_in_flight)
  next
    case all
    then have d4: "faults d4 = faults (disk s2)"
      "current d4 = overwrite (current (disk s2)) (fst (metaWrite s2 m)) (snd (metaWrite s2 m))"
      using W4 S3 by (auto simp: metaWrite_def)
    with Sync_disk [OF sy5] all ly have "commit_disk (disk s2) (metaWrite s2 m) True d5"
      by (auto intro: commit_disk.finished)
    moreover have "disk st' = d5" "meta st' = m" "res = Inr ()" "nextMeta st' = 1 - nextMeta s2" "committed st' = PageCount m"
      using k sy wm sy5 all by (auto simp: bnd_def onFile_def writeMeta_def)
    ultimately show ?thesis by simp
  qed
qed

lemma Commit_stages:
  assumes c: "crash_ready vis st" and k: "Commit rt st = (res, st')"
  obtains head d where "head = 0 \<or> head < PageCount (meta st')" "wrote (vis (TxID (meta st))) (disk st) d"
    "commit_disk d (metaWrite st (newMeta st rt head (PageCount (meta st')))) (res = Inr ()) (disk st')"
    "res = Inr () \<longrightarrow> meta st' = newMeta st rt head (PageCount (meta st')) \<and> nextMeta st' = 1 - nextMeta st
       \<and> committed st' = PageCount (meta st')"
proof -
  obtain r s2 where w: "writeFreelist (rollGarbage st) = (r, s2)" by fastforce
  note cl = commit_list [OF c w]
  have nl: "\<not> led st" and ly: "LyingSync (faults (disk s2)) \<le> 0"
    using c cl(1) by (simp_all add: crash_ready_def wrote_def)
  show thesis
  proof (cases r)
    case (Inl e)
    then have "st' = s2" "res \<noteq> Inr ()" using k nl w by (auto simp: Commit_def Let_def)
    with that [of 0 "disk s2"] cl(1) commit_disk.listing show ?thesis by simp
  next
    case (Inr x)
    obtain head ids where x: "x = (head, ids)" by (cases x)
    define m where "m = newMeta st rt head (PageCount (meta s2))"
    have n: "PageCount m = PageCount (meta s2)" by (simp add: m_def newMeta_def)
    have "bnd (onFile Sync) (\<lambda>_. bnd (\<lambda>st. writeMeta (nextMeta st) m st) (\<lambda>_. bnd (onFile Sync) (\<lambda>_.
            modify (\<lambda>st. st\<lparr>meta := m, nextMeta := 1 - nextMeta st, committed := PageCount m,
                           free := (free st)\<lparr>chain := ids, seen := {}\<rparr>, taken := {}\<rparr>)))) s2 = (res, st')"
      using k nl w Inr x by (simp add: Commit_def Let_def m_def newMeta_def)
    note t = commit_tail [OF this ly n]
    have "metaWrite s2 m = metaWrite st m" using cl(4) by (simp add: metaWrite_def)
    moreover have "head = 0 \<or> head < PageCount (meta s2)" using cl(6) Inr x by simp
    ultimately show ?thesis using that [of head "disk s2"] t cl(1,4) n by (simp add: m_def)
  qed
qed

section \<open>The image a crash leaves\<close>

lemma open_new:
  assumes old: "metaIn img (1 - n) = Inr m0" and n: "n < 2" and h: "PageBytes + MetaBytes \<le> length img"
    and m: "meta_ok m" "TxID m = TxID m0 + 1"
  shows "openImage (overwrite img (n * PageBytes) (metaImage n m)) = Inr (m, 1 - n)
    \<and> metaIn (overwrite img (n * PageBytes) (metaImage n m)) n = Inr m"
proof -
  let ?img = "overwrite img (n * PageBytes) (metaImage n m)"
  have l: "length (metaImage n m) = 256" using meta_image_segs(1) [OF m(1)] .
  have "seg ?img (n * 4096) (n * 4096 + 256) = metaImage n m"
    using seg_overwrite_same [of img "n * 4096" "metaImage n m"] l by (simp add: layout)
  then have new: "metaIn ?img n = Inr m"
    using parse_metaImage [OF m(1), of n] n h l by (auto simp: metaIn_def Let_def layout)
  have "seg ?img ((1 - n) * 4096) ((1 - n) * 4096 + 256) = seg img ((1 - n) * 4096) ((1 - n) * 4096 + 256)"
    using n h l by (intro seg_overwrite_disjoint) (auto simp: layout)
  then have "metaIn ?img (1 - n) = Inr m0"
    using old h n l by (auto simp: metaIn_def Let_def layout split: if_splits)
  with new n m(2) show ?thesis
    by (cases n) (auto simp: openImage_def chooseMeta_def)
qed

lemma open_after_land:
  assumes "metaIn img (1 - n) = Inr m0" "n < 2" "PageBytes + MetaBytes \<le> length img" "meta_ok m" "TxID m = TxID m0 + 1"
    and "durable d = img" "pending d = [(n * PageBytes, metaImage n m)]"
  shows "durable (land d) = img \<or>
    durable (land d) = overwrite img (n * PageBytes) (metaImage n m) \<and> openImage (durable (land d)) = Inr (m, 1 - n)
    \<and> metaIn (durable (land d)) n = Inr m"
proof -
  have "\<not> crossesSector (n * PageBytes) (length (metaImage n m))"
    using meta_image_segs(1) [OF assms(4), of n] assms(2) by (auto simp: crossesSector_def SectorBytes_def layout)
  from land_one_sector [OF assms(7) this] open_new [OF assms(1-5)] assms(6) show ?thesis by auto
qed

text \<open>
  What a crash after a commit leaves: the old state, if the commit did not report success, or
  the new one.
\<close>

lemma commit_crash:
  assumes c: "crash_ready vis st" and k: "Commit rt st = (res, st')"
    and n: "rt < 2 ^ 64" "TxID (meta st) + 1 < 2 ^ 64" "PageCount (meta st') < 2 ^ 64"
  obtains (old) "res \<noteq> Inr ()" "sameState (vis (TxID (meta st))) (durable (disk st)) (durable (land (disk st')))"
    | (new) m head where "openImage (durable (land (disk st'))) = Inr (m, 1 - nextMeta st)"
        "metaIn (durable (land (disk st'))) (nextMeta st) = Inr m"
        "durable (land (disk st')) = current (disk st')" "m = newMeta st rt head (PageCount (meta st'))"
        "res = Inr () \<longrightarrow> m = meta st' \<and> nextMeta st' = 1 - nextMeta st \<and> committed st' = PageCount m
           \<and> pending (disk st') = [] \<and> durable (disk st') = current (disk st') \<and> faults (disk st') = faults (disk st)"
proof -
  let ?V = "vis (TxID (meta st))"
  obtain head d where hd: "head = 0 \<or> head < PageCount (meta st')" and w: "wrote ?V (disk st) d"
    and cd: "commit_disk d (metaWrite st (newMeta st rt head (PageCount (meta st')))) (res = Inr ()) (disk st')"
    and fin: "res = Inr () \<longrightarrow> meta st' = newMeta st rt head (PageCount (meta st')) \<and> nextMeta st' = 1 - nextMeta st
       \<and> committed st' = PageCount (meta st')"
    by (rule Commit_stages [OF c k])
  let ?m = "newMeta st rt head (PageCount (meta st'))"
  note c' = c [unfolded crash_ready_def]
  have mok: "meta_ok ?m" using c' n hd by (auto simp: newMeta_def meta_ok_def)
  have tx: "TxID ?m = TxID (oldMeta st) + 1" by (simp add: newMeta_def oldMeta_def)
  have fl: "flight_ok ?V (pending d)" "durable d = durable (disk st)" using w c' by (auto simp: wrote_def)
  have "current d = replay (durable (disk st)) (pending d)"
    using wrote_coherent [OF w] c' fl(2) by (simp add: coherent_def)
  then have base: "sameState ?V (durable (disk st)) (current d)" using replay_same fl(1) c' by auto
  then have o: "metaIn (current d) (1 - nextMeta st) = Inr (oldMeta st)" "nextMeta st < 2" "PageBytes + MetaBytes \<le> length (current d)"
    using c' by (simp_all add: sameState_def holds_def)
  show thesis
    using cd
  proof cases
    case listing
    with land_same [of ?V d] fl c' old show ?thesis by simp
  next
    case synced
    with base old show ?thesis by (simp add: land_def)
  next
    case meta_in_flight
    then have "durable (land (disk st')) = current d \<or>
        durable (land (disk st')) = current (disk st') \<and> openImage (durable (land (disk st'))) = Inr (?m, 1 - nextMeta st)
        \<and> metaIn (durable (land (disk st'))) (nextMeta st) = Inr ?m"
      using open_after_land [OF o mok tx, of "disk st'"] by (simp add: metaWrite_def)
    with base meta_in_flight(1) old new show ?thesis by auto
  next
    case finished
    then have "durable (disk st') = overwrite (current d) (nextMeta st * PageBytes) (metaImage (nextMeta st) ?m)"
      by (simp add: metaWrite_def)
    with finished open_new [OF o mok tx] w new [of ?m head] fin show ?thesis
      by (simp add: land_def wrote_def)
  qed
qed

section \<open>The machine\<close>

text \<open>
  A file from its creation on, through any number of transactions. The client's part of the
  bargain: it frees only pages in use, writes only pages of its transaction, and commits a tree all
  of whose pages it has written. The disk may tear and reorder what is in flight but does not lie
  about a sync.
\<close>

inductive live :: "(nat \<Rightarrow> nat set) \<Rightarrow> pager \<Rightarrow> bool" for vis where
  create: "CreateWith C (NewSim r fl) pages key rnd = (Inr (), st) \<Longrightarrow> LyingSync fl \<le> 0
     \<Longrightarrow> (\<And>s n. length (makeCheck C key s n) = length n + TagBytes) \<Longrightarrow> vis (TxID (meta st)) = {} \<Longrightarrow> live vis st"
| allocate: "live vis st \<Longrightarrow> Allocate st = (res, st') \<Longrightarrow> live vis st'"
| free: "live vis st \<Longrightarrow> freeable st pid \<Longrightarrow> live vis (Free pid st)"
| write_page: "live vis st \<Longrightarrow> Dirty st (PID p) \<Longrightarrow> Write p st = (res, st') \<Longrightarrow> live vis st'"
| snapshot: "live vis st \<Longrightarrow> Snapshot st = (s, st') \<Longrightarrow> live vis st'"
| release: "live vis st \<Longrightarrow> Release s st = (s', st') \<Longrightarrow> live vis st'"
| commit: "live vis st \<Longrightarrow> Commit rt st = (Inr (), st') \<Longrightarrow> vis (TxID (meta st')) \<subseteq> usable st'
     \<Longrightarrow> holds (vis (TxID (meta st'))) (current (disk st'))
     \<Longrightarrow> rt < 2 ^ 64 \<Longrightarrow> TxID (meta st') < 2 ^ 64 \<Longrightarrow> PageCount (meta st') < 2 ^ 64 \<Longrightarrow> live vis st'"

lemma Allocate_meta: "Allocate st = (res, st') \<Longrightarrow> \<exists>n. meta st' = (meta st)\<lparr>PageCount := n\<rparr>"
  by (auto simp: Allocate_def Let_def split: if_splits intro: exI [of _ "PageCount (meta st)"])

lemma crash_ready_frame:
  assumes "crash_ready vis st" "\<exists>n. meta st' = (meta st)\<lparr>PageCount := n\<rparr>" "committed st' = committed st"
    "nextMeta st' = nextMeta st" "reserved st' = reserved st" "led st' = led st"
    and "visible_safe vis st'" "list_ok st'" "wrote (vis (TxID (meta st))) (disk st) (disk st')"
  shows "crash_ready vis st'"
  using assms wrote_coherent [OF assms(9)]
  by (auto simp: crash_ready_def oldMeta_def wrote_def)

lemma same_disk_wrote: "disk st' = disk st \<Longrightarrow> wrote V (disk st) (disk st')"
  by simp

lemma Write_crash_ready:
  assumes c: "crash_ready vis st" and d: "Dirty st (PID p)" and w: "Write p st = (res, st')"
  shows "crash_ready vis st'"
proof -
  note a = Write_anchor [OF w]
  have s: "visible_safe vis st" "list_ok st" "reserved st = 2" using c by (simp_all add: crash_ready_def)
  have "PID p \<notin> vis (TxID (meta st))" by (rule Dirty_outside [OF s(1) d]) (simp add: anchors_def)
  then have "wrote (vis (TxID (meta st))) (disk st) (disk st')" using Write_wrote [OF w] s(3) by simp
  moreover have "\<exists>n. meta st' = (meta st)\<lparr>PageCount := n\<rparr>"
    using a by (auto intro: exI [of _ "PageCount (meta st)"])
  moreover have "visible_safe vis st'" using frame_safe [OF s(1)] a by simp
  moreover have "list_ok st'" using s(2) a by (simp add: list_ok_def FreeSet_def same_anchor_def)
  ultimately show ?thesis using crash_ready_frame [OF c] a by (simp add: same_anchor_def)
qed

lemma Free_crash_ready:
  assumes c: "crash_ready vis st" and f: "freeable st pid"
  shows "crash_ready vis (Free pid st)"
proof (rule crash_ready_frame [OF c])
  have s: "visible_safe vis st" "list_ok st" using c by (simp_all add: crash_ready_def)
  show "visible_safe vis (Free pid st)" "list_ok (Free pid st)" using Free_safe Free_list_ok s f by auto
  show "\<exists>n. meta (Free pid st) = (meta st)\<lparr>PageCount := n\<rparr>"
    using Free_fields(4) by (auto intro: exI [of _ "PageCount (meta st)"])
qed (use Free_anchor [of st pid] in \<open>simp_all add: same_anchor_def\<close>)

lemma Allocate_crash_ready:
  assumes c: "crash_ready vis st" and a: "Allocate st = (res, st')"
  shows "crash_ready vis st'"
proof (rule crash_ready_frame [OF c Allocate_meta [OF a]])
  have s: "visible_safe vis st" "list_ok st" using c by (simp_all add: crash_ready_def)
  show "visible_safe vis st'" using a s(1) by (cases res) (auto intro: Allocate_safe Allocate_error_safe)
  show "list_ok st'" by (rule Allocate_list_ok(1) [OF s(2) a])
qed (use Allocate_anchor [OF a] in \<open>simp_all add: same_anchor_def\<close>)

lemma readers_crash_ready:
  assumes c: "crash_ready vis st" and "visible_safe vis st'" "\<exists>r. st' = st\<lparr>readers := r\<rparr>"
  shows "crash_ready vis st'"
proof -
  obtain r where st': "st' = st\<lparr>readers := r\<rparr>" using assms(3) by blast
  have "list_ok st'" using c by (auto simp: st' crash_ready_def list_ok_def FreeSet_def)
  with c assms(2) show ?thesis by (auto simp: st' crash_ready_def oldMeta_def)
qed


lemma Commit_list_ok:
  assumes ok: "list_ok st" and c: "Commit rt st = (Inr u, st')"
  shows "list_ok st'"
  using c
proof (cases rule: Commit_Inr)
  case (1 head ids s1)
  obtain s0 where s0: "takeListPages [] (rollGarbage st) = (Inr ids, s0)" "same_anchor s0 s1" "free s1 = free s0"
    "taken s1 = taken s0" "meta s1 = meta s0"
    by (rule writeFreelist_Inr [OF 1(2)])
  have t: "list_ok s0" "distinct ids" "set ids \<inter> FreeSet s0 = {}" "set ids \<subseteq> {reserved s0..<PageCount (meta s0)}"
    using takeListPages_ok [OF s0(1) rollGarbage_list_ok(1) [OF ok]] by auto
  note d = list_okD [OF t(1)]
  have f: "FreeSet st' = FreeSet s0" "reserved st' = reserved s0" "PageCount (meta st') = PageCount (meta s0)"
    using 1 s0 by (simp_all add: FreeSet_def same_anchor_def)
  have fl: "ready (free st') = ready (free s0)" "fpending (free st') = fpending (free s0)" "chain (free st') = ids"
    "freeing (free st') = freeing (free s0)" using 1 s0 by simp_all
  show ?thesis
  proof (rule list_okI)
    show "distinct (listed (free st'))" using d(2) fl by (simp add: listed_def)
    show "set (chain (free st')) \<inter> set (ready (free st')) = {}" using t(3) fl by (auto simp: FreeSet_def)
    show "set xs \<inter> set (chain (free st')) = {}" if "(n, xs) \<in> set (fpending (free st'))" for n xs
      using t(3) fl that by (fastforce simp: FreeSet_def)
  qed (use d t f fl 1 s0 in \<open>auto simp: same_anchor_def\<close>)
qed

lemma list_anchor:
  assumes "writeFreelist (rollGarbage st) = (Inr (head, ids), s1)"
  shows "same_anchor st s1"
proof -
  obtain s0 where s0: "takeListPages [] (rollGarbage st) = (Inr ids, s0)" "same_anchor s0 s1"
    by (rule writeFreelist_Inr [OF assms])
  have "same_anchor (rollGarbage st) s0" using takeListPages_anchor [OF s0(1)] by simp
  with s0(2) rollGarbage_anchor [of st] show ?thesis by (blast intro: same_anchor_trans)
qed

lemma Commit_frame:
  assumes "Commit rt st = (Inr u, st')"
  shows "TxID (meta st') = TxID (meta st) + 1" "led st' = led st" "reserved st' = reserved st" "cipher st' = cipher st"
    "readers st' = readers st"
  using assms by (cases rule: Commit_Inr; auto dest: list_anchor simp: same_anchor_def)+

lemma land_no_pending: "pending d = [] \<Longrightarrow> land d = d"
  by (simp add: land_def)

lemma Commit_crash_ready:
  assumes c: "crash_ready vis st" and k: "Commit rt st = (Inr (), st')"
    and n: "rt < 2 ^ 64" "TxID (meta st') < 2 ^ 64" "PageCount (meta st') < 2 ^ 64"
    and v: "vis (TxID (meta st')) \<subseteq> usable st'" "holds (vis (TxID (meta st'))) (current (disk st'))"
  shows "crash_ready vis st'"
proof -
  note c' = c [unfolded crash_ready_def]
  have tx: "TxID (meta st) + 1 < 2 ^ 64" "led st' = led st" "reserved st' = reserved st"
    using Commit_frame [OF k] n(2) by simp_all
  have vs: "visible_safe vis st'" using c' Commit_safe [OF _ k] v(1) by (simp add: usable_def)
  have lo: "list_ok st'" using c' Commit_list_ok [OF _ k] by blast
  show ?thesis
  proof (cases rule: commit_crash [OF c k n(1) tx(1) n(3)])
    case 1
    then show ?thesis by simp
  next
    case (2 m head)
    then have d: "meta st' = m" "nextMeta st' = 1 - nextMeta st" "committed st' = PageCount m" "pending (disk st') = []"
      "durable (disk st') = current (disk st')" "faults (disk st') = faults (disk st)" by auto
    have o: "oldMeta st' = m" using d by (simp add: oldMeta_def)
    have "1 - nextMeta st' = nextMeta st" using c' d(2) by (auto simp: less_2_cases_iff)
    moreover have "Salt m = Salt (meta st)" "Check m = Check (meta st)" by (simp_all add: 2(4) newMeta_def)
    ultimately show ?thesis
      using 2(1,2) c' d(2-) o vs lo v(2) tx(2,3) by (simp add: crash_ready_def coherent_def land_no_pending d(1))
  qed
qed


lemma both_slots:
  assumes "meta_ok m"
  defines "img \<equiv> overwrite (overwrite [] 0 (metaImage 0 m)) PageBytes (metaImage 1 m)"
  shows "metaIn img 0 = Inr m" "metaIn img 1 = Inr m" "openImage img = Inr (m, 1)" "length img = 4352"
proof -
  have l: "length (metaImage 0 m) = 256" "length (metaImage 1 m) = 256"
    using meta_image_segs(1) [OF assms(1)] by auto
  have g: "seg img 0 256 = metaImage 0 m" "seg img 4096 4352 = metaImage 1 m"
    using seg_overwrite_same [of "[]" 0 "metaImage 0 m"]
      seg_overwrite_disjoint [of 256 "overwrite [] 0 (metaImage 0 m)" 4096 "metaImage 1 m" 0]
      seg_overwrite_same [of "overwrite [] 0 (metaImage 0 m)" 4096 "metaImage 1 m"] l by (simp_all add: img_def layout)
  show len: "length img = 4352" using l by (simp add: img_def layout)
  then have "img \<noteq> []" by auto
  with len show mi: "metaIn img 0 = Inr m" "metaIn img 1 = Inr m"
    using g parse_metaImage [OF assms(1), of 0] parse_metaImage [OF assms(1), of 1] by (simp_all add: metaIn_def Let_def layout)
  show "openImage img = Inr (m, 1)" unfolding openImage_def mi by (simp add: chooseMeta_def)
qed

lemma Create_crash_ready:
  assumes k: "CreateWith C (NewSim r fl) pages key rnd = (Inr (), st)" and fl: "LyingSync fl \<le> 0"
    and v: "vis (TxID (meta st)) = {}" and sec: "\<And>s n. length (makeCheck C key s n) = length n + TagBytes"
  shows "crash_ready vis st"
proof -
  define s0 where "s0 = (let st = (newPager (NewSim r fl) pages rnd)\<lparr>meta := zeroMeta\<lparr>TxID := 1, PageCount := 2\<rparr>\<rparr> in
     if key = [] then st
     else let (salt, st) = randRead SaltBytes st; (nonce, st) = randRead NonceBytes st in
       st\<lparr>meta := (meta st)\<lparr>Salt := salt, Check := makeCheck C key salt nonce, Encrypted := True\<rparr>,
          cipher := Some (page_aead C key salt)\<rparr>)"
  have eq: "CreateWith C (NewSim r fl) pages key rnd =
      bnd (writeMeta 0 (meta s0)) (\<lambda>_. bnd (writeMeta 1 (meta s0)) (\<lambda>_. bnd (onFile Sync) (\<lambda>_.
           modify (\<lambda>st. st\<lparr>nextMeta := 0, committed := PageCount (meta st)\<rparr>)))) s0"
    unfolding CreateWith_def s0_def Let_def ..
  have z: "TxID (meta s0) = 1" "PageCount (meta s0) = 2" "taken s0 = {}" "readers s0 = []" "free s0 = newFreelist"
    "disk s0 = NewSim r fl" "reserved s0 = 2" "led s0 = False" "meta_ok (meta s0)"
    using sec by (simp_all add: s0_def newPager_def Let_def randRead_def meta_ok_def zeroMeta_def)
  let ?m = "meta s0"
  from k obtain s1 s2 s3 where s: "writeMeta 0 ?m s0 = (Inr (), s1)" "writeMeta 1 ?m s1 = (Inr (), s2)"
    "onFile Sync s2 = (Inr (), s3)" "st = s3\<lparr>nextMeta := 0, committed := PageCount (meta s3)\<rparr>"
    unfolding eq by (elim bnd_InrE) simp
  obtain n1 d1 where d1: "WriteAt (metaImage 0 ?m) (int (0 * PageBytes)) (NewSim r fl) = (Inr n1, d1)" "s1 = s0\<lparr>disk := d1\<rparr>"
    using writeMeta_Inr [OF s(1)] z(6) by auto
  obtain n2 d2 where d2: "WriteAt (metaImage 1 ?m) (int (1 * PageBytes)) d1 = (Inr n2, d2)" "s2 = s1\<lparr>disk := d2\<rparr>"
    using writeMeta_Inr [OF s(2)] d1(2) by auto
  note w1 = WriteAt_Inr [OF d1(1)] and w2 = WriteAt_Inr [OF d2(1)]
  let ?img = "overwrite (overwrite [] 0 (metaImage 0 ?m)) PageBytes (metaImage 1 ?m)"
  have "current d2 = ?img" "faults d2 = fl" using w1(1,6) w2(1,6) by (simp_all add: NewSim_def)
  with s(3) d1(2) d2(2) Sync_disk [of d2] fl have d3: "disk s3 = d2\<lparr>durable := ?img, pending := []\<rparr>" "s3 = s0\<lparr>disk := disk s3\<rparr>"
    by (auto simp: onFile_def split: prod.splits)
  note mi = both_slots [OF z(9)]
  have "meta st = ?m" "oldMeta st = ?m" "durable (disk st) = ?img" "current (disk st) = ?img" "pending (disk st) = []"
    "faults (disk st) = fl" "nextMeta st = 0" "reserved st = 2" "led st = False" "free st = newFreelist" "taken st = {}" "committed st = 2"
    using s(4) d3 z \<open>current d2 = ?img\<close> \<open>faults d2 = fl\<close> by (simp_all add: oldMeta_def)
  moreover have "list_ok st" using calculation z by (simp add: list_ok_def FreeSet_def newFreelist_def listed_def)
  ultimately show ?thesis
    using CreateWith_safe [of C "NewSim r fl" pages key rnd st vis, OF k v] fl v mi z by (simp add: crash_ready_def coherent_def holds_def meta_ok_def layout)
qed


lemma live_ready:
  assumes "live vis st"
  shows "crash_ready vis st"
  using assms
proof (induction rule: live.induct)
  case (create C r fl pages key rnd st)
  then show ?case using Create_crash_ready by blast
next
  case (allocate st res st')
  then show ?case by (blast intro: Allocate_crash_ready)
next
  case (free st pid)
  then show ?case by (simp add: Free_crash_ready)
next
  case (write_page st p res st')
  then show ?case by (blast intro: Write_crash_ready)
next
  case (snapshot st s st')
  then show ?case using Snapshot_safe [of vis st]
    by (intro readers_crash_ready [OF snapshot.IH]) (auto simp: Snapshot_def Let_def crash_ready_def)
next
  case (release st s s' st')
  have "\<exists>r. st' = st\<lparr>readers := r\<rparr>"
    using release(2) by (auto simp: Release_def split: if_splits intro: exI [of _ "readers st"])
  with release show ?case using Release_safe [of vis st s]
    by (intro readers_crash_ready [OF release.IH]) (auto simp: crash_ready_def)
next
  case (commit st rt st')
  then show ?case by (blast intro: Commit_crash_ready)
qed

section \<open>Properties\<close>

lemma Crash_image:
  "durable (fst (Crash src d)) = durable (land d)" "current (fst (Crash src d)) = durable (land d)"
  "closed (fst (Crash src d)) = False" "cut (fst (Crash src d)) = False"
  by (simp_all add: Crash_def Let_def NewSim_def split: prod.splits)

text \<open>
  C2. Committing is atomic. Whatever becomes of a \<^verbatim>\<open>Commit\<close> - it returns, it fails, the power goes at any
  write - and whatever the crash then does with the writes in flight, the file opens. If it opens at
  the transaction before, that is only after a commit that did not report success, and every page of
  that transaction's tree holds the bytes it held; otherwise it opens at the new transaction, with
  its root, and the whole file is as the writer saw it.
\<close>

theorem commit_survives_any_crash:
  assumes "live vis st" "Commit rt st = (res, st')"
    and "rt < 2 ^ 64" "TxID (meta st) + 1 < 2 ^ 64" "PageCount (meta st') < 2 ^ 64"
  shows "\<exists>p. loadMeta (newPager (fst (Crash src (disk st'))) pages rnd) = (Inr (), p) \<and>
    (res \<noteq> Inr () \<and> meta p = (meta st)\<lparr>PageCount := committed st\<rparr>
       \<and> (\<forall>pid \<in> vis (TxID (meta st)). pageSeg (current (disk p)) pid = pageSeg (durable (disk st)) pid)
     \<or> TxID (meta p) = TxID (meta st) + 1 \<and> Root (meta p) = rt \<and> PageCount (meta p) = PageCount (meta st')
       \<and> current (disk p) = current (disk st'))"
proof -
  have c: "crash_ready vis st" using assms(1) by (rule live_ready)
  let ?d = "fst (Crash src (disk st'))"
  let ?st = "newPager ?d pages rnd"
  note ci = Crash_image [of src "disk st'"]
  have lm: "loadMeta ?st = (case openImage (durable (land (disk st'))) of Inl e \<Rightarrow> (Inl e, ?st)
       | Inr (m, n) \<Rightarrow> (Inr (), ?st\<lparr>meta := m, nextMeta := n, committed := PageCount m\<rparr>))"
    using loadMeta_openImage [of ?st] ci by (simp add: newPager_def)
  show ?thesis
  proof (cases rule: commit_crash [OF c assms(2-5)])
    case 1
    then obtain n where "openImage (durable (land (disk st'))) = Inr (oldMeta st, n)"
      using c sameState_open by (fastforce simp: crash_ready_def)
    with 1 lm ci show ?thesis by (auto simp: newPager_def oldMeta_def sameState_def)
  next
    case (2 m head)
    with lm ci show ?thesis by (simp add: newPager_def newMeta_def)
  qed
qed

text \<open>
  C11. A transaction that is never committed leaves no trace. At any moment of a transaction, whatever
  a crash does with the writes in flight, the file opens at the last commit, and every page of its
  tree holds the bytes it held.
\<close>

theorem crash_inside_transaction:
  assumes "live vis st"
  shows "\<exists>p. loadMeta (newPager (fst (Crash src (disk st))) pages rnd) = (Inr (), p)
    \<and> meta p = (meta st)\<lparr>PageCount := committed st\<rparr>
    \<and> (\<forall>pid \<in> vis (TxID (meta st)). pageSeg (current (disk p)) pid = pageSeg (durable (disk st)) pid)"
proof -
  note c = live_ready [OF assms, unfolded crash_ready_def]
  let ?st = "newPager (fst (Crash src (disk st))) pages rnd"
  have s: "sameState (vis (TxID (meta st))) (durable (disk st)) (durable (land (disk st)))"
    using c by (intro land_same) simp_all
  with c obtain n where "openImage (durable (land (disk st))) = Inr (oldMeta st, n)"
    using sameState_open by fastforce
  then show ?thesis
    using loadMeta_openImage [of ?st] Crash_image [of src "disk st"] s by (auto simp: newPager_def oldMeta_def sameState_def)
qed


section \<open>Opening again\<close>

lemma Commit_done:
  assumes c: "crash_ready vis st" and k: "Commit rt st = (Inr (), st')"
  obtains head ids s1 where "writeFreelist (rollGarbage st) = (Inr (head, ids), s1)"
    "meta st' = newMeta st rt head (PageCount (meta s1))" "free st' = (free s1)\<lparr>chain := ids, seen := {}\<rparr>"
    "current (disk st') = overwrite (current (disk s1)) (nextMeta st * PageBytes) (metaImage (nextMeta st) (meta st'))"
    "pending (disk st') = []" "durable (disk st') = current (disk st')"
  using k
proof (cases rule: Commit_Inr)
  case (1 head ids s1)
  note cl = commit_list [OF c 1(2)]
  have ly: "LyingSync (faults (disk s1)) \<le> 0" using c cl(1) by (simp add: crash_ready_def wrote_def)
  let ?m = "newMeta st rt head (PageCount (meta s1))"
  have "bnd (onFile Sync) (\<lambda>_. bnd (\<lambda>st. writeMeta (nextMeta st) ?m st) (\<lambda>_. bnd (onFile Sync) (\<lambda>_.
          modify (\<lambda>st. st\<lparr>meta := ?m, nextMeta := 1 - nextMeta st, committed := PageCount ?m,
                         free := (free st)\<lparr>chain := ids, seen := {}\<rparr>, taken := {}\<rparr>)))) s1 = (Inr (), st')"
    using k 1(1,2) by (simp add: Commit_def Let_def newMeta_def)
  note t = commit_tail [OF this ly]
  have m: "meta st' = ?m" using t by (simp add: newMeta_def)
  have "commit_disk (disk s1) (metaWrite s1 ?m) True (disk st')" using t by (simp add: newMeta_def)
  then have "current (disk st') = overwrite (current (disk s1)) (nextMeta st * PageBytes) (metaImage (nextMeta st) (meta st'))"
    "pending (disk st') = []" "durable (disk st') = current (disk st')"
    using cl(4) m by (cases; simp add: metaWrite_def)+
  with that 1 m show ?thesis by blast
qed

lemma view_bounds:
  assumes "viewPage st q = Some x"
  shows "q * PageBytes + PageBytes \<le> length (current (disk st))" "q < PageCount (meta st)"
proof -
  obtain p where "Read st q = Inr p" using assms by (cases x) (auto simp: viewPage_Some)
  then obtain data where d: "fst (ReadAt PageBytes (int (q * PageBytes)) (disk st)) = Inr data" "q < PageCount (meta st)"
    by (auto simp: Read_Inr)
  have n: "0 < PageBytes" by (simp add: layout)
  show "q * PageBytes + PageBytes \<le> length (current (disk st))"
    using d(1) by (simp only: ReadAt_Inr [OF n])
  show "q < PageCount (meta st)" by (rule d(2))
qed

lemma view_transfer:
  assumes v: "viewPage st q = Some x" and s: "pageSeg (current (disk st')) q = pageSeg (current (disk st)) q"
    and "length (current (disk st)) \<le> length (current (disk st'))" "\<not> closed (disk st')" "\<not> cut (disk st')"
    and "cipher st' = cipher st" "q < PageCount (meta st')"
  shows "viewPage st' q = Some x"
proof -
  obtain p where p: "Read st q = Inr p" "x = (Kind p, Payload p)"
    using v by (cases x) (auto simp: viewPage_Some)
  from p(1) obtain data plain where d: "fst (ReadAt PageBytes (int (q * PageBytes)) (disk st)) = Inr data"
    "(case cipher st of None \<Rightarrow> Inr data | Some c \<Rightarrow> decrypt c data) = Inr plain"
    "verify plain q = Inr ()" "p = \<lparr>PID = q, Kind = plain ! offKind, Data = plain\<rparr>"
    by (auto simp: Read_Inr)
  have n: "0 < PageBytes" by (simp add: layout)
  have "fst (ReadAt PageBytes (int (q * PageBytes)) (disk st')) = Inr data"
    using d(1) s assms(3-5) by (simp only: ReadAt_Inr [OF n]) (simp add: pageSeg_def)
  with d assms(6,7) have "Read st' q = Inr p" by (auto simp: Read_Inr)
  with p(2) show ?thesis by (simp add: viewPage_def)
qed

text \<open>Opening an image under the key its cipher was derived from, with the free list on its pages.\<close>

lemma OpenWith_stored:
  assumes o: "openImage (current d) = Inr (m, n)" "\<not> closed d" "\<not> cut d" and u: "unlock C key m = Inr c"
    and l: "listReadable ((newPager d pages rnd)\<lparr>meta := m, nextMeta := n, committed := PageCount m, cipher := c\<rparr>) ids es"
    "length es \<le> length ids * 252" "\<forall>(t, pid) \<in> set es. 2 \<le> pid" "Freelist m = nextOf ids 0"
  shows "OpenWith C d pages key rnd = (Inr (), (newPager d pages rnd)\<lparr>meta := m, nextMeta := n, committed := PageCount m,
    cipher := c, free := newFreelist\<lparr>ready := map snd es, chain := ids\<rparr>\<rparr>)"
proof -
  let ?s = "(newPager d pages rnd)\<lparr>meta := m, nextMeta := n, committed := PageCount m\<rparr>"
  have "loadMeta (newPager d pages rnd) = (Inr (), ?s)"
    using loadMeta_openImage [of "newPager d pages rnd"] o by (simp add: newPager_def)
  moreover have "readFreelist (Freelist m) (?s\<lparr>cipher := c\<rparr>) =
     (Inr (), (?s\<lparr>cipher := c\<rparr>)\<lparr>free := newFreelist\<lparr>ready := map snd es, chain := ids\<rparr>\<rparr>)"
    using readFreelist_stored [OF l(1-3)] l(4) by simp
  ultimately show ?thesis using u by (simp add: OpenWith_def)
qed

lemma unlock_newMeta: "unlock C key (newMeta st rt head n) = unlock C key (meta st)"
  by (simp add: unlock_def newMeta_def cong: sum.case_cong)

lemma reopened_state:
  assumes c: "crash_ready vis st" and "Commit rt st = (Inr (), st')" "disk_ok st" "cipher_ok st"
    and "unlock C key (meta st) = Inr (cipher st)"
    and "rt < 2 ^ 64" "TxID (meta st) + 1 < 2 ^ 64" "PageCount (meta st') < 2 ^ 64"
  obtains rs where "OpenWith C (fst (Crash src (disk st'))) pages key rnd =
      (Inr (), (newPager (fst (Crash src (disk st'))) pages rnd)\<lparr>meta := meta st', nextMeta := 1 - nextMeta st,
         committed := PageCount (meta st'), cipher := cipher st, free := newFreelist\<lparr>ready := rs, chain := chain (free st')\<rparr>\<rparr>)"
    "set rs = FreeSet st'" "distinct rs"
    "\<And>q x. viewPage st' q = Some x \<Longrightarrow> viewPage ((newPager (fst (Crash src (disk st'))) pages rnd)\<lparr>meta := meta st', nextMeta := 1 - nextMeta st,
         committed := PageCount (meta st'), cipher := cipher st\<rparr>) q = Some x"
proof -
  note c' = c [unfolded crash_ready_def]
  obtain head ids s1 where w: "writeFreelist (rollGarbage st) = (Inr (head, ids), s1)"
    and m: "meta st' = newMeta st rt head (PageCount (meta s1))" and f: "free st' = (free s1)\<lparr>chain := ids, seen := {}\<rparr>"
    and cur: "current (disk st') = overwrite (current (disk s1)) (nextMeta st * PageBytes) (metaImage (nextMeta st) (meta st'))"
    and pd: "pending (disk st') = []" "durable (disk st') = current (disk st')"
    by (rule Commit_done [OF c assms(2)])
  have n: "PageCount (meta s1) < 2 ^ 64" "PageCount (meta st') = PageCount (meta s1)" using assms(8) m by (simp_all add: newMeta_def)
  have g: "list_ok (rollGarbage st)" "freeing (free (rollGarbage st)) = []" using rollGarbage_list_ok c' by auto
  have ra: "same_anchor st (rollGarbage st)" "disk (rollGarbage st) = disk st" using rollGarbage_anchor by auto
  then have "disk_ok (rollGarbage st)" "cipher_ok (rollGarbage st)" "0 < reserved (rollGarbage st)"
    using assms(3,4) c' by (simp_all add: disk_ok_def cipher_ok_def same_anchor_def)
  note st = writeFreelist_stored [OF w g this n(1)]
  have r1: "reserved s1 = 2" "cipher s1 = cipher st" using list_anchor [OF w] c' by (simp_all add: same_anchor_def)
  let ?d = "fst (Crash src (disk st'))"
  have d: "current ?d = current (disk st')" "\<not> closed ?d" "\<not> cut ?d"
    using Crash_image [of src "disk st'"] pd by (simp_all add: land_no_pending)
  have o: "openImage (current ?d) = Inr (meta st', 1 - nextMeta st)"
    by (cases rule: commit_crash [OF c assms(2,6-8)]) (use d(1) pd in \<open>simp_all add: land_no_pending\<close>)
  let ?q = "(newPager ?d pages rnd)\<lparr>meta := meta st', nextMeta := 1 - nextMeta st, committed := PageCount (meta st'), cipher := cipher st\<rparr>"
  have dq: "disk ?q = ?d" by (simp add: newPager_def)
  let ?es = "listEntries (free s1)"
  have ml: "length (metaImage (nextMeta st) (meta st')) = 256"
  proof (rule meta_image_segs(1))
    show "meta_ok (meta st')"
      using m c' assms(6,7) commit_list(6) [OF c w refl] n by (auto simp: newMeta_def meta_ok_def)
  qed
  have view: "viewPage ?q q = Some x" if "viewPage s1 q = Some x" "2 \<le> q" "q < PageCount (meta st')" for q x
  proof (rule view_transfer [OF that(1)])
    have "q * PageBytes + PageBytes \<le> length (current (disk s1))"
      by (rule view_bounds(1) [OF that(1)])
    then show "pageSeg (current (disk ?q)) q = pageSeg (current (disk s1)) q"
      using d(1) cur ml that(2) c' dq by (auto simp: pageSeg_def layout intro!: seg_overwrite_disjoint)
  qed (use d cur r1 that(3) dq in simp_all)
  have "list_stored ?q ids ?es"
    unfolding list_stored_def
  proof (intro allI impI)
    fix i assume i: "i < length ids"
    have "ids ! i \<in> {reserved s1..<PageCount (meta s1)}" using st(9) nth_mem [OF i] by blast
    moreover have "viewPage s1 (ids ! i) = Some (KindFree, listPayload (nextOf ids (Suc i)) (chunk ?es i))"
      using st(2) i by (simp add: listReadable_def list_stored_def)
    ultimately show "viewPage ?q (ids ! i) = Some (KindFree, listPayload (nextOf ids (Suc i)) (chunk ?es i))"
      using view r1(1) n(2) by simp
  qed
  moreover have "reserved ?q = 2" "meta ?q = meta st'" by (simp_all add: newPager_def)
  ultimately have r: "listReadable ?q ids ?es" using st(2) r1(1) n by (simp add: listReadable_def)
  have two: "\<forall>(t, pid) \<in> set ?es. 2 \<le> pid" using st(2) r1(1) by (fastforce simp: listReadable_def)
  have u: "unlock C key (meta st') = Inr (cipher st)" using assms(5) m by (simp add: unlock_newMeta)
  have fl: "Freelist (meta st') = nextOf ids 0" using m st(3) by (simp add: newMeta_def)
  have op: "OpenWith C ?d pages key rnd = (Inr (), ?q\<lparr>free := newFreelist\<lparr>ready := map snd ?es, chain := ids\<rparr>\<rparr>)"
    by (rule OpenWith_stored [OF o d(2,3) u r st(4) two fl])
  have fs: "FreeSet st' = FreeSet s1" using f by (simp add: FreeSet_def)
  have rs: "set (map snd ?es) = FreeSet s1" using entries_all [OF st(1,6)] by simp
  have di: "distinct (map snd ?es)"
    using mset_eq_imp_distinct_iff [OF mset_listEntries [OF list_okD(1) [OF st(1)]]] list_okD(2) [OF st(1)] st(6)
    by (simp add: listed_def)
  have vw: "viewPage ?q q = Some x" if "viewPage st' q = Some x" for q x
    using d Commit_frame(4) [OF assms(2)] view_bounds(2) [OF that] dq by (intro view_transfer [OF that]) simp_all
  show thesis by (rule that [of "map snd ?es"]) (use op f fs rs di vw in simp_all)
qed


text \<open>
  C10. A commit that returned is there after any crash, ready to be used: with the key the file was
  open under, opening succeeds, at the very state the commit left; every page the writer could read is
  readable with the same contents, and the free list is the one the commit wrote, all of it ready.
\<close>

theorem reopen_after_commit:
  assumes "live vis st" "Commit rt st = (Inr (), st')" "disk_ok st" "cipher_ok st"
    and "unlock C key (meta st) = Inr (cipher st)"
    and "rt < 2 ^ 64" "TxID (meta st) + 1 < 2 ^ 64" "PageCount (meta st') < 2 ^ 64"
  shows "\<exists>p. OpenWith C (fst (Crash src (disk st'))) pages key rnd = (Inr (), p) \<and> meta p = meta st'
    \<and> set (ready (free p)) = FreeSet st' \<and> distinct (ready (free p)) \<and> FreeSet p = FreeSet st' \<and> chain (free p) = chain (free st')
    \<and> (\<forall>q x. 2 \<le> q \<and> viewPage st' q = Some x \<longrightarrow> viewPage p q = Some x)"
proof -
  let ?q = "(newPager (fst (Crash src (disk st'))) pages rnd)\<lparr>meta := meta st', nextMeta := 1 - nextMeta st,
         committed := PageCount (meta st'), cipher := cipher st\<rparr>"
  obtain rs where "OpenWith C (fst (Crash src (disk st'))) pages key rnd = (Inr (), ?q\<lparr>free := newFreelist\<lparr>ready := rs, chain := chain (free st')\<rparr>\<rparr>)"
    "set rs = FreeSet st'" "distinct rs" "\<And>q x. viewPage st' q = Some x \<Longrightarrow> viewPage ?q q = Some x"
    by (rule reopened_state [OF live_ready [OF assms(1)] assms(2-8), of src pages rnd]) blast
  then show ?thesis by (auto simp: FreeSet_def newFreelist_def)
qed


text \<open>A transaction on a fresh file, committed: the case the theorems above are applied to.\<close>

lemma live_example:
  obtains st st' where "live (\<lambda>_. {}) st" "Commit 2 st = (Inr (), st')" "TxID (meta st) = 1" "committed st = 2"
    "PageCount (meta st') = 3" "disk_ok st" "cipher_ok st" "unlock C [] (meta st) = Inr (cipher st)" "FreeSet st' = {}"
proof -
  let ?f = "\<lparr>TornWrite = 0, LyingSync = 0, ReorderWrites = False, PowerCutAfter = 0\<rparr>"
  let ?C = "\<lparr>page_aead = (\<lambda>_ _. \<lparr>aead_seal = (\<lambda>_ p _. p @ replicate 16 0), aead_open = (\<lambda>_ _ _. None)\<rparr>),
             check_aead = (\<lambda>_ _. \<lparr>aead_seal = (\<lambda>_ p _. p @ replicate 16 0), aead_open = (\<lambda>_ _ _. None)\<rparr>)\<rparr> :: crypto"
  obtain s0 s1 s2 where s: "CreateWith ?C (NewSim (\<lambda>_. 0) ?f) 0 [] (\<lambda>_. 0) = (Inr (), s0)" "Allocate s0 = (Inr 2, s1)"
    "Commit 2 s1 = (Inr (), s2)" "TxID (meta s0) = 1" "TxID (meta s2) = 2" "usable s2 = {..<3}" "readers s2 = []"
    "PageCount (meta s2) = 3" "free s2 = newFreelist" "maxPages s2 = 0" "disk_ok s1" "cipher s1 = None" "committed s1 = 2"
    "TxID (meta s1) = 1" "\<not> Encrypted (meta s1)"
    by (rule fresh_commit_steps [of "NewSim (\<lambda>_. 0) ?f" ?C "\<lambda>_. 0"]) (simp_all add: NewSim_def)
  have "live (\<lambda>_. {}) s0"
    by (rule live.create [OF s(1)]) (simp_all add: makeCheck_def layout)
  then have "live (\<lambda>_. {}) s1" using s(2) by (rule live.allocate)
  then show thesis
    by (rule that [OF _ s(3)]) (use s in \<open>simp_all add: cipher_ok_def unlock_def FreeSet_def newFreelist_def\<close>)
qed

theorem commit_survives_any_crash_witness:
  "\<exists>st st' p. live (\<lambda>_. {}) st \<and> Commit 2 st = (Inr (), st') \<and> TxID (meta st) = 1
     \<and> loadMeta (newPager (fst (Crash (\<lambda>_ _. 0) (disk st'))) 0 (\<lambda>_. 0)) = (Inr (), p) \<and> TxID (meta p) = 2 \<and> Root (meta p) = 2"
proof -
  obtain st st' where s: "live (\<lambda>_. {}) st" "Commit 2 st = (Inr (), st')" "TxID (meta st) = 1" "PageCount (meta st') = 3"
    using live_example by metis
  from commit_survives_any_crash [OF s(1,2), of "\<lambda>_ _. 0" 0 "\<lambda>_. 0"] s(3,4)
  obtain p where "loadMeta (newPager (fst (Crash (\<lambda>_ _. 0) (disk st'))) 0 (\<lambda>_. 0)) = (Inr (), p)"
    "TxID (meta p) = 2" "Root (meta p) = 2" by auto
  with s show ?thesis by blast
qed

theorem crash_inside_transaction_witness:
  "\<exists>st p. live (\<lambda>_. {}) st \<and> TxID (meta st) = 1
     \<and> loadMeta (newPager (fst (Crash (\<lambda>_ _. 0) (disk st))) 0 (\<lambda>_. 0)) = (Inr (), p) \<and> TxID (meta p) = 1 \<and> PageCount (meta p) = 2"
proof -
  obtain st st' where s: "live (\<lambda>_. {}) st" "TxID (meta st) = 1" "committed st = 2"
    using live_example by metis
  from crash_inside_transaction [OF s(1), of "\<lambda>_ _. 0" 0 "\<lambda>_. 0"] s(2,3)
  obtain p where "loadMeta (newPager (fst (Crash (\<lambda>_ _. 0) (disk st))) 0 (\<lambda>_. 0)) = (Inr (), p)"
    "TxID (meta p) = 1" "PageCount (meta p) = 2" by auto
  with s show ?thesis by blast
qed

theorem reopen_after_commit_witness:
  "\<exists>st st' p. live (\<lambda>_. {}) st \<and> Commit 2 st = (Inr (), st')
     \<and> OpenWith undefined (fst (Crash (\<lambda>_ _. 0) (disk st'))) 0 [] (\<lambda>_. 0) = (Inr (), p) \<and> meta p = meta st' \<and> FreeSet p = {}"
proof -
  obtain st st' where s: "live (\<lambda>_. {}) st" "Commit 2 st = (Inr (), st')" "TxID (meta st) = 1" "PageCount (meta st') = 3"
    "disk_ok st" "cipher_ok st" "unlock undefined [] (meta st) = Inr (cipher st)" "FreeSet st' = {}"
    using live_example by metis
  from reopen_after_commit [OF s(1,2,5,6,7), of "\<lambda>_ _. 0" 0 "\<lambda>_. 0"] s(3,4,8)
  obtain p where "OpenWith undefined (fst (Crash (\<lambda>_ _. 0) (disk st'))) 0 [] (\<lambda>_. 0) = (Inr (), p)"
    "meta p = meta st'" "FreeSet p = {}" by auto
  with s show ?thesis by blast
qed

end
