(* ===== verification/Btree_Tree.thy ===== *)
theory Btree_Tree
  imports Btree_Node Pager_Crash
begin

text \<open>
  The operations of the tree (\<^verbatim>\<open>internal/btree/tree.go\<close>) on the pager: reading a key, storing and
  removing one by writing new versions of the nodes on the way down, values too large for a leaf in
  chains of their own pages, and the two ordered walks.

  A walk down the tree has no bound in the code: on a page that is its own child it would not end.
  Here each takes the number of pages it may still go down, at first the number of pages in the file,
  and \<open>ErrDiverges\<close> stands for not ending; a tree has no page twice on a way down, so that it is never
  the answer on a tree.
\<close>

section \<open>Trees\<close>

record tree =
  pages :: pager
  troot :: nat

definition New :: "pager \<Rightarrow> tree" where
  "New st = \<lparr>pages = st, troot = Root (meta st)\<rparr>"

definition At_root :: "pager \<Rightarrow> nat \<Rightarrow> tree" where
  "At_root st rt = \<lparr>pages = st, troot = rt\<rparr>"

text \<open>An operation on the pages of a tree, and one that replaces the tree's root by its result.\<close>

definition onPages :: "(pager, 'a) op \<Rightarrow> (tree, 'a) op" where
  "onPages m t = (let (res, st) = m (pages t) in (res, t\<lparr>pages := st\<rparr>))"

definition setRoot :: "nat \<Rightarrow> (tree, unit) op" where
  "setRoot rt = modify (\<lambda>t. t\<lparr>troot := rt\<rparr>)"

text \<open>A computation that reads the pages and changes nothing.\<close>

definition look :: "(pager \<Rightarrow> err + 'a) \<Rightarrow> (pager, 'a) op" where
  "look f st = (f st, st)"

definition Commit_tree :: "(tree, unit) op" where
  "Commit_tree t = onPages (Commit (troot t)) t"

text \<open>
  The start of every walk: the page, and what it decodes to by its kind.
\<close>

datatype node_view = IsLeaf "kv list" | IsBranch branch

definition readNode :: "pager \<Rightarrow> nat \<Rightarrow> err + node_view" where
  "readNode st pid =
     (case Read st pid of
        Inl e \<Rightarrow> Inl e
      | Inr p \<Rightarrow>
          if Kind p = KindLeaf then
            (case decodeLeaf p of Inl e \<Rightarrow> Inl e | Inr entries \<Rightarrow> Inr (IsLeaf entries))
          else if Kind p = KindNode then
            (case decodeBranch p of Inl e \<Rightarrow> Inl e | Inr node \<Rightarrow> Inr (IsBranch node))
          else Inl ErrNotANode)"

section \<open>Values in chains of pages\<close>

definition chainNext :: "bytes \<Rightarrow> nat" where
  "chainNext payload = unbe (seg payload overflowNext (overflowNext + 8))"

definition chainLength :: "bytes \<Rightarrow> nat" where
  "chainLength payload = unbe (seg payload overflowLength (overflowLength + 4))"

function loadChain :: "pager \<Rightarrow> nat \<Rightarrow> bytes \<Rightarrow> nat \<Rightarrow> err + bytes" where
  "loadChain st want val pid =
     (if pid = 0 then (if length val \<noteq> want then Inl ErrBrokenChain else Inr val)
      else case Read st pid of
             Inl e \<Rightarrow> Inl e
           | Inr p \<Rightarrow>
               if Kind p \<noteq> KindBlob then Inl ErrBrokenChain
               else let len = chainLength (Payload p) in
                 if len = 0 \<or> len > overflowChunk \<or> length val + len > want then Inl ErrBrokenChain
                 else loadChain st want (val @ seg (Payload p) overflowHeader (overflowHeader + len))
                        (chainNext (Payload p)))"
  by pat_completeness auto

lemma Read_payload: "Read st pid = Inr p \<Longrightarrow> length (Payload p) = capacityBytes"
proof -
  assume "Read st pid = Inr p"
  then obtain data plain where d: "fst (ReadAt PageBytes (int (pid * PageBytes)) (disk st)) = Inr data"
    "(case cipher st of None \<Rightarrow> Inr data | Some c \<Rightarrow> decrypt c data) = Inr plain" "Data p = plain"
    by (auto simp: Read_Inr)
  have n: "0 < PageBytes" by (simp add: layout)
  have "length data = PageBytes" using d(1) by (simp only: ReadAt_Inr [OF n]) (auto simp: length_seg)
  moreover have "length plain = length data"
    using d(2) \<open>length data = PageBytes\<close> by (auto simp: decrypt_def Let_def layout split: option.splits)
  ultimately show ?thesis using d(3) by (simp add: Payload_def capacityBytes_def)
qed

termination loadChain
proof (relation "measure (\<lambda>(st, want, val, pid). want - length val)", simp, goal_cases)
  case (1 st want val pid p len)
  then have "length (Payload p) = capacityBytes" using Read_payload by metis
  with 1 show ?case by (auto simp: length_seg sizes layout)
qed

declare loadChain.simps [simp del]

definition load :: "pager \<Rightarrow> kv \<Rightarrow> err + bytes" where
  "load st e =
     (if \<not> overflows e then Inr (kv_value e) else loadChain st (unat (kv_length e)) [] (kv_head e))"

fun releaseChain :: "nat \<Rightarrow> nat \<Rightarrow> (pager, unit) op" where
  "releaseChain n pid st =
     (if pid = 0 then (Inr (), st)
      else case n of
        0 \<Rightarrow> (Inl ErrDiverges, st)
      | Suc n \<Rightarrow>
          (case Read st pid of
             Inl e \<Rightarrow> (Inl e, st)
           | Inr p \<Rightarrow>
               if Kind p \<noteq> KindBlob then (Inl ErrBrokenChain, st)
               else releaseChain n (chainNext (Payload p)) (Free pid st)))"

declare releaseChain.simps [simp del]

definition release :: "kv \<Rightarrow> (pager, unit) op" where
  "release e st = (if \<not> overflows e then (Inr (), st) else releaseChain (PageCount (meta st)) (kv_head e) st)"

definition chainPayload :: "nat \<Rightarrow> bytes \<Rightarrow> bytes" where
  "chainPayload next chnk =
     put (put (put (replicate (PageBytes - HeaderBytes) 0) overflowNext (be 8 next)) overflowLength (be 4 (length chnk)))
       overflowHeader chnk"

definition chainPage :: "nat \<Rightarrow> nat \<Rightarrow> bytes \<Rightarrow> page" where
  "chainPage pid next chnk = setPayload (NewPage pid KindBlob) (chainPayload next chnk)"

text \<open>The loop of \<^verbatim>\<open>writeOverflow\<close>, over the chunks that are left, last first.\<close>

fun writeChunks :: "bytes \<Rightarrow> nat \<Rightarrow> nat \<Rightarrow> (pager, nat) op" where
  "writeChunks val 0 next = ret next"
| "writeChunks val (Suc k) next =
     bnd Allocate (\<lambda>pid.
       bnd (Write (chainPage pid next (seg val (k * overflowChunk) (min (k * overflowChunk + overflowChunk) (length val)))))
         (\<lambda>_. writeChunks val k pid))"

definition writeOverflow :: "bytes \<Rightarrow> (pager, nat) op" where
  "writeOverflow val = writeChunks val (Suc ((length val - 1) div overflowChunk)) 0"

definition store :: "bytes \<Rightarrow> bytes \<Rightarrow> (pager, kv) op" where
  "store key val =
     (if length val \<le> MaxInline
      then ret \<lparr>kv_key = key, kv_value = val, kv_head = 0, kv_length = 0\<rparr>
      else bnd (writeOverflow val) (\<lambda>head.
             ret \<lparr>kv_key = key, kv_value = [], kv_head = head, kv_length = word_of_nat (length val)\<rparr>))"

section \<open>Writing nodes\<close>

definition place :: "nat \<Rightarrow> (pager, nat) op" where
  "place pid st =
     (if pid \<noteq> 0 \<and> Dirty st pid then (Inr pid, st)
      else Allocate (if pid \<noteq> 0 then Free pid st else st))"

definition writeLeaf :: "nat \<Rightarrow> kv list \<Rightarrow> (pager, nat) op" where
  "writeLeaf pos entries =
     bnd (place pos) (\<lambda>pid.
       case encodeLeaf (NewPage pid KindLeaf) entries of
         Inl e \<Rightarrow> throw e
       | Inr p \<Rightarrow> bnd (Write p) (\<lambda>_. ret pid))"

definition writeBranch :: "nat \<Rightarrow> branch \<Rightarrow> (pager, nat) op" where
  "writeBranch pos node =
     bnd (place pos) (\<lambda>pid.
       case encodeBranch (NewPage pid KindNode) node of
         Inl e \<Rightarrow> throw e
       | Inr p \<Rightarrow> bnd (Write p) (\<lambda>_. ret pid))"

section \<open>Get\<close>

fun getFrom :: "nat \<Rightarrow> pager \<Rightarrow> nat \<Rightarrow> bytes \<Rightarrow> err + bytes option" where
  "getFrom 0 st pid key = Inl ErrDiverges"
| "getFrom (Suc n) st pid key =
     (if pid = 0 then Inr None
      else case readNode st pid of
             Inl e \<Rightarrow> Inl e
           | Inr (IsLeaf entries) \<Rightarrow>
               (let (pos, found) = findKey entries key in
                if \<not> found then Inr None
                else case load st (entries ! pos) of Inl e \<Rightarrow> Inl e | Inr v \<Rightarrow> Inr (Some v))
           | Inr (IsBranch node) \<Rightarrow>
               (let child = children node ! childFor (bkeys node) key in
                if child = 0 then Inl ErrMalformed else getFrom n st child key))"

definition depthFuel :: "pager \<Rightarrow> nat" where
  "depthFuel st = Suc (PageCount (meta st))"

definition Get :: "tree \<Rightarrow> bytes \<Rightarrow> err + bytes option" where
  "Get t key =
     (case checkKey key of
        Inl e \<Rightarrow> Inl e
      | Inr _ \<Rightarrow> getFrom (depthFuel (pages t)) (pages t) (troot t) key)"

section \<open>Put\<close>

definition insertAt :: "nat \<Rightarrow> 'a \<Rightarrow> 'a list \<Rightarrow> 'a list" where
  "insertAt pos x xs = take pos xs @ x # drop pos xs"

definition removeAt :: "nat \<Rightarrow> 'a list \<Rightarrow> 'a list" where
  "removeAt pos xs = take pos xs @ drop (Suc pos) xs"

text \<open>
  How both cases of \<^verbatim>\<open>insert\<close> end: the node is written back when it fits its page, and otherwise its two
  halves are, with the separator between them for the parent to take.
\<close>

definition leafOrSplit :: "nat \<Rightarrow> kv list \<Rightarrow> (pager, nat \<times> bytes \<times> nat) op" where
  "leafOrSplit pid entries =
     (if leafBytes entries \<le> capacityBytes
      then bnd (writeLeaf pid entries) (\<lambda>new. ret (new, [], 0))
      else case splitLeaf entries of
             None \<Rightarrow> throw ErrCannotSplit
           | Some c \<Rightarrow>
               bnd (writeLeaf pid (take c entries)) (\<lambda>left.
                 bnd (writeLeaf 0 (drop c entries)) (\<lambda>right.
                   ret (left, kv_key (entries ! c), right))))"

definition branchOrSplit :: "nat \<Rightarrow> branch \<Rightarrow> (pager, nat \<times> bytes \<times> nat) op" where
  "branchOrSplit pid node =
     (if branchBytes node \<le> capacityBytes
      then bnd (writeBranch pid node) (\<lambda>new. ret (new, [], 0))
      else case splitBranch node of
             None \<Rightarrow> throw ErrCannotSplit
           | Some c \<Rightarrow>
               bnd (writeBranch pid \<lparr>bkeys = take c (bkeys node), children = take (c + 1) (children node)\<rparr>) (\<lambda>left.
                 bnd (writeBranch 0 \<lparr>bkeys = drop (c + 1) (bkeys node), children = drop (c + 1) (children node)\<rparr>) (\<lambda>right.
                   ret (left, bkeys node ! c, right))))"

text \<open>The leaf case of \<^verbatim>\<open>insert\<close>.\<close>

definition insertLeaf :: "nat \<Rightarrow> kv list \<Rightarrow> kv \<Rightarrow> (pager, nat \<times> bytes \<times> nat) op" where
  "insertLeaf pid entries e =
     (let (pos, found) = findKey entries (kv_key e) in
      bnd (if found then release (entries ! pos) else ret ()) (\<lambda>_.
        leafOrSplit pid (if found then entries[pos := e] else insertAt pos e entries)))"

text \<open>The branch case, after its child has been rewritten: the child replaced, and its other half beside it when it split.\<close>

definition takeSplit :: "branch \<Rightarrow> nat \<Rightarrow> nat \<times> bytes \<times> nat \<Rightarrow> branch" where
  "takeSplit node pos res =
     (let (child, sep, split) = res;
          node = node\<lparr>children := (children node)[pos := child]\<rparr>
      in if split \<noteq> 0
         then node\<lparr>bkeys := insertAt pos sep (bkeys node), children := insertAt (Suc pos) split (children node)\<rparr>
         else node)"

definition insertBranch :: "nat \<Rightarrow> branch \<Rightarrow> nat \<Rightarrow> nat \<times> bytes \<times> nat \<Rightarrow> (pager, nat \<times> bytes \<times> nat) op" where
  "insertBranch pid node pos res = branchOrSplit pid (takeSplit node pos res)"

fun insert_node :: "nat \<Rightarrow> nat \<Rightarrow> kv \<Rightarrow> (pager, nat \<times> bytes \<times> nat) op" where
  "insert_node 0 pid e = throw ErrDiverges"
| "insert_node (Suc n) pid e =
     bnd (look (\<lambda>st. readNode st pid)) (\<lambda>v.
       case v of
         IsLeaf entries \<Rightarrow> insertLeaf pid entries e
       | IsBranch node \<Rightarrow>
           (let pos = childFor (bkeys node) (kv_key e) in
            bnd (insert_node n (children node ! pos) e) (insertBranch pid node pos)))"

definition Put :: "bytes \<Rightarrow> bytes \<Rightarrow> (tree, unit) op" where
  "Put key val =
     (case checkKey key of
        Inl e \<Rightarrow> throw e
      | Inr _ \<Rightarrow>
          if length val > MaxValue then throw ErrValueTooLarge
          else bnd (onPages (store key val)) (\<lambda>e t.
            if troot t = 0 then bnd (onPages (writeLeaf 0 [e])) setRoot t
            else bnd (onPages (\<lambda>st. insert_node (depthFuel st) (troot t) e st)) (\<lambda>(left, sep, right).
                   if right = 0 then setRoot left
                   else bnd (onPages (writeBranch 0 \<lparr>bkeys = [sep], children = [left, right]\<rparr>)) setRoot) t))"

section \<open>Delete\<close>

definition underfullBytes :: nat where
  "underfullBytes = capacityBytes div 4"

definition collapse :: "branch \<Rightarrow> nat \<Rightarrow> nat \<Rightarrow> branch" where
  "collapse node left merged =
     \<lparr>bkeys = removeAt left (bkeys node), children = removeAt (Suc left) ((children node)[left := merged])\<rparr>"

definition isUnderfull :: "pager \<Rightarrow> nat \<Rightarrow> err + bool" where
  "isUnderfull st pid =
     (case readNode st pid of
        Inl e \<Rightarrow> Inl e
      | Inr (IsLeaf entries) \<Rightarrow> Inr (leafBytes entries < underfullBytes)
      | Inr (IsBranch node) \<Rightarrow> Inr (branchBytes node < underfullBytes))"

text \<open>The two siblings of a rebalance, both leaves or both branches; their kinds are compared first.\<close>

definition readPair :: "pager \<Rightarrow> nat \<Rightarrow> nat \<Rightarrow> err + (node_view \<times> node_view)" where
  "readPair st a b =
     (case (Read st a, Read st b) of
        (Inl e, _) \<Rightarrow> Inl e
      | (Inr _, Inl e) \<Rightarrow> Inl e
      | (Inr p, Inr q) \<Rightarrow>
          if Kind p \<noteq> Kind q then Inl ErrMalformed
          else (case (readNode st a, readNode st b) of
                  (Inl e, _) \<Rightarrow> Inl e
                | (Inr _, Inl e) \<Rightarrow> Inl e
                | (Inr v, Inr w) \<Rightarrow> Inr (v, w)))"

definition mergeLeaves :: "branch \<Rightarrow> nat \<Rightarrow> kv list \<Rightarrow> (pager, branch) op" where
  "mergeLeaves node left merged =
     (if leafBytes merged \<le> capacityBytes
      then bnd (writeLeaf (children node ! left) merged) (\<lambda>pid.
             bnd (modify (Free (children node ! Suc left))) (\<lambda>_. ret (collapse node left pid)))
      else case splitLeaf merged of
             None \<Rightarrow> throw ErrCannotSplit
           | Some c \<Rightarrow>
               bnd (writeLeaf (children node ! left) (take c merged)) (\<lambda>first.
                 bnd (writeLeaf (children node ! Suc left) (drop c merged)) (\<lambda>second.
                   ret \<lparr>bkeys = (bkeys node)[left := kv_key (merged ! c)],
                        children = (children node)[left := first, Suc left := second]\<rparr>)))"

definition mergeBranches :: "branch \<Rightarrow> nat \<Rightarrow> branch \<Rightarrow> (pager, branch) op" where
  "mergeBranches node left merged =
     (if branchBytes merged \<le> capacityBytes
      then bnd (writeBranch (children node ! left) merged) (\<lambda>pid.
             bnd (modify (Free (children node ! Suc left))) (\<lambda>_. ret (collapse node left pid)))
      else case splitBranch merged of
             None \<Rightarrow> throw ErrCannotSplit
           | Some c \<Rightarrow>
               bnd (writeBranch (children node ! left) \<lparr>bkeys = take c (bkeys merged), children = take (c + 1) (children merged)\<rparr>)
                 (\<lambda>first.
                 bnd (writeBranch (children node ! Suc left)
                        \<lparr>bkeys = drop (c + 1) (bkeys merged), children = drop (c + 1) (children merged)\<rparr>) (\<lambda>second.
                   ret \<lparr>bkeys = (bkeys node)[left := bkeys merged ! c],
                        children = (children node)[left := first, Suc left := second]\<rparr>)))"

definition rebalance :: "branch \<Rightarrow> nat \<Rightarrow> (pager, branch) op" where
  "rebalance node pos =
     (let left = (if pos > 0 then pos - 1 else pos) in
      bnd (look (\<lambda>st. Read st (children node ! left))) (\<lambda>_.
        if length (children node) \<le> Suc left then throw ErrIndex
        else bnd (look (\<lambda>st. readPair st (children node ! left) (children node ! Suc left))) (\<lambda>pair.
          case pair of
            (IsLeaf first, IsLeaf second) \<Rightarrow> mergeLeaves node left (first @ second)
          | (IsBranch first, IsBranch second) \<Rightarrow>
              mergeBranches node left
                \<lparr>bkeys = bkeys first @ bkeys node ! left # bkeys second, children = children first @ children second\<rparr>
          | _ \<Rightarrow> throw ErrMalformed)))"

definition removeLeaf :: "nat \<Rightarrow> kv list \<Rightarrow> bytes \<Rightarrow> (pager, nat \<times> bool) op" where
  "removeLeaf pid entries key =
     (let (pos, found) = findKey entries key in
      if \<not> found then ret (pid, False)
      else bnd (release (entries ! pos)) (\<lambda>_.
             bnd (writeLeaf pid (removeAt pos entries)) (\<lambda>new. ret (new, True))))"

definition removeBranch :: "nat \<Rightarrow> branch \<Rightarrow> nat \<Rightarrow> nat \<times> bool \<Rightarrow> (pager, nat \<times> bool) op" where
  "removeBranch pid node pos res =
     (let (child, removed) = res in
      if \<not> removed then ret (pid, False)
      else let node = node\<lparr>children := (children node)[pos := child]\<rparr> in
        bnd (look (\<lambda>st. isUnderfull st child)) (\<lambda>underfull.
          bnd (if underfull then rebalance node pos else ret node) (\<lambda>node.
            bnd (writeBranch pid node) (\<lambda>new. ret (new, True)))))"

fun remove_node :: "nat \<Rightarrow> nat \<Rightarrow> bytes \<Rightarrow> (pager, nat \<times> bool) op" where
  "remove_node 0 pid key = throw ErrDiverges"
| "remove_node (Suc n) pid key =
     bnd (look (\<lambda>st. readNode st pid)) (\<lambda>v.
       case v of
         IsLeaf entries \<Rightarrow> removeLeaf pid entries key
       | IsBranch node \<Rightarrow>
           (let pos = childFor (bkeys node) key in
            bnd (remove_node n (children node ! pos) key) (removeBranch pid node pos)))"

text \<open>The loop at the end of \<^verbatim>\<open>Delete\<close>: a root with one child gives way to it, an empty leaf to the empty tree.\<close>

fun shrinkRoot :: "nat \<Rightarrow> (tree, bool) op" where
  "shrinkRoot 0 = throw ErrDiverges"
| "shrinkRoot (Suc n) =
     (\<lambda>t. case readNode (pages t) (troot t) of
        Inl e \<Rightarrow> (Inl e, t)
      | Inr (IsBranch node) \<Rightarrow>
          if length (children node) > 1 then (Inr True, t)
          else shrinkRoot n (t\<lparr>pages := Free (troot t) (pages t), troot := children node ! 0\<rparr>)
      | Inr (IsLeaf entries) \<Rightarrow>
          if entries = [] then (Inr True, t\<lparr>pages := Free (troot t) (pages t), troot := 0\<rparr>)
          else (Inr True, t))"

definition Delete :: "bytes \<Rightarrow> (tree, bool) op" where
  "Delete key =
     (case checkKey key of
        Inl e \<Rightarrow> throw e
      | Inr _ \<Rightarrow> (\<lambda>t.
          if troot t = 0 then (Inr False, t)
          else bnd (onPages (\<lambda>st. remove_node (depthFuel st) (troot t) key st)) (\<lambda>(new, removed).
                 if \<not> removed then ret False
                 else bnd (setRoot new) (\<lambda>_ t. shrinkRoot (depthFuel (pages t)) t)) t))"

section \<open>Walks\<close>

text \<open>A loop that stops at an error or when its body says there is no more.\<close>

fun walkAll :: "('x \<Rightarrow> ('s, bool) op) \<Rightarrow> 'x list \<Rightarrow> ('s, bool) op" where
  "walkAll f [] = ret True"
| "walkAll f (x # xs) = bnd (f x) (\<lambda>more. if more then walkAll f xs else ret False)"

text \<open>The callback of a walk: it keeps a state of its own and says whether to go on.\<close>

definition visitEntry :: "pager \<Rightarrow> (bytes \<Rightarrow> bytes \<Rightarrow> 's \<Rightarrow> bool \<times> 's) \<Rightarrow> kv \<Rightarrow> ('s, bool) op" where
  "visitEntry st visit e s =
     (case load st e of
        Inl err \<Rightarrow> (Inl err, s)
      | Inr v \<Rightarrow> (let (more, s') = visit (kv_key e) v s in (Inr more, s')))"

fun ascend :: "nat \<Rightarrow> pager \<Rightarrow> (bytes \<Rightarrow> bytes \<Rightarrow> 's \<Rightarrow> bool \<times> 's) \<Rightarrow> nat \<times> bytes option \<Rightarrow> ('s, bool) op" where
  "ascend 0 st visit _ = throw ErrDiverges"
| "ascend (Suc n) st visit (pid, from) =
     (case readNode st pid of
        Inl e \<Rightarrow> throw e
      | Inr (IsLeaf entries) \<Rightarrow>
          (let pos = (case from of None \<Rightarrow> 0 | Some k \<Rightarrow> fst (findKey entries k)) in
           walkAll (visitEntry st visit) (drop pos entries))
      | Inr (IsBranch node) \<Rightarrow>
          (let start = (case from of None \<Rightarrow> 0 | Some k \<Rightarrow> childFor (bkeys node) k) in
           walkAll (ascend n st visit)
             (map (\<lambda>i. (children node ! i, if i > start then None else from)) [start..<length (children node)])))"

definition Ascend :: "tree \<Rightarrow> bytes option \<Rightarrow> (bytes \<Rightarrow> bytes \<Rightarrow> 's \<Rightarrow> bool \<times> 's) \<Rightarrow> ('s, unit) op" where
  "Ascend t from visit =
     (if troot t = 0 then ret ()
      else bnd (ascend (depthFuel (pages t)) (pages t) visit (troot t, from)) (\<lambda>_. ret ()))"

fun descend :: "nat \<Rightarrow> pager \<Rightarrow> (bytes \<Rightarrow> bytes \<Rightarrow> 's \<Rightarrow> bool \<times> 's) \<Rightarrow> nat \<times> bytes option \<Rightarrow> ('s, bool) op" where
  "descend 0 st visit _ = throw ErrDiverges"
| "descend (Suc n) st visit (pid, from) =
     (case readNode st pid of
        Inl e \<Rightarrow> throw e
      | Inr (IsLeaf entries) \<Rightarrow>
          (let stop = (case from of None \<Rightarrow> length entries | Some k \<Rightarrow> fst (findKey entries k)) in
           walkAll (visitEntry st visit) (rev (take stop entries)))
      | Inr (IsBranch node) \<Rightarrow>
          (let start = (case from of None \<Rightarrow> length (children node) - 1 | Some k \<Rightarrow> childFor (bkeys node) k) in
           walkAll (descend n st visit)
             (map (\<lambda>i. (children node ! i, if i < start then None else from)) (rev [0..<Suc start]))))"

definition Descend :: "tree \<Rightarrow> bytes option \<Rightarrow> (bytes \<Rightarrow> bytes \<Rightarrow> 's \<Rightarrow> bool \<times> 's) \<Rightarrow> ('s, unit) op" where
  "Descend t from visit =
     (if troot t = 0 then ret ()
      else bnd (descend (depthFuel (pages t)) (pages t) visit (troot t, from)) (\<lambda>_. ret ()))"

end
