(* ===== verification/Btree_Store.thy ===== *)
theory Btree_Store
  imports Btree_Tree
begin

text \<open>
  What the tree owns of the file. A set of pages is live when the pager would neither hand one of
  them out nor has it on a list; each operation on pages trades the pages it owns for others and
  leaves every other live page as it was. The rules for allocating, freeing and writing a page, for
  placing a node, and for the chains of pages large values live in are proved here once, and the
  operations of the tree are checked against them.
\<close>

section \<open>Live pages\<close>

named_theorems anchors

definition heap :: "pager \<Rightarrow> nat set \<Rightarrow> bool" where
  "heap st L \<longleftrightarrow> list_ok st \<and> disk_ok st \<and> cipher_ok st \<and> 2 \<le> reserved st
     \<and> L \<subseteq> {reserved st..<PageCount (meta st)} \<and> L \<inter> FreeSet st = {} \<and> L \<inter> set (chain (free st)) = {}"

lemma heapD:
  assumes "heap st L"
  shows "list_ok st" "disk_ok st" "cipher_ok st" "2 \<le> reserved st" "L \<subseteq> {reserved st..<PageCount (meta st)}"
    "L \<inter> FreeSet st = {}" "L \<inter> set (chain (free st)) = {}"
  using assms unfolding heap_def by blast+

text \<open>The pages of a set are seen as they were.\<close>

definition kept :: "nat set \<Rightarrow> pager \<Rightarrow> pager \<Rightarrow> bool" where
  "kept K st st' \<longleftrightarrow> (\<forall>q \<in> K. \<forall>x. viewPage st q = Some x \<longrightarrow> viewPage st' q = Some x)"

lemma keptD: "kept K st st' \<Longrightarrow> q \<in> K \<Longrightarrow> viewPage st q = Some x \<Longrightarrow> viewPage st' q = Some x"
  unfolding kept_def by blast

lemma kept_refl [simp]: "kept K st st"
  by (simp add: kept_def)

lemma kept_trans: "kept K a b \<Longrightarrow> kept K b c \<Longrightarrow> kept K a c"
  by (simp add: kept_def)

lemma kept_subset: "kept K a b \<Longrightarrow> J \<subseteq> K \<Longrightarrow> kept J a b"
  by (auto simp: kept_def)

lemma same_disk_kept: "disk st' = disk st \<Longrightarrow> same_anchor st st' \<Longrightarrow> kept K st st'"
  using view_mono [of st _ _ st'] by (auto simp: kept_def same_anchor_def)

lemma heap_distinct_le:
  assumes "heap st L" "distinct ps" "set ps \<subseteq> L"
  shows "length ps < PageCount (meta st)" "0 \<notin> set ps"
proof -
  note h = heapD [OF assms(1)]
  have s: "set ps \<subseteq> {reserved st..<PageCount (meta st)}" using h(5) assms(3) by blast
  show "length ps < PageCount (meta st)"
    using distinct_bounded [OF assms(2) s] list_okD(12) [OF h(1)] h(4) by linarith
  show "0 \<notin> set ps" using s h(4) by auto
qed

section \<open>Frames: pages owned beside pages left alone\<close>

text \<open>\<open>owns st F ps\<close>: the pages \<open>ps\<close> are owned, the live pages \<open>F\<close> are somebody else's.\<close>

definition owns :: "pager \<Rightarrow> nat set \<Rightarrow> nat list \<Rightarrow> bool" where
  "owns st F ps \<longleftrightarrow> heap st (F \<union> set ps) \<and> distinct ps \<and> F \<inter> set ps = {}"

lemma owns_split: "owns st F (as @ bs) \<longleftrightarrow> owns st (F \<union> set bs) as \<and> distinct bs \<and> F \<inter> set bs = {}"
  by (auto simp: owns_def Un_ac)

lemma owns_perm: "mset as = mset bs \<Longrightarrow> owns st F as = owns st F bs"
  unfolding owns_def using mset_eq_setD mset_eq_imp_distinct_iff by metis

text \<open>The last commit can still be recovered after a crash, whatever its tree was.\<close>

definition guarded :: "pager \<Rightarrow> pager \<Rightarrow> bool" where
  "guarded st st' \<longleftrightarrow> (\<forall>vis. crash_ready vis st \<longrightarrow> crash_ready vis st')"

lemma guarded_refl [simp]: "guarded st st"
  by (simp add: guarded_def)

lemma guarded_trans: "guarded a b \<Longrightarrow> guarded b c \<Longrightarrow> guarded a c"
  by (simp add: guarded_def)

text \<open>What an operation does that trades the pages it owns for \<open>ps\<close>.\<close>

definition trades :: "pager \<Rightarrow> nat set \<Rightarrow> pager \<Rightarrow> nat list \<Rightarrow> bool" where
  "trades st F st' ps \<longleftrightarrow> owns st' F ps \<and> kept F st st' \<and> same_anchor st st' \<and> guarded st st'"

lemma tradesD:
  assumes "trades st F st' ps"
  shows "owns st' F ps" "kept F st st'" "same_anchor st st'" "guarded st st'"
  using assms by (simp_all add: trades_def)

lemma trades_refl: "owns st F ps \<Longrightarrow> trades st F st ps"
  by (simp add: trades_def)

lemma trades_trans: "trades a F b ps \<Longrightarrow> trades b F c qs \<Longrightarrow> trades a F c qs"
  by (meson trades_def kept_trans same_anchor_trans guarded_trans)

text \<open>The frame rule: an operation that owned less did not touch the rest.\<close>

lemma trades_frame: "trades a (F \<union> set bs) b as \<Longrightarrow> distinct bs \<Longrightarrow> F \<inter> set bs = {} \<Longrightarrow> trades a F b (as @ bs)"
  by (simp only: trades_def owns_split) (simp add: kept_subset [of "F \<union> set bs" a b F])

lemma trades_perm: "mset ps = mset qs \<Longrightarrow> trades a F b ps = trades a F b qs"
  unfolding trades_def using owns_perm [of ps qs b F] by simp

text \<open>A whole operation, with the errors it may fail with; the file is never larger than page numbers are wide.\<close>

definition pageLimit :: "pager \<Rightarrow> bool" where
  "pageLimit st \<longleftrightarrow> PageCount (meta st) \<le> 2 ^ 64"

lemma pageLimit_back: "pageLimit st' \<Longrightarrow> same_anchor st st' \<Longrightarrow> pageLimit st"
  by (simp add: pageLimit_def same_anchor_def)

text \<open>The only error of the pager the tree meets on a working disk: the file has reached its quota.\<close>

definition quota_errors :: "pager \<Rightarrow> err set" where
  "quota_errors st = (if maxPages st > 0 then {ErrQuota} else {})"

lemma quota_errors_anchor: "same_anchor st st' \<Longrightarrow> quota_errors st' = quota_errors st"
  by (simp add: quota_errors_def same_anchor_def)

text \<open>
  No operation of the tree touches what the pager rests on: its transaction, its snapshots, its quota.
  The rules compose along the code.
\<close>

definition anchored :: "(pager, 'a) op \<Rightarrow> bool" where
  "anchored m \<longleftrightarrow> (\<forall>st res st'. m st = (res, st') \<longrightarrow> same_anchor st st')"

lemma anchoredD: "anchored m \<Longrightarrow> m st = (res, st') \<Longrightarrow> same_anchor st st'"
  by (auto simp: anchored_def)

lemma anchored_base [anchors]: "anchored (ret a)" "anchored (throw e)" "anchored (look f)" "anchored Allocate" "anchored (Write p)"
  "anchored (modify (Free pid))"
  by (auto simp: anchored_def look_def dest: Allocate_anchor Write_anchor simp: Free_anchor)

lemma anchored_bnd [anchors]:
  assumes "anchored m" "\<And>a. anchored (f a)"
  shows "anchored (bnd m f)"
proof -
  have "same_anchor st st'" if run: "bnd m f st = (res, st')" for st res st'
  proof -
    obtain r s where m: "m st = (r, s)" by (cases "m st")
    note 1 = anchoredD [OF assms(1) m]
    show ?thesis
    proof (cases r)
      case (Inl e)
      with m run 1 show ?thesis by simp
    next
      case (Inr a)
      with m run have "f a s = (res, st')" by simp
      from same_anchor_trans [OF 1 anchoredD [OF assms(2) this]] show ?thesis .
    qed
  qed
  then show ?thesis by (simp add: anchored_def)
qed

lemma anchored_cases [anchors]:
  "(b \<Longrightarrow> anchored m) \<Longrightarrow> (\<not> b \<Longrightarrow> anchored m') \<Longrightarrow> anchored (if b then m else m')"
  "(\<And>e. anchored (f e)) \<Longrightarrow> (\<And>a. anchored (g a)) \<Longrightarrow> anchored (case s of Inl e \<Rightarrow> f e | Inr a \<Rightarrow> g a)"
  "anchored m \<Longrightarrow> (\<And>a. anchored (h a)) \<Longrightarrow> anchored (case opt of None \<Rightarrow> m | Some a \<Rightarrow> h a)"
  "(\<And>es. anchored (k es)) \<Longrightarrow> (\<And>n. anchored (l n)) \<Longrightarrow> anchored (case v of IsLeaf es \<Rightarrow> k es | IsBranch n \<Rightarrow> l n)"
  "(\<And>a b. anchored (q a b)) \<Longrightarrow> anchored (case pr of (a, b) \<Rightarrow> q a b)"
  by (auto split: sum.splits option.splits node_view.splits prod.splits)

lemma anchored_place [anchors]: "anchored (place pos)"
proof -
  have "same_anchor st st'" if "place pos st = (res, st')" for st res st'
    using that Allocate_anchor [of "if pos \<noteq> 0 then Free pos st else st" res st'] Free_anchor [of st pos]
    by (auto simp: place_def split: if_splits intro: same_anchor_trans)
  then show ?thesis by (simp add: anchored_def)
qed

lemma anchored_write [anchors]: "anchored (writeLeaf pos es)" "anchored (writeBranch pos n)"
  unfolding writeLeaf_def writeBranch_def by (intro anchors)+

lemma anchored_writeChunks [anchors]: "anchored (writeChunks v k nx)"
  by (induction k arbitrary: nx) (auto intro!: anchors)

section \<open>Allocating, freeing and writing a page\<close>

lemma Allocate_owns:
  assumes h: "owns st F ps" and a: "Allocate st = (Inr pid, st')"
  shows "trades st F st' (pid # ps)" "kept (set ps) st st'" "disk st' = disk st"
proof -
  note d = heapD [OF conjunct1 [OF h [unfolded owns_def]]]
  note al = Allocate_list_ok [OF d(1) a] and an = Allocate_anchor [OF a]
  have p: "pid \<notin> FreeSet st'" "reserved st \<le> pid" "pid < PageCount (meta st')" "pid \<notin> set (chain (free st))"
    "pid \<in> FreeSet st \<or> pid = PageCount (meta st)"
    using al(4) [of pid] by simp_all
  have fresh: "pid \<notin> F \<union> set ps" using p(5) d(5,6) by auto
  have "heap st' (insert pid (F \<union> set ps))"
    unfolding heap_def
  proof (intro conjI)
    show "list_ok st'" by (rule al(1))
    show "disk_ok st'" "cipher_ok st'" "2 \<le> reserved st'"
      using d(2-4) an by (simp_all add: disk_ok_def cipher_ok_def same_anchor_def)
    show "insert pid (F \<union> set ps) \<subseteq> {reserved st'..<PageCount (meta st')}"
      using d(5) p(2,3) an by (force simp: same_anchor_def)
    show "insert pid (F \<union> set ps) \<inter> FreeSet st' = {}" using d(6) al(2) p(1) by blast
    show "insert pid (F \<union> set ps) \<inter> set (chain (free st')) = {}" using d(7) al(3) p(4) by auto
  qed
  moreover have "guarded st st'" using Allocate_crash_ready [OF _ a] by (simp add: guarded_def)
  ultimately show "trades st F st' (pid # ps)"
    using h fresh an same_disk_kept [of st' st F] by (simp add: trades_def owns_def)
  show "kept (set ps) st st'" "disk st' = disk st" using an same_disk_kept [of st' st] by simp_all
qed

lemma Allocate_error: "Allocate st = (Inl e, st') \<Longrightarrow> e \<in> quota_errors st"
  by (auto simp: Allocate_def Let_def quota_errors_def promote_def split: if_splits)

lemma FreeSet_Free: "FreeSet (Free pid st) \<subseteq> insert pid (FreeSet st)"
  by (auto simp: Free_def Let_def FreeSet_def)

lemma Free_owns:
  assumes h: "owns st F (pid # ps)"
  shows "trades st F (Free pid st) ps" "kept K st (Free pid st)" "disk (Free pid st) = disk st"
proof -
  note d = heapD [OF conjunct1 [OF h [unfolded owns_def]]]
  note an = Free_anchor [of st pid]
  have fr: "freeable st pid" using d(5-7) by (auto simp: freeable_def)
  then have l: "list_ok (Free pid st)" by (rule Free_list_ok [OF d(1)])
  have "heap (Free pid st) (F \<union> set ps)"
    unfolding heap_def
  proof (intro conjI)
    show "list_ok (Free pid st)" by (rule l)
    show "disk_ok (Free pid st)" "cipher_ok (Free pid st)" "2 \<le> reserved (Free pid st)"
      using d(2-4) an by (simp_all add: disk_ok_def cipher_ok_def same_anchor_def)
    show "F \<union> set ps \<subseteq> {reserved (Free pid st)..<PageCount (meta (Free pid st))}"
      using d(5) by (auto simp: Free_fields)
    have "pid \<notin> F \<union> set ps" using h by (auto simp: owns_def)
    then show "(F \<union> set ps) \<inter> FreeSet (Free pid st) = {}" using d(6) FreeSet_Free [of pid st] by auto
    show "(F \<union> set ps) \<inter> set (chain (free (Free pid st))) = {}" using d(7) by (auto simp: Free_fields)
  qed
  moreover have "guarded st (Free pid st)" using Free_crash_ready [OF _ fr] by (simp add: guarded_def)
  ultimately show "trades st F (Free pid st) ps"
    using h an same_disk_kept [of "Free pid st" st F] by (auto simp: trades_def owns_def)
  show "kept K st (Free pid st)" "disk (Free pid st) = disk st" using an same_disk_kept [of "Free pid st" st] by simp_all
qed

lemma bookkeeping_heap: "bookkeeping st' = bookkeeping st \<Longrightarrow> heap st' L = heap st L"
  using bookkeeping_eqD [of st' st] by (simp add: heap_def list_ok_def FreeSet_def cipher_ok_def)

lemma Write_owns:
  assumes h: "owns st F (pid # ps)" and dirty: "Dirty st pid" and lim: "pageLimit st" and p: "PID p = pid" "length (Data p) = PageBytes"
    "p = fillPage pid (Kind p) (Payload p)"
  obtains st' where "Write p st = (Inr (), st')" "trades st F st' (pid # ps)" "kept (set ps) st st'"
    "viewPage st' pid = Some (Kind p, Payload p)"
proof -
  note d = heapD [OF conjunct1 [OF h [unfolded owns_def]]]
  have "pid < PageCount (meta st)" "reserved st \<le> pid" using d(5) by auto
  then have ok: "page_ok st pid (Kind p, Payload p)"
    using d(2,3) lim p(2) by (simp add: page_ok_def pageLimit_def Payload_def PayloadBytes_def)
  obtain st' where w: "writePage pid (Kind p, Payload p) st = (Inr (), st')" using pages.write_ok [OF ok] by blast
  then have w': "Write p st = (Inr (), st')" using p(3) by (simp add: writePage_def)
  have b: "heap st' (F \<union> set (pid # ps))"
    using bookkeeping_heap [OF pages.write_rest [OF w]] h by (simp add: owns_def)
  have k: "kept K st st'" if "pid \<notin> K" for K
    using pages.view_other [OF w] that unfolding kept_def by metis
  have "guarded st st'" using Write_crash_ready [OF _ _ w'] dirty p(1) by (simp add: guarded_def)
  moreover have "same_anchor st st'" using Write_anchor [OF w'] by simp
  ultimately have "trades st F st' (pid # ps)" using b k h by (auto simp: trades_def owns_def)
  with w' k h pages.view_same [OF ok w] show thesis by (intro that) (auto simp: owns_def)
qed

section \<open>Reading a node\<close>

lemma decode_payload: "Payload p = Payload q \<Longrightarrow> decodeLeaf p = decodeLeaf q" "Payload p = Payload q \<Longrightarrow> decodeBranch p = decodeBranch q"
  by (simp_all add: decodeLeaf_def decodeBranch_def)

lemma readNode_view: "viewPage st q = Some x \<Longrightarrow> viewPage st' q = Some x \<Longrightarrow> readNode st' q = readNode st q"
proof -
  assume "viewPage st q = Some x" "viewPage st' q = Some x"
  then obtain p p' where "Read st q = Inr p" "Read st' q = Inr p'" "Kind p' = Kind p" "Payload p' = Payload p"
    by (cases x) (auto simp: viewPage_Some)
  with decode_payload [of p' p] show ?thesis by (simp add: readNode_def)
qed

lemma readNode_Some: "readNode st q = Inr v \<Longrightarrow> \<exists>x. viewPage st q = Some x"
  by (auto simp: readNode_def viewPage_def split: sum.splits)

lemma kept_readNode: "kept K st st' \<Longrightarrow> q \<in> K \<Longrightarrow> readNode st q = Inr v \<Longrightarrow> readNode st' q = Inr v"
  using readNode_Some [of st q v] readNode_view keptD by metis

section \<open>Placing a node\<close>

text \<open>The pages a node rewritten at \<open>pos\<close> gives up: its own, or none when it is new.\<close>

abbreviation given :: "nat \<Rightarrow> nat list" where
  "given pos \<equiv> (if pos = 0 then [] else [pos])"

lemma place_owns:
  assumes h: "owns st F (given pos @ ps)" and p: "place pos st = (Inr pid, st')"
  shows "trades st F st' (pid # ps)" "kept (set ps) st st'" "Dirty st' pid"
proof -
  have "trades st F st' (pid # ps) \<and> kept (set ps) st st' \<and> Dirty st' pid"
  proof (cases "pos \<noteq> 0 \<and> Dirty st pos")
    case True
    then show ?thesis using h p by (auto simp: place_def trades_refl)
  next
    case False
    let ?s = "if pos \<noteq> 0 then Free pos st else st"
    have f: "trades st F ?s ps" "kept (set ps) st ?s"
      using h Free_owns [of st F pos ps] by (auto simp: trades_refl)
    have "Allocate ?s = (Inr pid, st')" using p False by (auto simp: place_def)
    from Allocate_owns [OF tradesD(1) [OF f(1)] this] Allocate_taken [OF this] show ?thesis
      using trades_trans [OF f(1)] kept_trans [OF f(2)] by (auto simp: Dirty_def)
  qed
  then show "trades st F st' (pid # ps)" "kept (set ps) st st'" "Dirty st' pid" by simp_all
qed

lemma place_error: "place pos st = (Inl e, st') \<Longrightarrow> e \<in> quota_errors st"
  using Allocate_error [of "if pos \<noteq> 0 then Free pos st else st" e st'] quota_errors_anchor [of st "Free pos st"] Free_anchor [of st pos]
  by (auto simp: place_def split: if_splits)

lemma fillPage_eq:
  assumes "PID q = pid" "Kind q = k" "length (Data q) = PageBytes" "take HeaderBytes (Data q) = replicate HeaderBytes 0"
  shows "q = fillPage pid k (Payload q)"
  using assms append_take_drop_id [of HeaderBytes "Data q"]
  by (cases q) (simp add: fillPage_def NewPage_def Payload_def Let_def layout)

lemma encode_header:
  "encodeLeaf p es = Inr q \<Longrightarrow> HeaderBytes \<le> length (Data p) \<Longrightarrow> take HeaderBytes (Data q) = take HeaderBytes (Data p)"
  "encodeBranch p n = Inr q \<Longrightarrow> HeaderBytes \<le> length (Data p) \<Longrightarrow> take HeaderBytes (Data q) = take HeaderBytes (Data p)"
  by (auto simp: encodeLeaf_def encodeBranch_def Let_def setPayload_def split: if_splits)

text \<open>Writing a node that fits, from the page on: what \<^verbatim>\<open>writeLeaf\<close> and \<^verbatim>\<open>writeBranch\<close> share.\<close>

lemma node_written:
  assumes h: "owns st F (pid # ps)" and dirty: "Dirty st pid" and lim: "pageLimit st" and q: "PID q = pid" "length (Data q) = PageBytes"
    "take HeaderBytes (Data q) = replicate HeaderBytes 0"
  obtains st' where "bnd (Write q) (\<lambda>_. ret pid) st = (Inr pid, st')" "trades st F st' (pid # ps)" "kept (set ps) st st'"
    "viewPage st' pid = Some (Kind q, Payload q)"
proof -
  obtain st' where st': "Write q st = (Inr (), st')" "trades st F st' (pid # ps)" "kept (set ps) st st'"
    "viewPage st' pid = Some (Kind q, Payload q)"
    by (rule Write_owns [OF h dirty lim q(1,2) fillPage_eq [OF q(1) refl q(2,3)]])
  from st'(1) have "bnd (Write q) (\<lambda>_. ret pid) st = (Inr pid, st')" by simp
  from that [OF this st'(2-4)] show thesis .
qed

lemma NewPage_simps [simp]: "PID (NewPage pid k) = pid" "Kind (NewPage pid k) = k" "length (Data (NewPage pid k)) = PageBytes"
  "take HeaderBytes (Data (NewPage pid k)) = replicate HeaderBytes 0"
  by (simp_all add: NewPage_def layout)

text \<open>A rewritten leaf or branch: it is there, its old page is given up, the rest is as it was.\<close>

definition placed :: "pager \<Rightarrow> nat set \<Rightarrow> nat list \<Rightarrow> node_view \<Rightarrow> (err + nat) \<times> pager \<Rightarrow> bool" where
  "placed st F ps v out \<longleftrightarrow>
     (case out of
        (Inl e, _) \<Rightarrow> e \<in> quota_errors st
      | (Inr pid, st') \<Rightarrow> trades st F st' (pid # ps) \<and> kept (set ps) st st' \<and> readNode st' pid = Inr v)"

lemma placed_Inl [simp]: "placed st F ps v (Inl e, st') \<longleftrightarrow> e \<in> quota_errors st"
  and placed_Inr [simp]: "placed st F ps v (Inr pid, st') \<longleftrightarrow>
    trades st F st' (pid # ps) \<and> kept (set ps) st st' \<and> readNode st' pid = Inr v"
  by (simp_all add: placed_def)

lemma place_then:
  assumes h: "owns st F (given pos @ ps)" and lim: "pageLimit st'"
    and run: "bnd (place pos) (\<lambda>pid. case enc (NewPage pid k) of Inl e \<Rightarrow> throw e | Inr p \<Rightarrow> bnd (Write p) (\<lambda>_. ret pid)) st = (res, st')"
    and enc: "\<And>p. length (Data p) = PageBytes \<Longrightarrow> \<exists>q. enc p = Inr q \<and> length (Data q) = PageBytes \<and> PID q = PID p \<and> Kind q = Kind p
       \<and> take HeaderBytes (Data q) = take HeaderBytes (Data p) \<and> (\<forall>r. Payload r = Payload q \<longrightarrow> Kind r = k \<longrightarrow> view r = Inr v)"
    and view: "\<And>st pid r. Read st pid = Inr r \<Longrightarrow> Kind r = k \<Longrightarrow> readNode st pid = view r"
  shows "placed st F ps v (res, st')"
proof (cases "place pos st")
  case (Pair res1 s1)
  show ?thesis
  proof (cases res1)
    case (Inl e)
    with run Pair place_error [of pos st e s1] show ?thesis by auto
  next
    case (Inr pid)
    note pl = place_owns [OF h, of pid s1]
    from Pair Inr have t1: "trades st F s1 (pid # ps)" "kept (set ps) st s1" "Dirty s1 pid" using pl by simp_all
    obtain q where q: "enc (NewPage pid k) = Inr q" "length (Data q) = PageBytes" "PID q = pid" "Kind q = k"
      "take HeaderBytes (Data q) = replicate HeaderBytes 0" "\<And>r. Payload r = Payload q \<Longrightarrow> Kind r = k \<Longrightarrow> view r = Inr v"
      using enc [of "NewPage pid k"] by auto
    have run2: "bnd (Write q) (\<lambda>_. ret pid) s1 = (res, st')" using run Pair Inr q(1) by simp
    from run2 have "same_anchor s1 st'" by (rule anchoredD [rotated]) (intro anchors)
    then have "pageLimit s1" using lim pageLimit_back by blast
    then obtain s2 where s2: "bnd (Write q) (\<lambda>_. ret pid) s1 = (Inr pid, s2)" "trades s1 F s2 (pid # ps)" "kept (set ps) s1 s2"
      "viewPage s2 pid = Some (Kind q, Payload q)"
      by (rule node_written [OF tradesD(1) [OF t1(1)] t1(3) _ q(3,2,5)])
    have e: "res = Inr pid" "st' = s2" using run2 s2(1) by simp_all
    obtain r where r: "Read s2 pid = Inr r" "Kind r = k" "Payload r = Payload q" using s2(4) q(4) by (auto simp: viewPage_Some)
    have "readNode s2 pid = Inr v" using view [OF r(1,2)] q(6) r by simp
    with e trades_trans [OF t1(1) s2(2)] kept_trans [OF t1(2) s2(3)] show ?thesis by simp
  qed
qed

lemma writeLeaf_placed:
  assumes "owns st F (given pos @ ps)" "pageLimit st'" "writeLeaf pos es st = (res, st')" "leaf_ok es"
  shows "placed st F ps (IsLeaf es) (res, st')"
proof (rule place_then [OF assms(1,2) assms(3) [unfolded writeLeaf_def]])
  show "\<exists>q. encodeLeaf p es = Inr q \<and> length (Data q) = PageBytes \<and> PID q = PID p \<and> Kind q = Kind p
    \<and> take HeaderBytes (Data q) = take HeaderBytes (Data p)
    \<and> (\<forall>r. Payload r = Payload q \<longrightarrow> Kind r = KindLeaf \<longrightarrow> (case decodeLeaf r of Inl e \<Rightarrow> Inl e | Inr es \<Rightarrow> Inr (IsLeaf es)) = Inr (IsLeaf es))"
    if p: "length (Data p) = PageBytes" for p
  proof -
    obtain q where "encodeLeaf p es = Inr q" "length (Data q) = PageBytes" "PID q = PID p" "Kind q = Kind p"
      "\<And>r. Payload r = Payload q \<Longrightarrow> decodeLeaf r = Inr es"
      using decodeLeaf_encodeLeaf [OF assms(4) p] by blast
    then show ?thesis using encode_header(1) [of p es q] p by (auto simp: layout)
  qed
qed (simp add: readNode_def)

lemma writeBranch_placed:
  assumes "owns st F (given pos @ ps)" "pageLimit st'" "writeBranch pos n st = (res, st')" "branch_ok n"
  shows "placed st F ps (IsBranch n) (res, st')"
proof (rule place_then [OF assms(1,2) assms(3) [unfolded writeBranch_def]])
  show "\<exists>q. encodeBranch p n = Inr q \<and> length (Data q) = PageBytes \<and> PID q = PID p \<and> Kind q = Kind p
    \<and> take HeaderBytes (Data q) = take HeaderBytes (Data p)
    \<and> (\<forall>r. Payload r = Payload q \<longrightarrow> Kind r = KindNode \<longrightarrow> (case decodeBranch r of Inl e \<Rightarrow> Inl e | Inr n \<Rightarrow> Inr (IsBranch n)) = Inr (IsBranch n))"
    if p: "length (Data p) = PageBytes" for p
  proof -
    obtain q where "encodeBranch p n = Inr q" "length (Data q) = PageBytes" "PID q = PID p" "Kind q = Kind p"
      "\<And>r. Payload r = Payload q \<Longrightarrow> decodeBranch r = Inr n"
      using decodeBranch_encodeBranch [OF assms(4) p] by blast
    then show ?thesis using encode_header(2) [of p n q] p by (auto simp: layout)
  qed
qed (simp add: readNode_def kinds)

section \<open>Chains\<close>

text \<open>A value laid out on the pages \<open>ps\<close>, from the page \<open>pid\<close> on.\<close>

fun chainAt :: "pager \<Rightarrow> nat list \<Rightarrow> bytes \<Rightarrow> nat \<Rightarrow> bool" where
  "chainAt st [] v pid \<longleftrightarrow> pid = 0 \<and> v = []"
| "chainAt st (p # ps) v pid \<longleftrightarrow> pid = p \<and> p \<noteq> 0 \<and>
     (\<exists>chnk nx rest. v = chnk @ rest \<and> chnk \<noteq> [] \<and> length chnk \<le> overflowChunk \<and> nx < 2 ^ 64
        \<and> viewPage st p = Some (KindBlob, chainPayload nx chnk) \<and> chainAt st ps rest nx)"

lemma chainAt_kept: "chainAt st ps v pid \<Longrightarrow> kept K st st' \<Longrightarrow> set ps \<subseteq> K \<Longrightarrow> chainAt st' ps v pid"
proof (induction ps arbitrary: v pid)
  case Nil
  then show ?case by simp
next
  case (Cons p ps)
  then obtain chnk nx rest where c: "pid = p" "p \<noteq> 0" "v = chnk @ rest" "chnk \<noteq> []" "length chnk \<le> overflowChunk" "nx < 2 ^ 64"
    "viewPage st p = Some (KindBlob, chainPayload nx chnk)" "chainAt st ps rest nx"
    by auto
  have "viewPage st' p = Some (KindBlob, chainPayload nx chnk)" using keptD [OF Cons.prems(2) _ c(7)] Cons.prems(3) by simp
  moreover have "chainAt st' ps rest nx" using Cons.IH [OF c(8)] Cons.prems(2,3) by simp
  ultimately show ?case using c by auto
qed

lemma chain_payload:
  assumes "length chnk \<le> overflowChunk" "nx < 2 ^ 64"
  shows "chainNext (chainPayload nx chnk) = nx" "chainLength (chainPayload nx chnk) = length chnk"
    "seg (chainPayload nx chnk) overflowHeader (overflowHeader + length chnk) = chnk" "length (chainPayload nx chnk) = PayloadBytes"
proof -
  have l: "length chnk \<le> 4036" using assms(1) by (simp add: sizes)
  have s: "seg (chainPayload nx chnk) 0 8 = be 8 nx" "seg (chainPayload nx chnk) 8 12 = be 4 (length chnk)"
    using l by (simp_all add: chainPayload_def seg_put_eq seg_put_disjoint layout)
  show "chainNext (chainPayload nx chnk) = nx" using s(1) assms(2) by (simp add: chainNext_def layout)
  show "chainLength (chainPayload nx chnk) = length chnk" using s(2) l by (simp add: chainLength_def layout)
  show "seg (chainPayload nx chnk) overflowHeader (overflowHeader + length chnk) = chnk"
    using l by (simp add: chainPayload_def seg_put_eq layout)
  show "length (chainPayload nx chnk) = PayloadBytes" by (simp add: chainPayload_def PayloadBytes_def layout)
qed

lemma loadChain_chainAt:
  "chainAt st ps v pid \<Longrightarrow> n = length acc + length v \<Longrightarrow> loadChain st n acc pid = Inr (acc @ v)"
proof (induction ps arbitrary: v pid acc)
  case Nil
  then show ?case by (simp add: loadChain.simps)
next
  case (Cons p ps)
  then obtain chnk nx rest where c: "pid = p" "p \<noteq> 0" "v = chnk @ rest" "chnk \<noteq> []" "length chnk \<le> overflowChunk" "nx < 2 ^ 64"
    "viewPage st p = Some (KindBlob, chainPayload nx chnk)" "chainAt st ps rest nx"
    by auto
  obtain r where r: "Read st p = Inr r" "Kind r = KindBlob" "Payload r = chainPayload nx chnk" using c(7) by (auto simp: viewPage_Some)
  have "loadChain st n (acc @ chnk) nx = Inr ((acc @ chnk) @ rest)"
    using Cons.IH [OF c(8), of "acc @ chnk"] Cons.prems(2) c(3) by simp
  then show ?case
    using c r Cons.prems(2) chain_payload [OF c(5,6)] by (simp add: loadChain.simps [of _ _ acc p] Let_def)
qed

lemma releaseChain_chainAt:
  "chainAt st ps v pid \<Longrightarrow> owns st F (ps @ qs) \<Longrightarrow> length ps \<le> n \<Longrightarrow>
     \<exists>st'. releaseChain n pid st = (Inr (), st') \<and> trades st F st' qs \<and> disk st' = disk st"
proof (induction ps arbitrary: st v pid n)
  case Nil
  then show ?case by (auto simp: releaseChain.simps trades_refl)
next
  case (Cons p ps)
  then obtain chnk nx rest where c: "pid = p" "p \<noteq> 0" "v = chnk @ rest" "chnk \<noteq> []" "length chnk \<le> overflowChunk" "nx < 2 ^ 64"
    "viewPage st p = Some (KindBlob, chainPayload nx chnk)" "chainAt st ps rest nx"
    by auto
  obtain r where r: "Read st p = Inr r" "Kind r = KindBlob" "Payload r = chainPayload nx chnk" using c(7) by (auto simp: viewPage_Some)
  obtain m where m: "n = Suc m" "length ps \<le> m" using Cons.prems(3) by (cases n) auto
  note f = Free_owns [OF Cons.prems(2) [simplified append_Cons]]
  have "chainAt (Free p st) ps rest nx" by (rule chainAt_kept [OF c(8) f(2) [of UNIV]]) simp
  from Cons.IH [OF this tradesD(1) [OF f(1)] m(2)] obtain st'
    where st': "releaseChain m nx (Free p st) = (Inr (), st')" "trades (Free p st) F st' qs" "disk st' = disk (Free p st)"
    by blast
  have "releaseChain n pid st = (Inr (), st')"
    using c r m(1) st'(1) chain_payload(1) [OF c(5,6)] by (simp add: releaseChain.simps [of "Suc m" p st])
  with trades_trans [OF f(1) st'(2)] st'(3) f(3) show ?case by auto
qed

lemma chainPage_fill: "chainPage pid nx chnk = fillPage pid KindBlob (chainPayload nx chnk)"
  by (simp add: chainPage_def fillPage_def setPayload_def Let_def)

lemma seg_take: "seg v (k * c) (min (k * c + c) (length v)) @ drop (Suc k * c) v = drop (k * c) v"
proof -
  have "seg v (k * c) (min (k * c + c) (length v)) = take c (drop (k * c) v)"
    by (simp add: seg_def min_def)
  moreover have "drop (Suc k * c) v = drop c (drop (k * c) v)" by (simp add: add.commute)
  ultimately show ?thesis by (simp only: append_take_drop_id)
qed

lemma writeChunks_spec:
  assumes "owns st F (ps @ qs)" "chainAt st ps (drop (k * overflowChunk) v) nx" "k = 0 \<or> (k - 1) * overflowChunk < length v" "nx < 2 ^ 64"
    and "writeChunks v k nx st = (res, st')" "pageLimit st'"
  shows "case res of Inl e \<Rightarrow> e \<in> quota_errors st
     | Inr head \<Rightarrow> \<exists>rs. chainAt st' rs v head \<and> head < 2 ^ 64 \<and> trades st F st' (rs @ qs) \<and> kept (set qs) st st'"
  using assms
proof (induction k arbitrary: st ps nx)
  case 0
  then show ?case by (auto intro!: exI [of _ ps] simp: trades_refl)
next
  case (Suc k)
  let ?c = "seg v (k * overflowChunk) (min (k * overflowChunk + overflowChunk) (length v))"
  have c: "?c \<noteq> []" "length ?c \<le> overflowChunk" "?c @ drop (Suc k * overflowChunk) v = drop (k * overflowChunk) v"
    using Suc.prems(3) by (simp_all only: seg_take) (auto simp: seg_def sizes)
  obtain r1 s1 where a: "Allocate st = (r1, s1)" by (cases "Allocate st")
  show ?case
  proof (cases r1)
    case (Inl e)
    with a Suc.prems(5) Allocate_error [of st e s1] show ?thesis by auto
  next
    case (Inr pid)
    note al = Allocate_owns [OF Suc.prems(1) a [unfolded Inr]]
    have dirty: "Dirty s1 pid" using Allocate_taken [OF a [unfolded Inr]] by (simp add: Dirty_def)
    have d: "length (Data (chainPage pid nx ?c)) = PageBytes"
      using length_fillPage [OF chain_payload(4) [OF c(2) Suc.prems(4)]] by (simp add: chainPage_fill)
    have run: "bnd (Write (chainPage pid nx ?c)) (\<lambda>_. writeChunks v k pid) s1 = (res, st')" using Suc.prems(5) a Inr by simp
    then have "same_anchor s1 st'" by (rule anchoredD [rotated]) (intro anchors)
    then have lim: "pageLimit s1" using pageLimit_back [OF Suc.prems(6)] by blast
    have f: "chainPage pid nx ?c = fillPage pid (Kind (chainPage pid nx ?c)) (Payload (chainPage pid nx ?c))"
      by (simp add: chainPage_fill Payload_fillPage)
    obtain s2 where s2: "Write (chainPage pid nx ?c) s1 = (Inr (), s2)" "trades s1 F s2 (pid # ps @ qs)" "kept (set (ps @ qs)) s1 s2"
      "viewPage s2 pid = Some (KindBlob, chainPayload nx ?c)"
      using Write_owns [OF tradesD(1) [OF al(1)] dirty lim _ d f] by (auto simp: chainPage_fill Payload_fillPage)
    have k2: "kept (set (ps @ qs)) st s2" by (rule kept_trans [OF al(2) s2(3)])
    have o2: "owns s2 F ((pid # ps) @ qs)" using tradesD(1) [OF s2(2)] by simp
    have pid: "pid \<noteq> 0" "pid < 2 ^ 64"
      using heapD(4,5) [of s2 "F \<union> set (pid # ps @ qs)"] o2 Write_anchor [OF s2(1)] lim by (auto simp: owns_def pageLimit_def)
    have ch: "chainAt s2 (pid # ps) (drop (k * overflowChunk) v) pid"
      using pid chainAt_kept [OF Suc.prems(2) k2] c s2(4) Suc.prems(4)
      by (simp, intro exI [of _ ?c] exI [of _ nx] exI [of _ "drop (Suc k * overflowChunk) v"]) simp
    have k: "k = 0 \<or> (k - 1) * overflowChunk < length v"
      using Suc.prems(3) by (cases k) auto
    have "writeChunks v k pid s2 = (res, st')" using run s2(1) by simp
    from Suc.IH [OF o2 ch k pid(2) this Suc.prems(6)] show ?thesis
      using trades_trans [OF trades_trans [OF al(1)], of s2] s2(2) kept_trans [OF kept_subset [OF k2], of "set qs" st']
        quota_errors_anchor [OF same_anchor_trans [OF tradesD(3) [OF al(1)] tradesD(3) [OF s2(2)]]]
      by (auto split: sum.splits intro: trades_trans)
  qed
qed

end
