(* ===== verification/Btree_Shape.thy ===== *)
theory Btree_Shape
  imports Btree_Store
begin

text \<open>
  The tree that a file holds, as a value: leaves of entries with the values they stand for, branches
  of separators and subtrees, each with the page it is on. Read from left to right a tree is a
  sequence of marks, its entries and its separators; the order the tree keeps is that this sequence
  is sorted, and every rewriting of a node is an edit of the sequence.
\<close>

section \<open>Entries\<close>

record item =
  ikv :: kv
  ival :: bytes
  ipages :: "nat list"

abbreviation ikey :: "item \<Rightarrow> bytes" where "ikey x \<equiv> kv_key (ikv x)"

definition item_at :: "pager \<Rightarrow> item \<Rightarrow> bool" where
  "item_at st x \<longleftrightarrow> kv_ok (ikv x) \<and>
     (if overflows (ikv x) then chainAt st (ipages x) (ival x) (kv_head (ikv x)) \<and> unat (kv_length (ikv x)) = length (ival x)
      else ipages x = [] \<and> ival x = kv_value (ikv x) \<and> length (ival x) \<le> MaxInline)"

lemma item_at_kept: "item_at st x \<Longrightarrow> kept K st st' \<Longrightarrow> set (ipages x) \<subseteq> K \<Longrightarrow> item_at st' x"
  by (auto simp: item_at_def intro: chainAt_kept)

lemma item_bytes: "item_at st x \<Longrightarrow> entryBytes (ikv x) \<le> 2024"
  by (auto simp: item_at_def kv_ok_def entryBytes_def inlineBytes_def sizes layout split: if_splits)

lemma load_item: "item_at st x \<Longrightarrow> load st (ikv x) = Inr (ival x)"
  using loadChain_chainAt [of st "ipages x" "ival x" "kv_head (ikv x)" "unat (kv_length (ikv x))" "[]"]
  by (auto simp: item_at_def load_def)

lemma owned_ge: "owns st F ps \<Longrightarrow> p \<in> set ps \<Longrightarrow> 2 \<le> p"
  using heapD(4,5) [of st "F \<union> set ps"] by (force simp: owns_def)

lemma owned_count: "owns st F (ps @ qs) \<Longrightarrow> length ps < PageCount (meta st)"
  using heap_distinct_le(1) [of st "F \<union> set (ps @ qs)" ps] by (simp add: owns_def) blast

lemma release_item:
  assumes x: "item_at st x" and o: "owns st F (ipages x @ qs)"
  obtains st' where "release (ikv x) st = (Inr (), st')" "trades st F st' qs" "kept K st st'"
proof (cases "overflows (ikv x)")
  case False
  with x o have "release (ikv x) st = (Inr (), st)" "trades st F st qs" by (simp_all add: release_def item_at_def trades_refl)
  then show thesis using that by simp
next
  case True
  with x have c: "chainAt st (ipages x) (ival x) (kv_head (ikv x))" by (simp add: item_at_def)
  have "length (ipages x) < PageCount (meta st)"
    by (rule owned_count [OF o])
  then obtain st' where st': "releaseChain (PageCount (meta st)) (kv_head (ikv x)) st = (Inr (), st')" "trades st F st' qs" "disk st' = disk st"
    using releaseChain_chainAt [OF c o, of "PageCount (meta st)"] by auto
  moreover have "kept K st st'" by (rule same_disk_kept [OF st'(3) tradesD(3) [OF st'(2)]])
  ultimately show thesis using that True by (simp add: release_def)
qed

lemma store_spec:
  assumes o: "owns st F qs" and k: "length key \<le> MaxKey" and v: "length val \<le> MaxValue"
    and run: "store key val st = (res, st')" and lim: "pageLimit st'"
  shows "case res of Inl e \<Rightarrow> e \<in> quota_errors st
     | Inr e \<Rightarrow> \<exists>x. ikv x = e \<and> ikey x = key \<and> ival x = val \<and> item_at st' x \<and> trades st F st' (ipages x @ qs) \<and> kept (set qs) st st'
         \<and> entryBytes e = (if length val \<le> MaxInline then length key + length val + 8 else length key + 16)"
proof (cases "length val \<le> MaxInline")
  case True
  let ?e = "\<lparr>kv_key = key, kv_value = val, kv_head = 0, kv_length = 0\<rparr>"
  have "res = Inr ?e" "st' = st" using run True by (simp_all add: store_def)
  moreover have "item_at st \<lparr>ikv = ?e, ival = val, ipages = []\<rparr>" using k True by (simp add: item_at_def kv_ok_def overflows_def)
  ultimately show ?thesis
    using o True by (auto intro!: exI [of _ "\<lparr>ikv = ?e, ival = val, ipages = []\<rparr>"] simp: trades_refl entryBytes_def inlineBytes_def overflows_def layout)
next
  case False
  let ?k = "Suc ((length val - 1) div overflowChunk)"
  have pos: "0 < length val" using False unfolding sizes by linarith
  have d: "drop (?k * overflowChunk) val = []" using pos by (simp add: sizes)
  have lt: "?k = 0 \<or> (?k - 1) * overflowChunk < length val"
    using le_less_trans [OF div_times_less_eq_dividend [of "length val - 1" overflowChunk], of "length val"] pos by simp
  obtain r1 s1 where w: "writeChunks val ?k 0 st = (r1, s1)" by (cases "writeChunks val ?k 0 st")
  have s1: "s1 = st'" using run False w by (cases r1) (simp_all add: store_def writeOverflow_def)
  note sp = writeChunks_spec [of st F "[]" qs ?k val 0 r1 st']
  show ?thesis
  proof (cases r1)
    case (Inl e)
    then show ?thesis using sp o d lt w lim run False by (auto simp: store_def writeOverflow_def s1)
  next
    case (Inr head)
    let ?e = "\<lparr>kv_key = key, kv_value = [], kv_head = head, kv_length = word_of_nat (length val)\<rparr>"
    from Inr obtain rs where rs: "chainAt st' rs val head" "head < 2 ^ 64" "trades st F st' (rs @ qs)" "kept (set qs) st st'"
      using sp o d lt w lim by (auto simp: s1)
    have "rs \<noteq> []" using rs(1) pos by (cases rs) auto
    then have "head \<in> set rs" using rs(1) by (cases rs) auto
    then have h: "2 \<le> head" using owned_ge [OF tradesD(1) [OF rs(3)]] by simp
    have u: "unat (word_of_nat (length val) :: 32 word) = length val"
      using v by (simp add: unat_of_nat sizes)
    have "item_at st' \<lparr>ikv = ?e, ival = val, ipages = rs\<rparr>"
      using k v h rs(1,2) u by (simp add: item_at_def kv_ok_def overflows_def)
    moreover have "res = Inr ?e" using run False w Inr by (simp add: store_def writeOverflow_def)
    ultimately show ?thesis
      using rs h False by (auto intro!: exI [of _ "\<lparr>ikv = ?e, ival = val, ipages = rs\<rparr>"] simp: entryBytes_def inlineBytes_def overflows_def layout)
  qed
qed

section \<open>Marks and their order\<close>

datatype mark = Sep bytes | Ent item

fun before :: "mark \<Rightarrow> mark \<Rightarrow> bool" where
  "before (Sep a) (Sep b) \<longleftrightarrow> a < b"
| "before (Sep a) (Ent y) \<longleftrightarrow> a \<le> ikey y"
| "before (Ent x) (Sep b) \<longleftrightarrow> ikey x < b"
| "before (Ent x) (Ent y) \<longleftrightarrow> ikey x < ikey y"

lemma before_trans: "before a b \<Longrightarrow> before b c \<Longrightarrow> before a c"
  by (cases a; cases b; cases c) auto

abbreviation in_order :: "mark list \<Rightarrow> bool" where
  "in_order \<equiv> sorted_wrt before"

text \<open>The entries among the marks.\<close>

fun ents :: "mark list \<Rightarrow> item list" where
  "ents [] = []"
| "ents (Sep k # ms) = ents ms"
| "ents (Ent x # ms) = x # ents ms"

lemma ents_append [simp]: "ents (as @ bs) = ents as @ ents bs"
  by (induction as rule: ents.induct) auto

lemma ents_map [simp]: "ents (map Ent xs) = xs"
  by (induction xs) auto

lemma set_ents: "x \<in> set (ents ms) \<longleftrightarrow> Ent x \<in> set ms"
  by (induction ms rule: ents.induct) auto

text \<open>An entry put in its place, over the one with the same key if there is one; and a key taken out.\<close>

definition ins :: "item \<Rightarrow> item list \<Rightarrow> item list" where
  "ins x xs = filter (\<lambda>y. ikey y < ikey x) xs @ x # filter (\<lambda>y. ikey x < ikey y) xs"

definition del :: "bytes \<Rightarrow> item list \<Rightarrow> item list" where
  "del k xs = filter (\<lambda>y. ikey y \<noteq> k) xs"

lemma ins_between:
  assumes "\<forall>a \<in> set as. ikey a < ikey x" "\<forall>b \<in> set bs. ikey x < ikey b"
  shows "ins x (as @ xs @ bs) = as @ ins x xs @ bs"
proof -
  have "filter (\<lambda>y. ikey y < ikey x) as = as" "filter (\<lambda>y. ikey x < ikey y) bs = bs" using assms by (simp_all add: filter_id_conv)
  moreover have "filter (\<lambda>y. ikey x < ikey y) as = []" "filter (\<lambda>y. ikey y < ikey x) bs = []"
    using assms by (auto simp: filter_empty_conv dest: less_asym)
  ultimately show ?thesis by (simp add: ins_def)
qed

lemma del_between:
  assumes "\<forall>a \<in> set as. ikey a < k" "\<forall>b \<in> set bs. k < ikey b"
  shows "del k (as @ xs @ bs) = as @ del k xs @ bs"
proof -
  have "filter (\<lambda>y. ikey y \<noteq> k) as = as" "filter (\<lambda>y. ikey y \<noteq> k) bs = bs" using assms by (auto simp: filter_id_conv)
  then show ?thesis by (simp add: del_def)
qed

section \<open>Weaving separators between the marks of subtrees\<close>

fun weave :: "mark list list \<Rightarrow> bytes list \<Rightarrow> mark list" where
  "weave [] ks = []"
| "weave (l # ls) [] = l"
| "weave (l # ls) (k # ks) = l @ Sep k # weave ls ks"

lemma weave_append:
  "length ls = Suc (length ks) \<Longrightarrow> ls' \<noteq> [] \<Longrightarrow> weave (ls @ ls') (ks @ k # ks') = weave ls ks @ Sep k # weave ls' ks'"
proof (induction ls ks rule: weave.induct)
  case (2 l ls)
  then show ?case by (cases ls'; cases ks') auto
qed auto

lemma ents_weave: "length ls = Suc (length ks) \<Longrightarrow> ents (weave ls ks) = concat (map ents ls)"
  by (induction ls ks rule: weave.induct) auto

lemma weave_focus:
  assumes "length ls = Suc (length ks)" "i \<le> length ks"
  obtains A B where "weave ls ks = A @ ls ! i @ B" "\<And>m. weave (ls[i := m]) ks = A @ m @ B"
    "\<And>m1 s m2. weave (insertAt (Suc i) m2 (ls[i := m1])) (insertAt i s ks) = A @ m1 @ Sep s # m2 @ B"
    "if i = 0 then A = [] else A \<noteq> [] \<and> last A = Sep (ks ! (i - 1))"
    "if i = length ks then B = [] else B \<noteq> [] \<and> hd B = Sep (ks ! i)"
    "ents A = concat (map ents (take i ls))" "ents B = concat (map ents (drop (Suc i) ls))"
proof -
  have "\<exists>A B. weave ls ks = A @ ls ! i @ B \<and> (\<forall>m. weave (ls[i := m]) ks = A @ m @ B)
    \<and> (\<forall>m1 s m2. weave (insertAt (Suc i) m2 (ls[i := m1])) (insertAt i s ks) = A @ m1 @ Sep s # m2 @ B)
    \<and> (if i = 0 then A = [] else A \<noteq> [] \<and> last A = Sep (ks ! (i - 1)))
    \<and> (if i = length ks then B = [] else B \<noteq> [] \<and> hd B = Sep (ks ! i))
    \<and> ents A = concat (map ents (take i ls)) \<and> ents B = concat (map ents (drop (Suc i) ls))"
    using assms
  proof (induction i arbitrary: ls ks)
    case 0
    then obtain l ls' where l: "ls = l # ls'" by (cases ls) auto
    show ?case
    proof (cases ks)
      case Nil
      with 0 l show ?thesis by (auto intro!: exI [of _ "[]"] simp: insertAt_def)
    next
      case (Cons k ks')
      with 0 l obtain l2 ls2 where l2: "ls' = l2 # ls2" by (cases ls') auto
      with Cons l show ?thesis by (intro exI [of _ "[]"] exI [of _ "Sep k # weave ls' ks'"]) (use 0 in \<open>simp add: insertAt_def ents_weave\<close>)
    qed
  next
    case (Suc i)
    then obtain k ks' l ls' where l: "ks = k # ks'" "ls = l # ls'" by (cases ks; cases ls) auto
    with Suc.IH [of ls' ks'] Suc.prems obtain A B where ab: "weave ls' ks' = A @ ls' ! i @ B" "\<forall>m. weave (ls'[i := m]) ks' = A @ m @ B"
      "\<forall>m1 s m2. weave (insertAt (Suc i) m2 (ls'[i := m1])) (insertAt i s ks') = A @ m1 @ Sep s # m2 @ B"
      "if i = 0 then A = [] else A \<noteq> [] \<and> last A = Sep (ks' ! (i - 1))"
      "if i = length ks' then B = [] else B \<noteq> [] \<and> hd B = Sep (ks' ! i)"
      "ents A = concat (map ents (take i ls'))" "ents B = concat (map ents (drop (Suc i) ls'))"
      by auto
    with l show ?case
      by (intro exI [of _ "l @ Sep k # A"] exI [of _ B]) (auto simp: insertAt_def nth_Cons' split: if_splits)
  qed
  with that show thesis by blast
qed

lemma in_order_focus:
  assumes o: "in_order (weave ls ks)" and len: "length ls = Suc (length ks)"
  shows "sorted_wrt (<) ks"
  using assms
proof (induction ls ks rule: weave.induct)
  case (3 l ls k ks)
  then obtain l2 ls2 where l2: "ls = l2 # ls2" by (cases ls) auto
  have "Sep k' \<in> set (weave ls ks)" if "k' \<in> set ks" "length ls = Suc (length ks)" for k' ls ks
    using that by (induction ls ks rule: weave.induct) auto
  with 3 have "\<forall>k' \<in> set ks. k < k'" by (fastforce simp: sorted_wrt_append)
  with 3 show ?case by (simp add: sorted_wrt_append)
qed auto

text \<open>A key goes down into the one subtree it can be in: all marks to the left are below it, all to the right above.\<close>

lemma childFor_focus:
  fixes key :: bytes
  assumes o: "in_order (weave ls ks)" and len: "length ls = Suc (length ks)"
  defines "i \<equiv> childFor ks key"
  obtains A B where "i \<le> length ks" "weave ls ks = A @ ls ! i @ B" "\<And>m. weave (ls[i := m]) ks = A @ m @ B"
    "\<And>m1 s m2. weave (insertAt (Suc i) m2 (ls[i := m1])) (insertAt i s ks) = A @ m1 @ Sep s # m2 @ B"
    "\<And>a x. a \<in> set A \<Longrightarrow> ikey x = key \<Longrightarrow> before a (Ent x)" "\<And>b x. b \<in> set B \<Longrightarrow> ikey x = key \<Longrightarrow> before (Ent x) b"
    "ents A = concat (map ents (take i ls))" "ents B = concat (map ents (drop (Suc i) ls))"
proof -
  note c = childFor_spec [OF in_order_focus [OF o len], where key = key]
  have i: "i \<le> length ks" using c(1) by (simp add: i_def)
  obtain A B where ab: "weave ls ks = A @ ls ! i @ B" "\<And>m. weave (ls[i := m]) ks = A @ m @ B"
    "\<And>m1 s m2. weave (insertAt (Suc i) m2 (ls[i := m1])) (insertAt i s ks) = A @ m1 @ Sep s # m2 @ B"
    "if i = 0 then A = [] else A \<noteq> [] \<and> last A = Sep (ks ! (i - 1))"
    "if i = length ks then B = [] else B \<noteq> [] \<and> hd B = Sep (ks ! i)"
    "ents A = concat (map ents (take i ls))" "ents B = concat (map ents (drop (Suc i) ls))"
    using weave_focus [OF len i] by blast
  have A: "before a (Ent x)" if "a \<in> set A" "ikey x = key" for a x
  proof -
    have ne: "A \<noteq> []" "0 < i" using that ab(4) by (auto split: if_splits)
    have s: "before (Sep (ks ! (i - 1))) (Ent x)" using c(2) [of "i - 1"] ne that(2) by (simp add: i_def)
    have "A = butlast A @ [Sep (ks ! (i - 1))]" using ab(4) ne append_butlast_last_id [of A] by (simp split: if_splits)
    then obtain A' where A': "A = A' @ [Sep (ks ! (i - 1))]" by blast
    show ?thesis
    proof (cases "a = Sep (ks ! (i - 1))")
      case True
      with s show ?thesis by simp
    next
      case False
      with that A' have "a \<in> set A'" by auto
      then have "before a (Sep (ks ! (i - 1)))" using o ab(1) A' by (simp add: sorted_wrt_append)
      with s show ?thesis using before_trans by blast
    qed
  qed
  have B: "before (Ent x) b" if "b \<in> set B" "ikey x = key" for b x
  proof -
    have ne: "B \<noteq> []" "i < length ks" using that ab(5) i by (auto split: if_splits)
    have s: "before (Ent x) (Sep (ks ! i))" using c(3) [of i] ne that(2) by (simp add: i_def)
    obtain B' where B': "B = Sep (ks ! i) # B'" using ab(5) ne by (cases B) (auto split: if_splits)
    then have "b = Sep (ks ! i) \<or> before (Sep (ks ! i)) b" using that o ab(1) by (auto simp: sorted_wrt_append)
    with s show ?thesis using before_trans by blast
  qed
  show thesis by (rule that [OF i ab(1-3) _ _ ab(6,7)]) (auto intro: A B)
qed

section \<open>Shapes\<close>

datatype shape = LeafS nat "item list" | NodeS nat "bytes list" "shape list"

fun root :: "shape \<Rightarrow> nat" where
  "root (LeafS p xs) = p"
| "root (NodeS p ks ts) = p"

text \<open>The pages of a tree: its nodes and the chains of its values.\<close>

fun pgs :: "shape \<Rightarrow> nat list" where
  "pgs (LeafS p xs) = p # concat (map ipages xs)"
| "pgs (NodeS p ks ts) = p # concat (map pgs ts)"

fun trail :: "shape \<Rightarrow> mark list" where
  "trail (LeafS p xs) = map Ent xs"
| "trail (NodeS p ks ts) = weave (map trail ts) ks"

fun stored :: "pager \<Rightarrow> shape \<Rightarrow> bool" where
  "stored st (LeafS p xs) \<longleftrightarrow> readNode st p = Inr (IsLeaf (map ikv xs)) \<and> leaf_ok (map ikv xs) \<and> (\<forall>x \<in> set xs. item_at st x)"
| "stored st (NodeS p ks ts) \<longleftrightarrow> readNode st p = Inr (IsBranch \<lparr>bkeys = ks, children = map root ts\<rparr>)
     \<and> branch_ok \<lparr>bkeys = ks, children = map root ts\<rparr> \<and> (\<forall>t \<in> set ts. stored st t)"

text \<open>Every leaf at the same depth, and no branch without a separator.\<close>

fun level :: "nat \<Rightarrow> shape \<Rightarrow> bool" where
  "level h (LeafS p xs) \<longleftrightarrow> h = 0"
| "level h (NodeS p ks ts) \<longleftrightarrow> ks \<noteq> [] \<and> (\<exists>m. h = Suc m \<and> (\<forall>t \<in> set ts. level m t))"

lemma level_Suc [simp]: "level (Suc h) (NodeS p ks ts) \<longleftrightarrow> ks \<noteq> [] \<and> (\<forall>t \<in> set ts. level h t)"
  by simp

declare level.simps(2) [simp del]

lemma root_in_pgs: "root t \<in> set (pgs t)"
  by (cases t) simp_all

lemma stored_kept: "stored st t \<Longrightarrow> kept K st st' \<Longrightarrow> set (pgs t) \<subseteq> K \<Longrightarrow> stored st' t"
proof (induction t)
  case (LeafS p xs)
  then show ?case using kept_readNode [of K st st' p] item_at_kept [of st _ K st'] by (auto simp: UN_subset_iff)
next
  case (NodeS p ks ts)
  then show ?case using kept_readNode [of K st st' p] by (auto simp: UN_subset_iff)
qed

lemma length_pgs: "t \<in> set ts \<Longrightarrow> length (pgs t) < length (pgs (NodeS p ks ts))"
  by (induction ts) auto

lemma level_length: "level h t \<Longrightarrow> stored st t \<Longrightarrow> h < length (pgs t)"
proof (induction t arbitrary: h)
  case (LeafS p xs)
  then show ?case by simp
next
  case (NodeS p ks ts)
  then obtain m where m: "h = Suc m" "\<forall>t \<in> set ts. level m t" by (auto simp: level.simps(2))
  have "ts \<noteq> []" using NodeS.prems(2) by (auto simp: branch_ok_def)
  then obtain t where t: "t \<in> set ts" by (cases ts) auto
  have "m < length (pgs t)" using NodeS.IH [OF t] m(2) t NodeS.prems(2) by simp
  with length_pgs [OF t, of p ks] m(1) show ?case by simp
qed

text \<open>A level of pages for each step down: the walks have enough of them.\<close>

lemma level_fuel:
  assumes "level h t" "stored st t" "owns st F (pgs t @ qs)"
  shows "h < depthFuel st"
  using level_length [OF assms(1,2)] owned_count [OF assms(3)] by (simp add: depthFuel_def)

lemma owned_number: "owns st F ps \<Longrightarrow> pageLimit st \<Longrightarrow> p \<in> set ps \<Longrightarrow> p < 2 ^ 64 \<and> p \<noteq> 0"
  using heapD(4,5) [of st "F \<union> set ps"] by (force simp: owns_def pageLimit_def)

section \<open>Writing nodes of a shape\<close>

text \<open>What comes of writing the node \<open>t\<close> would be, once its page is known.\<close>

definition written_as :: "pager \<Rightarrow> nat set \<Rightarrow> (nat \<Rightarrow> shape) \<Rightarrow> nat list \<Rightarrow> (err + nat) \<times> pager \<Rightarrow> bool" where
  "written_as st F t ps out \<longleftrightarrow>
     (case out of
        (Inl e, _) \<Rightarrow> e \<in> quota_errors st
      | (Inr pid, st') \<Rightarrow> trades st F st' (pgs (t pid) @ ps) \<and> stored st' (t pid) \<and> kept (set ps) st st')"

lemma writeLeaf_shape:
  assumes o: "owns st F (given pos @ concat (map ipages xs) @ ps)" and lim: "pageLimit st'"
    and run: "writeLeaf pos (map ikv xs) st = (res, st')" and ok: "leaf_ok (map ikv xs)" "\<forall>x \<in> set xs. item_at st x"
  shows "written_as st F (\<lambda>pid. LeafS pid xs) ps (res, st')"
proof (cases res)
  case (Inl e)
  with writeLeaf_placed [OF o lim run ok(1)] show ?thesis by (simp add: written_as_def)
next
  case (Inr pid)
  with writeLeaf_placed [OF o lim run ok(1)] have
    w: "trades st F st' (pid # concat (map ipages xs) @ ps)" "kept (set (concat (map ipages xs) @ ps)) st st'"
    "readNode st' pid = Inr (IsLeaf (map ikv xs))"
    by simp_all
  have "item_at st' x" if "x \<in> set xs" for x
    by (rule item_at_kept [OF _ w(2)]) (use ok(2) that in auto)
  with w ok(1) Inr kept_subset [OF w(2), of "set ps"] show ?thesis by (simp add: written_as_def)
qed

lemma writeBranch_shape:
  assumes o: "owns st F (given pos @ concat (map pgs ts) @ ps)" and lim: "pageLimit st'"
    and run: "writeBranch pos \<lparr>bkeys = ks, children = map root ts\<rparr> st = (res, st')"
    and ok: "branch_ok \<lparr>bkeys = ks, children = map root ts\<rparr>" "\<forall>t \<in> set ts. stored st t"
  shows "written_as st F (\<lambda>pid. NodeS pid ks ts) ps (res, st')"
proof (cases res)
  case (Inl e)
  with writeBranch_placed [OF o lim run ok(1)] show ?thesis by (simp add: written_as_def)
next
  case (Inr pid)
  with writeBranch_placed [OF o lim run ok(1)] have
    w: "trades st F st' (pid # concat (map pgs ts) @ ps)" "kept (set (concat (map pgs ts) @ ps)) st st'"
    "readNode st' pid = Inr (IsBranch \<lparr>bkeys = ks, children = map root ts\<rparr>)"
    by simp_all
  have "stored st' t" if "t \<in> set ts" for t
    by (rule stored_kept [OF _ w(2)]) (use ok(2) that in auto)
  with w ok(1) Inr kept_subset [OF w(2), of "set ps"] show ?thesis by (simp add: written_as_def)
qed

end
