(* ===== verification/Btree_Put.thy ===== *)
theory Btree_Put
  imports Btree_Shape
begin

text \<open>
  Storing a key: every step of \<^verbatim>\<open>insert\<close> rewrites one node of the tree, and the sequence of marks of
  the whole gains the new entry and, where a node splits, a separator.
\<close>

section \<open>A leaf with one more entry\<close>

lemma filter_take:
  assumes "pos \<le> length xs" "\<And>i. i < pos \<Longrightarrow> P (xs ! i)" "\<And>i. pos \<le> i \<Longrightarrow> i < length xs \<Longrightarrow> \<not> P (xs ! i)"
  shows "filter P xs = take pos xs"
proof -
  have "\<forall>x \<in> set (take pos xs). P x" using assms(1,2) by (auto simp: in_set_conv_nth)
  moreover have "\<forall>x \<in> set (drop pos xs). \<not> P x" using assms(1,3) by (auto simp: in_set_conv_nth)
  ultimately have "filter P (take pos xs @ drop pos xs) = take pos xs"
    unfolding filter_append using filter_True [of "take pos xs" P] filter_False [of "drop pos xs" P] by simp
  then show ?thesis by simp
qed

lemma filter_drop:
  assumes "pos \<le> length xs" "\<And>i. i < pos \<Longrightarrow> \<not> P (xs ! i)" "\<And>i. pos \<le> i \<Longrightarrow> i < length xs \<Longrightarrow> P (xs ! i)"
  shows "filter P xs = drop pos xs"
proof -
  have "\<forall>x \<in> set (take pos xs). \<not> P x" using assms(1,2) by (auto simp: in_set_conv_nth)
  moreover have "\<forall>x \<in> set (drop pos xs). P x" using assms(1,3) by (auto simp: in_set_conv_nth)
  ultimately have "filter P (take pos xs @ drop pos xs) = drop pos xs"
    unfolding filter_append using filter_False [of "take pos xs" P] filter_True [of "drop pos xs" P] by simp
  then show ?thesis by simp
qed

lemma in_order_Ents: "in_order (map Ent xs) \<longleftrightarrow> keys_sorted (map ikv xs)"
  by (simp add: keys_sorted_def sorted_wrt_map)

text \<open>Where \<^verbatim>\<open>findKey\<close> points in a sorted leaf.\<close>

lemma findKey_items:
  assumes s: "keys_sorted (map ikv xs)" and f: "findKey (map ikv xs) k = (pos, found)"
  shows "filter (\<lambda>y. ikey y < k) xs = take pos xs"
    "filter (\<lambda>y. k < ikey y) xs = drop (if found then Suc pos else pos) xs"
    "found \<Longrightarrow> pos < length xs \<and> ikey (xs ! pos) = k" "pos \<le> length xs" "found \<longleftrightarrow> k \<in> ikey ` set xs"
proof -
  note fs = findKey_spec [OF s f]
  show pl: "pos \<le> length xs" using fs(1) by simp
  show "found \<Longrightarrow> pos < length xs \<and> ikey (xs ! pos) = k" using fs(4) by auto
  show "filter (\<lambda>y. ikey y < k) xs = take pos xs"
  proof (rule filter_take [OF pl])
    show "ikey (xs ! i) < k" if "i < pos" for i using fs(2) [OF that] that pl by simp
    show "\<not> ikey (xs ! i) < k" if "pos \<le> i" "i < length xs" for i using fs(3) [OF that(1)] that(2) by (simp add: not_less)
  qed
  have hi: "k < ikey (xs ! i)" if "(if found then Suc pos else pos) \<le> i" "i < length xs" for i
  proof -
    have le: "k \<le> ikey (xs ! i)" using fs(3) [of i] that by (simp split: if_splits)
    have "k \<noteq> ikey (xs ! i)"
    proof
      assume e: "k = ikey (xs ! i)"
      then have found: found using fs(5) that(2) nth_mem [OF that(2)] by (simp add: image_image)
      then have "pos < i" "ikey (xs ! pos) = k" using that fs(4) by (auto split: if_splits)
      then have "ikey (xs ! pos) < ikey (xs ! i)"
        using s that(2) sorted_wrt_nth_less [of "(<)" "map ikey xs" pos i] by (simp add: keys_sorted_def comp_def)
      with e \<open>ikey (xs ! pos) = k\<close> show False by simp
    qed
    with le show ?thesis by simp
  qed
  show "filter (\<lambda>y. k < ikey y) xs = drop (if found then Suc pos else pos) xs"
  proof (rule filter_drop)
    show "(if found then Suc pos else pos) \<le> length xs" using pl fs(4) by simp
    show "\<not> k < ikey (xs ! i)" if i: "i < (if found then Suc pos else pos)" for i
    proof (cases "i < pos")
      case True
      with fs(2) [OF True] pl show ?thesis by (simp add: less_imp_le not_less)
    next
      case False
      with i fs(4) show ?thesis by (simp add: less_Suc_eq split: if_splits)
    qed
  qed (rule hi)
  show "found \<longleftrightarrow> k \<in> ikey ` set xs" using fs(5) by (simp add: image_image)
qed

lemma ins_findKey:
  assumes s: "keys_sorted (map ikv xs)" and f: "findKey (map ikv xs) (ikey x) = (pos, found)"
  shows "(if found then (map ikv xs)[pos := ikv x] else insertAt pos (ikv x) (map ikv xs)) = map ikv (ins x xs)"
    "mset (concat (map ipages (ins x xs)) @ (if found then ipages (xs ! pos) else [])) = mset (concat (map ipages xs) @ ipages x)"
proof -
  note fi = findKey_items [OF s f]
  have i: "ins x xs = take pos xs @ x # drop (if found then Suc pos else pos) xs" using fi(1,2) by (simp add: ins_def)
  show "(if found then (map ikv xs)[pos := ikv x] else insertAt pos (ikv x) (map ikv xs)) = map ikv (ins x xs)"
    using fi(3) by (auto simp: i insertAt_def take_map drop_map upd_conv_take_nth_drop)
  have "xs = take pos xs @ (if found then [xs ! pos] else []) @ drop (if found then Suc pos else pos) xs"
    using fi(3) by (auto simp: id_take_nth_drop [symmetric])
  then have "mset (concat (map ipages xs))
    = mset (concat (map ipages (take pos xs @ (if found then [xs ! pos] else []) @ drop (if found then Suc pos else pos) xs)))"
    by (rule arg_cong)
  then show "mset (concat (map ipages (ins x xs)) @ (if found then ipages (xs ! pos) else [])) = mset (concat (map ipages xs) @ ipages x)"
    by (simp add: i)
qed

lemma in_order_ins:
  assumes o: "in_order (A @ map Ent xs @ B)" and "\<forall>a \<in> set A. before a (Ent x)" "\<forall>b \<in> set B. before (Ent x) b"
  shows "in_order (A @ map Ent (ins x xs) @ B)"
proof -
  have "sorted_wrt (\<lambda>a b. ikey a < ikey b) xs" using o by (simp add: sorted_wrt_append sorted_wrt_map)
  then have "in_order (map Ent (ins x xs))"
    by (auto simp: ins_def sorted_wrt_append sorted_wrt_map intro: sorted_wrt_filter)
  with assms show ?thesis by (auto simp: sorted_wrt_append ins_def)
qed

lemma in_order_sep:
  assumes o: "in_order (A @ map Ent (ys @ z # zs) @ B)" and y: "ys \<noteq> []"
  shows "in_order (A @ map Ent ys @ Sep (ikey z) # map Ent (z # zs) @ B)"
proof -
  obtain y ys' where ys: "ys = y # ys'" using y by (cases ys) auto
  have yz: "\<forall>y \<in> set ys. ikey y < ikey z" using o by (auto simp: sorted_wrt_append)
  have "before a (Sep (ikey z))" if "a \<in> set A" for a
  proof -
    have "before a (Ent y)" using o that ys by (auto simp: sorted_wrt_append)
    moreover have "before (Ent y) (Sep (ikey z))" using yz ys by simp
    ultimately show ?thesis by (rule before_trans)
  qed
  moreover have "before (Sep (ikey z)) b" if "b \<in> set B" for b
    by (rule before_trans [of _ "Ent z"]) (use o that in \<open>auto simp: sorted_wrt_append\<close>)
  moreover have "\<forall>w \<in> set zs. ikey z < ikey w" using o by (simp add: sorted_wrt_append ball_Un)
  ultimately show ?thesis using o yz by (auto simp: sorted_wrt_append less_imp_le)
qed

section \<open>One node, or two halves\<close>

text \<open>
  What a rewriting returns: one subtree, or two and the separator between them; \<open>R\<close> are the marks and
  \<open>ps\<close> the pages of the result.
\<close>

definition grown :: "pager \<Rightarrow> nat \<Rightarrow> nat \<times> bytes \<times> nat \<Rightarrow> mark list \<Rightarrow> nat list \<Rightarrow> bool" where
  "grown st h res R ps \<longleftrightarrow>
     (case res of (l, sep, r) \<Rightarrow>
        if r = 0 then \<exists>t. root t = l \<and> stored st t \<and> level h t \<and> R = trail t \<and> ps = pgs t
        else \<exists>t1 t2. root t1 = l \<and> root t2 = r \<and> stored st t1 \<and> stored st t2 \<and> level h t1 \<and> level h t2
               \<and> R = trail t1 @ Sep sep # trail t2 \<and> ps = pgs t1 @ pgs t2 \<and> length sep \<le> MaxKey)"

lemma grown_one: "stored st t \<Longrightarrow> level h t \<Longrightarrow> grown st h (root t, sep, 0) (trail t) (pgs t)"
  by (auto simp: grown_def)

lemma grown_two:
  "stored st t1 \<Longrightarrow> stored st t2 \<Longrightarrow> level h t1 \<Longrightarrow> level h t2 \<Longrightarrow> root t2 \<noteq> 0 \<Longrightarrow> length sep \<le> MaxKey \<Longrightarrow>
     grown st h (root t1, sep, root t2) (trail t1 @ Sep sep # trail t2) (pgs t1 @ pgs t2)"
  unfolding grown_def by auto

text \<open>Two nodes written one after the other: the first is still there when the second has been written.\<close>

lemma two_writes:
  assumes w1: "\<And>r s. wa st = (r, s) \<Longrightarrow> pageLimit s \<Longrightarrow> written_as st F fa (given b @ pb) (r, s)"
    and w2: "\<And>l s r s'. kept (set pb) st s \<Longrightarrow> owns s F (given b @ pb @ pgs (fa l)) \<Longrightarrow> wb s = (r, s') \<Longrightarrow> pageLimit s' \<Longrightarrow>
       written_as s F fb (pgs (fa l)) (r, s')"
    and anchor: "anchored wb"
    and run: "bnd wa (\<lambda>l. bnd wb (\<lambda>r. ret (g l r))) st = (res, st')" and lim: "pageLimit st'"
  shows "case res of Inl e \<Rightarrow> e \<in> quota_errors st
    | Inr y \<Rightarrow> \<exists>l r. y = g l r \<and> stored st' (fa l) \<and> stored st' (fb r) \<and> trades st F st' (pgs (fa l) @ pgs (fb r))"
proof -
  obtain r1 s1 where e1: "wa st = (r1, s1)" by (cases "wa st")
  show ?thesis
  proof (cases r1)
    case (Inl e)
    with run e1 have "res = Inl e" "st' = s1" by simp_all
    with w1 [OF e1] lim Inl show ?thesis by (simp add: written_as_def)
  next
    case (Inr l)
    obtain r2 s2 where e2: "wb s1 = (r2, s2)" by (cases "wb s1")
    have res: "st' = s2" "res = map_sum id (g l) r2" using run e1 Inr e2 by (cases r2; simp)+
    have lim1: "pageLimit s1" using pageLimit_back [OF lim] anchoredD [OF anchor e2] res(1) by simp
    have a1: "trades st F s1 (pgs (fa l) @ given b @ pb)" "stored s1 (fa l)" "kept (set (given b @ pb)) st s1"
      using w1 [OF e1 lim1] Inr by (simp_all add: written_as_def)
    have o2: "owns s1 F (given b @ pb @ pgs (fa l))"
      using tradesD(1) [OF a1(1)] by (subst owns_perm [of _ "pgs (fa l) @ given b @ pb"]) simp_all
    have a2: "written_as s1 F fb (pgs (fa l)) (r2, s2)"
      by (rule w2 [OF kept_subset [OF a1(3)] o2 e2]) (use lim res in auto)
    show ?thesis
    proof (cases r2)
      case e: (Inl e)
      with a2 res quota_errors_anchor [OF tradesD(3) [OF a1(1)]] show ?thesis by (simp add: written_as_def)
    next
      case r: (Inr r)
      with a2 have t: "trades s1 F s2 (pgs (fb r) @ pgs (fa l))" "stored s2 (fb r)" "kept (set (pgs (fa l))) s1 s2"
        by (simp_all add: written_as_def)
      have "trades st F s2 (pgs (fa l) @ pgs (fb r))"
        using trades_trans [OF a1(1) t(1)] by (subst trades_perm [of _ "pgs (fb r) @ pgs (fa l)"]) simp_all
      with stored_kept [OF a1(2) t(3) subset_refl] t(2) res r show ?thesis by auto
    qed
  qed
qed

text \<open>A single node written.\<close>

lemma one_write:
  assumes w: "\<And>r s. w st = (r, s) \<Longrightarrow> pageLimit s \<Longrightarrow> written_as st F f [] (r, s)"
    and run: "bnd w (\<lambda>l. ret (g l)) st = (res, st')" and lim: "pageLimit st'"
  shows "case res of Inl e \<Rightarrow> e \<in> quota_errors st | Inr y \<Rightarrow> \<exists>l. y = g l \<and> stored st' (f l) \<and> trades st F st' (pgs (f l))"
proof -
  obtain r1 s1 where e1: "w st = (r1, s1)" by (cases "w st")
  have res: "st' = s1" "res = map_sum id g r1" using run e1 by (cases r1; simp)+
  with w [OF e1] lim show ?thesis by (cases r1) (auto simp: written_as_def)
qed

lemma leafOrSplit_spec:
  assumes o: "owns st F (given pid @ concat (map ipages xs))" and lim: "pageLimit st'"
    and items: "\<forall>x \<in> set xs. item_at st x" and run: "leafOrSplit pid (map ikv xs) st = (res, st')"
  shows "case res of Inl e \<Rightarrow> e \<in> quota_errors st \<or> e = ErrCannotSplit \<and> capacityBytes < leafBytes (map ikv xs) \<and> splitLeaf (map ikv xs) = None
    | Inr r \<Rightarrow> \<exists>R ps. grown st' 0 r R ps \<and> trades st F st' ps \<and>
        (R = map Ent xs \<or> (\<exists>ys z zs. xs = ys @ z # zs \<and> ys \<noteq> [] \<and> R = map Ent ys @ Sep (ikey z) # map Ent (z # zs)))"
proof (cases "leafBytes (map ikv xs) \<le> capacityBytes")
  case True
  have ok: "leaf_ok (map ikv xs)" using True items by (auto simp: leaf_ok_def item_at_def)
  have "case res of Inl e \<Rightarrow> e \<in> quota_errors st | Inr y \<Rightarrow> \<exists>l. y = (l, [], 0) \<and> stored st' (LeafS l xs) \<and> trades st F st' (pgs (LeafS l xs))"
  proof (rule one_write [where w = "writeLeaf pid (map ikv xs)"])
    show "written_as st F (\<lambda>l. LeafS l xs) [] (r, s)" if "writeLeaf pid (map ikv xs) st = (r, s)" "pageLimit s" for r s
      by (rule writeLeaf_shape [OF _ that(2,1) ok items]) (use o in simp)
  qed (use run True lim in \<open>simp_all add: leafOrSplit_def\<close>)
  then show ?thesis using grown_one [of st' "LeafS _ xs" 0 "[]"] by (auto split: sum.splits)
next
  case False
  show ?thesis
  proof (cases "splitLeaf (map ikv xs)")
    case None
    with run False show ?thesis by (auto simp: leafOrSplit_def)
  next
    case (Some c)
    note sp = splitLeaf_Some [OF Some]
    let ?ys = "take c xs" and ?zs = "drop c xs"
    have zs: "?zs = xs ! c # drop (Suc c) xs" using sp(2) by (simp add: Cons_nth_drop_Suc)
    have ok: "leaf_ok (map ikv ?ys)" "leaf_ok (map ikv ?zs)"
      using sp(3,4) items by (auto simp: leaf_ok_def item_at_def take_map drop_map dest: in_set_takeD in_set_dropD)
    have it: "\<forall>x \<in> set ?ys. item_at st x" "\<forall>x \<in> set ?zs. item_at st x"
      using items by (auto dest: in_set_takeD in_set_dropD)
    have split: "concat (map ipages xs) = concat (map ipages ?ys) @ concat (map ipages ?zs)"
      by (metis append_take_drop_id concat_append map_append)
    have "case res of Inl e \<Rightarrow> e \<in> quota_errors st
      | Inr y \<Rightarrow> \<exists>l r. y = (l, ikey (xs ! c), r) \<and> stored st' (LeafS l ?ys) \<and> stored st' (LeafS r ?zs)
          \<and> trades st F st' (pgs (LeafS l ?ys) @ pgs (LeafS r ?zs))"
    proof (rule two_writes [where wa = "writeLeaf pid (map ikv ?ys)" and wb = "writeLeaf 0 (map ikv ?zs)"
          and b = 0 and pb = "concat (map ipages ?zs)"])
      show "written_as st F (\<lambda>l. LeafS l ?ys) (given 0 @ concat (map ipages ?zs)) (r, s)"
        if "writeLeaf pid (map ikv ?ys) st = (r, s)" "pageLimit s" for r s
        by (rule writeLeaf_shape [OF _ that(2,1) ok(1) it(1)]) (use o in \<open>simp only: split\<close>, simp)
      show "written_as s F (\<lambda>r. LeafS r ?zs) (pgs (LeafS l ?ys)) (r, s')"
        if "kept (set (concat (map ipages ?zs))) st s" "owns s F (given 0 @ concat (map ipages ?zs) @ pgs (LeafS l ?ys))"
          "writeLeaf 0 (map ikv ?zs) s = (r, s')" "pageLimit s'" for l s r s'
        by (rule writeLeaf_shape [OF that(2,4,3) ok(2)]) (use it(2) item_at_kept [OF _ that(1)] in fastforce)
    qed (use run False Some sp(2) lim in \<open>simp_all add: leafOrSplit_def take_map drop_map anchors\<close>)
    then show ?thesis
    proof (cases res)
      case (Inr y)
      with \<open>case res of Inl e \<Rightarrow> _ e | Inr y \<Rightarrow> _ y\<close> obtain l r where y: "y = (l, ikey (xs ! c), r)" "stored st' (LeafS l ?ys)"
        "stored st' (LeafS r ?zs)" "trades st F st' (pgs (LeafS l ?ys) @ pgs (LeafS r ?zs))"
        by auto
      have "r \<noteq> 0" using owned_ge [OF tradesD(1) [OF y(4)], of r] by simp
      moreover have "length (ikey (xs ! c)) \<le> MaxKey" using items sp(2) by (simp add: item_at_def kv_ok_def)
      ultimately have "grown st' 0 y (map Ent ?ys @ Sep (ikey (xs ! c)) # map Ent (xs ! c # drop (Suc c) xs)) (pgs (LeafS l ?ys) @ pgs (LeafS r ?zs))"
        using grown_two [OF y(2,3), of 0 "ikey (xs ! c)"] y(1) zs by simp
      moreover have "xs = ?ys @ xs ! c # drop (Suc c) xs" "?ys \<noteq> []" using sp(1,2) zs append_take_drop_id [of c xs] by auto
      ultimately show ?thesis using y(4) unfolding Inr sum.case by blast
    qed simp
  qed
qed

text \<open>A cut of a branch that had to be split leaves a separator on both sides.\<close>

lemma splitBranch_wide:
  assumes sp: "splitBranch n = Some c" and big: "capacityBytes < branchBytes n" and k: "\<forall>k \<in> set (bkeys n). length k \<le> MaxKey"
  shows "0 < c" "Suc c < length (bkeys n)"
proof -
  let ?xs = "map keyBytes (bkeys n)" and ?n = "length (bkeys n)"
  let ?l = "\<lambda>c. int branchHeader + prefixSum ?xs c"
  let ?r = "\<lambda>c. int branchHeader + prefixSum ?xs ?n - prefixSum ?xs (Suc c)"
  have b: "bestCut ?l ?r None [0..<?n] = Some c" using sp by (simp only: splitBranch_def' Let_def)
  from bestCut_spec [OF b] have c: "c < ?n" "fits ?l ?r c" "\<forall>k \<in> set [0..<?n]. fits ?l ?r k \<longrightarrow> skew ?l ?r c \<le> skew ?l ?r k"
    by auto
  have S: "4038 < sum_list ?xs" using big by (simp add: branchBytes_sum sizes layout)
  have e: "keyBytes k \<le> 524" if "k \<in> set (bkeys n)" for k using k that by (simp add: keyBytes_def layout)
  have step: "prefixSum ?xs (Suc i) = prefixSum ?xs i + int (keyBytes (bkeys n ! i))" if "i < ?n" for i
    using that by (simp add: prefixSum_def take_Suc_conv_app_nth)
  have p0: "prefixSum ?xs 0 = 0" and pn: "prefixSum ?xs ?n = int (sum_list ?xs)" by (simp_all add: prefixSum_def)
  have s524: "int (keyBytes (bkeys n ! i)) \<le> 524" if "i < ?n" for i using e [of "bkeys n ! i"] that by simp
  have n2: "2 < ?n"
  proof (rule ccontr)
    assume "\<not> 2 < ?n"
    moreover have "sum_list ?xs \<le> ?n * 524"
      using sum_list_mono [of "bkeys n" keyBytes "\<lambda>_. 524"] e by (simp add: sum_list_triv)
    ultimately show False using S by simp
  qed
  show "0 < c"
  proof (rule ccontr)
    assume "\<not> 0 < c"
    then have c0: "c = 0" by simp
    have i: "0 < ?n" "1 < ?n" using n2 by linarith+
    note st = step [OF i(1)] step [OF i(2)] s524 [OF i(1)] s524 [OF i(2)]
    have f1: "fits ?l ?r 1"
      using c(2) st p0 unfolding fits_def c0 sizes by (simp add: layout)
    then have "skew ?l ?r 0 \<le> skew ?l ?r 1" using c(3) i(2) c0 by simp
    then show False using st p0 pn S by (simp add: skew_def keyBytes_def layout)
  qed
  show "Suc c < ?n"
  proof (rule ccontr)
    assume "\<not> Suc c < ?n"
    then have c0: "c = ?n - 1" "Suc c = ?n" using c(1) by simp_all
    let ?d = "?n - 2"
    have d: "Suc ?d = c" "?d < ?n" "c < ?n" using c0 n2 by simp_all
    note st = step [OF d(2)] step [OF d(3)] s524 [OF d(2)] s524 [OF d(3)]
    have f1: "fits ?l ?r ?d"
      using c(2) st unfolding fits_def sizes c0(2) d(1) by (simp add: layout)
    then have "skew ?l ?r c \<le> skew ?l ?r ?d" using c(3) d(2) by simp
    then show False using st pn S unfolding skew_def c0(2) d(1) by (simp add: keyBytes_def layout)
  qed
qed

lemma weave_cut:
  assumes "length us = Suc (length ls)" "Suc d < length ls"
  shows "weave (map f us) ls = weave (map f (take (Suc d) us)) (take d ls) @ Sep (ls ! d) # weave (map f (drop (Suc d) us)) (drop (Suc d) ls)"
proof -
  have "weave (map f (take (Suc d) us) @ map f (drop (Suc d) us)) (take d ls @ ls ! d # drop (Suc d) ls)
    = weave (map f (take (Suc d) us)) (take d ls) @ Sep (ls ! d) # weave (map f (drop (Suc d) us)) (drop (Suc d) ls)"
    by (rule weave_append) (use assms in auto)
  moreover have "take d ls @ ls ! d # drop (Suc d) ls = ls" using assms(2) by (simp add: id_take_nth_drop [symmetric])
  moreover have "map f (take (Suc d) us) @ map f (drop (Suc d) us) = map f us" by (simp only: map_append [symmetric] append_take_drop_id)
  ultimately show ?thesis by simp
qed

lemma branchOrSplit_spec:
  assumes o: "owns st F (given pid @ concat (map pgs ts))" and lim: "pageLimit st'"
    and sub: "\<forall>t \<in> set ts. stored st t \<and> level h t" and len: "length ts = Suc (length ks)" and ne: "ks \<noteq> []"
    and keys: "\<forall>k \<in> set ks. length k \<le> MaxKey" and room: "branchBytes \<lparr>bkeys = ks, children = map root ts\<rparr> \<le> 2 * capacityBytes - branchHeader"
    and run: "branchOrSplit pid \<lparr>bkeys = ks, children = map root ts\<rparr> st = (res, st')"
  shows "case res of Inl e \<Rightarrow> e \<in> quota_errors st
    | Inr r \<Rightarrow> \<exists>ps. grown st' (Suc h) r (weave (map trail ts) ks) ps \<and> trades st F st' ps"
proof -
  let ?n = "\<lparr>bkeys = ks, children = map root ts\<rparr>"
  have "anchored (branchOrSplit pid ?n)" unfolding branchOrSplit_def by (intro anchors)
  from anchoredD [OF this run] have lim0: "pageLimit st" by (rule pageLimit_back [OF lim])
  have num: "root t < 2 ^ 64" if "t \<in> set ts" for t
    using owned_number [OF o lim0, of "root t"] root_in_pgs [of t] that by auto
  show ?thesis
  proof (cases "branchBytes ?n \<le> capacityBytes")
    case True
    have ok: "branch_ok ?n" using True len keys num by (auto simp: branch_ok_def)
    have "case res of Inl e \<Rightarrow> e \<in> quota_errors st | Inr y \<Rightarrow> \<exists>l. y = (l, [], 0) \<and> stored st' (NodeS l ks ts) \<and> trades st F st' (pgs (NodeS l ks ts))"
    proof (rule one_write [where w = "writeBranch pid ?n"])
      show "written_as st F (\<lambda>l. NodeS l ks ts) [] (r, s)" if "writeBranch pid ?n st = (r, s)" "pageLimit s" for r s
        by (rule writeBranch_shape [OF _ that(2,1) ok]) (use o sub in simp_all)
    qed (use run True lim in \<open>simp_all add: branchOrSplit_def\<close>)
    then show ?thesis using grown_one [of st' "NodeS _ ks ts" "Suc h" "[]"] sub ne by (auto split: sum.splits)
  next
    case False
    then obtain c where Some: "splitBranch ?n = Some c" using splitBranch_succeeds [of ?n] room by fastforce
    note sp = splitBranch_Some [OF Some] and wide = splitBranch_wide [OF Some]
    have w: "0 < c" "Suc c < length ks" using wide False keys by simp_all
    let ?ts = "take (Suc c) ts" and ?us = "drop (Suc c) ts" and ?ks = "take c ks" and ?ls = "drop (Suc c) ks"
    let ?a = "\<lparr>bkeys = ?ks, children = map root ?ts\<rparr>" and ?b = "\<lparr>bkeys = ?ls, children = map root ?us\<rparr>"
    have ok: "branch_ok ?a" "branch_ok ?b"
      using sp(2,3) len w keys num by (auto simp: branch_ok_def min_def dest: in_set_takeD in_set_dropD)
    have it: "\<forall>t \<in> set ?ts. stored st t \<and> level h t" "\<forall>t \<in> set ?us. stored st t \<and> level h t"
      using sub by (auto dest: in_set_takeD in_set_dropD)
    have split: "concat (map pgs ts) = concat (map pgs ?ts) @ concat (map pgs ?us)"
      by (metis append_take_drop_id concat_append map_append)
    have "case res of Inl e \<Rightarrow> e \<in> quota_errors st
      | Inr y \<Rightarrow> \<exists>l r. y = (l, ks ! c, r) \<and> stored st' (NodeS l ?ks ?ts) \<and> stored st' (NodeS r ?ls ?us)
          \<and> trades st F st' (pgs (NodeS l ?ks ?ts) @ pgs (NodeS r ?ls ?us))"
    proof (rule two_writes [where wa = "writeBranch pid ?a" and wb = "writeBranch 0 ?b" and b = 0 and pb = "concat (map pgs ?us)"])
      show "written_as st F (\<lambda>l. NodeS l ?ks ?ts) (given 0 @ concat (map pgs ?us)) (r, s)"
        if "writeBranch pid ?a st = (r, s)" "pageLimit s" for r s
        by (rule writeBranch_shape [OF _ that(2,1) ok(1)]) (use o it in \<open>simp_all add: split\<close>)
      show "written_as s F (\<lambda>r. NodeS r ?ls ?us) (pgs (NodeS l ?ks ?ts)) (r, s')"
        if "kept (set (concat (map pgs ?us))) st s" "owns s F (given 0 @ concat (map pgs ?us) @ pgs (NodeS l ?ks ?ts))"
          "writeBranch 0 ?b s = (r, s')" "pageLimit s'" for l s r s'
        by (rule writeBranch_shape [OF that(2,4,3) ok(2)]) (use it(2) stored_kept [OF _ that(1)] in fastforce)
    qed (use run False Some lim in \<open>simp_all add: branchOrSplit_def take_map drop_map anchors\<close>)
    then show ?thesis
    proof (cases res)
      case (Inr y)
      with \<open>case res of Inl e \<Rightarrow> _ e | Inr y \<Rightarrow> _ y\<close> obtain l r where y: "y = (l, ks ! c, r)" "stored st' (NodeS l ?ks ?ts)"
        "stored st' (NodeS r ?ls ?us)" "trades st F st' (pgs (NodeS l ?ks ?ts) @ pgs (NodeS r ?ls ?us))"
        by auto
      have r0: "r \<noteq> 0" using owned_ge [OF tradesD(1) [OF y(4)], of r] by simp
      have "weave (map trail ts) ks = trail (NodeS l ?ks ?ts) @ Sep (ks ! c) # trail (NodeS r ?ls ?us)"
        using weave_cut [OF len w(2), of trail] by simp
      moreover have "length (ks ! c) \<le> MaxKey" using keys w by simp
      ultimately have "grown st' (Suc h) y (weave (map trail ts) ks) (pgs (NodeS l ?ks ?ts) @ pgs (NodeS r ?ls ?us))"
        using grown_two [OF y(2,3), of "Suc h" "ks ! c"] y(1) it w r0 ne by simp
      then show ?thesis using y(4) unfolding Inr sum.case by blast
    qed simp
  qed
qed

section \<open>Insertion\<close>

text \<open>What inserting an entry gives, in a tree whose marks were \<open>M\<close>, between the marks \<open>A\<close> and \<open>B\<close>.\<close>

definition inserted ::
  "pager \<Rightarrow> nat set \<Rightarrow> nat \<Rightarrow> item \<Rightarrow> mark list \<Rightarrow> mark list \<Rightarrow> mark list \<Rightarrow> (err + nat \<times> bytes \<times> nat) \<times> pager \<Rightarrow> bool" where
  "inserted st F h x A M B out \<longleftrightarrow>
     (case out of
        (Inl e, _) \<Rightarrow> e \<in> quota_errors st \<or> e = ErrCannotSplit \<and> entryBytes (ikv x) = 2024
      | (Inr r, st') \<Rightarrow> \<exists>R ps. grown st' h r R ps \<and> trades st F st' ps \<and> in_order (A @ R @ B) \<and> ents R = ins x (ents M))"

lemma sum_filters:
  assumes "\<And>y. P y \<Longrightarrow> \<not> Q y"
  shows "sum_list (map f (filter P xs)) + sum_list (map f (filter Q xs)) \<le> (sum_list (map f xs) :: nat)"
proof (induction xs)
  case (Cons x xs)
  with assms [of x] show ?case by (cases "P x"; cases "Q x") simp_all
qed simp

lemma leafBytes_ins: "leafBytes (map ikv (ins x xs)) \<le> leafBytes (map ikv xs) + entryBytes (ikv x)"
proof -
  have "sum_list (map (\<lambda>y. entryBytes (ikv y)) (filter (\<lambda>y. ikey y < ikey x) xs)) + sum_list (map (\<lambda>y. entryBytes (ikv y)) (filter (\<lambda>y. ikey x < ikey y) xs))
    \<le> sum_list (map (\<lambda>y. entryBytes (ikv y)) xs)"
    by (rule sum_filters) (rule less_not_sym)
  then show ?thesis by (simp add: leafBytes_sum ins_def comp_def)
qed

lemma insertLeaf_spec:
  assumes t: "stored st (LeafS pid xs)" and o: "owns st F (pgs (LeafS pid xs) @ ipages x)" and x: "item_at st x"
    and ord: "in_order (A @ map Ent xs @ B)" "\<forall>a \<in> set A. before a (Ent x)" "\<forall>b \<in> set B. before (Ent x) b"
    and run: "insertLeaf pid (map ikv xs) (ikv x) st = (res, st')" and lim: "pageLimit st'"
  shows "inserted st F 0 x A (map Ent xs) B (res, st')"
proof -
  have s: "keys_sorted (map ikv xs)" using ord(1) by (simp add: in_order_Ents [symmetric] sorted_wrt_append)
  obtain pos found where f: "findKey (map ikv xs) (ikey x) = (pos, found)" by (cases "findKey (map ikv xs) (ikey x)")
  note i = ins_findKey [OF s f] and fi = findKey_items(3) [OF s f]
  let ?old = "if found then ipages (xs ! pos) else []"
  have pid: "pid \<noteq> 0" using owned_ge [OF o, of pid] by auto
  have o1: "owns st F (?old @ given pid @ concat (map ipages (ins x xs)))"
    using o by (subst owns_perm [of _ "pgs (LeafS pid xs) @ ipages x"]) (use i(2) pid in \<open>auto simp: add_ac\<close>)
  have items: "\<forall>y \<in> set (ins x xs). item_at st y" using t x by (auto simp: ins_def)
  obtain s1 where rel: "(if found then release (map ikv xs ! pos) else ret ()) st = (Inr (), s1)"
    "trades st F s1 (given pid @ concat (map ipages (ins x xs)))" "kept UNIV st s1"
  proof (cases found)
    case True
    then have "item_at st (xs ! pos)" using t fi by simp
    moreover have "owns st F (ipages (xs ! pos) @ given pid @ concat (map ipages (ins x xs)))" using o1 True by simp
    ultimately obtain s1 where "release (ikv (xs ! pos)) st = (Inr (), s1)" "trades st F s1 (given pid @ concat (map ipages (ins x xs)))"
      "kept UNIV st s1"
      by (rule release_item)
    with True fi that show thesis by simp
  next
    case False
    with o1 that [of st] show thesis by (simp add: trades_refl)
  qed
  have items1: "\<forall>y \<in> set (ins x xs). item_at s1 y" using items item_at_kept [OF _ rel(3)] by auto
  have run1: "leafOrSplit pid (map ikv (ins x xs)) s1 = (res, st')"
    using run rel(1) by (simp add: insertLeaf_def f i(1))
  note q = quota_errors_anchor [OF tradesD(3) [OF rel(2)]]
  show ?thesis
  proof (cases res)
    case (Inl e)
    have "e = ErrCannotSplit \<Longrightarrow> capacityBytes < leafBytes (map ikv (ins x xs)) \<Longrightarrow> splitLeaf (map ikv (ins x xs)) = None \<Longrightarrow> entryBytes (ikv x) = 2024"
    proof (rule ccontr)
      assume none: "capacityBytes < leafBytes (map ikv (ins x xs))" "splitLeaf (map ikv (ins x xs)) = None" "entryBytes (ikv x) \<noteq> 2024"
      have "\<forall>e \<in> set (map ikv (ins x xs)). entryBytes e \<le> 2024" using items item_bytes by auto
      moreover have "leafBytes (map ikv (ins x xs)) \<le> capacityBytes + 2023"
        using leafBytes_ins [of x xs] item_bytes [OF x] none(3) t by (simp add: leaf_ok_def)
      ultimately show False using splitLeaf_succeeds [OF _ none(1)] none(2) by blast
    qed
    with leafOrSplit_spec [OF tradesD(1) [OF rel(2)] lim items1 run1] Inl q show ?thesis by (auto simp: inserted_def)
  next
    case (Inr r)
    have ord': "in_order (A @ map Ent (ins x xs) @ B)" by (rule in_order_ins [OF ord])
    obtain R ps where R: "grown st' 0 r R ps" "trades s1 F st' ps"
      "R = map Ent (ins x xs) \<or> (\<exists>ys z zs. ins x xs = ys @ z # zs \<and> ys \<noteq> [] \<and> R = map Ent ys @ Sep (ikey z) # map Ent (z # zs))"
      using leafOrSplit_spec [OF tradesD(1) [OF rel(2)] lim items1 run1] unfolding Inr sum.case by blast
    from R(3) have "in_order (A @ R @ B) \<and> ents R = ins x xs"
    proof
      assume "R = map Ent (ins x xs)"
      with ord' show ?thesis by simp
    next
      assume "\<exists>ys z zs. ins x xs = ys @ z # zs \<and> ys \<noteq> [] \<and> R = map Ent ys @ Sep (ikey z) # map Ent (z # zs)"
      then obtain ys z zs where y: "ins x xs = ys @ z # zs" "ys \<noteq> []" "R = map Ent ys @ Sep (ikey z) # map Ent (z # zs)" by blast
      have "ents (map Ent zs) = zs" by (rule ents_map)
      with in_order_sep [OF ord' [unfolded y(1)] y(2)] y(1,3) show ?thesis by simp
    qed
    with R(1) trades_trans [OF rel(2) R(2)] Inr show ?thesis by (auto simp: inserted_def)
  qed
qed

lemma map_insertAt [simp]: "map f (insertAt i x xs) = insertAt i (f x) (map f xs)"
  by (simp add: insertAt_def take_map drop_map)

lemma set_insertAt: "set (insertAt i x xs) = insert x (set xs)"
  using set_append [of "take i xs" "drop i xs"] by (simp add: insertAt_def)

lemma length_insertAt [simp]: "length (insertAt i x xs) = Suc (length xs)"
  by (simp add: insertAt_def)

lemma mset_update_pages:
  assumes "i < length ts"
  shows "mset (concat (map f ts)) = mset (f (ts ! i)) + mset (concat (map f (take i ts) @ map f (drop (Suc i) ts)))"
    "mset (concat (map f (ts[i := t]))) = mset (f t) + mset (concat (map f (take i ts) @ map f (drop (Suc i) ts)))"
    "mset (concat (map f (insertAt (Suc i) u (ts[i := t])))) = mset (f t) + mset (f u) + mset (concat (map f (take i ts) @ map f (drop (Suc i) ts)))"
proof -
  have "ts = take i ts @ ts ! i # drop (Suc i) ts" by (rule id_take_nth_drop [OF assms])
  then have "mset (concat (map f ts)) = mset (concat (map f (take i ts @ ts ! i # drop (Suc i) ts)))" by (rule arg_cong)
  then show "mset (concat (map f ts)) = mset (f (ts ! i)) + mset (concat (map f (take i ts) @ map f (drop (Suc i) ts)))" by simp
  have u: "ts[i := t] = take i ts @ t # drop (Suc i) ts" by (rule upd_conv_take_nth_drop [OF assms])
  then show "mset (concat (map f (ts[i := t]))) = mset (f t) + mset (concat (map f (take i ts) @ map f (drop (Suc i) ts)))" by simp
  have "insertAt (Suc i) u (ts[i := t]) = take i ts @ t # u # drop (Suc i) ts" using assms by (simp add: insertAt_def u min_def)
  then show "mset (concat (map f (insertAt (Suc i) u (ts[i := t])))) = mset (f t) + mset (f u) + mset (concat (map f (take i ts) @ map f (drop (Suc i) ts)))"
    by simp
qed

lemma branchBytes_insertAt: "branchBytes \<lparr>bkeys = insertAt i s ks, children = cs\<rparr> = branchBytes \<lparr>bkeys = ks, children = cs'\<rparr> + keyBytes s"
proof -
  have "sum_list (map keyBytes (take i ks @ drop i ks)) = sum_list (map keyBytes (take i ks)) + sum_list (map keyBytes (drop i ks))"
    unfolding map_append sum_list_append ..
  then show ?thesis by (simp add: branchBytes_sum insertAt_def)
qed

text \<open>The branch that takes a rewritten child in, and its marks.\<close>

lemma takeSplit_grown:
  assumes g: "grown st h res R ps" and i: "i \<le> length ks" and len: "length ts = Suc (length ks)"
    and foc: "\<And>m. weave ((map trail ts)[i := m]) ks = A @ m @ B"
      "\<And>m1 s m2. weave (insertAt (Suc i) m2 ((map trail ts)[i := m1])) (insertAt i s ks) = A @ m1 @ Sep s # m2 @ B"
  obtains ks' ts' where "takeSplit \<lparr>bkeys = ks, children = map root ts\<rparr> i res = \<lparr>bkeys = ks', children = map root ts'\<rparr>"
    "weave (map trail ts') ks' = A @ R @ B" "length ts' = Suc (length ks')" "ks \<noteq> [] \<longrightarrow> ks' \<noteq> []"
    "mset (concat (map pgs ts')) = mset ps + mset (concat (map pgs (take i ts) @ map pgs (drop (Suc i) ts)))"
    "\<forall>t \<in> set ts'. t \<in> set (take i ts @ drop (Suc i) ts) \<or> stored st t \<and> level h t"
    "\<forall>k \<in> set ks'. k \<in> set ks \<or> length k \<le> MaxKey"
    "branchBytes \<lparr>bkeys = ks', children = map root ts'\<rparr> \<le> branchBytes \<lparr>bkeys = ks, children = map root ts\<rparr> + 524"
proof -
  obtain l sep r where res: "res = (l, sep, r)" by (cases res) auto
  have it: "i < length ts" using i len by simp
  show thesis
  proof (cases "r = 0")
    case True
    with g res obtain t where t: "root t = l" "stored st t" "level h t" "R = trail t" "ps = pgs t" by (auto simp: grown_def)
    have u: "ts[i := t] = take i ts @ t # drop (Suc i) ts" by (rule upd_conv_take_nth_drop [OF it])
    show thesis
    proof (rule that [of ks "ts[i := t]"])
      show "takeSplit \<lparr>bkeys = ks, children = map root ts\<rparr> i res = \<lparr>bkeys = ks, children = map root (ts[i := t])\<rparr>"
        using True t(1) res by (simp add: takeSplit_def map_update)
      show "weave (map trail (ts[i := t])) ks = A @ R @ B" using foc(1) [of "trail t"] t(4) by (simp add: map_update)
      show "mset (concat (map pgs (ts[i := t]))) = mset ps + mset (concat (map pgs (take i ts) @ map pgs (drop (Suc i) ts)))"
        using mset_update_pages(2) [OF it, of pgs t] t(5) by simp
      show "\<forall>t' \<in> set (ts[i := t]). t' \<in> set (take i ts @ drop (Suc i) ts) \<or> stored st t' \<and> level h t'" using t(2,3) by (auto simp: u)
    qed (use len in \<open>simp_all add: branchBytes_sum\<close>)
  next
    case False
    with g res obtain t u where t: "root t = l" "root u = r" "stored st t" "stored st u" "level h t" "level h u"
      "R = trail t @ Sep sep # trail u" "ps = pgs t @ pgs u" "length sep \<le> MaxKey"
      by (auto simp: grown_def)
    have us: "set (insertAt (Suc i) u (ts[i := t])) = insert u (insert t (set (take i ts @ drop (Suc i) ts)))"
      by (simp add: set_insertAt upd_conv_take_nth_drop [OF it] insert_commute)
    show thesis
    proof (rule that [of "insertAt i sep ks" "insertAt (Suc i) u (ts[i := t])"])
      show "takeSplit \<lparr>bkeys = ks, children = map root ts\<rparr> i res = \<lparr>bkeys = insertAt i sep ks, children = map root (insertAt (Suc i) u (ts[i := t]))\<rparr>"
        using False t(1,2) res by (simp add: takeSplit_def map_update)
      show "weave (map trail (insertAt (Suc i) u (ts[i := t]))) (insertAt i sep ks) = A @ R @ B"
        using foc(2) [of "trail u" "trail t" sep] t(7) by (simp add: map_update)
      show "mset (concat (map pgs (insertAt (Suc i) u (ts[i := t])))) = mset ps + mset (concat (map pgs (take i ts) @ map pgs (drop (Suc i) ts)))"
        using mset_update_pages(3) [OF it, of pgs u t] t(8) by simp
      show "\<forall>t' \<in> set (insertAt (Suc i) u (ts[i := t])). t' \<in> set (take i ts @ drop (Suc i) ts) \<or> stored st t' \<and> level h t'"
        unfolding us using t(3-6) by blast
      show "branchBytes \<lparr>bkeys = insertAt i sep ks, children = map root (insertAt (Suc i) u (ts[i := t]))\<rparr> \<le> branchBytes \<lparr>bkeys = ks, children = map root ts\<rparr> + 524"
        unfolding branchBytes_insertAt [where cs' = "map root ts"] using t(9) by (simp add: keyBytes_def layout)
      show "ks \<noteq> [] \<longrightarrow> insertAt i sep ks \<noteq> []" by (simp add: insertAt_def)
    qed (use len t(9) in \<open>simp_all add: set_insertAt\<close>)
  qed
qed

lemma anchored_release [anchors]: "anchored (release e)"
proof -
  have "same_anchor st st'" if "releaseChain n pid st = (res, st')" for n pid st res st'
    using that
  proof (induction n arbitrary: pid st)
    case (Suc n)
    then show ?case
      by (auto simp: releaseChain.simps [of "Suc n"] split: if_splits sum.splits dest!: Suc.IH intro: same_anchor_trans [OF conjunct1 [OF Free_anchor]])
  qed (auto simp: releaseChain.simps split: if_splits)
  then show ?thesis by (auto simp: anchored_def release_def split: if_splits)
qed

lemma anchored_insert [anchors]: "anchored (insert_node n pid e)"
proof (induction n arbitrary: pid)
  case (Suc n)
  have "anchored (insertLeaf pid es e)" for pid es e
    unfolding insertLeaf_def leafOrSplit_def Let_def by (intro anchors)
  moreover have "anchored (insertBranch pid node pos res)" for pid node pos res
    unfolding insertBranch_def branchOrSplit_def by (intro anchors)
  ultimately show ?case by (auto simp: Let_def intro!: anchors Suc)
qed (simp add: anchors)

text \<open>
  One step down: the subtree a key goes into, with the marks on both sides of it and the pages beside
  it that a rewriting of it leaves alone.
\<close>

abbreviation others :: "nat \<Rightarrow> shape list \<Rightarrow> nat list" where
  "others i ts \<equiv> concat (map pgs (take i ts) @ map pgs (drop (Suc i) ts))"

lemma node_focus:
  assumes t: "stored st (NodeS p ks ts)" and l: "level h (NodeS p ks ts)" and o: "owns st F (pgs (NodeS p ks ts) @ qs)"
    and ord: "in_order (A @ trail (NodeS p ks ts) @ B)"
  obtains i g C D where "i = childFor ks key" "i < length ts" "i \<le> length ks" "length ts = Suc (length ks)" "h = Suc g"
    "stored st (ts ! i)" "level g (ts ! i)" "trail (NodeS p ks ts) = C @ trail (ts ! i) @ D"
    "in_order ((A @ C) @ trail (ts ! i) @ D @ B)"
    "\<And>m. weave ((map trail ts)[i := m]) ks = C @ m @ D"
    "\<And>m1 s m2. weave (insertAt (Suc i) m2 ((map trail ts)[i := m1])) (insertAt i s ks) = C @ m1 @ Sep s # m2 @ D"
    "\<And>a y. a \<in> set C \<Longrightarrow> ikey y = key \<Longrightarrow> before a (Ent y)" "\<And>b y. b \<in> set D \<Longrightarrow> ikey y = key \<Longrightarrow> before (Ent y) b"
    "distinct (p # others i ts)" "F \<inter> set (p # others i ts) = {}" "owns st (F \<union> set (p # others i ts)) (pgs (ts ! i) @ qs)"
proof -
  obtain g where g: "h = Suc g" "\<forall>t \<in> set ts. level g t" using l by (auto simp: level.simps(2))
  have len: "length ts = Suc (length ks)" using t by (simp add: branch_ok_def)
  have ow: "in_order (weave (map trail ts) ks)" using ord by (simp add: sorted_wrt_append)
  define i where "i = childFor ks key"
  obtain C D where foc: "i \<le> length ks" "weave (map trail ts) ks = C @ map trail ts ! i @ D" "\<And>m. weave ((map trail ts)[i := m]) ks = C @ m @ D"
    "\<And>m1 s m2. weave (insertAt (Suc i) m2 ((map trail ts)[i := m1])) (insertAt i s ks) = C @ m1 @ Sep s # m2 @ D"
    "\<And>a y. a \<in> set C \<Longrightarrow> ikey y = key \<Longrightarrow> before a (Ent y)" "\<And>b y. b \<in> set D \<Longrightarrow> ikey y = key \<Longrightarrow> before (Ent y) b"
    using childFor_focus [OF ow, of key] len unfolding i_def by (metis length_map)
  have it: "i < length ts" using foc(1) len by simp
  have tr: "trail (NodeS p ks ts) = C @ trail (ts ! i) @ D" using foc(2) it by simp
  have own: "owns st F ((pgs (ts ! i) @ qs) @ p # others i ts)"
    using o by (subst owns_perm [of _ "pgs (NodeS p ks ts) @ qs"]) (use mset_update_pages(1) [OF it, of pgs] in simp_all)
  have fr: "distinct (p # others i ts)" "F \<inter> set (p # others i ts) = {}" "owns st (F \<union> set (p # others i ts)) (pgs (ts ! i) @ qs)"
    using own [unfolded owns_split [of st F "pgs (ts ! i) @ qs"]] by blast+
  show thesis
  proof (rule that [OF i_def it foc(1) len g(1) _ _ tr _ foc(3-6) fr])
    show "stored st (ts ! i)" "level g (ts ! i)" using t g(2) it by simp_all
    show "in_order ((A @ C) @ trail (ts ! i) @ D @ B)" using ord tr by simp
  qed
qed

text \<open>The other subtrees are as they were.\<close>

lemma siblings_kept:
  assumes "trades st (F \<union> set (p # others i ts)) s1 ps" "stored st (NodeS p ks ts)" "level (Suc g) (NodeS p ks ts)"
    and "t \<in> set (take i ts @ drop (Suc i) ts)"
  shows "stored s1 t \<and> level g t"
proof -
  have "t \<in> set ts" using assms(4) by (auto dest: in_set_takeD in_set_dropD)
  moreover have "set (pgs t) \<subseteq> F \<union> set (p # others i ts)" using assms(4) by auto
  ultimately show ?thesis using stored_kept [OF _ tradesD(2) [OF assms(1)]] assms(2,3) by auto
qed

text \<open>The way back up: the branch takes the rewritten child in and is written, in one piece or two.\<close>

lemma insertBranch_spec:
  assumes t: "stored st (NodeS p ks ts)" and l: "level (Suc g) (NodeS p ks ts)" and i: "i \<le> length ks"
    and foc: "\<And>m. weave ((map trail ts)[i := m]) ks = C @ m @ D"
      "\<And>m1 s m2. weave (insertAt (Suc i) m2 ((map trail ts)[i := m1])) (insertAt i s ks) = C @ m1 @ Sep s # m2 @ D"
    and fr: "distinct (p # others i ts)" "F \<inter> set (p # others i ts) = {}"
    and R: "grown s1 g r R ps" "trades st (F \<union> set (p # others i ts)) s1 ps"
    and run: "insertBranch p \<lparr>bkeys = ks, children = map root ts\<rparr> i r s1 = (res, st')" and lim: "pageLimit st'"
  shows "case res of Inl e \<Rightarrow> e \<in> quota_errors st
    | Inr r' \<Rightarrow> \<exists>qs. grown st' (Suc g) r' (C @ R @ D) qs \<and> trades st F st' qs"
proof -
  have bo: "branch_ok \<lparr>bkeys = ks, children = map root ts\<rparr>" using t by simp
  then have len: "length ts = Suc (length ks)" by (simp add: branch_ok_def)
  obtain ks' ts' where u: "takeSplit \<lparr>bkeys = ks, children = map root ts\<rparr> i r = \<lparr>bkeys = ks', children = map root ts'\<rparr>"
    "weave (map trail ts') ks' = C @ R @ D" "length ts' = Suc (length ks')" "ks \<noteq> [] \<longrightarrow> ks' \<noteq> []"
    "mset (concat (map pgs ts')) = mset ps + mset (others i ts)"
    "\<forall>t \<in> set ts'. t \<in> set (take i ts @ drop (Suc i) ts) \<or> stored s1 t \<and> level g t"
    "\<forall>k \<in> set ks'. k \<in> set ks \<or> length k \<le> MaxKey"
    "branchBytes \<lparr>bkeys = ks', children = map root ts'\<rparr> \<le> branchBytes \<lparr>bkeys = ks, children = map root ts\<rparr> + 524"
    by (rule takeSplit_grown [OF R(1) i len foc])
  have t1: "trades st F s1 (ps @ p # others i ts)" by (rule trades_frame [OF R(2) fr])
  have p0: "p \<noteq> 0" using owned_ge [OF tradesD(1) [OF t1], of p] by auto
  have o1: "owns s1 F (given p @ concat (map pgs ts'))"
    using tradesD(1) [OF t1] by (subst owns_perm [of _ "ps @ p # others i ts"]) (use u(5) p0 in simp_all)
  have sub: "\<forall>t \<in> set ts'. stored s1 t \<and> level g t" using u(6) siblings_kept [OF R(2) t l] by blast
  have keys: "\<forall>k \<in> set ks'. length k \<le> MaxKey" using u(7) bo by (auto simp: branch_ok_def)
  have room: "branchBytes \<lparr>bkeys = ks', children = map root ts'\<rparr> \<le> 2 * capacityBytes - branchHeader"
    using u(8) bo by (simp add: branch_ok_def sizes layout)
  have "branchOrSplit p \<lparr>bkeys = ks', children = map root ts'\<rparr> s1 = (res, st')" using run u(1) by (simp add: insertBranch_def)
  from branchOrSplit_spec [OF o1 lim sub u(3) _ keys room this] show ?thesis
    using u(2,4) l quota_errors_anchor [OF tradesD(3) [OF t1]] trades_trans [OF t1] by (auto split: sum.splits)
qed

lemma ents_below: "(\<And>a. a \<in> set C \<Longrightarrow> before a (Ent x)) \<Longrightarrow> \<forall>a \<in> set (ents C). ikey a < ikey x"
  by (metis before.simps(4) set_ents)

lemma ents_above: "(\<And>b. b \<in> set D \<Longrightarrow> before (Ent x) b) \<Longrightarrow> \<forall>b \<in> set (ents D). ikey x < ikey b"
  by (metis before.simps(4) set_ents)

lemma insert_node_spec:
  assumes "stored st t" "level h t" "h < n" "owns st F (pgs t @ ipages x)" "item_at st x"
    and "in_order (A @ trail t @ B)" "\<forall>a \<in> set A. before a (Ent x)" "\<forall>b \<in> set B. before (Ent x) b"
    and "insert_node n (root t) (ikv x) st = (res, st')" "pageLimit st'"
  shows "inserted st F h x A (trail t) B (res, st')"
  using assms
proof (induction t arbitrary: h n F A B res st')
  case (LeafS p xs)
  then obtain m where n: "n = Suc m" by (cases n) auto
  have "readNode st p = Inr (IsLeaf (map ikv xs))" using LeafS.prems(1) by simp
  then have run: "insertLeaf p (map ikv xs) (ikv x) st = (res, st')" using LeafS.prems(9) by (simp add: n look_def)
  from insertLeaf_spec [OF LeafS.prems(1,4,5) _ LeafS.prems(7,8) run LeafS.prems(10)] LeafS.prems(2,6) show ?case by simp
next
  case (NodeS p ks ts)
  obtain m where n: "n = Suc m" using NodeS.prems(3) by (cases n) auto
  obtain i g C D where f: "i = childFor ks (ikey x)" "i < length ts" "i \<le> length ks" "length ts = Suc (length ks)" "h = Suc g"
    "stored st (ts ! i)" "level g (ts ! i)" "trail (NodeS p ks ts) = C @ trail (ts ! i) @ D"
    "in_order ((A @ C) @ trail (ts ! i) @ D @ B)"
    "\<And>m. weave ((map trail ts)[i := m]) ks = C @ m @ D"
    "\<And>m1 s m2. weave (insertAt (Suc i) m2 ((map trail ts)[i := m1])) (insertAt i s ks) = C @ m1 @ Sep s # m2 @ D"
    "\<And>a y. a \<in> set C \<Longrightarrow> ikey y = ikey x \<Longrightarrow> before a (Ent y)" "\<And>b y. b \<in> set D \<Longrightarrow> ikey y = ikey x \<Longrightarrow> before (Ent y) b"
    "distinct (p # others i ts)" "F \<inter> set (p # others i ts) = {}" "owns st (F \<union> set (p # others i ts)) (pgs (ts ! i) @ ipages x)"
    by (rule node_focus [where key = "ikey x", OF NodeS.prems(1,2,4,6)], rule that)
  let ?n = "\<lparr>bkeys = ks, children = map root ts\<rparr>"
  obtain r1 s1 where r1: "insert_node m (root (ts ! i)) (ikv x) st = (r1, s1)" by (cases "insert_node m (root (ts ! i)) (ikv x) st")
  have run: "(case r1 of Inl e \<Rightarrow> (Inl e, s1) | Inr r \<Rightarrow> insertBranch p ?n i r s1) = (res, st')"
    using NodeS.prems(1,9) r1 f(2) by (cases r1) (auto simp: n look_def Let_def f(1) [symmetric] bnd_def)
  have an: "anchored (insertBranch p ?n i r)" for r unfolding insertBranch_def branchOrSplit_def by (intro anchors)
  have lim1: "pageLimit s1"
    using run NodeS.prems(10) pageLimit_back [OF NodeS.prems(10) anchoredD [OF an]] by (cases r1) (simp, simp only: sum.case)
  have ih: "inserted st (F \<union> set (p # others i ts)) g x (A @ C) (trail (ts ! i)) (D @ B) (r1, s1)"
    by (rule NodeS.IH [OF nth_mem [OF f(2)] f(6,7) _ f(16) NodeS.prems(5) f(9) _ _ r1 lim1])
      (use NodeS.prems(3,7,8) f(5,12,13) n in auto)
  show ?case
  proof (cases r1)
    case (Inl e)
    with ih run show ?thesis by (auto simp: inserted_def)
  next
    case (Inr r)
    obtain R ps where R: "grown s1 g r R ps" "trades st (F \<union> set (p # others i ts)) s1 ps"
      "in_order ((A @ C) @ R @ D @ B)" "ents R = ins x (ents (trail (ts ! i)))"
      using ih Inr unfolding inserted_def by auto
    have run': "insertBranch p ?n i r s1 = (res, st')" using run Inr by simp
    note b = insertBranch_spec [OF NodeS.prems(1) NodeS.prems(2) [unfolded f(5)] f(3,10,11,14,15) R(1,2) run' NodeS.prems(10)]
    from ins_between [OF ents_below ents_above, of C x D "ents (trail (ts ! i))"] f(12,13) have e: "ents (C @ R @ D) = ins x (ents (trail (NodeS p ks ts)))"
      using R(4) f(8) by simp
    have o: "in_order (A @ (C @ R @ D) @ B)" using R(3) by simp
    show ?thesis
    proof (cases res)
      case r': (Inr r')
      with b obtain qs where "grown st' (Suc g) r' (C @ R @ D) qs" "trades st F st' qs" by auto
      with o e f(5) show ?thesis unfolding inserted_def r' prod.case sum.case by blast
    qed (use b in \<open>simp add: inserted_def\<close>)
  qed
qed

end
