(* ===== verification/Btree_Map.thy ===== *)
theory Btree_Map
  imports Btree_Put
begin

text \<open>
  The tree as a map: what it holds is a list of keys with their values in key order, and reading a
  key, storing one and the two walks are the operations of that list.
\<close>

section \<open>What a tree holds\<close>

definition pair_of :: "item \<Rightarrow> bytes \<times> bytes" where
  "pair_of x = (ikey x, ival x)"

text \<open>
  The tree that hangs from the page \<open>rt\<close> holds \<open>kvs\<close>; beside its own pages and the pages \<open>F\<close> of others,
  the pages \<open>qs\<close> are in hand.
\<close>

definition tree_on :: "pager \<Rightarrow> nat \<Rightarrow> nat set \<Rightarrow> nat list \<Rightarrow> (bytes \<times> bytes) list \<Rightarrow> bool" where
  "tree_on st rt F qs kvs \<longleftrightarrow>
     (if rt = 0 then owns st F qs \<and> kvs = []
      else \<exists>t h. root t = rt \<and> stored st t \<and> level h t \<and> in_order (trail t) \<and> owns st F (pgs t @ qs) \<and> kvs = map pair_of (ents (trail t)))"

abbreviation tree_is :: "pager \<Rightarrow> nat \<Rightarrow> nat set \<Rightarrow> (bytes \<times> bytes) list \<Rightarrow> bool" where
  "tree_is st rt F kvs \<equiv> tree_on st rt F [] kvs"

lemma tree_isI:
  assumes "stored st t" "level h t" "in_order (trail t)" "owns st F (pgs t)"
  shows "tree_is st (root t) F (map pair_of (ents (trail t)))"
proof -
  have "root t \<noteq> 0" using owned_ge [OF assms(4) root_in_pgs] by auto
  with assms show ?thesis unfolding tree_on_def by auto
qed

lemma tree_onE:
  assumes "tree_on st rt F qs kvs" "rt \<noteq> 0"
  obtains t h where "root t = rt" "stored st t" "level h t" "in_order (trail t)" "owns st F (pgs t @ qs)" "kvs = map pair_of (ents (trail t))"
  using assms unfolding tree_on_def by auto

definition holds_map :: "tree \<Rightarrow> nat set \<Rightarrow> (bytes \<times> bytes) list \<Rightarrow> bool" where
  "holds_map t F kvs \<longleftrightarrow> tree_is (pages t) (troot t) F kvs"

text \<open>The map operations on the list.\<close>

definition put_kv :: "bytes \<Rightarrow> bytes \<Rightarrow> (bytes \<times> bytes) list \<Rightarrow> (bytes \<times> bytes) list" where
  "put_kv k v kvs = filter (\<lambda>p. fst p < k) kvs @ (k, v) # filter (\<lambda>p. k < fst p) kvs"

definition del_kv :: "bytes \<Rightarrow> (bytes \<times> bytes) list \<Rightarrow> (bytes \<times> bytes) list" where
  "del_kv k kvs = filter (\<lambda>p. fst p \<noteq> k) kvs"

lemma pairs_ins: "map pair_of (ins x xs) = put_kv (ikey x) (ival x) (map pair_of xs)"
  by (simp add: ins_def put_kv_def pair_of_def [abs_def] filter_map comp_def)

lemma pairs_del: "map pair_of (del k xs) = del_kv k (map pair_of xs)"
  by (simp add: del_def del_kv_def pair_of_def [abs_def] filter_map comp_def)

lemma in_order_ents: "in_order ms \<Longrightarrow> sorted_wrt (\<lambda>a b. ikey a < ikey b) (ents ms)"
proof (induction ms rule: ents.induct)
  case (3 x ms)
  then show ?case using ents_above [of ms x] by simp
qed auto

lemma holds_map_sorted: "holds_map t F kvs \<Longrightarrow> sorted_wrt (<) (map fst kvs)"
  by (auto simp: holds_map_def tree_on_def sorted_wrt_map pair_of_def dest: in_order_ents split: if_splits)

section \<open>Get\<close>

lemma map_of_between:
  assumes "\<forall>a \<in> set as. ikey a \<noteq> k" "\<forall>b \<in> set bs. ikey b \<noteq> k"
  shows "map_of (map pair_of (as @ xs @ bs)) k = map_of (map pair_of xs) k"
proof -
  have "map_of (map pair_of as) k = None" "map_of (map pair_of bs) k = None"
    using assms by (auto simp: map_of_eq_None_iff pair_of_def)
  then show ?thesis by (simp add: map_add_def split: option.splits)
qed

lemma map_of_sorted:
  assumes "sorted_wrt (\<lambda>a b. ikey a < ikey b) xs" "x \<in> set xs"
  shows "map_of (map pair_of xs) (ikey x) = Some (ival x)"
proof -
  have "distinct (map fst (map pair_of xs))"
    using assms(1) strict_sorted_iff [of "map ikey xs"] by (simp add: comp_def pair_of_def sorted_wrt_map)
  then show ?thesis using assms(2) by (simp add: pair_of_def [abs_def])
qed

lemma getFrom_spec:
  assumes "stored st t" "level h t" "h < n" "owns st F (pgs t @ [])" "in_order ([] @ trail t @ [])"
  shows "getFrom n st (root t) key = Inr (map_of (map pair_of (ents (trail t))) key)"
  using assms
proof (induction t arbitrary: h n F)
  case (LeafS p xs)
  then obtain m where n: "n = Suc m" by (cases n) auto
  have p: "p \<noteq> 0" using owned_ge [OF LeafS.prems(4), of p] by auto
  have s: "keys_sorted (map ikv xs)" using LeafS.prems(5) by (simp add: in_order_Ents)
  have so: "sorted_wrt (\<lambda>a b. ikey a < ikey b) xs" using s by (simp add: keys_sorted_def sorted_wrt_map)
  obtain pos found where f: "findKey (map ikv xs) key = (pos, found)" by (cases "findKey (map ikv xs) key")
  note fi = findKey_items [OF s f]
  show ?case
  proof (cases found)
    case True
    then have x: "pos < length xs" "ikey (xs ! pos) = key" using fi(3) by simp_all
    then have "load st (map ikv xs ! pos) = Inr (ival (xs ! pos))" using load_item LeafS.prems(1) by simp
    with map_of_sorted [OF so, of "xs ! pos"] x True f p LeafS.prems(1) show ?thesis by (simp add: n)
  next
    case False
    then have "map_of (map pair_of xs) key = None" using fi(5) by (auto simp: map_of_eq_None_iff pair_of_def)
    with False f p LeafS.prems(1) show ?thesis by (simp add: n)
  qed
next
  case (NodeS p ks ts)
  obtain m where n: "n = Suc m" using NodeS.prems(3) by (cases n) auto
  obtain i g C D where f: "i = childFor ks key" "i < length ts" "h = Suc g"
    "stored st (ts ! i)" "level g (ts ! i)" "trail (NodeS p ks ts) = C @ trail (ts ! i) @ D"
    "in_order (([] @ C) @ trail (ts ! i) @ D @ [])"
    "\<And>a y. a \<in> set C \<Longrightarrow> ikey y = key \<Longrightarrow> before a (Ent y)" "\<And>b y. b \<in> set D \<Longrightarrow> ikey y = key \<Longrightarrow> before (Ent y) b"
    "owns st (F \<union> set (p # others i ts)) (pgs (ts ! i) @ [])"
    by (rule node_focus [where key = key, OF NodeS.prems(1,2,4,5)]) blast
  have p: "p \<noteq> 0" using owned_ge [OF NodeS.prems(4), of p] by auto
  have c: "root (ts ! i) \<noteq> 0" using owned_ge [OF f(10), of "root (ts ! i)"] root_in_pgs [of "ts ! i"] by auto
  have "getFrom m st (root (ts ! i)) key = Inr (map_of (map pair_of (ents (trail (ts ! i)))) key)"
    by (rule NodeS.IH [OF nth_mem [OF f(2)] f(4,5) _ f(10)]) (use NodeS.prems(3) n f(3,7) in \<open>auto simp: sorted_wrt_append\<close>)
  moreover have "map_of (map pair_of (ents C @ ents (trail (ts ! i)) @ ents D)) key = map_of (map pair_of (ents (trail (ts ! i)))) key"
  proof (rule map_of_between)
    show "\<forall>a \<in> set (ents C). ikey a \<noteq> key" using f(8) by (fastforce simp: set_ents)
    show "\<forall>a \<in> set (ents D). ikey a \<noteq> key" using f(9) by (fastforce simp: set_ents)
  qed
  ultimately show ?case using NodeS.prems(1) f(1,2,6) p c by (simp add: n Let_def)
qed

lemma Get_spec:
  assumes h: "holds_map t F kvs" and k: "checkKey key = Inr ()"
  shows "Get t key = Inr (map_of kvs key)"
proof (cases "troot t = 0")
  case True
  with h k show ?thesis by (simp add: Get_def holds_map_def tree_on_def depthFuel_def)
next
  case False
  with h obtain s l where s: "root s = troot t" "stored (pages t) s" "level l s" "in_order (trail s)" "owns (pages t) F (pgs s)"
    "kvs = map pair_of (ents (trail s))"
    by (auto simp: holds_map_def tree_on_def)
  have "l < depthFuel (pages t)" using level_fuel [OF s(3,2), of F "[]"] s(5) by simp
  from getFrom_spec [OF s(2,3) this, of F key] s k show ?thesis by (simp add: Get_def)
qed

section \<open>Put\<close>

lemma checkKey_ok: "checkKey key = Inr () \<longleftrightarrow> key \<noteq> [] \<and> length key \<le> MaxKey"
  by (auto simp: checkKey_def)

lemma onPages_apply: "onPages m t = (case m (pages t) of (r, s) \<Rightarrow> (r, t\<lparr>pages := s\<rparr>))"
  by (simp add: onPages_def)

lemma Put_root_spec:
  assumes o: "owns st F (ipages x)" "item_at st x" and w: "writeLeaf 0 [ikv x] st = (res, st')" and lim: "pageLimit st'"
  shows "case res of Inl e \<Rightarrow> e \<in> quota_errors st
    | Inr pid \<Rightarrow> trades st F st' (pgs (LeafS pid [x])) \<and> tree_is st' pid F [pair_of x]"
proof -
  have "leaf_ok (map ikv [x])" using o(2) item_bytes [OF o(2)] by (simp add: leaf_ok_def leafBytes_sum item_at_def sizes layout)
  then have "written_as st F (\<lambda>pid. LeafS pid [x]) [] (res, st')"
    by (intro writeLeaf_shape) (use o w lim in simp_all)
  then show ?thesis
  proof (cases res)
    case (Inr pid)
    with \<open>written_as st F _ [] (res, st')\<close> have t: "trades st F st' (pgs (LeafS pid [x]))" "stored st' (LeafS pid [x])"
      by (simp_all add: written_as_def)
    with tree_isI [OF t(2), of 0 F] tradesD(1) [OF t(1)] Inr show ?thesis by simp
  qed (simp add: written_as_def)
qed

lemma grown_tree:
  assumes g: "grown st h (l, sep, 0) R ps" and o: "owns st F ps" "in_order R"
  shows "l \<noteq> 0" "tree_is st l F (map pair_of (ents R))"
proof -
  obtain t where t: "root t = l" "stored st t" "level h t" "R = trail t" "ps = pgs t" using g by (auto simp: grown_def)
  show "l \<noteq> 0" using owned_ge [OF o(1), of l] root_in_pgs [of t] t(1,5) by auto
  show "tree_is st l F (map pair_of (ents R))" using tree_isI [OF t(2,3), of F] t o by simp
qed

text \<open>A root that split: the tree grows a level.\<close>

lemma grown_root:
  assumes g: "grown st h (l, sep, r) R ps" and r: "r \<noteq> 0" and o: "owns st F ps" "in_order R"
    and w: "writeBranch 0 \<lparr>bkeys = [sep], children = [l, r]\<rparr> st = (res, st')" and lim: "pageLimit st'"
  shows "case res of Inl e \<Rightarrow> e \<in> quota_errors st
    | Inr pid \<Rightarrow> (\<exists>qs. trades st F st' qs) \<and> tree_is st' pid F (map pair_of (ents R))"
proof -
  obtain t u where t: "root t = l" "root u = r" "stored st t" "stored st u" "level h t" "level h u"
    "R = trail t @ Sep sep # trail u" "ps = pgs t @ pgs u" "length sep \<le> MaxKey"
    using g r by (auto simp: grown_def)
  have lim0: "pageLimit st" using pageLimit_back [OF lim] anchoredD [OF anchored_write(2) w] by blast
  have "l < 2 ^ 64" "r < 2 ^ 64"
    using owned_number [OF o(1) lim0] root_in_pgs [of t] root_in_pgs [of u] t(1,2,8) by auto
  then have ok: "branch_ok \<lparr>bkeys = [sep], children = map root [t, u]\<rparr>"
    using t(1,2,9) by (simp add: branch_ok_def branchBytes_sum keyBytes_def sizes layout)
  have "written_as st F (\<lambda>pid. NodeS pid [sep] [t, u]) [] (res, st')"
    by (rule writeBranch_shape [OF _ lim _ ok]) (use o(1) t w in simp_all)
  then show ?thesis
  proof (cases res)
    case (Inr pid)
    with \<open>written_as st F _ [] (res, st')\<close> have n: "trades st F st' (pgs (NodeS pid [sep] [t, u]))" "stored st' (NodeS pid [sep] [t, u])"
      by (simp_all add: written_as_def)
    have "level (Suc h) (NodeS pid [sep] [t, u])" "trail (NodeS pid [sep] [t, u]) = R" using t by simp_all
    with tree_isI [OF n(2), of "Suc h" F] tradesD(1) [OF n(1)] o(2) have "tree_is st' pid F (map pair_of (ents R))"
      by (simp add: t(7))
    with n(1) Inr show ?thesis by auto
  qed (simp add: written_as_def)
qed

text \<open>What storing a key gives: the tree with it, or one of two errors.\<close>

definition stored_kv :: "tree \<Rightarrow> nat set \<Rightarrow> bytes \<Rightarrow> bytes \<Rightarrow> (bytes \<times> bytes) list \<Rightarrow> (err + unit) \<times> tree \<Rightarrow> bool" where
  "stored_kv t F key val kvs out \<longleftrightarrow>
     (case out of
        (Inl e, _) \<Rightarrow> e = ErrQuota \<and> maxPages (pages t) > 0 \<or> e = ErrCannotSplit \<and> length key = MaxKey \<and> length val = MaxInline
      | (Inr _, t') \<Rightarrow> holds_map t' F (put_kv key val kvs) \<and> kept F (pages t) (pages t') \<and> same_anchor (pages t) (pages t')
          \<and> guarded (pages t) (pages t'))"

lemma quota_errors_iff: "e \<in> quota_errors st \<longleftrightarrow> e = ErrQuota \<and> maxPages st > 0"
  by (simp add: quota_errors_def)

lemma anchored_store [anchors]: "anchored (store key val)"
  unfolding store_def writeOverflow_def by (intro anchors)

text \<open>The second half of \<^verbatim>\<open>Put\<close>, once the value is stored.\<close>

definition putEntry :: "kv \<Rightarrow> nat \<Rightarrow> (pager, nat) op" where
  "putEntry e rt =
     (if rt = 0 then writeLeaf 0 [e]
      else bnd (\<lambda>st. insert_node (depthFuel st) rt e st) (\<lambda>(left, sep, right).
             if right = 0 then ret left else writeBranch 0 \<lparr>bkeys = [sep], children = [left, right]\<rparr>))"

lemma anchored_putEntry [anchors]: "anchored (putEntry e rt)"
proof -
  have "anchored (\<lambda>st. insert_node (depthFuel st) rt e st)"
    using anchoredD [OF anchored_insert] by (auto simp: anchored_def)
  then show ?thesis unfolding putEntry_def by (intro anchors)
qed

lemma Put_putEntry:
  "Put key val t =
     (case checkKey key of
        Inl e \<Rightarrow> (Inl e, t)
      | Inr _ \<Rightarrow>
          if length val > MaxValue then (Inl ErrValueTooLarge, t)
          else case bnd (store key val) (\<lambda>e. putEntry e (troot t)) (pages t) of
                 (Inl err, st) \<Rightarrow> (Inl err, t\<lparr>pages := st\<rparr>)
               | (Inr rt, st) \<Rightarrow> (Inr (), t\<lparr>pages := st, troot := rt\<rparr>))"
  unfolding Put_def putEntry_def setRoot_def
  by (auto simp: bnd_def onPages_apply split: sum.splits prod.splits)

lemma putEntry_spec:
  assumes h: "tree_on st rt F (ipages x) kvs" and x: "item_at st x"
    and w: "putEntry (ikv x) rt st = (res, st')" and lim: "pageLimit st'"
  shows "case res of Inl e \<Rightarrow> e \<in> quota_errors st \<or> e = ErrCannotSplit \<and> entryBytes (ikv x) = 2024
    | Inr pid \<Rightarrow> (\<exists>qs. trades st F st' qs) \<and> tree_is st' pid F (put_kv (ikey x) (ival x) kvs)"
proof (cases "rt = 0")
  case True
  have "writeLeaf 0 [ikv x] st = (res, st')" using w True by (simp add: putEntry_def)
  moreover have "owns st F (ipages x)" "kvs = []" using h True by (simp_all add: tree_on_def)
  moreover have "put_kv (ikey x) (ival x) [] = [pair_of x]" by (simp add: put_kv_def pair_of_def)
  ultimately show ?thesis using Put_root_spec [OF _ x _ lim, of F res] by (cases res) auto
next
  case False
  obtain s l where s: "root s = rt" "stored st s" "level l s" "in_order (trail s)" "owns st F (pgs s @ ipages x)" "kvs = map pair_of (ents (trail s))"
    by (rule tree_onE [OF h False])
  have fuel: "l < depthFuel st" by (rule level_fuel [OF s(3,2,5)])
  obtain r1 s1 where r1: "insert_node (depthFuel st) (root s) (ikv x) st = (r1, s1)"
    by (cases "insert_node (depthFuel st) (root s) (ikv x) st")
  have tail: "(case r1 of Inl e \<Rightarrow> (Inl e, s1) | Inr (left, sep, right) \<Rightarrow>
      (if right = 0 then ret left else writeBranch 0 \<lparr>bkeys = [sep], children = [left, right]\<rparr>) s1) = (res, st')"
    using w False r1 s(1) by (auto simp: putEntry_def bnd_def split: sum.splits)
  have lim1: "pageLimit s1"
  proof (cases r1)
    case (Inl e)
    with tail lim show ?thesis by simp
  next
    case (Inr q)
    with tail lim anchoredD [OF anchored_write(2)] pageLimit_back [OF lim] show ?thesis
      by (auto split: prod.splits if_splits)
  qed
  have ins: "inserted st F l x [] (trail s) [] (r1, s1)"
    by (rule insert_node_spec [OF s(2,3) fuel s(5) x _ _ _ r1 lim1]) (use s in simp_all)
  show ?thesis
  proof (cases r1)
    case (Inl e)
    with ins tail show ?thesis by (auto simp: inserted_def)
  next
    case (Inr q)
    obtain left sep right where q: "q = (left, sep, right)" by (cases q) auto
    from ins Inr q obtain R qs where R: "grown s1 l (left, sep, right) R qs" "trades st F s1 qs" "in_order R" "ents R = ins x (ents (trail s))"
      by (auto simp: inserted_def)
    have p: "map pair_of (ents R) = put_kv (ikey x) (ival x) kvs" using R(4) s(6) by (simp add: pairs_ins)
    show ?thesis
    proof (cases "right = 0")
      case True
      with grown_tree [of s1 l left sep R qs F] R p tail Inr q tradesD(1) [OF R(2)] show ?thesis by auto
    next
      case False
      with tail Inr q have "writeBranch 0 \<lparr>bkeys = [sep], children = [left, right]\<rparr> s1 = (res, st')" by simp
      from grown_root [OF R(1) False tradesD(1) [OF R(2)] R(3) this lim] p show ?thesis
        using quota_errors_anchor [OF tradesD(3) [OF R(2)]] trades_trans [OF R(2)] by (auto split: sum.splits)
    qed
  qed
qed

lemma store_tree:
  assumes h: "tree_is st rt F kvs" and k: "length key \<le> MaxKey" and v: "length val \<le> MaxValue"
    and run: "store key val st = (res, st')" and lim: "pageLimit st'"
  shows "case res of Inl e \<Rightarrow> e \<in> quota_errors st
     | Inr e \<Rightarrow> \<exists>x. ikv x = e \<and> ikey x = key \<and> ival x = val \<and> item_at st' x \<and> tree_on st' rt F (ipages x) kvs
         \<and> kept F st st' \<and> same_anchor st st' \<and> guarded st st'
         \<and> entryBytes e = (if length val \<le> MaxInline then length key + length val + 8 else length key + 16)"
proof (cases "rt = 0")
  case True
  with h have "owns st F []" "kvs = []" by (simp_all add: tree_on_def)
  with store_spec [OF _ k v run lim, of F "[]"] True show ?thesis by (fastforce simp: tree_on_def trades_def split: sum.splits)
next
  case False
  obtain s l where s: "root s = rt" "stored st s" "level l s" "in_order (trail s)" "owns st F (pgs s @ [])" "kvs = map pair_of (ents (trail s))"
    by (rule tree_onE [OF h False])
  show ?thesis
  proof (cases res)
    case (Inr e)
    with store_spec [OF _ k v run lim, of F "pgs s"] s(5) obtain x where x: "ikv x = e" "ikey x = key" "ival x = val" "item_at st' x"
      "trades st F st' (ipages x @ pgs s)" "kept (set (pgs s)) st st'"
      "entryBytes e = (if length val \<le> MaxInline then length key + length val + 8 else length key + 16)"
      by auto
    have "owns st' F (pgs s @ ipages x)" using tradesD(1) [OF x(5)] by (subst owns_perm [of _ "ipages x @ pgs s"]) simp_all
    then have "tree_on st' rt F (ipages x) kvs"
      using False s stored_kept [OF s(2) x(6)] unfolding tree_on_def by auto
    with x tradesD(2-4) [OF x(5)] Inr show ?thesis by auto
  qed (use store_spec [OF _ k v run lim, of F "pgs s"] s(5) in simp)
qed

lemma Put_spec:
  assumes h: "holds_map t F kvs" and k: "checkKey key = Inr ()" and v: "length val \<le> MaxValue"
    and run: "Put key val t = (res, t')" and lim: "pageLimit (pages t')"
  shows "stored_kv t F key val kvs (res, t')"
proof -
  have kl: "length key \<le> MaxKey" using k by (simp add: checkKey_ok)
  obtain r1 s1 where r1: "store key val (pages t) = (r1, s1)" by (cases "store key val (pages t)")
  show ?thesis
  proof (cases r1)
    case (Inl e)
    then have "res = Inl e" "pages t' = s1" using run r1 k v by (auto simp: Put_putEntry)
    with store_tree [OF h [unfolded holds_map_def] kl v r1] Inl lim show ?thesis by (simp add: stored_kv_def quota_errors_iff)
  next
    case (Inr e)
    obtain r2 s2 where r2: "putEntry e (troot t) s1 = (r2, s2)" by (cases "putEntry e (troot t) s1")
    have res: "pages t' = s2" "(case r2 of Inl e \<Rightarrow> res = Inl e | Inr rt \<Rightarrow> res = Inr () \<and> troot t' = rt)"
      using run r1 r2 k v Inr by (cases r2; auto simp: Put_putEntry)+
    have lim1: "pageLimit s1" using pageLimit_back [OF lim] res(1) anchoredD [OF anchored_putEntry r2] by simp
    obtain x where x: "ikv x = e" "ikey x = key" "ival x = val" "item_at s1 x" "tree_on s1 (troot t) F (ipages x) kvs"
      "kept F (pages t) s1" "same_anchor (pages t) s1" "guarded (pages t) s1"
      "entryBytes e = (if length val \<le> MaxInline then length key + length val + 8 else length key + 16)"
      using store_tree [OF h [unfolded holds_map_def] kl v r1 lim1] unfolding Inr sum.case by blast
    have p: "case r2 of Inl e \<Rightarrow> e \<in> quota_errors s1 \<or> e = ErrCannotSplit \<and> entryBytes (ikv x) = 2024
      | Inr pid \<Rightarrow> (\<exists>qs. trades s1 F s2 qs) \<and> tree_is s2 pid F (put_kv (ikey x) (ival x) kvs)"
      by (rule putEntry_spec [OF x(5,4)]) (use r2 x(1) lim res(1) in simp_all)
    have full: "entryBytes e = 2024 \<Longrightarrow> length key = MaxKey \<and> length val = MaxInline"
      using x(9) kl by (auto simp: sizes layout split: if_splits)
    show ?thesis
    proof (cases r2)
      case (Inl e')
      with p res(2) x(1) full quota_errors_anchor [OF x(7)] show ?thesis by (auto simp: stored_kv_def quota_errors_iff)
    next
      case (Inr rt)
      with p res x(2,3) obtain qs where "trades s1 F s2 qs" "res = Inr ()" "holds_map t' F (put_kv key val kvs)"
        by (auto simp: holds_map_def)
      with kept_trans [OF x(6)] same_anchor_trans [OF x(7)] guarded_trans [OF x(8)] res(1) show ?thesis by (simp add: stored_kv_def trades_def)
    qed
  qed
qed

section \<open>Walks\<close>

lemma walkAll_append:
  "walkAll f (xs @ ys) s =
     (case walkAll f xs s of (Inr True, s') \<Rightarrow> walkAll f ys s' | out \<Rightarrow> out)"
  by (induction xs arbitrary: s) (auto simp: bnd_def split: sum.splits prod.splits bool.splits)

lemma walkAll_map: "walkAll f (map g xs) = walkAll (\<lambda>x. f (g x)) xs"
  by (induction xs) (auto cong: if_cong)

lemma walkAll_cong: "(\<And>x. x \<in> set xs \<Longrightarrow> f x = g x) \<Longrightarrow> walkAll f xs = walkAll g xs"
  by (induction xs) (auto cong: if_cong)

lemma walkAll_concat: "walkAll (\<lambda>x. walkAll f (g x)) xs = walkAll f (concat (map g xs))"
proof (induction xs)
  case (Cons x xs)
  then show ?case by (auto simp: fun_eq_iff walkAll_append bnd_def split: sum.splits prod.splits bool.splits)
qed simp

text \<open>The pure walk: the callback over the pairs in order, until it says there is no more.\<close>

definition visitAll :: "(bytes \<Rightarrow> bytes \<Rightarrow> 's \<Rightarrow> bool \<times> 's) \<Rightarrow> (bytes \<times> bytes) list \<Rightarrow> ('s, bool) op" where
  "visitAll visit kvs = walkAll (\<lambda>(k, v) s. let (more, s') = visit k v s in (Inr more, s')) kvs"

lemma visit_items:
  assumes "\<forall>x \<in> set xs. item_at st x"
  shows "walkAll (visitEntry st visit) (map ikv xs) = visitAll visit (map pair_of xs)"
  unfolding visitAll_def walkAll_map
  by (rule walkAll_cong) (use assms in \<open>auto simp: visitEntry_def load_item pair_of_def fun_eq_iff\<close>)

text \<open>The entries at or above a key, and those strictly below one.\<close>

definition from_key :: "bytes option \<Rightarrow> item list \<Rightarrow> item list" where
  "from_key k xs = (case k of None \<Rightarrow> xs | Some k \<Rightarrow> filter (\<lambda>x. k \<le> ikey x) xs)"

definition below_key :: "bytes option \<Rightarrow> item list \<Rightarrow> item list" where
  "below_key k xs = (case k of None \<Rightarrow> xs | Some k \<Rightarrow> filter (\<lambda>x. ikey x < k) xs)"

lemma nth_upt_drop: "map (\<lambda>j. f (xs ! j)) [i..<length xs] = map f (drop i xs)"
  by (rule nth_equalityI) auto

lemma nth_upt_take: "i \<le> length xs \<Longrightarrow> map (\<lambda>j. f (xs ! j)) [0..<i] = map f (take i xs)"
  by (rule nth_equalityI) auto

text \<open>Where a walk starts among the subtrees of a branch, and what the subtrees beyond hold.\<close>

lemma walk_focus:
  assumes o: "in_order (trail (NodeS p ks ts))" and len: "length ts = Suc (length ks)"
  shows "ents (trail (NodeS p ks ts)) = concat (map (\<lambda>t. ents (trail t)) ts)"
    "from_key (Some k) (ents (trail (NodeS p ks ts))) =
       from_key (Some k) (ents (trail (ts ! childFor ks k))) @ concat (map (\<lambda>t. ents (trail t)) (drop (Suc (childFor ks k)) ts))"
    "below_key (Some k) (ents (trail (NodeS p ks ts))) =
       concat (map (\<lambda>t. ents (trail t)) (take (childFor ks k) ts)) @ below_key (Some k) (ents (trail (ts ! childFor ks k)))"
    "childFor ks k < length ts"
proof -
  show "ents (trail (NodeS p ks ts)) = concat (map (\<lambda>t. ents (trail t)) ts)" using len by (simp add: ents_weave comp_def)
  obtain A B where f: "childFor ks k \<le> length ks" "weave (map trail ts) ks = A @ map trail ts ! childFor ks k @ B"
    "\<And>a x. a \<in> set A \<Longrightarrow> ikey x = k \<Longrightarrow> before a (Ent x)" "\<And>b x. b \<in> set B \<Longrightarrow> ikey x = k \<Longrightarrow> before (Ent x) b"
    "ents A = concat (map ents (take (childFor ks k) (map trail ts)))" "ents B = concat (map ents (drop (Suc (childFor ks k)) (map trail ts)))"
    using childFor_focus [of "map trail ts" ks k] o len by (metis length_map trail.simps(2))
  show c: "childFor ks k < length ts" using f(1) len by simp
  let ?x = "\<lparr>ikv = \<lparr>kv_key = k, kv_value = [], kv_head = 0, kv_length = 0\<rparr>, ival = [], ipages = []\<rparr>"
  have lo: "\<forall>a \<in> set (ents A). ikey a < k" using ents_below [of A ?x] f(3) [of _ ?x] by simp
  have hi: "\<forall>b \<in> set (ents B). k < ikey b" using ents_above [of B ?x] f(4) [of _ ?x] by simp
  have e: "ents A = concat (map (\<lambda>t. ents (trail t)) (take (childFor ks k) ts))"
    "ents B = concat (map (\<lambda>t. ents (trail t)) (drop (Suc (childFor ks k)) ts))"
    using f(5,6) by (simp_all add: take_map drop_map comp_def)
  have t: "ents (trail (NodeS p ks ts)) = ents A @ ents (trail (ts ! childFor ks k)) @ ents B" using f(2) c by simp
  have "filter (\<lambda>x. k \<le> ikey x) (ents A) = []" "filter (\<lambda>x. k \<le> ikey x) (ents B) = ents B"
    "filter (\<lambda>x. ikey x < k) (ents A) = ents A" "filter (\<lambda>x. ikey x < k) (ents B) = []"
    using lo hi by (auto simp: filter_empty_conv filter_id_conv not_le less_imp_le dest: less_asym)
  then show "from_key (Some k) (ents (trail (NodeS p ks ts))) =
       from_key (Some k) (ents (trail (ts ! childFor ks k))) @ concat (map (\<lambda>t. ents (trail t)) (drop (Suc (childFor ks k)) ts))"
    "below_key (Some k) (ents (trail (NodeS p ks ts))) =
       concat (map (\<lambda>t. ents (trail t)) (take (childFor ks k) ts)) @ below_key (Some k) (ents (trail (ts ! childFor ks k)))"
    unfolding from_key_def below_key_def t e [symmetric] by simp_all
qed

lemma in_order_child:
  assumes "in_order (weave ls ks)" "l \<in> set ls" "length ls = Suc (length ks)"
  shows "in_order l"
  using assms by (induction ls ks rule: weave.induct) (auto simp: sorted_wrt_append)

lemma ascend_spec:
  assumes "stored st t" "level h t" "h < n" "in_order (trail t)"
  shows "ascend n st visit (root t, k) = visitAll visit (map pair_of (from_key k (ents (trail t))))"
  using assms
proof (induction t arbitrary: h n k)
  case (LeafS p xs)
  then obtain m where n: "n = Suc m" by (cases n) auto
  have s: "keys_sorted (map ikv xs)" using LeafS.prems(4) by (simp add: in_order_Ents)
  let ?pos = "case k of None \<Rightarrow> 0 | Some k \<Rightarrow> fst (findKey (map ikv xs) k)"
  have d: "drop ?pos (map ikv xs) = map ikv (from_key k xs)"
  proof (cases k)
    case (Some key)
    obtain pos found where f: "findKey (map ikv xs) key = (pos, found)" by (cases "findKey (map ikv xs) key")
    have "filter (\<lambda>x. key \<le> ikey x) xs = drop pos xs"
    proof (rule filter_drop [OF findKey_items(4) [OF s f]])
      show "\<not> key \<le> ikey (xs ! i)" if "i < pos" for i
        using findKey_spec(2) [OF s f that] that findKey_items(4) [OF s f] by (simp add: not_le)
      show "key \<le> ikey (xs ! i)" if "pos \<le> i" "i < length xs" for i using findKey_spec(3) [OF s f that(1)] that(2) by simp
    qed
    with Some f show ?thesis by (simp add: from_key_def drop_map)
  qed (simp add: from_key_def)
  have "\<forall>x \<in> set (from_key k xs). item_at st x" using LeafS.prems(1) by (auto simp: from_key_def split: option.splits)
  from visit_items [OF this, of visit] d LeafS.prems(1) show ?case by (simp add: n Let_def)
next
  case (NodeS p ks ts)
  obtain m where n: "n = Suc m" using NodeS.prems(3) by (cases n) auto
  obtain g where g: "h = Suc g" "\<forall>t \<in> set ts. level g t" using NodeS.prems(2) by (auto simp: level.simps(2))
  have len: "length ts = Suc (length ks)" using NodeS.prems(1) by (simp add: branch_ok_def)
  define i where "i = (case k of None \<Rightarrow> 0 | Some k \<Rightarrow> childFor ks k)"
  have i: "i < length ts" using walk_focus(4) [OF NodeS.prems(4) len] len by (auto simp: i_def split: option.splits)
  have ih: "ascend m st visit (root t, k') = visitAll visit (map pair_of (from_key k' (ents (trail t))))" if "t \<in> set ts" for t k'
    by (rule NodeS.IH [OF that]) (use that NodeS.prems(1,3,4) g n in_order_child [of "map trail ts" ks "trail t"] len in auto)
  have "ascend n st visit (root (NodeS p ks ts), k) =
     walkAll (\<lambda>j. ascend m st visit (map root ts ! j, if j > i then None else k)) [i..<length ts]"
    using NodeS.prems(1) by (cases k) (simp_all add: n Let_def i_def walkAll_map cong: if_cong)
  also have "\<dots> = walkAll (\<lambda>j. visitAll visit (map pair_of (from_key (if j > i then None else k) (ents (trail (ts ! j)))))) [i..<length ts]"
    by (rule walkAll_cong) (simp add: ih)
  also have "\<dots> = visitAll visit (concat (map (\<lambda>j. map pair_of (from_key (if j > i then None else k) (ents (trail (ts ! j))))) [i..<length ts]))"
    unfolding visitAll_def by (rule walkAll_concat)
  also have "concat (map (\<lambda>j. map pair_of (from_key (if j > i then None else k) (ents (trail (ts ! j))))) [i..<length ts])
    = map pair_of (from_key k (ents (trail (ts ! i))) @ concat (map (\<lambda>t. ents (trail t)) (drop (Suc i) ts)))"
  proof -
    have "map (\<lambda>j. map pair_of (from_key (if j > i then None else k) (ents (trail (ts ! j))))) [Suc i..<length ts]
      = map (\<lambda>j. map pair_of (ents (trail (ts ! j)))) [Suc i..<length ts]"
      by (simp add: from_key_def)
    then show ?thesis
      using i nth_upt_drop [of "\<lambda>t. map pair_of (ents (trail t))" ts "Suc i"] by (simp add: upt_conv_Cons map_concat comp_def)
  qed
  also have "from_key k (ents (trail (ts ! i))) @ concat (map (\<lambda>t. ents (trail t)) (drop (Suc i) ts)) = from_key k (ents (trail (NodeS p ks ts)))"
  proof (cases k)
    case None
    then have i0: "i = 0" by (simp add: i_def)
    obtain t ts' where "ts = t # ts'" using len by (cases ts) auto
    with None i0 walk_focus(1) [OF NodeS.prems(4) len] show ?thesis by (simp add: from_key_def del: trail.simps)
  next
    case (Some key)
    with walk_focus(2) [OF NodeS.prems(4) len, of key] show ?thesis by (simp add: i_def del: trail.simps)
  qed
  finally show ?case .
qed

lemma descend_spec:
  assumes "stored st t" "level h t" "h < n" "in_order (trail t)"
  shows "descend n st visit (root t, k) = visitAll visit (rev (map pair_of (below_key k (ents (trail t)))))"
  using assms
proof (induction t arbitrary: h n k)
  case (LeafS p xs)
  then obtain m where n: "n = Suc m" by (cases n) auto
  have s: "keys_sorted (map ikv xs)" using LeafS.prems(4) by (simp add: in_order_Ents)
  let ?pos = "case k of None \<Rightarrow> length (map ikv xs) | Some k \<Rightarrow> fst (findKey (map ikv xs) k)"
  have d: "take ?pos (map ikv xs) = map ikv (below_key k xs)"
  proof (cases k)
    case (Some key)
    obtain pos found where f: "findKey (map ikv xs) key = (pos, found)" by (cases "findKey (map ikv xs) key")
    with Some findKey_items(1) [OF s f] show ?thesis by (simp add: below_key_def take_map)
  qed (simp add: below_key_def)
  have "\<forall>x \<in> set (rev (below_key k xs)). item_at st x" using LeafS.prems(1) by (auto simp: below_key_def split: option.splits)
  from visit_items [OF this, of visit] d LeafS.prems(1) show ?case by (simp add: n Let_def rev_map)
next
  case (NodeS p ks ts)
  obtain m where n: "n = Suc m" using NodeS.prems(3) by (cases n) auto
  obtain g where g: "h = Suc g" "\<forall>t \<in> set ts. level g t" using NodeS.prems(2) by (auto simp: level.simps(2))
  have len: "length ts = Suc (length ks)" using NodeS.prems(1) by (simp add: branch_ok_def)
  define i where "i = (case k of None \<Rightarrow> length ts - 1 | Some k \<Rightarrow> childFor ks k)"
  have i: "i < length ts" using walk_focus(4) [OF NodeS.prems(4) len] len by (auto simp: i_def split: option.splits)
  have ih: "descend m st visit (root t, k') = visitAll visit (rev (map pair_of (below_key k' (ents (trail t)))))" if "t \<in> set ts" for t k'
    by (rule NodeS.IH [OF that]) (use that NodeS.prems(1,3,4) g n in_order_child [of "map trail ts" ks "trail t"] len in auto)
  have "descend n st visit (root (NodeS p ks ts), k) =
     walkAll (\<lambda>j. descend m st visit (map root ts ! j, if j < i then None else k)) (rev [0..<Suc i])"
    using NodeS.prems(1) by (cases k) (simp_all add: n Let_def i_def walkAll_map del: upt_Suc cong: if_cong)
  also have "\<dots> = walkAll (\<lambda>j. visitAll visit (rev (map pair_of (below_key (if j < i then None else k) (ents (trail (ts ! j))))))) (rev [0..<Suc i])"
    by (rule walkAll_cong) (use i in \<open>auto simp: ih\<close>)
  also have "\<dots> = visitAll visit (concat (map (\<lambda>j. rev (map pair_of (below_key (if j < i then None else k) (ents (trail (ts ! j)))))) (rev [0..<Suc i])))"
    unfolding visitAll_def by (rule walkAll_concat)
  also have "concat (map (\<lambda>j. rev (map pair_of (below_key (if j < i then None else k) (ents (trail (ts ! j)))))) (rev [0..<Suc i]))
    = rev (map pair_of (concat (map (\<lambda>t. ents (trail t)) (take i ts)) @ below_key k (ents (trail (ts ! i)))))"
  proof -
    have "map (\<lambda>j. map pair_of (below_key (if j < i then None else k) (ents (trail (ts ! j))))) [0..<i] = map (\<lambda>t. map pair_of (ents (trail t))) (take i ts)"
    proof -
      have "map (\<lambda>j. map pair_of (below_key (if j < i then None else k) (ents (trail (ts ! j))))) [0..<i]
        = map (\<lambda>j. map pair_of (ents (trail (ts ! j)))) [0..<i]"
        by (rule map_cong) (simp_all add: below_key_def)
      with i nth_upt_take [of i ts "\<lambda>t. map pair_of (ents (trail t))"] show ?thesis by simp
    qed
    moreover have "concat (map (\<lambda>j. rev (f j)) (rev js)) = rev (concat (map f js))" for f :: "nat \<Rightarrow> (bytes \<times> bytes) list" and js
      by (simp add: rev_concat rev_map comp_def)
    ultimately show ?thesis by (simp add: map_concat comp_def)
  qed
  also have "concat (map (\<lambda>t. ents (trail t)) (take i ts)) @ below_key k (ents (trail (ts ! i))) = below_key k (ents (trail (NodeS p ks ts)))"
  proof (cases k)
    case None
    then have i0: "Suc i = length ts" using len by (simp add: i_def)
    then have "ts = take i ts @ [ts ! i]" using take_Suc_conv_app_nth [of i ts] i by simp
    then have "concat (map (\<lambda>t. ents (trail t)) ts) = concat (map (\<lambda>t. ents (trail t)) (take i ts @ [ts ! i]))" by (rule arg_cong)
    with None walk_focus(1) [OF NodeS.prems(4) len] show ?thesis by (simp add: below_key_def del: trail.simps)
  next
    case (Some key)
    with walk_focus(3) [OF NodeS.prems(4) len, of key] show ?thesis by (simp add: i_def del: trail.simps)
  qed
  finally show ?case .
qed

definition from_kv :: "bytes option \<Rightarrow> (bytes \<times> bytes) list \<Rightarrow> (bytes \<times> bytes) list" where
  "from_kv k kvs = (case k of None \<Rightarrow> kvs | Some k \<Rightarrow> filter (\<lambda>p. k \<le> fst p) kvs)"

definition below_kv :: "bytes option \<Rightarrow> (bytes \<times> bytes) list \<Rightarrow> (bytes \<times> bytes) list" where
  "below_kv k kvs = (case k of None \<Rightarrow> kvs | Some k \<Rightarrow> filter (\<lambda>p. fst p < k) kvs)"

lemma pairs_from: "map pair_of (from_key k xs) = from_kv k (map pair_of xs)"
  and pairs_below: "map pair_of (below_key k xs) = below_kv k (map pair_of xs)"
  by (simp_all add: from_key_def from_kv_def below_key_def below_kv_def pair_of_def filter_map comp_def split: option.splits)

lemma Ascend_spec:
  assumes h: "holds_map t F kvs"
  shows "Ascend t k visit = bnd (visitAll visit (from_kv k kvs)) (\<lambda>_. ret ())"
proof (cases "troot t = 0")
  case True
  with h show ?thesis by (auto simp: Ascend_def holds_map_def tree_on_def from_kv_def visitAll_def fun_eq_iff split: option.splits)
next
  case False
  obtain s l where s: "root s = troot t" "stored (pages t) s" "level l s" "in_order (trail s)" "owns (pages t) F (pgs s @ [])"
    "kvs = map pair_of (ents (trail s))"
    by (rule tree_onE [OF h [unfolded holds_map_def] False])
  from ascend_spec [OF s(2,3) level_fuel [OF s(3,2,5)] s(4), of visit k] s(1,6) False show ?thesis
    by (simp add: Ascend_def pairs_from)
qed

lemma Descend_spec:
  assumes h: "holds_map t F kvs"
  shows "Descend t k visit = bnd (visitAll visit (rev (below_kv k kvs))) (\<lambda>_. ret ())"
proof (cases "troot t = 0")
  case True
  with h show ?thesis by (auto simp: Descend_def holds_map_def tree_on_def below_kv_def visitAll_def fun_eq_iff split: option.splits)
next
  case False
  obtain s l where s: "root s = troot t" "stored (pages t) s" "level l s" "in_order (trail s)" "owns (pages t) F (pgs s @ [])"
    "kvs = map pair_of (ents (trail s))"
    by (rule tree_onE [OF h [unfolded holds_map_def] False])
  from descend_spec [OF s(2,3) level_fuel [OF s(3,2,5)] s(4), of visit k] s(1,6) False show ?thesis
    by (simp add: Descend_def pairs_below)
qed

end
