(* ===== verification/Btree_Delete.thy ===== *)
theory Btree_Delete
  imports Btree_Map
begin

text \<open>
  Removing a key: the leaf loses its entry, and on the way back up a node that has become too empty is
  poured together with a neighbour, into one node or two even ones.
\<close>

section \<open>A node and its neighbour as one or two\<close>

text \<open>A branch whose children at \<open>left\<close> and beside it have become one node, or two with another separator.\<close>

definition absorb :: "branch \<Rightarrow> nat \<Rightarrow> nat \<times> bytes \<times> nat \<Rightarrow> branch" where
  "absorb node left res =
     (case res of (l, sep, r) \<Rightarrow>
        if r = 0 then collapse node left l
        else \<lparr>bkeys = (bkeys node)[left := sep], children = (children node)[left := l, Suc left := r]\<rparr>)"

lemma write_then_free:
  assumes w: "\<And>r s. w st = (r, s) \<Longrightarrow> pageLimit s \<Longrightarrow> written_as st F f [b] (r, s)"
    and run: "bnd w (\<lambda>l. bnd (modify (Free b)) (\<lambda>_. ret (g l))) st = (res, st')" and lim: "pageLimit st'"
  shows "case res of Inl e \<Rightarrow> e \<in> quota_errors st | Inr y \<Rightarrow> \<exists>l. y = g l \<and> stored st' (f l) \<and> trades st F st' (pgs (f l))"
proof -
  obtain r1 s1 where e1: "w st = (r1, s1)" by (cases "w st")
  show ?thesis
  proof (cases r1)
    case (Inl e)
    with run e1 w [OF e1] lim show ?thesis by (auto simp: written_as_def)
  next
    case (Inr l)
    have res: "st' = Free b s1" "res = Inr (g l)" using run e1 Inr by simp_all
    have "pageLimit s1" using pageLimit_back [OF lim] res(1) Free_anchor [of s1 b] by simp
    with w [OF e1] Inr have t: "trades st F s1 (pgs (f l) @ [b])" "stored s1 (f l)" by (simp_all add: written_as_def)
    have "owns s1 F (b # pgs (f l))" using tradesD(1) [OF t(1)] by (subst owns_perm [of _ "pgs (f l) @ [b]"]) simp_all
    note fr = Free_owns [OF this]
    from trades_trans [OF t(1) fr(1)] stored_kept [OF t(2) fr(2) subset_UNIV] res show ?thesis by auto
  qed
qed

lemma mergeLeaves_spec:
  assumes o: "owns st F (p # q # concat (map ipages ms))" and lim: "pageLimit st'"
    and items: "\<forall>x \<in> set ms. item_at st x" and c: "children node ! left = p" "children node ! Suc left = q"
    and run: "mergeLeaves node left (map ikv ms) st = (res, st')"
  shows "case res of Inl e \<Rightarrow> e \<in> quota_errors st \<or> e = ErrCannotSplit
    | Inr n \<Rightarrow> \<exists>y R ps. n = absorb node left y \<and> grown st' 0 y R ps \<and> trades st F st' ps \<and>
        (R = map Ent ms \<or> (\<exists>us z zs. ms = us @ z # zs \<and> us \<noteq> [] \<and> R = map Ent us @ Sep (ikey z) # map Ent (z # zs)))"
proof -
  have p0: "p \<noteq> 0" "q \<noteq> 0" using owned_ge [OF o, of p] owned_ge [OF o, of q] by auto
  show ?thesis
  proof (cases "leafBytes (map ikv ms) \<le> capacityBytes")
    case True
    have ok: "leaf_ok (map ikv ms)" using True items by (auto simp: leaf_ok_def item_at_def)
    have o': "owns st F (given p @ concat (map ipages ms) @ [q])"
      using o by (subst owns_perm [of _ "p # q # concat (map ipages ms)"]) (use p0 in simp_all)
    have "case res of Inl e \<Rightarrow> e \<in> quota_errors st | Inr y \<Rightarrow> \<exists>l. y = collapse node left l \<and> stored st' (LeafS l ms) \<and> trades st F st' (pgs (LeafS l ms))"
    proof (rule write_then_free [where w = "writeLeaf p (map ikv ms)" and b = q])
      show "written_as st F (\<lambda>l. LeafS l ms) [q] (r, s)" if "writeLeaf p (map ikv ms) st = (r, s)" "pageLimit s" for r s
        by (rule writeLeaf_shape [OF o' that(2,1) ok items])
    qed (use run True lim c in \<open>simp_all add: mergeLeaves_def\<close>)
    then show ?thesis
    proof (cases res)
      case (Inr n)
      with \<open>case res of Inl e \<Rightarrow> _ e | Inr y \<Rightarrow> _ y\<close> obtain l where l: "n = collapse node left l" "stored st' (LeafS l ms)" "trades st F st' (pgs (LeafS l ms))"
        by auto
      have "n = absorb node left (l, [], 0)" using l(1) by (simp add: absorb_def)
      moreover have "grown st' 0 (l, [], 0) (map Ent ms) (pgs (LeafS l ms))" using grown_one [OF l(2), of 0 "[]"] by simp
      ultimately show ?thesis using l(3) unfolding Inr sum.case by blast
    qed simp
  next
    case False
    show ?thesis
    proof (cases "splitLeaf (map ikv ms)")
      case None
      with run False show ?thesis by (auto simp: mergeLeaves_def)
    next
      case (Some d)
      note sp = splitLeaf_Some [OF Some]
      let ?us = "take d ms" and ?zs = "drop d ms"
      have d: "d < length ms" using sp(2) by simp
      have zs: "?zs = ms ! d # drop (Suc d) ms" using d by (rule Cons_nth_drop_Suc [symmetric])
      have m: "ms = ?us @ ?zs" by (rule append_take_drop_id [symmetric])
      have ok: "leaf_ok (map ikv ?us)" "leaf_ok (map ikv ?zs)"
        using sp(3,4) items by (auto simp: leaf_ok_def item_at_def take_map drop_map dest: in_set_takeD in_set_dropD)
      have it: "\<forall>x \<in> set ?us. item_at st x" "\<forall>x \<in> set ?zs. item_at st x"
        using items by (auto dest: in_set_takeD in_set_dropD)
      have split: "concat (map ipages ms) = concat (map ipages ?us) @ concat (map ipages ?zs)"
        by (metis m concat_append map_append)
      have o': "owns st F (given p @ concat (map ipages ?us) @ given q @ concat (map ipages ?zs))"
        using o by (subst owns_perm [of _ "p # q # concat (map ipages ms)"]) (use p0 split in simp_all)
      have "case res of Inl e \<Rightarrow> e \<in> quota_errors st
        | Inr y \<Rightarrow> \<exists>l r. y = \<lparr>bkeys = (bkeys node)[left := ikey (ms ! d)], children = (children node)[left := l, Suc left := r]\<rparr>
            \<and> stored st' (LeafS l ?us) \<and> stored st' (LeafS r ?zs) \<and> trades st F st' (pgs (LeafS l ?us) @ pgs (LeafS r ?zs))"
      proof (rule two_writes [where wa = "writeLeaf p (map ikv ?us)" and wb = "writeLeaf q (map ikv ?zs)" and b = q and pb = "concat (map ipages ?zs)"])
        show "written_as st F (\<lambda>l. LeafS l ?us) (given q @ concat (map ipages ?zs)) (r, s)"
          if "writeLeaf p (map ikv ?us) st = (r, s)" "pageLimit s" for r s
          by (rule writeLeaf_shape [OF o' that(2,1) ok(1) it(1)])
        show "written_as s F (\<lambda>r. LeafS r ?zs) (pgs (LeafS l ?us)) (r, s')"
          if "kept (set (concat (map ipages ?zs))) st s" "owns s F (given q @ concat (map ipages ?zs) @ pgs (LeafS l ?us))"
            "writeLeaf q (map ikv ?zs) s = (r, s')" "pageLimit s'" for l s r s'
          by (rule writeLeaf_shape [OF that(2,4,3) ok(2)]) (use it(2) item_at_kept [OF _ that(1)] in fastforce)
        show "bnd (writeLeaf p (map ikv ?us)) (\<lambda>l. bnd (writeLeaf q (map ikv ?zs)) (\<lambda>r.
            ret \<lparr>bkeys = (bkeys node)[left := ikey (ms ! d)], children = (children node)[left := l, Suc left := r]\<rparr>)) st = (res, st')"
          using run False Some d c unfolding mergeLeaves_def by (simp add: take_map drop_map)
      qed (rule anchors, rule lim)
      then show ?thesis
      proof (cases res)
        case (Inr n)
        with \<open>case res of Inl e \<Rightarrow> _ e | Inr y \<Rightarrow> _ y\<close> obtain l r where
          n: "n = \<lparr>bkeys = (bkeys node)[left := ikey (ms ! d)], children = (children node)[left := l, Suc left := r]\<rparr>"
          "stored st' (LeafS l ?us)" "stored st' (LeafS r ?zs)" "trades st F st' (pgs (LeafS l ?us) @ pgs (LeafS r ?zs))"
          by (simp only: sum.case) blast
        have r0: "r \<noteq> 0" using owned_ge [OF tradesD(1) [OF n(4)], of r] by auto
        have "length (ikey (ms ! d)) \<le> MaxKey" using items nth_mem [OF d] by (simp add: item_at_def kv_ok_def)
        with grown_two [OF n(2,3), of 0 "ikey (ms ! d)"] r0 zs
        have "grown st' 0 (l, ikey (ms ! d), r) (map Ent ?us @ Sep (ikey (ms ! d)) # map Ent (ms ! d # drop (Suc d) ms)) (pgs (LeafS l ?us) @ pgs (LeafS r ?zs))"
          by simp
        moreover have "n = absorb node left (l, ikey (ms ! d), r)" using n(1) r0 by (simp add: absorb_def)
        moreover have "ms = ?us @ ms ! d # drop (Suc d) ms" "?us \<noteq> []" using sp(1) d zs m by auto
        ultimately show ?thesis using n(4) unfolding Inr sum.case by blast
      qed simp
    qed
  qed
qed

lemma anchored_merge [anchors]: "anchored (mergeLeaves node left ms)" "anchored (mergeBranches node left m)"
  unfolding mergeLeaves_def mergeBranches_def by (intro anchors)+

lemma mergeBranches_spec:
  assumes o: "owns st F (p # q # concat (map pgs us))" and lim: "pageLimit st'"
    and sub: "\<forall>t \<in> set us. stored st t \<and> level h t" and len: "length us = Suc (length ls)" and ne: "ls \<noteq> []"
    and keys: "\<forall>k \<in> set ls. length k \<le> MaxKey" and c: "children node ! left = p" "children node ! Suc left = q"
    and run: "mergeBranches node left \<lparr>bkeys = ls, children = map root us\<rparr> st = (res, st')"
  shows "case res of Inl e \<Rightarrow> e \<in> quota_errors st \<or> e = ErrCannotSplit
    | Inr n \<Rightarrow> \<exists>y ps. n = absorb node left y \<and> grown st' (Suc h) y (weave (map trail us) ls) ps \<and> trades st F st' ps"
proof -
  let ?n = "\<lparr>bkeys = ls, children = map root us\<rparr>"
  have lim0: "pageLimit st" using pageLimit_back [OF lim anchoredD [OF anchored_merge(2) run]] .
  have num: "root t < 2 ^ 64" if "t \<in> set us" for t
    using owned_number [OF o lim0, of "root t"] root_in_pgs [of t] that by auto
  have p0: "p \<noteq> 0" "q \<noteq> 0" using owned_ge [OF o, of p] owned_ge [OF o, of q] by auto
  show ?thesis
  proof (cases "branchBytes ?n \<le> capacityBytes")
    case True
    have ok: "branch_ok ?n" using True len keys num by (auto simp: branch_ok_def)
    have o': "owns st F (given p @ concat (map pgs us) @ [q])"
      using o by (subst owns_perm [of _ "p # q # concat (map pgs us)"]) (use p0 in simp_all)
    have "case res of Inl e \<Rightarrow> e \<in> quota_errors st | Inr y \<Rightarrow> \<exists>l. y = collapse node left l \<and> stored st' (NodeS l ls us) \<and> trades st F st' (pgs (NodeS l ls us))"
    proof (rule write_then_free [where w = "writeBranch p ?n" and b = q])
      show "written_as st F (\<lambda>l. NodeS l ls us) [q] (r, s)" if "writeBranch p ?n st = (r, s)" "pageLimit s" for r s
        by (rule writeBranch_shape [OF o' that(2,1) ok]) (use sub in simp)
    qed (use run True lim c in \<open>simp_all add: mergeBranches_def\<close>)
    then show ?thesis
    proof (cases res)
      case (Inr n)
      with \<open>case res of Inl e \<Rightarrow> _ e | Inr y \<Rightarrow> _ y\<close> obtain l where l: "n = collapse node left l" "stored st' (NodeS l ls us)" "trades st F st' (pgs (NodeS l ls us))"
        by auto
      have "n = absorb node left (l, [], 0)" using l(1) by (simp add: absorb_def)
      moreover have "grown st' (Suc h) (l, [], 0) (weave (map trail us) ls) (pgs (NodeS l ls us))"
        using grown_one [OF l(2), of "Suc h" "[]"] sub ne by simp
      ultimately show ?thesis using l(3) unfolding Inr sum.case by blast
    qed simp
  next
    case False
    show ?thesis
    proof (cases "splitBranch ?n")
      case None
      with run False show ?thesis by (auto simp: mergeBranches_def)
    next
      case (Some d)
      note sp = splitBranch_Some [OF Some] and wide = splitBranch_wide [OF Some]
      have w: "0 < d" "Suc d < length ls" using wide False keys by simp_all
      let ?ts = "take (Suc d) us" and ?vs = "drop (Suc d) us" and ?ks = "take d ls" and ?ms = "drop (Suc d) ls"
      let ?a = "\<lparr>bkeys = ?ks, children = map root ?ts\<rparr>" and ?b = "\<lparr>bkeys = ?ms, children = map root ?vs\<rparr>"
      have ok: "branch_ok ?a" "branch_ok ?b"
        using sp(2,3) len w keys num by (auto simp: branch_ok_def min_def dest: in_set_takeD in_set_dropD)
      have it: "\<forall>t \<in> set ?ts. stored st t \<and> level h t" "\<forall>t \<in> set ?vs. stored st t \<and> level h t"
        using sub by (auto dest: in_set_takeD in_set_dropD)
      have split: "concat (map pgs us) = concat (map pgs ?ts) @ concat (map pgs ?vs)"
        by (metis append_take_drop_id concat_append map_append)
      have o': "owns st F (given p @ concat (map pgs ?ts) @ given q @ concat (map pgs ?vs))"
        using o by (subst owns_perm [of _ "p # q # concat (map pgs us)"]) (use p0 split in simp_all)
      have "case res of Inl e \<Rightarrow> e \<in> quota_errors st
        | Inr y \<Rightarrow> \<exists>l r. y = \<lparr>bkeys = (bkeys node)[left := ls ! d], children = (children node)[left := l, Suc left := r]\<rparr>
            \<and> stored st' (NodeS l ?ks ?ts) \<and> stored st' (NodeS r ?ms ?vs) \<and> trades st F st' (pgs (NodeS l ?ks ?ts) @ pgs (NodeS r ?ms ?vs))"
      proof (rule two_writes [where wa = "writeBranch p ?a" and wb = "writeBranch q ?b" and b = q and pb = "concat (map pgs ?vs)"])
        show "written_as st F (\<lambda>l. NodeS l ?ks ?ts) (given q @ concat (map pgs ?vs)) (r, s)"
          if "writeBranch p ?a st = (r, s)" "pageLimit s" for r s
          by (rule writeBranch_shape [OF o' that(2,1) ok(1)]) (use it in simp)
        show "written_as s F (\<lambda>r. NodeS r ?ms ?vs) (pgs (NodeS l ?ks ?ts)) (r, s')"
          if "kept (set (concat (map pgs ?vs))) st s" "owns s F (given q @ concat (map pgs ?vs) @ pgs (NodeS l ?ks ?ts))"
            "writeBranch q ?b s = (r, s')" "pageLimit s'" for l s r s'
          by (rule writeBranch_shape [OF that(2,4,3) ok(2)]) (use it(2) stored_kept [OF _ that(1)] in fastforce)
        show "bnd (writeBranch p ?a) (\<lambda>l. bnd (writeBranch q ?b) (\<lambda>r.
            ret \<lparr>bkeys = (bkeys node)[left := ls ! d], children = (children node)[left := l, Suc left := r]\<rparr>)) st = (res, st')"
          using run False Some c unfolding mergeBranches_def by (simp add: take_map drop_map)
      qed (rule anchors, rule lim)
      then show ?thesis
      proof (cases res)
        case (Inr n)
        with \<open>case res of Inl e \<Rightarrow> _ e | Inr y \<Rightarrow> _ y\<close> obtain l r where
          n: "n = \<lparr>bkeys = (bkeys node)[left := ls ! d], children = (children node)[left := l, Suc left := r]\<rparr>"
          "stored st' (NodeS l ?ks ?ts)" "stored st' (NodeS r ?ms ?vs)" "trades st F st' (pgs (NodeS l ?ks ?ts) @ pgs (NodeS r ?ms ?vs))"
          by (simp only: sum.case) blast
        have r0: "r \<noteq> 0" using owned_ge [OF tradesD(1) [OF n(4)], of r] by auto
        have "weave (map trail us) ls = trail (NodeS l ?ks ?ts) @ Sep (ls ! d) # trail (NodeS r ?ms ?vs)"
          using weave_cut [OF len, of d trail] w by simp
        moreover have "length (ls ! d) \<le> MaxKey" using keys w by simp
        ultimately have "grown st' (Suc h) (l, ls ! d, r) (weave (map trail us) ls) (pgs (NodeS l ?ks ?ts) @ pgs (NodeS r ?ms ?vs))"
          using grown_two [OF n(2,3), of "Suc h" "ls ! d"] it w r0 ne by simp
        moreover have "n = absorb node left (l, ls ! d, r)" using n(1) r0 by (simp add: absorb_def)
        ultimately show ?thesis using n(4) unfolding Inr sum.case by blast
      qed simp
    qed
  qed
qed

section \<open>Rebalancing\<close>

lemma weave_pair:
  assumes "length P = length KP" "length Q = length KQ"
  obtains C D where "\<And>m. weave (P @ m # Q) (KP @ KQ) = C @ m @ D"
    "\<And>m1 s m2. weave (P @ m1 # m2 # Q) (KP @ s # KQ) = C @ m1 @ Sep s # m2 @ D"
proof -
  have "\<exists>C D. (\<forall>m. weave (P @ m # Q) (KP @ KQ) = C @ m @ D) \<and> (\<forall>m1 s m2. weave (P @ m1 # m2 # Q) (KP @ s # KQ) = C @ m1 @ Sep s # m2 @ D)"
    using assms(1)
  proof (induction P KP rule: list_induct2)
    case Nil
    show ?case
    proof (cases KQ)
      case Nil
      with assms(2) show ?thesis by (auto intro!: exI [of _ "[]"])
    next
      case (Cons k ks)
      then show ?thesis by (intro exI [of _ "[]"] exI [of _ "Sep k # weave Q ks"]) simp
    qed
  next
    case (Cons l P k KP)
    then obtain C D where "\<forall>m. weave (P @ m # Q) (KP @ KQ) = C @ m @ D" "\<forall>m1 s m2. weave (P @ m1 # m2 # Q) (KP @ s # KQ) = C @ m1 @ Sep s # m2 @ D"
      by blast
    then show ?case by (intro exI [of _ "l @ Sep k # C"] exI [of _ D]) simp
  qed
  with that show thesis by blast
qed

text \<open>The branch after its two children have been poured together.\<close>

lemma absorb_grown:
  assumes g: "grown st h y R ps" and len: "length P = length KP" "length Q = length KQ"
    and foc: "\<And>m. weave (map trail P @ m # map trail Q) (KP @ KQ) = C @ m @ D"
      "\<And>m1 s m2. weave (map trail P @ m1 # m2 # map trail Q) (KP @ s # KQ) = C @ m1 @ Sep s # m2 @ D"
    and keys: "\<forall>k \<in> set (KP @ KQ). length k \<le> MaxKey"
  obtains ks' ts' where "absorb \<lparr>bkeys = KP @ k # KQ, children = map root (P @ a # b # Q)\<rparr> (length P) y = \<lparr>bkeys = ks', children = map root ts'\<rparr>"
    "weave (map trail ts') ks' = C @ R @ D" "length ts' = Suc (length ks')"
    "mset (concat (map pgs ts')) = mset ps + mset (concat (map pgs (P @ Q)))"
    "\<forall>t \<in> set ts'. t \<in> set (P @ Q) \<or> stored st t \<and> level h t" "\<forall>k \<in> set ks'. length k \<le> MaxKey"
proof -
  obtain l sep r where y: "y = (l, sep, r)" by (cases y) auto
  show thesis
  proof (cases "r = 0")
    case True
    with g y obtain t where t: "root t = l" "stored st t" "level h t" "R = trail t" "ps = pgs t" by (auto simp: grown_def)
    show thesis
    proof (rule that [of "KP @ KQ" "P @ t # Q"])
      show "absorb \<lparr>bkeys = KP @ k # KQ, children = map root (P @ a # b # Q)\<rparr> (length P) y = \<lparr>bkeys = KP @ KQ, children = map root (P @ t # Q)\<rparr>"
        using True t(1) y len by (simp add: absorb_def collapse_def removeAt_def list_update_append)
    qed (use t foc(1) len keys in auto)
  next
    case False
    with g y obtain t u where t: "root t = l" "root u = r" "stored st t" "stored st u" "level h t" "level h u"
      "R = trail t @ Sep sep # trail u" "ps = pgs t @ pgs u" "length sep \<le> MaxKey"
      by (auto simp: grown_def)
    show thesis
    proof (rule that [of "KP @ sep # KQ" "P @ t # u # Q"])
      show "absorb \<lparr>bkeys = KP @ k # KQ, children = map root (P @ a # b # Q)\<rparr> (length P) y = \<lparr>bkeys = KP @ sep # KQ, children = map root (P @ t # u # Q)\<rparr>"
        using False t(1,2) y len by (simp add: absorb_def list_update_append)
    qed (use t foc(2) len keys in auto)
  qed
qed

text \<open>Like \<open>level\<close>, but the top branch may have lost its last separator.\<close>

fun nearly :: "nat \<Rightarrow> shape \<Rightarrow> bool" where
  "nearly h (LeafS p xs) \<longleftrightarrow> h = 0"
| "nearly h (NodeS p ks ts) \<longleftrightarrow> (\<exists>m. h = Suc m \<and> (\<forall>t \<in> set ts. level m t))"

lemma level_nearly: "level h t \<Longrightarrow> nearly h t"
  by (cases t) (auto simp: level.simps(2))

lemma underfull_spec:
  assumes "stored st t" "nearly h t"
  obtains b where "isUnderfull st (root t) = Inr b" "\<not> b \<Longrightarrow> level h t"
proof (cases t)
  case (LeafS p xs)
  with assms that show thesis by (simp add: isUnderfull_def)
next
  case (NodeS p ks ts)
  with assms have "\<not> branchBytes \<lparr>bkeys = ks, children = map root ts\<rparr> < underfullBytes \<Longrightarrow> level h t"
    by (auto simp: branchBytes_def underfullBytes_def sizes layout level.simps(2))
  with assms NodeS that show thesis by (simp add: isUnderfull_def)
qed

lemma readPair_spec:
  assumes "readNode st p = Inr v" "readNode st q = Inr w" "\<And>r. Read st p = Inr r \<Longrightarrow> Kind r = k" "\<And>r. Read st q = Inr r \<Longrightarrow> Kind r = k"
  shows "readPair st p q = Inr (v, w)" "\<exists>r. Read st p = Inr r"
proof -
  obtain r r' where "Read st p = Inr r" "Read st q = Inr r'" using assms(1,2) by (auto simp: readNode_def split: sum.splits)
  with assms show "readPair st p q = Inr (v, w)" "\<exists>r. Read st p = Inr r" by (simp_all add: readPair_def)
qed

lemma readNode_kind:
  "readNode st p = Inr (IsLeaf es) \<Longrightarrow> Read st p = Inr r \<Longrightarrow> Kind r = KindLeaf"
  "readNode st p = Inr (IsBranch n) \<Longrightarrow> Read st p = Inr r \<Longrightarrow> Kind r = KindNode"
  by (auto simp: readNode_def split: sum.splits if_splits)

text \<open>The two children of a rebalance, poured together.\<close>

definition poured :: "pager \<Rightarrow> nat set \<Rightarrow> nat \<Rightarrow> branch \<Rightarrow> nat \<Rightarrow> mark list \<Rightarrow> (err + branch) \<times> pager \<Rightarrow> bool" where
  "poured st F g node j M out \<longleftrightarrow>
     (case out of
        (Inl e, _) \<Rightarrow> e \<in> quota_errors st \<or> e = ErrCannotSplit
      | (Inr n, st') \<Rightarrow> \<exists>y R ps. n = absorb node j y \<and> grown st' g y R ps \<and> trades st F st' ps \<and> ents R = ents M
          \<and> (\<forall>A B. in_order (A @ M @ B) \<longrightarrow> in_order (A @ R @ B)))"

lemma pour_leaves:
  assumes a: "stored st (LeafS p xs)" "stored st (LeafS q ys)" and o: "owns st F (pgs (LeafS p xs) @ pgs (LeafS q ys))" and lim: "pageLimit st'"
    and c: "children node ! j = p" "children node ! Suc j = q" and run: "mergeLeaves node j (map ikv xs @ map ikv ys) st = (res, st')"
  shows "poured st F 0 node j (map Ent xs @ Sep k # map Ent ys) (res, st')"
proof -
  have o': "owns st F (p # q # concat (map ipages (xs @ ys)))"
    using o by (subst owns_perm [of _ "pgs (LeafS p xs) @ pgs (LeafS q ys)"]) simp_all
  have it: "\<forall>x \<in> set (xs @ ys). item_at st x" using a by auto
  note m = mergeLeaves_spec [OF o' lim it c, of res] run
  show ?thesis
  proof (cases res)
    case (Inr n)
    with m obtain y R ps where y: "n = absorb node j y" "grown st' 0 y R ps" "trades st F st' ps"
      "R = map Ent (xs @ ys) \<or> (\<exists>us z zs. xs @ ys = us @ z # zs \<and> us \<noteq> [] \<and> R = map Ent us @ Sep (ikey z) # map Ent (z # zs))"
      by (simp only: sum.case map_append) blast
    have drop: "in_order (A @ map Ent (xs @ ys) @ B)" if "in_order (A @ (map Ent xs @ Sep k # map Ent ys) @ B)" for A B
      using that by (auto simp: sorted_wrt_append)
    from y(4) have "ents R = xs @ ys \<and> (\<forall>A B. in_order (A @ map Ent (xs @ ys) @ B) \<longrightarrow> in_order (A @ R @ B))"
    proof
      assume "R = map Ent (xs @ ys)"
      then show ?thesis by simp
    next
      assume "\<exists>us z zs. xs @ ys = us @ z # zs \<and> us \<noteq> [] \<and> R = map Ent us @ Sep (ikey z) # map Ent (z # zs)"
      then obtain us z zs where z: "xs @ ys = us @ z # zs" "us \<noteq> []" "R = map Ent us @ Sep (ikey z) # map Ent (z # zs)" by blast
      have "in_order (A @ R @ B)" if "in_order (A @ map Ent (us @ z # zs) @ B)" for A B
        using in_order_sep [OF that z(2)] z(3) by simp
      then show ?thesis using z by simp
    qed
    then have "ents R = ents (map Ent xs @ Sep k # map Ent ys)" "\<forall>A B. in_order (A @ (map Ent xs @ Sep k # map Ent ys) @ B) \<longrightarrow> in_order (A @ R @ B)"
      using drop by auto
    with y(1-3) Inr show ?thesis unfolding poured_def prod.case Inr sum.case by blast
  qed (use m in \<open>simp add: poured_def\<close>)
qed

lemma pour_branches:
  assumes a: "stored st (NodeS p ks ts)" "stored st (NodeS q ls us)" "nearly (Suc h) (NodeS p ks ts)" "nearly (Suc h) (NodeS q ls us)"
    and o: "owns st F (pgs (NodeS p ks ts) @ pgs (NodeS q ls us))" and lim: "pageLimit st'" and k: "length k \<le> MaxKey"
    and c: "children node ! j = p" "children node ! Suc j = q"
    and run: "mergeBranches node j \<lparr>bkeys = ks @ k # ls, children = map root ts @ map root us\<rparr> st = (res, st')"
  shows "poured st F (Suc h) node j (trail (NodeS p ks ts) @ Sep k # trail (NodeS q ls us)) (res, st')"
proof -
  have o': "owns st F (p # q # concat (map pgs (ts @ us)))"
    using o by (subst owns_perm [of _ "pgs (NodeS p ks ts) @ pgs (NodeS q ls us)"]) simp_all
  have len: "length ts = Suc (length ks)" "length us = Suc (length ls)" using a(1,2) by (simp_all add: branch_ok_def)
  have keys: "\<forall>k \<in> set (ks @ k # ls). length k \<le> MaxKey" using a(1,2) k by (auto simp: branch_ok_def)
  have w: "weave (map trail (ts @ us)) (ks @ k # ls) = trail (NodeS p ks ts) @ Sep k # trail (NodeS q ls us)"
    using weave_append [of "map trail ts" ks "map trail us" k ls] len by (cases us) auto
  have "case res of Inl e \<Rightarrow> e \<in> quota_errors st \<or> e = ErrCannotSplit
    | Inr n \<Rightarrow> \<exists>y ps. n = absorb node j y \<and> grown st' (Suc h) y (weave (map trail (ts @ us)) (ks @ k # ls)) ps \<and> trades st F st' ps"
    by (rule mergeBranches_spec [OF o' lim _ _ _ keys c]) (use a len run in auto)
  then show ?thesis unfolding w poured_def prod.case by (cases res) (simp, simp only: sum.case, blast)
qed

lemma anchored_rebalance [anchors]: "anchored (rebalance node pos)"
  unfolding rebalance_def Let_def by (intro anchors)

lemma rebalance_pair:
  assumes a: "stored st a" "stored st b" "nearly g a" "nearly g b" and o: "owns st F (pgs a @ pgs b)" and lim: "pageLimit st'"
    and j: "(if pos > 0 then pos - 1 else pos) = j" "Suc j < length (children node)" "children node ! j = root a" "children node ! Suc j = root b"
    and k: "length (bkeys node ! j) \<le> MaxKey" and run: "rebalance node pos st = (res, st')"
  shows "poured st F g node j (trail a @ Sep (bkeys node ! j) # trail b) (res, st')"
proof -
  have rb: "rebalance node pos st = (case pr of
          (IsLeaf first, IsLeaf second) \<Rightarrow> mergeLeaves node j (first @ second)
        | (IsBranch first, IsBranch second) \<Rightarrow>
            mergeBranches node j
              \<lparr>bkeys = bkeys first @ bkeys node ! j # bkeys second, children = children first @ children second\<rparr>
        | _ \<Rightarrow> throw ErrMalformed) st"
    if "readPair st (root a) (root b) = Inr pr" "\<exists>r. Read st (root a) = Inr r" for pr
    using that j unfolding rebalance_def by (auto simp: look_def Let_def)
  show ?thesis
  proof (cases a)
    case A: (LeafS p xs)
    with a(3,4) obtain q ys where B: "b = LeafS q ys" by (cases b) auto
    have r: "readNode st p = Inr (IsLeaf (map ikv xs))" "readNode st q = Inr (IsLeaf (map ikv ys))" using a(1,2) A B by simp_all
    note rp = readPair_spec [OF r readNode_kind(1) [OF r(1)] readNode_kind(1) [OF r(2)]]
    have "mergeLeaves node j (map ikv xs @ map ikv ys) st = (res, st')" using rb rp run A B by simp
    from pour_leaves [OF a(1,2) [unfolded A B] o [unfolded A B] lim _ _ this] A B j(3,4) a(3) show ?thesis by simp
  next
    case A: (NodeS p ks ts)
    with a(3,4) obtain q ls us h where B: "b = NodeS q ls us" "g = Suc h" by (cases b) auto
    have r: "readNode st p = Inr (IsBranch \<lparr>bkeys = ks, children = map root ts\<rparr>)" "readNode st q = Inr (IsBranch \<lparr>bkeys = ls, children = map root us\<rparr>)"
      using a(1,2) A B by simp_all
    note rp = readPair_spec [OF r readNode_kind(2) [OF r(1)] readNode_kind(2) [OF r(2)]]
    have "mergeBranches node j \<lparr>bkeys = ks @ bkeys node ! j # ls, children = map root ts @ map root us\<rparr> st = (res, st')"
      using rb rp run A B by simp
    from pour_branches [OF a(1-4) [unfolded A B] o [unfolded A B(1)] lim k _ _ this] A B j(3,4) show ?thesis by simp
  qed
qed

text \<open>A whole branch rebalanced at the child that has become too empty.\<close>

lemma rebalance_spec:
  assumes st: "\<forall>t \<in> set ts. stored st t" and near: "nearly g (ts ! i)" "\<forall>t \<in> set (take i ts @ drop (Suc i) ts). level g t" and i: "i < length ts"
    and len: "length ts = Suc (length ks)" and ne: "ks \<noteq> []" and keys: "\<forall>k \<in> set ks. length k \<le> MaxKey"
    and o: "owns st F (concat (map pgs ts))" and lim: "pageLimit st'" and ord: "in_order (A @ weave (map trail ts) ks @ B)"
    and run: "rebalance \<lparr>bkeys = ks, children = map root ts\<rparr> i st = (res, st')"
  shows "case res of Inl e \<Rightarrow> e \<in> quota_errors st \<or> e = ErrCannotSplit
    | Inr n \<Rightarrow> \<exists>ks' ts'. n = \<lparr>bkeys = ks', children = map root ts'\<rparr> \<and> length ts' = Suc (length ks')
        \<and> (\<forall>t \<in> set ts'. stored st' t \<and> level g t) \<and> (\<forall>k \<in> set ks'. length k \<le> MaxKey) \<and> trades st F st' (concat (map pgs ts'))
        \<and> in_order (A @ weave (map trail ts') ks' @ B) \<and> ents (weave (map trail ts') ks') = ents (weave (map trail ts) ks)"
proof -
  define j where "j = (if i > 0 then i - 1 else i)"
  have j: "Suc j < length ts" "i = j \<or> i = Suc j" "j < length ks" using i len ne by (auto simp: j_def)
  define P a b Q KP k KQ where d: "P = take j ts" "a = ts ! j" "b = ts ! Suc j" "Q = drop (Suc (Suc j)) ts"
    "KP = take j ks" "k = ks ! j" "KQ = drop (Suc j) ks"
  have ts: "ts = P @ a # b # Q" using j(1) unfolding d by (simp add: Cons_nth_drop_Suc)
  have ks: "ks = KP @ k # KQ" using j(3) unfolding d by (simp add: Cons_nth_drop_Suc)
  have lj: "length P = j" "length KP = j" "length Q = length KQ" using j len by (simp_all add: d)
  have lev: "level g t" if "t \<in> set (P @ Q)" for t
  proof -
    have "set (P @ Q) \<subseteq> set (take i ts @ drop (Suc i) ts)" using j(2) lj(1) by (auto simp: ts)
    with near(2) that show ?thesis by blast
  qed
  have nab: "nearly g a" "nearly g b"
    using near j(2) lj(1) level_nearly by (auto simp: ts nth_append)
  obtain C D where foc: "\<And>m. weave (map trail P @ m # map trail Q) (KP @ KQ) = C @ m @ D"
    "\<And>m1 s m2. weave (map trail P @ m1 # m2 # map trail Q) (KP @ s # KQ) = C @ m1 @ Sep s # m2 @ D"
    using weave_pair [of "map trail P" KP "map trail Q" KQ] lj by auto
  have own: "owns st F ((pgs a @ pgs b) @ concat (map pgs (P @ Q)))"
    using o by (subst owns_perm [of _ "concat (map pgs ts)"]) (simp_all add: ts)
  have fr: "owns st (F \<union> set (concat (map pgs (P @ Q)))) (pgs a @ pgs b)" "distinct (concat (map pgs (P @ Q)))" "F \<inter> set (concat (map pgs (P @ Q))) = {}"
    using own [unfolded owns_split [of st F "pgs a @ pgs b"]] by blast+
  let ?n = "\<lparr>bkeys = ks, children = map root ts\<rparr>"
  have p: "poured st (F \<union> set (concat (map pgs (P @ Q)))) g ?n j (trail a @ Sep (bkeys ?n ! j) # trail b) (res, st')"
    by (rule rebalance_pair [OF _ _ nab fr(1) lim j_def [symmetric] _ _ _ _ run])
      (use st keys j in \<open>simp_all add: d ts [symmetric] ks [symmetric]\<close>)
  show ?thesis
  proof (cases res)
    case (Inr n)
    with p obtain y R ps where y: "n = absorb ?n j y" "grown st' g y R ps" "trades st (F \<union> set (concat (map pgs (P @ Q)))) st' ps"
      "ents R = ents (trail a @ Sep k # trail b)" "\<And>A B. in_order (A @ (trail a @ Sep k # trail b) @ B) \<Longrightarrow> in_order (A @ R @ B)"
      unfolding poured_def by (auto simp: d)
    obtain ks' ts' where u: "absorb \<lparr>bkeys = KP @ k # KQ, children = map root (P @ a # b # Q)\<rparr> (length P) y = \<lparr>bkeys = ks', children = map root ts'\<rparr>"
      "weave (map trail ts') ks' = C @ R @ D" "length ts' = Suc (length ks')"
      "mset (concat (map pgs ts')) = mset ps + mset (concat (map pgs (P @ Q)))"
      "\<forall>t \<in> set ts'. t \<in> set (P @ Q) \<or> stored st' t \<and> level g t" "\<forall>k \<in> set ks'. length k \<le> MaxKey"
      by (rule absorb_grown [OF y(2) _ lj(3) foc]) (use lj keys ks in auto)
    have n: "n = \<lparr>bkeys = ks', children = map root ts'\<rparr>" using y(1) u(1) ts ks lj(1) by simp
    have tr: "trades st F st' (concat (map pgs ts'))"
      using trades_frame [OF y(3) fr(2,3)] by (subst trades_perm [of _ "ps @ concat (map pgs (P @ Q))"]) (simp_all add: u(4))
    have sub: "\<forall>t \<in> set ts'. stored st' t \<and> level g t"
    proof
      fix t assume "t \<in> set ts'"
      moreover have "stored st' t \<and> level g t" if "t \<in> set (P @ Q)"
      proof -
        have "stored st t" using st that by (auto simp: ts)
        from stored_kept [OF this tradesD(2) [OF y(3)]] that lev show ?thesis by auto
      qed
      ultimately show "stored st' t \<and> level g t" using u(5) by blast
    qed
    have w: "weave (map trail ts) ks = C @ trail a @ Sep k # trail b @ D" unfolding ts ks using foc(2) [of "trail a" "trail b" k] by simp
    have "in_order (A @ weave (map trail ts') ks' @ B)" using y(5) [of "A @ C" "D @ B"] ord u(2) w by simp
    moreover have "ents (weave (map trail ts') ks') = ents (weave (map trail ts) ks)" using y(4) u(2) w by simp
    ultimately show ?thesis using n u(3,6) sub tr unfolding Inr sum.case by blast
  qed (use p in \<open>simp add: poured_def\<close>)
qed

section \<open>Removal\<close>

definition removed_from ::
  "pager \<Rightarrow> nat set \<Rightarrow> nat \<Rightarrow> bytes \<Rightarrow> mark list \<Rightarrow> shape \<Rightarrow> mark list \<Rightarrow> (err + nat \<times> bool) \<times> pager \<Rightarrow> bool" where
  "removed_from st F h key A t B out \<longleftrightarrow>
     (case out of
        (Inl e, _) \<Rightarrow> (e \<in> quota_errors st \<or> e = ErrCannotSplit \<and> 0 < h) \<and> key \<in> ikey ` set (ents (trail t))
      | (Inr (new, was), st') \<Rightarrow> (was \<longleftrightarrow> key \<in> ikey ` set (ents (trail t))) \<and>
          (if was then \<exists>t'. root t' = new \<and> stored st' t' \<and> nearly h t' \<and> trades st F st' (pgs t')
                          \<and> in_order (A @ trail t' @ B) \<and> ents (trail t') = del key (ents (trail t))
           else new = root t \<and> st' = st))"

lemma del_findKey:
  assumes s: "keys_sorted (map ikv xs)" and f: "findKey (map ikv xs) key = (pos, True)"
  shows "removeAt pos (map ikv xs) = map ikv (del key xs)" "mset (concat (map ipages (del key xs)) @ ipages (xs ! pos)) = mset (concat (map ipages xs))"
    "pos < length xs" "ikey (xs ! pos) = key"
proof -
  note fi = findKey_items [OF s f]
  show p: "pos < length xs" "ikey (xs ! pos) = key" using fi(3) by simp_all
  have x: "xs = take pos xs @ xs ! pos # drop (Suc pos) xs" by (rule id_take_nth_drop [OF p(1)])
  have ft: "\<forall>y \<in> set (take pos xs). ikey y < key" "\<forall>y \<in> set (drop (Suc pos) xs). key < ikey y"
    unfolding fi(1) [symmetric] using fi(2) by (auto simp: fi(2) [symmetric, simplified])
  have d: "del key xs = take pos xs @ drop (Suc pos) xs"
  proof -
    have "del key (take pos xs @ [xs ! pos] @ drop (Suc pos) xs) = take pos xs @ del key [xs ! pos] @ drop (Suc pos) xs"
      by (rule del_between [OF ft])
    with x p(2) show ?thesis by (simp add: del_def)
  qed
  show "removeAt pos (map ikv xs) = map ikv (del key xs)" by (simp add: d removeAt_def take_map drop_map)
  have "mset (concat (map ipages xs)) = mset (concat (map ipages (take pos xs @ xs ! pos # drop (Suc pos) xs)))" using x by simp
  then show "mset (concat (map ipages (del key xs)) @ ipages (xs ! pos)) = mset (concat (map ipages xs))" by (simp add: d)
qed

lemma removeLeaf_spec:
  assumes t: "stored st (LeafS pid xs)" and o: "owns st F (pgs (LeafS pid xs))" and ord: "in_order (A @ map Ent xs @ B)"
    and run: "removeLeaf pid (map ikv xs) key st = (res, st')" and lim: "pageLimit st'"
  shows "removed_from st F 0 key A (LeafS pid xs) B (res, st')"
proof -
  have s: "keys_sorted (map ikv xs)" using ord by (simp add: in_order_Ents [symmetric] sorted_wrt_append)
  obtain pos found where f: "findKey (map ikv xs) key = (pos, found)" by (cases "findKey (map ikv xs) key")
  have pid: "pid \<noteq> 0" using owned_ge [OF o, of pid] by auto
  show ?thesis
  proof (cases found)
    case False
    with run f findKey_items(5) [OF s f] show ?thesis by (auto simp: removeLeaf_def removed_from_def)
  next
    case True
    with f have f': "findKey (map ikv xs) key = (pos, True)" by simp
    note d = del_findKey [OF s f']
    have mem: "key \<in> ikey ` set xs" using findKey_items(5) [OF s f] True by simp
    have x: "item_at st (xs ! pos)" using t d(3) by simp
    have o': "owns st F (ipages (xs ! pos) @ given pid @ concat (map ipages (del key xs)))"
      using o by (subst owns_perm [of _ "pgs (LeafS pid xs)"]) (use d(2) pid in \<open>simp_all add: add_ac\<close>)
    obtain s1 where rel: "release (ikv (xs ! pos)) st = (Inr (), s1)" "trades st F s1 (given pid @ concat (map ipages (del key xs)))" "kept UNIV st s1"
      by (rule release_item [OF x o'])
    have sub: "set (del key xs) \<subseteq> set xs" by (auto simp: del_def)
    have items: "\<forall>y \<in> set (del key xs). item_at s1 y" using t sub item_at_kept [OF _ rel(3)] by auto
    have ok: "leaf_ok (map ikv (del key xs))"
    proof -
      have "sum_list (map (\<lambda>y. entryBytes (ikv y)) (del key xs)) \<le> sum_list (map (\<lambda>y. entryBytes (ikv y)) xs)"
        unfolding del_def by (induction xs) auto
      then show ?thesis using t sub by (auto simp: leaf_ok_def leafBytes_sum comp_def)
    qed
    have run': "bnd (writeLeaf pid (map ikv (del key xs))) (\<lambda>new. ret (new, True)) s1 = (res, st')"
      using run rel(1) f True d(1,3) by (simp add: removeLeaf_def)
    have "case res of Inl e \<Rightarrow> e \<in> quota_errors s1
      | Inr y \<Rightarrow> \<exists>l. y = (l, True) \<and> stored st' (LeafS l (del key xs)) \<and> trades s1 F st' (pgs (LeafS l (del key xs)))"
    proof (rule one_write [OF _ run' lim])
      show "written_as s1 F (\<lambda>l. LeafS l (del key xs)) [] (r, s)" if "writeLeaf pid (map ikv (del key xs)) s1 = (r, s)" "pageLimit s" for r s
        by (rule writeLeaf_shape [OF _ that(2,1) ok items]) (use tradesD(1) [OF rel(2)] in simp)
    qed
    moreover have "in_order (A @ map Ent (del key xs) @ B)"
      using ord sub sorted_wrt_filter [of "\<lambda>a b. ikey a < ikey b" xs "\<lambda>y. ikey y \<noteq> key"]
      by (auto simp: sorted_wrt_append sorted_wrt_map del_def)
    ultimately show ?thesis
      using mem quota_errors_anchor [OF tradesD(3) [OF rel(2)]] trades_trans [OF rel(2)]
      by (cases res) (auto simp: removed_from_def intro!: exI [of _ "LeafS _ (del key xs)"])
  qed
qed

text \<open>Writing a branch that may have grown past its page.\<close>

lemma writeBranch_any:
  assumes o: "owns st F (given pos @ concat (map pgs ts))" and lim: "pageLimit st'"
    and run: "writeBranch pos \<lparr>bkeys = ks, children = map root ts\<rparr> st = (res, st')"
    and st: "\<forall>t \<in> set ts. stored st t" and len: "length ts = Suc (length ks)" and keys: "\<forall>k \<in> set ks. length k \<le> MaxKey"
  shows "case res of Inl e \<Rightarrow> e \<in> quota_errors st \<or> e = ErrCannotSplit
    | Inr pid \<Rightarrow> stored st' (NodeS pid ks ts) \<and> trades st F st' (pgs (NodeS pid ks ts))"
proof (cases "branchBytes \<lparr>bkeys = ks, children = map root ts\<rparr> \<le> capacityBytes")
  case True
  have lim0: "pageLimit st" using pageLimit_back [OF lim anchoredD [OF anchored_write(2) run]] .
  have "root t < 2 ^ 64" if "t \<in> set ts" for t using owned_number [OF o lim0, of "root t"] root_in_pgs [of t] that by auto
  then have ok: "branch_ok \<lparr>bkeys = ks, children = map root ts\<rparr>" using True len keys by (auto simp: branch_ok_def)
  have "written_as st F (\<lambda>pid. NodeS pid ks ts) [] (res, st')"
    by (rule writeBranch_shape [OF _ lim run ok st]) (use o in simp)
  then show ?thesis by (auto simp: written_as_def split: sum.splits)
next
  case False
  then have "encodeBranch p \<lparr>bkeys = ks, children = map root ts\<rparr> = Inl ErrCannotSplit" for p
    using len by (simp add: encodeBranch_def)
  with run place_error [of pos st] show ?thesis
    by (auto simp: writeBranch_def bnd_def split: sum.splits prod.splits)
qed

text \<open>An entry with a given key, to say where the key stands.\<close>

definition probe :: "bytes \<Rightarrow> item" where
  "probe k = \<lparr>ikv = \<lparr>kv_key = k, kv_value = [], kv_head = 0, kv_length = 0\<rparr>, ival = [], ipages = []\<rparr>"

lemma ikey_probe [simp]: "ikey (probe k) = k"
  by (simp add: probe_def)

lemma anchored_removeBranch [anchors]: "anchored (removeBranch pid node pos res)"
  unfolding removeBranch_def Let_def by (intro anchors)

text \<open>The way back up: the child replaced, rebalanced when it is too empty, and the branch written.\<close>

lemma removeBranch_spec:
  assumes t: "stored st (NodeS p ks ts)" and l: "level (Suc g) (NodeS p ks ts)" and i: "i < length ts"
    and foc: "\<And>m. weave ((map trail ts)[i := m]) ks = C @ m @ D"
    and fr: "distinct (p # others i ts)" "F \<inter> set (p # others i ts) = {}"
    and u: "stored s1 u" "nearly g u" "trades st (F \<union> set (p # others i ts)) s1 (pgs u)" and ord: "in_order (A @ (C @ trail u @ D) @ B)"
    and run: "removeBranch p \<lparr>bkeys = ks, children = map root ts\<rparr> i (root u, True) s1 = (res, st')" and lim: "pageLimit st'"
  shows "case res of Inl e \<Rightarrow> e \<in> quota_errors st \<or> e = ErrCannotSplit
    | Inr (new, was) \<Rightarrow> was \<and> (\<exists>t'. root t' = new \<and> stored st' t' \<and> nearly (Suc g) t' \<and> trades st F st' (pgs t')
        \<and> in_order (A @ trail t' @ B) \<and> ents (trail t') = ents (C @ trail u @ D))"
proof -
  let ?ts = "ts[i := u]"
  have bo: "branch_ok \<lparr>bkeys = ks, children = map root ts\<rparr>" using t by simp
  have len: "length ?ts = Suc (length ks)" and keys: "\<forall>k \<in> set ks. length k \<le> MaxKey" using bo by (simp_all add: branch_ok_def)
  have ne: "ks \<noteq> []" using l by simp
  have w: "weave (map trail ?ts) ks = C @ trail u @ D" using foc [of "trail u"] by (simp add: map_update)
  have upd: "?ts = take i ts @ u # drop (Suc i) ts" by (rule upd_conv_take_nth_drop [OF i])
  have t1: "trades st F s1 (pgs u @ p # others i ts)" by (rule trades_frame [OF u(3) fr])
  have own: "owns s1 F (concat (map pgs ?ts) @ [p])"
    using tradesD(1) [OF t1] by (subst owns_perm [of _ "pgs u @ p # others i ts"]) (simp_all add: upd)
  have o1: "owns s1 (F \<union> {p}) (concat (map pgs ?ts))" "F \<inter> {p} = {}"
    using own [unfolded owns_split [of s1 F "concat (map pgs ?ts)"]] by simp_all
  have p0: "p \<noteq> 0" using owned_ge [OF own, of p] by auto
  have sib: "stored s1 t \<and> level g t" if "t \<in> set (take i ts @ drop (Suc i) ts)" for t by (rule siblings_kept [OF u(3) t l that])
  have st1: "\<forall>t \<in> set ?ts. stored s1 t" using sib u(1) by (auto simp: upd)
  obtain b where b: "isUnderfull s1 (root u) = Inr b" "\<not> b \<Longrightarrow> level g u" using underfull_spec [OF u(1,2)] by blast
  define m where "m = (if b then rebalance \<lparr>bkeys = ks, children = map root ?ts\<rparr> i else ret \<lparr>bkeys = ks, children = map root ?ts\<rparr>)"
  have run': "bnd m (\<lambda>node. bnd (writeBranch p node) (\<lambda>new. ret (new, True))) s1 = (res, st')"
    using run b(1) by (cases b) (simp_all add: removeBranch_def m_def look_def map_update Let_def)
  obtain r2 s2 where r2: "m s1 = (r2, s2)" by (cases "m s1")
  have am: "anchored (\<lambda>s. bnd (writeBranch p n) (\<lambda>new. ret (new, True)) s)" for n by (intro anchors)
  have lim2: "pageLimit s2"
    using run' r2 lim pageLimit_back [OF lim anchoredD [OF am]] by (cases r2) (simp, simp)
  have reb: "case r2 of Inl e \<Rightarrow> e \<in> quota_errors s1 \<or> e = ErrCannotSplit
    | Inr n \<Rightarrow> \<exists>ks' ts'. n = \<lparr>bkeys = ks', children = map root ts'\<rparr> \<and> length ts' = Suc (length ks')
        \<and> (\<forall>t \<in> set ts'. stored s2 t \<and> level g t) \<and> (\<forall>k \<in> set ks'. length k \<le> MaxKey) \<and> trades s1 (F \<union> {p}) s2 (concat (map pgs ts'))
        \<and> in_order (A @ weave (map trail ts') ks' @ B) \<and> ents (weave (map trail ts') ks') = ents (C @ trail u @ D)"
  proof (cases b)
    case True
    have "rebalance \<lparr>bkeys = ks, children = map root ?ts\<rparr> i s1 = (r2, s2)" using r2 True by (simp add: m_def)
    then show ?thesis
      unfolding w [symmetric]
      by (rule rebalance_spec [OF st1 _ _ _ len ne keys o1(1) lim2, rotated 4]) (use u(2) sib i ord w in auto)
  next
    case False
    with r2 have "r2 = Inr \<lparr>bkeys = ks, children = map root ?ts\<rparr>" "s2 = s1" by (simp_all add: m_def)
    moreover have "\<forall>t \<in> set ?ts. stored s1 t \<and> level g t" using sib u(1) b(2) False by (auto simp: upd)
    ultimately show ?thesis using len keys trades_refl [OF o1(1)] ord w by auto
  qed
  have q: "quota_errors s1 = quota_errors st" using quota_errors_anchor [OF tradesD(3) [OF t1]] .
  show ?thesis
  proof (cases r2)
    case (Inl e)
    with run' r2 reb q show ?thesis by auto
  next
    case (Inr n)
    with reb obtain ks' ts' where n: "n = \<lparr>bkeys = ks', children = map root ts'\<rparr>" "length ts' = Suc (length ks')"
      "\<forall>t \<in> set ts'. stored s2 t \<and> level g t" "\<forall>k \<in> set ks'. length k \<le> MaxKey" "trades s1 (F \<union> {p}) s2 (concat (map pgs ts'))"
      "in_order (A @ weave (map trail ts') ks' @ B)" "ents (weave (map trail ts') ks') = ents (C @ trail u @ D)"
      by auto
    have t2: "trades s1 F s2 (concat (map pgs ts') @ [p])" by (rule trades_frame) (use n(5) o1(2) in simp_all)
    have o2: "owns s2 F (given p @ concat (map pgs ts'))"
      using tradesD(1) [OF t2] by (subst owns_perm [of _ "concat (map pgs ts') @ [p]"]) (use p0 in simp_all)
    obtain r3 where r3: "writeBranch p n s2 = (r3, st')" "res = map_sum id (\<lambda>new. (new, True)) r3"
      using run' r2 Inr by (cases "writeBranch p n s2"; cases "fst (writeBranch p n s2)") auto
    have wr: "case r3 of Inl e \<Rightarrow> e \<in> quota_errors s2 \<or> e = ErrCannotSplit
      | Inr pid \<Rightarrow> stored st' (NodeS pid ks' ts') \<and> trades s2 F st' (pgs (NodeS pid ks' ts'))"
      by (rule writeBranch_any [OF o2 lim r3(1) [unfolded n(1)]]) (use n in auto)
    note tt = trades_trans [OF t1 t2]
    show ?thesis
    proof (cases r3)
      case e: (Inl e)
      with wr r3(2) quota_errors_anchor [OF tradesD(3) [OF tt]] show ?thesis by simp
    next
      case r: (Inr pid)
      with wr have "stored st' (NodeS pid ks' ts')" "trades st F st' (pgs (NodeS pid ks' ts'))" using trades_trans [OF tt] by simp_all
      with n r r3(2) show ?thesis by (auto intro!: exI [of _ "NodeS pid ks' ts'"])
    qed
  qed
qed

lemma anchored_remove [anchors]: "anchored (remove_node n pid key)"
proof (induction n arbitrary: pid)
  case (Suc n)
  have "anchored (removeLeaf pid es key)" for pid es unfolding removeLeaf_def Let_def by (intro anchors)
  with Suc show ?case by (auto simp: Let_def intro!: anchors)
qed (simp add: anchors)

lemma remove_node_spec:
  assumes "stored st t" "level h t" "h < n" "owns st F (pgs t @ [])" "in_order (A @ trail t @ B)"
    and "remove_node n (root t) key st = (res, st')" "pageLimit st'"
  shows "removed_from st F h key A t B (res, st')"
  using assms
proof (induction t arbitrary: h n F A B res st')
  case (LeafS p xs)
  then obtain m where n: "n = Suc m" by (cases n) auto
  have run: "removeLeaf p (map ikv xs) key st = (res, st')" using LeafS.prems(1,6) by (simp add: n look_def)
  from removeLeaf_spec [OF LeafS.prems(1) _ _ run LeafS.prems(7)] LeafS.prems(2,4,5) show ?case by simp
next
  case (NodeS p ks ts)
  obtain m where n: "n = Suc m" using NodeS.prems(3) by (cases n) auto
  obtain i g C D where f: "i = childFor ks key" "i < length ts" "h = Suc g"
    "stored st (ts ! i)" "level g (ts ! i)" "trail (NodeS p ks ts) = C @ trail (ts ! i) @ D"
    "in_order ((A @ C) @ trail (ts ! i) @ D @ B)" "\<And>m. weave ((map trail ts)[i := m]) ks = C @ m @ D"
    "\<And>a y. a \<in> set C \<Longrightarrow> ikey y = key \<Longrightarrow> before a (Ent y)" "\<And>b y. b \<in> set D \<Longrightarrow> ikey y = key \<Longrightarrow> before (Ent y) b"
    "distinct (p # others i ts)" "F \<inter> set (p # others i ts) = {}" "owns st (F \<union> set (p # others i ts)) (pgs (ts ! i) @ [])"
    by (rule node_focus [where key = key, OF NodeS.prems(1,2,4,5)]) blast
  let ?n = "\<lparr>bkeys = ks, children = map root ts\<rparr>"
  obtain r1 s1 where r1: "remove_node m (root (ts ! i)) key st = (r1, s1)" by (cases "remove_node m (root (ts ! i)) key st")
  have run: "(case r1 of Inl e \<Rightarrow> (Inl e, s1) | Inr r \<Rightarrow> removeBranch p ?n i r s1) = (res, st')"
    using NodeS.prems(1,6) r1 f(2) by (cases r1) (auto simp: n look_def Let_def f(1) [symmetric] bnd_def)
  have lim1: "pageLimit s1"
    using run NodeS.prems(7) pageLimit_back [OF NodeS.prems(7) anchoredD [OF anchored_removeBranch]]
    by (cases r1) (simp, simp only: sum.case)
  have ih: "removed_from st (F \<union> set (p # others i ts)) g key (A @ C) (ts ! i) (D @ B) (r1, s1)"
    by (rule NodeS.IH [OF nth_mem [OF f(2)] f(4,5) _ f(13,7) r1 lim1]) (use NodeS.prems(3) f(3) n in simp)
  have lo: "\<forall>a \<in> set (ents C). ikey a < key" using ents_below [of C "probe key"] f(9) [of _ "probe key"] by simp
  have hi: "\<forall>b \<in> set (ents D). key < ikey b" using ents_above [of D "probe key"] f(10) [of _ "probe key"] by simp
  have mem: "key \<in> ikey ` set (ents (trail (NodeS p ks ts))) \<longleftrightarrow> key \<in> ikey ` set (ents (trail (ts ! i)))"
    unfolding f(6) using lo hi by auto
  have del: "del key (ents (trail (NodeS p ks ts))) = ents C @ del key (ents (trail (ts ! i))) @ ents D"
    unfolding f(6) using del_between [OF lo hi] by simp
  show ?case
  proof (cases r1)
    case (Inl e)
    with run have "res = Inl e" by simp
    moreover have "(e \<in> quota_errors st \<or> e = ErrCannotSplit \<and> 0 < g) \<and> key \<in> ikey ` set (ents (trail (NodeS p ks ts)))"
      using ih Inl unfolding mem by (simp add: removed_from_def)
    ultimately show ?thesis using f(3) by (auto simp: removed_from_def simp del: trail.simps)
  next
    case (Inr r)
    obtain new was where r: "r = (new, was)" by (cases r)
    show ?thesis
    proof (cases was)
      case False
      with ih Inr r have k: "key \<notin> ikey ` set (ents (trail (ts ! i)))" "s1 = st" by (auto simp: removed_from_def)
      have "res = Inr (p, False)" "st' = s1" using run Inr r False by (simp_all add: removeBranch_def)
      with k mem show ?thesis by (simp add: removed_from_def del: trail.simps)
    next
      case True
      with ih Inr r obtain u where u: "root u = new" "stored s1 u" "nearly g u" "trades st (F \<union> set (p # others i ts)) s1 (pgs u)"
        "in_order ((A @ C) @ trail u @ D @ B)" "ents (trail u) = del key (ents (trail (ts ! i)))" "key \<in> ikey ` set (ents (trail (ts ! i)))"
        by (auto simp: removed_from_def)
      have ord: "in_order (A @ (C @ trail u @ D) @ B)" using u(5) by simp
      have run': "removeBranch p ?n i (root u, True) s1 = (res, st')" using run Inr r True u(1) by simp
      note rb = removeBranch_spec [OF NodeS.prems(1) NodeS.prems(2) [unfolded f(3)] f(2,8,11,12) u(2-4) ord run' NodeS.prems(7)]
      show ?thesis
      proof (cases res)
        case e: (Inl e)
        have "key \<in> ikey ` set (ents (trail (NodeS p ks ts)))" using u(7) unfolding mem .
        with rb e f(3) show ?thesis by (simp add: removed_from_def del: trail.simps)
      next
        case o: (Inr out)
        have "ents (C @ trail u @ D) = del key (ents (trail (NodeS p ks ts)))" using del u(6) by simp
        with rb o mem u(7) f(3) show ?thesis by (auto simp: removed_from_def simp del: trail.simps)
      qed
    qed
  qed
qed

section \<open>Delete\<close>

definition deleted_kv :: "tree \<Rightarrow> nat set \<Rightarrow> bytes \<Rightarrow> (bytes \<times> bytes) list \<Rightarrow> (err + bool) \<times> tree \<Rightarrow> bool" where
  "deleted_kv t F key kvs out \<longleftrightarrow>
     (case out of
        (Inl e, _) \<Rightarrow> (e = ErrQuota \<and> maxPages (pages t) > 0 \<or> e = ErrCannotSplit) \<and> key \<in> fst ` set kvs
      | (Inr was, t') \<Rightarrow> (was \<longleftrightarrow> key \<in> fst ` set kvs) \<and> holds_map t' F (del_kv key kvs)
          \<and> kept F (pages t) (pages t') \<and> same_anchor (pages t) (pages t') \<and> guarded (pages t) (pages t'))"

text \<open>The root gives way to its only child, or an empty leaf to the empty tree.\<close>

lemma shrinkRoot_level:
  assumes s: "stored (pages t) s" "level h s" "root s = troot t" "in_order (trail s)" "owns (pages t) F (pgs s)"
  shows "\<exists>t'. shrinkRoot (Suc n) t = (Inr True, t') \<and> holds_map t' F (map pair_of (ents (trail s)))
    \<and> kept F (pages t) (pages t') \<and> same_anchor (pages t) (pages t') \<and> guarded (pages t) (pages t')"
proof (cases s)
  case (LeafS p xs)
  show ?thesis
  proof (cases "xs = []")
    case True
    note f = Free_owns [of "pages t" F p "[]"]
    from s LeafS True f show ?thesis
      by (auto simp: holds_map_def tree_on_def trades_def)
  next
    case False
    with s LeafS have "shrinkRoot (Suc n) t = (Inr True, t)" by simp
    with tree_isI [OF s(1,2,4,5)] s(3) show ?thesis by (simp add: holds_map_def)
  qed
next
  case (NodeS p ks ts)
  with s have "1 < length (map root ts)" by (auto simp: branch_ok_def level.simps(2))
  with s NodeS have "shrinkRoot (Suc n) t = (Inr True, t)" by simp
  with tree_isI [OF s(1,2,4,5)] s(3) show ?thesis by (simp add: holds_map_def)
qed

lemma shrinkRoot_spec:
  assumes s: "stored (pages t) s" "nearly h s" "root s = troot t" "in_order (trail s)" "owns (pages t) F (pgs s)"
  shows "\<exists>t'. shrinkRoot (Suc (Suc n)) t = (Inr True, t') \<and> holds_map t' F (map pair_of (ents (trail s)))
    \<and> kept F (pages t) (pages t') \<and> same_anchor (pages t) (pages t') \<and> guarded (pages t) (pages t')"
proof (cases "level h s")
  case True
  then show ?thesis by (rule shrinkRoot_level [OF s(1) _ s(3-5)])
next
  case False
  then obtain p u m where u: "s = NodeS p [] [u]" "h = Suc m" "level m u"
  proof (cases s)
    case (NodeS p ks ts)
    with False s(2) have "ks = []" by (auto simp: level.simps(2))
    moreover from this s(1) NodeS have "length ts = 1" by (simp add: branch_ok_def)
    ultimately show thesis using that [of p "hd ts"] NodeS s(2) by (cases ts) auto
  qed (use s(2) in simp)
  let ?t = "t\<lparr>pages := Free p (pages t), troot := root u\<rparr>"
  note f = Free_owns [of "pages t" F p "pgs u"]
  have o: "trades (pages t) F (Free p (pages t)) (pgs u)" "kept UNIV (pages t) (Free p (pages t))" using f s(5) u(1) by simp_all
  have su: "stored (pages ?t) u" using stored_kept [OF _ o(2)] s(1) u(1) by simp
  from shrinkRoot_level [OF su u(3), of F n] tradesD(1) [OF o(1)] s(4) u(1) obtain t' where
    t': "shrinkRoot (Suc n) ?t = (Inr True, t')" "holds_map t' F (map pair_of (ents (trail u)))" "kept F (pages ?t) (pages t')" "same_anchor (pages ?t) (pages t')"
    "guarded (pages ?t) (pages t')"
    by auto
  have "shrinkRoot (Suc (Suc n)) t = shrinkRoot (Suc n) ?t" using s(1,3) u(1) by (auto simp del: shrinkRoot.simps(2) simp: shrinkRoot.simps(2) [of "Suc n"])
  with t' kept_trans [OF tradesD(2) [OF o(1)]] same_anchor_trans [OF tradesD(3) [OF o(1)]] guarded_trans [OF tradesD(4) [OF o(1)]] u(1) show ?thesis by auto
qed

lemma del_kv_absent: "key \<notin> fst ` set kvs \<Longrightarrow> del_kv key kvs = kvs"
  by (auto simp: del_kv_def filter_id_conv)

lemma shrinkRoot_anchor: "shrinkRoot n t = (res, t') \<Longrightarrow> same_anchor (pages t) (pages t')"
proof (induction n arbitrary: t)
  case (Suc n)
  then show ?case
    by (auto split: sum.splits node_view.splits if_splits dest!: Suc.IH intro: same_anchor_trans [OF conjunct1 [OF Free_anchor]] simp: Free_anchor)
qed simp

lemma Delete_spec:
  assumes h: "holds_map t F kvs" and k: "checkKey key = Inr ()" and run: "Delete key t = (res, t')" and lim: "pageLimit (pages t')"
  shows "deleted_kv t F key kvs (res, t')"
proof (cases "troot t = 0")
  case True
  with h have "kvs = []" by (simp add: holds_map_def tree_on_def)
  with True h run k show ?thesis by (auto simp: Delete_def deleted_kv_def del_kv_def)
next
  case False
  obtain s l where s: "root s = troot t" "stored (pages t) s" "level l s" "in_order (trail s)" "owns (pages t) F (pgs s @ [])"
    "kvs = map pair_of (ents (trail s))"
    by (rule tree_onE [OF h [unfolded holds_map_def] False])
  have fst: "fst ` set kvs = ikey ` set (ents (trail s))" using s(6) by (simp add: pair_of_def image_image)
  obtain r1 s1 where r1: "remove_node (depthFuel (pages t)) (root s) key (pages t) = (r1, s1)"
    by (cases "remove_node (depthFuel (pages t)) (root s) key (pages t)")
  have run': "(case r1 of Inl e \<Rightarrow> (Inl e, t\<lparr>pages := s1\<rparr>)
     | Inr (new, was) \<Rightarrow> if \<not> was then (Inr False, t\<lparr>pages := s1\<rparr>) else shrinkRoot (depthFuel s1) (t\<lparr>pages := s1, troot := new\<rparr>)) = (res, t')"
    using run k False r1 s(1) by (auto simp: Delete_def bnd_def onPages_apply setRoot_def split: sum.splits prod.splits)
  have lim1: "pageLimit s1"
    using run' lim shrinkRoot_anchor pageLimit_back by (fastforce split: sum.splits prod.splits if_splits)
  have rem: "removed_from (pages t) F l key [] s [] (r1, s1)"
    by (rule remove_node_spec [OF s(2,3) level_fuel [OF s(3,2,5)] s(5) _ r1 lim1]) (use s(4) in simp)
  show ?thesis
  proof (cases r1)
    case (Inl e)
    with rem run' show ?thesis by (auto simp: removed_from_def deleted_kv_def quota_errors_iff fst)
  next
    case (Inr r)
    obtain new was where r: "r = (new, was)" by (cases r)
    show ?thesis
    proof (cases was)
      case False
      with rem Inr r have "key \<notin> fst ` set kvs" "s1 = pages t" by (simp_all add: removed_from_def fst)
      with run' Inr r False h show ?thesis by (auto simp: deleted_kv_def del_kv_absent)
    next
      case True
      with rem Inr r obtain u where u: "root u = new" "stored s1 u" "nearly l u" "trades (pages t) F s1 (pgs u)" "in_order (trail u)"
        "ents (trail u) = del key (ents (trail s))" "key \<in> fst ` set kvs"
        by (auto simp: removed_from_def fst)
      obtain m where m: "depthFuel s1 = Suc (Suc m)"
        using owned_ge [OF tradesD(1) [OF u(4)] root_in_pgs] owned_count [of s1 F "[]" "pgs u"] tradesD(1) [OF u(4)]
        by (cases "PageCount (meta s1)") (auto simp: depthFuel_def)
      let ?t = "t\<lparr>pages := s1, troot := new\<rparr>"
      from shrinkRoot_spec [of ?t u l F m] u tradesD(1) [OF u(4)] obtain t2 where
        t2: "shrinkRoot (Suc (Suc m)) ?t = (Inr True, t2)" "holds_map t2 F (map pair_of (ents (trail u)))" "kept F s1 (pages t2)" "same_anchor s1 (pages t2)"
        "guarded s1 (pages t2)"
        by auto
      have "res = Inr True" "t' = t2" using run' Inr r True t2(1) m by simp_all
      with t2 u(6,7) s(6) kept_trans [OF tradesD(2) [OF u(4)]] same_anchor_trans [OF tradesD(3) [OF u(4)]] guarded_trans [OF tradesD(4) [OF u(4)]] show ?thesis
        by (simp add: deleted_kv_def pairs_del)
    qed
  qed
qed

end
