(* ===== verification/Btree.thy ===== *)
theory Btree
  imports Btree_Delete
begin

text \<open>
  The tree as its users see it: an ordered map on a file, through any sequence of changes, and across
  a commit and the crash that follows it.
\<close>

section \<open>The interface: an ordered map\<close>

datatype change = PutC bytes bytes | DelC bytes

fun change_ok :: "change \<Rightarrow> bool" where
  "change_ok (PutC k v) \<longleftrightarrow> checkKey k = Inr () \<and> length v \<le> MaxValue"
| "change_ok (DelC k) \<longleftrightarrow> checkKey k = Inr ()"

text \<open>A change on the list, and what it reports: whether the key was there, for a removal.\<close>

fun change_kv :: "change \<Rightarrow> (bytes \<times> bytes) list \<Rightarrow> (bytes \<times> bytes) list" where
  "change_kv (PutC k v) kvs = put_kv k v kvs"
| "change_kv (DelC k) kvs = del_kv k kvs"

fun report_kv :: "change \<Rightarrow> (bytes \<times> bytes) list \<Rightarrow> bool" where
  "report_kv (PutC k v) kvs = True"
| "report_kv (DelC k) kvs = (k \<in> fst ` set kvs)"

fun changes_kv :: "change list \<Rightarrow> (bytes \<times> bytes) list \<Rightarrow> bool list \<times> (bytes \<times> bytes) list" where
  "changes_kv [] kvs = ([], kvs)"
| "changes_kv (c # cs) kvs = (let (bs, kvs') = changes_kv cs (change_kv c kvs) in (report_kv c kvs # bs, kvs'))"

text \<open>The same changes made with given operations, stopping at the first error.\<close>

fun run_changes ::
  "(bytes \<Rightarrow> bytes \<Rightarrow> ('t, unit) op) \<Rightarrow> (bytes \<Rightarrow> ('t, bool) op) \<Rightarrow> change list \<Rightarrow> ('t, bool list) op" where
  "run_changes sto rem [] = ret []"
| "run_changes sto rem (c # cs) =
     bnd (case c of PutC k v \<Rightarrow> bnd (sto k v) (\<lambda>_. ret True) | DelC k \<Rightarrow> rem k) (\<lambda>b.
       bnd (run_changes sto rem cs) (\<lambda>bs. ret (b # bs)))"

locale ordered_map =
  fixes holds :: "'t \<Rightarrow> (bytes \<times> bytes) list \<Rightarrow> bool"
    and limited :: "'t \<Rightarrow> bool"
    and fetch :: "'t \<Rightarrow> bytes \<Rightarrow> err + bytes option"
    and store_one :: "bytes \<Rightarrow> bytes \<Rightarrow> ('t, unit) op"
    and drop_one :: "bytes \<Rightarrow> ('t, bool) op"
    and follows :: "'t \<Rightarrow> 't \<Rightarrow> bool"
  assumes fetch_spec: "holds t kvs \<Longrightarrow> checkKey k = Inr () \<Longrightarrow> fetch t k = Inr (map_of kvs k)"
    and store_holds: "holds t kvs \<Longrightarrow> change_ok (PutC k v) \<Longrightarrow> store_one k v t = (Inr (), t') \<Longrightarrow> limited t' \<Longrightarrow>
      holds t' (put_kv k v kvs) \<and> follows t t'"
    and drop_holds: "holds t kvs \<Longrightarrow> change_ok (DelC k) \<Longrightarrow> drop_one k t = (Inr b, t') \<Longrightarrow> limited t' \<Longrightarrow>
      holds t' (del_kv k kvs) \<and> (b \<longleftrightarrow> k \<in> fst ` set kvs) \<and> follows t t'"
    and limited_store: "store_one k v t = (r, t') \<Longrightarrow> limited t' \<Longrightarrow> limited t"
    and limited_drop: "drop_one k t = (r', t') \<Longrightarrow> limited t' \<Longrightarrow> limited t"
    and follows_refl: "follows t t"
    and follows_trans: "follows t t' \<Longrightarrow> follows t' t'' \<Longrightarrow> follows t t''"
begin

lemma limited_back: "run_changes store_one drop_one cs t = (r, t') \<Longrightarrow> limited t' \<Longrightarrow> limited t"
proof (induction cs arbitrary: t r)
  case (Cons c cs)
  define m where "m = (case c of PutC k v \<Rightarrow> bnd (store_one k v) (\<lambda>_. ret True) | DelC k \<Rightarrow> drop_one k)"
  obtain r1 s where m: "m t = (r1, s)" by (cases "m t")
  have "limited s \<Longrightarrow> limited t"
    using m limited_store limited_drop unfolding m_def
    by (cases c) (auto simp: bnd_def split: sum.splits prod.splits)
  moreover have "limited s"
  proof (cases r1)
    case (Inl e)
    with Cons.prems m show ?thesis by (simp add: m_def [symmetric])
  next
    case (Inr b)
    obtain r2 s2 where r2: "run_changes store_one drop_one cs s = (r2, s2)" by (cases "run_changes store_one drop_one cs s")
    with Cons.prems m Inr have "s2 = t'" by (cases r2) (simp_all add: m_def [symmetric])
    with Cons.IH [of s r2] r2 Cons.prems(2) show ?thesis by simp
  qed
  ultimately show ?case by blast
qed simp

lemma run_refines:
  "holds t kvs \<Longrightarrow> \<forall>c \<in> set cs. change_ok c \<Longrightarrow> run_changes store_one drop_one cs t = (Inr bs, t') \<Longrightarrow> limited t' \<Longrightarrow>
     (bs, snd (changes_kv cs kvs)) = changes_kv cs kvs \<and> holds t' (snd (changes_kv cs kvs)) \<and> follows t t'"
proof (induction cs arbitrary: t kvs bs)
  case (Cons c cs)
  from Cons.prems(3) obtain b s bs' where s: "(case c of PutC k v \<Rightarrow> bnd (store_one k v) (\<lambda>_. ret True) | DelC k \<Rightarrow> drop_one k) t = (Inr b, s)"
    "run_changes store_one drop_one cs s = (Inr bs', t')" "bs = b # bs'"
    unfolding run_changes.simps by (elim bnd_InrE) simp
  have w: "limited s" by (rule limited_back [OF s(2) Cons.prems(4)])
  have c: "holds s (change_kv c kvs)" "b = report_kv c kvs" "follows t s"
  proof -
    have "holds s (change_kv c kvs) \<and> b = report_kv c kvs \<and> follows t s"
    proof (cases c)
      case (PutC k v)
      with s(1) obtain u where "store_one k v t = (Inr u, s)" "b = True" by (auto elim: bnd_InrE)
      with store_holds [OF Cons.prems(1)] Cons.prems(2) w PutC show ?thesis by auto
    next
      case (DelC k)
      with s(1) have "drop_one k t = (Inr b, s)" by simp
      from drop_holds [OF Cons.prems(1) _ this w] Cons.prems(2) DelC show ?thesis by auto
    qed
    then show "holds s (change_kv c kvs)" "b = report_kv c kvs" "follows t s" by blast+
  qed
  with Cons.IH [of s "change_kv c kvs" bs'] Cons.prems s show ?case
    by (auto simp: Let_def split: prod.splits intro: follows_trans [OF c(3)])
qed (simp add: follows_refl)

end

interpretation tree: ordered_map "\<lambda>t kvs. holds_map t F kvs" "\<lambda>t. pageLimit (pages t)" Get Put Delete
  "\<lambda>t t'. guarded (pages t) (pages t') \<and> same_anchor (pages t) (pages t') \<and> kept F (pages t) (pages t')" for F
proof
  show "Get t k = Inr (map_of kvs k)" if "holds_map t F kvs" "checkKey k = Inr ()" for t kvs k
    by (rule Get_spec [OF that])
  show "holds_map t' F (put_kv k v kvs) \<and> guarded (pages t) (pages t') \<and> same_anchor (pages t) (pages t') \<and> kept F (pages t) (pages t')"
    if "holds_map t F kvs" "change_ok (PutC k v)" "Put k v t = (Inr (), t')" "pageLimit (pages t')" for t kvs k v t'
    using Put_spec [OF that(1) _ _ that(3,4)] that(2) by (simp add: stored_kv_def)
  show "holds_map t' F (del_kv k kvs) \<and> (b \<longleftrightarrow> k \<in> fst ` set kvs)
      \<and> guarded (pages t) (pages t') \<and> same_anchor (pages t) (pages t') \<and> kept F (pages t) (pages t')"
    if "holds_map t F kvs" "change_ok (DelC k)" "Delete k t = (Inr b, t')" "pageLimit (pages t')" for t kvs k b t'
    using Delete_spec [OF that(1) _ that(3,4)] that(2) by (simp add: deleted_kv_def)
  show "pageLimit (pages t)" if "Put k v t = (r, t')" "pageLimit (pages t')" for k v t r t'
  proof -
    have "anchored (bnd (store k v) (\<lambda>e. putEntry e (troot t)))" by (intro anchors)
    then have "same_anchor (pages t) (pages t')"
      using that(1) anchoredD [of "bnd (store k v) (\<lambda>e. putEntry e (troot t))" "pages t"]
      by (auto simp: Put_putEntry split: sum.splits if_splits prod.splits)
    from pageLimit_back [OF that(2) this] show ?thesis .
  qed
  show "pageLimit (pages t)" if "Delete k t = (r, t')" "pageLimit (pages t')" for k t r t'
  proof -
    have "same_anchor (pages t) (pages t')"
      using that(1) anchoredD [OF anchored_remove] shrinkRoot_anchor
      by (fastforce simp: Delete_def bnd_def onPages_apply setRoot_def split: sum.splits if_splits prod.splits intro: same_anchor_trans)
    from pageLimit_back [OF that(2) this] show ?thesis .
  qed
  show "guarded (pages t) (pages t'') \<and> same_anchor (pages t) (pages t'') \<and> kept F (pages t) (pages t'')"
    if "guarded (pages t) (pages t') \<and> same_anchor (pages t) (pages t') \<and> kept F (pages t) (pages t')"
      "guarded (pages t') (pages t'') \<and> same_anchor (pages t') (pages t'') \<and> kept F (pages t') (pages t'')" for t t' t''
    using that by (blast intro: guarded_trans same_anchor_trans kept_trans)
qed simp

section \<open>A commit leaves the tree as it is\<close>

lemma rollGarbage_FreeSet: "FreeSet (rollGarbage st) \<subseteq> FreeSet st \<union> set (chain (free st))"
proof -
  define s1 where "s1 = foldl (\<lambda>st pid. Free pid st) st (chain (free st))"
  have "FreeSet (foldl (\<lambda>st pid. Free pid st) st ps) \<subseteq> FreeSet st \<union> set ps" for ps
  proof (induction ps arbitrary: st)
    case (Cons p ps)
    from Cons [of "Free p st"] FreeSet_Free [of p st] show ?case by auto
  qed simp
  then have "FreeSet s1 \<subseteq> FreeSet st \<union> set (chain (free st))" by (simp add: s1_def)
  moreover have "FreeSet (rollGarbage st) \<subseteq> FreeSet s1"
  proof (cases "freeing (free s1) = []")
    case True
    then show ?thesis by (simp add: rollGarbage_def s1_def [symmetric] Let_def)
  next
    case False
    let ?n = "TxID (meta s1) + 1"
    let ?old = "case map_of (fpending (free s1)) ?n of None \<Rightarrow> [] | Some ids \<Rightarrow> ids"
    have "set ?old \<subseteq> FreeSet s1"
    proof (cases "map_of (fpending (free s1)) ?n")
      case (Some ids)
      from map_of_SomeD [OF this] Some show ?thesis by (auto simp: FreeSet_def)
    qed simp
    moreover have "set (AList.update k v al) \<subseteq> insert (k, v) (set al)" for k v and al :: "(nat \<times> nat list) list"
      by (induction al) auto
    ultimately show ?thesis using False by (fastforce simp: rollGarbage_def s1_def [symmetric] Let_def FreeSet_def)
  qed
  ultimately show ?thesis by blast
qed

lemma rollGarbage_owns:
  assumes "owns st F ps"
  shows "owns (rollGarbage st) F ps"
proof -
  note h = heapD [OF conjunct1 [OF assms [unfolded owns_def]]]
  have a: "same_anchor st (rollGarbage st)" "disk (rollGarbage st) = disk st" using rollGarbage_anchor by auto
  have "heap (rollGarbage st) (F \<union> set ps)"
    unfolding heap_def
  proof (intro conjI)
    show "list_ok (rollGarbage st)" by (rule rollGarbage_list_ok(1) [OF h(1)])
    show "disk_ok (rollGarbage st)" "cipher_ok (rollGarbage st)" "2 \<le> reserved (rollGarbage st)"
      using h(2-4) a by (simp_all add: disk_ok_def cipher_ok_def same_anchor_def)
    show "F \<union> set ps \<subseteq> {reserved (rollGarbage st)..<PageCount (meta (rollGarbage st))}"
      using h(5) a(1) rollGarbage_meta by (simp add: same_anchor_def)
    show "(F \<union> set ps) \<inter> FreeSet (rollGarbage st) = {}" using h(6,7) rollGarbage_FreeSet [of st] by blast
    have "chain (free (foldl (\<lambda>st pid. Free pid st) st xs)) = chain (free st)" for xs
      by (induction xs arbitrary: st) (simp_all add: Free_fields)
    then have "chain (free (rollGarbage st)) = chain (free st)" by (simp add: rollGarbage_def Let_def)
    then show "(F \<union> set ps) \<inter> set (chain (free (rollGarbage st))) = {}" using h(7) by simp
  qed
  then show ?thesis using assms by (simp add: owns_def)
qed

lemma takeListPages_owns:
  "takeListPages ids st = (Inr ids', st') \<Longrightarrow> owns st F (ids @ ps) \<Longrightarrow> owns st' F (ids' @ ps)"
proof (induction ids st rule: takeListPages.induct)
  case (1 ids st)
  show ?case
  proof (cases "listPagesNeeded st \<le> length ids")
    case True
    with "1.prems" show ?thesis by (auto simp: takeListPages.simps [of ids st])
  next
    case False
    obtain r s1 where a: "Allocate st = (r, s1)" by fastforce
    with "1.prems"(1) False obtain pid where r: "r = Inr pid" by (cases r) (auto simp: takeListPages.simps [of ids st])
    with "1.prems"(1) False a have t: "takeListPages (ids @ [pid]) s1 = (Inr ids', st')" by (simp add: takeListPages.simps [of ids st])
    have "owns s1 F (pid # ids @ ps)" using tradesD(1) [OF Allocate_owns(1) [OF "1.prems"(2)]] a r by blast
    then have "owns s1 F ((ids @ [pid]) @ ps)" by (subst owns_perm [of _ "pid # ids @ ps"]) simp_all
    with "1.IH" [OF False a [symmetric] r t] show ?thesis .
  qed
qed

lemma Commit_disk_ok: "Commit rt st = (Inr (), st') \<Longrightarrow> \<not> closed (disk st') \<and> \<not> cut (disk st')"
proof -
  assume k: "Commit rt st = (Inr (), st')"
  have s: "\<not> closed d' \<and> \<not> cut d'" if "Sync d = (Inr (), d')" for d d'
    using that alive_cases [of d] by (auto simp: Sync_def syncLies_def Let_def split: if_splits prod.splits)
  from k obtain s3 s4 where "onFile Sync s3 = (Inr (), s4)" "disk st' = disk s4"
    by (fastforce simp: Commit_def Let_def split: if_splits elim!: bnd_InrE)
  then show ?thesis using s by (auto simp: onFile_def split: prod.splits)
qed

lemma Commit_owns:
  assumes c: "crash_ready vis st" and o: "owns st F ps" and k: "Commit rt st = (Inr (), st')"
    and n: "rt < 2 ^ 64" "TxID (meta st) + 1 < 2 ^ 64" "PageCount (meta st') < 2 ^ 64"
  shows "owns st' F ps" "kept (F \<union> set ps) st st'"
proof -
  note c' = c [unfolded crash_ready_def]
  note h = heapD [OF conjunct1 [OF o [unfolded owns_def]]]
  obtain head ids s1 where w: "writeFreelist (rollGarbage st) = (Inr (head, ids), s1)"
    and m: "meta st' = newMeta st rt head (PageCount (meta s1))" and f: "free st' = (free s1)\<lparr>chain := ids, seen := {}\<rparr>"
    and cur: "current (disk st') = overwrite (current (disk s1)) (nextMeta st * PageBytes) (metaImage (nextMeta st) (meta st'))"
    and pd: "pending (disk st') = []" "durable (disk st') = current (disk st')"
    by (rule Commit_done [OF c k])
  have pc: "PageCount (meta st') = PageCount (meta s1)" using m by (simp add: newMeta_def)
  note rg = rollGarbage_owns [OF o]
  note hr = heapD [OF conjunct1 [OF rg [unfolded owns_def]]]
  have fz: "freeing (free (rollGarbage st)) = []" using rollGarbage_list_ok(2) [OF h(1)] .
  have r0: "0 < reserved (rollGarbage st)" using hr(4) by simp
  note ws = writeFreelist_stored [OF w hr(1) fz hr(2,3) r0 n(3) [unfolded pc]]
  obtain s0 where s0: "takeListPages [] (rollGarbage st) = (Inr ids, s0)" "same_anchor s0 s1" "free s1 = free s0" "meta s1 = meta s0"
    by (rule writeFreelist_Inr [OF w]) blast
  have o0: "owns s0 F (ids @ ps)" using takeListPages_owns [OF s0(1), of F ps] rg by simp
  note h0 = heapD [OF conjunct1 [OF o0 [unfolded owns_def]]]
  have disj: "(F \<union> set ps) \<inter> set ids = {}" using o0 by (auto simp: owns_def)
  have lo: "list_ok st'" using Commit_list_ok [OF h(1) k] .
  have fr: "reserved st' = 2" "cipher st' = cipher st" using Commit_frame [OF k] c' by simp_all
  have fa: "faults (disk st') = faults (disk st)"
    by (cases rule: commit_crash [OF c k n]) (use pd in auto)
  have "FreeSet st' = FreeSet s0" using f s0(3) by (simp add: FreeSet_def)
  moreover have "PageCount (meta st') = PageCount (meta s0)" "reserved s0 = 2" using pc s0(2,4) c' list_anchor [OF w] by (simp_all add: same_anchor_def)
  moreover have "disk_ok st'" using Commit_disk_ok [OF k] fa h(2) by (simp add: disk_ok_def)
  moreover have "cipher_ok st'" using h(3) fr(2) by (simp add: cipher_ok_def)
  ultimately have "heap st' (F \<union> set ps)" using h0 lo fr(1) f disj unfolding heap_def by auto
  then show "owns st' F ps" using o by (simp add: owns_def)
  have ml: "length (metaImage (nextMeta st) (meta st')) = 256"
  proof (rule meta_image_segs(1))
    show "meta_ok (meta st')" using m c' n commit_list(6) [OF c w refl] pc by (auto simp: newMeta_def meta_ok_def)
  qed
  show "kept (F \<union> set ps) st st'"
    unfolding kept_def
  proof (intro ballI allI impI)
    fix q x assume q: "q \<in> F \<union> set ps" and v: "viewPage st q = Some x"
    have vr: "viewPage (rollGarbage st) q = Some x"
      using view_mono [OF v, of "rollGarbage st"] rollGarbage_anchor [of st] by (simp add: same_anchor_def)
    have "q \<notin> set ids" using disj q by blast
    then have v1: "viewPage s1 q = Some x" by (rule ws(10) [OF vr])
    have q2: "2 \<le> q" "q < PageCount (meta st')" using h(4,5) q view_bounds(2) [OF v1] pc by auto
    show "viewPage st' q = Some x"
    proof (rule view_transfer [OF v1])
      have "q * PageBytes + PageBytes \<le> length (current (disk s1))" by (rule view_bounds(1) [OF v1])
      then show "pageSeg (current (disk st')) q = pageSeg (current (disk s1)) q"
        using cur ml q2(1) c' by (auto simp: pageSeg_def layout intro!: seg_overwrite_disjoint)
    qed (use cur Commit_disk_ok [OF k] fr(2) list_anchor [OF w] q2(2) in \<open>simp_all add: same_anchor_def\<close>)
  qed
qed

lemma owns_subset_tree: "tree_is st rt F kvs \<Longrightarrow> rt = 0 \<or> rt < PageCount (meta st)"
proof -
  assume t: "tree_is st rt F kvs"
  show ?thesis
  proof (cases "rt = 0")
    case False
    obtain s l where s: "root s = rt" "owns st F (pgs s @ [])" by (rule tree_onE [OF t False])
    then show ?thesis using heapD(5) [of st "F \<union> set (pgs s)"] root_in_pgs [of s] by (auto simp: owns_def)
  qed simp
qed

lemma tree_is_moved:
  assumes t: "tree_is st rt F kvs" and o: "\<And>ps. owns st F ps \<Longrightarrow> owns st' F ps \<and> kept (set ps) st st'"
  shows "tree_is st' rt F kvs"
proof (cases "rt = 0")
  case True
  with t o [of "[]"] show ?thesis by (simp add: tree_on_def)
next
  case False
  obtain s l where s: "root s = rt" "stored st s" "level l s" "in_order (trail s)" "owns st F (pgs s @ [])" "kvs = map pair_of (ents (trail s))"
    by (rule tree_onE [OF t False])
  from o [of "pgs s"] s(5) have "owns st' F (pgs s)" "kept (set (pgs s)) st st'" by simp_all
  with tree_isI [OF stored_kept [OF s(2)] s(3,4), of "set (pgs s)" st' F] s(1,6) show ?thesis by simp
qed

lemma Commit_tree_holds:
  assumes c: "crash_ready vis (pages t)" and h: "holds_map t F kvs" and k: "Commit_tree t = (Inr (), t')"
    and n: "TxID (meta (pages t)) + 1 < 2 ^ 64" "PageCount (meta (pages t')) < 2 ^ 64"
  shows "holds_map t' F kvs" "Commit (troot t) (pages t) = (Inr (), pages t')" "troot t' = troot t" "Root (meta (pages t')) = troot t"
    "troot t < 2 ^ 64"
proof -
  show k': "Commit (troot t) (pages t) = (Inr (), pages t')" and r: "troot t' = troot t"
    using k by (auto simp: Commit_tree_def onPages_apply split: prod.splits)
  have "PageCount (meta (pages t)) \<le> PageCount (meta (pages t'))"
    using k' by (cases rule: Commit_Inr) (use list_anchor in \<open>fastforce simp: same_anchor_def\<close>)
  then show rt: "troot t < 2 ^ 64" using owns_subset_tree [OF h [unfolded holds_map_def]] n(2) by auto
  show "Root (meta (pages t')) = troot t" using k' by (cases rule: Commit_Inr) simp
  show "holds_map t' F kvs"
    unfolding holds_map_def r
  proof (rule tree_is_moved [OF h [unfolded holds_map_def]])
    show "owns (pages t') F ps \<and> kept (set ps) (pages t) (pages t')" if "owns (pages t) F ps" for ps
      using Commit_owns [OF c that k' rt n] kept_subset by blast
  qed
qed

end
