(* ===== verification/Btree_Durable.thy ===== *)
theory Btree_Durable
  imports Btree
begin

text \<open>
  What the users of the tree rely on (\<^verbatim>\<open>internal/btree\<close>): the operations against a sorted list of pairs,
  for every tree on a plain store, one at a time, in sequence, and over a commit, a crash and the
  opening that follows.
\<close>

section \<open>A tree reopened\<close>

lemma reopened_owns:
  assumes o: "owns st' F ps" and lo: "seen (free st') = {}" and rs: "set rs = FreeSet st'" "distinct rs"
    and d: "\<not> closed d" "\<not> cut d" "PowerCutAfter (faults d) = 0" and c: "cipher st = cipher st'" and r: "reserved st' = 2"
    and p: "p = (newPager d n rnd)\<lparr>meta := meta st', nextMeta := k, committed := PageCount (meta st'), cipher := cipher st,
      free := newFreelist\<lparr>ready := rs, chain := chain (free st')\<rparr>\<rparr>"
  shows "owns p F ps"
proof -
  note h = heapD [OF conjunct1 [OF o [unfolded owns_def]]]
  note l = list_okD [OF h(1)]
  have f: "FreeSet p = FreeSet st'" "chain (free p) = chain (free st')" "meta p = meta st'" "reserved p = 2" "taken p = {}"
    "disk p = d" "cipher p = cipher st'" "committed p = PageCount (meta st')" "ready (free p) = rs" "fpending (free p) = []"
    "freeing (free p) = []"
    using rs(1) c by (simp_all add: p newPager_def newFreelist_def FreeSet_def)
  have i: "set (chain (free st')) \<inter> FreeSet st' = {}" using h(1) lo by (auto simp: list_ok_def)
  have "list_ok p"
    using l h(1) i rs r unfolding list_ok_def f by (auto simp: f listed_def)
  then have "heap p (F \<union> set ps)"
    using h f d r unfolding heap_def by (simp add: disk_ok_def cipher_ok_def)
  then show ?thesis using o by (simp add: owns_def)
qed

lemma reopened_tree:
  assumes c: "crash_ready vis (pages t)" and h: "holds_map t F kvs" and k: "Commit_tree t = (Inr (), t')"
    and u: "unlock C key (meta (pages t)) = Inr (cipher (pages t))"
    and n: "TxID (meta (pages t)) + 1 < 2 ^ 64" "PageCount (meta (pages t')) < 2 ^ 64"
  obtains p where "OpenWith C (fst (Crash src (disk (pages t')))) mx key rnd = (Inr (), p)" "holds_map (New p) F kvs"
    "TxID (meta p) = TxID (meta (pages t)) + 1"
proof -
  let ?st = "pages t" and ?st' = "pages t'"
  note ct = Commit_tree_holds [OF c h k n]
  have hp: "disk_ok ?st" "cipher_ok ?st"
  proof -
    obtain ps where "owns ?st F ps"
      using h tree_onE [of ?st "troot t" F "[]" kvs] by (cases "troot t = 0") (auto simp: holds_map_def tree_on_def)
    then show "disk_ok ?st" "cipher_ok ?st" using heapD(2,3) by (auto simp: owns_def)
  qed
  let ?d = "fst (Crash src (disk ?st'))"
  obtain ids and s1 :: pager where f: "free ?st' = (free s1)\<lparr>chain := ids, seen := {}\<rparr>" "pending (disk ?st') = []"
    by (rule Commit_done [OF c ct(2)]) blast
  obtain rs where o: "OpenWith C ?d mx key rnd = (Inr (), (newPager ?d mx rnd)\<lparr>meta := meta ?st', nextMeta := 1 - nextMeta ?st,
         committed := PageCount (meta ?st'), cipher := cipher ?st, free := newFreelist\<lparr>ready := rs, chain := chain (free ?st')\<rparr>\<rparr>)"
    "set rs = FreeSet ?st'" "distinct rs"
    "\<And>q x. viewPage ?st' q = Some x \<Longrightarrow> viewPage ((newPager ?d mx rnd)\<lparr>meta := meta ?st', nextMeta := 1 - nextMeta ?st,
         committed := PageCount (meta ?st'), cipher := cipher ?st\<rparr>) q = Some x"
    using reopened_state [OF c ct(2) hp u ct(5) n, of src mx rnd] by blast
  let ?p = "(newPager ?d mx rnd)\<lparr>meta := meta ?st', nextMeta := 1 - nextMeta ?st,
         committed := PageCount (meta ?st'), cipher := cipher ?st, free := newFreelist\<lparr>ready := rs, chain := chain (free ?st')\<rparr>\<rparr>"
  have fa: "faults (disk ?st') = faults (disk ?st)"
    by (cases rule: commit_crash [OF c ct(2,5) n]) (use ct(2) in auto)
  have "land (disk ?st') = disk ?st'" by (rule land_no_pending) (rule f(2))
  then have "faults ?d = faults (disk ?st')" by (simp add: Crash_def NewSim_def Let_def split: prod.splits)
  then have d: "\<not> closed ?d" "\<not> cut ?d" "PowerCutAfter (faults ?d) = 0" using Crash_image hp(1) fa by (simp_all add: disk_ok_def)
  have fr: "reserved ?st' = 2" "cipher ?st = cipher ?st'" "TxID (meta ?st') = TxID (meta ?st) + 1"
    using Commit_frame [OF ct(2)] c by (simp_all add: crash_ready_def)
  have "tree_is ?p (troot t') F kvs"
  proof (rule tree_is_moved [OF ct(1) [unfolded holds_map_def]], intro conjI)
    fix ps assume ow: "owns ?st' F ps"
    show "owns ?p F ps" by (rule reopened_owns [OF ow _ o(2,3) d fr(2,1) refl]) (simp add: f(1))
    show "kept (set ps) ?st' ?p"
      unfolding kept_def
    proof (intro ballI allI impI)
      fix q x assume "viewPage ?st' q = Some x"
      from view_mono [OF o(4) [OF this], of ?p] show "viewPage ?p q = Some x" by simp
    qed
  qed
  moreover have "Root (meta ?p) = troot t'" using ct(3,4) by simp
  ultimately have "holds_map (New ?p) F kvs" by (simp add: holds_map_def New_def)
  then show thesis by (rule that [OF o(1)]) (use fr(3) in simp)
qed

section \<open>A commit goes through\<close>

lemma takeListPages_error: "takeListPages ids st = (Inl e, st') \<Longrightarrow> e = ErrQuota \<and> maxPages st > 0"
proof (induction ids st rule: takeListPages.induct)
  case (1 ids st)
  show ?case
  proof (cases "listPagesNeeded st \<le> length ids")
    case True
    with "1.prems" show ?thesis by (simp add: takeListPages_done)
  next
    case False
    obtain r s1 where a: "Allocate st = (r, s1)" by fastforce
    show ?thesis
    proof (cases r)
      case (Inl e')
      with "1.prems" False a Allocate_error [of st e' s1] show ?thesis
        by (simp add: takeListPages.simps [of ids st] quota_errors_iff)
    next
      case (Inr pid)
      with "1.prems" False a have "takeListPages (ids @ [pid]) s1 = (Inl e, st')" by (simp add: takeListPages_more)
      from "1.IH" [OF False a [symmetric] Inr this] Allocate_anchor [OF a [unfolded Inr]] show ?thesis by (simp add: same_anchor_def)
    qed
  qed
qed

lemma healthy_file:
  assumes "disk_ok st" "LyingSync (faults (disk st)) \<le> 0"
  shows "\<exists>d. onFile Sync st = (Inr (), st\<lparr>disk := d\<rparr>) \<and> disk_ok (st\<lparr>disk := d\<rparr>) \<and> faults d = faults (disk st)"
    "\<exists>d. writeMeta slot m st = (Inr (), st\<lparr>disk := d\<rparr>) \<and> disk_ok (st\<lparr>disk := d\<rparr>) \<and> faults d = faults (disk st)"
  using assms
  by (auto simp: onFile_def Sync_def WriteAt_def writeMeta_def bnd_def alive_def syncLies_def disk_ok_def Let_def mult_less_0_iff)

lemma commit_count:
  assumes "Commit rt st = (res, st')" "writeFreelist (rollGarbage st) = (r, s1)" "\<not> led st"
  shows "PageCount (meta s1) = PageCount (meta st')"
  using assms
  by (auto simp: Commit_def Let_def bnd_def split: sum.splits prod.splits dest!: onFile_same writeMeta_same)

lemma Commit_result:
  assumes c: "crash_ready vis st" and d: "disk_ok st" "cipher_ok st" and k: "Commit rt st = (res, st')"
    and n: "PageCount (meta st') < 2 ^ 64"
  shows "res = Inr () \<or> res = Inl ErrQuota \<and> maxPages st > 0"
proof -
  note c' = c [unfolded crash_ready_def]
  obtain r s1 where t: "takeListPages [] (rollGarbage st) = (r, s1)" by fastforce
  note ra = rollGarbage_anchor [of st]
  have a: "same_anchor (rollGarbage st) s1" "disk s1 = disk st" using takeListPages_anchor [OF t] ra by simp_all
  show ?thesis
  proof (cases r)
    case (Inl e)
    with k t c' have "res = Inl e" by (simp add: Commit_def writeFreelist_def bnd_def Let_def)
    with takeListPages_error [OF t [unfolded Inl]] ra show ?thesis by (simp add: same_anchor_def)
  next
    case (Inr ids)
    obtain r2 s2 where w: "writeFreelist (rollGarbage st) = (r2, s2)" by fastforce
    have "meta s2 = meta s1"
      using w t Inr writeListPages_anchor [of ids _ "length ids" 0 s1]
      by (fastforce simp: writeFreelist_def bnd_def split: if_splits prod.splits sum.splits)
    moreover have "PageCount (meta s2) = PageCount (meta st')" by (rule commit_count [OF k w]) (use c' in simp)
    ultimately have n1: "PageCount (meta s1) < 2 ^ 64" using n by simp
    have t': "list_ok s1" "distinct ids" "set ids \<subseteq> {reserved s1..<PageCount (meta s1)}"
      using takeListPages_ok [OF t [unfolded Inr]] rollGarbage_list_ok(1) [of st] c' by auto
    have s1: "disk_ok s1" "cipher_ok s1" "0 < reserved s1" "LyingSync (faults (disk s1)) \<le> 0"
      using d a ra c' by (simp_all add: disk_ok_def cipher_ok_def same_anchor_def)
    obtain s3 where s3: "writeListPages ids (listEntries (free s1)) (length ids) 0 s1 = (Inr (), s3)" "bookkeeping s3 = bookkeeping s1"
      by (rule list_written [OF t' s1(1-3) n1], rule that)
    have s3': "disk_ok s3" "LyingSync (faults (disk s3)) \<le> 0" using bookkeeping_eqD(11,12) [OF s3(2)] s1 by simp_all
    have "\<exists>s4 out. writeFreelist (rollGarbage st) = (Inr out, s4) \<and> disk_ok s4 \<and> LyingSync (faults (disk s4)) \<le> 0"
      using t Inr s3(1) s3' s1 by (auto simp: writeFreelist_def bnd_def)
    then obtain s4 head js where s4: "writeFreelist (rollGarbage st) = (Inr (head, js), s4)" "disk_ok s4" "LyingSync (faults (disk s4)) \<le> 0"
      by auto
    let ?m = "(meta st)\<lparr>TxID := TxID (meta st) + 1, Root := rt, Clean := False, Freelist := head, PageCount := PageCount (meta s4)\<rparr>"
    obtain d5 where d5: "onFile Sync s4 = (Inr (), s4\<lparr>disk := d5\<rparr>)" "disk_ok (s4\<lparr>disk := d5\<rparr>)" "faults d5 = faults (disk s4)"
      using healthy_file(1) [OF s4(2,3)] by blast
    obtain d6 where d6: "writeMeta (nextMeta s4) ?m (s4\<lparr>disk := d5\<rparr>) = (Inr (), s4\<lparr>disk := d6\<rparr>)" "disk_ok (s4\<lparr>disk := d6\<rparr>)" "faults d6 = faults d5"
      using healthy_file(2) [OF d5(2), of "nextMeta s4" ?m] s4(3) d5(3) by auto
    obtain d7 where d7: "onFile Sync (s4\<lparr>disk := d6\<rparr>) = (Inr (), s4\<lparr>disk := d7\<rparr>)"
      using healthy_file(1) [OF d6(2)] s4(3) d5(3) d6(3) by auto
    have "res = Inr ()" using k c' s4(1) d5(1) d6(1) d7 by (auto simp: Commit_def Let_def bnd_def)
    then show ?thesis ..
  qed
qed

section \<open>A file with one key\<close>

text \<open>A fresh file, on a disk without faults, and the first key stored in it.\<close>

abbreviation good_disk :: simdisk where
  "good_disk \<equiv> NewSim (\<lambda>_. 0) \<lparr>TornWrite = 0, LyingSync = 0, ReorderWrites = False, PowerCutAfter = 0\<rparr>"

lemma fresh_store:
  obtains st where "CreateWith C good_disk 0 [] (\<lambda>_. 0) = (Inr (), st)" "crash_ready (\<lambda>_. {}) st" "owns st {} []"
    "meta st = zeroMeta\<lparr>TxID := 1, PageCount := 2\<rparr>" "cipher st = None" "maxPages st = 0" "free st = newFreelist"
proof -
  let ?z = "zeroMeta\<lparr>TxID := 1, PageCount := 2\<rparr>" and ?d = good_disk
  have wa: "WriteAt p (int off) d' = (Inr (length p), d'\<lparr>writes := Suc (writes d'), pending := pending d' @ [(off, p)],
       current := overwrite (current d') off p\<rparr>)"
    if "\<not> closed d'" "\<not> cut d'" "faults d' = faults ?d" for p off d'
    using that by (simp add: WriteAt_def bnd_def alive_def Let_def NewSim_def)
  obtain d1 where d1: "WriteAt (metaImage 0 ?z) (int (0 * PageBytes)) ?d = (Inr (length (metaImage 0 ?z)), d1)"
    "\<not> closed d1" "\<not> cut d1" "faults d1 = faults ?d" using wa [of ?d "metaImage 0 ?z" "0 * PageBytes"] by (simp add: NewSim_def)
  obtain d2 where d2: "WriteAt (metaImage 1 ?z) (int (1 * PageBytes)) d1 = (Inr (length (metaImage 1 ?z)), d2)"
    "\<not> closed d2" "\<not> cut d2" "faults d2 = faults ?d" using wa [of d1 "metaImage 1 ?z" "1 * PageBytes"] d1 by simp
  have sy: "Sync d' = (Inr (), d'\<lparr>durable := current d', pending := []\<rparr>)"
    if "\<not> closed d'" "\<not> cut d'" "faults d' = faults ?d" for d'
    using that by (simp add: Sync_def bnd_def alive_def syncLies_def Let_def NewSim_def)
  obtain d3 where d3: "Sync d2 = (Inr (), d3)" "\<not> closed d3" "\<not> cut d3" "faults d3 = faults ?d"
    using sy [of d2] d2 by simp
  let ?s = "(newPager d3 0 (\<lambda>_. 0))\<lparr>meta := ?z, committed := 2\<rparr>"
  have c: "CreateWith C ?d 0 [] (\<lambda>_. 0) = (Inr (), ?s)" for C
    using d1 d2 d3 by (simp add: CreateWith_def writeMeta_def bnd_def onFile_def newPager_def)
  let ?C = "\<lparr>page_aead = (\<lambda>_ _. \<lparr>aead_seal = (\<lambda>_ p _. p @ replicate 16 0), aead_open = (\<lambda>_ _ _. None)\<rparr>),
             check_aead = (\<lambda>_ _. \<lparr>aead_seal = (\<lambda>_ p _. p @ replicate 16 0), aead_open = (\<lambda>_ _ _. None)\<rparr>)\<rparr> :: crypto"
  have r: "crash_ready (\<lambda>_. {}) ?s"
    by (rule Create_crash_ready [OF c [of ?C]]) (simp_all add: makeCheck_def layout)
  have "list_ok ?s" using r by (simp add: crash_ready_def)
  then have "owns ?s {} []"
    using d3 by (simp add: owns_def heap_def disk_ok_def cipher_ok_def newPager_def newFreelist_def FreeSet_def NewSim_def)
  then show thesis by (rule that [OF c r]) (simp_all add: newPager_def)
qed

lemma Allocate_count: "Allocate st = (r, st') \<Longrightarrow> PageCount (meta st') \<le> PageCount (meta st) + 1"
  by (auto simp: Allocate_def promote_def Let_def split: if_splits)

lemma writeLeaf_count: "writeLeaf pos es st = (r, st') \<Longrightarrow> PageCount (meta st') \<le> PageCount (meta st) + 1"
proof -
  assume w: "writeLeaf pos es st = (r, st')"
  obtain r1 s1 where p: "place pos st = (r1, s1)" by (cases "place pos st")
  have le: "PageCount (meta s1) \<le> PageCount (meta st) + 1"
    using p Allocate_count [of _ r1 s1] Free_fields(4) by (fastforce simp: place_def split: if_splits)
  have wm: "PageCount (meta s') = PageCount (meta s)" if "Write q s = (x, s')" for q s x s'
    using that by (auto simp: Write_def onFile_def randRead_def bnd_def Let_def split: if_splits sum.splits prod.splits option.splits)
  from w p le show ?thesis
    by (cases r1) (auto simp: writeLeaf_def bnd_def dest!: wm split: sum.splits prod.splits)
qed

lemma writeLeaf_free:
  assumes "writeLeaf 0 es st = (r, st')" "free st = newFreelist"
  shows "free st' = newFreelist" "Encrypted (meta st') = Encrypted (meta st)"
proof -
  obtain r1 s1 where a: "Allocate st = (r1, s1)" by (cases "Allocate st")
  then have f: "free s1 = newFreelist" "Encrypted (meta s1) = Encrypted (meta st)"
    using assms(2) by (auto simp: Allocate_def promote_def newFreelist_def Let_def split: if_splits)
  show "free st' = newFreelist" "Encrypted (meta st') = Encrypted (meta st)"
    using assms(1) a f by (auto simp: writeLeaf_def place_def bnd_def split: sum.splits prod.splits dest!: Write_anchor)
qed

lemma Commit_count_empty:
  assumes "Commit rt st = (res, st')" "free st = newFreelist" "\<not> led st"
  shows "PageCount (meta st') = PageCount (meta st)"
proof -
  have "rollGarbage st = st" using assms(2) by (simp add: rollGarbage_def newFreelist_def)
  moreover have "writeFreelist st = (Inr (0, []), st)"
    by (rule writeFreelist_empty) (simp add: fcount_def newFreelist_def assms(2))
  ultimately show ?thesis using commit_count [OF assms(1) _ assms(3)] by simp
qed

lemma one_key:
  obtains st t where "CreateWith C good_disk 0 [] (\<lambda>_. 0) = (Inr (), st)" "crash_ready (\<lambda>_. {}) st" "holds_map (New st) {} []" "TxID (meta st) = 1"
    "Put [1] [2] (New st) = (Inr (), t)" "holds_map t {} [([1], [2])]" "crash_ready (\<lambda>_. {}) (pages t)"
    "PageCount (meta (pages t)) \<le> 3" "TxID (meta (pages t)) = 1" "cipher (pages t) = None" "maxPages (pages t) = 0"
    "stored (pages t) (LeafS (troot t) [\<lparr>ikv = \<lparr>kv_key = [1], kv_value = [2], kv_head = 0, kv_length = 0\<rparr>, ival = [2], ipages = []\<rparr>])"
    "owns (pages t) {} [troot t]" "free (pages t) = newFreelist" "\<not> Encrypted (meta (pages t))"
proof -
  let ?x = "\<lparr>ikv = \<lparr>kv_key = [1], kv_value = [2], kv_head = 0, kv_length = 0\<rparr>, ival = [2], ipages = []\<rparr>"
  obtain st where s: "CreateWith C good_disk 0 [] (\<lambda>_. 0) = (Inr (), st)" "crash_ready (\<lambda>_. {}) st" "owns st {} []"
    "meta st = zeroMeta\<lparr>TxID := 1, PageCount := 2\<rparr>" "cipher st = None" "maxPages st = 0" "free st = newFreelist"
    by (rule fresh_store)
  have n: "New st = \<lparr>pages = st, troot = 0\<rparr>" using s(4) by (simp add: New_def zeroMeta_def)
  have h: "holds_map (New st) {} []" using s(3) by (simp add: n holds_map_def tree_on_def)
  obtain r s1 where w: "writeLeaf 0 [ikv ?x] st = (r, s1)" by (cases "writeLeaf 0 [ikv ?x] st")
  have c: "PageCount (meta s1) \<le> 3" using writeLeaf_count [OF w] s(4) by simp
  then have lim: "pageLimit s1" by (simp add: pageLimit_def)
  have x: "item_at st ?x" by (simp add: item_at_def kv_ok_def overflows_def sizes layout)
  have an: "same_anchor st s1" using anchoredD [OF anchored_write(1) w] .
  have "leaf_ok (map ikv [?x])" using x item_bytes [OF x] by (simp add: leaf_ok_def leafBytes_sum item_at_def sizes layout)
  then have wa: "written_as st {} (\<lambda>pid. LeafS pid [?x]) [] (r, s1)"
    using writeLeaf_shape [where xs = "[?x]" and pos = 0 and F = "{}" and ps = "[]", OF _ lim] w s(3) x by simp
  then obtain pid where r: "r = Inr pid" using s(6) by (cases r) (auto simp: written_as_def quota_errors_def)
  let ?t = "\<lparr>pages = s1, troot = pid\<rparr>"
  have p: "Put [1] [2] (New st) = (Inr (), ?t)"
  proof -
    have k: "checkKey [1] = Inr ()" by (simp add: checkKey_ok sizes layout)
    show ?thesis using w r by (simp add: n Put_putEntry k putEntry_def store_def bnd_def sizes layout)
  qed
  from wa r have t: "trades st {} s1 [pid]" "stored s1 (LeafS pid [?x])" by (simp_all add: written_as_def)
  have "holds_map ?t {} [([1], [2])]"
    using tree_isI [OF t(2), of 0 "{}"] tradesD(1) [OF t(1)] by (simp add: holds_map_def pair_of_def)
  moreover have "crash_ready (\<lambda>_. {}) s1" using tradesD(4) [OF t(1)] s(2) by (simp add: guarded_def)
  ultimately show thesis
    by (intro that [OF s(1,2) h _ p]) (use c an s t(2) tradesD(1) [OF t(1)] writeLeaf_free [OF w s(7)] in \<open>simp_all add: same_anchor_def zeroMeta_def\<close>)
qed

section \<open>Properties\<close>

text \<open>
  C8. \<^verbatim>\<open>Get\<close> is lookup. On every tree that holds a list of pairs, of any height and with values in
  chains of pages or not, it returns what the list has for the key, and nothing when it has none; it
  does not fail and does not run out of the descent it is given. A key the tree refuses gives the error of \<^verbatim>\<open>checkKey\<close>.
\<close>

theorem get_is_lookup:
  assumes "holds_map t F kvs"
  shows "Get t key = (case checkKey key of Inl e \<Rightarrow> Inl e | Inr _ \<Rightarrow> Inr (map_of kvs key))"
  using tree.fetch_spec [OF assms] by (cases "checkKey key") (auto simp: Get_def)

theorem get_is_lookup_witness:
  "\<exists>t. holds_map t {} [([1], [2])] \<and> Get t [1] = Inr (Some [2]) \<and> Get t [3] = Inr None \<and> Get t [] = Inl ErrEmptyKey"
proof -
  obtain t where t: "holds_map t {} [([1], [2])]" using one_key by metis
  have "checkKey [1] = Inr ()" "checkKey [3] = Inr ()" "checkKey [] = Inl ErrEmptyKey"
    by (simp_all add: checkKey_ok sizes layout checkKey_def)
  with get_is_lookup [OF t, of "[1]"] get_is_lookup [OF t, of "[3]"] get_is_lookup [OF t, of "[]"] t show ?thesis by auto
qed

text \<open>
  C6. \<^verbatim>\<open>Put\<close> is insertion into the sorted list. The key and the value end up in the tree, in place of an
  older value when there is one, every other pair is as it was, and no page of another tree in the
  file changes. It fails only on a key or a value it refuses, when the file is at its quota, or on
  the one size of entry for which a full leaf may have no cut (a key and a value both of the largest
  inline size).
\<close>

theorem put_is_insertion:
  assumes "holds_map t F kvs" "Put key val t = (res, t')" "pageLimit (pages t')"
  shows "case checkKey key of
      Inl e \<Rightarrow> res = Inl e \<and> t' = t
    | Inr _ \<Rightarrow>
        if length val > MaxValue then res = Inl ErrValueTooLarge \<and> t' = t
        else (case res of
            Inl e \<Rightarrow> e = ErrQuota \<and> maxPages (pages t) > 0 \<or> e = ErrCannotSplit \<and> length key = MaxKey \<and> length val = MaxInline
          | Inr _ \<Rightarrow> holds_map t' F (put_kv key val kvs) \<and> kept F (pages t) (pages t'))"
proof (cases "checkKey key")
  case (Inl e)
  then show ?thesis using assms(2) unfolding Put_putEntry Inl sum.case by simp
next
  case (Inr u)
  show ?thesis
  proof (cases "length val > MaxValue")
    case True
    with assms(2) Inr show ?thesis by (simp add: Put_putEntry)
  next
    case False
    with Put_spec [OF assms(1) _ _ assms(2,3)] Inr show ?thesis by (cases res) (auto simp: stored_kv_def)
  qed
qed

theorem put_is_insertion_witness:
  "\<exists>t t'. holds_map t {} [] \<and> Put [1] [2] t = (Inr (), t') \<and> holds_map t' {} [([1], [2])]"
proof -
  obtain st t where t: "holds_map (New st) {} []" "Put [1] [2] (New st) = (Inr (), t)" "PageCount (meta (pages t)) \<le> 3"
    using one_key by metis
  have "checkKey [1] = Inr ()" by (simp add: checkKey_ok sizes layout)
  with put_is_insertion [OF t(1,2)] t(3) have "holds_map t {} (put_kv [1] [2] [])" by (simp add: pageLimit_def sizes layout)
  with t show ?thesis by (auto simp: put_kv_def)
qed

text \<open>
  C7. \<^verbatim>\<open>Delete\<close> is removal from the sorted list. It reports whether the key was there, the pair is gone,
  every other pair is as it was, and no page of another tree in the file changes. Deleting a key that
  is not there never fails; deleting one that is fails only when the file is at its quota, or when a
  rebalanced parent no longer fits its page.
\<close>

theorem delete_is_removal:
  assumes "holds_map t F kvs" "Delete key t = (res, t')" "pageLimit (pages t')"
  shows "case checkKey key of
      Inl e \<Rightarrow> res = Inl e \<and> t' = t
    | Inr _ \<Rightarrow> (case res of
        Inl e \<Rightarrow> (e = ErrQuota \<and> maxPages (pages t) > 0 \<or> e = ErrCannotSplit) \<and> key \<in> fst ` set kvs
      | Inr was \<Rightarrow> (was \<longleftrightarrow> key \<in> fst ` set kvs) \<and> holds_map t' F (del_kv key kvs) \<and> kept F (pages t) (pages t'))"
proof (cases "checkKey key")
  case (Inl e)
  then show ?thesis using assms(2) unfolding Delete_def Inl sum.case by simp
next
  case (Inr u)
  with Delete_spec [OF assms(1) _ assms(2,3)] show ?thesis by (cases res) (auto simp: deleted_kv_def)
qed

theorem delete_is_removal_witness:
  "\<exists>t t'. holds_map t {} [([1], [2])] \<and> Delete [1] t = (Inr True, t') \<and> holds_map t' {} []"
proof -
  let ?e = "\<lparr>kv_key = [1], kv_value = [2], kv_head = 0, kv_length = 0\<rparr> :: kv"
  obtain t where t: "holds_map t {} [([1], [2])]" "PageCount (meta (pages t)) \<le> 3" "maxPages (pages t) = 0"
    "stored (pages t) (LeafS (troot t) [\<lparr>ikv = ?e, ival = [2], ipages = []\<rparr>])" "owns (pages t) {} [troot t]"
    using one_key by metis
  have rt: "troot t \<noteq> 0" using t(1) by (auto simp: holds_map_def tree_on_def split: if_splits)
  have k: "checkKey [1] = Inr ()" by (simp add: checkKey_ok sizes layout)
  obtain r s where w: "writeLeaf (troot t) [] (pages t) = (r, s)" by (cases "writeLeaf (troot t) [] (pages t)")
  have ps: "pageLimit s" using writeLeaf_count [OF w] t(2) by (simp add: pageLimit_def)
  have "written_as (pages t) {} (\<lambda>pid. LeafS pid []) [] (r, s)"
    using writeLeaf_shape [where xs = "[]" and pos = "troot t" and F = "{}" and ps = "[]", OF _ ps] w t(5) rt
    by (simp add: leaf_ok_def leafBytes_sum sizes layout)
  then obtain p where r: "r = Inr p" "readNode s p = Inr (IsLeaf [])"
    using t(3) by (cases r) (auto simp: written_as_def quota_errors_def)
  have "findKey [?e] [1] = (0, True)" by (simp add: findKey_def search_def bisect.simps)
  then have "remove_node (depthFuel (pages t)) (troot t) [1] (pages t) = (Inr (p, True), s)"
    using t(4) w r by (simp add: depthFuel_def look_def bnd_def removeLeaf_def release_def overflows_def removeAt_def)
  then have d: "Delete [1] t = (Inr True, t\<lparr>pages := Free p s, troot := 0\<rparr>)"
    using rt k r(2) by (simp add: Delete_def bnd_def onPages_apply setRoot_def depthFuel_def)
  have "holds_map (t\<lparr>pages := Free p s, troot := 0\<rparr>) {} (del_kv [1] [([1], [2])])"
    using delete_is_removal [OF t(1) d] ps k by (simp add: pageLimit_def Free_fields)
  with t(1) d show ?thesis by (auto simp: del_kv_def)
qed

text \<open>The reference for a walk: the visitor over the pairs in order, until it says there is no more.\<close>

fun visited :: "(bytes \<Rightarrow> bytes \<Rightarrow> 's \<Rightarrow> bool \<times> 's) \<Rightarrow> (bytes \<times> bytes) list \<Rightarrow> 's \<Rightarrow> 's" where
  "visited visit [] s = s"
| "visited visit ((k, v) # kvs) s = (let (more, s') = visit k v s in if more then visited visit kvs s' else s')"

lemma visitAll_visited: "\<exists>b. visitAll visit kvs s = (Inr b, visited visit kvs s)"
  by (induction kvs arbitrary: s) (auto simp: visitAll_def bnd_def Let_def split: prod.splits)

text \<open>
  C9. The two walks are the list. \<^verbatim>\<open>Ascend\<close> calls its visitor on exactly the pairs from the key on, in key
  order, and \<^verbatim>\<open>Descend\<close> on exactly those below it, from the last to the first, each once, with the visitor's
  state passed along, stopping when it says so; neither fails on a tree, and the list is in key order without repetition.
\<close>

theorem walks_are_the_list:
  assumes "holds_map t F kvs"
  shows "Ascend t from visit s = (Inr (), visited visit (from_kv from kvs) s)
    \<and> Descend t from visit s = (Inr (), visited visit (rev (below_kv from kvs)) s)
    \<and> sorted_wrt (<) (map fst kvs)"
proof (intro conjI)
  show "Ascend t from visit s = (Inr (), visited visit (from_kv from kvs) s)"
    using visitAll_visited [of visit "from_kv from kvs" s] by (auto simp: Ascend_spec [OF assms] bnd_def)
  show "Descend t from visit s = (Inr (), visited visit (rev (below_kv from kvs)) s)"
    using visitAll_visited [of visit "rev (below_kv from kvs)" s] by (auto simp: Descend_spec [OF assms] bnd_def)
  show "sorted_wrt (<) (map fst kvs)" by (rule holds_map_sorted [OF assms])
qed

theorem walks_are_the_list_witness:
  "\<exists>t. holds_map t {} [([1], [2])] \<and> Ascend t (Some [1]) (\<lambda>k v ks. (True, k # ks)) [] = (Inr (), [[1]])
     \<and> Descend t (Some [1]) (\<lambda>k v ks. (True, k # ks)) [] = (Inr (), [])"
proof -
  obtain t where t: "holds_map t {} [([1], [2])]" using one_key by metis
  from walks_are_the_list [OF t, of "Some [1]" "\<lambda>k v ks. (True, k # ks)" "[]"] t show ?thesis
    by (auto simp: from_kv_def below_kv_def)
qed

text \<open>
  C3. Any sequence of changes refines the same sequence on the sorted list: as long as each is one the
  tree accepts and none fails, what each reports and what the tree holds at the end are those of the list.
\<close>

theorem changes_refine_the_list:
  assumes "holds_map t F kvs" "\<forall>c \<in> set cs. change_ok c" "run_changes Put Delete cs t = (Inr bs, t')" "pageLimit (pages t')"
  shows "bs = fst (changes_kv cs kvs) \<and> holds_map t' F (snd (changes_kv cs kvs)) \<and> kept F (pages t) (pages t')"
  using tree.run_refines [OF assms] by (metis fst_conv)

theorem changes_refine_the_list_witness:
  "\<exists>t t'. holds_map t {} [] \<and> run_changes Put Delete [PutC [1] [2]] t = (Inr [True], t') \<and> holds_map t' {} [([1], [2])]"
proof -
  obtain st t where t: "holds_map (New st) {} []" "Put [1] [2] (New st) = (Inr (), t)" "PageCount (meta (pages t)) \<le> 3"
    using one_key by metis
  have r: "run_changes Put Delete [PutC [1] [2]] (New st) = (Inr [True], t)" using t(2) by (simp add: bnd_def)
  have "holds_map t {} (snd (changes_kv [PutC [1] [2]] []))"
    using changes_refine_the_list [OF t(1) _ r] t(3) by (simp add: pageLimit_def checkKey_ok sizes layout)
  with t(1) r show ?thesis by (auto simp: put_kv_def)
qed

text \<open>
  C1. What was committed is there after a crash. Any sequence of changes to a tree, committed, then a
  power cut at any later moment before the next write, whatever the disk does then: the file opens
  again under its key, one transaction on, and the tree at its root holds exactly the changed list.
\<close>

theorem committed_changes_survive:
  assumes "crash_ready vis (pages t)" "holds_map t F kvs" "\<forall>c \<in> set cs. change_ok c"
    and "run_changes Put Delete cs t = (Inr bs, t1)" "Commit_tree t1 = (Inr (), t2)"
    and "unlock C key (meta (pages t1)) = Inr (cipher (pages t1))"
    and "TxID (meta (pages t1)) + 1 < 2 ^ 64" "PageCount (meta (pages t2)) < 2 ^ 64"
  shows "\<exists>p. OpenWith C (fst (Crash src (disk (pages t2)))) mx key rnd = (Inr (), p)
    \<and> holds_map (New p) F (snd (changes_kv cs kvs)) \<and> TxID (meta p) = TxID (meta (pages t)) + 1"
proof -
  have "Commit (troot t1) (pages t1) = (Inr (), pages t2)"
    using assms(5) by (auto simp: Commit_tree_def onPages_apply split: prod.splits)
  then have "PageCount (meta (pages t1)) \<le> PageCount (meta (pages t2))"
    by (cases rule: Commit_Inr) (use list_anchor in \<open>fastforce simp: same_anchor_def\<close>)
  then have "pageLimit (pages t1)" using assms(8) by (simp add: pageLimit_def)
  note r = tree.run_refines [OF assms(2-4) this]
  have c: "crash_ready vis (pages t1)" using r assms(1) by (simp add: guarded_def)
  from r obtain p where "OpenWith C (fst (Crash src (disk (pages t2)))) mx key rnd = (Inr (), p)"
    "holds_map (New p) F (snd (changes_kv cs kvs))" "TxID (meta p) = TxID (meta (pages t1)) + 1"
    using reopened_tree [OF c _ assms(5-8), of F "snd (changes_kv cs kvs)" src mx rnd] by blast
  with r show ?thesis by (auto simp: same_anchor_def)
qed

theorem committed_changes_survive_witness:
  "\<exists>t t1 t2 p. holds_map t {} [] \<and> run_changes Put Delete [PutC [1] [2]] t = (Inr [True], t1) \<and> Commit_tree t1 = (Inr (), t2)
     \<and> OpenWith undefined (fst (Crash (\<lambda>_ _. 0) (disk (pages t2)))) 0 [] (\<lambda>_. 0) = (Inr (), p)
     \<and> holds_map (New p) {} [([1], [2])] \<and> TxID (meta p) = 2"
proof -
  obtain st t where t: "crash_ready (\<lambda>_. {}) st" "holds_map (New st) {} []" "Put [1] [2] (New st) = (Inr (), t)"
    "crash_ready (\<lambda>_. {}) (pages t)" "PageCount (meta (pages t)) \<le> 3" "TxID (meta (pages t)) = 1" "cipher (pages t) = None"
    "maxPages (pages t) = 0" "owns (pages t) {} [troot t]" "free (pages t) = newFreelist" "\<not> Encrypted (meta (pages t))" "TxID (meta st) = 1"
    using one_key by metis
  obtain res s2 where k: "Commit (troot t) (pages t) = (res, s2)" by fastforce
  have n: "PageCount (meta s2) \<le> 3" using Commit_count_empty [OF k t(10)] t(4,5) by (simp add: crash_ready_def)
  have "disk_ok (pages t)" "cipher_ok (pages t)" using heapD(2,3) t(9) by (auto simp: owns_def)
  from Commit_result [OF t(4) this k] n t(8) have "res = Inr ()" by simp
  with k have c: "Commit_tree t = (Inr (), t\<lparr>pages := s2\<rparr>)" by (simp add: Commit_tree_def onPages_apply)
  have r: "run_changes Put Delete [PutC [1] [2]] (New st) = (Inr [True], t)" using t(3) by (simp add: bnd_def)
  have "crash_ready (\<lambda>_. {}) (pages (New st))" using t(1) by (simp add: New_def)
  from committed_changes_survive [OF this t(2) _ r c, of undefined "[]" "\<lambda>_ _. 0" 0 "\<lambda>_. 0"] n t(6,7,11,12)
  obtain p where "OpenWith undefined (fst (Crash (\<lambda>_ _. 0) (disk (pages (t\<lparr>pages := s2\<rparr>))))) 0 [] (\<lambda>_. 0) = (Inr (), p)"
    "holds_map (New p) {} [([1], [2])]" "TxID (meta p) = 2"
    by (auto simp: unlock_def checkKey_ok sizes layout put_kv_def New_def)
  with t(2) r c show ?thesis by blast
qed

text \<open>
  C12. A commit goes through: on a healthy disk, from any state a transaction can be in, it returns, and
  it fails only when the file is at its quota and the list of free pages needs a page more.
\<close>

theorem commit_goes_through:
  assumes "crash_ready vis st" "disk_ok st" "cipher_ok st" "Commit rt st = (res, st')" "PageCount (meta st') < 2 ^ 64"
  shows "res = Inr () \<or> res = Inl ErrQuota \<and> maxPages st > 0"
  by (rule Commit_result [OF assms])

theorem commit_goes_through_witness:
  "\<exists>st st'. crash_ready (\<lambda>_. {}) st \<and> Commit 0 st = (Inr (), st')"
proof -
  obtain st where s: "CreateWith undefined good_disk 0 [] (\<lambda>_. 0) = (Inr (), st)" "crash_ready (\<lambda>_. {}) st" "owns st {} []"
    "meta st = zeroMeta\<lparr>TxID := 1, PageCount := 2\<rparr>" "cipher st = None" "maxPages st = 0" "free st = newFreelist"
    by (rule fresh_store)
  obtain res st' where k: "Commit 0 st = (res, st')" by fastforce
  have "PageCount (meta st') = 2" using Commit_count_empty [OF k s(7)] s(2,4) by (simp add: crash_ready_def)
  moreover have "disk_ok st" "cipher_ok st" using heapD(2,3) s(3) by (auto simp: owns_def)
  ultimately have "res = Inr ()" using commit_goes_through [OF s(2) _ _ k] s(6) by simp
  with s(2) k show ?thesis by blast
qed

end
