(* ===== verification/Store_Scan.thy ===== *)
theory Store_Scan
  imports Store_Spec Btree_Durable
begin

text \<open>
  Stretches of an index and the walk along one (\<^verbatim>\<open>internal/store/scan.go\<close>): the byte positions the two ends
  of a range stand for, and the walk from one to the other, over the trees a collection lives in, in
  either direction.
\<close>

section \<open>The ends of a stretch\<close>

record bound =
  b_values :: "key_value list"
  b_exclusive :: bool

datatype direction = Forward | Reverse

record range =
  From :: "bound option"
  To :: "bound option"
  Direction :: direction

text \<open>The loop of \<^verbatim>\<open>successor\<close>, from a byte towards the front.\<close>

fun successorAt :: "nat \<Rightarrow> bytes \<Rightarrow> bytes option" where
  "successorAt 0 out = None"
| "successorAt (Suc i) out =
     (if out ! i \<noteq> 0xff then Some (take (Suc i) (out[i := out ! i + 1])) else successorAt i out)"

definition successor :: "bytes \<Rightarrow> bytes option" where
  "successor pre = successorAt (length pre) pre"

text \<open>The values of a bound appended to a prefix, one field at a time; more values than fields are refused before.\<close>

fun encodeValues :: "bytes \<Rightarrow> key_value list \<Rightarrow> field_decl list \<Rightarrow> store_error + bytes" where
  "encodeValues key (v # vs) (f # fs) =
     (case Encode key v (encoding f) of Inl e \<Rightarrow> Inl ErrArgument | Inr key \<Rightarrow> encodeValues key vs fs)"
| "encodeValues key _ _ = Inr key"

text \<open>Nothing stands for the position after every key.\<close>

definition boundAt :: "bytes \<Rightarrow> field_decl list \<Rightarrow> bound option \<Rightarrow> bool \<Rightarrow> store_error + bytes option" where
  "boundAt pre fs pos upper =
     (case pos of
        None \<Rightarrow> Inr (if upper then successor pre else Some pre)
      | Some b \<Rightarrow>
          if length (b_values b) > length fs then Inl ErrDeclaration
          else (case encodeValues pre (b_values b) fs of
                  Inl e \<Rightarrow> Inl e
                | Inr key \<Rightarrow> Inr (if upper \<noteq> b_exclusive b then successor key else Some key)))"

definition backwardsBoolRange :: "field_decl list \<Rightarrow> bound option \<Rightarrow> bound option \<Rightarrow> bool" where
  "backwardsBoolRange fs fr to \<longleftrightarrow>
     (case (fs, fr, to) of
        ([f], Some lo, Some hi) \<Rightarrow>
          f_type f = TypeBool \<and> \<not> b_exclusive lo \<and> \<not> b_exclusive hi
            \<and> b_values lo = [VBool True] \<and> b_values hi = [VBool False]
      | _ \<Rightarrow> False)"

definition stretch :: "range \<Rightarrow> bytes \<Rightarrow> field_decl list \<Rightarrow> store_error + (bytes option \<times> bytes option)" where
  "stretch r pre fs =
     (case boundAt pre fs (From r) False of
        Inl e \<Rightarrow> Inl e
      | Inr lower \<Rightarrow>
          (case boundAt pre fs (To r) True of
             Inl e \<Rightarrow> Inl e
           | Inr upper \<Rightarrow>
               if (case upper of None \<Rightarrow> False | Some u \<Rightarrow> (case lower of None \<Rightarrow> [] | Some l \<Rightarrow> l) > u)
                  \<or> backwardsBoolRange fs (From r) (To r)
               then Inl ErrArgument
               else Inr (lower, upper)))"

section \<open>The walk\<close>

text \<open>
  The visitor of one tree, which ends the walk of the tree at the far end of the stretch, and notes in
  the flag beside its state when it was the caller that had enough.
\<close>

definition bounded ::
  "direction \<Rightarrow> bytes option \<Rightarrow> bytes option \<Rightarrow> (bytes \<Rightarrow> bytes \<Rightarrow> 's \<Rightarrow> bool \<times> 's) \<Rightarrow> bytes \<Rightarrow> bytes \<Rightarrow> 's \<times> bool \<Rightarrow> bool \<times> ('s \<times> bool)" where
  "bounded dir lower upper visit key val st =
     (if (if dir = Reverse then key < (case lower of None \<Rightarrow> [] | Some l \<Rightarrow> l)
          else (case upper of None \<Rightarrow> False | Some u \<Rightarrow> u \<le> key))
      then (False, st)
      else let (more, s) = visit key val (fst st) in if more then (True, s, snd st) else (False, s, True))"

fun walkTrees ::
  "direction \<Rightarrow> bytes option \<Rightarrow> bytes option \<Rightarrow> (bytes \<Rightarrow> bytes \<Rightarrow> 's \<Rightarrow> bool \<times> 's) \<Rightarrow> tree list \<Rightarrow> 's \<Rightarrow> (store_error + unit) \<times> 's" where
  "walkTrees dir lower upper visit [] s = (Inr (), s)"
| "walkTrees dir lower upper visit (t # ts) s =
     (case (if dir = Reverse then Descend t upper (bounded dir lower upper visit) (s, False)
            else Ascend t lower (bounded dir lower upper visit) (s, False)) of
        (Inl e, s, _) \<Rightarrow> (Inl (OfTree e), s)
      | (Inr _, s, stop) \<Rightarrow> if stop then (Inr (), s) else walkTrees dir lower upper visit ts s)"

text \<open>The trees are those the collection lives in, oldest partition first.\<close>

definition walk ::
  "tree list \<Rightarrow> range \<Rightarrow> bytes \<Rightarrow> field_decl list \<Rightarrow> (bytes \<Rightarrow> bytes \<Rightarrow> 's \<Rightarrow> bool \<times> 's) \<Rightarrow> 's \<Rightarrow> (store_error + unit) \<times> 's" where
  "walk trees r pre fs visit s =
     (case stretch r pre fs of
        Inl e \<Rightarrow> (Inl e, s)
      | Inr (lower, upper) \<Rightarrow>
          walkTrees (Direction r) lower upper visit (if Direction r = Reverse then rev trees else trees) s)"

section \<open>Prefixes and their successors\<close>

lemma hasPrefix_append: "hasPrefix pre bs \<longleftrightarrow> (\<exists>rest. bs = pre @ rest)"
  by (metis append_eq_conv_conj append_take_drop_id hasPrefix_def)

lemma prefix_le: "hasPrefix pre bs \<Longrightarrow> pre \<le> bs"
  using append_le_append [of pre "[]"] by (auto simp: hasPrefix_append)

lemma successorAt_spec:
  "i \<le> length out \<Longrightarrow>
     (case successorAt i out of
        None \<Rightarrow> take i out = replicate i 0xff
      | Some u \<Rightarrow> \<exists>ps b n. take i out = ps @ b # replicate n 0xff \<and> b \<noteq> 0xff \<and> u = ps @ [b + 1])"
proof (induction i)
  case (Suc i)
  have t: "take (Suc i) out = take i out @ [out ! i]" using Suc.prems by (simp add: take_Suc_conv_app_nth)
  show ?case
  proof (cases "out ! i = 0xff")
    case True
    from Suc.IH Suc.prems have ih: "case successorAt i out of
        None \<Rightarrow> take i out = replicate i 0xff
      | Some u \<Rightarrow> \<exists>ps b n. take i out = ps @ b # replicate n 0xff \<and> b \<noteq> 0xff \<and> u = ps @ [b + 1]" by simp
    show ?thesis
    proof (cases "successorAt i out")
      case None
      with ih True t show ?thesis by (simp add: replicate_append_same)
    next
      case (Some u)
      with ih obtain ps b n where "take i out = ps @ b # replicate n 0xff" "b \<noteq> 0xff" "u = ps @ [b + 1]" by auto
      with True t have "take (Suc i) out = ps @ b # replicate (Suc n) 0xff \<and> b \<noteq> 0xff \<and> u = ps @ [b + 1]"
        by (simp add: replicate_append_same)
      with True Some show ?thesis by (auto simp del: replicate.simps)
    qed
  next
    case False
    have "take (Suc i) (out[i := out ! i + 1]) = take i out @ [out ! i + 1]"
      using Suc.prems by (simp add: take_Suc_conv_app_nth)
    with False t show ?thesis by (auto intro!: exI [of _ "take i out"] exI [of _ "out ! i"] exI [of _ 0])
  qed
qed simp

lemma max_byte: "(b :: byte) \<le> 0xff" "\<not> 0xff < (b :: byte)"
proof -
  have "unat b \<le> 255" using byte_less [of b] by simp
  then show "b \<le> 0xff" by (simp add: word_le_nat_alt)
  then show "\<not> 0xff < b" by simp
qed

lemma next_byte: "b \<noteq> 0xff \<Longrightarrow> (c < b + 1) = (c \<le> (b :: byte))"
proof -
  assume b: "b \<noteq> 0xff"
  have "unat b \<noteq> 255" using b by (auto simp: word_unat_eq_iff)
  then have "unat b + 1 < 256" using byte_less [of b] by simp
  then have "unat (b + 1) = unat b + 1" by (simp add: unat_word_ariths)
  then show ?thesis by (simp add: word_less_nat_alt word_le_nat_alt less_Suc_eq_le)
qed

lemma less_append_Cons: "(ps @ b # xs < ps @ c # ys) \<longleftrightarrow> b < c \<or> b = c \<and> xs < (ys :: bytes)"
  by (simp add: append_less_append)

text \<open>The keys from a prefix up to its successor are the keys that start with it.\<close>

lemma maxed_prefix: "replicate n 0xff \<le> bs \<longleftrightarrow> hasPrefix (replicate n 0xff) (bs :: bytes)"
proof (induction n arbitrary: bs)
  case (Suc n)
  show ?case
  proof (cases bs)
    case (Cons c cs)
    have "0xff \<le> c \<longleftrightarrow> c = 0xff" using max_byte(1) [of c] by auto
    then show ?thesis using Cons Suc [of cs] max_byte(2) [of c] by (auto simp: hasPrefix_def)
  qed (simp add: hasPrefix_def)
qed (simp add: hasPrefix_def)

lemma below_successor:
  "b \<noteq> 0xff \<Longrightarrow> ps @ b # replicate n 0xff \<le> bs \<Longrightarrow> bs < ps @ [b + 1] \<Longrightarrow> hasPrefix (ps @ b # replicate n 0xff) (bs :: bytes)"
proof (induction ps arbitrary: bs)
  case Nil
  then obtain c cs where bs: "bs = c # cs" by (cases bs) auto
  with Nil have "c \<le> b" using next_byte [of b c] by auto
  with Nil bs have "c = b" "replicate n 0xff \<le> cs" by auto
  with bs maxed_prefix [of n cs] show ?case by (simp add: hasPrefix_def)
next
  case (Cons x ps)
  then obtain c cs where bs: "bs = c # cs" by (cases bs) auto
  with Cons.prems have "c = x" by auto
  with Cons bs show ?case by (auto simp: hasPrefix_def)
qed

lemma between_successor:
  "pre \<le> bs \<and> (case successor pre of None \<Rightarrow> True | Some u \<Rightarrow> bs < u) \<longleftrightarrow> hasPrefix pre bs"
proof (cases "successor pre")
  case None
  then have "pre = replicate (length pre) 0xff" using successorAt_spec [of "length pre" pre] by (simp add: successor_def)
  with None maxed_prefix show ?thesis by (metis option.case(1))
next
  case (Some u)
  then obtain ps b n where p: "pre = ps @ b # replicate n 0xff" "b \<noteq> 0xff" "u = ps @ [b + 1]"
    using successorAt_spec [of "length pre" pre] by (auto simp: successor_def)
  show ?thesis
  proof
    assume a: "pre \<le> bs \<and> (case successor pre of None \<Rightarrow> True | Some u \<Rightarrow> bs < u)"
    with Some p show "hasPrefix pre bs" using below_successor [OF p(2)] by simp
  next
    assume "hasPrefix pre bs"
    then obtain rest where r: "bs = ps @ b # replicate n 0xff @ rest" using p(1) by (auto simp: hasPrefix_append)
    have "bs < u" using next_byte [OF p(2), of b] by (simp add: r p(3) less_append_Cons)
    with Some prefix_le [OF \<open>hasPrefix pre bs\<close>] show "pre \<le> bs \<and> (case successor pre of None \<Rightarrow> True | Some u \<Rightarrow> bs < u)" by simp
  qed
qed

section \<open>What a range holds\<close>

lemma Encode_append: "Encode dst v f = Inr out \<Longrightarrow> key_ok f (canon v) \<and> out = dst @ enc_component f (canon v)"
  using Encode_canon [of dst v f out] by (auto simp: Encode_plain enc_component_plain)

lemma encodeValues_extends: "encodeValues key vs fs = Inr out \<Longrightarrow> hasPrefix key out"
proof (induction key vs fs rule: encodeValues.induct)
  case (1 key v vs f fs)
  then show ?case by (auto simp: hasPrefix_append dest!: Encode_append split: sum.splits)
qed (auto simp: hasPrefix_append)

text \<open>
  The keys of a range, from the keys its ends encode to: those that start with the prefix of the
  index, are not before the lower end and not after the upper, where an end stands for every key that
  starts with it, all of them in the range or, for an exclusive end, none.
\<close>

definition inRange :: "range \<Rightarrow> bytes \<Rightarrow> field_decl list \<Rightarrow> bytes \<Rightarrow> bool" where
  "inRange r pre fs k \<longleftrightarrow> hasPrefix pre k
     \<and> (case From r of None \<Rightarrow> True
        | Some b \<Rightarrow> (case encodeValues pre (b_values b) fs of
                        Inl _ \<Rightarrow> False | Inr key \<Rightarrow> key \<le> k \<and> (b_exclusive b \<longrightarrow> \<not> hasPrefix key k)))
     \<and> (case To r of None \<Rightarrow> True
        | Some b \<Rightarrow> (case encodeValues pre (b_values b) fs of
                        Inl _ \<Rightarrow> False | Inr key \<Rightarrow> k < key \<or> \<not> b_exclusive b \<and> hasPrefix key k))"

definition under :: "bytes option \<Rightarrow> bytes \<Rightarrow> bool" where
  "under upper k \<longleftrightarrow> (case upper of None \<Rightarrow> True | Some u \<Rightarrow> k < u)"

lemma under_successor: "under (successor key) k \<longleftrightarrow> k < key \<or> hasPrefix key k"
proof (cases "key \<le> k")
  case True
  then show ?thesis using between_successor [of key k] by (auto simp: under_def)
next
  case False
  then have "k < key" by simp
  moreover have "under (successor key) key" using between_successor [of key key] by (auto simp: under_def hasPrefix_def)
  ultimately show ?thesis by (auto simp: under_def split: option.splits)
qed

lemma successor_extends: "hasPrefix pre key \<Longrightarrow> successor pre \<noteq> None \<Longrightarrow> successor key \<noteq> None"
proof
  assume p: "hasPrefix pre key" "successor pre \<noteq> None" and n: "successor key = None"
  have "key = replicate (length key) 0xff" using n successorAt_spec [of "length key" key] by (simp add: successor_def)
  then have key: "b = 0xff" if "b \<in> set key" for b using that in_set_replicate [of b "length key" "0xff"] by simp
  obtain u where u: "successor pre = Some u" using p(2) by auto
  then obtain ps b n where "pre = ps @ b # replicate n 0xff" "b \<noteq> 0xff"
    using successorAt_spec [of "length pre" pre] by (auto simp: successor_def)
  moreover from this have "b \<in> set key" using p(1) by (auto simp: hasPrefix_append)
  ultimately show False using key by blast
qed

lemma successor_le: "successor key = Some u \<Longrightarrow> u \<le> k \<longleftrightarrow> key \<le> k \<and> \<not> hasPrefix key k"
  using under_successor [of key k] by (auto simp: under_def not_less [symmetric])

lemma hasPrefix_refl [simp]: "hasPrefix pre pre"
  by (simp add: hasPrefix_def)

lemma hasPrefix_trans: "hasPrefix a b \<Longrightarrow> hasPrefix b c \<Longrightarrow> hasPrefix a c"
  by (auto simp: hasPrefix_append)

lemma stretch_inRange:
  assumes st: "stretch r pre fs = Inr (lower, upper)" and p: "successor pre \<noteq> None"
  shows "\<exists>l. lower = Some l \<and> (\<forall>k. l \<le> k \<and> under upper k \<longleftrightarrow> inRange r pre fs k)"
proof -
  have b: "boundAt pre fs (From r) False = Inr lower" "boundAt pre fs (To r) True = Inr upper"
    using st by (auto simp: stretch_def split: sum.splits if_splits)
  have lo: "\<exists>l. lower = Some l \<and> pre \<le> l \<and> (\<forall>k. l \<le> k \<longleftrightarrow> pre \<le> k \<and> (case From r of None \<Rightarrow> True
        | Some b \<Rightarrow> (case encodeValues pre (b_values b) fs of
                        Inl _ \<Rightarrow> False | Inr key \<Rightarrow> key \<le> k \<and> (b_exclusive b \<longrightarrow> \<not> hasPrefix key k))))"
  proof (cases "From r")
    case None
    with b(1) have "lower = Some pre" by (simp add: boundAt_def)
    with None show ?thesis by simp
  next
    case (Some bd)
    then obtain key where key: "encodeValues pre (b_values bd) fs = Inr key"
      and l: "lower = (if b_exclusive bd then successor key else Some key)"
      using b(1) by (auto simp: boundAt_def split: sum.splits if_splits)
    have e: "hasPrefix pre key" by (rule encodeValues_extends [OF key])
    show ?thesis
    proof (cases "b_exclusive bd")
      case True
      obtain u where u: "successor key = Some u" using successor_extends [OF e p] by auto
      have "key \<le> u" using successor_le [OF u, of u] by simp
      with True l u key Some prefix_le [OF e] successor_le [OF u] show ?thesis by auto
    next
      case False
      with l key Some prefix_le [OF e] show ?thesis by auto
    qed
  qed
  have up: "under upper k \<longleftrightarrow> under (successor pre) k \<and> (case To r of None \<Rightarrow> True
        | Some b \<Rightarrow> (case encodeValues pre (b_values b) fs of
                        Inl _ \<Rightarrow> False | Inr key \<Rightarrow> k < key \<or> \<not> b_exclusive b \<and> hasPrefix key k))" for k
  proof (cases "To r")
    case None
    with b(2) show ?thesis by (simp add: boundAt_def)
  next
    case (Some bd)
    then obtain key where key: "encodeValues pre (b_values bd) fs = Inr key"
      and u: "upper = (if b_exclusive bd then Some key else successor key)"
      using b(2) by (auto simp: boundAt_def split: sum.splits if_splits)
    have e: "hasPrefix pre key" by (rule encodeValues_extends [OF key])
    have le: "k < key \<or> hasPrefix key k \<Longrightarrow> under (successor pre) k"
      using under_successor [of pre key] under_successor [of pre k] e hasPrefix_trans [OF e, of k]
      by (auto simp: under_def split: option.splits)
    show ?thesis
    proof (cases "b_exclusive bd")
      case True
      with u key Some le show ?thesis by (auto simp: under_def)
    next
      case False
      with u key Some le under_successor [of key k] show ?thesis by auto
    qed
  qed
  have pk: "pre \<le> k \<and> under (successor pre) k \<longleftrightarrow> hasPrefix pre k" for k
    using between_successor [of pre k] by (simp add: under_def)
  from lo obtain l where l: "lower = Some l" "\<And>k. l \<le> k \<longleftrightarrow> pre \<le> k \<and> (case From r of None \<Rightarrow> True
        | Some b \<Rightarrow> (case encodeValues pre (b_values b) fs of
                        Inl _ \<Rightarrow> False | Inr key \<Rightarrow> key \<le> k \<and> (b_exclusive b \<longrightarrow> \<not> hasPrefix key k)))"
    by blast
  have "l \<le> k \<and> under upper k \<longleftrightarrow> inRange r pre fs k" for k
    unfolding inRange_def using l(2) [of k] up [of k] pk [of k] by argo
  with l(1) show ?thesis by blast
qed

section \<open>The walk is the range\<close>

text \<open>Whether a visitor had enough before the end of a list.\<close>

fun enough :: "(bytes \<Rightarrow> bytes \<Rightarrow> 's \<Rightarrow> bool \<times> 's) \<Rightarrow> (bytes \<times> bytes) list \<Rightarrow> 's \<Rightarrow> bool" where
  "enough visit [] s = False"
| "enough visit ((k, v) # kvs) s = (let (more, s') = visit k v s in if more then enough visit kvs s' else True)"

lemma visited_append:
  "visited visit (xs @ ys) s = (if enough visit xs s then visited visit xs s else visited visit ys (visited visit xs s))"
  by (induction visit xs s rule: enough.induct) (auto split: prod.splits)

lemma enough_append: "enough visit (xs @ ys) s \<longleftrightarrow> enough visit xs s \<or> enough visit ys (visited visit xs s)"
  by (induction visit xs s rule: enough.induct) (auto split: prod.splits)

definition inside :: "direction \<Rightarrow> bytes option \<Rightarrow> bytes option \<Rightarrow> bytes \<times> bytes \<Rightarrow> bool" where
  "inside dir lower upper kv \<longleftrightarrow> (if dir = Reverse then (case lower of None \<Rightarrow> [] | Some l \<Rightarrow> l) \<le> fst kv else under upper (fst kv))"

lemma bounded_inside:
  "bounded dir lower upper visit k v st =
     (if \<not> inside dir lower upper (k, v) then (False, st)
      else let (more, s) = visit k v (fst st) in if more then (True, s, snd st) else (False, s, True))"
  by (auto simp: bounded_def inside_def under_def not_le not_less split: option.splits)

lemma visited_bounded:
  "visited (bounded dir lower upper visit) kvs (s, b) =
     (visited visit (takeWhile (inside dir lower upper) kvs) s, b \<or> enough visit (takeWhile (inside dir lower upper) kvs) s)"
proof (induction kvs arbitrary: s b)
  case (Cons kv kvs)
  obtain k v where kv: "kv = (k, v)" by (cases kv)
  obtain more s' where v: "visit k v s = (more, s')" by (cases "visit k v s")
  show ?case by (cases more; cases "inside dir lower upper (k, v)") (simp_all add: kv v bounded_inside [of dir lower upper visit k v] Cons.IH)
qed simp

lemma takeWhile_filter_sorted:
  "sorted_wrt (\<lambda>a b. P b \<longrightarrow> P a) xs \<Longrightarrow> takeWhile P xs = filter P xs"
  by (induction xs) (auto simp: filter_empty_conv)

text \<open>What a range takes from one tree, in the order of the walk.\<close>

definition taken_from :: "range \<Rightarrow> bytes \<Rightarrow> field_decl list \<Rightarrow> (bytes \<times> bytes) list \<Rightarrow> (bytes \<times> bytes) list" where
  "taken_from r pre fs kvs =
     (let hit = filter (\<lambda>kv. inRange r pre fs (fst kv)) kvs in if Direction r = Reverse then rev hit else hit)"

lemma taken_forward:
  assumes s: "sorted_wrt (<) (map fst kvs)" and l: "\<And>k. l \<le> k \<and> under upper k \<longleftrightarrow> inRange r pre fs k"
  shows "takeWhile (inside Forward (Some l) upper) (from_kv (Some l) kvs) = filter (\<lambda>kv. inRange r pre fs (fst kv)) kvs"
proof -
  have "sorted_wrt (\<lambda>a b. fst a < fst b) (filter (\<lambda>p. l \<le> fst p) kvs)" using s by (simp add: sorted_wrt_map sorted_wrt_filter)
  then have "takeWhile (inside Forward (Some l) upper) (filter (\<lambda>p. l \<le> fst p) kvs) = filter (inside Forward (Some l) upper) (filter (\<lambda>p. l \<le> fst p) kvs)"
    by (intro takeWhile_filter_sorted, elim sorted_wrt_mono_rel [rotated]) (auto simp: inside_def under_def split: option.splits)
  then show ?thesis using l by (auto simp: from_kv_def inside_def intro!: filter_cong)
qed

lemma taken_reverse:
  assumes s: "sorted_wrt (<) (map fst kvs)" and l: "\<And>k. l \<le> k \<and> under upper k \<longleftrightarrow> inRange r pre fs k"
  shows "takeWhile (inside Reverse (Some l) upper) (rev (below_kv upper kvs)) = rev (filter (\<lambda>kv. inRange r pre fs (fst kv)) kvs)"
proof -
  have b: "below_kv upper kvs = filter (\<lambda>p. under upper (fst p)) kvs" by (simp add: below_kv_def under_def split: option.splits)
  have "sorted_wrt (\<lambda>a b. fst a < fst b) (filter (\<lambda>p. under upper (fst p)) kvs)" using s by (simp add: sorted_wrt_map sorted_wrt_filter)
  then have "takeWhile (inside Reverse (Some l) upper) (rev (filter (\<lambda>p. under upper (fst p)) kvs))
     = filter (inside Reverse (Some l) upper) (rev (filter (\<lambda>p. under upper (fst p)) kvs))"
    by (intro takeWhile_filter_sorted, simp only: sorted_wrt_rev, elim sorted_wrt_mono_rel [rotated]) (auto simp: inside_def)
  then show ?thesis using l unfolding b by (auto simp: rev_filter inside_def intro!: filter_cong)
qed

lemma walkTrees_visits:
  assumes l: "\<And>k. l \<le> k \<and> under upper k \<longleftrightarrow> inRange r pre fs k" and h: "list_all2 (\<lambda>t kvs. \<exists>F. holds_map t F kvs) ts kvss"
  shows "walkTrees (Direction r) (Some l) upper visit ts s = (Inr (), visited visit (concat (map (taken_from r pre fs) kvss)) s)"
  using h
proof (induction ts kvss arbitrary: s rule: list_all2_induct)
  case (Cons t ts kvs kvss)
  then obtain F where h: "holds_map t F kvs" by blast
  note sorted = holds_map_sorted [OF h]
  have v: "\<exists>b. visitAll vis xs u = (Inr b, visited vis xs u)" for vis :: "bytes \<Rightarrow> bytes \<Rightarrow> 's \<times> bool \<Rightarrow> bool \<times> 's \<times> bool" and xs u
    by (rule visitAll_visited)
  show ?case
  proof (cases "Direction r")
    case Forward
    then show ?thesis
      using v [of "bounded Forward (Some l) upper visit" "from_kv (Some l) kvs" "(s, False)"] Cons.IH
      by (auto simp: Ascend_spec [OF h] bnd_def visited_bounded taken_forward [OF sorted l] visited_append taken_from_def)
  next
    case Reverse
    then show ?thesis
      using v [of "bounded Reverse (Some l) upper visit" "rev (below_kv upper kvs)" "(s, False)"] Cons.IH
      by (auto simp: Descend_spec [OF h] bnd_def visited_bounded taken_reverse [OF sorted l] visited_append taken_from_def)
  qed
qed simp



end
