(* ===== verification/Store_Doc.thy ===== *)
theory Store_Doc
  imports Store_Scan "HOL-Library.Finite_Map"
begin

text \<open>
  Documents and what is derived from one (\<^verbatim>\<open>internal/store/collection.go\<close> and the key spaces of \<^verbatim>\<open>store.go\<close>):
  the value at a dotted path, the key a document is stored at, and the entries the declared indexes
  hold for it.

  A value of type \<^verbatim>\<open>any\<close> is a scalar of the key encoding, a list or a map; a document is a map.
  \<^verbatim>\<open>encoding/json\<close> is a parameter: a pair of functions per type it is used at, which may fail.
\<close>

section \<open>Documents\<close>

datatype gval =
    GKey key_value
  | GList "gval list"
  | GMap "(bytes, gval) fmap"

type_synonym doc = "(bytes, gval) fmap"

record 'a codec =
  Marshal :: "'a \<Rightarrow> bytes option"
  Unmarshal :: "bytes \<Rightarrow> 'a option"

text \<open>The value as the key encoding sees it: a list or a map is of no type it knows.\<close>

definition keyOf :: "gval \<Rightarrow> key_value" where
  "keyOf v = (case v of GKey k \<Rightarrow> k | _ \<Rightarrow> VOther)"

fun splitDots :: "bytes \<Rightarrow> bytes list" where
  "splitDots [] = [[]]"
| "splitDots (b # bs) =
     (if b = of_char CHR ''.'' then [] # splitDots bs
      else (case splitDots bs of [] \<Rightarrow> [[b]] | p # ps \<Rightarrow> (b # p) # ps))"

fun atParts :: "gval \<Rightarrow> bytes list \<Rightarrow> gval option" where
  "atParts v [] = Some v"
| "atParts v (part # parts) =
     (case v of
        GMap object \<Rightarrow> (case fmlookup object part of None \<Rightarrow> None | Some w \<Rightarrow> atParts w parts)
      | _ \<Rightarrow> None)"

definition at_path :: "doc \<Rightarrow> bytes \<Rightarrow> gval option" where
  "at_path document path = atParts (GMap document) (splitDots path)"

definition spreadOf :: "gval \<Rightarrow> gval list" where
  "spreadOf v = (case v of GList xs \<Rightarrow> xs | _ \<Rightarrow> [v])"

definition matches :: "bytes \<Rightarrow> gval \<Rightarrow> bool" where
  "matches declared v \<longleftrightarrow>
     (if v = GKey VNil then True
      else if declared = TypeAny then True
      else if declared = TypeString then (case v of GKey (VString _) \<Rightarrow> True | _ \<Rightarrow> False)
      else if declared = TypeNumber then
        (case v of GKey (VFloat64 _) \<Rightarrow> True | GKey (VFloat32 _) \<Rightarrow> True | GKey (VInt _) \<Rightarrow> True | GKey (VInt64 _) \<Rightarrow> True | _ \<Rightarrow> False)
      else if declared = TypeBool then (case v of GKey (VBool _) \<Rightarrow> True | _ \<Rightarrow> False)
      else False)"

section \<open>Key spaces\<close>

definition spaceMeta :: byte where "spaceMeta = 0x00"
definition spaceCatalog :: byte where "spaceCatalog = 0x01"
definition spaceDoc :: byte where "spaceDoc = 0x02"
definition spaceIndex :: byte where "spaceIndex = 0x03"
definition spaceLog :: byte where "spaceLog = 0x05"
definition spaceWrites :: byte where "spaceWrites = 0x06"
definition spaceParts :: byte where "spaceParts = 0x07"
definition spaceRollups :: byte where "spaceRollups = 0x08"

lemmas space_defs = spaceMeta_def spaceCatalog_def spaceDoc_def spaceIndex_def spaceLog_def spaceWrites_def spaceParts_def spaceRollups_def

definition catalogKey :: "bytes \<Rightarrow> bytes" where
  "catalogKey name = spaceCatalog # name"

definition documents :: "spec \<Rightarrow> bytes" where
  "documents s = spaceDoc # be 4 (unat (s_id s))"

definition entries :: "spec \<Rightarrow> index_decl \<Rightarrow> bytes" where
  "entries s x = spaceIndex # be 4 (unat (s_id s)) @ be 2 (unat (i_id x))"

definition rollups :: "spec \<Rightarrow> rollup_decl \<Rightarrow> bytes" where
  "rollups s r = spaceRollups # be 4 (unat (s_id s)) @ be 2 (unat (r_id r))"

definition logKey :: "64 word \<Rightarrow> bytes" where
  "logKey lsn = spaceLog # be 8 (unat lsn)"

definition writeKey :: "bytes \<Rightarrow> bytes" where
  "writeKey wid = spaceWrites # wid"

text \<open>The zero value of \<^verbatim>\<open>keys.Field\<close>.\<close>

definition plainField :: field where
  "plainField = \<lparr>Descending = False, Missing = MissingSkip\<rparr>"

definition encodeKey :: "spec \<Rightarrow> gval \<Rightarrow> store_error + bytes" where
  "encodeKey s v =
     (if \<not> matches (k_type (s_key s)) v then Inl ErrType
      else (case Encode (documents s) (keyOf v) plainField of Inl e \<Rightarrow> Inl (OfKeys e) | Inr key \<Rightarrow> Inr key))"

section \<open>Index entries\<close>

record entry =
  e_key :: bytes
  e_value :: bytes
  e_index :: index_decl
  e_prefix :: nat

text \<open>
  The loop over the fields of an index: the values of the fields and the position of the one that is
  spread; nothing when the index is not to hold the document.
\<close>

fun fieldValues :: "doc \<Rightarrow> bytes \<Rightarrow> nat \<Rightarrow> field_decl list \<Rightarrow> store_error + (gval list \<times> nat option) option" where
  "fieldValues document array i [] = Inr (Some ([], None))"
| "fieldValues document array i (f # fs) =
     (case at_path document (f_path f) of
        None \<Rightarrow>
          if f_missing f = SkipMissing then Inr None
          else (case fieldValues document array (Suc i) fs of
                  Inl e \<Rightarrow> Inl e | Inr None \<Rightarrow> Inr None | Inr (Some (vs, spread)) \<Rightarrow> Inr (Some (GKey VAbsent # vs, spread)))
      | Some v \<Rightarrow>
          if array = f_path f then
            (case fieldValues document array (Suc i) fs of
               Inl e \<Rightarrow> Inl e | Inr None \<Rightarrow> Inr None
             | Inr (Some (vs, spread)) \<Rightarrow> Inr (Some (v # vs, case spread of None \<Rightarrow> Some i | _ \<Rightarrow> spread)))
          else if \<not> matches (f_type f) v then Inl ErrType
          else (case fieldValues document array (Suc i) fs of
                  Inl e \<Rightarrow> Inl e | Inr None \<Rightarrow> Inr None | Inr (Some (vs, spread)) \<Rightarrow> Inr (Some (v # vs, spread))))"

definition include_paths :: "doc codec \<Rightarrow> doc \<Rightarrow> index_decl \<Rightarrow> store_error + bytes" where
  "include_paths j document x =
     (if i_include x = [] then Inr []
      else case Marshal j (fmap_of_list (concat (map (\<lambda>p. case at_path document p of None \<Rightarrow> [] | Some v \<Rightarrow> [(p, v)]) (i_include x)))) of
             None \<Rightarrow> Inl ErrMarshal | Some b \<Rightarrow> Inr b)"

text \<open>The key of one entry, and where in it the primary key starts.\<close>

definition entryKey :: "spec \<Rightarrow> index_decl \<Rightarrow> gval list \<Rightarrow> gval \<Rightarrow> store_error + bytes \<times> nat" where
  "entryKey s x vs key =
     (case encodeValues (entries s x) (map keyOf vs) (i_fields x) of
        Inl _ \<Rightarrow> Inl ErrType
      | Inr encoded \<Rightarrow>
          (case Encode encoded (keyOf key) plainField of
             Inl e \<Rightarrow> Inl (OfKeys e)
           | Inr full \<Rightarrow> Inr (full, length encoded)))"

text \<open>The loop over the elements, with the keys made so far.\<close>

fun entriesOf :: "spec \<Rightarrow> index_decl \<Rightarrow> bytes \<Rightarrow> gval \<Rightarrow> gval list \<Rightarrow> nat option \<Rightarrow> bytes set \<Rightarrow> gval list \<Rightarrow> store_error + entry list" where
  "entriesOf s x carried key vs spread had [] = Inr []"
| "entriesOf s x carried key vs spread had (element # elements) =
     (case entryKey s x (case spread of None \<Rightarrow> vs | Some i \<Rightarrow> vs[i := element]) key of
        Inl e \<Rightarrow> Inl e
      | Inr (encoded, n) \<Rightarrow>
          if encoded \<in> had then entriesOf s x carried key vs spread had elements
          else (case entriesOf s x carried key vs spread (insert encoded had) elements of
                  Inl e \<Rightarrow> Inl e
                | Inr made \<Rightarrow> Inr (\<lparr>e_key = encoded, e_value = carried, e_index = x, e_prefix = n\<rparr> # made)))"

definition entriesForIndex :: "doc codec \<Rightarrow> spec \<Rightarrow> doc \<Rightarrow> gval \<Rightarrow> index_decl \<Rightarrow> store_error + entry list" where
  "entriesForIndex j s document key x =
     (case fieldValues document (i_array x) 0 (i_fields x) of
        Inl e \<Rightarrow> Inl e
      | Inr None \<Rightarrow> Inr []
      | Inr (Some (vs, spread)) \<Rightarrow>
          let elements = (case spread of None \<Rightarrow> [GKey VNil] | Some i \<Rightarrow> spreadOf (vs ! i)) in
          if spread \<noteq> None \<and> (\<exists>e \<in> set elements. \<not> matches (f_type (i_fields x ! the spread)) e) then Inl ErrType
          else (case include_paths j document x of
                  Inl e \<Rightarrow> Inl e
                | Inr carried \<Rightarrow> entriesOf s x carried key vs spread {} elements))"

fun entriesForAll :: "doc codec \<Rightarrow> spec \<Rightarrow> doc \<Rightarrow> gval \<Rightarrow> index_decl list \<Rightarrow> store_error + entry list" where
  "entriesForAll j s document key [] = Inr []"
| "entriesForAll j s document key (x # xs) =
     (case entriesForIndex j s document key x of
        Inl e \<Rightarrow> Inl e
      | Inr made \<Rightarrow> (case entriesForAll j s document key xs of Inl e \<Rightarrow> Inl e | Inr all \<Rightarrow> Inr (made @ all)))"

definition entriesFor :: "doc codec \<Rightarrow> spec \<Rightarrow> doc \<Rightarrow> gval \<Rightarrow> store_error + entry list" where
  "entriesFor j s document key = entriesForAll j s document key (s_indexes s)"

end
