(* ===== verification/Store_Rollup.thy ===== *)
theory Store_Rollup
  imports Store_Doc
begin

unbundle bit_operations_syntax

text \<open>
  Declared totals (\<^verbatim>\<open>internal/store/rollup.go\<close>): the row a document belongs to, and adding a document to
  its rows or taking it away again, on the tree that holds them.
\<close>

section \<open>The tree, with the errors of the store\<close>

type_synonym 'a on_tree = "(tree, store_error, 'a) may_fail"

definition onTree :: "(tree, 'a) op \<Rightarrow> 'a on_tree" where
  "onTree f = (\<lambda>t. case f t of (Inl e, t) \<Rightarrow> (Inl (OfTree e), t) | (Inr a, t) \<Rightarrow> (Inr a, t))"

definition treeGet :: "bytes \<Rightarrow> bytes option on_tree" where
  "treeGet key = (\<lambda>t. (case Get t key of Inl e \<Rightarrow> Inl (OfTree e) | Inr v \<Rightarrow> Inr v, t))"

definition treePut :: "bytes \<Rightarrow> bytes \<Rightarrow> unit on_tree" where
  "treePut key val = onTree (Put key val)"

definition treeDelete :: "bytes \<Rightarrow> bool on_tree" where
  "treeDelete key = onTree (Delete key)"

definition treeAscend :: "bytes \<Rightarrow> (bytes \<Rightarrow> bytes \<Rightarrow> 's \<Rightarrow> bool \<times> 's) \<Rightarrow> 's \<Rightarrow> 's on_tree" where
  "treeAscend from visit s =
     (\<lambda>t. case Ascend t (Some from) visit s of (Inl e, _) \<Rightarrow> (Inl (OfTree e), t) | (Inr _, s) \<Rightarrow> (Inr s, t))"

section \<open>Adding floating point numbers\<close>

text \<open>
  The language's \<^verbatim>\<open>float64\<close> addition: the exact sum, in units of the smallest subnormal, rounded to the
  nearest number that can be represented and to the even one of two that are as near.
\<close>

definition f64_round :: "nat \<Rightarrow> nat" where
  "f64_round n =
     (if n < 2 ^ 53 then n
      else let shift = log2n n - 52; q = n div 2 ^ shift; r = n mod 2 ^ shift; half = 2 ^ (shift - 1);
               q = (if r > half \<or> r = half \<and> odd q then q + 1 else q)
           in min (shift * 2 ^ 52 + q) (2047 * 2 ^ 52))"

definition f64_inf :: "64 word \<Rightarrow> bool" where
  "f64_inf w \<longleftrightarrow> f64_mag w = 2047 * 2 ^ 52"

definition f64_make :: "bool \<Rightarrow> nat \<Rightarrow> 64 word" where
  "f64_make neg m = word_of_nat (if neg then 2 ^ 63 + m else m)"

definition f64_quiet :: "64 word" where
  "f64_quiet = 0x7ff8000000000001"

definition f64_add :: "64 word \<Rightarrow> 64 word \<Rightarrow> 64 word" where
  "f64_add a b =
     (if f64_nan a \<or> f64_nan b then f64_quiet
      else if f64_inf a then (if f64_inf b \<and> f64_sign a \<noteq> f64_sign b then f64_quiet else a)
      else if f64_inf b then b
      else let x = f64_scaled a + f64_scaled b in
           if x = 0 then f64_make (f64_sign a \<and> f64_sign b) 0
           else f64_make (x < 0) (f64_round (nat \<bar>x\<bar>)))"

text \<open>The product with \<open>1\<close> or \<open>-1\<close>.\<close>

definition f64_signed :: "int \<Rightarrow> 64 word \<Rightarrow> 64 word" where
  "f64_signed sign v = (if sign < 0 then v XOR push_bit 63 1 else v)"

section \<open>Totals\<close>

record totals =
  t_count :: int
  t_sum :: "(bytes, 64 word) fmap"

fun groupValues :: "doc \<Rightarrow> field_decl list \<Rightarrow> store_error + key_value list option" where
  "groupValues document [] = Inr (Some [])"
| "groupValues document (f # fs) =
     (case at_path document (f_path f) of
        None \<Rightarrow>
          if f_missing f = SkipMissing then Inr None
          else (case groupValues document fs of Inl e \<Rightarrow> Inl e | Inr vs \<Rightarrow> Inr (map_option ((#) VAbsent) vs))
      | Some v \<Rightarrow>
          if \<not> matches (f_type f) v then Inl ErrType
          else (case groupValues document fs of Inl e \<Rightarrow> Inl e | Inr vs \<Rightarrow> Inr (map_option ((#) (keyOf v)) vs)))"

definition groupKey :: "spec \<Rightarrow> rollup_decl \<Rightarrow> doc \<Rightarrow> store_error + bytes option" where
  "groupKey s r document =
     (case groupValues document (r_group r) of
        Inl e \<Rightarrow> Inl e
      | Inr None \<Rightarrow> Inr None
      | Inr (Some vs) \<Rightarrow>
          (case EncodeKey (rollups s r) vs (encodings (r_group r)) of Inl e \<Rightarrow> Inl (OfKeys e) | Inr key \<Rightarrow> Inr (Some key)))"

text \<open>The numbers a document adds, by path.\<close>

fun addedBy :: "doc \<Rightarrow> bytes list \<Rightarrow> store_error + (bytes, 64 word) fmap" where
  "addedBy document [] = Inr fmempty"
| "addedBy document (p # ps) =
     (case at_path document p of
        None \<Rightarrow> addedBy document ps
      | Some v \<Rightarrow>
          (case v of
             GKey (VFloat64 w) \<Rightarrow> (case addedBy document ps of Inl e \<Rightarrow> Inl e | Inr added \<Rightarrow> Inr (fmupd p w added))
           | _ \<Rightarrow> Inl ErrType))"

definition addTotals :: "int \<Rightarrow> (bytes, 64 word) fmap \<Rightarrow> totals \<Rightarrow> totals" where
  "addTotals sign added tot =
     \<lparr>t_count = t_count tot + sign,
      t_sum = fmadd (t_sum tot)
        (fmmap_keys (\<lambda>p n. f64_add (case fmlookup (t_sum tot) p of None \<Rightarrow> 0 | Some x \<Rightarrow> x) (f64_signed sign n)) added)\<rparr>"

text \<open>One rollup, and all of them in turn.\<close>

definition contributeOne :: "totals codec \<Rightarrow> spec \<Rightarrow> doc \<Rightarrow> int \<Rightarrow> rollup_decl \<Rightarrow> unit on_tree" where
  "contributeOne jt s document sign r =
     (case groupKey s r document of
        Inl e \<Rightarrow> throw e
      | Inr None \<Rightarrow> ret ()
      | Inr (Some key) \<Rightarrow>
          (case addedBy document (r_sum r) of
             Inl e \<Rightarrow> throw e
           | Inr added \<Rightarrow>
               bnd (treeGet key) (\<lambda>stored.
                 case (case stored of None \<Rightarrow> Some \<lparr>t_count = 0, t_sum = fmempty\<rparr> | Some b \<Rightarrow> Unmarshal jt b) of
                   None \<Rightarrow> throw ErrDamaged
                 | Some tot \<Rightarrow>
                     let tot = addTotals sign added tot in
                     if t_count tot \<le> 0 then bnd (treeDelete key) (\<lambda>_. ret ())
                     else (case Marshal jt tot of None \<Rightarrow> throw ErrMarshal | Some encoded \<Rightarrow> treePut key encoded))))"

fun contributeAll :: "totals codec \<Rightarrow> spec \<Rightarrow> doc \<Rightarrow> int \<Rightarrow> rollup_decl list \<Rightarrow> unit on_tree" where
  "contributeAll jt s document sign [] = ret ()"
| "contributeAll jt s document sign (r # rs) =
     bnd (contributeOne jt s document sign r) (\<lambda>_. contributeAll jt s document sign rs)"

definition contribute :: "totals codec \<Rightarrow> spec \<Rightarrow> doc \<Rightarrow> int \<Rightarrow> unit on_tree" where
  "contribute jt s document sign = contributeAll jt s document sign (s_rollups s)"

end
