(* ===== verification/Store_Collection.thy ===== *)
theory Store_Collection
  imports Store_Rollup
begin

text \<open>
  Writing and removing documents (\<^verbatim>\<open>internal/store/collection.go\<close>), on the tree a document lives in: the
  document, the entries every index holds for it and the totals it counts in, changed together.
\<close>

section \<open>Reading and writing in one tree\<close>

definition read_doc :: "doc codec \<Rightarrow> bytes \<Rightarrow> doc option on_tree" where
  "read_doc jd pk =
     bnd (treeGet pk) (\<lambda>v.
       case v of
         None \<Rightarrow> ret None
       | Some b \<Rightarrow> (case Unmarshal jd b of None \<Rightarrow> throw ErrDamaged | Some d \<Rightarrow> ret (Some d)))"

fun deleteEntries :: "entry list \<Rightarrow> unit on_tree" where
  "deleteEntries [] = ret ()"
| "deleteEntries (e # es) = bnd (treeDelete (e_key e)) (\<lambda>_. deleteEntries es)"

fun putEntries :: "entry list \<Rightarrow> unit on_tree" where
  "putEntries [] = ret ()"
| "putEntries (e # es) = bnd (treePut (e_key e) (e_value e)) (\<lambda>_. putEntries es)"

text \<open>The visitor of the check for duplicates: the entry of the document itself is passed over.\<close>

definition clashes :: "bytes \<Rightarrow> bytes \<Rightarrow> bytes \<Rightarrow> bytes \<Rightarrow> bytes option \<Rightarrow> bool \<times> bytes option" where
  "clashes pre own key val clash =
     (if \<not> hasPrefix pre key then (False, clash)
      else if drop (length pre) key = own then (True, clash)
      else (False, Some key))"

fun checkUnique :: "spec \<Rightarrow> bytes \<Rightarrow> entry list \<Rightarrow> unit on_tree" where
  "checkUnique s pk [] = ret ()"
| "checkUnique s pk (a # additions) =
     (if \<not> i_unique (e_index a) then checkUnique s pk additions
      else let pre = take (e_prefix a) (e_key a) in
        bnd (treeAscend pre (clashes pre (drop (length (documents s)) pk)) None) (\<lambda>clash.
          if clash \<noteq> None then throw ErrDuplicate else checkUnique s pk additions))"

text \<open>The part of \<^verbatim>\<open>write\<close> that works on the tree of the document.\<close>

definition writeIn :: "doc codec \<Rightarrow> totals codec \<Rightarrow> spec \<Rightarrow> doc \<Rightarrow> gval \<Rightarrow> bytes \<Rightarrow> unit on_tree" where
  "writeIn jd jt s document key pk =
     bnd (read_doc jd pk) (\<lambda>previous.
       case entriesFor jd s document key of
         Inl e \<Rightarrow> throw e
       | Inr additions \<Rightarrow>
           bnd (checkUnique s pk additions) (\<lambda>_.
           bnd (case previous of
                  None \<Rightarrow> ret ()
                | Some d \<Rightarrow> (case entriesFor jd s d key of Inl e \<Rightarrow> throw e | Inr removals \<Rightarrow> deleteEntries removals)) (\<lambda>_.
             case Marshal jd document of
               None \<Rightarrow> throw ErrMarshal
             | Some encoded \<Rightarrow>
                 bnd (case previous of None \<Rightarrow> ret () | Some d \<Rightarrow> contribute jt s d (-1)) (\<lambda>_.
                 bnd (contribute jt s document 1) (\<lambda>_.
                 bnd (treePut pk encoded) (\<lambda>_.
                 putEntries additions))))))"

text \<open>The part of \<^verbatim>\<open>remove\<close> that works on the tree of the document; it reports whether there was one.\<close>

definition removeIn :: "doc codec \<Rightarrow> totals codec \<Rightarrow> spec \<Rightarrow> gval \<Rightarrow> bytes \<Rightarrow> bool on_tree" where
  "removeIn jd jt s key pk =
     bnd (read_doc jd pk) (\<lambda>found.
       case found of
         None \<Rightarrow> ret False
       | Some d \<Rightarrow>
           (case entriesFor jd s d key of
              Inl e \<Rightarrow> throw e
            | Inr removals \<Rightarrow>
                bnd (deleteEntries removals) (\<lambda>_.
                bnd (contribute jt s d (-1)) (\<lambda>_.
                bnd (treeDelete pk) (\<lambda>_. ret True)))))"

section \<open>Building and dropping an index\<close>

text \<open>
  The visitor of \<^verbatim>\<open>buildIndexIn\<close>, which ends the walk at the end of the documents, or at one it cannot read or
  describe. The key of a document is what it has under the path of the primary key, or nothing.
\<close>

definition collects :: "doc codec \<Rightarrow> spec \<Rightarrow> index_decl \<Rightarrow> bytes \<Rightarrow> bytes \<Rightarrow> entry list \<Rightarrow> bool \<times> entry list" where
  "collects jd s x key val made =
     (if \<not> hasPrefix (documents s) key then (False, made)
      else (case Unmarshal jd val of
              None \<Rightarrow> (False, made)
            | Some d \<Rightarrow>
                (case entriesForIndex jd s d (case fmlookup d (k_path (s_key s)) of None \<Rightarrow> GKey VNil | Some v \<Rightarrow> v) x of
                   Inl e \<Rightarrow> (False, made)
                 | Inr es \<Rightarrow> (True, made @ es))))"

fun fillIndex :: "spec \<Rightarrow> index_decl \<Rightarrow> entry list \<Rightarrow> unit on_tree" where
  "fillIndex s x [] = ret ()"
| "fillIndex s x (e # es) =
     bnd (if i_unique x then checkUnique s (documents s @ drop (e_prefix e) (e_key e)) [e] else ret ()) (\<lambda>_.
     bnd (treePut (e_key e) (e_value e)) (\<lambda>_. fillIndex s x es))"

definition buildIndexIn :: "doc codec \<Rightarrow> spec \<Rightarrow> index_decl \<Rightarrow> unit on_tree" where
  "buildIndexIn jd s x = bnd (treeAscend (documents s) (collects jd s x) []) (\<lambda>made. fillIndex s x made)"

definition underPrefix :: "bytes \<Rightarrow> bytes \<Rightarrow> bytes \<Rightarrow> bytes list \<Rightarrow> bool \<times> bytes list" where
  "underPrefix pre key val doomed = (if \<not> hasPrefix pre key then (False, doomed) else (True, doomed @ [key]))"

fun deleteKeys :: "bytes list \<Rightarrow> unit on_tree" where
  "deleteKeys [] = ret ()"
| "deleteKeys (k # ks) = bnd (treeDelete k) (\<lambda>_. deleteKeys ks)"

definition deleteRange :: "bytes \<Rightarrow> unit on_tree" where
  "deleteRange pre = bnd (treeAscend pre (underPrefix pre) []) deleteKeys"

text \<open>\<^verbatim>\<open>dropIndex\<close>, in one of the trees of the collection.\<close>

definition dropIndexIn :: "spec \<Rightarrow> index_decl \<Rightarrow> unit on_tree" where
  "dropIndexIn s x = deleteRange (entries s x)"

text \<open>The visitor of \<^verbatim>\<open>buildRollup\<close>, and the loop over the documents it collected.\<close>

definition gathers :: "doc codec \<Rightarrow> bytes \<Rightarrow> bytes \<Rightarrow> bytes \<Rightarrow> doc list \<Rightarrow> bool \<times> doc list" where
  "gathers jd pre key val ds =
     (if \<not> hasPrefix pre key then (False, ds)
      else (case Unmarshal jd val of None \<Rightarrow> (False, ds) | Some d \<Rightarrow> (True, ds @ [d])))"

fun contributeDocs :: "totals codec \<Rightarrow> spec \<Rightarrow> doc list \<Rightarrow> unit on_tree" where
  "contributeDocs jt s [] = ret ()"
| "contributeDocs jt s (d # ds) = bnd (contribute jt s d 1) (\<lambda>_. contributeDocs jt s ds)"

definition buildRollup :: "doc codec \<Rightarrow> totals codec \<Rightarrow> spec \<Rightarrow> rollup_decl \<Rightarrow> unit on_tree" where
  "buildRollup jd jt s r =
     bnd (treeAscend (documents s) (gathers jd (documents s)) []) (contributeDocs jt (s\<lparr>s_rollups := [r]\<rparr>))"

end
