(* ===== verification/Store_View.thy ===== *)
theory Store_View
  imports Store_Collection
begin

text \<open>
  The tree as the store sees it: a finite map from keys to values. \<open>does f m Q\<close> is the triple the proofs
  about the store are made of: from a tree that holds the map, the operation either fails or leaves a
  tree that holds a map for which \<open>Q\<close> holds of the result.
\<close>

section \<open>A tree that holds a map\<close>

type_synonym view = "bytes \<Rightarrow> bytes option"

definition holding :: "tree \<Rightarrow> view \<Rightarrow> bool" where
  "holding t m \<longleftrightarrow> (\<exists>F kvs. holds_map t F kvs \<and> map_of kvs = m)"

definition limited :: "tree \<Rightarrow> bool" where
  "limited t \<longleftrightarrow> pageLimit (pages t)"

definition backs :: "'a on_tree \<Rightarrow> bool" where
  "backs f \<longleftrightarrow> (\<forall>t r t'. f t = (r, t') \<longrightarrow> limited t' \<longrightarrow> limited t)"

named_theorems back_rules "operations that only ever take more pages"

lemma backsD: "backs f \<Longrightarrow> f t = (r, t') \<Longrightarrow> limited t' \<Longrightarrow> limited t"
  unfolding backs_def by blast

lemma backs_tree [back_rules]: "backs (treeGet k)" "backs (treePut k v)" "backs (treeDelete k)" "backs (treeAscend k visit s)"
  unfolding backs_def treeGet_def treePut_def treeDelete_def treeAscend_def onTree_def limited_def
  by (auto split: prod.splits sum.splits dest: tree.limited_store tree.limited_drop)

lemma backs_base [back_rules]: "backs (ret a)" "backs (throw e)"
  by (simp_all add: backs_def)

lemma backs_bnd [back_rules]: "backs f \<Longrightarrow> (\<And>a. backs (g a)) \<Longrightarrow> backs (bnd f g)"
  unfolding backs_def bnd_def by (auto split: prod.splits sum.splits)

lemma backs_cases [back_rules]:
  "(b \<Longrightarrow> backs f) \<Longrightarrow> (\<not> b \<Longrightarrow> backs g) \<Longrightarrow> backs (if b then f else g)"
  "(z = None \<Longrightarrow> backs f) \<Longrightarrow> (\<And>a. z = Some a \<Longrightarrow> backs (h a)) \<Longrightarrow> backs (case z of None \<Rightarrow> f | Some a \<Rightarrow> h a)"
  "(\<And>e. w = Inl e \<Longrightarrow> backs (k e)) \<Longrightarrow> (\<And>a. w = Inr a \<Longrightarrow> backs (l a)) \<Longrightarrow> backs (case w of Inl e \<Rightarrow> k e | Inr a \<Rightarrow> l a)"
  by (auto split: option.splits sum.splits)

section \<open>Triples\<close>

definition does :: "'a on_tree \<Rightarrow> view \<Rightarrow> ('a \<Rightarrow> view \<Rightarrow> bool) \<Rightarrow> bool" where
  "does f m Q \<longleftrightarrow> (\<forall>t a t'. holding t m \<longrightarrow> f t = (Inr a, t') \<longrightarrow> limited t' \<longrightarrow> (\<exists>m'. holding t' m' \<and> Q a m'))"

named_theorems does_rules "what the operations on a tree do to the map it holds"

lemma doesD: "does f m Q \<Longrightarrow> holding t m \<Longrightarrow> f t = (Inr a, t') \<Longrightarrow> limited t' \<Longrightarrow> \<exists>m'. holding t' m' \<and> Q a m'"
  unfolding does_def by blast

lemma does_weaken: "does f m Q \<Longrightarrow> (\<And>a m'. Q a m' \<Longrightarrow> R a m') \<Longrightarrow> does f m R"
  unfolding does_def by blast

lemma does_ret [does_rules]: "Q a m \<Longrightarrow> does (ret a) m Q"
  by (auto simp: does_def)

lemma does_throw [does_rules]: "does (throw e) m Q"
  by (simp add: does_def)

lemma does_bnd:
  assumes "does f m Q" "\<And>a. backs (g a)" "\<And>a m'. Q a m' \<Longrightarrow> does (g a) m' R"
  shows "does (bnd f g) m R"
  unfolding does_def
proof (intro allI impI)
  fix t b t' assume h: "holding t m" and r: "bnd f g t = (Inr b, t')" and l: "limited t'"
  from r obtain a s where s: "f t = (Inr a, s)" "g a s = (Inr b, t')" by (rule bnd_InrE)
  have "limited s" by (rule backsD [OF assms(2) s(2) l])
  with doesD [OF assms(1) h s(1)] obtain m' where "holding s m'" "Q a m'" by blast
  with doesD [OF assms(3) _ s(2) l] show "\<exists>m'. holding t' m' \<and> R b m'" by blast
qed

lemma map_of_filter_keys: "map_of (filter (\<lambda>p. P (fst p)) kvs) x = (if P x then map_of kvs x else None)"
  by (induction kvs) auto

lemma map_of_put_kv: "map_of (put_kv k v kvs) = (map_of kvs)(k \<mapsto> v)"
proof
  fix x
  show "map_of (put_kv k v kvs) x = ((map_of kvs)(k \<mapsto> v)) x"
    using map_of_filter_keys [of "\<lambda>a. a < k" kvs] map_of_filter_keys [of "\<lambda>a. k < a" kvs]
    by (cases k x rule: linorder_cases) (auto simp: put_kv_def map_add_def split: option.splits)
qed

lemma map_of_del_kv: "map_of (del_kv k kvs) = (map_of kvs)(k := None)"
  by (induction kvs) (auto simp: del_kv_def fun_eq_iff)

lemma tree_result:
  "Put k v t = (Inr u, t') \<Longrightarrow> change_ok (PutC k v)" "Delete k t = (Inr b, t') \<Longrightarrow> change_ok (DelC k)"
  "Get t k = Inr w \<Longrightarrow> checkKey k = Inr ()"
  by (auto simp: Put_putEntry Delete_def Get_def split: sum.splits if_splits)

lemma does_treeGet [does_rules]: "Q (m k) m \<Longrightarrow> does (treeGet k) m Q"
  unfolding does_def holding_def treeGet_def
  using tree_result(3) tree.fetch_spec by (fastforce split: sum.splits)

lemma does_treePut [does_rules]: "Q () (m(k \<mapsto> v)) \<Longrightarrow> does (treePut k v) m Q"
  unfolding does_def
proof (intro allI impI)
  fix t a t' assume q: "Q () (m(k \<mapsto> v))" and h: "holding t m" and r: "treePut k v t = (Inr a, t')" and l: "limited t'"
  from h obtain F kvs where k: "holds_map t F kvs" "map_of kvs = m" by (auto simp: holding_def)
  have p: "Put k v t = (Inr (), t')" using r by (auto simp: treePut_def onTree_def split: prod.splits sum.splits)
  from tree.store_holds [OF k(1) tree_result(1) [OF p] p] l have "holds_map t' F (put_kv k v kvs)" by (simp add: limited_def)
  then have "holding t' (m(k \<mapsto> v))" using k(2) map_of_put_kv [of k v kvs] by (auto simp: holding_def)
  with q show "\<exists>m'. holding t' m' \<and> Q a m'" by (cases a) auto
qed

lemma does_treeDelete [does_rules]: "Q (k \<in> dom m) (m(k := None)) \<Longrightarrow> does (treeDelete k) m Q"
  unfolding does_def
proof (intro allI impI)
  fix t a t' assume q: "Q (k \<in> dom m) (m(k := None))" and h: "holding t m" and r: "treeDelete k t = (Inr a, t')" and l: "limited t'"
  from h obtain F kvs where k: "holds_map t F kvs" "map_of kvs = m" by (auto simp: holding_def)
  have p: "Delete k t = (Inr a, t')" using r by (auto simp: treeDelete_def onTree_def split: prod.splits sum.splits)
  from tree.drop_holds [OF k(1) tree_result(2) [OF p] p] l have "holds_map t' F (del_kv k kvs)" "a \<longleftrightarrow> k \<in> fst ` set kvs"
    by (simp_all add: limited_def)
  moreover from this have "holding t' (m(k := None))" using k(2) map_of_del_kv [of k kvs] by (auto simp: holding_def)
  ultimately show "\<exists>m'. holding t' m' \<and> Q a m'" using q k(2) by (auto simp: dom_map_of_conv_image_fst)
qed

lemma Ascend_visited: "holds_map t F kvs \<Longrightarrow> Ascend t from visit s = (Inr (), visited visit (from_kv from kvs) s)"
  using visitAll_visited [of visit "from_kv from kvs" s] by (auto simp: Ascend_spec bnd_def)

lemma does_treeAscend [does_rules]:
  "(\<And>kvs. sorted_wrt (<) (map fst kvs) \<Longrightarrow> map_of kvs = m \<Longrightarrow> Q (visited visit (from_kv (Some k) kvs) s) m) \<Longrightarrow>
     does (treeAscend k visit s) m Q"
  unfolding does_def holding_def treeAscend_def using holds_map_sorted by (fastforce simp: Ascend_visited)

lemma does_cases [does_rules]:
  "(b \<Longrightarrow> does f m Q) \<Longrightarrow> (\<not> b \<Longrightarrow> does g m Q) \<Longrightarrow> does (if b then f else g) m Q"
  "(z = None \<Longrightarrow> does f m Q) \<Longrightarrow> (\<And>a. z = Some a \<Longrightarrow> does (h a) m Q) \<Longrightarrow> does (case z of None \<Rightarrow> f | Some a \<Rightarrow> h a) m Q"
  "(\<And>e. w = Inl e \<Longrightarrow> does (k e) m Q) \<Longrightarrow> (\<And>a. w = Inr a \<Longrightarrow> does (l a) m Q) \<Longrightarrow> does (case w of Inl e \<Rightarrow> k e | Inr a \<Rightarrow> l a) m Q"
  by (auto split: option.splits sum.splits)

lemma backs_loops [back_rules]:
  "backs (read_doc jd k)" "backs (deleteEntries es)" "backs (putEntries es)" "backs (checkUnique s k es)"
  "backs (contributeOne jt s d n r)" "backs (contributeAll jt s d n rs)" "backs (contribute jt s d n)" "backs (deleteKeys ks)"
proof -
  show r: "backs (read_doc jd k)" unfolding read_doc_def by (intro back_rules)
  show "backs (deleteEntries es)" by (induction es) (simp_all only: deleteEntries.simps back_rules)
  show "backs (putEntries es)" by (induction es) (simp_all only: putEntries.simps back_rules)
  show "backs (checkUnique s k es)" by (induction es) (simp_all only: checkUnique.simps Let_def back_rules)
  show c: "backs (contributeOne jt s d n r)" for r unfolding contributeOne_def Let_def by (intro back_rules)
  show a: "backs (contributeAll jt s d n rs)" for rs by (induction rs) (simp_all only: contributeAll.simps back_rules c)
  show "backs (contribute jt s d n)" unfolding contribute_def by (rule a)
  show "backs (deleteKeys ks)" by (induction ks) (simp_all only: deleteKeys.simps back_rules)
qed

end
