(* ===== verification/Store_Entries.thy ===== *)
theory Store_Entries
  imports Store_View
begin

text \<open>
  What the entries of a document are: their keys name the index, the values of its fields and the
  document they belong to, so that no two documents ever share an entry.
\<close>

section \<open>Keys that extend a prefix\<close>

lemma encode_dst: "encode dst v m = (case encode [] v m of Inl e \<Rightarrow> Inl e | Inr c \<Rightarrow> Inr (dst @ c))"
  by (cases v) (auto simp: encodeNumber_def encodeInteger_def encodeString_def Let_def split: missing.splits)

lemma Encode_dst: "Encode dst v f = (case Encode [] v f of Inl e \<Rightarrow> Inl e | Inr c \<Rightarrow> Inr (dst @ c))"
  unfolding Encode_def encode_dst [of dst] by (auto split: sum.splits)

lemma encodeValues_append:
  "encodeValues dst vs fs = Inr out \<Longrightarrow> length vs = length fs \<Longrightarrow>
     list_all2 key_ok (map encoding fs) (map canon vs) \<and> out = dst @ keyc.enc_all (map encoding fs) (map canon vs)"
proof (induction dst vs fs rule: encodeValues.induct)
  case (1 key v vs f fs)
  then obtain mid where "Encode key v (encoding f) = Inr mid" "encodeValues mid vs fs = Inr out" by (auto split: sum.splits)
  with 1 show ?case by (auto dest!: Encode_append)
qed auto

lemma entryKey_parts:
  assumes "entryKey s x vs key = Inr (full, n)" "length vs = length (i_fields x)"
  obtains ws c where "full = entries s x @ keyc.enc_all (map encoding (i_fields x)) ws @ c"
    "n = length (entries s x @ keyc.enc_all (map encoding (i_fields x)) ws)" "list_all2 key_ok (map encoding (i_fields x)) ws"
    "Encode [] (keyOf key) plainField = Inr c"
proof -
  from assms(1) obtain enc where e: "encodeValues (entries s x) (map keyOf vs) (i_fields x) = Inr enc"
    "Encode enc (keyOf key) plainField = Inr full" "n = length enc"
    by (auto simp: entryKey_def split: sum.splits)
  obtain c where "Encode [] (keyOf key) plainField = Inr c" "full = enc @ c"
    using e(2) by (subst (asm) Encode_dst) (auto split: sum.splits)
  with encodeValues_append [OF e(1)] e(3) assms(2) show thesis by (intro that) auto
qed

lemma entryKey_suffix:
  assumes "entryKey s x vs key = Inr (full, n)" "length vs = length (i_fields x)" "encodeKey s key = Inr pk"
  shows "hasPrefix (entries s x) full" "documents s @ drop n full = pk" "n \<le> length full" "length (entries s x) \<le> n"
proof -
  obtain ws c where p: "full = entries s x @ keyc.enc_all (map encoding (i_fields x)) ws @ c"
    "n = length (entries s x @ keyc.enc_all (map encoding (i_fields x)) ws)" "list_all2 key_ok (map encoding (i_fields x)) ws"
    "Encode [] (keyOf key) plainField = Inr c"
    by (rule entryKey_parts [OF assms(1,2)])
  have "Encode (documents s) (keyOf key) plainField = Inr pk"
    using assms(3) by (auto simp: encodeKey_def split: sum.splits if_splits)
  then have "pk = documents s @ c" using p(4) by (subst (asm) Encode_dst) simp
  with p show "hasPrefix (entries s x) full" "documents s @ drop n full = pk" "n \<le> length full" "length (entries s x) \<le> n"
    by (auto simp: hasPrefix_append)
qed

text \<open>The bytes of an entry determine where its primary key starts.\<close>

lemma entryKey_split:
  assumes "entryKey s x vs key = Inr (full, n)" "length vs = length (i_fields x)"
    and "entryKey s x vs' key' = Inr (full, n')" "length vs' = length (i_fields x)"
  shows "n = n'"
proof -
  let ?fs = "map encoding (i_fields x)"
  obtain ws c where p: "full = entries s x @ keyc.enc_all ?fs ws @ c"
    "n = length (entries s x @ keyc.enc_all ?fs ws)" "list_all2 key_ok ?fs ws" "Encode [] (keyOf key) plainField = Inr c"
    by (rule entryKey_parts [OF assms(1,2)])
  obtain ws' c' where p': "full = entries s x @ keyc.enc_all ?fs ws' @ c'"
    "n' = length (entries s x @ keyc.enc_all ?fs ws')" "list_all2 key_ok ?fs ws'" "Encode [] (keyOf key') plainField = Inr c'"
    by (rule entryKey_parts [OF assms(3,4)])
  have e: "keyc.enc_all ?fs ws @ c = keyc.enc_all ?fs ws' @ c'" using p(1) p'(1) by simp
  have "Some (ws, c) = keyc.dec_all ?fs (keyc.enc_all ?fs ws @ c)" by (rule keyc.dec_all_enc_all [OF p(3), symmetric])
  also have "\<dots> = Some (ws', c')" unfolding e by (rule keyc.dec_all_enc_all [OF p'(3)])
  finally have "ws = ws'" by simp
  with p(2) p'(2) show ?thesis by simp
qed

section \<open>The entries of one document\<close>

definition entry_at :: "spec \<Rightarrow> gval \<Rightarrow> entry \<Rightarrow> bool" where
  "entry_at s key e \<longleftrightarrow> e_index e \<in> set (s_indexes s) \<and>
     (\<exists>vs. length vs = length (i_fields (e_index e)) \<and> entryKey s (e_index e) vs key = Inr (e_key e, e_prefix e))"

lemma fieldValues_length: "fieldValues d a i fs = Inr (Some (vs, spread)) \<Longrightarrow> length vs = length fs"
  by (induction fs arbitrary: i vs spread) (auto split: option.splits sum.splits if_splits)

lemma entriesOf_at:
  "entriesOf s x carried key vs spread had els = Inr es \<Longrightarrow> length vs = length (i_fields x) \<Longrightarrow>
     (\<forall>e \<in> set es. e_index e = x \<and> e_value e = carried
        \<and> (\<exists>ws. length ws = length (i_fields x) \<and> entryKey s x ws key = Inr (e_key e, e_prefix e)))
     \<and> distinct (map e_key es) \<and> e_key ` set es \<inter> had = {}"
proof (induction els arbitrary: had es)
  case (Cons el els)
  let ?ws = "case spread of None \<Rightarrow> vs | Some i \<Rightarrow> vs[i := el]"
  from Cons.prems(1) obtain full n where k: "entryKey s x ?ws key = Inr (full, n)" by (auto split: sum.splits)
  have l: "length ?ws = length (i_fields x)" using Cons.prems(2) by (simp split: option.splits)
  show ?case
  proof (cases "full \<in> had")
    case True
    with Cons.prems k have "entriesOf s x carried key vs spread had els = Inr es" by simp
    from Cons.IH [OF this Cons.prems(2)] show ?thesis .
  next
    case False
    with Cons.prems k obtain made where m: "entriesOf s x carried key vs spread (insert full had) els = Inr made"
      "es = \<lparr>e_key = full, e_value = carried, e_index = x, e_prefix = n\<rparr> # made" by (auto split: sum.splits)
    from Cons.IH [OF m(1) Cons.prems(2)] m(2) k l False show ?thesis by auto
  qed
qed simp

lemma entriesForIndex_at:
  assumes "entriesForIndex jd s d key x = Inr es" "x \<in> set (s_indexes s)"
  shows "\<forall>e \<in> set es. e_index e = x \<and> entry_at s key e" "distinct (map e_key es)"
proof -
  have "(\<forall>e \<in> set es. e_index e = x \<and> (\<exists>ws. length ws = length (i_fields x) \<and> entryKey s x ws key = Inr (e_key e, e_prefix e)))
      \<and> distinct (map e_key es)"
    using assms(1) entriesOf_at fieldValues_length
    by (fastforce simp: entriesForIndex_def Let_def split: sum.splits option.splits if_splits)
  with assms(2) show "\<forall>e \<in> set es. e_index e = x \<and> entry_at s key e" "distinct (map e_key es)" by (auto simp: entry_at_def)
qed

lemma hasPrefix_same: "hasPrefix a k \<Longrightarrow> hasPrefix b k \<Longrightarrow> length a = length b \<Longrightarrow> a = b"
  by (simp add: hasPrefix_def)

lemma be_id: "be 2 (unat a) = be 2 (unat b) \<Longrightarrow> a = (b :: 16 word)" "be 4 (unat c) = be 4 (unat d) \<Longrightarrow> c = (d :: 32 word)"
proof -
  have "unat a < 256 ^ 2" "unat b < 256 ^ 2" "unat c < 256 ^ 4" "unat d < 256 ^ 4"
    using unsigned_less [of a] unsigned_less [of b] unsigned_less [of c] unsigned_less [of d] by simp_all
  then show "be 2 (unat a) = be 2 (unat b) \<Longrightarrow> a = b" "be 4 (unat c) = be 4 (unat d) \<Longrightarrow> c = d"
    by (metis unbe_be_small word_unat_eq_iff)+
qed

lemma entries_id: "hasPrefix (entries s x) k \<Longrightarrow> hasPrefix (entries s y) k \<Longrightarrow> i_id x = i_id y"
  using hasPrefix_same [of "entries s x" k "entries s y"] by (simp add: entries_def be_id(1))

text \<open>An entry belongs to one document, at the key its last component says.\<close>

lemma entry_owner:
  assumes "entry_at s key e" "entry_at s key' e'" "e_key e = e_key e'" "distinct (map i_id (s_indexes s))"
    and "encodeKey s key = Inr pk" "encodeKey s key' = Inr pk'"
  shows "pk = pk'" "e_index e = e_index e'" "e_prefix e = e_prefix e'"
proof -
  from assms(1) obtain vs where v: "e_index e \<in> set (s_indexes s)" "length vs = length (i_fields (e_index e))"
    "entryKey s (e_index e) vs key = Inr (e_key e, e_prefix e)" by (auto simp: entry_at_def)
  from assms(2) obtain ws where w: "e_index e' \<in> set (s_indexes s)" "length ws = length (i_fields (e_index e'))"
    "entryKey s (e_index e') ws key' = Inr (e_key e', e_prefix e')" by (auto simp: entry_at_def)
  note sv = entryKey_suffix [OF v(3,2) assms(5)] and sw = entryKey_suffix [OF w(3,2) assms(6)]
  have "i_id (e_index e) = i_id (e_index e')" using entries_id sv(1) sw(1) assms(3) by metis
  then show i: "e_index e = e_index e'" using v(1) w(1) assms(4) by (auto simp: distinct_map dest: inj_onD)
  show n: "e_prefix e = e_prefix e'" using entryKey_split [of s "e_index e" vs key] v w i assms(3) by auto
  show "pk = pk'" using sv(2) sw(2) assms(3) n by simp
qed

lemma entriesForAll_at:
  assumes "entriesForAll jd s d key xs = Inr es" "set xs \<subseteq> set (s_indexes s)" "distinct xs"
    and "distinct (map i_id (s_indexes s))" "encodeKey s key = Inr pk"
  shows "(\<forall>e \<in> set es. e_index e \<in> set xs \<and> entry_at s key e) \<and> distinct (map e_key es)"
  using assms(1-3)
proof (induction xs arbitrary: es)
  case (Cons x xs)
  then obtain made all where m: "entriesForIndex jd s d key x = Inr made" "entriesForAll jd s d key xs = Inr all" "es = made @ all"
    by (auto split: sum.splits)
  from Cons have ih: "\<forall>e \<in> set all. e_index e \<in> set xs \<and> entry_at s key e" "distinct (map e_key all)" using m(2) by auto
  have x: "\<forall>e \<in> set made. e_index e = x \<and> entry_at s key e" "distinct (map e_key made)"
    using entriesForIndex_at [OF m(1)] Cons.prems(2) by auto
  have "e_key e \<noteq> e_key e'" if "e \<in> set made" "e' \<in> set all" for e e'
    using that x(1) ih(1) entry_owner(2) [OF _ _ _ assms(4,5,5)] Cons.prems(3) by (metis distinct.simps(2))
  with x ih m(3) show ?case by auto
qed simp

lemma entriesFor_at:
  assumes "entriesFor jd s d key = Inr es" "distinct (map i_id (s_indexes s))" "encodeKey s key = Inr pk"
  shows "\<forall>e \<in> set es. entry_at s key e" "distinct (map e_key es)"
  using entriesForAll_at [OF assms(1) [unfolded entriesFor_def] subset_refl _ assms(2,3)] assms(2) by (auto simp: distinct_map)

text \<open>The entries depend on the key only through the bytes it is stored at.\<close>

lemma entriesFor_key:
  assumes "encodeKey s key = Inr pk" "encodeKey s key' = Inr pk"
  shows "entriesFor jd s d key = entriesFor jd s d key'"
proof -
  have e: "Encode dst (keyOf key) plainField = Encode dst (keyOf key') plainField" for dst
    using assms Encode_dst [of "documents s" "keyOf key" plainField] Encode_dst [of "documents s" "keyOf key'" plainField]
      Encode_dst [of dst "keyOf key" plainField] Encode_dst [of dst "keyOf key'" plainField]
    by (auto simp: encodeKey_def split: sum.splits if_splits)
  have k: "entryKey s x vs key = entryKey s x vs key'" for x vs by (auto simp: entryKey_def e split: sum.splits)
  have o: "entriesOf s x c key vs sp had els = entriesOf s x c key' vs sp had els" for x c vs sp had els
    by (induction els arbitrary: had) (auto simp: k split: sum.splits)
  have "entriesForIndex jd s d key x = entriesForIndex jd s d key' x" for x unfolding entriesForIndex_def o ..
  then have "entriesForAll jd s d key xs = entriesForAll jd s d key' xs" for xs by (induction xs) (auto split: sum.splits)
  then show ?thesis by (simp add: entriesFor_def)
qed

end
