(* ===== verification/Store_Index.thy ===== *)
theory Store_Index
  imports Store_Entries
begin

text \<open>
  Indexes and documents agree (\<^verbatim>\<open>internal/store/collection.go\<close>): the entries in a tree are exactly those of the
  documents in it, before and after every write and every removal.
\<close>

section \<open>What the loops do to the map\<close>

definition entry_map :: "entry list \<Rightarrow> view" where
  "entry_map es = map_of (map (\<lambda>e. (e_key e, e_value e)) es)"

lemma dom_entry_map: "dom (entry_map es) = e_key ` set es"
  by (simp add: entry_map_def dom_map_of_conv_image_fst image_image)

lemma entry_map_None: "k \<notin> e_key ` set es \<Longrightarrow> entry_map es k = None"
  by (metis domIff dom_entry_map)

lemma entry_map_Some: "distinct (map e_key es) \<Longrightarrow> entry_map es k = Some v \<longleftrightarrow> (\<exists>e \<in> set es. e_key e = k \<and> e_value e = v)"
  by (auto simp: entry_map_def map_of_eq_Some_iff comp_def)

lemma does_read_doc [does_rules]:
  "(\<And>r. (case m k of None \<Rightarrow> r = None | Some b \<Rightarrow> \<exists>d. Unmarshal jd b = Some d \<and> r = Some d) \<Longrightarrow> Q r m) \<Longrightarrow> does (read_doc jd k) m Q"
  unfolding read_doc_def
  by (rule does_bnd [where Q = "\<lambda>r m'. r = m k \<and> m' = m"]) (auto intro!: does_rules back_rules)

lemma does_deleteEntries: "does (deleteEntries es) m (\<lambda>_ m'. m' = (\<lambda>k. if k \<in> e_key ` set es then None else m k))"
proof (induction es arbitrary: m)
  case Nil
  show ?case unfolding deleteEntries.simps by (rule does_ret) simp
next
  case (Cons e es)
  show ?case unfolding deleteEntries.simps
    by (rule does_bnd [where Q = "\<lambda>_ m'. m' = m(e_key e := None)"])
      (auto intro!: does_rules back_rules does_weaken [OF Cons])
qed

lemma does_putEntries: "does (putEntries es) m (\<lambda>_ m'. distinct (map e_key es) \<longrightarrow> m' = m ++ entry_map es)"
proof (induction es arbitrary: m)
  case Nil
  show ?case unfolding putEntries.simps by (rule does_ret) (simp add: entry_map_def)
next
  case (Cons e es)
  have c: "distinct (map e_key (e # es)) \<Longrightarrow> m(e_key e \<mapsto> e_value e) ++ entry_map es = m ++ entry_map (e # es)"
    using dom_entry_map [of es] by (auto simp: entry_map_def map_add_def fun_eq_iff split: option.splits)
  show ?case unfolding putEntries.simps
    by (rule does_bnd [where Q = "\<lambda>_ m'. m' = m(e_key e \<mapsto> e_value e)"])
      (use c in \<open>auto intro!: does_rules back_rules does_weaken [OF Cons]\<close>)
qed

text \<open>A walk that stops where a prefix ends visits what has the prefix.\<close>

lemma visited_takeWhile:
  "(\<And>k v s. \<not> P (k, v) \<Longrightarrow> visit k v s = (False, s)) \<Longrightarrow> visited visit kvs s = visited visit (takeWhile P kvs) s"
  by (induction visit kvs s rule: visited.induct) (auto split: prod.splits)

lemma prefix_walk:
  assumes "sorted_wrt (<) (map fst kvs)" "\<And>k v s. \<not> hasPrefix pre k \<Longrightarrow> visit k v s = (False, s)"
  shows "visited visit (from_kv (Some pre) kvs) s = visited visit (filter (\<lambda>kv. hasPrefix pre (fst kv)) kvs) s"
proof -
  let ?P = "\<lambda>kv :: bytes \<times> bytes. hasPrefix pre (fst kv)" and ?xs = "filter (\<lambda>p. pre \<le> fst p) kvs"
  have down: "hasPrefix pre a" if "pre \<le> a" "a < b" "hasPrefix pre b" for a b
    using that between_successor [of pre a] between_successor [of pre b] by (auto split: option.splits)
  have "sorted_wrt (\<lambda>a b. fst a < fst b) ?xs" using assms(1) by (simp add: sorted_wrt_map sorted_wrt_filter)
  then have "sorted_wrt (\<lambda>a b. ?P b \<longrightarrow> ?P a) ?xs" by (rule sorted_wrt_mono_rel [rotated]) (use down in auto)
  then have "takeWhile ?P ?xs = filter ?P ?xs" by (rule takeWhile_filter_sorted)
  also have "\<dots> = filter ?P kvs" by (auto intro!: filter_cong dest: prefix_le)
  finally show ?thesis
    using visited_takeWhile [of ?P visit ?xs s] assms(2) by (simp add: from_kv_def)
qed

lemma visited_clashes:
  "visited (clashes pre own) kvs c = None \<longleftrightarrow>
     c = None \<and> (\<forall>k \<in> fst ` set (takeWhile (\<lambda>kv. hasPrefix pre (fst kv)) kvs). drop (length pre) k = own)"
proof (induction kvs arbitrary: c)
  case (Cons kv kvs)
  obtain k v where kv: "kv = (k, v)" by (cases kv)
  show ?case
    by (cases "hasPrefix pre k"; cases "drop (length pre) k = own") (auto simp: kv clashes_def [of pre own k v] Cons.IH)
qed simp

definition free_for :: "view \<Rightarrow> spec \<Rightarrow> bytes \<Rightarrow> entry \<Rightarrow> bool" where
  "free_for m s pk a \<longleftrightarrow> (\<forall>k \<in> dom m. hasPrefix (take (e_prefix a) (e_key a)) k \<longrightarrow>
     drop (length (take (e_prefix a) (e_key a))) k = drop (length (documents s)) pk)"

lemma does_checkUnique:
  "does (checkUnique s pk es) m (\<lambda>_ m'. m' = m \<and> (\<forall>a \<in> set es. i_unique (e_index a) \<longrightarrow> free_for m s pk a))"
proof (induction es)
  case (Cons a es)
  let ?pre = "take (e_prefix a) (e_key a)" and ?own = "drop (length (documents s)) pk"
  have w: "visited (clashes ?pre ?own) (from_kv (Some ?pre) kvs) None = None \<Longrightarrow> free_for m s pk a"
    if s: "sorted_wrt (<) (map fst kvs)" and m: "map_of kvs = m" for kvs
  proof -
    assume "visited (clashes ?pre ?own) (from_kv (Some ?pre) kvs) None = None"
    then have "visited (clashes ?pre ?own) (filter (\<lambda>kv. hasPrefix ?pre (fst kv)) kvs) None = None"
      using prefix_walk [OF s, of ?pre "clashes ?pre ?own" None] by (simp add: clashes_def)
    then have "\<forall>k \<in> fst ` set (takeWhile (\<lambda>kv. hasPrefix ?pre (fst kv)) (filter (\<lambda>kv. hasPrefix ?pre (fst kv)) kvs)). drop (length ?pre) k = ?own"
      unfolding visited_clashes by (rule conjunct2)
    moreover have "takeWhile (\<lambda>kv. hasPrefix ?pre (fst kv)) (filter (\<lambda>kv. hasPrefix ?pre (fst kv)) kvs) = filter (\<lambda>kv. hasPrefix ?pre (fst kv)) kvs"
      by (simp add: takeWhile_eq_all_conv)
    ultimately have all: "\<forall>kv \<in> set kvs. hasPrefix ?pre (fst kv) \<longrightarrow> drop (length ?pre) (fst kv) = ?own" by (simp only: set_filter) blast
    have "dom m = fst ` set kvs" unfolding m [symmetric] by (rule dom_map_of_conv_image_fst)
    with all show ?thesis unfolding free_for_def by auto
  qed
  have rest: "does (checkUnique s pk es) m (\<lambda>_ m'. m' = m \<and> (\<forall>a \<in> set (a # es). i_unique (e_index a) \<longrightarrow> free_for m s pk a))"
    if "i_unique (e_index a) \<longrightarrow> free_for m s pk a"
    by (rule does_weaken [OF Cons]) (use that in auto)
  show ?case
  proof (cases "i_unique (e_index a)")
    case False
    with rest show ?thesis unfolding checkUnique.simps by simp
  next
    case True
    have "does (bnd (treeAscend ?pre (clashes ?pre ?own) None) (\<lambda>clash. if clash \<noteq> None then throw ErrDuplicate else checkUnique s pk es)) m
       (\<lambda>_ m'. m' = m \<and> (\<forall>a \<in> set (a # es). i_unique (e_index a) \<longrightarrow> free_for m s pk a))"
    proof (rule does_bnd [where Q = "\<lambda>c m'. m' = m \<and> (c = None \<longrightarrow> free_for m s pk a)"])
      show "does (treeAscend ?pre (clashes ?pre ?own) None) m (\<lambda>c m'. m' = m \<and> (c = None \<longrightarrow> free_for m s pk a))"
        using w by (auto intro: does_treeAscend)
      show "does (if c \<noteq> None then throw ErrDuplicate else checkUnique s pk es) m'
          (\<lambda>_ m'. m' = m \<and> (\<forall>a \<in> set (a # es). i_unique (e_index a) \<longrightarrow> free_for m s pk a))"
        if "m' = m \<and> (c = None \<longrightarrow> free_for m s pk a)" for c m'
        using that rest by (auto intro: does_throw)
    qed (intro back_rules)
    with True show ?thesis by (simp add: Let_def)
  qed
next
  case Nil
  show ?case unfolding checkUnique.simps by (rule does_ret) simp
qed

section \<open>What a contribution does to the map\<close>

text \<open>How many documents the row says it counts.\<close>

definition tally :: "totals codec \<Rightarrow> bytes option \<Rightarrow> int option" where
  "tally jt row = (case row of None \<Rightarrow> Some 0 | Some b \<Rightarrow> map_option t_count (Unmarshal jt b))"

definition row_moved :: "totals codec \<Rightarrow> int \<Rightarrow> bool \<Rightarrow> bytes option \<Rightarrow> bytes option \<Rightarrow> bool" where
  "row_moved jt sign hit row row' \<longleftrightarrow>
     (if hit then \<exists>n. tally jt row = Some n
        \<and> (n + sign \<le> 0 \<and> row' = None \<or> n + sign > 0 \<and> (\<exists>tot b. Marshal jt tot = Some b \<and> t_count tot = n + sign \<and> row' = Some b))
      else row' = row)"

definition moved :: "totals codec \<Rightarrow> spec \<Rightarrow> doc \<Rightarrow> int \<Rightarrow> rollup_decl \<Rightarrow> bytes \<Rightarrow> bytes option \<Rightarrow> bytes option \<Rightarrow> bool" where
  "moved jt s d sign r k row row' \<longleftrightarrow> (\<exists>g. groupKey s r d = Inr g \<and> row_moved jt sign (g = Some k) row row')"

definition in_rollups :: "spec \<Rightarrow> rollup_decl list \<Rightarrow> bytes \<Rightarrow> bool" where
  "in_rollups s rs k \<longleftrightarrow> (\<exists>r \<in> set rs. hasPrefix (rollups s r) k)"

lemma groupKey_prefix: "groupKey s r d = Inr (Some k) \<Longrightarrow> hasPrefix (rollups s r) k"
  by (auto simp: groupKey_def hasPrefix_append dest: EncodeKey_canon(2) split: sum.splits option.splits)

lemma count_addTotals: "t_count (addTotals sign added tot) = t_count tot + sign"
  by (simp add: addTotals_def)

lemma does_contributeOne: "does (contributeOne jt s d sign r) m (\<lambda>_ m'. \<forall>k. moved jt s d sign r k (m k) (m' k))"
proof (cases "groupKey s r d")
  case (Inr g)
  show ?thesis
  proof (cases g)
    case None
    with Inr show ?thesis unfolding contributeOne_def by (auto simp: moved_def row_moved_def intro!: does_rules)
  next
    case (Some key)
    define P :: "unit \<Rightarrow> view \<Rightarrow> bool" where "P = (\<lambda>_ m'. \<exists>n. tally jt (m key) = Some n \<and>
        (n + sign \<le> 0 \<and> m' = m(key := None) \<or> n + sign > 0 \<and> (\<exists>tot b. Marshal jt tot = Some b \<and> t_count tot = n + sign \<and> m' = m(key \<mapsto> b))))"
    have row: "does (if t_count (addTotals sign added tot) \<le> 0 then bnd (treeDelete key) (\<lambda>_. ret ())
        else (case Marshal jt (addTotals sign added tot) of None \<Rightarrow> throw ErrMarshal | Some encoded \<Rightarrow> treePut key encoded)) m P"
      if "tally jt (m key) = Some (t_count tot)" for added tot
    proof (intro does_cases does_throw)
      show "does (bnd (treeDelete key) (\<lambda>_. ret ())) m P" if "t_count (addTotals sign added tot) \<le> 0"
        using that \<open>tally jt (m key) = Some (t_count tot)\<close>
        by (intro does_bnd [where Q = "\<lambda>v m'. m' = m(key := None)"] does_rules back_rules) (simp_all add: count_addTotals P_def)
      show "does (treePut key encoded) m P" if "\<not> t_count (addTotals sign added tot) \<le> 0" "Marshal jt (addTotals sign added tot) = Some encoded" for encoded
        using that \<open>tally jt (m key) = Some (t_count tot)\<close>
        unfolding P_def by (intro does_treePut exI [of _ "t_count tot"]) (auto simp: count_addTotals intro: exI [of _ "addTotals sign added tot"])
    qed
    have c: "does (contributeOne jt s d sign r) m P"
      unfolding contributeOne_def Inr Some sum.case option.case Let_def
    proof (intro does_cases(3) does_throw does_bnd [where Q = "\<lambda>v m'. v = m key \<and> m' = m"] back_rules does_treeGet conjI refl)
      fix added v m' assume v: "v = m key \<and> m' = m"
      show "does (case case v of None \<Rightarrow> Some \<lparr>t_count = 0, t_sum = fmempty\<rparr> | Some b \<Rightarrow> Unmarshal jt b of None \<Rightarrow> throw ErrDamaged
          | Some tot \<Rightarrow> if t_count (addTotals sign added tot) \<le> 0 then bnd (treeDelete key) (\<lambda>_. ret ())
              else (case Marshal jt (addTotals sign added tot) of None \<Rightarrow> throw ErrMarshal | Some encoded \<Rightarrow> treePut key encoded)) m' P"
      proof (rule does_cases(2) [OF does_throw])
        fix tot assume "(case v of None \<Rightarrow> Some \<lparr>t_count = 0, t_sum = fmempty\<rparr> | Some b \<Rightarrow> Unmarshal jt b) = Some tot"
        with v have "tally jt (m key) = Some (t_count tot)" by (auto simp: tally_def split: option.splits)
        from row [OF this] v show "does (if t_count (addTotals sign added tot) \<le> 0 then bnd (treeDelete key) (\<lambda>_. ret ())
              else (case Marshal jt (addTotals sign added tot) of None \<Rightarrow> throw ErrMarshal | Some encoded \<Rightarrow> treePut key encoded)) m' P" by simp
      qed
    qed
    show ?thesis
      by (rule does_weaken [OF c]) (use Inr Some in \<open>auto simp: P_def moved_def row_moved_def\<close>)
  qed
qed (simp add: contributeOne_def does_throw)

lemma rollups_id: "hasPrefix (rollups s r) k \<Longrightarrow> hasPrefix (rollups s r') k \<Longrightarrow> r_id r = r_id r'"
  using hasPrefix_same [of "rollups s r" k "rollups s r'"] by (simp add: rollups_def be_id(1))

lemma does_contributeAll:
  "does (contributeAll jt s d sign rs) m (\<lambda>_ m'. (\<forall>k. \<not> in_rollups s rs k \<longrightarrow> m' k = m k)
     \<and> (distinct (map r_id rs) \<longrightarrow> (\<forall>r \<in> set rs. \<forall>k. hasPrefix (rollups s r) k \<longrightarrow> moved jt s d sign r k (m k) (m' k))))"
proof (induction rs arbitrary: m)
  case Nil
  show ?case unfolding contributeAll.simps by (rule does_ret) simp
next
  case (Cons r rs)
  have out: "m1 k = m k" if "\<forall>k. moved jt s d sign r k (m k) (m1 k)" "\<not> hasPrefix (rollups s r) k" for k m1
  proof -
    from that(1) obtain g where "groupKey s r d = Inr g" "row_moved jt sign (g = Some k) (m k) (m1 k)" unfolding moved_def by blast
    moreover from this have "g \<noteq> Some k" using groupKey_prefix that(2) by blast
    ultimately show ?thesis by (simp add: row_moved_def)
  qed
  have other: "\<not> in_rollups s rs k" if "r_id r \<notin> r_id ` set rs" "hasPrefix (rollups s r) k" for k
  proof
    assume "in_rollups s rs k"
    then obtain r' where "r' \<in> set rs" "hasPrefix (rollups s r') k" unfolding in_rollups_def by blast
    moreover from this have "r_id r = r_id r'" using rollups_id that(2) by blast
    ultimately show False using that(1) by simp
  qed
  show ?case unfolding contributeAll.simps
  proof (rule does_bnd [OF does_contributeOne])
    fix a m1 assume m1: "\<forall>k. moved jt s d sign r k (m k) (m1 k)"
    show "does (contributeAll jt s d sign rs) m1 (\<lambda>_ m'. (\<forall>k. \<not> in_rollups s (r # rs) k \<longrightarrow> m' k = m k)
     \<and> (distinct (map r_id (r # rs)) \<longrightarrow> (\<forall>r \<in> set (r # rs). \<forall>k. hasPrefix (rollups s r) k \<longrightarrow> moved jt s d sign r k (m k) (m' k))))"
    proof (rule does_weaken [OF Cons], intro conjI impI ballI allI)
      fix m' k assume m': "(\<forall>k. \<not> in_rollups s rs k \<longrightarrow> m' k = m1 k)
        \<and> (distinct (map r_id rs) \<longrightarrow> (\<forall>r \<in> set rs. \<forall>k. hasPrefix (rollups s r) k \<longrightarrow> moved jt s d sign r k (m1 k) (m' k)))"
      show "m' k = m k" if "\<not> in_rollups s (r # rs) k"
        using that m' out [OF m1, of k] by (simp add: in_rollups_def)
      fix r' assume d: "distinct (map r_id (r # rs))" and r': "r' \<in> set (r # rs)" and p: "hasPrefix (rollups s r') k"
      show "moved jt s d sign r' k (m k) (m' k)"
      proof (cases "r' = r")
        case True
        with d p other [of k] m' m1 show ?thesis by simp
      next
        case False
        with r' have "r' \<in> set rs" by simp
        moreover from this have "\<not> hasPrefix (rollups s r) k" using d p rollups_id [of s r k r'] by auto
        moreover have "distinct (map r_id rs)" using d by simp
        ultimately have "moved jt s d sign r' k (m1 k) (m' k)" "m1 k = m k" using p m' out [OF m1, of k] by blast+
        then show ?thesis by simp
      qed
    qed
  qed (intro back_rules)
qed

end
