(* ===== verification/Store_Consistent.thy ===== *)
theory Store_Consistent
  imports Store_Index
begin

text \<open>
  What writing and removing a document do to the map the tree holds, and the invariants they keep:
  the entries of the indexes are those of the documents, a unique index has one document per value, and
  the totals count the documents of their groups.
\<close>

section \<open>The effect of a write and of a removal\<close>

definition without :: "view \<Rightarrow> entry list \<Rightarrow> view" where
  "without m es = (\<lambda>k. if k \<in> e_key ` set es then None else m k)"

definition contributed :: "totals codec \<Rightarrow> spec \<Rightarrow> doc \<Rightarrow> int \<Rightarrow> view \<Rightarrow> view \<Rightarrow> bool" where
  "contributed jt s d sign m m' \<longleftrightarrow> (\<forall>k. \<not> in_rollups s (s_rollups s) k \<longrightarrow> m' k = m k)
     \<and> (distinct (map r_id (s_rollups s)) \<longrightarrow>
         (\<forall>r \<in> set (s_rollups s). \<forall>k. hasPrefix (rollups s r) k \<longrightarrow> moved jt s d sign r k (m k) (m' k)))"

definition previous :: "doc codec \<Rightarrow> spec \<Rightarrow> gval \<Rightarrow> bytes option \<Rightarrow> doc option \<Rightarrow> entry list \<Rightarrow> bool" where
  "previous jd s key v pd old \<longleftrightarrow>
     (case v of None \<Rightarrow> pd = None \<and> old = []
      | Some b \<Rightarrow> \<exists>d. Unmarshal jd b = Some d \<and> pd = Some d \<and> entriesFor jd s d key = Inr old)"

definition taken_out :: "totals codec \<Rightarrow> spec \<Rightarrow> doc option \<Rightarrow> view \<Rightarrow> view \<Rightarrow> bool" where
  "taken_out jt s pd m m' \<longleftrightarrow> (case pd of None \<Rightarrow> m' = m | Some d \<Rightarrow> contributed jt s d (-1) m m')"

definition written :: "doc codec \<Rightarrow> totals codec \<Rightarrow> spec \<Rightarrow> doc \<Rightarrow> gval \<Rightarrow> bytes \<Rightarrow> view \<Rightarrow> view \<Rightarrow> bool" where
  "written jd jt s document key pk m m' \<longleftrightarrow> (\<exists>b es pd old m1 m2.
     Marshal jd document = Some b \<and> entriesFor jd s document key = Inr es \<and> previous jd s key (m pk) pd old
     \<and> (\<forall>a \<in> set es. i_unique (e_index a) \<longrightarrow> free_for m s pk a)
     \<and> taken_out jt s pd (without m old) m1 \<and> contributed jt s document 1 m1 m2
     \<and> (distinct (map e_key es) \<longrightarrow> m' = m2(pk \<mapsto> b) ++ entry_map es))"

definition taken_away :: "doc codec \<Rightarrow> totals codec \<Rightarrow> spec \<Rightarrow> gval \<Rightarrow> bytes \<Rightarrow> bool \<Rightarrow> view \<Rightarrow> view \<Rightarrow> bool" where
  "taken_away jd jt s key pk found m m' \<longleftrightarrow> (\<exists>pd old m1. previous jd s key (m pk) pd old \<and> found = (m pk \<noteq> None)
     \<and> taken_out jt s pd (without m old) m1 \<and> m' = m1(pk := None))"

lemma does_contribute: "does (contribute jt s d sign) m (\<lambda>_ m'. contributed jt s d sign m m')"
  unfolding contribute_def contributed_def by (rule does_contributeAll)

lemma does_without: "does (deleteEntries es) m (\<lambda>_ m'. m' = without m es)"
  unfolding without_def by (rule does_deleteEntries)

lemma does_writeIn: "does (writeIn jd jt s document key pk) m (\<lambda>_ m'. written jd jt s document key pk m m')"
  unfolding writeIn_def
proof (rule does_bnd [OF does_read_doc [where Q = "\<lambda>r m'. m' = m \<and> (case m pk of None \<Rightarrow> r = None | Some b \<Rightarrow> \<exists>d. Unmarshal jd b = Some d \<and> r = Some d)"]], goal_cases)
  case (3 pd m0)
  then have m0: "m0 = m" and pd: "case m pk of None \<Rightarrow> pd = None | Some b \<Rightarrow> \<exists>d. Unmarshal jd b = Some d \<and> pd = Some d" by auto
  show ?case unfolding m0
  proof (intro does_cases(3) does_throw)
    fix es assume es: "entriesFor jd s document key = Inr es"
    show "does (bnd (checkUnique s pk es) (\<lambda>_.
           bnd (case pd of None \<Rightarrow> ret () | Some d \<Rightarrow> (case entriesFor jd s d key of Inl e \<Rightarrow> throw e | Inr removals \<Rightarrow> deleteEntries removals)) (\<lambda>_.
             case Marshal jd document of None \<Rightarrow> throw ErrMarshal
             | Some encoded \<Rightarrow>
                 bnd (case pd of None \<Rightarrow> ret () | Some d \<Rightarrow> contribute jt s d (-1)) (\<lambda>_.
                 bnd (contribute jt s document 1) (\<lambda>_.
                 bnd (treePut pk encoded) (\<lambda>_. putEntries es)))))) m (\<lambda>_. written jd jt s document key pk m)"
    proof (rule does_bnd [OF does_checkUnique], goal_cases)
      case (2 u m0)
      then have u: "m0 = m" "\<forall>a \<in> set es. i_unique (e_index a) \<longrightarrow> free_for m s pk a" by auto
      show ?case unfolding u(1)
      proof (rule does_bnd [where Q = "\<lambda>_ m0. \<exists>old. previous jd s key (m pk) pd old \<and> m0 = without m old"], goal_cases)
        case 1
        show ?case
        proof (intro does_cases(2,3) does_throw does_ret)
          show "\<exists>old. previous jd s key (m pk) pd old \<and> m = without m old" if "pd = None"
            using that pd by (auto simp: previous_def without_def split: option.splits)
          show "does (deleteEntries old) m (\<lambda>_ m0. \<exists>old. previous jd s key (m pk) pd old \<and> m0 = without m old)"
            if "pd = Some d" "entriesFor jd s d key = Inr old" for d old
            by (rule does_weaken [OF does_without]) (use that pd in \<open>auto simp: previous_def split: option.splits\<close>)
        qed
      next
        case (3 u' m0)
        then obtain old where old: "previous jd s key (m pk) pd old" "m0 = without m old" by blast
        show ?case unfolding old(2)
        proof (intro does_cases(2) does_throw)
          fix b assume b: "Marshal jd document = Some b"
          show "does (bnd (case pd of None \<Rightarrow> ret () | Some d \<Rightarrow> contribute jt s d (-1)) (\<lambda>_.
                 bnd (contribute jt s document 1) (\<lambda>_. bnd (treePut pk b) (\<lambda>_. putEntries es)))) (without m old) (\<lambda>_. written jd jt s document key pk m)"
          proof (rule does_bnd [where Q = "\<lambda>_ m1. taken_out jt s pd (without m old) m1"], goal_cases)
            case 1
            show ?case unfolding taken_out_def by (cases pd) (auto intro: does_ret does_contribute)
          next
            case (3 u1 m1)
            show ?case
            proof (rule does_bnd [OF does_contribute], goal_cases)
              case (2 u2 m2)
              show ?case
                by (rule does_bnd [where Q = "\<lambda>_ m3. m3 = m2(pk \<mapsto> b)"], rule does_treePut [OF refl], intro back_rules, hypsubst,
                    rule does_weaken [OF does_putEntries])
                  (use 2 3 u(2) old es b in \<open>unfold written_def, blast\<close>)
            qed (intro back_rules)
          qed (intro back_rules)
        qed
      qed (intro back_rules)
    qed (intro back_rules)
  qed
qed (auto intro!: back_rules)

lemma does_removeIn: "does (removeIn jd jt s key pk) m (\<lambda>found m'. taken_away jd jt s key pk found m m')"
  unfolding removeIn_def
proof (rule does_bnd [OF does_read_doc [where Q = "\<lambda>r m'. m' = m \<and> (case m pk of None \<Rightarrow> r = None | Some b \<Rightarrow> \<exists>d. Unmarshal jd b = Some d \<and> r = Some d)"]], goal_cases)
  case (3 pd m0)
  then have m0: "m0 = m" and pd: "case m pk of None \<Rightarrow> pd = None | Some b \<Rightarrow> \<exists>d. Unmarshal jd b = Some d \<and> pd = Some d" by auto
  show ?case unfolding m0
  proof (intro does_cases(2,3) does_throw does_ret)
    show "taken_away jd jt s key pk False m m" if "pd = None"
      using that pd by (auto simp: taken_away_def previous_def taken_out_def without_def fun_eq_iff split: option.splits)
    fix d old assume d: "pd = Some d" and old: "entriesFor jd s d key = Inr old"
    have pr: "previous jd s key (m pk) (Some d) old" "m pk \<noteq> None" using pd d old by (auto simp: previous_def split: option.splits)
    show "does (bnd (deleteEntries old) (\<lambda>_. bnd (contribute jt s d (-1)) (\<lambda>_. bnd (treeDelete pk) (\<lambda>_. ret True)))) m
       (\<lambda>found m'. taken_away jd jt s key pk found m m')"
    proof (rule does_bnd [OF does_without], goal_cases)
      case (2 u m1)
      show ?case unfolding \<open>m1 = without m old\<close>
      proof (rule does_bnd [OF does_contribute], goal_cases)
        case (2 u2 m2)
        have "taken_away jd jt s key pk True m (m2(pk := None))"
          unfolding taken_away_def by (intro exI [of _ "Some d"] exI [of _ old] exI [of _ m2]) (use 2 pr in \<open>simp add: taken_out_def\<close>)
        then show ?case
          by (intro does_bnd [where Q = "\<lambda>_ m3. m3 = m2(pk := None)"] does_treeDelete refl back_rules) (auto intro: does_ret)
      qed (intro back_rules)
    qed (intro back_rules)
  qed
qed (auto intro!: back_rules)

section \<open>Indexes and documents agree\<close>

definition indexed :: "spec \<Rightarrow> bytes \<Rightarrow> bool" where
  "indexed s k \<longleftrightarrow> (\<exists>x \<in> set (s_indexes s). hasPrefix (entries s x) k)"

text \<open>The document stored at a key makes an entry.\<close>

definition makes :: "doc codec \<Rightarrow> spec \<Rightarrow> view \<Rightarrow> bytes \<Rightarrow> bytes \<Rightarrow> bytes \<Rightarrow> bool" where
  "makes jd s m pk k v \<longleftrightarrow> (\<exists>b d key es e. m pk = Some b \<and> Unmarshal jd b = Some d \<and> encodeKey s key = Inr pk
     \<and> entriesFor jd s d key = Inr es \<and> e \<in> set es \<and> e_key e = k \<and> e_value e = v)"

text \<open>
  Every stored document reads back, is stored under the key it carries and can be described; and what
  is in the tree under the indexes is what the documents make, nothing more and nothing less.
\<close>

definition readable :: "doc codec \<Rightarrow> spec \<Rightarrow> bytes \<Rightarrow> bytes \<Rightarrow> bool" where
  "readable jd s k b \<longleftrightarrow> (\<exists>d key es. Unmarshal jd b = Some d \<and> fmlookup d (k_path (s_key s)) = Some key
     \<and> encodeKey s key = Inr k \<and> entriesFor jd s d key = Inr es)"

definition described :: "doc codec \<Rightarrow> spec \<Rightarrow> view \<Rightarrow> bool" where
  "described jd s m \<longleftrightarrow> (\<forall>k b. m k = Some b \<longrightarrow> hasPrefix (documents s) k \<longrightarrow> readable jd s k b)
     \<and> (\<forall>k v. indexed s k \<longrightarrow> (m k = Some v \<longleftrightarrow> (\<exists>pk. makes jd s m pk k v)))"

lemma space_apart:
  "hasPrefix (documents s) k \<Longrightarrow> \<not> indexed s' k" "hasPrefix (documents s) k \<Longrightarrow> \<not> in_rollups s' rs k"
  "indexed s k \<Longrightarrow> \<not> in_rollups s' rs k"
  by (auto simp: indexed_def in_rollups_def hasPrefix_append documents_def entries_def rollups_def space_defs)

lemma encodeKey_prefix: "encodeKey s key = Inr pk \<Longrightarrow> hasPrefix (documents s) pk"
  by (auto simp: encodeKey_def hasPrefix_append dest: Encode_append split: if_splits sum.splits)

lemma entry_indexed: "entry_at s key e \<Longrightarrow> encodeKey s key = Inr pk \<Longrightarrow> indexed s (e_key e)"
  using entryKey_suffix(1) by (fastforce simp: entry_at_def indexed_def)

lemma makesE:
  assumes "makes jd s m pk k v" "distinct (map i_id (s_indexes s))"
  obtains key e where "encodeKey s key = Inr pk" "entry_at s key e" "e_key e = k"
  using assms entriesFor_at(1) unfolding makes_def by metis

text \<open>
  The document at a key is replaced, or taken away when \<open>new\<close> is nothing: its old entries are gone and
  the entries of the new one are there.
\<close>

definition replaces :: "doc codec \<Rightarrow> spec \<Rightarrow> gval \<Rightarrow> bytes \<Rightarrow> doc option \<Rightarrow> entry list \<Rightarrow> bytes option \<Rightarrow> entry list \<Rightarrow> view \<Rightarrow> view \<Rightarrow> bool" where
  "replaces jd s key pk pd old new es m m' \<longleftrightarrow>
     previous jd s key (m pk) pd old \<and> encodeKey s key = Inr pk \<and> distinct (map i_id (s_indexes s))
     \<and> (case new of None \<Rightarrow> es = []
        | Some b \<Rightarrow> \<exists>d. Unmarshal jd b = Some d \<and> fmlookup d (k_path (s_key s)) = Some key \<and> entriesFor jd s d key = Inr es)
     \<and> (\<forall>k. \<not> in_rollups s (s_rollups s) k \<longrightarrow> m' k = ((without m old)(pk := new) ++ entry_map es) k)"

lemma replacesD:
  assumes "replaces jd s key pk pd old new es m m'"
  shows "previous jd s key (m pk) pd old" "encodeKey s key = Inr pk" "distinct (map i_id (s_indexes s))"
    "case new of None \<Rightarrow> es = []
      | Some b \<Rightarrow> \<exists>d. Unmarshal jd b = Some d \<and> fmlookup d (k_path (s_key s)) = Some key \<and> entriesFor jd s d key = Inr es"
    "\<not> in_rollups s (s_rollups s) k \<Longrightarrow> m' k = ((without m old)(pk := new) ++ entry_map es) k"
  using assms by (simp_all add: replaces_def)

lemma replaces_entries:
  assumes r: "replaces jd s key pk pd old new es m m'"
  shows "e \<in> set old \<Longrightarrow> entry_at s key e" "e \<in> set es \<Longrightarrow> entry_at s key e" "distinct (map e_key es)"
    "e \<in> set old \<union> set es \<Longrightarrow> indexed s (e_key e)"
proof -
  note d = replacesD [OF r]
  show o: "e \<in> set old \<Longrightarrow> entry_at s key e"
    using d(1) entriesFor_at(1) [OF _ d(3,2)] by (fastforce simp: previous_def split: option.splits)
  show n: "e \<in> set es \<Longrightarrow> entry_at s key e" and "distinct (map e_key es)"
    using d(4) entriesFor_at [OF _ d(3,2)] by (fastforce split: option.splits)+
  show "e \<in> set old \<union> set es \<Longrightarrow> indexed s (e_key e)" using o n entry_indexed [OF _ d(2)] by blast
qed

lemma replaces_document:
  assumes r: "replaces jd s key pk pd old new es m m'" and k: "hasPrefix (documents s) k"
  shows "m' k = (if k = pk then new else m k)"
proof -
  have "k \<notin> e_key ` set old" "k \<notin> e_key ` set es" using space_apart(1) [OF k, of s] replaces_entries(4) [OF r] by blast+
  moreover from this have "entry_map es k = None" using dom_entry_map [of es] by blast
  ultimately show ?thesis using replacesD(5) [OF r space_apart(2) [OF k]] by (simp add: without_def map_add_def)
qed

lemma replaces_entry:
  assumes r: "replaces jd s key pk pd old new es m m'" and k: "indexed s k"
  shows "m' k = (case entry_map es k of Some v \<Rightarrow> Some v | None \<Rightarrow> if k \<in> e_key ` set old then None else m k)"
  using replacesD(5) [OF r space_apart(3) [OF k]] space_apart(1) [OF encodeKey_prefix [OF replacesD(2) [OF r]], of s] k
  by (auto simp: without_def map_add_def split: option.splits)

lemma same_entries:
  assumes "encodeKey s key = Inr pk" "entriesFor jd s d key = Inr es" "m pk = Some b" "Unmarshal jd b = Some d"
  shows "makes jd s m pk k v \<longleftrightarrow> (\<exists>e \<in> set es. e_key e = k \<and> e_value e = v)"
proof -
  have "entriesFor jd s d key' = Inr es" if "encodeKey s key' = Inr pk" for key'
    using entriesFor_key [OF that assms(1)] assms(2) by simp
  with assms show ?thesis unfolding makes_def by fastforce
qed

lemma replaces_makes:
  assumes r: "replaces jd s key pk pd old new es m m'"
  shows "makes jd s m' pk k v \<longleftrightarrow> (\<exists>e \<in> set es. e_key e = k \<and> e_value e = v)"
    "makes jd s m pk k v \<longleftrightarrow> (\<exists>e \<in> set old. e_key e = k \<and> e_value e = v)"
    "pk' \<noteq> pk \<Longrightarrow> makes jd s m' pk' k v \<longleftrightarrow> makes jd s m pk' k v"
proof -
  note d = replacesD [OF r]
  have n: "m' pk = new" using replaces_document [OF r encodeKey_prefix [OF d(2)]] by simp
  show "makes jd s m' pk k v \<longleftrightarrow> (\<exists>e \<in> set es. e_key e = k \<and> e_value e = v)"
  proof (cases new)
    case None
    with n d(4) show ?thesis by (simp add: makes_def)
  next
    case (Some b)
    with d(4) obtain d' where "Unmarshal jd b = Some d'" "entriesFor jd s d' key = Inr es" by auto
    with n Some show ?thesis using same_entries [OF d(2)] by blast
  qed
  show "makes jd s m pk k v \<longleftrightarrow> (\<exists>e \<in> set old. e_key e = k \<and> e_value e = v)"
  proof (cases "m pk")
    case None
    with d(1) show ?thesis by (simp add: makes_def previous_def)
  next
    case (Some b)
    with d(1) obtain d' where "Unmarshal jd b = Some d'" "entriesFor jd s d' key = Inr old" by (auto simp: previous_def)
    with Some show ?thesis using same_entries [OF d(2)] by blast
  qed
  show "pk' \<noteq> pk \<Longrightarrow> makes jd s m' pk' k v \<longleftrightarrow> makes jd s m pk' k v"
    unfolding makes_def using replaces_document [OF r] encodeKey_prefix by (metis (no_types, lifting))
qed

lemma replaces_described:
  assumes r: "replaces jd s key pk pd old new es m m'" and d: "described jd s m"
  shows "described jd s m'"
proof -
  note rd = replacesD [OF r] and entry = replaces_entry [OF r] and mk = replaces_makes [OF r]
  note new_entry = entry_map_Some [OF replaces_entries(3) [OF r]]
  have docs: "readable jd s k b" if "m' k = Some b" "hasPrefix (documents s) k" for k b
  proof (cases "k = pk")
    case True
    with that replaces_document [OF r that(2)] have "new = Some b" by simp
    with rd(2,4) True show ?thesis by (auto simp: readable_def)
  next
    case False
    with that replaces_document [OF r that(2)] d show ?thesis by (simp add: described_def)
  qed
  have "m' k = Some v \<longleftrightarrow> (\<exists>pk'. makes jd s m' pk' k v)" if ix: "indexed s k" for k v
  proof
    assume k: "m' k = Some v"
    show "\<exists>pk'. makes jd s m' pk' k v"
    proof (cases "entry_map es k")
      case (Some w)
      with k entry [OF ix] have "entry_map es k = Some v" by simp
      then have "makes jd s m' pk k v" unfolding mk(1) new_entry .
      then show ?thesis ..
    next
      case None
      with k entry [OF ix] have o: "k \<notin> e_key ` set old" "m k = Some v" by (auto split: if_splits)
      with d ix obtain pk' where p: "makes jd s m pk' k v" by (auto simp: described_def)
      with o mk(2) [of k v] have "pk' \<noteq> pk" by auto
      with p mk(3) show ?thesis by blast
    qed
  next
    assume "\<exists>pk'. makes jd s m' pk' k v"
    then obtain pk' where p: "makes jd s m' pk' k v" ..
    show "m' k = Some v"
    proof (cases "pk' = pk")
      case True
      with p have "entry_map es k = Some v" unfolding new_entry using mk(1) by blast
      with entry [OF ix] show ?thesis by simp
    next
      case False
      with p mk(3) have p': "makes jd s m pk' k v" by blast
      then obtain key' e' where e': "encodeKey s key' = Inr pk'" "entry_at s key' e'" "e_key e' = k" by (rule makesE [OF _ rd(3)])
      have "e_key e \<noteq> k" if "e \<in> set old \<union> set es" for e
      proof -
        have "entry_at s key e" using that replaces_entries(1,2) [OF r] by blast
        then show ?thesis using entry_owner(1) [OF _ e'(2) _ rd(3,2) e'(1), of e] e'(3) False by auto
      qed
      then have "k \<notin> e_key ` set old" "k \<notin> e_key ` set es" by blast+
      with entry [OF ix] dom_entry_map [of es] have "m' k = m k" by (auto simp: domIff split: option.splits)
      with d ix p' show ?thesis by (auto simp: described_def)
    qed
  qed
  with docs show ?thesis by (simp add: described_def)
qed

lemma written_replaces:
  assumes w: "written jd jt s document key pk m m'" and k: "encodeKey s key = Inr pk" "fmlookup document (k_path (s_key s)) = Some key"
    and j: "\<And>b. Marshal jd document = Some b \<Longrightarrow> Unmarshal jd b = Some document" and ids: "distinct (map i_id (s_indexes s))"
  obtains pd old b es m1 m2 where "replaces jd s key pk pd old (Some b) es m m'" "Marshal jd document = Some b" "entriesFor jd s document key = Inr es"
    "\<forall>a \<in> set es. i_unique (e_index a) \<longrightarrow> free_for m s pk a"
    "taken_out jt s pd (without m old) m1" "contributed jt s document 1 m1 m2" "m' = m2(pk \<mapsto> b) ++ entry_map es"
proof -
  from w obtain b es pd old m1 m2 where w': "Marshal jd document = Some b" "entriesFor jd s document key = Inr es" "previous jd s key (m pk) pd old"
    "\<forall>a \<in> set es. i_unique (e_index a) \<longrightarrow> free_for m s pk a"
    "taken_out jt s pd (without m old) m1" "contributed jt s document 1 m1 m2" "distinct (map e_key es) \<longrightarrow> m' = m2(pk \<mapsto> b) ++ entry_map es"
    unfolding written_def by blast
  have m': "m' = m2(pk \<mapsto> b) ++ entry_map es" using w'(7) entriesFor_at(2) [OF w'(2) ids k(1)] by blast
  have "m2 k = without m old k" if "\<not> in_rollups s (s_rollups s) k" for k
    using that w'(5,6) by (simp add: taken_out_def contributed_def split: option.splits)
  then have "replaces jd s key pk pd old (Some b) es m m'"
    unfolding replaces_def using w'(1-3) k ids j [OF w'(1)] m' by (auto simp: map_add_def split: option.splits)
  from that [OF this w'(1,2,4-6) m'] show thesis .
qed

lemma removed_replaces:
  assumes w: "taken_away jd jt s key pk found m m'" and k: "encodeKey s key = Inr pk" and ids: "distinct (map i_id (s_indexes s))"
  obtains pd old m1 where "replaces jd s key pk pd old None [] m m'" "found = (m pk \<noteq> None)"
    "taken_out jt s pd (without m old) m1" "m' = m1(pk := None)"
proof -
  from w obtain pd old m1 where w': "previous jd s key (m pk) pd old" "found = (m pk \<noteq> None)"
    "taken_out jt s pd (without m old) m1" "m' = m1(pk := None)" unfolding taken_away_def by blast
  have "m1 k = without m old k" if "\<not> in_rollups s (s_rollups s) k" for k
    using that w'(3) by (simp add: taken_out_def contributed_def split: option.splits)
  then have "replaces jd s key pk pd old None [] m m'"
    unfolding replaces_def using w'(1,4) k ids by (simp add: entry_map_def)
  from that [OF this w'(2-4)] show thesis .
qed

section \<open>A unique index holds one document per value\<close>

definition entry_for :: "doc codec \<Rightarrow> spec \<Rightarrow> view \<Rightarrow> bytes \<Rightarrow> entry \<Rightarrow> bool" where
  "entry_for jd s m pk e \<longleftrightarrow> (\<exists>b d key es. m pk = Some b \<and> Unmarshal jd b = Some d \<and> encodeKey s key = Inr pk
     \<and> entriesFor jd s d key = Inr es \<and> e \<in> set es)"

definition single :: "doc codec \<Rightarrow> spec \<Rightarrow> view \<Rightarrow> bool" where
  "single jd s m \<longleftrightarrow> (\<forall>pk pk' e e'. entry_for jd s m pk e \<longrightarrow> entry_for jd s m pk' e' \<longrightarrow> e_index e = e_index e' \<longrightarrow> i_unique (e_index e)
     \<longrightarrow> take (e_prefix e) (e_key e) = take (e_prefix e') (e_key e') \<longrightarrow> pk = pk')"

lemma entry_for_makes: "entry_for jd s m pk e \<Longrightarrow> makes jd s m pk (e_key e) (e_value e)"
  unfolding entry_for_def makes_def by blast

lemma entry_for_at:
  assumes "entry_for jd s m pk e" "distinct (map i_id (s_indexes s))"
  obtains key where "encodeKey s key = Inr pk" "entry_at s key e"
  using assms entriesFor_at(1) unfolding entry_for_def by metis

lemma entry_suffix: "entry_at s key e \<Longrightarrow> encodeKey s key = Inr pk \<Longrightarrow> documents s @ drop (e_prefix e) (e_key e) = pk \<and> e_prefix e \<le> length (e_key e)"
  using entryKey_suffix(2,3) by (fastforce simp: entry_at_def)

text \<open>What a walk over the values of a new entry must not meet is what another document would have there.\<close>

lemma free_for_single:
  assumes "free_for m s pk e" "entry_at s key e" "encodeKey s key = Inr pk" "entry_at s key' e'" "encodeKey s key' = Inr pk'"
    and "e_key e' \<in> dom m" "take (e_prefix e) (e_key e) = take (e_prefix e') (e_key e')"
  shows "pk = pk'"
proof -
  note s = entry_suffix [OF assms(2,3)] entry_suffix [OF assms(4,5)]
  have n: "e_prefix e = e_prefix e'" using arg_cong [OF assms(7), of length] s by simp
  have "hasPrefix (take (e_prefix e) (e_key e)) (e_key e')" using assms(7) s n by (simp add: hasPrefix_def)
  then have "drop (e_prefix e') (e_key e') = drop (length (documents s)) pk"
    using assms(1,6) n s unfolding free_for_def by (metis length_take min_absorb2)
  moreover have "documents s @ drop (length (documents s)) pk = pk" using s(1) by (metis append_eq_conv_conj)
  ultimately show ?thesis using s(2) by simp
qed

lemma replaces_single:
  assumes r: "replaces jd s key pk pd old new es m m'" and d: "described jd s m" and u: "single jd s m"
    and f: "\<forall>a \<in> set es. i_unique (e_index a) \<longrightarrow> free_for m s pk a"
  shows "single jd s m'"
proof -
  note rd = replacesD [OF r]
  have n: "m' pk = new" using replaces_document [OF r encodeKey_prefix [OF rd(2)]] by simp
  have here: "e \<in> set es" if "entry_for jd s m' pk e" for e
  proof -
    from that obtain b d key' es' where e: "m' pk = Some b" "Unmarshal jd b = Some d" "encodeKey s key' = Inr pk" "entriesFor jd s d key' = Inr es'" "e \<in> set es'"
      unfolding entry_for_def by blast
    with n rd(4) have "entriesFor jd s d key = Inr es" by auto
    with e entriesFor_key [OF e(3) rd(2), of jd d] show ?thesis by simp
  qed
  have there: "entry_for jd s m q e" if "entry_for jd s m' q e" "q \<noteq> pk" for q e
    using that replaces_document [OF r] encodeKey_prefix unfolding entry_for_def by (metis (no_types, lifting))
  have new_old: False if "entry_for jd s m' pk e" "entry_for jd s m' q e'" "q \<noteq> pk" "e_index e = e_index e'" "i_unique (e_index e)"
    "take (e_prefix e) (e_key e) = take (e_prefix e') (e_key e')" for q e e'
  proof -
    have e: "e \<in> set es" by (rule here [OF that(1)])
    have e': "entry_for jd s m q e'" by (rule there [OF that(2,3)])
    obtain key' where k': "encodeKey s key' = Inr q" "entry_at s key' e'" by (rule entry_for_at [OF e' rd(3)])
    have "indexed s (e_key e')" by (rule entry_indexed [OF k'(2,1)])
    with d entry_for_makes [OF e'] have "e_key e' \<in> dom m" unfolding described_def by blast
    from free_for_single [OF _ replaces_entries(2) [OF r e] rd(2) k'(2,1) this that(6)] f e that(3,5) show False by blast
  qed
  show ?thesis
    unfolding single_def
  proof (intro allI impI)
    fix q q' e e' assume a: "entry_for jd s m' q e" "entry_for jd s m' q' e'" "e_index e = e_index e'" "i_unique (e_index e)"
      "take (e_prefix e) (e_key e) = take (e_prefix e') (e_key e')"
    show "q = q'"
    proof (cases "q = pk"; cases "q' = pk")
      assume "q = pk" "q' \<noteq> pk"
      with new_old [of e q' e'] a show ?thesis by blast
    next
      assume "q \<noteq> pk" "q' = pk"
      with new_old [of e' q e] a show ?thesis by metis
    next
      assume "q \<noteq> pk" "q' \<noteq> pk"
      with there a u show ?thesis unfolding single_def by blast
    qed simp
  qed
qed

section \<open>Totals count the documents of their groups\<close>

definition members :: "doc codec \<Rightarrow> spec \<Rightarrow> rollup_decl \<Rightarrow> view \<Rightarrow> bytes \<Rightarrow> bytes set" where
  "members jd s r m k = {pk. hasPrefix (documents s) pk \<and> (\<exists>b d. m pk = Some b \<and> Unmarshal jd b = Some d \<and> groupKey s r d = Inr (Some k))}"

definition row_ok :: "totals codec \<Rightarrow> bytes option \<Rightarrow> bytes set \<Rightarrow> bool" where
  "row_ok jt row ps \<longleftrightarrow> tally jt row = Some (int (card ps)) \<and> (row = None \<longleftrightarrow> ps = {})"

text \<open>A row is there exactly for a group with documents in it, and says how many.\<close>

definition counted :: "doc codec \<Rightarrow> totals codec \<Rightarrow> spec \<Rightarrow> view \<Rightarrow> bool" where
  "counted jd jt s m \<longleftrightarrow> (\<forall>r \<in> set (s_rollups s). \<forall>k. hasPrefix (rollups s r) k \<longrightarrow> row_ok jt (m k) (members jd s r m k))"

definition faithful :: "'a codec \<Rightarrow> bool" where
  "faithful j \<longleftrightarrow> (\<forall>x b. Marshal j x = Some b \<longrightarrow> Unmarshal j b = Some x)"

lemma row_counts:
  assumes "faithful jt" "n = int (card ps)" "n \<le> 0 \<and> row = None \<or> n > 0 \<and> (\<exists>tot b. Marshal jt tot = Some b \<and> t_count tot = n \<and> row = Some b)"
    and "finite ps"
  shows "row_ok jt row ps"
proof (cases "n \<le> 0")
  case True
  with assms have "ps = {}" "row = None" by auto
  then show ?thesis by (simp add: row_ok_def tally_def)
next
  case False
  with assms obtain tot b where "Marshal jt tot = Some b" "t_count tot = n" "row = Some b" by auto
  with assms False show ?thesis by (auto simp: row_ok_def tally_def faithful_def)
qed

lemma row_out:
  assumes "row_ok jt row ps" "row_moved jt (-1) (pk \<in> ps) row row'" "finite ps" "faithful jt"
  shows "row_ok jt row' (ps - {pk})"
proof (cases "pk \<in> ps")
  case True
  then have "card ps > 0" using assms(3) card_gt_0_iff [of ps] by blast
  with True have c: "int (card ps) + -1 = int (card (ps - {pk}))" by (simp add: of_nat_diff)
  with True assms(1,2) have "int (card (ps - {pk})) \<le> 0 \<and> row' = None
      \<or> int (card (ps - {pk})) > 0 \<and> (\<exists>tot b. Marshal jt tot = Some b \<and> t_count tot = int (card (ps - {pk})) \<and> row' = Some b)"
    unfolding row_ok_def row_moved_def by (simp only: if_True option.inject) metis
  then show ?thesis by (rule row_counts [OF assms(4) refl]) (use assms(3) in simp)
qed (use assms(1,2) in \<open>simp add: row_moved_def\<close>)

lemma row_in:
  assumes "row_ok jt row ps" "row_moved jt 1 hit row row'" "finite ps" "faithful jt" "pk \<notin> ps"
  shows "row_ok jt row' (if hit then insert pk ps else ps)"
proof (cases hit)
  case True
  have c: "int (card ps) + 1 = int (card (insert pk ps))" using assms(3,5) by simp
  with True assms(1,2) have "int (card (insert pk ps)) \<le> 0 \<and> row' = None
      \<or> int (card (insert pk ps)) > 0 \<and> (\<exists>tot b. Marshal jt tot = Some b \<and> t_count tot = int (card (insert pk ps)) \<and> row' = Some b)"
    unfolding row_ok_def row_moved_def by (simp only: if_True option.inject) metis
  then have "row_ok jt row' (insert pk ps)" by (rule row_counts [OF assms(4) refl]) (use assms(3) in simp)
  with True show ?thesis by simp
qed (use assms(1,2) in \<open>simp add: row_moved_def\<close>)

lemma rollup_apart:
  assumes "hasPrefix (rollups s r) k"
  shows "\<not> hasPrefix (documents s') k" "\<not> indexed s' k"
  using assms by (auto simp: indexed_def hasPrefix_append documents_def entries_def rollups_def space_defs)

lemma replaces_members:
  assumes r: "replaces jd s key pk pd old new es m m'"
  shows "members jd s x m' k = (members jd s x m k - {pk}) \<union>
     (if \<exists>b d. new = Some b \<and> Unmarshal jd b = Some d \<and> groupKey s x d = Inr (Some k) then {pk} else {})"
  using replaces_document [OF r] encodeKey_prefix [OF replacesD(2) [OF r]] by (auto simp: members_def split: if_splits)

lemma out_row:
  assumes "taken_out jt s pd (without m old) m1" "replaces jd s key pk pd old new es m m'" "row_ok jt (m k) (members jd s x m k)"
    and "x \<in> set (s_rollups s)" "hasPrefix (rollups s x) k" "distinct (map r_id (s_rollups s))" "finite (dom m)" "faithful jt"
  shows "row_ok jt (m1 k) (members jd s x m k - {pk})"
proof -
  have fin: "finite (members jd s x m k)" by (rule finite_subset [OF _ assms(7)]) (auto simp: members_def)
  have "k \<notin> e_key ` set old" using rollup_apart(2) [OF assms(5), of s] replaces_entries(4) [OF assms(2)] by blast
  then have w: "without m old k = m k" by (simp add: without_def)
  note p = replacesD(1,2) [OF assms(2)]
  show ?thesis
  proof (cases pd)
    case None
    with p(1) have "m pk = None" by (auto simp: previous_def split: option.splits)
    then have "pk \<notin> members jd s x m k" by (auto simp: members_def)
    with None assms(1,3) w show ?thesis by (simp add: taken_out_def)
  next
    case (Some d)
    with p(1) obtain b where b: "m pk = Some b" "Unmarshal jd b = Some d" by (auto simp: previous_def split: option.splits)
    from Some assms(1,4-6) have "moved jt s d (-1) x k (without m old k) (m1 k)" by (simp add: taken_out_def contributed_def)
    then obtain g where g: "groupKey s x d = Inr g" "row_moved jt (-1) (g = Some k) (m k) (m1 k)" unfolding moved_def w by blast
    have "pk \<in> members jd s x m k \<longleftrightarrow> g = Some k" using b g(1) encodeKey_prefix [OF p(2)] by (auto simp: members_def)
    with g(2) show ?thesis by (intro row_out [OF assms(3) _ fin assms(8)]) simp
  qed
qed

lemma written_counted:
  assumes r: "replaces jd s key pk pd old (Some b) es m m'" and b: "Unmarshal jd b = Some document"
    and t: "taken_out jt s pd (without m old) m1" "contributed jt s document 1 m1 m2" "m' = m2(pk \<mapsto> b) ++ entry_map es"
    and c: "counted jd jt s m" and f: "finite (dom m)" "faithful jt" "distinct (map r_id (s_rollups s))"
  shows "counted jd jt s m'"
  unfolding counted_def
proof (intro ballI allI impI)
  fix x k assume x: "x \<in> set (s_rollups s)" and k: "hasPrefix (rollups s x) k"
  let ?ps = "members jd s x m k - {pk}"
  have o: "row_ok jt (m1 k) ?ps" by (rule out_row [OF t(1) r _ x k f(3,1,2)]) (use c x k in \<open>simp add: counted_def\<close>)
  have fin: "finite ?ps" by (rule finite_subset [OF _ f(1)]) (auto simp: members_def)
  from t(2) x k f(3) have "moved jt s document 1 x k (m1 k) (m2 k)" by (simp add: contributed_def)
  then obtain g where g: "groupKey s x document = Inr g" "row_moved jt 1 (g = Some k) (m1 k) (m2 k)" unfolding moved_def by blast
  have "k \<noteq> pk" using rollup_apart(1) [OF k] encodeKey_prefix [OF replacesD(2) [OF r]] by blast
  moreover have "k \<notin> e_key ` set es" using rollup_apart(2) [OF k, of s] replaces_entries(4) [OF r] by blast
  then have "entry_map es k = None" by (rule entry_map_None)
  ultimately have "m' k = m2 k" using t(3) by (simp add: map_add_def)
  moreover have "members jd s x m' k = (if g = Some k then insert pk ?ps else ?ps)"
    unfolding replaces_members [OF r] using b g(1) by simp
  moreover have "row_ok jt (m2 k) (if g = Some k then insert pk ?ps else ?ps)" by (rule row_in [OF o g(2) fin f(2)]) simp
  ultimately show "row_ok jt (m' k) (members jd s x m' k)" by simp
qed

lemma removed_counted:
  assumes r: "replaces jd s key pk pd old None [] m m'" and t: "taken_out jt s pd (without m old) m1" "m' = m1(pk := None)"
    and c: "counted jd jt s m" and f: "finite (dom m)" "faithful jt" "distinct (map r_id (s_rollups s))"
  shows "counted jd jt s m'"
  unfolding counted_def
proof (intro ballI allI impI)
  fix x k assume x: "x \<in> set (s_rollups s)" and k: "hasPrefix (rollups s x) k"
  have o: "row_ok jt (m1 k) (members jd s x m k - {pk})" by (rule out_row [OF t(1) r _ x k f(3,1,2)]) (use c x k in \<open>simp add: counted_def\<close>)
  have "k \<noteq> pk" using rollup_apart(1) [OF k] encodeKey_prefix [OF replacesD(2) [OF r]] by blast
  with o t(2) show "row_ok jt (m' k) (members jd s x m' k)" unfolding replaces_members [OF r] by simp
qed

end
