(* ===== verification/Btree_Room.thy ===== *)
theory Btree_Room
  imports Btree_Durable
begin

text \<open>
  How many pages a \<^verbatim>\<open>Put\<close> may take (\<^verbatim>\<open>internal/btree/tree.go\<close>): two for each level it goes down and one for a new
  root, so that on a file without a quota it goes through.
\<close>

definition grows :: "nat \<Rightarrow> (pager, 'a) op \<Rightarrow> bool" where
  "grows n f \<longleftrightarrow> (\<forall>st r st'. f st = (r, st') \<longrightarrow> PageCount (meta st') \<le> PageCount (meta st) + n)"

named_theorems growing "how many pages an operation takes at most"

lemma growsD: "grows n f \<Longrightarrow> f st = (r, st') \<Longrightarrow> PageCount (meta st') \<le> PageCount (meta st) + n"
  unfolding grows_def by blast

lemma grows_mono: "grows n f \<Longrightarrow> n \<le> k \<Longrightarrow> grows k f"
  unfolding grows_def using le_trans add_left_mono by blast

lemma grows_base [growing]: "grows 0 (ret a)" "grows 0 (throw x)" "grows 0 (look g)" "grows 0 (release e)" "grows 1 (writeLeaf pos es)"
proof -
  show "grows 0 (ret a)" "grows 0 (throw x)" "grows 0 (look g)" by (simp_all add: grows_def look_def)
  show "grows 1 (writeLeaf pos es)" using writeLeaf_count by (fastforce simp: grows_def)
  have "PageCount (meta st') = PageCount (meta st)" if "releaseChain n p st = (r, st')" for n p st st' r
    using that
  proof (induction n arbitrary: p st)
    case 0
    then show ?case by (subst (asm) releaseChain.simps) (auto split: if_splits)
  next
    case (Suc n)
    from Suc.prems show ?case
      by (subst (asm) releaseChain.simps) (auto dest!: Suc.IH simp: Free_fields(4) split: if_splits sum.splits)
  qed
  then show "grows 0 (release e)" by (fastforce simp: grows_def release_def split: if_splits)
qed

lemma grows_bnd: "grows n f \<Longrightarrow> (\<And>a. grows k (g a)) \<Longrightarrow> grows (n + k) (bnd f g)"
  unfolding grows_def bnd_def by (fastforce split: prod.splits sum.splits)

lemma grows_writeBranch [growing]: "grows 1 (writeBranch pos node)"
  unfolding grows_def
proof (intro allI impI)
  fix st r st' assume w: "writeBranch pos node st = (r, st')"
  obtain r1 s1 where p: "place pos st = (r1, s1)" by (cases "place pos st")
  have le: "PageCount (meta s1) \<le> PageCount (meta st) + 1"
    using p Allocate_count [of _ r1 s1] Free_fields(4) by (fastforce simp: place_def split: if_splits)
  have wm: "PageCount (meta s') = PageCount (meta s)" if "Write q s = (x, s')" for q s x s'
    using that by (auto simp: Write_def onFile_def randRead_def bnd_def Let_def split: if_splits sum.splits prod.splits option.splits)
  from w p le show "PageCount (meta st') \<le> PageCount (meta st) + 1"
    by (cases r1) (auto simp: writeBranch_def bnd_def dest!: wm split: sum.splits prod.splits)
qed

lemma grows_split [growing]: "grows 2 (leafOrSplit pid es)" "grows 2 (branchOrSplit pid node)"
proof -
  have two: "grows 2 (bnd f g)" if "grows 1 f" "\<And>a. grows 1 (g a)" for f :: "(pager, 'a) op" and g :: "'a \<Rightarrow> (pager, 'b) op"
  proof -
    have "grows (1 + 1) (bnd f g)" by (rule grows_bnd [OF that])
    then show ?thesis by (simp only: one_add_one)
  qed
  have one: "grows 1 (bnd f (\<lambda>a. ret (g a)))" if "grows 1 f" for f :: "(pager, 'a) op" and g :: "'a \<Rightarrow> 'b"
  proof -
    have "grows (1 + 0) (bnd f (\<lambda>a. ret (g a)))" by (intro grows_bnd that growing(1))
    then show ?thesis by simp
  qed
  have z: "grows 2 (throw e :: (pager, 'a) op)" for e by (rule grows_mono [OF growing(2)]) simp
  show "grows 2 (leafOrSplit pid es)" unfolding leafOrSplit_def
    by (auto intro!: two one z growing grows_mono [OF one, of _ 2] split: option.splits)
  show "grows 2 (branchOrSplit pid node)" unfolding branchOrSplit_def
    by (auto intro!: two one z growing grows_mono [OF one, of _ 2] split: option.splits)
qed

lemma grows_insert: "grows (2 * n) (insert_node n pid e)"
proof (induction n arbitrary: pid)
  case (Suc n)
  have leaf: "grows 2 (insertLeaf pid es e)" for es
    unfolding insertLeaf_def Let_def
    by (auto intro!: grows_bnd [where n = 0, simplified] growing split: prod.splits)
  have branch: "grows (2 * n + 2) (bnd (insert_node n q e) (insertBranch pid node pos))" for q node pos
    by (rule grows_bnd [OF Suc]) (simp add: insertBranch_def growing)
  show ?case
    using grows_mono [OF leaf, of "2 * Suc n"] branch
    by (auto simp: Let_def intro!: grows_bnd [where n = 0, simplified] growing split: node_view.splits)
qed (simp add: growing)

lemma Put_count:
  assumes "Put k v t = (r, t')" "length v \<le> MaxInline"
  shows "PageCount (meta (pages t')) \<le> 3 * PageCount (meta (pages t)) + 3"
proof -
  let ?e = "\<lparr>kv_key = k, kv_value = v, kv_head = 0, kv_length = 0\<rparr>" and ?n = "2 * depthFuel (pages t) + 1"
  have i: "PageCount (meta s) \<le> PageCount (meta (pages t)) + 2 * depthFuel (pages t)"
    if "insert_node (depthFuel (pages t)) (troot t) ?e (pages t) = (x, s)" for x s
    by (rule growsD [OF grows_insert that])
  have "PageCount (meta s) \<le> PageCount (meta (pages t)) + ?n" if "putEntry ?e (troot t) (pages t) = (x, s)" for x s
    using that growsD [OF growing(5), of 0 "[?e]" "pages t" x s] growsD [OF growing(6)] i
    by (fastforce simp: putEntry_def bnd_def split: if_splits prod.splits sum.splits)
  with assms show ?thesis
    by (fastforce simp: Put_putEntry store_def depthFuel_def split: sum.splits if_splits prod.splits)
qed

lemma Put_goes_through:
  assumes "holds_map t F kvs" "checkKey k = Inr ()" "length k < MaxKey" "length v \<le> MaxInline" "maxPages (pages t) = 0"
    and "PageCount (meta (pages t)) < 2 ^ 60"
  obtains t' where "Put k v t = (Inr (), t')" "holds_map t' F (put_kv k v kvs)" "maxPages (pages t') = 0"
    "PageCount (meta (pages t')) \<le> 3 * PageCount (meta (pages t)) + 3"
proof -
  obtain r t' where p: "Put k v t = (r, t')" by fastforce
  note c = Put_count [OF p assms(4)]
  then have "pageLimit (pages t')" using assms(6) by (simp add: pageLimit_def)
  from Put_spec [OF assms(1,2) _ p this] assms(3-5) have "stored_kv t F k v kvs (r, t')" by (simp add: sizes layout)
  with assms(3,5) p c that [of t'] show thesis by (cases r) (auto simp: stored_kv_def same_anchor_def)
qed

end
