(* ===== verification/Store_Write.thy ===== *)
theory Store_Write
  imports Store_Consistent Btree_Room
begin

text \<open>
  The properties of writing, removing and reading documents in a tree: what a collection keeps true, and
  that every other collection in the tree is left alone.
\<close>

section \<open>A consistent collection\<close>

definition consistent :: "doc codec \<Rightarrow> totals codec \<Rightarrow> spec \<Rightarrow> view \<Rightarrow> bool" where
  "consistent jd jt s m \<longleftrightarrow> described jd s m \<and> single jd s m \<and> counted jd jt s m"

text \<open>The numbers of the indexes and rollups of a collection are its own.\<close>

definition numbered :: "spec \<Rightarrow> bool" where
  "numbered s \<longleftrightarrow> distinct (map i_id (s_indexes s)) \<and> distinct (map r_id (s_rollups s))"

text \<open>The keys of a collection.\<close>

definition own :: "spec \<Rightarrow> bytes \<Rightarrow> bool" where
  "own s k \<longleftrightarrow> (\<exists>sp \<in> {spaceDoc, spaceIndex, spaceRollups}. hasPrefix (sp # be 4 (unat (s_id s))) k)"

lemma ownI: "hasPrefix (documents s) k \<Longrightarrow> own s k" "indexed s k \<Longrightarrow> own s k" "in_rollups s rs k \<Longrightarrow> own s k"
  by (auto simp: own_def indexed_def in_rollups_def documents_def entries_def rollups_def hasPrefix_append)

lemma own_id: "own s k \<Longrightarrow> own s' k \<Longrightarrow> s_id s = s_id s'"
  by (auto simp: own_def hasPrefix_def dest!: be_id(2))

lemma consistent_cong:
  assumes "\<And>k. own s k \<Longrightarrow> m' k = m k" "consistent jd jt s m"
  shows "consistent jd jt s m'"
proof -
  have d: "hasPrefix (documents s) k \<Longrightarrow> m' k = m k" "encodeKey s key = Inr k \<Longrightarrow> m' k = m k" for k key
    using assms(1) ownI(1) encodeKey_prefix by blast+
  have mk: "makes jd s m' = makes jd s m" unfolding makes_def fun_eq_iff using d(2) by metis
  have e: "entry_for jd s m' = entry_for jd s m" unfolding entry_for_def fun_eq_iff using d(2) by metis
  have g: "members jd s r m' k = members jd s r m k" for r k unfolding members_def using d(1) by auto
  have i: "indexed s k \<Longrightarrow> m' k = m k" "r \<in> set (s_rollups s) \<Longrightarrow> hasPrefix (rollups s r) k \<Longrightarrow> m' k = m k" for k r
    using assms(1) ownI(2,3) unfolding in_rollups_def by blast+
  note c = assms(2) [unfolded consistent_def]
  have "described jd s m'" using c d(1) i(1) unfolding described_def mk by metis
  moreover have "single jd s m'" using c unfolding single_def e by blast
  moreover have "counted jd jt s m'" using c i(2) unfolding counted_def g by metis
  ultimately show ?thesis by (simp add: consistent_def)
qed

lemma replaces_frame:
  assumes r: "replaces jd s key pk pd old new es m m'" and k: "\<not> own s k"
  shows "m' k = m k"
proof -
  have i: "\<not> indexed s k" "\<not> in_rollups s (s_rollups s) k" "k \<noteq> pk"
    using k ownI encodeKey_prefix [OF replacesD(2) [OF r]] by blast+
  then have "k \<notin> e_key ` set old" "k \<notin> e_key ` set es" using replaces_entries(4) [OF r] by blast+
  with replacesD(5) [OF r i(2)] i(3) entry_map_None [of k es] show ?thesis by (simp add: map_add_def without_def)
qed

lemma holding_finite: "holding t m \<Longrightarrow> finite (dom m)"
  by (auto simp: holding_def finite_dom_map_of)

section \<open>Trees with room\<close>

text \<open>A tree in a file with room and no quota, for examples: what is stored in it goes through.\<close>

definition roomy :: "tree \<Rightarrow> view \<Rightarrow> nat \<Rightarrow> bool" where
  "roomy t m n \<longleftrightarrow> holding t m \<and> maxPages (pages t) = 0 \<and> PageCount (meta (pages t)) \<le> n"

lemma roomy_limit: "roomy t m n \<Longrightarrow> n < 2 ^ 60 \<Longrightarrow> pageLimit (pages t)"
  by (simp add: roomy_def pageLimit_def)

lemma roomy_put:
  assumes "roomy t m n" "n < 2 ^ 60" "k \<noteq> []" "length k < MaxKey" "length v \<le> MaxInline"
  obtains t' where "treePut k v t = (Inr (), t')" "roomy t' (m(k \<mapsto> v)) (3 * n + 3)"
proof -
  from assms(1) obtain F kvs where h: "holds_map t F kvs" "map_of kvs = m" by (auto simp: roomy_def holding_def)
  have "PageCount (meta (pages t)) < 2 ^ 60" "maxPages (pages t) = 0" using assms(1,2) by (simp_all add: roomy_def)
  moreover have "checkKey k = Inr ()" using assms(3,4) by (simp add: checkKey_ok)
  ultimately obtain t' where "Put k v t = (Inr (), t')" "holds_map t' F (put_kv k v kvs)" "maxPages (pages t') = 0"
    "PageCount (meta (pages t')) \<le> 3 * PageCount (meta (pages t)) + 3"
    using Put_goes_through [OF h(1) _ assms(4,5)] by blast
  with h(2) map_of_put_kv [of k v kvs] assms(1) that [of t'] show thesis
    by (auto simp: treePut_def onTree_def roomy_def holding_def)
qed

lemma roomy_get: "roomy t m n \<Longrightarrow> k \<noteq> [] \<Longrightarrow> length k \<le> MaxKey \<Longrightarrow> treeGet k t = (Inr (m k), t)"
  by (auto simp: roomy_def holding_def treeGet_def checkKey_ok tree.fetch_spec)

lemma roomy_ascend:
  assumes "roomy t m n"
  shows "\<exists>kvs. sorted_wrt (<) (map fst kvs) \<and> map_of kvs = m \<and> treeAscend k visit s t = (Inr (visited visit (from_kv (Some k) kvs) s), t)"
proof -
  from assms obtain F kvs where h: "holds_map t F kvs" "map_of kvs = m" by (auto simp: roomy_def holding_def)
  from holds_map_sorted [OF h(1)] h(2) show ?thesis by (auto simp: treeAscend_def Ascend_visited [OF h(1)])
qed

lemma roomy_empty: obtains t where "roomy t Map.empty 2"
proof -
  obtain st :: pager where "owns st {} []" "meta st = zeroMeta\<lparr>TxID := 1, PageCount := 2\<rparr>" "maxPages st = 0"
    by (rule fresh_store)
  then have "holds_map (New st) {} []" by (simp add: holds_map_def tree_on_def New_def zeroMeta_def)
  then have "holding (New st) Map.empty" unfolding holding_def by (intro exI [of _ "{}"] exI [of _ "[]"]) simp
  with \<open>maxPages st = 0\<close> \<open>meta st = _\<close> that [of "New st"] show thesis by (simp add: roomy_def New_def)
qed

section \<open>An example\<close>

text \<open>A collection with a unique index and a total over all of it, and one document.\<close>

definition ex_index :: index_decl where
  "ex_index = \<lparr>i_name = [118], i_fields = [\<lparr>f_path = [118], f_type = TypeString, f_descending = False, f_missing = SkipMissing\<rparr>],
     i_unique = True, i_array = [], i_include = [], i_id = 0\<rparr>"

definition ex_spec :: spec where
  "ex_spec = \<lparr>s_name = [99], s_key = \<lparr>k_path = [107], k_type = TypeString, k_auto = []\<rparr>, s_indexes = [ex_index], s_partition = None,
     s_rollups = [\<lparr>r_name = [110], r_group = [], r_count = True, r_sum = [], r_id = 0\<rparr>], s_id = 1, s_next_index = 1, s_next_rollup = 1\<rparr>"

definition ex_doc :: doc where
  "ex_doc = fmap_of_list [([107], GKey (VString [97])), ([118], GKey (VString [98]))]"

definition ex_docs :: "doc codec" where
  "ex_docs = \<lparr>Marshal = (\<lambda>d. if d = ex_doc then Some [7] else None), Unmarshal = (\<lambda>b. if b = [7] then Some ex_doc else None)\<rparr>"

definition ex_totals :: "totals codec" where
  "ex_totals = \<lparr>Marshal = (\<lambda>x. if x = \<lparr>t_count = 1, t_sum = fmempty\<rparr> then Some [1] else None),
     Unmarshal = (\<lambda>b. if b = [1] then Some \<lparr>t_count = 1, t_sum = fmempty\<rparr> else None)\<rparr>"

lemma ex_key: "encodeKey ex_spec (GKey (VString [97])) = Inr [2, 0, 0, 0, 1, 0x40, 97, 0, 1]"
  by (simp add: encodeKey_def ex_spec_def matches_def TypeString_def TypeAny_def keyOf_def documents_def Encode_def encodeString_def plainField_def
      tag_defs space_defs be_numeral)

lemma ex_entries:
  "entriesFor ex_docs ex_spec ex_doc (GKey (VString [97])) =
     Inr [\<lparr>e_key = [3, 0, 0, 0, 1, 0, 0, 0x40, 98, 0, 1, 0x40, 97, 0, 1], e_value = [], e_index = ex_index, e_prefix = 11\<rparr>]"
  by (simp add: entriesFor_def ex_spec_def ex_index_def entriesForIndex_def ex_doc_def at_path_def matches_def TypeString_def TypeAny_def SkipMissing_def
      include_paths_def entryKey_def entries_def keyOf_def encoding_def FirstMissing_def LastMissing_def Encode_def encodeString_def plainField_def
      tag_defs space_defs be_numeral fmlookup_of_list)

lemma ex_group: "groupKey ex_spec (hd (s_rollups ex_spec)) ex_doc = Inr (Some [8, 0, 0, 0, 1, 0, 0])"
  by (simp add: groupKey_def ex_spec_def rollups_def EncodeKey_def encodings_def space_defs be_numeral)

lemma consistent_empty: "consistent jd jt s Map.empty"
  by (auto simp: consistent_def described_def single_def counted_def makes_def entry_for_def members_def row_ok_def tally_def)

lemma ex_numbered: "numbered ex_spec"
  by (simp add: numbered_def ex_spec_def)

lemma ex_faithful: "faithful ex_totals" "Marshal ex_docs ex_doc = Some b \<Longrightarrow> Unmarshal ex_docs b = Some ex_doc"
  by (auto simp: faithful_def ex_totals_def ex_docs_def split: if_splits)

lemma fmmap_keys_empty: "fmmap_keys f fmempty = fmempty"
  by (rule fmap_ext) simp

lemma ex_writes:
  obtains t t' where "roomy t Map.empty 2" "writeIn ex_docs ex_totals ex_spec ex_doc (GKey (VString [97])) [2, 0, 0, 0, 1, 0x40, 97, 0, 1] t = (Inr (), t')"
    "roomy t' [[8, 0, 0, 0, 1, 0, 0] \<mapsto> [1], [2, 0, 0, 0, 1, 0x40, 97, 0, 1] \<mapsto> [7], [3, 0, 0, 0, 1, 0, 0, 0x40, 98, 0, 1, 0x40, 97, 0, 1] \<mapsto> []] 102"
proof -
  let ?pk = "[2, 0, 0, 0, 1, 0x40, 97, 0, 1] :: bytes" and ?row = "[8, 0, 0, 0, 1, 0, 0] :: bytes"
    and ?e = "[3, 0, 0, 0, 1, 0, 0, 0x40, 98, 0, 1, 0x40, 97, 0, 1] :: bytes"
  note small = sizes layout
  obtain t where t: "roomy t Map.empty 2" by (rule roomy_empty)
  obtain t1 where t1: "treePut ?row [1] t = (Inr (), t1)" "roomy t1 [?row \<mapsto> [1]] 9" by (rule roomy_put [OF t, of ?row "[1]"]) (simp_all add: small)
  obtain t2 where t2: "treePut ?pk [7] t1 = (Inr (), t2)" "roomy t2 [?row \<mapsto> [1], ?pk \<mapsto> [7]] 30"
    by (rule roomy_put [OF t1(2), of ?pk "[7]"]) (simp_all add: small)
  obtain t3 where t3: "treePut ?e [] t2 = (Inr (), t3)" "roomy t3 [?row \<mapsto> [1], ?pk \<mapsto> [7], ?e \<mapsto> []] 93"
    by (rule roomy_put [OF t2(2), of ?e "[]"]) (simp_all add: small)
  have r: "read_doc ex_docs ?pk t = (Inr None, t)" using roomy_get [OF t, of ?pk] by (simp add: read_doc_def small)
  have "treeAscend (take 11 ?e) visit s t = (Inr s, t)" for visit and s :: "bytes option"
    using roomy_ascend [OF t, of "take 11 ?e" visit s] by (auto simp: from_kv_def)
  then have u: "checkUnique ex_spec ?pk [\<lparr>e_key = ?e, e_value = [], e_index = ex_index, e_prefix = 11\<rparr>] t = (Inr (), t)"
    by (simp add: Let_def)
  obtain rl where rl: "s_rollups ex_spec = [rl]" "r_sum rl = []" by (simp add: ex_spec_def)
  have "contributeOne ex_totals ex_spec ex_doc 1 rl t = (Inr (), t1)"
    using ex_group roomy_get [OF t, of ?row] t1(1) rl by (simp add: contributeOne_def addTotals_def ex_totals_def small Let_def fmmap_keys_empty)
  then have c: "contribute ex_totals ex_spec ex_doc 1 t = (Inr (), t1)" using rl(1) by (simp add: contribute_def)
  have mj: "Marshal ex_docs ex_doc = Some [7]" by (simp add: ex_docs_def)
  have "writeIn ex_docs ex_totals ex_spec ex_doc (GKey (VString [97])) ?pk t = (Inr (), t3)"
    using r u c t2(1) t3(1) mj by (simp add: writeIn_def ex_entries del: checkUnique.simps)
  from that [OF t this] t3(2) show thesis by (simp add: roomy_def)
qed

section \<open>Properties\<close>

lemma write_view:
  assumes "holding t m" "consistent jd jt s m" "numbered s" "faithful jt"
    and "encodeKey s key = Inr pk" "fmlookup document (k_path (s_key s)) = Some key"
    and "\<And>b. Marshal jd document = Some b \<Longrightarrow> Unmarshal jd b = Some document"
    and "written jd jt s document key pk m m'"
  shows "consistent jd jt s m' \<and> (\<exists>b. m' pk = Some b \<and> Unmarshal jd b = Some document)
    \<and> (\<forall>k. hasPrefix (documents s) k \<longrightarrow> k \<noteq> pk \<longrightarrow> m' k = m k) \<and> (\<forall>k. \<not> own s k \<longrightarrow> m' k = m k)"
proof -
  note ids = assms(3) [unfolded numbered_def]
  obtain pd old b es m1 m2 where r: "replaces jd s key pk pd old (Some b) es m m'" "Marshal jd document = Some b"
    "entriesFor jd s document key = Inr es" "\<forall>a \<in> set es. i_unique (e_index a) \<longrightarrow> free_for m s pk a"
    "taken_out jt s pd (without m old) m1" "contributed jt s document 1 m1 m2" "m' = m2(pk \<mapsto> b) ++ entry_map es"
    by (rule written_replaces [OF assms(8,5,6,7) conjunct1 [OF ids]])
  note c = assms(2) [unfolded consistent_def]
  have "described jd s m'" "single jd s m'" "counted jd jt s m'"
    using replaces_described [OF r(1)] replaces_single [OF r(1) _ _ r(4)]
      written_counted [OF r(1) assms(7) [OF r(2)] r(5-7) _ holding_finite [OF assms(1)] assms(4) conjunct2 [OF ids]] c by blast+
  moreover have "m' pk = Some b" using replaces_document [OF r(1) encodeKey_prefix [OF assms(5)]] by simp
  ultimately show ?thesis
    using assms(7) [OF r(2)] replaces_document [OF r(1)] replaces_frame [OF r(1)] by (simp add: consistent_def)
qed

lemma remove_view:
  assumes "holding t m" "consistent jd jt s m" "numbered s" "faithful jt" "encodeKey s key = Inr pk" "taken_away jd jt s key pk found m m'"
  shows "consistent jd jt s m' \<and> found = (m pk \<noteq> None) \<and> m' pk = None
    \<and> (\<forall>k. hasPrefix (documents s) k \<longrightarrow> k \<noteq> pk \<longrightarrow> m' k = m k) \<and> (\<forall>k. \<not> own s k \<longrightarrow> m' k = m k)"
proof -
  note ids = assms(3) [unfolded numbered_def]
  obtain pd old m1 where r: "replaces jd s key pk pd old None [] m m'" "found = (m pk \<noteq> None)"
    "taken_out jt s pd (without m old) m1" "m' = m1(pk := None)"
    by (rule removed_replaces [OF assms(6,5) conjunct1 [OF ids]])
  note c = assms(2) [unfolded consistent_def]
  have "described jd s m'" "single jd s m'" "counted jd jt s m'"
    using replaces_described [OF r(1)] replaces_single [OF r(1)]
      removed_counted [OF r(1,3,4) _ holding_finite [OF assms(1)] assms(4) conjunct2 [OF ids]] c by auto
  with r(2) replaces_document [OF r(1)] encodeKey_prefix [OF assms(5)] replaces_frame [OF r(1)] show ?thesis by (auto simp: consistent_def)
qed

text \<open>
  C13. Writing a document keeps the collection consistent: afterwards the entries under its indexes are
  exactly those of the documents stored, no two documents share a value of a unique index, and every
  row of totals is there for, and counts, the documents of its group. The document is the one read
  back, every other document is as it was, and so is every key of the tree outside the collection.
  The document survives its JSON form, as one that arrived as JSON does, and so do the totals.
\<close>

theorem write_keeps_consistent:
  assumes "holding t m" "consistent jd jt s m" "numbered s" "faithful jt"
    and "encodeKey s key = Inr pk" "fmlookup document (k_path (s_key s)) = Some key"
    and "\<And>b. Marshal jd document = Some b \<Longrightarrow> Unmarshal jd b = Some document"
    and "writeIn jd jt s document key pk t = (Inr (), t')" "pageLimit (pages t')"
  shows "\<exists>m'. holding t' m' \<and> consistent jd jt s m' \<and> (\<exists>b. m' pk = Some b \<and> Unmarshal jd b = Some document)
    \<and> (\<forall>k. hasPrefix (documents s) k \<longrightarrow> k \<noteq> pk \<longrightarrow> m' k = m k) \<and> (\<forall>k. \<not> own s k \<longrightarrow> m' k = m k)"
proof -
  obtain m' where "holding t' m'" "written jd jt s document key pk m m'"
    using doesD [OF does_writeIn assms(1,8)] assms(9) by (auto simp: limited_def)
  with write_view [OF assms(1-7)] show ?thesis by blast
qed

theorem write_keeps_consistent_witness:
  "\<exists>t' m'. holding t' m' \<and> consistent ex_docs ex_totals ex_spec m'
     \<and> (\<exists>b. m' [2, 0, 0, 0, 1, 0x40, 97, 0, 1] = Some b \<and> Unmarshal ex_docs b = Some ex_doc)"
proof -
  obtain t t' where t: "roomy t Map.empty 2" "writeIn ex_docs ex_totals ex_spec ex_doc (GKey (VString [97])) [2, 0, 0, 0, 1, 0x40, 97, 0, 1] t = (Inr (), t')"
    "roomy t' [[8, 0, 0, 0, 1, 0, 0] \<mapsto> [1], [2, 0, 0, 0, 1, 0x40, 97, 0, 1] \<mapsto> [7], [3, 0, 0, 0, 1, 0, 0, 0x40, 98, 0, 1, 0x40, 97, 0, 1] \<mapsto> []] 102"
    by (rule ex_writes)
  have h: "holding t Map.empty" using t(1) by (simp add: roomy_def)
  have k: "fmlookup ex_doc (k_path (s_key ex_spec)) = Some (GKey (VString [97]))" by (simp add: ex_doc_def ex_spec_def fmlookup_of_list)
  have "pageLimit (pages t')" by (rule roomy_limit [OF t(3)]) simp
  from write_keeps_consistent [OF h consistent_empty ex_numbered ex_faithful(1) ex_key k ex_faithful(2) t(2) this] show ?thesis by blast
qed



end
