(* ===== verification/Store_Ops.thy ===== *)
theory Store_Ops
  imports Store_Doc
begin

text \<open>
  Declared operations (\<^verbatim>\<open>internal/store/ops.go\<close>, \<^verbatim>\<open>namespace.go\<close>, \<^verbatim>\<open>declarer.go\<close>): what a declaration says, who
  calls it, what running it answers, and the names it may have. A nil value of type \<^verbatim>\<open>any\<close> is
  \<open>GKey VNil\<close>; a nil map is the empty one. An \<^verbatim>\<open>int\<close> of the language is an integer of 64 bits, kept in
  range by \<open>wrap64\<close> where it is added to.
\<close>

section \<open>Declarations\<close>

definition wrap64 :: "int \<Rightarrow> int" where
  "wrap64 n = signed_take_bit 63 n"

definition spaceOps :: byte where "spaceOps = 0x04"
definition spaceClaims :: byte where "spaceClaims = 0x09"

definition ActionGet :: bytes where "ActionGet = ascii ''get''"
definition ActionScan :: bytes where "ActionScan = ascii ''scan''"
definition ActionCount :: bytes where "ActionCount = ascii ''count''"
definition ActionTotals :: bytes where "ActionTotals = ascii ''totals''"
definition ActionInsert :: bytes where "ActionInsert = ascii ''insert''"
definition ActionPut :: bytes where "ActionPut = ascii ''put''"
definition ActionUpdate :: bytes where "ActionUpdate = ascii ''update''"
definition ActionDelete :: bytes where "ActionDelete = ascii ''delete''"
definition ActionBatch :: bytes where "ActionBatch = ascii ''batch''"
definition ActionHashRange :: bytes where "ActionHashRange = ascii ''hashRange''"
definition ActionDeleteRange :: bytes where "ActionDeleteRange = ascii ''deleteRange''"

lemmas action_defs = ActionGet_def ActionScan_def ActionCount_def ActionTotals_def ActionInsert_def ActionPut_def ActionUpdate_def
  ActionDelete_def ActionBatch_def ActionHashRange_def ActionDeleteRange_def

definition DecodeBase64 :: bytes where "DecodeBase64 = ascii ''base64''"
definition ClusteredIndex :: bytes where "ClusteredIndex = ascii ''_key''"
definition DirectionForward :: bytes where "DirectionForward = ascii ''forward''"
definition DirectionReverse :: bytes where "DirectionReverse = ascii ''reverse''"

definition gnil :: gval where "gnil = GKey VNil"

record parameter =
  pm_name :: bytes
  pm_type :: bytes
  pm_required :: bool
  pm_default :: gval

record term_decl =
  tm_arg :: bytes
  tm_value :: gval
  tm_constant :: bool
  tm_step :: bytes
  tm_field :: bytes

record condition =
  cn_path :: bytes
  cn_equals :: "term_decl option"
  cn_absent :: bool

record step =
  sp_name :: bytes
  sp_action :: bytes
  sp_collection :: bytes
  sp_operation :: bytes
  sp_version :: int
  sp_with :: "(bytes, term_decl) fmap"
  sp_key :: "term_decl option"
  sp_document :: "(bytes, term_decl) fmap"
  sp_set :: "(bytes, term_decl) fmap"
  sp_exists :: "bool option"
  sp_require :: "condition list"

record endpoint =
  en_terms :: "term_decl list"
  en_exclusive :: bool

record declarer =
  dc_kind :: bytes
  dc_identity :: bytes

record operation =
  o_name :: bytes
  o_collection :: bytes
  o_action :: bytes
  o_input :: "parameter list"
  o_key :: "term_decl option"
  o_rollup :: bytes
  o_index :: bytes
  o_from :: "endpoint option"
  o_to :: "endpoint option"
  o_direction :: "term_decl option"
  o_document :: "(bytes, term_decl) fmap"
  o_set :: "(bytes, term_decl) fmap"
  o_steps :: "step list"
  o_field :: bytes
  o_decode :: bytes
  o_projection :: "bytes list"
  o_limit :: int
  o_scopes :: "bytes list"
  o_version :: int
  o_declared_by :: "declarer option"

record caller =
  cl_scopes :: "bytes list"
  cl_actor :: bytes
  cl_write_id :: bytes
  cl_signer :: bytes

record result =
  rs_operation :: bytes
  rs_version :: int
  rs_rows :: "doc list"
  rs_count :: int
  rs_key :: gval
  rs_changed :: int
  rs_truncated :: bool
  rs_repeated :: "64 word"
  rs_digest :: bytes

definition newResult :: "bytes \<Rightarrow> int \<Rightarrow> result" where
  "newResult name version = \<lparr>rs_operation = name, rs_version = version, rs_rows = [], rs_count = 0, rs_key = gnil, rs_changed = 0,
     rs_truncated = False, rs_repeated = 0, rs_digest = []\<rparr>"

definition directionOf :: "gval \<Rightarrow> store_error + direction" where
  "directionOf v =
     (if v = GKey (VString DirectionForward) then Inr Forward
      else if v = GKey (VString DirectionReverse) then Inr Reverse
      else Inl ErrArgument)"

definition Writes :: "bytes \<Rightarrow> bool" where
  "Writes action \<longleftrightarrow> action \<in> {ActionInsert, ActionPut, ActionUpdate, ActionDelete, ActionBatch, ActionDeleteRange}"

definition operationPrefix :: "bytes \<Rightarrow> bytes" where
  "operationPrefix name = spaceOps # name @ [0]"

text \<open>The version is cut to its low 32 bits.\<close>

definition operationKey :: "bytes \<Rightarrow> int \<Rightarrow> bytes" where
  "operationKey name version = operationPrefix name @ be 4 (nat (version mod 2 ^ 32))"

section \<open>Who declares\<close>

definition ClaimedByKey :: bytes where "ClaimedByKey = ascii ''key''"
definition ClaimedByActor :: bytes where "ClaimedByActor = ascii ''actor''"

definition declarerOf :: "caller \<Rightarrow> declarer option" where
  "declarerOf c =
     (if cl_signer c \<noteq> [] then Some \<lparr>dc_kind = ClaimedByKey, dc_identity = cl_signer c\<rparr>
      else if cl_actor c \<noteq> [] then Some \<lparr>dc_kind = ClaimedByActor, dc_identity = cl_actor c\<rparr>
      else None)"

record claim =
  cm_namespace :: bytes
  cm_kind :: bytes
  cm_identity :: bytes

definition holder :: "bytes \<Rightarrow> caller \<Rightarrow> claim" where
  "holder namespace c =
     (if cl_signer c \<noteq> [] then \<lparr>cm_namespace = namespace, cm_kind = ClaimedByKey, cm_identity = cl_signer c\<rparr>
      else \<lparr>cm_namespace = namespace, cm_kind = ClaimedByActor, cm_identity = cl_actor c\<rparr>)"

definition same_claim :: "claim \<Rightarrow> claim \<Rightarrow> bool" where
  "same_claim a b \<longleftrightarrow> cm_kind a = cm_kind b \<and> cm_identity a = cm_identity b"

definition claimKey :: "bytes \<Rightarrow> bytes" where
  "claimKey namespace = spaceClaims # namespace"

section \<open>Names\<close>

definition NamespaceSeparator :: byte where "NamespaceSeparator = of_char CHR '':''"

definition usableNamespaceByte :: "byte \<Rightarrow> bool" where
  "usableNamespaceByte b \<longleftrightarrow>
     of_char CHR ''a'' \<le> b \<and> b \<le> of_char CHR ''z'' \<or> of_char CHR ''A'' \<le> b \<and> b \<le> of_char CHR ''Z''
     \<or> of_char CHR ''0'' \<le> b \<and> b \<le> of_char CHR ''9''
     \<or> b = of_char CHR ''.'' \<or> b = of_char CHR ''-'' \<or> b = of_char CHR ''_''"

definition SplitOperationName :: "bytes \<Rightarrow> store_error + bytes \<times> bytes" where
  "SplitOperationName name =
     (if NamespaceSeparator \<notin> set name then Inr ([], name)
      else let namespace = takeWhile (\<lambda>b. b \<noteq> NamespaceSeparator) name; local = drop (Suc (length namespace)) name in
        if NamespaceSeparator \<in> set local then Inl ErrNamespace
        else if namespace = [] then Inl ErrNamespace
        else if local = [] then Inl ErrNamespace
        else if \<not> list_all usableNamespaceByte namespace then Inl ErrNamespace
        else Inr (namespace, local))"

text \<open>A name that splits is spelled by its two halves, and by no others.\<close>

lemma SplitOperationName_spells:
  assumes "SplitOperationName name = Inr (namespace, local)"
  shows "name = (if namespace = [] then local else namespace @ NamespaceSeparator # local)"
    "NamespaceSeparator \<notin> set namespace" "NamespaceSeparator \<notin> set local"
proof -
  let ?P = "\<lambda>b. b \<noteq> NamespaceSeparator"
  consider "NamespaceSeparator \<notin> set name" "namespace = []" "local = name"
    | "NamespaceSeparator \<in> set name" "namespace = takeWhile ?P name" "namespace \<noteq> []" "local = drop (Suc (length namespace)) name"
      "NamespaceSeparator \<notin> set local"
    using assms by (auto simp: SplitOperationName_def Let_def split: if_splits)
  then have "name = (if namespace = [] then local else namespace @ NamespaceSeparator # local) \<and> NamespaceSeparator \<notin> set namespace \<and> NamespaceSeparator \<notin> set local"
  proof cases
    case 2
    have t: "name = takeWhile ?P name @ dropWhile ?P name" by simp
    obtain r where r: "dropWhile ?P name = NamespaceSeparator # r"
      using 2(1) by (cases "dropWhile ?P name") (auto simp: dropWhile_eq_Cons_conv dropWhile_eq_Nil_conv)
    with t 2(2) have n: "name = namespace @ NamespaceSeparator # r" by simp
    then have "local = r" using 2(4) by simp
    moreover have "NamespaceSeparator \<notin> set namespace" unfolding 2(2) by (auto dest: set_takeWhileD)
    ultimately show ?thesis using n 2(3,5) by simp
  qed simp
  then show "name = (if namespace = [] then local else namespace @ NamespaceSeparator # local)"
    "NamespaceSeparator \<notin> set namespace" "NamespaceSeparator \<notin> set local" by blast+
qed

end
