(* ===== verification/Store_Log.thy ===== *)
theory Store_Log
  imports Store_Write Store_Ops
begin

text \<open>
  The change log (\<^verbatim>\<open>internal/store/log.go\<close>): numbered entries in the tree of the database, the record of what a
  caller's own write id did, the cap on how many entries are kept, and the questions a follower asks.
\<close>

section \<open>Entries\<close>

record attribution =
  a_operation :: bytes
  a_version :: int
  a_actor :: bytes
  a_write_id :: bytes

definition ChangePut :: bytes where "ChangePut = ascii ''put''"
definition ChangeDelete :: bytes where "ChangeDelete = ascii ''delete''"
definition ChangeDeclare :: bytes where "ChangeDeclare = ascii ''declare''"
definition ChangeOperation :: bytes where "ChangeOperation = ascii ''operation''"
definition ChangeDrop :: bytes where "ChangeDrop = ascii ''drop''"
definition ChangeRead :: bytes where "ChangeRead = ascii ''read''"

record change =
  c_lsn :: "64 word"
  c_at :: int
  c_kind :: bytes
  c_collection :: bytes
  c_key :: gval
  c_document :: "doc option"
  c_spec :: "spec option"
  c_operation :: "operation option"
  c_by :: attribution

record done_write =
  d_lsn :: "64 word"
  d_key :: gval
  d_changed :: int

text \<open>\<^verbatim>\<open>encoding/json\<close> at the types the store uses it for.\<close>

record json =
  j_docs :: "doc codec"
  j_totals :: "totals codec"
  j_specs :: "spec codec"
  j_changes :: "change codec"
  j_dones :: "done_write codec"
  j_operations :: "operation codec"
  j_claims :: "claim codec"

definition nextLSN :: bytes where
  "nextLSN = spaceMeta # ascii ''lsn''"

section \<open>Operations\<close>

definition latestLSN :: "64 word on_tree" where
  "latestLSN =
     bnd (treeGet nextLSN) (\<lambda>v.
       case v of
         None \<Rightarrow> ret 0
       | Some b \<Rightarrow> if length b \<noteq> 8 then throw ErrDamaged else ret (word_of_nat (unbe b)))"

definition setLSN :: "64 word \<Rightarrow> unit on_tree" where
  "setLSN lsn = treePut nextLSN (be 8 (unat lsn))"

definition takeLSN :: "64 word on_tree" where
  "takeLSN = bnd latestLSN (\<lambda>latest. bnd (setLSN (latest + 1)) (\<lambda>_. ret (latest + 1)))"

definition noteWrite :: "json \<Rightarrow> change \<Rightarrow> unit on_tree" where
  "noteWrite j c =
     (if a_write_id (c_by c) = [] then ret ()
      else case Marshal (j_dones j) \<lparr>d_lsn = c_lsn c, d_key = c_key c, d_changed = 1\<rparr> of
             None \<Rightarrow> throw ErrMarshal
           | Some b \<Rightarrow> treePut (writeKey (a_write_id (c_by c))) b)"

definition dooms :: "json \<Rightarrow> 64 word \<Rightarrow> bytes \<Rightarrow> bytes \<Rightarrow> change list \<Rightarrow> bool \<times> change list" where
  "dooms j until key val doomed =
     (if \<not> hasPrefix [spaceLog] key then (False, doomed)
      else case Unmarshal (j_changes j) val of
             None \<Rightarrow> (False, doomed)
           | Some c \<Rightarrow> if c_lsn c > until then (False, doomed) else (True, doomed @ [c]))"

fun dropChanges :: "change list \<Rightarrow> unit on_tree" where
  "dropChanges [] = ret ()"
| "dropChanges (c # cs) =
     bnd (treeDelete (logKey (c_lsn c))) (\<lambda>_.
     bnd (if a_write_id (c_by c) = [] then ret () else bnd (treeDelete (writeKey (a_write_id (c_by c)))) (\<lambda>_. ret ())) (\<lambda>_.
     dropChanges cs))"

text \<open>\<open>retain\<close> is the number of entries to keep; nothing is dropped when it is not positive.\<close>

definition trim :: "json \<Rightarrow> int \<Rightarrow> unit on_tree" where
  "trim j retain =
     (if retain \<le> 0 then ret ()
      else bnd latestLSN (\<lambda>latest.
        if latest \<le> word_of_int retain then ret ()
        else bnd (treeAscend [spaceLog] (dooms j (latest - word_of_int retain)) []) dropChanges))"

text \<open>\<open>ms\<close> is the time in milliseconds the clock gives, for an entry that carries none.\<close>

definition record_change :: "json \<Rightarrow> int \<Rightarrow> int \<Rightarrow> change \<Rightarrow> 64 word on_tree" where
  "record_change j retain ms c =
     bnd takeLSN (\<lambda>lsn.
       let c = c\<lparr>c_lsn := lsn, c_at := (if c_at c = 0 then ms else c_at c)\<rparr> in
       case Marshal (j_changes j) c of
         None \<Rightarrow> throw ErrMarshal
       | Some encoded \<Rightarrow>
           bnd (treePut (logKey lsn) encoded) (\<lambda>_.
           bnd (noteWrite j c) (\<lambda>_.
           bnd (trim j retain) (\<lambda>_. ret lsn))))"

definition shows_change :: "json \<Rightarrow> (change \<Rightarrow> 's \<Rightarrow> bool \<times> 's) \<Rightarrow> bytes \<Rightarrow> bytes \<Rightarrow> 's \<Rightarrow> bool \<times> 's" where
  "shows_change j visit key val s =
     (if \<not> hasPrefix [spaceLog] key then (False, s)
      else case Unmarshal (j_changes j) val of None \<Rightarrow> (False, s) | Some c \<Rightarrow> visit c s)"

definition Changes :: "json \<Rightarrow> 64 word \<Rightarrow> (change \<Rightarrow> 's \<Rightarrow> bool \<times> 's) \<Rightarrow> 's \<Rightarrow> 's on_tree" where
  "Changes j from visit s = treeAscend (logKey from) (shows_change j visit) s"

definition oldest_entry :: "bytes \<Rightarrow> bytes \<Rightarrow> 64 word \<Rightarrow> bool \<times> 64 word" where
  "oldest_entry key val oldest =
     (if \<not> hasPrefix [spaceLog] key \<or> length key \<noteq> 9 then (False, oldest) else (False, word_of_nat (unbe (drop 1 key))))"

definition OldestLSN :: "64 word on_tree" where
  "OldestLSN = treeAscend [spaceLog] oldest_entry 0"

definition CanFollow :: "64 word \<Rightarrow> bool on_tree" where
  "CanFollow from =
     bnd OldestLSN (\<lambda>oldest.
       if oldest = 0 then bnd latestLSN (\<lambda>latest. ret (from > latest))
       else ret (from \<ge> oldest))"

definition Wrote :: "json \<Rightarrow> bytes \<Rightarrow> (64 word \<times> gval) option on_tree" where
  "Wrote j wid =
     (if wid = [] then ret None
      else bnd (treeGet (writeKey wid)) (\<lambda>v.
        case v of
          None \<Rightarrow> ret None
        | Some b \<Rightarrow> (case Unmarshal (j_dones j) b of None \<Rightarrow> throw ErrDamaged | Some d \<Rightarrow> ret (Some (d_lsn d, d_key d)))))"

section \<open>What the log holds\<close>

text \<open>
  The entries numbered from after \<open>lo\<close> up to \<open>hi\<close> are there, each with its number, and the counter says \<open>hi\<close>.
\<close>

definition log_ok :: "json \<Rightarrow> nat \<Rightarrow> nat \<Rightarrow> view \<Rightarrow> bool" where
  "log_ok j lo hi m \<longleftrightarrow> lo \<le> hi \<and> hi < 2 ^ 64
     \<and> (case m nextLSN of None \<Rightarrow> hi = 0 | Some b \<Rightarrow> b = be 8 hi)
     \<and> (\<forall>k. hasPrefix [spaceLog] k \<longrightarrow> (m k \<noteq> None \<longleftrightarrow> (\<exists>l. lo < l \<and> l \<le> hi \<and> k = logKey (word_of_nat l))))
     \<and> (\<forall>l b. lo < l \<longrightarrow> l \<le> hi \<longrightarrow> m (logKey (word_of_nat l)) = Some b \<longrightarrow>
          (\<exists>c. Unmarshal (j_changes j) b = Some c \<and> c_lsn c = word_of_nat l))"

lemma logKey_less: "logKey a < logKey b \<longleftrightarrow> a < b"
proof -
  have "unat a < 256 ^ 8" "unat b < 256 ^ 8" using unsigned_less [of a] unsigned_less [of b] by simp_all
  then show ?thesis using less_iff_unbe [of "be 8 (unat a)" "be 8 (unat b)"] by (simp add: logKey_def word_less_nat_alt)
qed

lemma unat64: "l < 2 ^ 64 \<Longrightarrow> unat (word_of_nat l :: 64 word) = l"
  by (simp add: unsigned_of_nat take_bit_nat_eq_self)

lemma logKey_eq [simp]: "logKey a = logKey b \<longleftrightarrow> a = b"
  by (metis logKey_less linorder_neq_iff)

lemma word64_eq: "l < 2 ^ 64 \<Longrightarrow> l' < 2 ^ 64 \<Longrightarrow> (word_of_nat l :: 64 word) = word_of_nat l' \<longleftrightarrow> l = l'"
  by (metis unat64)

lemma logKey_prefix [simp]: "hasPrefix [spaceLog] (logKey l)"
  by (simp add: hasPrefix_def logKey_def)

lemma log_apart [simp]: "\<not> hasPrefix [spaceLog] nextLSN" "\<not> hasPrefix [spaceLog] (writeKey w)" "\<not> hasPrefix [spaceWrites] nextLSN"
  "\<not> hasPrefix [spaceWrites] (logKey l)" "hasPrefix [spaceWrites] (writeKey w)" "nextLSN \<noteq> logKey l" "nextLSN \<noteq> writeKey w" "logKey l \<noteq> writeKey w"
  by (simp_all add: hasPrefix_def nextLSN_def logKey_def writeKey_def space_defs)

lemma log_okD:
  assumes "log_ok j lo hi m"
  shows "lo \<le> hi" "hi < 2 ^ 64" "case m nextLSN of None \<Rightarrow> hi = 0 | Some b \<Rightarrow> b = be 8 hi"
    "hasPrefix [spaceLog] k \<Longrightarrow> m k \<noteq> None \<longleftrightarrow> (\<exists>l. lo < l \<and> l \<le> hi \<and> k = logKey (word_of_nat l))"
    "lo < l \<Longrightarrow> l \<le> hi \<Longrightarrow> \<exists>b c. m (logKey (word_of_nat l)) = Some b \<and> Unmarshal (j_changes j) b = Some c \<and> c_lsn c = word_of_nat l"
proof -
  note d = assms [unfolded log_ok_def]
  show "lo \<le> hi" "hi < 2 ^ 64" "case m nextLSN of None \<Rightarrow> hi = 0 | Some b \<Rightarrow> b = be 8 hi" using d by blast+
  show e: "hasPrefix [spaceLog] k \<Longrightarrow> m k \<noteq> None \<longleftrightarrow> (\<exists>l. lo < l \<and> l \<le> hi \<and> k = logKey (word_of_nat l))" for k using d by blast
  assume l: "lo < l" "l \<le> hi"
  then have "m (logKey (word_of_nat l)) \<noteq> None" using e [of "logKey (word_of_nat l)"] by auto
  with l d show "\<exists>b c. m (logKey (word_of_nat l)) = Some b \<and> Unmarshal (j_changes j) b = Some c \<and> c_lsn c = word_of_nat l" by blast
qed

lemma latest_view: "log_ok j lo hi m \<Longrightarrow> does latestLSN m (\<lambda>l m'. m' = m \<and> l = word_of_nat hi)"
proof -
  assume l: "log_ok j lo hi m"
  have "unbe (be 8 hi) = hi" using log_okD(2) [OF l] by simp
  with log_okD(3) [OF l] show ?thesis
    unfolding latestLSN_def
    by (intro does_bnd [where Q = "\<lambda>v m'. v = m nextLSN \<and> m' = m"]) (auto intro!: does_rules back_rules split: option.splits)
qed

text \<open>The entries of the log, in the order of the tree.\<close>

definition change_at :: "json \<Rightarrow> view \<Rightarrow> nat \<Rightarrow> change" where
  "change_at j m l = the (Unmarshal (j_changes j) (the (m (logKey (word_of_nat l)))))"

lemma log_entries:
  assumes "log_ok j lo hi m" "sorted_wrt (<) (map fst kvs)" "map_of kvs = m"
  shows "filter (\<lambda>kv. hasPrefix [spaceLog] (fst kv)) kvs = map (\<lambda>l. (logKey (word_of_nat l), the (m (logKey (word_of_nat l))))) [Suc lo..<Suc hi]"
proof -
  let ?xs = "filter (\<lambda>kv. hasPrefix [spaceLog] (fst kv)) kvs" and ?key = "\<lambda>l. logKey (word_of_nat l)"
  have dk: "distinct (map fst kvs)" using assms(2) strict_sorted_iff by blast
  have s1: "sorted_wrt (<) (map fst ?xs)" using assms(2) by (simp add: sorted_wrt_map sorted_wrt_filter)
  have "(word_of_nat a :: 64 word) < word_of_nat b" if "a < b" "b \<le> hi" for a b
    using that log_okD(2) [OF assms(1)] by (simp add: word_less_nat_alt unat64)
  then have s2: "sorted_wrt (<) (map ?key [Suc lo..<Suc hi])"
    unfolding sorted_wrt_map logKey_less by (intro sorted_wrt_mono_rel [OF _ sorted_wrt_upt]) auto
  have "fst ` set ?xs = {k. hasPrefix [spaceLog] k \<and> m k \<noteq> None}"
    using assms(3) dom_map_of_conv_image_fst [of kvs] by (force simp: domIff)
  also have "\<dots> = ?key ` {Suc lo..<Suc hi}"
  proof (intro set_eqI iffI)
    fix k assume "k \<in> {k. hasPrefix [spaceLog] k \<and> m k \<noteq> None}"
    then obtain l where "lo < l" "l \<le> hi" "k = ?key l" using log_okD(4) [OF assms(1), of k] by auto
    then show "k \<in> ?key ` {Suc lo..<Suc hi}" by (intro image_eqI [of _ _ l]) simp_all
  next
    fix k assume "k \<in> ?key ` {Suc lo..<Suc hi}"
    then obtain l where l: "l \<in> {Suc lo..<Suc hi}" "k = ?key l" by blast
    then have "lo < l" "l \<le> hi" by simp_all
    with l(2) show "k \<in> {k. hasPrefix [spaceLog] k \<and> m k \<noteq> None}" using log_okD(4) [OF assms(1), of k] by auto
  qed
  finally have "set (map fst ?xs) = set (map ?key [Suc lo..<Suc hi])" by (simp only: set_map set_upt)
  with s1 s2 have keys: "map fst ?xs = map ?key [Suc lo..<Suc hi]" by (metis strict_sorted_equal)
  have "kv = (fst kv, the (m (fst kv)))" if "kv \<in> set ?xs" for kv
  proof -
    have "map_of kvs (fst kv) = Some (snd kv)" using that dk by (intro map_of_is_SomeI) simp_all
    then show ?thesis by (simp add: assms(3) [symmetric] prod_eq_iff)
  qed
  then have "?xs = map (\<lambda>kv. (fst kv, the (m (fst kv)))) ?xs" by (intro map_idI [symmetric]) metis
  also have "\<dots> = map (\<lambda>k. (k, the (m k))) (map fst ?xs)" by simp
  also have "\<dots> = map (\<lambda>l. (?key l, the (m (?key l)))) [Suc lo..<Suc hi]" unfolding keys by simp
  finally show ?thesis .
qed

lemma change_at_entry:
  assumes "log_ok j lo hi m" "lo < l" "l \<le> hi"
  shows "Unmarshal (j_changes j) (the (m (logKey (word_of_nat l)))) = Some (change_at j m l)" "c_lsn (change_at j m l) = word_of_nat l"
  using log_okD(5) [OF assms] by (auto simp: change_at_def)

lemma visited_dooms:
  assumes "\<forall>l \<in> set ls. Unmarshal (j_changes j) (the (m (logKey (word_of_nat l)))) = Some (change_at j m l) \<and> c_lsn (change_at j m l) = word_of_nat l"
  shows "visited (dooms j until) (map (\<lambda>l. (logKey (word_of_nat l), the (m (logKey (word_of_nat l))))) ls) acc =
     acc @ map (change_at j m) (takeWhile (\<lambda>l. word_of_nat l \<le> until) ls)"
  using assms by (induction ls arbitrary: acc) (auto simp: dooms_def not_le)

lemma takeWhile_upt: "takeWhile (\<lambda>l. l \<le> u) [a..<Suc hi] = [a..<Suc (min u hi)]"
proof (cases "u < hi")
  case True
  show ?thesis
  proof (cases "a \<le> u")
    case le: True
    have "[a..<Suc hi] = [a..<Suc u] @ [Suc u..<Suc hi]" using True le upt_add_eq_append [of a "Suc u" "hi - u"] by simp
    moreover have "takeWhile (\<lambda>l. l \<le> u) [Suc u..<Suc hi] = []" using True by (simp add: upt_conv_Cons del: upt_Suc)
    ultimately show ?thesis using True by (simp add: takeWhile_append del: upt_Suc)
  next
    case False
    then have "takeWhile (\<lambda>l. l \<le> u) [a..<Suc hi] = []" by (cases "a < Suc hi") (simp_all add: upt_conv_Cons del: upt_Suc)
    with False True show ?thesis by simp
  qed
next
  case False
  then show ?thesis by (simp add: min_absorb2 takeWhile_eq_all_conv del: upt_Suc)
qed

lemma backs_drop: "backs (dropChanges cs)"
  by (induction cs) (simp_all only: dropChanges.simps back_rules)

lemma does_dropChanges:
  "does (dropChanges cs) m (\<lambda>_ m'. (\<forall>k. \<not> hasPrefix [spaceWrites] k \<longrightarrow> m' k = (if k \<in> (\<lambda>c. logKey (c_lsn c)) ` set cs then None else m k)))"
proof (induction cs arbitrary: m)
  case Nil
  show ?case unfolding dropChanges.simps by (rule does_ret) simp
next
  case (Cons c cs)
  show ?case unfolding dropChanges.simps
  proof (rule does_bnd [OF does_treeDelete [where Q = "\<lambda>_ m'. m' = m(logKey (c_lsn c) := None)", OF refl]], goal_cases)
    case (2 b m1)
    show ?case
    proof (rule does_bnd [where Q = "\<lambda>_ m2. \<forall>k. \<not> hasPrefix [spaceWrites] k \<longrightarrow> m2 k = m1 k"], goal_cases)
      case 1
      show ?case
        by (auto intro!: does_cases does_ret does_bnd [OF does_treeDelete [where Q = "\<lambda>_ m2. m2 = m1(writeKey (a_write_id (c_by c)) := None)", OF refl]] back_rules)
    next
      case (3 u m2)
      show ?case by (rule does_weaken [OF Cons]) (use 2 3 in auto)
    qed (rule backs_drop)
  qed (intro back_rules backs_drop)
qed

text \<open>Where the log starts once it is cut to its cap.\<close>

definition cut_at :: "int \<Rightarrow> nat \<Rightarrow> nat \<Rightarrow> nat" where
  "cut_at retain lo hi = (if 0 < retain \<and> retain < int hi then max lo (hi - nat retain) else lo)"

lemma log_ok_cut:
  assumes l: "log_ok j lo hi m" and u: "u \<le> hi"
    and m': "\<And>k. \<not> hasPrefix [spaceWrites] k \<Longrightarrow> m' k = (if k \<in> (\<lambda>l. logKey (word_of_nat l)) ` {Suc lo..<Suc u} then None else m k)"
  shows "log_ok j (max lo u) hi m'" "max lo u < n \<Longrightarrow> n \<le> hi \<Longrightarrow> m' (logKey (word_of_nat n)) = m (logKey (word_of_nat n))"
proof -
  note d = log_okD [OF l]
  have in_cut: "logKey (word_of_nat n) \<in> (\<lambda>l. logKey (word_of_nat l)) ` {Suc lo..<Suc u} \<longleftrightarrow> lo < n \<and> n \<le> u" if "n \<le> hi" for n
    using that u d(2) word64_eq by (auto simp: image_iff)
  show above: "m' (logKey (word_of_nat n)) = m (logKey (word_of_nat n))" if "max lo u < n" "n \<le> hi" for n
    using m' [of "logKey (word_of_nat n)"] in_cut [OF that(2)] that(1) by simp
  have "nextLSN \<notin> (\<lambda>l. logKey (word_of_nat l)) ` {Suc lo..<Suc u}" by auto
  then have n: "m' nextLSN = m nextLSN" using m' [of nextLSN] by simp
  have keys: "m' k \<noteq> None \<longleftrightarrow> (\<exists>l. max lo u < l \<and> l \<le> hi \<and> k = logKey (word_of_nat l))" if k: "hasPrefix [spaceLog] k" for k
  proof -
    have w: "\<not> hasPrefix [spaceWrites] k" using k by (auto simp: hasPrefix_append space_defs)
    show ?thesis
    proof
      assume "m' k \<noteq> None"
      then have "k \<notin> (\<lambda>l. logKey (word_of_nat l)) ` {Suc lo..<Suc u}" "m k \<noteq> None" using m' [OF w] by (auto split: if_splits)
      with d(4) [OF k] in_cut show "\<exists>l. max lo u < l \<and> l \<le> hi \<and> k = logKey (word_of_nat l)" by (metis max_less_iff_conj not_le)
    next
      assume "\<exists>l. max lo u < l \<and> l \<le> hi \<and> k = logKey (word_of_nat l)"
      with above d(4) [OF k] show "m' k \<noteq> None" by (metis max_less_iff_conj)
    qed
  qed
  have "\<exists>c. Unmarshal (j_changes j) b = Some c \<and> c_lsn c = word_of_nat n"
    if "max lo u < n" "n \<le> hi" "m' (logKey (word_of_nat n)) = Some b" for n b
    using that above [OF that(1,2)] d(5) [of n] by auto
  with keys d(1-3) u n show "log_ok j (max lo u) hi m'" by (simp add: log_ok_def)
qed

lemma does_trim:
  assumes l: "log_ok j lo hi m" and r: "retain < 2 ^ 63"
  shows "does (trim j retain) m (\<lambda>_ m'. log_ok j (cut_at retain lo hi) hi m'
    \<and> (\<forall>k. \<not> hasPrefix [spaceWrites] k \<longrightarrow> \<not> hasPrefix [spaceLog] k \<longrightarrow> m' k = m k)
    \<and> (\<forall>n. cut_at retain lo hi < n \<longrightarrow> n \<le> hi \<longrightarrow> m' (logKey (word_of_nat n)) = m (logKey (word_of_nat n))))"
proof (cases "0 < retain")
  case False
  with l show ?thesis unfolding trim_def by (simp add: cut_at_def does_ret)
next
  case True
  note d = log_okD [OF l]
  let ?u = "hi - nat retain"
  have w: "unat (word_of_int retain :: 64 word) = nat retain" using True r by (simp add: unsigned_of_int take_bit_int_eq_self nat_less_iff)
  have h: "unat (word_of_nat hi :: 64 word) = hi" using d(2) by (rule unat64)
  have le: "(word_of_nat hi :: 64 word) \<le> word_of_int retain \<longleftrightarrow> int hi \<le> retain"
    using True by (simp add: word_le_nat_alt w h le_nat_iff)
  have post: "does (bnd (treeAscend [spaceLog] (dooms j (word_of_nat hi - word_of_int retain)) []) dropChanges) m (\<lambda>_ m'. log_ok j (cut_at retain lo hi) hi m'
      \<and> (\<forall>k. \<not> hasPrefix [spaceWrites] k \<longrightarrow> \<not> hasPrefix [spaceLog] k \<longrightarrow> m' k = m k)
      \<and> (\<forall>n. cut_at retain lo hi < n \<longrightarrow> n \<le> hi \<longrightarrow> m' (logKey (word_of_nat n)) = m (logKey (word_of_nat n))))"
    if big: "\<not> int hi \<le> retain"
  proof (rule does_bnd [where Q = "\<lambda>cs m'. m' = m \<and> cs = map (change_at j m) [Suc lo..<Suc ?u]"])
    have u: "unat ((word_of_nat hi :: 64 word) - word_of_int retain) = ?u" using big le by (simp add: unat_sub w h)
    have "(word_of_nat n \<le> (word_of_nat hi :: 64 word) - word_of_int retain) = (n \<le> ?u)" if "n < Suc hi" for n
      using that d(2) by (simp add: word_le_nat_alt u unat64)
    then have tw: "takeWhile (\<lambda>n. word_of_nat n \<le> (word_of_nat hi :: 64 word) - word_of_int retain) [Suc lo..<Suc hi] = [Suc lo..<Suc ?u]"
      using takeWhile_upt [of ?u "Suc lo" hi] by (subst takeWhile_cong [OF refl, of _ _ "\<lambda>n. n \<le> ?u"]) (simp_all del: upt_Suc)
    show "does (treeAscend [spaceLog] (dooms j (word_of_nat hi - word_of_int retain)) []) m (\<lambda>cs m'. m' = m \<and> cs = map (change_at j m) [Suc lo..<Suc ?u])"
    proof (rule does_treeAscend, intro conjI refl)
      fix kvs assume k: "sorted_wrt (<) (map fst kvs)" "map_of kvs = m"
      have "visited (dooms j (word_of_nat hi - word_of_int retain)) (from_kv (Some [spaceLog]) kvs) [] =
        visited (dooms j (word_of_nat hi - word_of_int retain)) (filter (\<lambda>kv. hasPrefix [spaceLog] (fst kv)) kvs) []"
        by (rule prefix_walk [OF k(1)]) (simp add: dooms_def)
      also have "\<dots> = map (change_at j m) [Suc lo..<Suc ?u]"
        unfolding log_entries [OF l k] by (subst visited_dooms) (auto simp: change_at_entry [OF l] tw simp del: upt_Suc)
      finally show "visited (dooms j (word_of_nat hi - word_of_int retain)) (from_kv (Some [spaceLog]) kvs) [] = map (change_at j m) [Suc lo..<Suc ?u]" .
    qed
    show "does (dropChanges cs) m' (\<lambda>_ m'. log_ok j (cut_at retain lo hi) hi m'
      \<and> (\<forall>k. \<not> hasPrefix [spaceWrites] k \<longrightarrow> \<not> hasPrefix [spaceLog] k \<longrightarrow> m' k = m k)
      \<and> (\<forall>n. cut_at retain lo hi < n \<longrightarrow> n \<le> hi \<longrightarrow> m' (logKey (word_of_nat n)) = m (logKey (word_of_nat n))))"
      if cs: "m' = m \<and> cs = map (change_at j m) [Suc lo..<Suc ?u]" for cs m'
    proof -
      have ks: "(\<lambda>c. logKey (c_lsn c)) ` set cs = (\<lambda>l. logKey (word_of_nat l)) ` {Suc lo..<Suc ?u}"
        using cs change_at_entry(2) [OF l] by (auto simp: image_image simp del: upt_Suc intro!: image_cong)
      have c: "cut_at retain lo hi = max lo ?u" using True big by (simp add: cut_at_def)
      show ?thesis unfolding cs [THEN conjunct1]
      proof (rule does_weaken [OF does_dropChanges], unfold ks c)
        fix x m2 assume m2: "\<forall>k. \<not> hasPrefix [spaceWrites] k \<longrightarrow> m2 k = (if k \<in> (\<lambda>l. logKey (word_of_nat l)) ` {Suc lo..<Suc ?u} then None else m k)"
        have "m2 k = m k" if "\<not> hasPrefix [spaceWrites] k" "\<not> hasPrefix [spaceLog] k" for k
          using m2 that logKey_prefix by auto
        with log_ok_cut [OF l diff_le_self m2 [rule_format]] show "log_ok j (max lo ?u) hi m2
          \<and> (\<forall>k. \<not> hasPrefix [spaceWrites] k \<longrightarrow> \<not> hasPrefix [spaceLog] k \<longrightarrow> m2 k = m k)
          \<and> (\<forall>n. max lo ?u < n \<longrightarrow> n \<le> hi \<longrightarrow> m2 (logKey (word_of_nat n)) = m (logKey (word_of_nat n)))" by simp
      qed
    qed
  qed (rule backs_drop)
  show ?thesis unfolding trim_def using True
    by (simp, intro does_bnd [OF latest_view [OF l]])
      (use post le l in \<open>auto simp: cut_at_def intro!: does_ret back_rules backs_drop\<close>)
qed

section \<open>Recording\<close>

lemma backs_log [back_rules]: "backs latestLSN" "backs (setLSN l)" "backs takeLSN" "backs (noteWrite j c)" "backs (trim j retain)" "backs (dropChanges cs)"
proof -
  show l: "backs latestLSN" unfolding latestLSN_def by (intro back_rules)
  show s: "backs (setLSN l)" for l unfolding setLSN_def by (rule back_rules)
  show "backs takeLSN" unfolding takeLSN_def by (intro back_rules l s)
  show "backs (noteWrite j c)" unfolding noteWrite_def by (intro back_rules)
  show "backs (dropChanges cs)" by (rule backs_drop)
  show "backs (trim j retain)" unfolding trim_def by (intro back_rules l backs_drop)
qed

lemma log_ok_grown:
  assumes l: "log_ok j lo hi m" and n: "hi + 1 < 2 ^ 64"
    and m': "\<And>k. \<not> hasPrefix [spaceWrites] k \<Longrightarrow> m' k = (m(nextLSN \<mapsto> be 8 (Suc hi), logKey (word_of_nat (Suc hi)) \<mapsto> b)) k"
    and c: "Unmarshal (j_changes j) b = Some c" "c_lsn c = word_of_nat (Suc hi)"
  shows "log_ok j lo (Suc hi) m'" "lo < k \<Longrightarrow> k \<le> hi \<Longrightarrow> m' (logKey (word_of_nat k)) = m (logKey (word_of_nat k))"
proof -
  note d = log_okD [OF l]
  have ne: "(word_of_nat k :: 64 word) \<noteq> word_of_nat (Suc hi)" if "k \<le> hi" for k
    using that n word64_eq [of k "Suc hi"] by simp
  show old: "m' (logKey (word_of_nat k)) = m (logKey (word_of_nat k))" if "lo < k" "k \<le> hi" for k
    using m' [of "logKey (word_of_nat k)"] ne [OF that(2)] by (simp add: log_apart(6) [symmetric])
  have new: "m' (logKey (word_of_nat (Suc hi))) = Some b" using m' [of "logKey (word_of_nat (Suc hi))"] by simp
  have cnt: "m' nextLSN = Some (be 8 (Suc hi))" using m' [of nextLSN] by simp
  have keys: "m' k \<noteq> None \<longleftrightarrow> (\<exists>l. lo < l \<and> l \<le> Suc hi \<and> k = logKey (word_of_nat l))" if k: "hasPrefix [spaceLog] k" for k
  proof (cases "k = logKey (word_of_nat (Suc hi))")
    case True
    with d(1) have "lo < Suc hi \<and> Suc hi \<le> Suc hi \<and> k = logKey (word_of_nat (Suc hi))" by simp
    moreover have "m' k \<noteq> None" using new True by simp
    ultimately show ?thesis by blast
  next
    case False
    have "\<not> hasPrefix [spaceWrites] k" "k \<noteq> nextLSN" using k by (auto simp: hasPrefix_append space_defs nextLSN_def)
    with m' [of k] False have "m' k = m k" by simp
    with d(4) [OF k] False show ?thesis by (auto simp: le_Suc_eq)
  qed
  have "\<exists>c. Unmarshal (j_changes j) v = Some c \<and> c_lsn c = word_of_nat k"
    if "lo < k" "k \<le> Suc hi" "m' (logKey (word_of_nat k)) = Some v" for k v
  proof (cases "k = Suc hi")
    case True
    with that(3) new c show ?thesis by simp
  next
    case False
    with that have "k \<le> hi" by simp
    with that(1,3) old d(5) [of k] show ?thesis by auto
  qed
  with keys cnt n d(1) show "log_ok j lo (Suc hi) m'" by (simp add: log_ok_def)
qed

lemma does_record:
  assumes l: "log_ok j lo hi m" and n: "hi + 1 < 2 ^ 64" and r: "retain < 2 ^ 63"
    and e: "e = c\<lparr>c_lsn := word_of_nat (Suc hi), c_at := (if c_at c = 0 then ms else c_at c)\<rparr>"
    and f: "\<And>b. Marshal (j_changes j) e = Some b \<Longrightarrow> Unmarshal (j_changes j) b = Some e"
  shows "does (record_change j retain ms c) m (\<lambda>lsn m'. lsn = word_of_nat (Suc hi) \<and> log_ok j (cut_at retain lo (Suc hi)) (Suc hi) m'
    \<and> (cut_at retain lo (Suc hi) < Suc hi \<longrightarrow> change_at j m' (Suc hi) = e)
    \<and> (\<forall>k. cut_at retain lo (Suc hi) < k \<longrightarrow> k \<le> hi \<longrightarrow> m' (logKey (word_of_nat k)) = m (logKey (word_of_nat k)))
    \<and> (\<forall>k. \<not> hasPrefix [spaceWrites] k \<longrightarrow> \<not> hasPrefix [spaceLog] k \<longrightarrow> k \<noteq> nextLSN \<longrightarrow> m' k = m k))"
  unfolding record_change_def
proof (rule does_bnd [where Q = "\<lambda>lsn m'. lsn = word_of_nat (Suc hi) \<and> m' = m(nextLSN \<mapsto> be 8 (Suc hi))"], goal_cases)
  case 1
  have s: "(word_of_nat hi :: 64 word) + 1 = word_of_nat (Suc hi)" by simp
  have u: "unat (word_of_nat (Suc hi) :: 64 word) = Suc hi" using n by (intro unat64) simp
  show ?case unfolding takeLSN_def setLSN_def
    by (rule does_bnd [OF latest_view [OF l]], intro back_rules, elim conjE, hypsubst,
        rule does_bnd [where Q = "\<lambda>_ m'. m' = m(nextLSN \<mapsto> be 8 (Suc hi))"])
      (auto simp only: s u intro!: does_rules back_rules)
next
  case (3 lsn m1)
  then have lsn: "lsn = word_of_nat (Suc hi)" and m1: "m1 = m(nextLSN \<mapsto> be 8 (Suc hi))" by auto
  show ?case unfolding Let_def lsn e [symmetric]
  proof (intro does_cases(2) does_throw)
    fix b assume b: "Marshal (j_changes j) e = Some b"
    let ?m2 = "m1(logKey (word_of_nat (Suc hi)) \<mapsto> b)"
    have ec: "c_lsn e = word_of_nat (Suc hi)" using e by simp
    show "does (bnd (treePut (logKey (word_of_nat (Suc hi))) b) (\<lambda>_. bnd (noteWrite j e) (\<lambda>_. bnd (trim j retain) (\<lambda>_. ret (word_of_nat (Suc hi)))))) m1
      (\<lambda>lsn m'. lsn = word_of_nat (Suc hi) \<and> log_ok j (cut_at retain lo (Suc hi)) (Suc hi) m'
    \<and> (cut_at retain lo (Suc hi) < Suc hi \<longrightarrow> change_at j m' (Suc hi) = e)
    \<and> (\<forall>k. cut_at retain lo (Suc hi) < k \<longrightarrow> k \<le> hi \<longrightarrow> m' (logKey (word_of_nat k)) = m (logKey (word_of_nat k)))
    \<and> (\<forall>k. \<not> hasPrefix [spaceWrites] k \<longrightarrow> \<not> hasPrefix [spaceLog] k \<longrightarrow> k \<noteq> nextLSN \<longrightarrow> m' k = m k))"
    proof (rule does_bnd [OF does_treePut [where Q = "\<lambda>_ m'. m' = ?m2", OF refl]], intro back_rules,
        rule does_bnd [where Q = "\<lambda>_ m3. \<forall>k. \<not> hasPrefix [spaceWrites] k \<longrightarrow> m3 k = ?m2 k"], goal_cases)
      case (1 u m2)
      then show ?case unfolding noteWrite_def by (auto intro!: does_cases does_ret does_throw does_treePut)
    next
      case (3 u m2 u' m3)
      have g: "log_ok j lo (Suc hi) m3" "\<And>k. lo < k \<Longrightarrow> k \<le> hi \<Longrightarrow> m3 (logKey (word_of_nat k)) = m (logKey (word_of_nat k))"
        using log_ok_grown [OF l n _ f [OF b] ec, of m3] 3 m1 by auto
      have new: "m3 (logKey (word_of_nat (Suc hi))) = Some b" using 3 by simp
      have lo: "lo \<le> cut_at retain lo (Suc hi)" by (simp add: cut_at_def)
      show ?case
      proof (rule does_bnd [OF does_trim [OF g(1) r]], intro back_rules, rule does_ret, goal_cases)
        case (1 u'' m4)
        then have m4: "m4 (logKey (word_of_nat k)) = m3 (logKey (word_of_nat k))" if "cut_at retain lo (Suc hi) < k" "k \<le> Suc hi" for k
          using that by blast
        have "change_at j m4 (Suc hi) = e" if "cut_at retain lo (Suc hi) < Suc hi"
          using m4 [OF that] new f [OF b] by (simp add: change_at_def)
        moreover have "m4 (logKey (word_of_nat k)) = m (logKey (word_of_nat k))" if "cut_at retain lo (Suc hi) < k" "k \<le> hi" for k
          using m4 [OF that(1)] g(2) [of k] that lo by simp
        moreover have "m4 k = m k" if "\<not> hasPrefix [spaceWrites] k" "\<not> hasPrefix [spaceLog] k" "k \<noteq> nextLSN" for k
          using that 1 3 m1 logKey_prefix by auto
        ultimately show ?case using 1 by blast
      qed
    qed (intro back_rules)
  qed
qed (auto simp only: Let_def intro!: back_rules)

section \<open>Reading the log\<close>

lemma holding_ascend:
  assumes "holding t m"
  shows "\<exists>kvs. sorted_wrt (<) (map fst kvs) \<and> map_of kvs = m \<and> treeAscend k visit s t = (Inr (visited visit (from_kv (Some k) kvs) s), t)"
proof -
  from assms obtain F kvs where h: "holds_map t F kvs" "map_of kvs = m" by (auto simp: holding_def)
  from holds_map_sorted [OF h(1)] h(2) show ?thesis by (auto simp: treeAscend_def Ascend_visited [OF h(1)])
qed

lemma holding_get: "holding t m \<Longrightarrow> k \<noteq> [] \<Longrightarrow> length k \<le> MaxKey \<Longrightarrow> treeGet k t = (Inr (m k), t)"
  by (auto simp: holding_def treeGet_def checkKey_ok tree.fetch_spec)

lemma latest_runs:
  assumes "holding t m" "log_ok j lo hi m"
  shows "latestLSN t = (Inr (word_of_nat hi), t)"
proof -
  note l = log_okD(2,3) [OF assms(2)]
  have "unbe (be 8 hi) = hi" using l(1) by simp
  with l holding_get [OF assms(1), of nextLSN] show ?thesis
    by (auto simp: latestLSN_def nextLSN_def sizes layout split: option.splits)
qed

lemma oldest_visited: "visited oldest_entry (map (\<lambda>l. (logKey (word_of_nat l), v l)) ls) 0 = (case ls of [] \<Rightarrow> 0 | l # _ \<Rightarrow> word_of_nat l)"
proof (cases ls)
  case (Cons l ls')
  have "unat (word_of_nat l :: 64 word) < 256 ^ 8" using unsigned_less [of "word_of_nat l :: 64 word"] by simp
  then show ?thesis using Cons by (simp add: oldest_entry_def) (simp add: logKey_def)
qed simp

lemma oldest_runs:
  assumes "holding t m" "log_ok j lo hi m"
  shows "OldestLSN t = (Inr (if lo < hi then word_of_nat (Suc lo) else 0), t)"
proof -
  from holding_ascend [OF assms(1), of "[spaceLog]" oldest_entry 0] obtain kvs where
    k: "sorted_wrt (<) (map fst kvs)" "map_of kvs = m"
    "treeAscend [spaceLog] oldest_entry 0 t = (Inr (visited oldest_entry (from_kv (Some [spaceLog]) kvs) 0), t)" by blast
  have "visited oldest_entry (from_kv (Some [spaceLog]) kvs) 0 = visited oldest_entry (filter (\<lambda>kv. hasPrefix [spaceLog] (fst kv)) kvs) 0"
    by (rule prefix_walk [OF k(1)]) (simp add: oldest_entry_def)
  also have "\<dots> = (case [Suc lo..<Suc hi] of [] \<Rightarrow> 0 | l # _ \<Rightarrow> word_of_nat l)"
    unfolding log_entries [OF assms(2) k(1,2)] by (rule oldest_visited)
  also have "\<dots> = (if lo < hi then word_of_nat (Suc lo) else 0)" by (cases "lo < hi") (simp_all add: upt_conv_Cons del: upt_Suc)
  finally show ?thesis using k(3) by (simp add: OldestLSN_def)
qed

text \<open>
  C28. A follower may go on from the log exactly when nothing it still needs has been dropped: the answer
  for an entry number is yes if and only if every entry from that number to the last is in the log. It
  is never an error.
\<close>

theorem can_follow_exact:
  assumes "holding t m" "log_ok j lo hi m"
  shows "\<exists>r. CanFollow from t = (Inr r, t) \<and> (r \<longleftrightarrow> (\<forall>l. unat from \<le> l \<longrightarrow> l \<le> hi \<longrightarrow> m (logKey (word_of_nat l)) \<noteq> None))"
proof -
  note d = log_okD [OF assms(2)]
  have there: "m (logKey (word_of_nat l)) \<noteq> None \<longleftrightarrow> lo < l" if "l \<le> hi" for l
    using d(4) [OF logKey_prefix, of "word_of_nat l"] that d(2) word64_eq [of l] by (metis logKey_eq le_less_trans)
  have all: "(\<forall>l. unat from \<le> l \<longrightarrow> l \<le> hi \<longrightarrow> m (logKey (word_of_nat l)) \<noteq> None) \<longleftrightarrow> lo < unat from \<or> hi < unat from"
  proof
    assume a: "\<forall>l. unat from \<le> l \<longrightarrow> l \<le> hi \<longrightarrow> m (logKey (word_of_nat l)) \<noteq> None"
    show "lo < unat from \<or> hi < unat from"
    proof (rule ccontr)
      assume "\<not> ?thesis"
      then have "unat from \<le> lo" by simp
      with a d(1) there [OF d(1)] show False by blast
    qed
  next
    assume "lo < unat from \<or> hi < unat from"
    then have "lo < l" if "unat from \<le> l" "l \<le> hi" for l using that by linarith
    with there show "\<forall>l. unat from \<le> l \<longrightarrow> l \<le> hi \<longrightarrow> m (logKey (word_of_nat l)) \<noteq> None" by blast
  qed
  have h: "unat (word_of_nat hi :: 64 word) = hi" using d(2) by (rule unat64)
  show ?thesis
  proof (cases "lo < hi")
    case True
    then have s: "unat (word_of_nat (Suc lo) :: 64 word) = Suc lo" using d(2) by (intro unat64) simp
    then have "word_of_nat (Suc lo) \<noteq> (0 :: 64 word)" by (metis nat.distinct(1) unsigned_0)
    with True have "CanFollow from t = (Inr (word_of_nat (Suc lo) \<le> from), t)"
      using oldest_runs [OF assms] by (simp add: CanFollow_def del: of_nat_Suc)
    moreover have "word_of_nat (Suc lo) \<le> from \<longleftrightarrow> lo < unat from \<or> hi < unat from" using True s by (auto simp: word_le_nat_alt simp del: of_nat_Suc)
    ultimately show ?thesis using all by blast
  next
    case False
    then have "CanFollow from t = (Inr (word_of_nat hi < from), t)"
      using oldest_runs [OF assms] latest_runs [OF assms] by (simp add: CanFollow_def)
    moreover have "word_of_nat hi < from \<longleftrightarrow> lo < unat from \<or> hi < unat from" using False d(1) h by (auto simp: word_less_nat_alt)
    ultimately show ?thesis using all by blast
  qed
qed

lemma log_ok_empty: "log_ok j 0 0 Map.empty"
  by (auto simp: log_ok_def)

theorem can_follow_exact_witness:
  "\<exists>t. holding t Map.empty \<and> CanFollow 1 t = (Inr True, t) \<and> CanFollow 0 t = (Inr False, t)"
proof -
  obtain t where t: "roomy t Map.empty 2" by (rule roomy_empty)
  then have h: "holding t Map.empty" by (simp add: roomy_def)
  from can_follow_exact [OF h log_ok_empty, of 1] can_follow_exact [OF h log_ok_empty, of 0] h show ?thesis by auto
qed


text \<open>An entry that says somebody looked, and a form for it.\<close>

definition ex_change :: change where
  "ex_change = \<lparr>c_lsn = 0, c_at = 5, c_kind = ChangeRead, c_collection = [], c_key = GKey VNil, c_document = None, c_spec = None, c_operation = None,
     c_by = \<lparr>a_operation = [], a_version = 0, a_actor = [], a_write_id = []\<rparr>\<rparr>"

definition ex_json :: json where
  "ex_json = \<lparr>j_docs = ex_docs, j_totals = ex_totals, j_specs = \<lparr>Marshal = (\<lambda>_. None), Unmarshal = (\<lambda>_. None)\<rparr>,
     j_changes = \<lparr>Marshal = (\<lambda>c. if c = ex_change\<lparr>c_lsn := 1\<rparr> then Some [9] else None), Unmarshal = (\<lambda>b. if b = [9] then Some (ex_change\<lparr>c_lsn := 1\<rparr>) else None)\<rparr>,
     j_dones = \<lparr>Marshal = (\<lambda>_. None), Unmarshal = (\<lambda>_. None)\<rparr>, j_operations = \<lparr>Marshal = (\<lambda>_. None), Unmarshal = (\<lambda>_. None)\<rparr>,
     j_claims = \<lparr>Marshal = (\<lambda>_. None), Unmarshal = (\<lambda>_. None)\<rparr>\<rparr>"


end
