(* ===== verification/Store_Parts.thy ===== *)
theory Store_Parts
  imports Store_Log
begin

text \<open>
  A database of several files (\<^verbatim>\<open>internal/store/parts.go\<close>, the state and transactions of \<^verbatim>\<open>store.go\<close>, and
  the folder of \<^verbatim>\<open>internal/vfs/vfs.go\<close>): the leader with the catalogue, the partitions beside it, and
  what commit, rollback and close do to all of them.

  A file that is open lives in the pager that opened it; the folder keeps the contents of the others and
  which ones are locked. A map of the language that is gone through in no particular order is gone
  through in the order of its keys. A collection handle is the address of its object.
\<close>

section \<open>A folder of files\<close>

record folder =
  fd_files :: "(bytes, simdisk) fmap"
  fd_locked :: "bytes fset"
  fd_blank :: simdisk \<comment> \<open>a file that was just made\<close>

definition safeName :: "bytes \<Rightarrow> bool" where
  "safeName name \<longleftrightarrow> name \<noteq> [] \<and> name \<noteq> ascii ''.'' \<and> name \<noteq> ascii ''..'' \<and> of_char CHR ''/'' \<notin> set name \<and> 0x5c \<notin> set name"

definition Open_file :: "bytes \<Rightarrow> folder \<Rightarrow> (store_error + simdisk) \<times> folder" where
  "Open_file name f =
     (if \<not> safeName name then (Inl ErrFileName, f)
      else if name |\<in>| fd_locked f then (Inl ErrLocked, f)
      else let file = (case fmlookup (fd_files f) name of None \<Rightarrow> fd_blank f | Some file \<Rightarrow> file) in
        (Inr file, f\<lparr>fd_files := fmupd name file (fd_files f), fd_locked := finsert name (fd_locked f)\<rparr>))"

definition Remove_file :: "bytes \<Rightarrow> folder \<Rightarrow> (store_error + unit) \<times> folder" where
  "Remove_file name f =
     (if \<not> safeName name then (Inl ErrFileName, f)
      else (Inr (), f\<lparr>fd_files := fmdrop name (fd_files f), fd_locked := fd_locked f |-| {|name|}\<rparr>))"

definition Names :: "folder \<Rightarrow> bytes list" where
  "Names f = sorted_list_of_fset (fmdom (fd_files f))"

text \<open>Closing a file leaves what was written to it in the folder and takes the lock away.\<close>

definition Release_file :: "bytes \<Rightarrow> simdisk \<Rightarrow> folder \<Rightarrow> folder" where
  "Release_file name file f =
     f\<lparr>fd_files := (if name |\<in>| fmdom (fd_files f) then fmupd name (file\<lparr>closed := False\<rparr>) (fd_files f) else fd_files f),
       fd_locked := fd_locked f |-| {|name|}\<rparr>"

section \<open>The state of a database\<close>

record database =
  db_tree :: tree
  db_collections :: "(bytes, nat) fmap"
  db_objects :: "spec list"
  db_ids :: source
  db_clock :: "nat \<Rightarrow> int"
  db_reads :: nat
  db_retain :: int
  db_budget :: int
  db_files :: "folder option"
  db_parts :: "(bytes, tree) fmap"
  db_dropping :: "(bytes, tree) fmap"
  db_dropped :: "bytes list"
  db_key :: bytes
  db_random :: "nat \<Rightarrow> byte"

type_synonym 'a on_store = "(database, store_error, 'a) may_fail"

definition onLeader :: "'a on_tree \<Rightarrow> 'a on_store" where
  "onLeader f d = (let (r, t) = f (db_tree d) in (r, d\<lparr>db_tree := t\<rparr>))"

text \<open>A pointer to a tree: the leader's, or that of a partition, which may since have been set aside.\<close>

datatype place = Leader | InPart bytes

definition onPlace :: "place \<Rightarrow> 'a on_tree \<Rightarrow> 'a on_store" where
  "onPlace p f d =
     (case p of
        Leader \<Rightarrow> onLeader f d
      | InPart name \<Rightarrow>
          (case fmlookup (db_parts d) name of
             Some t \<Rightarrow> (let (r, t) = f t in (r, d\<lparr>db_parts := fmupd name t (db_parts d)\<rparr>))
           | None \<Rightarrow>
               (case fmlookup (db_dropping d) name of
                  Some t \<Rightarrow> (let (r, t) = f t in (r, d\<lparr>db_dropping := fmupd name t (db_dropping d)\<rparr>))
                | None \<Rightarrow> (Inl (OfTree ErrClosed), d))))"

definition onFolder :: "(folder \<Rightarrow> (store_error + 'a) \<times> folder) \<Rightarrow> 'a on_store" where
  "onFolder f d =
     (case db_files d of
        None \<Rightarrow> (Inl ErrNoFiles, d)
      | Some x \<Rightarrow> (let (r, x) = f x in (r, d\<lparr>db_files := Some x\<rparr>)))"

definition closeFile :: "bytes \<Rightarrow> simdisk \<Rightarrow> database \<Rightarrow> database" where
  "closeFile name file d = d\<lparr>db_files := map_option (Release_file name file) (db_files d)\<rparr>"

definition newCollection :: "spec \<Rightarrow> database \<Rightarrow> database" where
  "newCollection s d =
     d\<lparr>db_collections := fmupd (s_name s) (length (db_objects d)) (db_collections d), db_objects := db_objects d @ [s]\<rparr>"

definition specOf :: "nat \<Rightarrow> database \<Rightarrow> spec" where
  "specOf c d = db_objects d ! c"

section \<open>The rows that say where a partition is\<close>

definition partRecord :: nat where "partRecord = 24"

definition partFile :: "bytes \<Rightarrow> bytes" where
  "partFile name = name @ ascii ''.part''"

definition usablePartName :: "bytes \<Rightarrow> bool" where
  "usablePartName name \<longleftrightarrow>
     name \<noteq> [] \<and> length name \<le> 128 \<and> name \<noteq> ascii ''.'' \<and> name \<noteq> ascii ''..'' \<and> list_all usableNamespaceByte name"

definition readPart :: "bytes \<Rightarrow> led_at option on_tree" where
  "readPart name =
     bnd (treeGet (spaceParts # name)) (\<lambda>v.
       case v of
         None \<Rightarrow> ret None
       | Some b \<Rightarrow>
           if length b \<noteq> partRecord then throw ErrDamaged
           else ret (Some \<lparr>LRoot = unbe (seg b 0 8), LFreelist = unbe (seg b 8 16), LPageCount = unbe (seg b 16 24)\<rparr>))"

definition writePart :: "bytes \<Rightarrow> led_at \<Rightarrow> unit on_tree" where
  "writePart name p = treePut (spaceParts # name) (be 8 (LRoot p) @ be 8 (LFreelist p) @ be 8 (LPageCount p))"

section \<open>Partitions\<close>

text \<open>A new pager takes every other byte of the randomness that is left.\<close>

definition openPart :: "crypto \<Rightarrow> bytes \<Rightarrow> led_at option \<Rightarrow> simdisk \<Rightarrow> place on_store" where
  "openPart C name recorded file d =
     (let rnd = (\<lambda>n. db_random d (2 * n)); d = d\<lparr>db_random := (\<lambda>n. db_random d (Suc (2 * n)))\<rparr> in
      case (case recorded of Some p \<Rightarrow> OpenLed C file p 0 (db_key d) rnd | None \<Rightarrow> CreateLed C file 0 (db_key d) rnd) of
        (Inl e, st) \<Rightarrow> (Inl (OfTree e), closeFile (partFile name) (disk st) d)
      | (Inr _, st) \<Rightarrow>
          (Inr (InPart name), d\<lparr>db_parts := fmupd name (At_root st (case recorded of Some p \<Rightarrow> LRoot p | None \<Rightarrow> 0)) (db_parts d)\<rparr>))"

definition Part :: "crypto \<Rightarrow> bytes \<Rightarrow> place on_store" where
  "Part C name d =
     (if name |\<in>| fmdom (db_parts d) then (Inr (InPart name), d)
      else if db_files d = None then (Inl ErrNoFiles, d)
      else if \<not> usablePartName name then (Inl ErrPartName, d)
      else bnd (onLeader (readPart name)) (\<lambda>recorded. bnd (onFolder (Open_file (partFile name))) (openPart C name recorded)) d)"

definition listsPart :: "bytes \<Rightarrow> bytes \<Rightarrow> bytes list \<Rightarrow> bool \<times> bytes list" where
  "listsPart key val names = (if length key \<le> 1 \<or> hd key \<noteq> spaceParts then (False, names) else (True, names @ [tl key]))"

definition Parts :: "database \<Rightarrow> bytes list" where
  "Parts d =
     (let names = snd (Ascend (db_tree d) (Some [spaceParts]) listsPart []) in
      sort (names @ filter (\<lambda>n. n \<notin> set names) (sorted_list_of_fset (fmdom (db_parts d)))))"

definition setAside :: "bytes \<Rightarrow> database \<Rightarrow> database" where
  "setAside name d =
     (case fmlookup (db_parts d) name of
        None \<Rightarrow> d
      | Some t \<Rightarrow> d\<lparr>db_parts := fmdrop name (db_parts d), db_dropping := fmupd name t (db_dropping d)\<rparr>)"

definition DropPart :: "bytes \<Rightarrow> unit on_store" where
  "DropPart name d =
     (if db_files d = None then (Inl ErrNoFiles, d)
      else bnd (onLeader (readPart name)) (\<lambda>recorded d.
        if recorded = None \<and> name |\<notin>| fmdom (db_parts d) then (Inr (), d)
        else bnd (if recorded = None then ret () else bnd (onLeader (treeDelete (spaceParts # name))) (\<lambda>_. ret ()))
               (\<lambda>_. modify (\<lambda>d. d\<lparr>db_dropped := db_dropped d @ [name]\<rparr>)) (setAside name d)) d)"

definition Stray :: "bytes list on_store" where
  "Stray d =
     (case db_files d of
        None \<Rightarrow> (Inr [], d)
      | Some f \<Rightarrow> (Inr (filter (\<lambda>n. n \<notin> partFile ` set (Parts d)) (Names f)), d))"

section \<open>Transactions\<close>

definition flushPart :: "bytes \<Rightarrow> unit on_store" where
  "flushPart name d =
     (case fmlookup (db_parts d) name of
        None \<Rightarrow> (Inr (), d)
      | Some t \<Rightarrow>
          if \<not> Pending (pages t) \<and> LRoot (At (pages t)) = troot t then (Inr (), d)
          else (case Flush (troot t) (pages t) of
                  (Inl e, st) \<Rightarrow> (Inl (OfTree e), d\<lparr>db_parts := fmupd name (t\<lparr>pages := st\<rparr>) (db_parts d)\<rparr>)
                | (Inr p, st) \<Rightarrow> onLeader (writePart name p) (d\<lparr>db_parts := fmupd name (t\<lparr>pages := st\<rparr>) (db_parts d)\<rparr>)))"

fun eachName :: "(bytes \<Rightarrow> unit on_store) \<Rightarrow> bytes list \<Rightarrow> unit on_store" where
  "eachName f [] = ret ()"
| "eachName f (name # names) = bnd (f name) (\<lambda>_. eachName f names)"

definition commitParts :: "unit on_store" where
  "commitParts d = eachName flushPart (sorted_list_of_fset (fmdom (db_parts d))) d"

definition dropFile :: "bytes \<Rightarrow> unit on_store" where
  "dropFile name =
     bnd (\<lambda>d. case fmlookup (db_dropping d) name of
                None \<Rightarrow> (Inr (), d)
              | Some t \<Rightarrow>
                  (case Close (pages t) of
                     (Inl e, st) \<Rightarrow> (Inl (OfTree e), d\<lparr>db_dropping := fmupd name (t\<lparr>pages := st\<rparr>) (db_dropping d)\<rparr>)
                   | (Inr _, st) \<Rightarrow> (Inr (), closeFile (partFile name) (disk st) (d\<lparr>db_dropping := fmdrop name (db_dropping d)\<rparr>))))
       (\<lambda>_. onFolder (Remove_file (partFile name)))"

definition dropFiles :: "unit on_store" where
  "dropFiles = bnd (\<lambda>d. eachName dropFile (db_dropped d) d) (\<lambda>_. modify (\<lambda>d. d\<lparr>db_dropped := []\<rparr>))"

definition Commit_store :: "unit on_store" where
  "Commit_store =
     bnd commitParts (\<lambda>_. bnd (onLeader (onTree Commit_tree)) (\<lambda>_ d. if db_dropped d = [] then (Inr (), d) else dropFiles d))"

text \<open>An open partition goes back to where the leader says it is; one the leader does not know is closed.\<close>

definition abandonPart :: "bytes \<Rightarrow> unit on_store" where
  "abandonPart name =
     bnd (onLeader (readPart name)) (\<lambda>recorded d.
       case fmlookup (db_parts d) name of
         None \<Rightarrow> (Inr (), d)
       | Some t \<Rightarrow>
           (case recorded of
              None \<Rightarrow>
                (case Close (pages t) of
                   (Inl e, st) \<Rightarrow> (Inl (OfTree e), d\<lparr>db_parts := fmupd name (t\<lparr>pages := st\<rparr>) (db_parts d)\<rparr>)
                 | (Inr _, st) \<Rightarrow> (Inr (), closeFile (partFile name) (disk st) (d\<lparr>db_parts := fmdrop name (db_parts d)\<rparr>)))
            | Some p \<Rightarrow>
                (case Abandon p (pages t) of
                   (Inl e, st) \<Rightarrow> (Inl (OfTree e), d\<lparr>db_parts := fmupd name (t\<lparr>pages := st\<rparr>) (db_parts d)\<rparr>)
                 | (Inr _, st) \<Rightarrow> (Inr (), d\<lparr>db_parts := fmupd name (At_root st (LRoot p)) (db_parts d)\<rparr>))))"

text \<open>A partition the transaction dropped is given back.\<close>

definition giveBack :: "bytes \<Rightarrow> unit on_store" where
  "giveBack name =
     bnd (onLeader (readPart name)) (\<lambda>recorded d.
       case (fmlookup (db_dropping d) name, recorded) of
         (Some t, Some p) \<Rightarrow>
           (case Abandon p (pages t) of
              (Inl e, st) \<Rightarrow> (Inl (OfTree e), d\<lparr>db_dropping := fmupd name (t\<lparr>pages := st\<rparr>) (db_dropping d)\<rparr>)
            | (Inr _, st) \<Rightarrow>
                (Inr (), d\<lparr>db_parts := fmupd name (At_root st (LRoot p)) (db_parts d), db_dropping := fmdrop name (db_dropping d)\<rparr>))
       | _ \<Rightarrow> (Inr (), d))"

definition abandonParts :: "unit on_store" where
  "abandonParts =
     bnd (\<lambda>d. eachName abandonPart (sorted_list_of_fset (fmdom (db_parts d))) d) (\<lambda>_.
     bnd (\<lambda>d. eachName giveBack (sorted_list_of_fset (fmdom (db_dropping d))) d) (\<lambda>_.
     modify (\<lambda>d. d\<lparr>db_dropped := []\<rparr>)))"

definition loads_spec :: "json \<Rightarrow> bytes \<Rightarrow> bytes \<Rightarrow> spec list \<Rightarrow> bool \<times> spec list" where
  "loads_spec j key val specs =
     (if \<not> hasPrefix [spaceCatalog] key then (False, specs)
      else case Unmarshal (j_specs j) val of None \<Rightarrow> (False, specs) | Some s \<Rightarrow> (True, specs @ [s]))"

definition load_catalog :: "json \<Rightarrow> unit on_store" where
  "load_catalog j d =
     (let (r, specs) = Ascend (db_tree d) (Some [spaceCatalog]) (loads_spec j) [] in
      ((case r of Inl e \<Rightarrow> Inl (OfTree e) | Inr _ \<Rightarrow> Inr ()), fold newCollection specs d))"

definition Rollback_store :: "json \<Rightarrow> unit on_store" where
  "Rollback_store j =
     bnd (onLeader (onTree (onPages Rollback))) (\<lambda>_.
     bnd (modify (\<lambda>d. d\<lparr>db_tree := New (pages (db_tree d)), db_collections := fmempty\<rparr>)) (\<lambda>_.
     bnd abandonParts (\<lambda>_. load_catalog j)))"

definition Open_store :: "json \<Rightarrow> pager \<Rightarrow> source \<Rightarrow> (nat \<Rightarrow> int) \<Rightarrow> (nat \<Rightarrow> byte) \<Rightarrow> (store_error + unit) \<times> database" where
  "Open_store j st ids clock rnd =
     load_catalog j
       \<lparr>db_tree = New st, db_collections = fmempty, db_objects = [], db_ids = ids, db_clock = clock, db_reads = 0, db_retain = 0,
        db_budget = 0, db_files = None, db_parts = fmempty, db_dropping = fmempty, db_dropped = [], db_key = [], db_random = rnd\<rparr>"

definition Keep :: "folder \<Rightarrow> bytes \<Rightarrow> database \<Rightarrow> database" where
  "Keep files key d = d\<lparr>db_files := Some files, db_key := key\<rparr>"

text \<open>Closing goes on after an error and reports the first one.\<close>

definition closeTree :: "bytes \<times> tree \<Rightarrow> store_error option \<times> database \<Rightarrow> store_error option \<times> database" where
  "closeTree nt ed =
     (case (nt, ed) of ((name, t), (first, d)) \<Rightarrow>
       (case Close (pages t) of
          (Inl e, st) \<Rightarrow> (case first of None \<Rightarrow> Some (OfTree e) | _ \<Rightarrow> first, closeFile (partFile name) (disk st) d)
        | (Inr _, st) \<Rightarrow> (first, closeFile (partFile name) (disk st) d)))"

definition opened :: "(bytes, tree) fmap \<Rightarrow> (bytes \<times> tree) list" where
  "opened m = map (\<lambda>n. (n, the (fmlookup m n))) (sorted_list_of_fset (fmdom m))"

definition closeParts :: "unit on_store" where
  "closeParts d =
     (let (first, d) = fold closeTree (opened (db_parts d) @ opened (db_dropping d)) (None, d) in
      (case first of None \<Rightarrow> Inr () | Some e \<Rightarrow> Inl e, d\<lparr>db_parts := fmempty, db_dropping := fmempty\<rparr>))"

end
