(* ===== verification/Store_Catalog.thy ===== *)
theory Store_Catalog
  imports Store_Parts
begin

text \<open>
  Collections of a database (\<^verbatim>\<open>internal/store/store.go\<close>, the upper half of \<^verbatim>\<open>collection.go\<close>, and \<^verbatim>\<open>Apply\<close> of
  \<^verbatim>\<open>log.go\<close>): finding the tree of a document, writing and removing through a handle, declaring and dropping
  collections, and applying the changes of another database.
\<close>

section \<open>The trees of a collection\<close>

definition expire :: "nat \<Rightarrow> unit on_store" where
  "expire c d = eachName DropPart (expiring (specOf c d) (Parts d)) d"

definition into :: "crypto \<Rightarrow> nat \<Rightarrow> gval \<Rightarrow> place on_store" where
  "into C c key d =
     (case s_partition (specOf c d) of
        None \<Rightarrow> (Inr Leader, d)
      | Some p \<Rightarrow>
          (case partition_name p (s_name (specOf c d)) (keyOf key) of
             Inl e \<Rightarrow> (Inl e, d)
           | Inr name \<Rightarrow> bnd (Part C name) (\<lambda>place. bnd (expire c) (\<lambda>_. ret place)) d))"

fun openAll :: "crypto \<Rightarrow> bytes list \<Rightarrow> place list on_store" where
  "openAll C [] = ret []"
| "openAll C (name # names) = bnd (Part C name) (\<lambda>p. bnd (openAll C names) (\<lambda>ps. ret (p # ps)))"

definition across :: "crypto \<Rightarrow> nat \<Rightarrow> place list on_store" where
  "across C c d =
     (case s_partition (specOf c d) of
        None \<Rightarrow> (Inr [Leader], d)
      | Some _ \<Rightarrow> openAll C (mine (s_name (specOf c d)) (Parts d)) d)"

fun eachPlace :: "unit on_tree \<Rightarrow> place list \<Rightarrow> unit on_store" where
  "eachPlace f [] = ret ()"
| "eachPlace f (p # ps) = bnd (onPlace p f) (\<lambda>_. eachPlace f ps)"

text \<open>An operation on every tree of a collection.\<close>

definition everywhere :: "crypto \<Rightarrow> nat \<Rightarrow> (spec \<Rightarrow> unit on_tree) \<Rightarrow> unit on_store" where
  "everywhere C c f = bnd (across C c) (\<lambda>ps d. eachPlace (f (specOf c d)) ps d)"

section \<open>Reading, writing and removing\<close>

definition live :: "nat \<Rightarrow> unit on_store" where
  "live c d = (if fmlookup (db_collections d) (s_name (specOf c d)) \<noteq> Some c then (Inl ErrNoCollection, d) else (Inr (), d))"

text \<open>The clock is read for an entry that carries no time.\<close>

definition record_store :: "json \<Rightarrow> change \<Rightarrow> 64 word on_store" where
  "record_store j c d =
     onLeader (record_change j (db_retain d) (db_clock d (db_reads d)) c) (if c_at c = 0 then d\<lparr>db_reads := Suc (db_reads d)\<rparr> else d)"

definition noOne :: attribution where
  "noOne = \<lparr>a_operation = [], a_version = 0, a_actor = [], a_write_id = []\<rparr>"

definition blankChange :: change where
  "blankChange = \<lparr>c_lsn = 0, c_at = 0, c_kind = [], c_collection = [], c_key = gnil, c_document = None, c_spec = None, c_operation = None, c_by = noOne\<rparr>"

text \<open>The key of a document that is to be written, made up where it has none, and the document carrying it.\<close>

definition keyFor :: "nat \<Rightarrow> doc \<Rightarrow> (gval \<times> doc) on_store" where
  "keyFor c document d =
     (let k = s_key (specOf c d) in
      case fmlookup document (k_path k) of
        Some key \<Rightarrow> if key \<noteq> gnil then (Inr (key, document), d)
                    else if k_auto k \<noteq> AutoUlid then (Inl ErrNoKey, d)
                    else (case Next (db_ids d) of
                            (Inl e, src) \<Rightarrow> (Inl (OfUlid e), d\<lparr>db_ids := src\<rparr>)
                          | (Inr wid, src) \<Rightarrow> (Inr (GKey (VString wid), fmupd (k_path k) (GKey (VString wid)) document), d\<lparr>db_ids := src\<rparr>))
      | None \<Rightarrow> if k_auto k \<noteq> AutoUlid then (Inl ErrNoKey, d)
                else (case Next (db_ids d) of
                        (Inl e, src) \<Rightarrow> (Inl (OfUlid e), d\<lparr>db_ids := src\<rparr>)
                      | (Inr wid, src) \<Rightarrow> (Inr (GKey (VString wid), fmupd (k_path k) (GKey (VString wid)) document), d\<lparr>db_ids := src\<rparr>)))"

text \<open>The rest of \<^verbatim>\<open>write\<close>, once the key is known.\<close>

definition write_at :: "json \<Rightarrow> crypto \<Rightarrow> nat \<Rightarrow> attribution \<Rightarrow> bool \<Rightarrow> gval \<Rightarrow> doc \<Rightarrow> gval on_store" where
  "write_at j C c by record key document d =
     (case encodeKey (specOf c d) key of
        Inl e \<Rightarrow> (Inl e, d)
      | Inr pk \<Rightarrow>
          bnd (into C c key) (\<lambda>p.
          bnd (onPlace p (writeIn (j_docs j) (j_totals j) (specOf c d) document key pk)) (\<lambda>_.
          bnd (if record
               then bnd (record_store j (blankChange\<lparr>c_kind := ChangePut, c_collection := s_name (specOf c d), c_key := key,
                      c_document := Some document, c_by := by\<rparr>)) (\<lambda>_. ret ())
               else ret ()) (\<lambda>_. ret key))) d)"

definition write_doc :: "json \<Rightarrow> crypto \<Rightarrow> nat \<Rightarrow> attribution \<Rightarrow> doc \<Rightarrow> bool \<Rightarrow> gval on_store" where
  "write_doc j C c by document record =
     bnd (live c) (\<lambda>_. bnd (keyFor c document) (\<lambda>(key, document). write_at j C c by record key document))"

definition Get_doc :: "json \<Rightarrow> crypto \<Rightarrow> nat \<Rightarrow> gval \<Rightarrow> doc option on_store" where
  "Get_doc j C c key d =
     (case encodeKey (specOf c d) key of
        Inl e \<Rightarrow> (Inl e, d)
      | Inr pk \<Rightarrow> bnd (into C c key) (\<lambda>p. onPlace p (read_doc (j_docs j) pk)) d)"

definition remove_doc :: "json \<Rightarrow> crypto \<Rightarrow> nat \<Rightarrow> attribution \<Rightarrow> gval \<Rightarrow> bool \<Rightarrow> bool on_store" where
  "remove_doc j C c by key record =
     bnd (live c) (\<lambda>_ d.
       case encodeKey (specOf c d) key of
         Inl e \<Rightarrow> (Inl e, d)
       | Inr pk \<Rightarrow>
           bnd (into C c key) (\<lambda>p.
           bnd (onPlace p (removeIn (j_docs j) (j_totals j) (specOf c d) key pk)) (\<lambda>found.
             if \<not> found then ret False
             else bnd (if record
                       then bnd (record_store j (blankChange\<lparr>c_kind := ChangeDelete, c_collection := s_name (specOf c d), c_key := key, c_by := by\<rparr>)) (\<lambda>_. ret ())
                       else ret ()) (\<lambda>_. ret True))) d)"

section \<open>Declaring\<close>

definition nextCollection :: bytes where
  "nextCollection = spaceMeta # ascii ''coll''"

definition readCollectionID :: "32 word on_tree" where
  "readCollectionID =
     bnd (treeGet nextCollection) (\<lambda>v.
       case v of None \<Rightarrow> ret 1 | Some b \<Rightarrow> if length b \<noteq> 4 then throw ErrDamaged else ret (word_of_nat (unbe b)))"

definition takeCollectionID :: "32 word on_tree" where
  "takeCollectionID = bnd readCollectionID (\<lambda>next. bnd (treePut nextCollection (be 4 (unat (next + 1)))) (\<lambda>_. ret next))"

definition reserveCollectionID :: "32 word \<Rightarrow> unit on_tree" where
  "reserveCollectionID n =
     bnd readCollectionID (\<lambda>next. if n < next then ret () else treePut nextCollection (be 4 (unat (n + 1))))"

definition writeSpec :: "json \<Rightarrow> spec \<Rightarrow> unit on_tree" where
  "writeSpec j s = (case Marshal (j_specs j) s of None \<Rightarrow> throw ErrMarshal | Some b \<Rightarrow> treePut (catalogKey (s_name s)) b)"

definition Collection :: "bytes \<Rightarrow> nat on_store" where
  "Collection name d = (case fmlookup (db_collections d) name of None \<Rightarrow> (Inl ErrNoCollection, d) | Some c \<Rightarrow> (Inr c, d))"

definition setSpec :: "nat \<Rightarrow> spec \<Rightarrow> database \<Rightarrow> database" where
  "setSpec c s d = d\<lparr>db_objects := (db_objects d)[c := s]\<rparr>"

definition dropIndex :: "crypto \<Rightarrow> nat \<Rightarrow> index_decl \<Rightarrow> unit on_store" where
  "dropIndex C c x = everywhere C c (\<lambda>s. dropIndexIn s x)"

definition buildIndex :: "json \<Rightarrow> crypto \<Rightarrow> nat \<Rightarrow> index_decl \<Rightarrow> unit on_store" where
  "buildIndex j C c x = everywhere C c (\<lambda>s. buildIndexIn (j_docs j) s x)"

fun dropIndexes :: "crypto \<Rightarrow> nat \<Rightarrow> index_decl list \<Rightarrow> unit on_store" where
  "dropIndexes C c [] = ret ()"
| "dropIndexes C c (x # xs) = bnd (dropIndex C c x) (\<lambda>_. dropIndexes C c xs)"

fun buildIndexes :: "json \<Rightarrow> crypto \<Rightarrow> nat \<Rightarrow> index_decl list \<Rightarrow> unit on_store" where
  "buildIndexes j C c [] = ret ()"
| "buildIndexes j C c (x # xs) = bnd (buildIndex j C c x) (\<lambda>_. buildIndexes j C c xs)"

text \<open>An operation after whose failure a collection has its old declaration back.\<close>

definition restoring :: "nat \<Rightarrow> spec \<Rightarrow> unit on_store \<Rightarrow> unit on_store" where
  "restoring c former f d = (case f d of (Inl e, d) \<Rightarrow> (Inl e, setSpec c former d) | (Inr u, d) \<Rightarrow> (Inr u, d))"

definition install :: "json \<Rightarrow> crypto \<Rightarrow> spec \<Rightarrow> unit on_store" where
  "install j C s d =
     (case fmlookup (db_collections d) (s_name s) of
        None \<Rightarrow> onLeader (writeSpec j s) (newCollection s d)
      | Some c \<Rightarrow>
          (let former = specOf c d in
           restoring c former
             (bnd (dropIndexes C c (filter (\<lambda>x. i_name x \<notin> i_name ` set (s_indexes s)) (s_indexes former))) (\<lambda>_.
              bnd (buildIndexes j C c (filter (\<lambda>x. i_name x \<notin> i_name ` set (s_indexes former)) (s_indexes s))) (\<lambda>_.
              onLeader (writeSpec j s))))
             (setSpec c s d)))"

definition numberSpec :: "32 word \<Rightarrow> spec \<Rightarrow> spec" where
  "numberSpec n s =
     s\<lparr>s_id := n,
       s_indexes := map (\<lambda>(i, x). x\<lparr>i_id := word_of_nat i\<rparr>) (enumerate 0 (s_indexes s)), s_next_index := word_of_nat (length (s_indexes s)),
       s_rollups := map (\<lambda>(i, r). r\<lparr>r_id := word_of_nat i\<rparr>) (enumerate 0 (s_rollups s)), s_next_rollup := word_of_nat (length (s_rollups s))\<rparr>"

text \<open>The rollups a redeclaration asks for: those that were there are kept, new ones are numbered and filled.\<close>

fun declareRollups :: "json \<Rightarrow> crypto \<Rightarrow> nat \<Rightarrow> rollup_decl list \<Rightarrow> 16 word \<Rightarrow> (rollup_decl list \<times> 16 word) on_store" where
  "declareRollups j C c [] next = ret ([], next)"
| "declareRollups j C c (r # rs) next = (\<lambda>d.
     case find (\<lambda>b. r_name b = r_name r) (s_rollups (specOf c d)) of
       Some old_one \<Rightarrow>
         if \<not> sameRollup old_one r then (Inl ErrIncompatible, d)
         else bnd (declareRollups j C c rs next) (\<lambda>(made, next). ret (old_one # made, next)) d
     | None \<Rightarrow>
         (let r = r\<lparr>r_id := next\<rparr> in
          case validate_rollup r of
            Inl e \<Rightarrow> (Inl e, d)
          | Inr _ \<Rightarrow>
              bnd (everywhere C c (\<lambda>s. buildRollup (j_docs j) (j_totals j) s r)) (\<lambda>_.
              bnd (declareRollups j C c rs (next + 1)) (\<lambda>(made, next). ret (r # made, next))) d))"

fun dropRollups :: "crypto \<Rightarrow> nat \<Rightarrow> rollup_decl list \<Rightarrow> unit on_store" where
  "dropRollups C c [] = ret ()"
| "dropRollups C c (r # rs) = bnd (everywhere C c (\<lambda>s. deleteRange (rollups s r))) (\<lambda>_. dropRollups C c rs)"

fun declareIndexes :: "index_decl list \<Rightarrow> index_decl list \<Rightarrow> 16 word \<Rightarrow> store_error + index_decl list \<times> 16 word" where
  "declareIndexes old [] next = Inr ([], next)"
| "declareIndexes old (x # xs) next =
     (case find (\<lambda>b. i_name b = i_name x) old of
        Some old_one \<Rightarrow>
          if \<not> sameShape old_one x then Inl ErrIncompatible
          else (case declareIndexes old xs next of Inl e \<Rightarrow> Inl e | Inr (made, next) \<Rightarrow> Inr (old_one # made, next))
      | None \<Rightarrow>
          (case declareIndexes old xs (next + 1) of Inl e \<Rightarrow> Inl e | Inr (made, next') \<Rightarrow> Inr (x\<lparr>i_id := next\<rparr> # made, next')))"

definition declared_by :: "bytes \<Rightarrow> bytes \<Rightarrow> attribution" where
  "declared_by what actor = noOne\<lparr>a_operation := what, a_actor := actor\<rparr>"

definition recordDeclare :: "json \<Rightarrow> caller \<Rightarrow> spec \<Rightarrow> nat on_store" where
  "recordDeclare j caller s =
     bnd (record_store j (blankChange\<lparr>c_kind := ChangeDeclare, c_collection := s_name s, c_spec := Some s,
       c_by := declared_by (ascii ''declare'') (cl_actor caller)\<rparr>)) (\<lambda>_. Collection (s_name s))"

definition Redeclare :: "json \<Rightarrow> crypto \<Rightarrow> caller \<Rightarrow> nat \<Rightarrow> spec \<Rightarrow> nat on_store" where
  "Redeclare j C caller c s d =
     (let existing = specOf c d in
      if s_key existing \<noteq> s_key s then (Inl ErrIncompatible, d)
      else if \<not> samePartition (s_partition existing) (s_partition s) then (Inl ErrIncompatible, d)
      else bnd (declareRollups j C c (s_rollups s) (s_next_rollup existing)) (\<lambda>(rs, next_rollup).
           bnd (dropRollups C c (filter (\<lambda>r. r_name r \<notin> r_name ` set (s_rollups s)) (s_rollups existing))) (\<lambda>_.
             case declareIndexes (s_indexes existing) (s_indexes s) (s_next_index existing) of
               Inl e \<Rightarrow> throw e
             | Inr (xs, next_index) \<Rightarrow>
                 (let updated = existing\<lparr>s_indexes := xs, s_next_index := next_index, s_rollups := rs, s_next_rollup := next_rollup\<rparr> in
                  bnd (install j C updated) (\<lambda>_. recordDeclare j caller updated)))) d)"

definition Declare :: "json \<Rightarrow> crypto \<Rightarrow> caller \<Rightarrow> spec \<Rightarrow> nat on_store" where
  "Declare j C caller s d =
     (case validate s of
        Inl e \<Rightarrow> (Inl e, d)
      | Inr _ \<Rightarrow>
          (case fmlookup (db_collections d) (s_name s) of
             Some c \<Rightarrow> Redeclare j C caller c s d
           | None \<Rightarrow>
               bnd (onLeader takeCollectionID) (\<lambda>n.
               bnd (install j C (numberSpec n s)) (\<lambda>_. recordDeclare j caller (numberSpec n s))) d))"

definition drop_collection :: "json \<Rightarrow> crypto \<Rightarrow> caller \<Rightarrow> bytes \<Rightarrow> bool \<Rightarrow> unit on_store" where
  "drop_collection j C caller name record =
     bnd (Collection name) (\<lambda>c d.
     bnd (dropIndexes C c (s_indexes (specOf c d))) (\<lambda>_.
     bnd (onLeader (deleteRange (documents (specOf c d)))) (\<lambda>_.
     bnd (onLeader (treeDelete (catalogKey name))) (\<lambda>_.
     bnd (modify (\<lambda>d. d\<lparr>db_collections := fmdrop name (db_collections d)\<rparr>)) (\<lambda>_.
       if record
       then bnd (record_store j (blankChange\<lparr>c_kind := ChangeDrop, c_collection := name, c_by := declared_by (ascii ''drop'') (cl_actor caller)\<rparr>)) (\<lambda>_. ret ())
       else ret ())))) d)"

section \<open>Following another database\<close>

definition nobody :: caller where
  "nobody = \<lparr>cl_scopes = [], cl_actor = [], cl_write_id = [], cl_signer = []\<rparr>"

text \<open>What a change does, by its kind.\<close>

definition apply_kind :: "json \<Rightarrow> crypto \<Rightarrow> change \<Rightarrow> unit on_store" where
  "apply_kind j C e =
     (if c_kind e = ChangePut then
        bnd (Collection (c_collection e)) (\<lambda>c.
        bnd (write_doc j C c (c_by e) (case c_document e of None \<Rightarrow> fmempty | Some document \<Rightarrow> document) False) (\<lambda>_. ret ()))
      else if c_kind e = ChangeDelete then
        bnd (Collection (c_collection e)) (\<lambda>c. bnd (remove_doc j C c (c_by e) (c_key e) False) (\<lambda>_. ret ()))
      else if c_kind e = ChangeDeclare then
        (case c_spec e of
           None \<Rightarrow> throw ErrDamaged
         | Some s \<Rightarrow> bnd (install j C s) (\<lambda>_. onLeader (reserveCollectionID (s_id s))))
      else if c_kind e = ChangeOperation then
        (case c_operation e of
           None \<Rightarrow> throw ErrDamaged
         | Some p \<Rightarrow> (case Marshal (j_operations j) p of None \<Rightarrow> throw ErrMarshal | Some b \<Rightarrow> onLeader (treePut (operationKey (o_name p) (o_version p)) b)))
      else if c_kind e = ChangeDrop then
        (\<lambda>d. case drop_collection j C nobody (c_collection e) False d of
               (Inl ErrNoCollection, d) \<Rightarrow> (Inr (), d)
             | r \<Rightarrow> r)
      else if c_kind e = ChangeRead then ret ()
      else throw ErrDamaged)"

definition Apply :: "json \<Rightarrow> crypto \<Rightarrow> change \<Rightarrow> unit on_store" where
  "Apply j C e =
     bnd (onLeader latestLSN) (\<lambda>latest.
       if c_lsn e \<le> latest then ret ()
       else if c_lsn e \<noteq> latest + 1 then throw ErrOutOfOrder
       else bnd (apply_kind j C e) (\<lambda>_.
         case Marshal (j_changes j) e of
           None \<Rightarrow> throw ErrMarshal
         | Some encoded \<Rightarrow>
             bnd (onLeader (treePut (logKey (c_lsn e)) encoded)) (\<lambda>_.
             bnd (onLeader (noteWrite j e)) (\<lambda>_.
             bnd (onLeader (setLSN (c_lsn e))) (\<lambda>_ d. onLeader (trim j (db_retain d)) d)))))"

end
