(* ===== verification/Store_Query.thy ===== *)
theory Store_Query
  imports Store_Catalog
begin

unbundle bit_operations_syntax

text \<open>
  Reading a stretch of a collection (\<^verbatim>\<open>internal/store/scan.go\<close>, the reading half of \<^verbatim>\<open>rollup.go\<close>,
  \<^verbatim>\<open>digest.go\<close>, \<^verbatim>\<open>budget.go\<close> and the row helpers of \<^verbatim>\<open>invoke.go\<close>): by key, by an index and by the groups of a
  rollup, with the limit an operation declares and the budget of one answer.

  A visitor carries its own state and, since it may read other documents, the database. The trees a walk
  goes through are those it found at its start: what a visitor may change is the leader of a divided
  collection and which partitions are set aside, never the contents of a tree under the walk.
\<close>

section \<open>Walking\<close>

definition treeAt :: "database \<Rightarrow> place \<Rightarrow> tree option" where
  "treeAt d p =
     (case p of
        Leader \<Rightarrow> Some (db_tree d)
      | InPart name \<Rightarrow> (case fmlookup (db_parts d) name of Some t \<Rightarrow> Some t | None \<Rightarrow> fmlookup (db_dropping d) name))"

definition walk_store ::
  "crypto \<Rightarrow> nat \<Rightarrow> range \<Rightarrow> bytes \<Rightarrow> field_decl list \<Rightarrow> (bytes \<Rightarrow> bytes \<Rightarrow> 's \<times> database \<Rightarrow> bool \<times> 's \<times> database) \<Rightarrow> 's \<Rightarrow> 's on_store" where
  "walk_store C c rng pre fs visit s d =
     (case stretch rng pre fs of
        Inl e \<Rightarrow> (Inl e, d)
      | Inr _ \<Rightarrow>
          bnd (across C c) (\<lambda>places d.
            case walk (List.map_filter (treeAt d) places) rng pre fs visit (s, d) of
              (Inl e, _, d) \<Rightarrow> (Inl e, d)
            | (Inr _, s, d) \<Rightarrow> (Inr s, d)) d)"

definition index_named :: "spec \<Rightarrow> bytes \<Rightarrow> index_decl option" where
  "index_named s name = find (\<lambda>x. i_name x = name) (s_indexes s)"

definition rollup_named :: "spec \<Rightarrow> bytes \<Rightarrow> rollup_decl option" where
  "rollup_named s name = find (\<lambda>r. r_name r = name) (s_rollups s)"

record found =
  fo_values :: "key_value list"
  fo_key :: key_value
  fo_include :: doc

definition shows_entry ::
  "json \<Rightarrow> bytes \<Rightarrow> field_decl list \<Rightarrow> (found \<Rightarrow> 's \<Rightarrow> bool \<times> 's) \<Rightarrow> bytes \<Rightarrow> bytes \<Rightarrow> 's \<Rightarrow> bool \<times> 's" where
  "shows_entry j pre fs visit key val s =
     (case DecodeKey (drop (length pre) key) (encodings fs) of
        Inl _ \<Rightarrow> (False, s)
      | Inr (vs, rest) \<Rightarrow>
          (case Decode rest plainField of
             Inl _ \<Rightarrow> (False, s)
           | Inr (primary, rest) \<Rightarrow>
               if rest \<noteq> [] then (False, s)
               else (case (if val = [] then Some fmempty else Unmarshal (j_docs j) val) of
                       None \<Rightarrow> (False, s)
                     | Some carried \<Rightarrow> visit \<lparr>fo_values = vs, fo_key = primary, fo_include = carried\<rparr> s)))"

definition Scan :: "json \<Rightarrow> crypto \<Rightarrow> nat \<Rightarrow> bytes \<Rightarrow> range \<Rightarrow> (found \<Rightarrow> 's \<times> database \<Rightarrow> bool \<times> 's \<times> database) \<Rightarrow> 's \<Rightarrow> 's on_store" where
  "Scan j C c name rng visit s d =
     (case index_named (specOf c d) name of
        None \<Rightarrow> (Inl ErrNoIndex, d)
      | Some x \<Rightarrow>
          let pre = entries (specOf c d) x in
          walk_store C c rng pre (i_fields x) (shows_entry j pre (i_fields x) visit) s d)"

definition clusteredFields :: "spec \<Rightarrow> field_decl list" where
  "clusteredFields s = [\<lparr>f_path = k_path (s_key s), f_type = k_type (s_key s), f_descending = False, f_missing = SkipMissing\<rparr>]"

definition shows_doc :: "json \<Rightarrow> bytes \<Rightarrow> (key_value \<Rightarrow> doc \<Rightarrow> 's \<Rightarrow> bool \<times> 's) \<Rightarrow> bytes \<Rightarrow> bytes \<Rightarrow> 's \<Rightarrow> bool \<times> 's" where
  "shows_doc j pre visit key val s =
     (case Decode (drop (length pre) key) plainField of
        Inl _ \<Rightarrow> (False, s)
      | Inr (primary, rest) \<Rightarrow>
          if rest \<noteq> [] then (False, s)
          else (case Unmarshal (j_docs j) val of None \<Rightarrow> (False, s) | Some document \<Rightarrow> visit primary document s))"

text \<open>The visitors of the walk by key keep to their own state.\<close>

definition apart :: "('a \<Rightarrow> 'b \<Rightarrow> 's \<Rightarrow> bool \<times> 's) \<Rightarrow> 'a \<Rightarrow> 'b \<Rightarrow> 's \<times> database \<Rightarrow> bool \<times> 's \<times> database" where
  "apart visit a b sd = (let (more, s) = visit a b (fst sd) in (more, s, snd sd))"

definition walkRange :: "json \<Rightarrow> crypto \<Rightarrow> nat \<Rightarrow> range \<Rightarrow> (key_value \<Rightarrow> doc \<Rightarrow> 's \<Rightarrow> bool \<times> 's) \<Rightarrow> 's \<Rightarrow> 's on_store" where
  "walkRange j C c rng visit s d =
     (let pre = documents (specOf c d) in
      walk_store C c rng pre (clusteredFields (specOf c d)) (apart (shows_doc j pre visit)) s d)"

definition shows_key :: "bytes \<Rightarrow> (key_value \<Rightarrow> 's \<Rightarrow> bool \<times> 's) \<Rightarrow> bytes \<Rightarrow> bytes \<Rightarrow> 's \<times> bool \<Rightarrow> bool \<times> 's \<times> bool" where
  "shows_key pre visit key val sd =
     (case Decode (drop (length pre) key) plainField of
        Inl _ \<Rightarrow> (False, fst sd, True)
      | Inr (primary, rest) \<Rightarrow>
          if rest \<noteq> [] then (False, fst sd, True)
          else let (more, s) = visit primary (fst sd) in (more, s, snd sd))"

definition walkKeys :: "crypto \<Rightarrow> nat \<Rightarrow> range \<Rightarrow> (key_value \<Rightarrow> 's \<Rightarrow> bool \<times> 's) \<Rightarrow> 's \<Rightarrow> 's on_store" where
  "walkKeys C c rng visit s d =
     (let pre = documents (specOf c d) in
      bnd (walk_store C c rng pre (clusteredFields (specOf c d)) (apart (shows_key pre visit)) (s, False))
        (\<lambda>(s, damaged). if damaged then throw ErrDamaged else ret s) d)"

section \<open>Totals\<close>

type_synonym row = "key_value list \<times> totals"

definition shows_totals ::
  "json \<Rightarrow> bytes \<Rightarrow> field list \<Rightarrow> bytes option \<Rightarrow> (row \<Rightarrow> 's \<Rightarrow> bool \<times> 's) \<Rightarrow> bytes \<Rightarrow> bytes \<Rightarrow> 's \<Rightarrow> bool \<times> 's" where
  "shows_totals j pre fs upper visit key val s =
     (if \<not> hasPrefix pre key then (False, s)
      else if (case upper of None \<Rightarrow> False | Some u \<Rightarrow> u \<le> key) then (False, s)
      else (case Unmarshal (j_totals j) val of
              None \<Rightarrow> (False, s)
            | Some tot \<Rightarrow>
                (case DecodeKey (drop (length pre) key) fs of
                   Inl _ \<Rightarrow> (False, s)
                 | Inr (vs, rest) \<Rightarrow> if rest \<noteq> [] then (False, s) else visit (vs, tot) s)))"

definition totalsIn ::
  "json \<Rightarrow> bytes \<Rightarrow> field list \<Rightarrow> bytes option \<Rightarrow> bytes option \<Rightarrow> (row \<Rightarrow> 's \<Rightarrow> bool \<times> 's) \<Rightarrow> tree \<Rightarrow> 's \<Rightarrow> (store_error + unit) \<times> 's" where
  "totalsIn j pre fs lower upper visit t s =
     (case Ascend t lower (shows_totals j pre fs upper visit) s of (Inl e, s) \<Rightarrow> (Inl (OfTree e), s) | (Inr _, s) \<Rightarrow> (Inr (), s))"

text \<open>The rows of several trees are added up by group before any is shown.\<close>

definition mergeRow :: "bytes \<Rightarrow> field list \<Rightarrow> row \<Rightarrow> bytes list \<times> (bytes, row) fmap \<Rightarrow> bool \<times> bytes list \<times> (bytes, row) fmap" where
  "mergeRow pre fs row st =
     (case st of (keyed, added) \<Rightarrow>
       (case EncodeKey pre (fst row) fs of
          Inl _ \<Rightarrow> (False, keyed, added)
        | Inr key \<Rightarrow>
            (case fmlookup added key of
               None \<Rightarrow> (True, keyed @ [key], fmupd key row added)
             | Some (vs, tot) \<Rightarrow>
                 (True, keyed,
                  fmupd key (vs,
                    \<lparr>t_count = t_count tot + t_count (snd row),
                     t_sum = fmadd (t_sum tot)
                       (fmmap_keys (\<lambda>p n. f64_add (case fmlookup (t_sum tot) p of None \<Rightarrow> 0 | Some x \<Rightarrow> x) n) (t_sum (snd row)))\<rparr>) added))))"

fun mergeTrees ::
  "json \<Rightarrow> bytes \<Rightarrow> field list \<Rightarrow> bytes option \<Rightarrow> bytes option \<Rightarrow> tree list \<Rightarrow> bytes list \<times> (bytes, row) fmap
    \<Rightarrow> store_error + bytes list \<times> (bytes, row) fmap" where
  "mergeTrees j pre fs lower upper [] st = Inr st"
| "mergeTrees j pre fs lower upper (t # ts) st =
     (case totalsIn j pre fs lower upper (mergeRow pre fs) t st of
        (Inl e, _) \<Rightarrow> Inl e
      | (Inr _, st) \<Rightarrow> mergeTrees j pre fs lower upper ts st)"

fun visitRows :: "(row \<Rightarrow> 's \<Rightarrow> bool \<times> 's) \<Rightarrow> row list \<Rightarrow> 's \<Rightarrow> 's" where
  "visitRows visit [] s = s"
| "visitRows visit (row # rows) s = (let (more, s) = visit row s in if more then visitRows visit rows s else s)"

definition Totals_rows :: "json \<Rightarrow> crypto \<Rightarrow> nat \<Rightarrow> bytes \<Rightarrow> range \<Rightarrow> (row \<Rightarrow> 's \<Rightarrow> bool \<times> 's) \<Rightarrow> 's \<Rightarrow> 's on_store" where
  "Totals_rows j C c name rng visit s d =
     (case rollup_named (specOf c d) name of
        None \<Rightarrow> (Inl ErrNoRollup, d)
      | Some r \<Rightarrow>
          if Direction rng \<noteq> Forward then (Inl ErrDeclaration, d)
          else let pre = rollups (specOf c d) r; fs = encodings (r_group r) in
            (case stretch rng pre (r_group r) of
               Inl e \<Rightarrow> (Inl e, d)
             | Inr (lower, upper) \<Rightarrow>
                 bnd (across C c) (\<lambda>places d.
                   case List.map_filter (treeAt d) places of
                     [t] \<Rightarrow> (case totalsIn j pre fs lower upper visit t s of (Inl e, _) \<Rightarrow> (Inl e, d) | (Inr _, s) \<Rightarrow> (Inr s, d))
                   | ts \<Rightarrow>
                       (case mergeTrees j pre fs lower upper ts ([], fmempty) of
                          Inl e \<Rightarrow> (Inl e, d)
                        | Inr (keyed, added) \<Rightarrow> (Inr (visitRows visit (List.map_filter (fmlookup added) (sort keyed)) s), d))) d))"

text \<open>A whole number as a \<^verbatim>\<open>float64\<close>, rounded to the nearest.\<close>

definition f64_of_int :: "int \<Rightarrow> 64 word" where
  "f64_of_int n = f64_make (n < 0) (f64_round (nat \<bar>n\<bar> * 2 ^ 1074))"

definition rowOf :: "row \<Rightarrow> doc" where
  "rowOf row =
     fmadd (fmadd (fmupd (ascii ''count'') (GKey (VFloat64 (f64_of_int (t_count (snd row))))) fmempty)
                  (if fst row = [] then fmempty else fmupd (ascii ''group'') (GList (map GKey (fst row))) fmempty))
           (fmmap (\<lambda>w. GKey (VFloat64 w)) (t_sum (snd row)))"

section \<open>The budget of an answer\<close>

record budget =
  bg_most :: int
  bg_used :: int
  bg_rows :: int

definition spend :: "json \<Rightarrow> doc \<Rightarrow> budget \<Rightarrow> store_error + budget" where
  "spend j row b =
     (if bg_most b \<le> 0 then Inr b
      else case Marshal (j_docs j) row of
             None \<Rightarrow> Inl ErrMarshal
           | Some encoded \<Rightarrow>
               let want = bg_used b + int (length encoded) + 1 in
               if want > bg_most b then Inl ErrAnswerTooLarge
               else Inr (b\<lparr>bg_used := want, bg_rows := bg_rows b + 1\<rparr>))"

definition project :: "doc \<Rightarrow> bytes list \<Rightarrow> doc" where
  "project document paths =
     (if paths = [] then document
      else fold (\<lambda>path kept. case at_path document path of None \<Rightarrow> kept | Some v \<Rightarrow> fmupd path v kept) paths fmempty)"

section \<open>Rows of an answer\<close>

text \<open>What a reading visitor carries: the answer so far, what is left of its budget, and why it was refused.\<close>

type_synonym reading = "result \<times> budget \<times> store_error option"

definition addRow :: "json \<Rightarrow> operation \<Rightarrow> doc \<Rightarrow> reading \<Rightarrow> bool \<times> reading" where
  "addRow j p row st =
     (case st of (res, room, refused) \<Rightarrow>
       (case spend j row room of
          Inl e \<Rightarrow> (False, res, room, Some e)
        | Inr room \<Rightarrow>
            (True, res\<lparr>rs_rows := rs_rows res @ [row], rs_count := int (length (rs_rows res @ [row]))\<rparr>, room, refused)))"

definition full :: "operation \<Rightarrow> result \<Rightarrow> bool" where
  "full p res \<longleftrightarrow> int (length (rs_rows res)) \<ge> o_limit p"

definition shows_total :: "json \<Rightarrow> operation \<Rightarrow> row \<Rightarrow> reading \<Rightarrow> bool \<times> reading" where
  "shows_total j p row st =
     (if full p (fst st) then (False, (fst st)\<lparr>rs_truncated := True\<rparr>, snd st) else addRow j p (rowOf row) st)"

definition shows_row :: "json \<Rightarrow> operation \<Rightarrow> key_value \<Rightarrow> doc \<Rightarrow> reading \<Rightarrow> bool \<times> reading" where
  "shows_row j p key document st =
     (let res = fst st in
      if o_action p = ActionCount then
        if o_limit p > 0 \<and> rs_count res \<ge> o_limit p then (False, res\<lparr>rs_truncated := True\<rparr>, snd st)
        else (True, res\<lparr>rs_count := rs_count res + 1\<rparr>, snd st)
      else if full p res then (False, res\<lparr>rs_truncated := True\<rparr>, snd st)
      else addRow j p (project document (o_projection p)) st)"

text \<open>An index gives keys; the document of each is read, and one that cannot be read ends the scan.\<close>

definition shows_found :: "json \<Rightarrow> crypto \<Rightarrow> nat \<Rightarrow> operation \<Rightarrow> found \<Rightarrow> reading \<times> database \<Rightarrow> bool \<times> reading \<times> database" where
  "shows_found j C c p x sd =
     (case Get_doc j C c (GKey (fo_key x)) (snd sd) of
        (Inr (Some document), d) \<Rightarrow> (let (more, s) = shows_row j p (fo_key x) document (fst sd) in (more, s, d))
      | (_, d) \<Rightarrow> (False, fst sd, d))"

definition answered :: "reading \<Rightarrow> (result \<times> budget) on_store" where
  "answered st = (case st of (res, room, refused) \<Rightarrow> (case refused of Some e \<Rightarrow> throw e | None \<Rightarrow> ret (res, room)))"

definition run :: "json \<Rightarrow> crypto \<Rightarrow> nat \<Rightarrow> operation \<Rightarrow> range \<Rightarrow> result \<Rightarrow> budget \<Rightarrow> (result \<times> budget) on_store" where
  "run j C c p rng res room =
     bnd (if o_index p = ClusteredIndex \<or> o_index p = []
          then walkRange j C c rng (shows_row j p) (res, room, None)
          else Scan j C c (o_index p) rng (shows_found j C c p) (res, room, None)) answered"

definition runTotals :: "json \<Rightarrow> crypto \<Rightarrow> nat \<Rightarrow> operation \<Rightarrow> range \<Rightarrow> result \<Rightarrow> budget \<Rightarrow> (result \<times> budget) on_store" where
  "runTotals j C c p rng res room =
     bnd (Totals_rows j C c (o_rollup p) rng (shows_total j p) (res, room, None)) answered"

end
