(* ===== verification/Store_Digest.thy ===== *)
theory Store_Digest
  imports Store_Query
begin

unbundle bit_operations_syntax

text \<open>
  The digest of a stretch (\<^verbatim>\<open>internal/store/digest.go\<close>): one field of every document, in key order, through
  SHA-256. The parts of the standard library it uses are written out: \<^verbatim>\<open>crypto/sha256\<close>,
  \<^verbatim>\<open>encoding/base64\<close> and \<^verbatim>\<open>encoding/hex\<close>.
\<close>

section \<open>SHA-256\<close>

text \<open>
  The constants of SHA-256 are the first 32 bits of the fractions of the square and cube roots of the first
  primes; \<open>root_bits\<close> finds a whole root bit by bit.
\<close>

fun root_bits :: "nat \<Rightarrow> nat \<Rightarrow> nat \<Rightarrow> nat \<Rightarrow> nat" where
  "root_bits k x 0 r = r"
| "root_bits k x (Suc i) r = root_bits k x i (if (r + 2 ^ i) ^ k \<le> x then r + 2 ^ i else r)"

definition sha_primes :: "nat list" where
  "sha_primes = filter (\<lambda>p. list_all (\<lambda>q. p mod q \<noteq> 0) [2 ..< p]) [2 ..< 312]"

definition sha_start :: "32 word list" where
  "sha_start = map (\<lambda>p. word_of_nat (root_bits 2 (p * 2 ^ 64) 36 0)) (take 8 sha_primes)"

definition sha_rounds :: "32 word list" where
  "sha_rounds = map (\<lambda>p. word_of_nat (root_bits 3 (p * 2 ^ 96) 36 0)) sha_primes"

definition rotr :: "nat \<Rightarrow> 32 word \<Rightarrow> 32 word" where
  "rotr n x = drop_bit n x OR push_bit (32 - n) x"

definition sha_pad :: "bytes \<Rightarrow> bytes" where
  "sha_pad m = m @ [0x80] @ replicate ((119 - length m mod 64) mod 64) 0 @ be 8 (8 * length m mod 2 ^ 64)"

fun sha_words :: "bytes \<Rightarrow> 32 word list" where
  "sha_words (a # b # c # d # rest) = word_of_nat (unbe [a, b, c, d]) # sha_words rest"
| "sha_words _ = []"

text \<open>The schedule, grown one word at a time; the newest word is last.\<close>

fun sha_schedule :: "nat \<Rightarrow> 32 word list \<Rightarrow> 32 word list" where
  "sha_schedule 0 w = w"
| "sha_schedule (Suc n) w =
     (let i = length w; a = w ! (i - 15); b = w ! (i - 2);
          s0 = rotr 7 a XOR rotr 18 a XOR drop_bit 3 a; s1 = rotr 17 b XOR rotr 19 b XOR drop_bit 10 b
      in sha_schedule n (w @ [w ! (i - 16) + s0 + w ! (i - 7) + s1]))"

fun sha_round :: "32 word \<times> 32 word \<Rightarrow> 32 word list \<Rightarrow> 32 word list" where
  "sha_round (k, w) [a, b, c, d, e, f, g, h] =
     (let t1 = h + (rotr 6 e XOR rotr 11 e XOR rotr 25 e) + ((e AND f) XOR (NOT e AND g)) + k + w;
          t2 = (rotr 2 a XOR rotr 13 a XOR rotr 22 a) + ((a AND b) XOR (a AND c) XOR (b AND c))
      in [t1 + t2, a, b, c, d + t1, e, f, g])"
| "sha_round _ state = state"

definition sha_block :: "bytes \<Rightarrow> 32 word list \<Rightarrow> 32 word list" where
  "sha_block block state =
     map2 (+) state (fold sha_round (zip sha_rounds (sha_schedule 48 (sha_words block))) state)"

function sha_blocks :: "bytes \<Rightarrow> 32 word list \<Rightarrow> 32 word list" where
  "sha_blocks bs state = (if bs = [] then state else sha_blocks (drop 64 bs) (sha_block (take 64 bs) state))"
  by pat_completeness auto
termination by (relation "measure (length \<circ> fst)") auto

declare sha_blocks.simps [simp del]

definition sha256 :: "bytes \<Rightarrow> bytes" where
  "sha256 m = concat (map (\<lambda>w. be 4 (unat w)) (sha_blocks (sha_pad m) sha_start))"

section \<open>Hexadecimal and base 64\<close>

definition hexDigit :: "nat \<Rightarrow> byte" where
  "hexDigit n = (if n < 10 then of_char CHR ''0'' + word_of_nat n else of_char CHR ''a'' + word_of_nat (n - 10))"

definition hexOf :: "bytes \<Rightarrow> bytes" where
  "hexOf bs = concat (map (\<lambda>b. [hexDigit (unat b div 16), hexDigit (unat b mod 16)]) bs)"

definition base64Value :: "byte \<Rightarrow> nat option" where
  "base64Value b =
     (if of_char CHR ''A'' \<le> b \<and> b \<le> of_char CHR ''Z'' then Some (unat b - 65)
      else if of_char CHR ''a'' \<le> b \<and> b \<le> of_char CHR ''z'' then Some (unat b - 97 + 26)
      else if of_char CHR ''0'' \<le> b \<and> b \<le> of_char CHR ''9'' then Some (unat b - 48 + 52)
      else if b = of_char CHR ''+'' then Some 62
      else if b = of_char CHR ''/'' then Some 63
      else None)"

definition base64Pad :: byte where "base64Pad = of_char CHR ''=''"

text \<open>Four characters for three bytes; the padding may only end the text.\<close>

fun base64Quads :: "bytes \<Rightarrow> bytes option" where
  "base64Quads [] = Some []"
| "base64Quads (a # b # c # d # rest) =
     (case (base64Value a, base64Value b) of
        (Some x, Some y) \<Rightarrow>
          if c = base64Pad then
            if d = base64Pad \<and> rest = [] then Some [word_of_nat (x * 4 + y div 16)] else None
          else (case base64Value c of
                  None \<Rightarrow> None
                | Some z \<Rightarrow>
                    if d = base64Pad then
                      if rest = [] then Some [word_of_nat (x * 4 + y div 16), word_of_nat (y mod 16 * 16 + z div 4)] else None
                    else (case base64Value d of
                            None \<Rightarrow> None
                          | Some u \<Rightarrow>
                              map_option (\<lambda>tail. word_of_nat (x * 4 + y div 16) # word_of_nat (y mod 16 * 16 + z div 4) # word_of_nat (z mod 4 * 64 + u) # tail)
                                (base64Quads rest)))
      | _ \<Rightarrow> None)"
| "base64Quads _ = None"

text \<open>Line ends are passed over.\<close>

definition base64Decode :: "bytes \<Rightarrow> bytes option" where
  "base64Decode text = base64Quads (filter (\<lambda>b. b \<noteq> 10 \<and> b \<noteq> 13) text)"

section \<open>The digest\<close>

definition chunkOf :: "operation \<Rightarrow> doc \<Rightarrow> store_error + bytes" where
  "chunkOf p document =
     (case at_path document (o_field p) of
        Some (GKey (VString text)) \<Rightarrow>
          if o_decode p \<noteq> DecodeBase64 then Inr text
          else (case base64Decode text of None \<Rightarrow> Inl ErrDigest | Some piece \<Rightarrow> Inr piece)
      | _ \<Rightarrow> Inl ErrDigest)"

text \<open>The visitor: the rows read, the bytes written into the hash, and the refusal.\<close>

definition digests :: "operation \<Rightarrow> key_value \<Rightarrow> doc \<Rightarrow> int \<times> bytes \<times> store_error option \<Rightarrow> bool \<times> int \<times> bytes \<times> store_error option" where
  "digests p key document st =
     (case st of (n, hashed, refused) \<Rightarrow>
       if n \<ge> o_limit p then (False, n, hashed, Some ErrCeiling)
       else (case chunkOf p document of
               Inl e \<Rightarrow> (False, n + 1, hashed, Some e)
             | Inr piece \<Rightarrow> (True, n + 1, hashed @ piece, refused)))"

definition hashRange :: "json \<Rightarrow> crypto \<Rightarrow> nat \<Rightarrow> operation \<Rightarrow> range \<Rightarrow> result \<Rightarrow> result on_store" where
  "hashRange j C c p rng res =
     bnd (walkRange j C c rng (digests p) (0, [], None)) (\<lambda>(n, hashed, refused).
       case refused of
         Some e \<Rightarrow> throw e
       | None \<Rightarrow> ret (res\<lparr>rs_count := n, rs_digest := hexOf (sha256 hashed)\<rparr>))"

end
