(* ===== verification/Store_Declare.thy ===== *)
theory Store_Declare
  imports Store_Digest
begin

text \<open>
  Declaring an operation (\<^verbatim>\<open>internal/store/ops.go\<close>, \<^verbatim>\<open>compose.go\<close> and \<^verbatim>\<open>namespace.go\<close>): finding a declared version,
  what a declaration may say, how many rows it can reach through the operations it calls, who holds the
  namespace of its name, and writing the next version.

  Operations call operations, each at a version that is pinned. The functions that follow the calls take
  the depth they may go to; \<open>OutOfFuel\<close> says it was not enough. A reference is written \<^verbatim>\<open>name@version\<close> in
  the code, which tells two pairs apart, and is the pair here.
\<close>

section \<open>Finding an operation\<close>

definition newest_version :: "bytes \<Rightarrow> bytes \<Rightarrow> bytes \<Rightarrow> bytes option \<Rightarrow> bool \<times> bytes option" where
  "newest_version pre key val newest =
     (if \<not> hasPrefix pre key then (False, newest) else (True, if newest = None \<and> val = [] then None else Some val))"

definition decodeOperation :: "json \<Rightarrow> bytes \<Rightarrow> operation on_tree" where
  "decodeOperation j b = (case Unmarshal (j_operations j) b of None \<Rightarrow> throw ErrDamaged | Some p \<Rightarrow> ret p)"

definition Operation :: "json \<Rightarrow> bytes \<Rightarrow> int \<Rightarrow> operation on_tree" where
  "Operation j name version =
     (if version > 0
      then bnd (treeGet (operationKey name version)) (\<lambda>v. case v of None \<Rightarrow> throw ErrNoOperation | Some b \<Rightarrow> decodeOperation j b)
      else bnd (treeAscend (operationPrefix name) (newest_version (operationPrefix name)) None)
             (\<lambda>v. case v of None \<Rightarrow> throw ErrNoOperation | Some b \<Rightarrow> decodeOperation j b))"

definition lists_operation :: "json \<Rightarrow> bytes \<Rightarrow> bytes \<Rightarrow> bytes list \<times> (bytes, operation) fmap \<Rightarrow> bool \<times> bytes list \<times> (bytes, operation) fmap" where
  "lists_operation j key val st =
     (if \<not> hasPrefix [spaceOps] key then (False, st)
      else case Unmarshal (j_operations j) val of
             None \<Rightarrow> (False, st)
           | Some p \<Rightarrow>
               (True, if o_name p |\<in>| fmdom (snd st) then fst st else fst st @ [o_name p], fmupd (o_name p) p (snd st)))"

definition Operations :: "json \<Rightarrow> operation list on_tree" where
  "Operations j =
     bnd (treeAscend [spaceOps] (lists_operation j) ([], fmempty)) (\<lambda>(names, named). ret (List.map_filter (fmlookup named) names))"

text \<open>The two lookups a check makes, as functions of the database.\<close>

definition among :: "json \<Rightarrow> database \<Rightarrow> bytes \<Rightarrow> int \<Rightarrow> store_error + operation" where
  "among j d name version = fst (Operation j name version (db_tree d))"

definition collectionOf :: "database \<Rightarrow> bytes \<Rightarrow> store_error + spec" where
  "collectionOf d name = (case fmlookup (db_collections d) name of None \<Rightarrow> Inl ErrNoCollection | Some c \<Rightarrow> Inr (specOf c d))"

section \<open>What an operation can reach\<close>

type_synonym ref = "bytes \<times> int"

definition refOf :: "operation \<Rightarrow> ref" where
  "refOf p = (o_name p, o_version p)"

text \<open>The rows an operation may return: \<open>visiting\<close> are the batches being added up, \<open>known\<close> the totals found before.\<close>

function (sequential) ceilingOf :: "nat \<Rightarrow> (bytes \<Rightarrow> int \<Rightarrow> store_error + operation) \<Rightarrow> operation \<Rightarrow> ref set \<Rightarrow> (ref, int) fmap \<Rightarrow> store_error + int \<times> (ref, int) fmap"
  and ceilingSteps :: "nat \<Rightarrow> (bytes \<Rightarrow> int \<Rightarrow> store_error + operation) \<Rightarrow> step list \<Rightarrow> ref set \<Rightarrow> (ref, int) fmap \<Rightarrow> int \<Rightarrow> store_error + int \<times> (ref, int) fmap" where
  "ceilingOf n find_op p visiting known =
     (if o_action p \<in> {ActionGet, ActionInsert, ActionPut, ActionUpdate, ActionDelete} then Inr (1, known)
      else if o_action p \<in> {ActionScan, ActionTotals, ActionDeleteRange} then
        if o_limit p \<le> 0 then Inl ErrDeclaration else Inr (o_limit p, known)
      else if o_action p \<in> {ActionCount, ActionHashRange} then
        if o_limit p \<le> 0 then Inl ErrDeclaration else Inr (1, known)
      else if o_action p = ActionBatch then
        (case fmlookup known (refOf p) of
           Some amount \<Rightarrow> Inr (amount, known)
         | None \<Rightarrow>
             if refOf p \<in> visiting then Inl ErrDamaged
             else (case ceilingSteps n find_op (o_steps p) (insert (refOf p) visiting) known 0 of
                     Inl e \<Rightarrow> Inl e
                   | Inr (amount, known) \<Rightarrow> Inr (amount, if o_version p > 0 then fmupd (refOf p) amount known else known)))
      else Inl ErrDeclaration)"
| "ceilingSteps n find_op [] visiting known amount = Inr (amount, known)"
| "ceilingSteps n find_op (st # sts) visiting known amount =
     (if sp_operation st = [] then ceilingSteps n find_op sts visiting known (wrap64 (amount + 1))
      else (case find_op (sp_operation st) (sp_version st) of
              Inl e \<Rightarrow> Inl e
            | Inr callee \<Rightarrow>
                (case n of
                   0 \<Rightarrow> Inl OutOfFuel
                 | Suc n' \<Rightarrow>
                     (case ceilingOf n' find_op callee visiting known of
                        Inl e \<Rightarrow> Inl e
                      | Inr (reach, known) \<Rightarrow> ceilingSteps n find_op sts visiting known (wrap64 (amount + reach))))))"
  by pat_completeness auto
termination
  by (relation "measures [case_sum (\<lambda>(n, _). 2 * n + 1) (\<lambda>(n, _). 2 * n), case_sum (\<lambda>_. 0) (\<lambda>(_, _, sts, _). length sts)]") auto

declare ceilingOf.simps [simp del]

definition keyTypeIn :: "(bytes \<Rightarrow> store_error + spec) \<Rightarrow> bytes \<Rightarrow> store_error + bytes" where
  "keyTypeIn coll name = (case coll name of Inl e \<Rightarrow> Inl e | Inr s \<Rightarrow> Inr (k_type (s_key s)))"

fun keyTypeOf :: "nat \<Rightarrow> (bytes \<Rightarrow> int \<Rightarrow> store_error + operation) \<Rightarrow> (bytes \<Rightarrow> store_error + spec) \<Rightarrow> operation \<Rightarrow> store_error + bytes" where
  "keyTypeOf n find_op coll p =
     (if o_action p \<in> {ActionInsert, ActionPut, ActionUpdate, ActionDelete, ActionDeleteRange} then keyTypeIn coll (o_collection p)
      else if o_action p = ActionBatch then
        if o_steps p = [] then Inr []
        else let latest = last (o_steps p) in
          if sp_operation latest = [] then keyTypeIn coll (sp_collection latest)
          else (case find_op (sp_operation latest) (sp_version latest) of
                  Inl e \<Rightarrow> Inl e
                | Inr callee \<Rightarrow> (case n of 0 \<Rightarrow> Inl OutOfFuel | Suc n \<Rightarrow> keyTypeOf n find_op coll callee))
      else Inr [])"

declare keyTypeOf.simps [simp del]

text \<open>Whether an operation only reads, and only collections of one tree.\<close>

function (sequential) shareable :: "nat \<Rightarrow> (bytes \<Rightarrow> int \<Rightarrow> store_error + operation) \<Rightarrow> (bytes \<Rightarrow> store_error + spec) \<Rightarrow> operation \<Rightarrow> ref set \<Rightarrow> (ref, bool) fmap
    \<Rightarrow> store_error + bool \<times> (ref, bool) fmap"
  and stepsShare :: "nat \<Rightarrow> (bytes \<Rightarrow> int \<Rightarrow> store_error + operation) \<Rightarrow> (bytes \<Rightarrow> store_error + spec) \<Rightarrow> step list \<Rightarrow> ref set \<Rightarrow> (ref, bool) fmap
    \<Rightarrow> store_error + bool \<times> (ref, bool) fmap" where
  "shareable n find_op coll p visiting known =
     (if o_action p \<noteq> ActionBatch then
        if Writes (o_action p) then Inr (False, known)
        else (case coll (o_collection p) of Inl e \<Rightarrow> Inl e | Inr s \<Rightarrow> Inr (s_partition s = None, known))
      else (case fmlookup known (refOf p) of
              Some answer \<Rightarrow> Inr (answer, known)
            | None \<Rightarrow>
                if refOf p \<in> visiting then Inl ErrDamaged
                else (case stepsShare n find_op coll (o_steps p) (insert (refOf p) visiting) known of
                        Inl e \<Rightarrow> Inl e
                      | Inr (answer, known) \<Rightarrow> Inr (answer, if o_version p > 0 then fmupd (refOf p) answer known else known))))"
| "stepsShare n find_op coll [] visiting known = Inr (True, known)"
| "stepsShare n find_op coll (st # sts) visiting known =
     (if sp_operation st = [] then
        if sp_action st \<noteq> ActionGet then Inr (False, known)
        else (case coll (sp_collection st) of
                Inl e \<Rightarrow> Inl e
              | Inr s \<Rightarrow> if s_partition s \<noteq> None then Inr (False, known) else stepsShare n find_op coll sts visiting known)
      else (case find_op (sp_operation st) (sp_version st) of
              Inl e \<Rightarrow> Inl e
            | Inr callee \<Rightarrow>
                (case n of
                   0 \<Rightarrow> Inl OutOfFuel
                 | Suc n' \<Rightarrow>
                     (case shareable n' find_op coll callee visiting known of
                        Inl e \<Rightarrow> Inl e
                      | Inr (reads, known) \<Rightarrow> if \<not> reads then Inr (False, known) else stepsShare n find_op coll sts visiting known))))"
  by pat_completeness auto
termination
  by (relation "measures [case_sum (\<lambda>(n, _). 2 * n + 1) (\<lambda>(n, _). 2 * n), case_sum (\<lambda>_. 0) (\<lambda>(_, _, _, sts, _). length sts)]") auto

declare shareable.simps [simp del]

section \<open>Comparing values\<close>

definition f64_equal :: "64 word \<Rightarrow> 64 word \<Rightarrow> bool" where
  "f64_equal a b \<longleftrightarrow> \<not> f64_nan a \<and> \<not> f64_nan b \<and> (a = b \<or> f64_mag a = 0 \<and> f64_mag b = 0)"

definition deepEqualKey :: "key_value \<Rightarrow> key_value \<Rightarrow> bool" where
  "deepEqualKey a b =
     (case (a, b) of
        (VFloat64 x, VFloat64 y) \<Rightarrow> f64_equal x y
      | (VFloat32 x, VFloat32 y) \<Rightarrow> f64_equal (f32_to_f64 x) (f32_to_f64 y)
      | _ \<Rightarrow> a = b)"

text \<open>\<^verbatim>\<open>reflect.DeepEqual\<close> on the values a document has.\<close>

primrec deepEqual :: "gval \<Rightarrow> gval \<Rightarrow> bool" where
  "deepEqual (GKey a) w = (case w of GKey b \<Rightarrow> deepEqualKey a b | _ \<Rightarrow> False)"
| "deepEqual (GList xs) w = (case w of GList ys \<Rightarrow> list_all2 (\<lambda>f y. f y) (map deepEqual xs) ys | _ \<Rightarrow> False)"
| "deepEqual (GMap m) w =
     (case w of GMap n \<Rightarrow> fmdom m = fmdom n \<and> fmpred (\<lambda>k f. \<exists>y \<in> set_option (fmlookup n k). f y) (fmmap deepEqual m) | _ \<Rightarrow> False)"

definition sameTerm :: "term_decl \<Rightarrow> term_decl \<Rightarrow> bool" where
  "sameTerm a b \<longleftrightarrow> tm_arg a = tm_arg b \<and> deepEqual (tm_value a) (tm_value b) \<and> tm_constant a = tm_constant b
     \<and> tm_step a = tm_step b \<and> tm_field a = tm_field b"

section \<open>Checking a declaration\<close>

record step_offer =
  of_key_type :: bytes
  of_ceiling :: int

text \<open>A term against the type it is used at, the arguments of the operation and the steps before it.\<close>

definition checkTerm :: "(bytes, parameter) fmap \<Rightarrow> (bytes, step_offer) fmap \<Rightarrow> term_decl \<Rightarrow> bytes \<Rightarrow> store_error + unit" where
  "checkTerm params earlier tm wanted =
     (if length (filter id [tm_arg tm \<noteq> [], tm_value tm \<noteq> gnil \<or> tm_constant tm, tm_step tm \<noteq> []]) \<noteq> 1 then Inl ErrDeclaration
      else if tm_step tm \<noteq> [] then
        (case fmlookup earlier (tm_step tm) of
           None \<Rightarrow> Inl ErrDeclaration
         | Some offer \<Rightarrow>
             refuse (tm_field tm \<noteq> ascii ''key'' \<or> of_ceiling offer > 1 \<or> of_key_type offer = []
               \<or> wanted \<noteq> TypeAny \<and> of_key_type offer \<noteq> TypeAny \<and> of_key_type offer \<noteq> wanted) ErrDeclaration)
      else if tm_arg tm = [] then refuse (\<not> matches wanted (tm_value tm)) ErrDeclaration
      else (case fmlookup params (tm_arg tm) of
              None \<Rightarrow> Inl ErrDeclaration
            | Some q \<Rightarrow> refuse (wanted \<noteq> TypeAny \<and> pm_type q \<noteq> TypeAny \<and> pm_type q \<noteq> wanted) ErrDeclaration))"

text \<open>The terms of a map: a wrong one is refused with the same error whichever is met first.\<close>

definition checkTerms :: "(bytes, parameter) fmap \<Rightarrow> (bytes, step_offer) fmap \<Rightarrow> (bytes, term_decl) fmap \<Rightarrow> (bytes \<Rightarrow> bytes) \<Rightarrow> store_error + unit" where
  "checkTerms params earlier tms wanted = refuse (\<not> fmpred (\<lambda>name tm. checkTerm params earlier tm (wanted name) = Inr ()) tms) ErrDeclaration"

definition written_as_type :: "spec \<Rightarrow> bytes \<Rightarrow> bytes" where
  "written_as_type s path = (if path = k_path (s_key s) then k_type (s_key s) else TypeAny)"

fun checkParameters :: "(bytes, parameter) fmap \<Rightarrow> parameter list \<Rightarrow> store_error + (bytes, parameter) fmap" where
  "checkParameters params [] = Inr params"
| "checkParameters params (q # qs) =
     (case checks [usableName (pm_name q), refuse (pm_name q |\<in>| fmdom params) ErrDeclaration,
                   refuse (pm_type q \<notin> {TypeString, TypeNumber, TypeBool, TypeAny}) ErrDeclaration,
                   refuse (pm_default q \<noteq> gnil \<and> \<not> matches (pm_type q) (pm_default q)) ErrDeclaration,
                   refuse (pm_required q \<and> pm_default q \<noteq> gnil) ErrDeclaration] of
        Inl e \<Rightarrow> Inl e
      | Inr _ \<Rightarrow> checkParameters (fmupd (pm_name q) q params) qs)"

definition scanFields :: "spec \<Rightarrow> bytes \<Rightarrow> store_error + field_decl list" where
  "scanFields s name =
     (if name = ClusteredIndex \<or> name = [] then Inr (clusteredFields s)
      else case index_named s name of None \<Rightarrow> Inl ErrNoIndex | Some x \<Rightarrow> Inr (i_fields x))"

definition constantIsEncodable :: "term_decl \<Rightarrow> field_decl \<Rightarrow> store_error + unit" where
  "constantIsEncodable tm f =
     (if tm_arg tm \<noteq> [] \<or> tm_step tm \<noteq> [] then Inr ()
      else case Encode [] (keyOf (tm_value tm)) (encoding f) of Inl _ \<Rightarrow> Inl ErrDeclaration | Inr _ \<Rightarrow> Inr ())"

definition allConstant :: "term_decl list \<Rightarrow> bool" where
  "allConstant tms \<longleftrightarrow> list_all (\<lambda>tm. tm_arg tm = [] \<and> tm_step tm = []) tms"

definition endpointBound :: "endpoint \<Rightarrow> bound" where
  "endpointBound e = \<lparr>b_values = map (keyOf \<circ> tm_value) (en_terms e), b_exclusive = en_exclusive e\<rparr>"

text \<open>A nil position sorts as the empty one here.\<close>

definition refusedBackwardsRange :: "endpoint option \<Rightarrow> endpoint option \<Rightarrow> field_decl list \<Rightarrow> store_error + unit" where
  "refusedBackwardsRange fr to fs =
     (case (fr, to) of
        (Some lo, Some hi) \<Rightarrow>
          if \<not> allConstant (en_terms lo) \<or> \<not> allConstant (en_terms hi) then Inr ()
          else (case boundAt [] fs (Some (endpointBound lo)) False of
                  Inl e \<Rightarrow> Inl e
                | Inr lower \<Rightarrow>
                    (case boundAt [] fs (Some (endpointBound hi)) True of
                       Inl e \<Rightarrow> Inl e
                     | Inr upper \<Rightarrow>
                         refuse ((case lower of None \<Rightarrow> [] | Some l \<Rightarrow> l) > (case upper of None \<Rightarrow> [] | Some u \<Rightarrow> u)
                           \<or> backwardsBoolRange fs (Some (endpointBound lo)) (Some (endpointBound hi))) ErrDeclaration))
      | _ \<Rightarrow> Inr ())"

definition checkEndpoint :: "(bytes, parameter) fmap \<Rightarrow> field_decl list \<Rightarrow> endpoint option \<Rightarrow> store_error + unit" where
  "checkEndpoint params fs e =
     (case e of
        None \<Rightarrow> Inr ()
      | Some e \<Rightarrow>
          checks (refuse (length (en_terms e) > length fs) ErrDeclaration
            # map (\<lambda>(tm, f). checks [checkTerm params fmempty tm (f_type f), constantIsEncodable tm f]) (zip (en_terms e) fs)))"

text \<open>All the fields fixed at both ends to the same terms.\<close>

definition pinned :: "operation \<Rightarrow> nat \<Rightarrow> bool" where
  "pinned p n \<longleftrightarrow>
     (case (o_from p, o_to p) of
        (Some lo, Some hi) \<Rightarrow> length (en_terms lo) = n \<and> length (en_terms hi) = n \<and> list_all2 sameTerm (en_terms lo) (en_terms hi)
      | _ \<Rightarrow> False)"

definition scanAcross :: "spec \<Rightarrow> operation \<Rightarrow> store_error + unit" where
  "scanAcross s p =
     (case s_partition s of
        None \<Rightarrow> Inr ()
      | Some divided \<Rightarrow>
          if p_by divided = ByHash then Inl ErrDeclaration
          else if o_index p = [] \<or> o_index p = ClusteredIndex then Inr ()
          else (case index_named s (o_index p) of
                  None \<Rightarrow> Inl ErrNoIndex
                | Some x \<Rightarrow> refuse (\<not> pinned p (length (i_fields x))) ErrDeclaration))"

definition totalsAcross :: "spec \<Rightarrow> rollup_decl \<Rightarrow> operation \<Rightarrow> store_error + unit" where
  "totalsAcross s r p = refuse (s_partition s \<noteq> None \<and> \<not> pinned p (length (r_group r))) ErrDeclaration"

definition declaresDirection :: "gval \<Rightarrow> store_error + unit" where
  "declaresDirection v = (case directionOf v of Inl _ \<Rightarrow> Inl ErrDeclaration | Inr _ \<Rightarrow> Inr ())"

definition checkDirection :: "(bytes, parameter) fmap \<Rightarrow> operation \<Rightarrow> store_error + unit" where
  "checkDirection params p =
     (case o_direction p of
        None \<Rightarrow> Inr ()
      | Some tm \<Rightarrow>
          (case checkTerm params fmempty tm TypeString of
             Inl e \<Rightarrow> Inl e
           | Inr _ \<Rightarrow>
               if tm_arg tm = [] then declaresDirection (tm_value tm)
               else (case fmlookup params (tm_arg tm) of
                       None \<Rightarrow> Inl ErrDeclaration
                     | Some q \<Rightarrow>
                         if pm_default q = gnil then refuse (\<not> pm_required q) ErrDeclaration
                         else declaresDirection (pm_default q))))"

definition checkCondition :: "(bytes, parameter) fmap \<Rightarrow> (bytes, step_offer) fmap \<Rightarrow> condition \<Rightarrow> store_error + unit" where
  "checkCondition params earlier cn =
     checks [refuse (cn_path cn = []) ErrDeclaration,
             refuse ((cn_equals cn = None) = (\<not> cn_absent cn)) ErrDeclaration,
             (case cn_equals cn of None \<Rightarrow> Inr () | Some tm \<Rightarrow> checkTerm params earlier tm TypeAny)]"

text \<open>A document that is written carries its key unless the collection makes keys up.\<close>

definition writesKey :: "spec \<Rightarrow> (bytes, term_decl) fmap \<Rightarrow> bool" where
  "writesKey s document \<longleftrightarrow> k_path (s_key s) |\<in>| fmdom document \<or> k_auto (s_key s) \<noteq> []"

text \<open>A step that touches a collection.\<close>

definition checkOwnStep :: "spec \<Rightarrow> (bytes, parameter) fmap \<Rightarrow> (bytes, step_offer) fmap \<Rightarrow> step \<Rightarrow> store_error + unit" where
  "checkOwnStep s params earlier st =
     checks
       ((if sp_action st \<in> {ActionGet, ActionUpdate, ActionDelete} then
           [(case sp_key st of None \<Rightarrow> Inl ErrDeclaration | Some tm \<Rightarrow> checkTerm params earlier tm (k_type (s_key s))),
            refuse (sp_action st = ActionUpdate \<and> sp_set st = fmempty) ErrDeclaration,
            checkTerms params earlier (sp_set st) (\<lambda>_. TypeAny)]
         else if sp_action st \<in> {ActionInsert, ActionPut} then
           [refuse (sp_document st = fmempty) ErrDeclaration,
            checkTerms params earlier (sp_document st) (written_as_type s),
            refuse (\<not> writesKey s (sp_document st)) ErrDeclaration]
         else [Inl ErrDeclaration])
        @ map (checkCondition params earlier) (sp_require st))"

text \<open>The arguments a calling step passes, against those its callee takes.\<close>

definition checkPassed :: "(bytes, parameter) fmap \<Rightarrow> (bytes, step_offer) fmap \<Rightarrow> step \<Rightarrow> operation \<Rightarrow> store_error + unit" where
  "checkPassed params earlier st callee =
     checks
       (refuse (\<not> fset (fmdom (sp_with st)) \<subseteq> pm_name ` set (o_input callee)) ErrDeclaration
        # map (\<lambda>q. case fmlookup (sp_with st) (pm_name q) of
                      None \<Rightarrow> refuse (pm_required q) ErrDeclaration
                    | Some tm \<Rightarrow> checkTerm params earlier tm (pm_type q)) (o_input callee))"

definition validateComposedStep ::
  "nat \<Rightarrow> json \<Rightarrow> database \<Rightarrow> operation \<Rightarrow> (bytes, parameter) fmap \<Rightarrow> (bytes, step_offer) fmap \<Rightarrow> step \<Rightarrow> (ref, int) fmap
    \<Rightarrow> store_error + step_offer \<times> (ref, int) fmap" where
  "validateComposedStep n j d parent params earlier st known =
     (if sp_action st \<noteq> [] \<or> sp_collection st \<noteq> [] \<or> sp_key st \<noteq> None \<or> sp_document st \<noteq> fmempty \<or> sp_set st \<noteq> fmempty
         \<or> sp_exists st \<noteq> None \<or> sp_require st \<noteq> [] \<or> sp_version st \<le> 0
      then Inl ErrDeclaration
      else case among j d (sp_operation st) (sp_version st) of
             Inl e \<Rightarrow> Inl (if e = ErrNoOperation then ErrDeclaration else e)
           | Inr callee \<Rightarrow>
               if o_action callee \<in> {ActionCount, ActionHashRange} then Inl ErrDeclaration
               else (case ceilingOf n (among j d) callee {} known of
                       Inl e \<Rightarrow> Inl e
                     | Inr (reach, known) \<Rightarrow>
                         if \<not> set (o_scopes callee) \<subseteq> set (o_scopes parent) then Inl ErrDeclaration
                         else (case checkPassed params earlier st callee of
                                 Inl e \<Rightarrow> Inl e
                               | Inr _ \<Rightarrow>
                                   (case keyTypeOf n (among j d) (collectionOf d) callee of
                                      Inl e \<Rightarrow> Inl e
                                    | Inr t \<Rightarrow> Inr (\<lparr>of_key_type = t, of_ceiling = reach\<rparr>, known)))))"

definition validateStep ::
  "nat \<Rightarrow> json \<Rightarrow> database \<Rightarrow> operation \<Rightarrow> (bytes, parameter) fmap \<Rightarrow> (bytes, step_offer) fmap \<Rightarrow> step \<Rightarrow> (ref, int) fmap
    \<Rightarrow> store_error + step_offer \<times> (ref, int) fmap" where
  "validateStep n j d parent params earlier st known =
     (if sp_operation st \<noteq> [] then validateComposedStep n j d parent params earlier st known
      else case collectionOf d (sp_collection st) of
             Inl e \<Rightarrow> Inl e
           | Inr s \<Rightarrow>
               (case checkOwnStep s params earlier st of
                  Inl e \<Rightarrow> Inl e
                | Inr _ \<Rightarrow> Inr (\<lparr>of_key_type = k_type (s_key s), of_ceiling = 1\<rparr>, known)))"

text \<open>The loop over the steps of a batch: what earlier steps offer, the totals known and the sum so far.\<close>

fun validateSteps ::
  "nat \<Rightarrow> json \<Rightarrow> database \<Rightarrow> operation \<Rightarrow> (bytes, parameter) fmap \<Rightarrow> (bytes, step_offer) fmap \<Rightarrow> (ref, int) fmap \<Rightarrow> int \<Rightarrow> step list \<Rightarrow> store_error + int" where
  "validateSteps n j d parent params earlier known amount [] = Inr amount"
| "validateSteps n j d parent params earlier known amount (st # sts) =
     (case validateStep n j d parent params earlier st known of
        Inl e \<Rightarrow> Inl e
      | Inr (offer, known) \<Rightarrow>
          if sp_name st \<noteq> [] \<and> sp_name st |\<in>| fmdom earlier then Inl ErrDeclaration
          else validateSteps n j d parent params (if sp_name st = [] then earlier else fmupd (sp_name st) offer earlier) known
                 (wrap64 (amount + of_ceiling offer)) sts)"

definition validateBatch :: "nat \<Rightarrow> json \<Rightarrow> database \<Rightarrow> (bytes, parameter) fmap \<Rightarrow> operation \<Rightarrow> store_error + unit" where
  "validateBatch n j d params p =
     (if o_steps p = [] then Inl ErrDeclaration
      else case validateSteps n j d p params fmempty fmempty 0 (o_steps p) of
             Inl e \<Rightarrow> Inl e
           | Inr amount \<Rightarrow>
               refuse ((\<exists>st \<in> set (o_steps p). sp_operation st \<noteq> []) \<and> (o_limit p \<le> 0 \<or> amount > o_limit p)) ErrDeclaration)"

definition validateTotals :: "spec \<Rightarrow> (bytes, parameter) fmap \<Rightarrow> operation \<Rightarrow> store_error + unit" where
  "validateTotals s params p =
     (case rollup_named s (o_rollup p) of
        None \<Rightarrow> Inl ErrNoRollup
      | Some r \<Rightarrow>
          checks [checkEndpoint params (r_group r) (o_from p), checkEndpoint params (r_group r) (o_to p),
                  refusedBackwardsRange (o_from p) (o_to p) (r_group r), refuse (o_limit p \<le> 0) ErrDeclaration, totalsAcross s r p])"

definition validateScan :: "spec \<Rightarrow> (bytes, parameter) fmap \<Rightarrow> operation \<Rightarrow> store_error + unit" where
  "validateScan s params p =
     (if o_action p \<in> {ActionDeleteRange, ActionHashRange} \<and> o_index p \<noteq> [] \<and> o_index p \<noteq> ClusteredIndex then Inl ErrDeclaration
      else case scanFields s (o_index p) of
             Inl e \<Rightarrow> Inl e
           | Inr fs \<Rightarrow>
               checks [checkEndpoint params fs (o_from p), checkEndpoint params fs (o_to p), refusedBackwardsRange (o_from p) (o_to p) fs,
                       (if o_action p = ActionScan then checkDirection params p else Inr ()),
                       refuse (o_limit p \<le> 0) ErrDeclaration, scanAcross s p,
                       refuse (o_action p = ActionHashRange
                         \<and> (o_field p = [] \<or> o_decode p \<noteq> [] \<and> o_decode p \<noteq> DecodeBase64 \<or> o_projection p \<noteq> [])) ErrDeclaration,
                       refuse (o_action p = ActionDeleteRange \<and> o_projection p \<noteq> []) ErrDeclaration])"

definition validateAction :: "nat \<Rightarrow> json \<Rightarrow> database \<Rightarrow> spec \<Rightarrow> (bytes, parameter) fmap \<Rightarrow> operation \<Rightarrow> store_error + unit" where
  "validateAction n j d s params p =
     (if o_action p \<in> {ActionGet, ActionDelete, ActionUpdate} then
        checks [(case o_key p of None \<Rightarrow> Inl ErrDeclaration | Some tm \<Rightarrow> checkTerm params fmempty tm (k_type (s_key s))),
                refuse (o_action p = ActionUpdate \<and> o_set p = fmempty) ErrDeclaration,
                checkTerms params fmempty (o_set p) (\<lambda>_. TypeAny)]
      else if o_action p = ActionTotals then validateTotals s params p
      else if o_action p \<in> {ActionScan, ActionCount, ActionHashRange, ActionDeleteRange} then validateScan s params p
      else if o_action p = ActionBatch then validateBatch n j d params p
      else if o_action p \<in> {ActionInsert, ActionPut} then
        checks [refuse (o_document p = fmempty) ErrDeclaration, checkTerms params fmempty (o_document p) (written_as_type s),
                refuse (\<not> writesKey s (o_document p)) ErrDeclaration]
      else Inl ErrDeclaration)"

definition validateOperation :: "nat \<Rightarrow> json \<Rightarrow> database \<Rightarrow> operation \<Rightarrow> store_error + unit" where
  "validateOperation n j d p =
     (case checks [usableName (o_name p), (case SplitOperationName (o_name p) of Inl e \<Rightarrow> Inl e | Inr _ \<Rightarrow> Inr ())] of
        Inl e \<Rightarrow> Inl e
      | Inr _ \<Rightarrow>
          (case collectionOf d (o_collection p) of
             Inl e \<Rightarrow> Inl e
           | Inr s \<Rightarrow>
               (case checkParameters fmempty (o_input p) of
                  Inl e \<Rightarrow> Inl e
                | Inr params \<Rightarrow>
                    checks [validateAction n j d s params p,
                            refuse (o_direction p \<noteq> None \<and> o_action p \<noteq> ActionScan) ErrDeclaration,
                            refuse (o_action p \<noteq> ActionHashRange \<and> (o_field p \<noteq> [] \<or> o_decode p \<noteq> [])) ErrDeclaration,
                            refuse ([] \<in> set (o_projection p)) ErrDeclaration])))"

section \<open>Namespaces\<close>

definition NamespaceClaim :: "json \<Rightarrow> bytes \<Rightarrow> claim option on_tree" where
  "NamespaceClaim j namespace =
     (if namespace = [] then ret None
      else bnd (treeGet (claimKey namespace)) (\<lambda>v.
        case v of
          None \<Rightarrow> ret None
        | Some b \<Rightarrow> (case Unmarshal (j_claims j) b of None \<Rightarrow> throw ErrDamaged | Some owner \<Rightarrow> ret (Some owner))))"

definition claimFor :: "json \<Rightarrow> caller \<Rightarrow> bytes \<Rightarrow> unit on_tree" where
  "claimFor j caller name =
     (case SplitOperationName name of
        Inl e \<Rightarrow> throw e
      | Inr (namespace, _) \<Rightarrow>
          if namespace = [] then ret ()
          else bnd (NamespaceClaim j namespace) (\<lambda>owner.
            case owner of
              Some owner \<Rightarrow> if same_claim owner (holder namespace caller) then ret () else throw ErrNamespace
            | None \<Rightarrow>
                (case Marshal (j_claims j) (holder namespace caller) of
                   None \<Rightarrow> throw ErrMarshal
                 | Some encoded \<Rightarrow> treePut (claimKey namespace) encoded)))"

section \<open>Declaring\<close>

definition latestVersion :: "json \<Rightarrow> bytes \<Rightarrow> int on_tree" where
  "latestVersion j name =
     (\<lambda>t. case Operation j name 0 t of
            (Inl e, t) \<Rightarrow> if e = ErrNoOperation then (Inr 0, t) else (Inl e, t)
          | (Inr p, t) \<Rightarrow> (Inr (o_version p), t))"

definition writeOperation :: "json \<Rightarrow> operation \<Rightarrow> unit on_tree" where
  "writeOperation j p =
     (case Marshal (j_operations j) p of None \<Rightarrow> throw ErrMarshal | Some encoded \<Rightarrow> treePut (operationKey (o_name p) (o_version p)) encoded)"

definition DeclareOperation :: "nat \<Rightarrow> json \<Rightarrow> caller \<Rightarrow> operation \<Rightarrow> operation on_store" where
  "DeclareOperation n j caller p d =
     (case validateOperation n j d p of
        Inl e \<Rightarrow> (Inl e, d)
      | Inr _ \<Rightarrow>
          bnd (onLeader (claimFor j caller (o_name p))) (\<lambda>_.
          bnd (onLeader (latestVersion j (o_name p))) (\<lambda>latest.
            let p = p\<lparr>o_version := wrap64 (latest + 1), o_declared_by := declarerOf caller\<rparr> in
            bnd (onLeader (writeOperation j p)) (\<lambda>_.
            bnd (record_store j (blankChange\<lparr>c_kind := ChangeOperation, c_operation := Some p, c_by := declared_by (ascii ''declare'') (cl_actor caller)\<rparr>)) (\<lambda>_.
            ret p)))) d)"

end
