(* ===== verification/Store_Invoke.thy ===== *)
theory Store_Invoke
  imports Store_Declare
begin

text \<open>
  Running a declared operation (\<^verbatim>\<open>internal/store/invoke.go\<close>, \<^verbatim>\<open>batch.go\<close> and \<^verbatim>\<open>deleterange.go\<close>): the scopes of
  the caller, the arguments, what a repeated write is answered with, the actions, and the steps of a batch
  with the operations they call.

  What the code writes through pointers to the answer and to its budget is returned here; after an error
  neither is read again. A batch may call batches; the functions take the depth they may go to, and answer
  \<open>None\<close> where the program would still be running.
\<close>

section \<open>Arguments\<close>

definition allowed :: "caller \<Rightarrow> operation \<Rightarrow> store_error + unit" where
  "allowed caller p = refuse (\<not> set (o_scopes p) \<subseteq> set (cl_scopes caller)) ErrNotAllowed"

fun bindParameters :: "parameter list \<Rightarrow> (bytes, gval) fmap \<Rightarrow> (bytes, gval) fmap \<Rightarrow> store_error + (bytes, gval) fmap" where
  "bindParameters [] arguments values = Inr values"
| "bindParameters (q # qs) arguments values =
     (case fmlookup arguments (pm_name q) of
        None \<Rightarrow>
          if pm_required q then Inl ErrArgument
          else bindParameters qs arguments (if pm_default q = gnil then values else fmupd (pm_name q) (pm_default q) values)
      | Some v \<Rightarrow>
          if \<not> matches (pm_type q) v then Inl ErrArgument
          else bindParameters qs arguments (fmupd (pm_name q) v values))"

definition bind_arguments :: "operation \<Rightarrow> (bytes, gval) fmap \<Rightarrow> store_error + (bytes, gval) fmap" where
  "bind_arguments p arguments =
     (case bindParameters (o_input p) arguments fmempty of
        Inl e \<Rightarrow> Inl e
      | Inr values \<Rightarrow> if fset (fmdom arguments) \<subseteq> pm_name ` set (o_input p) then Inr values else Inl ErrArgument)"

definition resolve :: "(bytes, gval) fmap \<Rightarrow> term_decl \<Rightarrow> store_error + gval" where
  "resolve values tm =
     (if tm_arg tm = [] then Inr (tm_value tm)
      else case fmlookup values (tm_arg tm) of None \<Rightarrow> Inl ErrArgument | Some v \<Rightarrow> Inr v)"

definition resolveIn :: "(bytes, gval) fmap \<Rightarrow> (bytes, gval) fmap \<Rightarrow> term_decl \<Rightarrow> store_error + gval" where
  "resolveIn values made tm =
     (if tm_step tm \<noteq> [] then (case fmlookup made (tm_step tm) of None \<Rightarrow> Inl ErrDeclaration | Some v \<Rightarrow> Inr v)
      else resolve values tm)"

definition given_term :: "(bytes, gval) fmap \<Rightarrow> term_decl \<Rightarrow> bool" where
  "given_term values tm \<longleftrightarrow> tm_arg tm = [] \<or> tm_arg tm |\<in>| fmdom values"

text \<open>
  The loop of \<^verbatim>\<open>build\<close>, \<^verbatim>\<open>buildIn\<close> and the arguments passed on: a term whose argument was not given is left
  out; what is left can only fail on a step that has not run.
\<close>

definition buildWith :: "(term_decl \<Rightarrow> store_error + gval) \<Rightarrow> (bytes, gval) fmap \<Rightarrow> (bytes, term_decl) fmap \<Rightarrow> store_error + doc" where
  "buildWith solve values tms =
     (let picked = fmfilter (\<lambda>name. \<exists>tm \<in> set_option (fmlookup tms name). given_term values tm) tms in
      if fmpred (\<lambda>_ tm. isl (solve tm) = False) picked then Inr (fmmap (\<lambda>tm. projr (solve tm)) picked) else Inl ErrDeclaration)"

definition build :: "(bytes, term_decl) fmap \<Rightarrow> (bytes, gval) fmap \<Rightarrow> store_error + doc" where
  "build tms values = buildWith (resolve values) values tms"

definition buildIn :: "(bytes, term_decl) fmap \<Rightarrow> (bytes, gval) fmap \<Rightarrow> (bytes, gval) fmap \<Rightarrow> store_error + doc" where
  "buildIn tms values made = buildWith (resolveIn values made) values tms"

text \<open>An end one of whose arguments was not given is open.\<close>

fun boundValues :: "(bytes, gval) fmap \<Rightarrow> term_decl list \<Rightarrow> store_error + gval list option" where
  "boundValues values [] = Inr (Some [])"
| "boundValues values (tm # tms) =
     (if \<not> given_term values tm then Inr None
      else case resolve values tm of
             Inl e \<Rightarrow> Inl e
           | Inr v \<Rightarrow> (case boundValues values tms of Inl e \<Rightarrow> Inl e | Inr vs \<Rightarrow> Inr (map_option ((#) v) vs)))"

definition boundOf :: "(bytes, gval) fmap \<Rightarrow> endpoint option \<Rightarrow> store_error + bound option" where
  "boundOf values e =
     (case e of
        None \<Rightarrow> Inr None
      | Some e \<Rightarrow>
          (case boundValues values (en_terms e) of
             Inl x \<Rightarrow> Inl x
           | Inr vs \<Rightarrow> Inr (map_option (\<lambda>vs. \<lparr>b_values = map keyOf vs, b_exclusive = en_exclusive e\<rparr>) vs)))"

definition directionFor :: "term_decl option \<Rightarrow> (bytes, gval) fmap \<Rightarrow> store_error + direction" where
  "directionFor tm values =
     (case tm of
        None \<Rightarrow> Inr Forward
      | Some tm \<Rightarrow> (case resolve values tm of Inl e \<Rightarrow> Inl e | Inr v \<Rightarrow> directionOf v))"

definition bounds :: "operation \<Rightarrow> (bytes, gval) fmap \<Rightarrow> store_error + range" where
  "bounds p values =
     (case boundOf values (o_from p) of
        Inl e \<Rightarrow> Inl e
      | Inr lo \<Rightarrow>
          (case boundOf values (o_to p) of
             Inl e \<Rightarrow> Inl e
           | Inr hi \<Rightarrow>
               (case directionFor (o_direction p) values of
                  Inl e \<Rightarrow> Inl e
                | Inr dir \<Rightarrow> Inr \<lparr>From = lo, To = hi, Direction = dir\<rparr>)))"

section \<open>Actions\<close>

definition lift_check :: "store_error + 'a \<Rightarrow> 'a on_store" where
  "lift_check r = (case r of Inl e \<Rightarrow> throw e | Inr a \<Rightarrow> ret a)"

definition keyTerm :: "operation \<Rightarrow> (bytes, gval) fmap \<Rightarrow> gval on_store" where
  "keyTerm p values = (case o_key p of None \<Rightarrow> throw Panicked | Some tm \<Rightarrow> lift_check (resolve values tm))"

text \<open>A document that is inserted must not be there.\<close>

definition notTaken :: "json \<Rightarrow> crypto \<Rightarrow> nat \<Rightarrow> doc \<Rightarrow> unit on_store" where
  "notTaken j C c document d =
     (case fmlookup document (k_path (s_key (specOf c d))) of
        None \<Rightarrow> (Inr (), d)
      | Some key \<Rightarrow>
          if key = gnil then (Inr (), d)
          else bnd (Get_doc j C c key) (\<lambda>taken. if taken \<noteq> None then throw ErrExists else ret ()) d)"

definition gathers_key :: "operation \<Rightarrow> key_value \<Rightarrow> key_value list \<times> bool \<Rightarrow> bool \<times> key_value list \<times> bool" where
  "gathers_key p key st = (if int (length (fst st)) \<ge> o_limit p then (False, fst st, True) else (True, fst st @ [key], snd st))"

fun removeKeys :: "json \<Rightarrow> crypto \<Rightarrow> nat \<Rightarrow> attribution \<Rightarrow> key_value list \<Rightarrow> result \<Rightarrow> result on_store" where
  "removeKeys j C c by [] res = ret res"
| "removeKeys j C c by (key # keys) res =
     bnd (remove_doc j C c by (GKey key) True) (\<lambda>removed.
     removeKeys j C c by keys (if removed then res\<lparr>rs_changed := rs_changed res + 1, rs_key := GKey key\<rparr> else res))"

definition runDeleteRange :: "json \<Rightarrow> crypto \<Rightarrow> attribution \<Rightarrow> nat \<Rightarrow> operation \<Rightarrow> range \<Rightarrow> result \<Rightarrow> result on_store" where
  "runDeleteRange j C by c p rng res =
     bnd (walkKeys C c rng (gathers_key p) ([], False)) (\<lambda>(removing, more).
     bnd (removeKeys j C c by removing res) (\<lambda>res.
     ret (res\<lparr>rs_truncated := more\<rparr>)))"

definition runGet :: "json \<Rightarrow> crypto \<Rightarrow> nat \<Rightarrow> operation \<Rightarrow> (bytes, gval) fmap \<Rightarrow> result \<Rightarrow> budget \<Rightarrow> (result \<times> budget) on_store" where
  "runGet j C c p values res room =
     bnd (keyTerm p values) (\<lambda>key.
     bnd (Get_doc j C c key) (\<lambda>document.
       case document of
         None \<Rightarrow> ret (res, room)
       | Some document \<Rightarrow>
           (let row = project document (o_projection p) in
            bnd (lift_check (spend j row room)) (\<lambda>room. ret (res\<lparr>rs_rows := [row], rs_count := 1\<rparr>, room)))))"

definition runPut :: "json \<Rightarrow> crypto \<Rightarrow> attribution \<Rightarrow> nat \<Rightarrow> operation \<Rightarrow> (bytes, gval) fmap \<Rightarrow> result \<Rightarrow> result on_store" where
  "runPut j C by c p values res =
     bnd (lift_check (build (o_document p) values)) (\<lambda>document.
     bnd (if o_action p = ActionInsert then notTaken j C c document else ret ()) (\<lambda>_.
     bnd (write_doc j C c by document True) (\<lambda>key.
     ret (res\<lparr>rs_key := key, rs_changed := 1\<rparr>))))"

definition runUpdate :: "json \<Rightarrow> crypto \<Rightarrow> attribution \<Rightarrow> nat \<Rightarrow> operation \<Rightarrow> (bytes, gval) fmap \<Rightarrow> result \<Rightarrow> result on_store" where
  "runUpdate j C by c p values res =
     bnd (keyTerm p values) (\<lambda>key.
     bnd (Get_doc j C c key) (\<lambda>document.
       case document of
         None \<Rightarrow> ret res
       | Some document \<Rightarrow>
           bnd (lift_check (build (o_set p) values)) (\<lambda>changes.
           bnd (write_doc j C c by (fmadd document changes) True) (\<lambda>_.
           ret (res\<lparr>rs_key := key, rs_changed := 1\<rparr>)))))"

definition runDelete :: "json \<Rightarrow> crypto \<Rightarrow> attribution \<Rightarrow> nat \<Rightarrow> operation \<Rightarrow> (bytes, gval) fmap \<Rightarrow> result \<Rightarrow> result on_store" where
  "runDelete j C by c p values res =
     bnd (keyTerm p values) (\<lambda>key.
     bnd (remove_doc j C c by key True) (\<lambda>removed.
     ret (if removed then res\<lparr>rs_key := key, rs_changed := 1\<rparr> else res\<lparr>rs_key := key\<rparr>)))"

definition keeping :: "budget \<Rightarrow> result on_store \<Rightarrow> (result \<times> budget) on_store" where
  "keeping room f = bnd f (\<lambda>res. ret (res, room))"

text \<open>The actions but the batch.\<close>

definition runPlain ::
  "json \<Rightarrow> crypto \<Rightarrow> attribution \<Rightarrow> operation \<Rightarrow> (bytes, gval) fmap \<Rightarrow> result \<Rightarrow> budget \<Rightarrow> (result \<times> budget) on_store" where
  "runPlain j C by p values res room =
     bnd (Collection (o_collection p)) (\<lambda>c.
       if o_action p = ActionGet then runGet j C c p values res room
       else if o_action p = ActionTotals then bnd (lift_check (bounds p values)) (\<lambda>rng. runTotals j C c p rng res room)
       else if o_action p \<in> {ActionScan, ActionCount} then bnd (lift_check (bounds p values)) (\<lambda>rng. run j C c p rng res room)
       else if o_action p = ActionHashRange then bnd (lift_check (bounds p values)) (\<lambda>rng. keeping room (hashRange j C c p rng res))
       else if o_action p = ActionDeleteRange then bnd (lift_check (bounds p values)) (\<lambda>rng. keeping room (runDeleteRange j C by c p rng res))
       else if o_action p \<in> {ActionInsert, ActionPut} then keeping room (runPut j C by c p values res)
       else if o_action p = ActionUpdate then keeping room (runUpdate j C by c p values res)
       else if o_action p = ActionDelete then keeping room (runDelete j C by c p values res)
       else throw ErrDeclaration)"

section \<open>Steps\<close>

definition f64_as_number :: "key_value \<Rightarrow> 64 word" where
  "f64_as_number v =
     (case v of
        VFloat64 w \<Rightarrow> w | VFloat32 w \<Rightarrow> f32_to_f64 w | VInt w \<Rightarrow> f64_of_int (sint w) | VInt64 w \<Rightarrow> f64_of_int (sint w) | _ \<Rightarrow> 0)"

definition is_number :: "gval \<Rightarrow> bool" where
  "is_number v \<longleftrightarrow> v \<noteq> gnil \<and> matches TypeNumber v"

primrec sameValue :: "gval \<Rightarrow> gval \<Rightarrow> bool" where
  "sameValue (GKey a) w =
     (if is_number (GKey a) \<and> is_number w then f64_equal (f64_as_number a) (f64_as_number (keyOf w)) else deepEqual (GKey a) w)"
| "sameValue (GList xs) w = (case w of GList ys \<Rightarrow> list_all2 (\<lambda>f y. f y) (map sameValue xs) ys | _ \<Rightarrow> False)"
| "sameValue (GMap m) w =
     (case w of GMap n \<Rightarrow> fmdom m = fmdom n \<and> fmpred (\<lambda>k f. \<exists>y \<in> set_option (fmlookup n k). f y) (fmmap sameValue m) | _ \<Rightarrow> False)"

fun satisfies :: "doc \<Rightarrow> condition list \<Rightarrow> (bytes, gval) fmap \<Rightarrow> (bytes, gval) fmap \<Rightarrow> store_error + unit" where
  "satisfies document [] values made = Inr ()"
| "satisfies document (cn # cns) values made =
     (let v = at_path document (cn_path cn) in
      if cn_absent cn then (if v \<noteq> None then Inl ErrCondition else satisfies document cns values made)
      else case cn_equals cn of
             None \<Rightarrow> Inl Panicked
           | Some tm \<Rightarrow>
               (case resolveIn values made tm of
                  Inl e \<Rightarrow> Inl e
                | Inr wanted \<Rightarrow>
                    (case v of
                       None \<Rightarrow> Inl ErrCondition
                     | Some v \<Rightarrow> if \<not> sameValue v wanted then Inl ErrCondition else satisfies document cns values made)))"

text \<open>What a step finds before it acts: the key it names, the document there, and its conditions met.\<close>

definition stepDocument ::
  "json \<Rightarrow> crypto \<Rightarrow> nat \<Rightarrow> step \<Rightarrow> (bytes, gval) fmap \<Rightarrow> (bytes, gval) fmap \<Rightarrow> (gval \<times> doc option) on_store" where
  "stepDocument j C c st values made =
     bnd (case sp_key st of None \<Rightarrow> ret gnil | Some tm \<Rightarrow> lift_check (resolveIn values made tm)) (\<lambda>key.
     bnd (if key = gnil then ret None else Get_doc j C c key) (\<lambda>document.
       case sp_exists st of
         Some True \<Rightarrow>
           if document = None then throw ErrMissing
           else bnd (lift_check (satisfies (the document) (sp_require st) values made)) (\<lambda>_. ret (key, document))
       | Some False \<Rightarrow>
           if document \<noteq> None then throw ErrExists
           else if sp_require st \<noteq> [] then throw ErrMissing else ret (key, document)
       | None \<Rightarrow>
           if sp_require st = [] then ret (key, document)
           else (case document of
                   None \<Rightarrow> throw ErrMissing
                 | Some x \<Rightarrow> bnd (lift_check (satisfies x (sp_require st) values made)) (\<lambda>_. ret (key, document)))))"

text \<open>A step that touches a collection: the key it hands back, with the answer and its budget.\<close>

definition runOwnStep ::
  "json \<Rightarrow> crypto \<Rightarrow> attribution \<Rightarrow> step \<Rightarrow> (bytes, gval) fmap \<Rightarrow> (bytes, gval) fmap \<Rightarrow> result \<Rightarrow> budget \<Rightarrow> (gval \<times> result \<times> budget) on_store" where
  "runOwnStep j C by st values made res room =
     bnd (Collection (sp_collection st)) (\<lambda>c.
     bnd (stepDocument j C c st values made) (\<lambda>(key, document).
       if sp_action st = ActionGet then
         (case document of
            None \<Rightarrow> ret (key, res, room)
          | Some row \<Rightarrow>
              bnd (lift_check (spend j row room)) (\<lambda>room.
              ret (key, res\<lparr>rs_rows := rs_rows res @ [row], rs_count := int (length (rs_rows res @ [row]))\<rparr>, room)))
       else if sp_action st \<in> {ActionInsert, ActionPut} then
         bnd (lift_check (buildIn (sp_document st) values made)) (\<lambda>document.
         bnd (if sp_action st = ActionInsert then notTaken j C c document else ret ()) (\<lambda>_.
         bnd (write_doc j C c by document True) (\<lambda>key.
         ret (key, res\<lparr>rs_changed := rs_changed res + 1\<rparr>, room))))
       else if sp_action st = ActionUpdate then
         (case document of
            None \<Rightarrow> throw ErrMissing
          | Some document \<Rightarrow>
              bnd (lift_check (buildIn (sp_set st) values made)) (\<lambda>changes.
              bnd (write_doc j C c by (fmadd document changes) True) (\<lambda>_.
              ret (key, res\<lparr>rs_changed := rs_changed res + 1\<rparr>, room))))
       else if sp_action st = ActionDelete then
         bnd (remove_doc j C c by key True) (\<lambda>removed.
         ret (key, if removed then res\<lparr>rs_changed := rs_changed res + 1\<rparr> else res, room))
       else throw ErrDeclaration))"

text \<open>What an operation that was called adds to the answer of its caller.\<close>

definition addResult :: "result \<Rightarrow> result \<Rightarrow> result" where
  "addResult res sub =
     res\<lparr>rs_rows := rs_rows res @ rs_rows sub, rs_count := int (length (rs_rows res @ rs_rows sub)), rs_changed := rs_changed res + rs_changed sub,
       rs_truncated := (rs_truncated res \<or> rs_truncated sub)\<rparr>"

text \<open>What a calling step passes on, bound to the parameters of the operation it calls.\<close>

definition callee_arguments :: "step \<Rightarrow> operation \<Rightarrow> (bytes, gval) fmap \<Rightarrow> (bytes, gval) fmap \<Rightarrow> store_error + (bytes, gval) fmap" where
  "callee_arguments st callee values made =
     (case buildIn (sp_with st) values made of Inl e \<Rightarrow> Inl e | Inr passing \<Rightarrow> bind_arguments callee passing)"

fun runSteps ::
  "nat \<Rightarrow> json \<Rightarrow> crypto \<Rightarrow> attribution \<Rightarrow> step list \<Rightarrow> (bytes, gval) fmap \<Rightarrow> (bytes, gval) fmap \<Rightarrow> result \<Rightarrow> budget \<Rightarrow> (result \<times> budget) option on_store" where
  "runSteps n j C by [] values made res room = ret (Some (res, room))"
| "runSteps n j C by (st # sts) values made res room =
     bnd (if sp_operation st = [] then bnd (runOwnStep j C by st values made res room) (\<lambda>done. ret (Some done))
          else bnd (onLeader (Operation j (sp_operation st) (sp_version st))) (\<lambda>callee.
               bnd (lift_check (callee_arguments st callee values made)) (\<lambda>inner.
               bnd (if o_action callee = ActionBatch then
                      (case n of
                         0 \<Rightarrow> ret None
                       | Suc n' \<Rightarrow> runSteps n' j C by (o_steps callee) inner fmempty (newResult (o_name callee) (o_version callee)) room)
                    else bnd (runPlain j C by callee inner (newResult (o_name callee) (o_version callee)) room) (\<lambda>done. ret (Some done)))
                 (\<lambda>done. ret (map_option (\<lambda>(sub, room). (rs_key sub, addResult res sub, room)) done)))))
       (\<lambda>done. case done of
          None \<Rightarrow> ret None
        | Some (key, res, room) \<Rightarrow>
            runSteps n j C by sts values (if sp_name st = [] then made else fmupd (sp_name st) key made) (res\<lparr>rs_key := key\<rparr>) room)"

declare runSteps.simps [simp del]

text \<open>A batch that fails, or panics, is rolled back; what rolling back adds to the error is not told apart.\<close>

definition runBatch ::
  "nat \<Rightarrow> json \<Rightarrow> crypto \<Rightarrow> attribution \<Rightarrow> operation \<Rightarrow> (bytes, gval) fmap \<Rightarrow> result \<Rightarrow> budget \<Rightarrow> (result \<times> budget) option on_store" where
  "runBatch n j C by p values res room d =
     (if Pending (pages (db_tree d)) then (Inl ErrUncommitted, d)
      else case runSteps n j C by (o_steps p) values fmempty res room d of
             (Inl e, d) \<Rightarrow> (Inl e, snd (Rollback_store j d))
           | (Inr done, d) \<Rightarrow> (Inr done, d))"

definition runInline ::
  "nat \<Rightarrow> json \<Rightarrow> crypto \<Rightarrow> attribution \<Rightarrow> operation \<Rightarrow> (bytes, gval) fmap \<Rightarrow> result \<Rightarrow> budget \<Rightarrow> (result \<times> budget) option on_store" where
  "runInline n j C by p values res room =
     (if o_action p = ActionBatch then bnd (Collection (o_collection p)) (\<lambda>_. runBatch n j C by p values res room)
      else bnd (runPlain j C by p values res room) (\<lambda>done. ret (Some done)))"

section \<open>Requests\<close>

definition attributionOf :: "caller \<Rightarrow> operation \<Rightarrow> attribution" where
  "attributionOf caller p =
     \<lparr>a_operation = o_name p, a_version = o_version p, a_actor = cl_actor caller, a_write_id = cl_write_id caller\<rparr>"

definition repeatedResult :: "operation \<Rightarrow> 64 word \<Rightarrow> gval \<Rightarrow> result" where
  "repeatedResult p lsn key = (newResult (o_name p) (o_version p))\<lparr>rs_key := key, rs_changed := 1, rs_repeated := lsn\<rparr>"

definition perform :: "nat \<Rightarrow> json \<Rightarrow> crypto \<Rightarrow> caller \<Rightarrow> operation \<Rightarrow> (bytes, gval) fmap \<Rightarrow> result option on_store" where
  "perform n j C caller p arguments d =
     (case bind_arguments p arguments of
        Inl e \<Rightarrow> (Inl e, d)
      | Inr values \<Rightarrow>
          bnd (if Writes (o_action p) \<and> cl_write_id caller \<noteq> [] then onLeader (Wrote j (cl_write_id caller)) else ret None) (\<lambda>already.
            case already of
              Some (lsn, key) \<Rightarrow> ret (Some (repeatedResult p lsn key))
            | None \<Rightarrow>
                bnd (runInline n j C (attributionOf caller p) p values (newResult (o_name p) (o_version p))
                       \<lparr>bg_most = db_budget d, bg_used = 0, bg_rows = 0\<rparr>) (\<lambda>done.
                case done of
                  None \<Rightarrow> ret None
                | Some (res, room) \<Rightarrow> bnd (if rs_changed res > 0 then Commit_store else ret ()) (\<lambda>_. ret (Some res)))) d)"

definition Invoke_store :: "nat \<Rightarrow> json \<Rightarrow> crypto \<Rightarrow> caller \<Rightarrow> bytes \<Rightarrow> int \<Rightarrow> (bytes, gval) fmap \<Rightarrow> result option on_store" where
  "Invoke_store n j C caller name version arguments =
     bnd (onLeader (Operation j name version)) (\<lambda>p.
       case allowed caller p of
         Inl e \<Rightarrow> throw e
       | Inr _ \<Rightarrow> perform n j C caller p arguments)"

definition SharedRead :: "nat \<Rightarrow> json \<Rightarrow> caller \<Rightarrow> bytes \<Rightarrow> int \<Rightarrow> (operation \<times> bool) on_store" where
  "SharedRead n j caller name version =
     bnd (onLeader (Operation j name version)) (\<lambda>p d.
       case allowed caller p of
         Inl e \<Rightarrow> (Inl e, d)
       | Inr _ \<Rightarrow>
           (case shareable n (among j d) (collectionOf d) p {} fmempty of
              Inl e \<Rightarrow> (Inl e, d)
            | Inr (shared, _) \<Rightarrow> (Inr (p, shared), d)))"

end
