(* ===== verification/Store_Settled.thy ===== *)
theory Store_Settled
  imports Store_Catalog
begin

text \<open>
  Operations on a tree whose outcome depends on the map the tree holds and on nothing else, such as where
  its pages are: run on two trees that hold the same map they answer the same and leave the same map.
  \<open>settled P f\<close> says so of \<open>f\<close>, and that it changes no key of \<open>P\<close>.
\<close>

section \<open>Settled operations\<close>

definition settled :: "(bytes \<Rightarrow> bool) \<Rightarrow> 'a on_tree \<Rightarrow> bool" where
  "settled P f \<longleftrightarrow> backs f \<and> (\<forall>m. \<exists>a m'. (\<forall>k. P k \<longrightarrow> m' k = m k) \<and> does f m (\<lambda>b n. b = a \<and> n = m'))"

named_theorems settle_rules "operations whose outcome depends on the map alone"

lemma settled_backs: "settled P f \<Longrightarrow> backs f"
  by (simp add: settled_def)

lemma settledI:
  assumes "backs f" "\<And>m. \<exists>a m'. (\<forall>k. P k \<longrightarrow> m' k = m k) \<and> does f m (\<lambda>b n. b = a \<and> n = m')"
  shows "settled P f"
  using assms by (simp add: settled_def)

lemma settledE:
  assumes "settled P f"
  obtains a m' where "\<forall>k. P k \<longrightarrow> m' k = m k" "does f m (\<lambda>b n. b = a \<and> n = m')"
  using assms unfolding settled_def by blast

lemma settled_weaken: "settled P f \<Longrightarrow> (\<And>k. Q k \<Longrightarrow> P k) \<Longrightarrow> settled Q f"
  unfolding settled_def by meson

text \<open>Two trees with the same map.\<close>

lemma settled_same:
  assumes "settled P f" "holding t m" "holding r m" "f t = (Inr a, t')" "f r = (Inr b, r')" "limited t'" "limited r'"
  obtains m' where "holding t' m'" "holding r' m'" "a = b" "\<forall>k. P k \<longrightarrow> m' k = m k"
proof -
  from assms(1) obtain a' m' where m': "\<forall>k. P k \<longrightarrow> m' k = m k" "does f m (\<lambda>b n. b = a' \<and> n = m')" by (rule settledE)
  from doesD [OF m'(2) assms(2,4,6)] doesD [OF m'(2) assms(3,5,7)] m'(1) that show thesis by auto
qed

lemma settled_ret [settle_rules]: "settled P (ret a)" "settled P (throw e)"
  by (rule settledI, intro back_rules, blast intro: does_rules)+

lemma settled_get [settle_rules]: "settled P (treeGet k)"
  by (rule settledI, intro back_rules, rule exI, rule exI, rule conjI [OF allI does_treeGet]) auto

lemma settled_put [settle_rules]: "\<not> P k \<Longrightarrow> settled P (treePut k v)"
  by (rule settledI, intro back_rules, rule exI, rule exI, rule conjI [OF allI does_treePut]) auto

lemma settled_delete [settle_rules]: "\<not> P k \<Longrightarrow> settled P (treeDelete k)"
  by (rule settledI, intro back_rules, rule exI, rule exI, rule conjI [OF allI does_treeDelete]) auto

lemma sorted_same_map:
  assumes "sorted_wrt (<) (map fst kvs)" "sorted_wrt (<) (map fst kvs')" "map_of kvs = map_of kvs'"
  shows "kvs = (kvs' :: (bytes \<times> bytes) list)"
proof -
  have d: "distinct (map fst kvs)" "distinct (map fst kvs')" using assms(1,2) strict_sorted_iff by blast+
  have s: "set kvs = set kvs'"
    using map_of_eq_Some_iff [OF d(1)] map_of_eq_Some_iff [OF d(2)] assms(3) by (intro set_eqI) (metis surj_pair)
  then have "map fst kvs = map fst kvs'" using assms(1,2) by (intro strict_sorted_equal) auto
  then show ?thesis using s d by (intro map_inj_on [of fst kvs kvs']) (auto simp: distinct_map)
qed

lemma settled_ascend [settle_rules]: "settled P (treeAscend k visit s)"
proof (rule settledI, intro back_rules)
  fix m :: view
  let ?Q = "\<lambda>kvs. sorted_wrt (<) (map fst kvs) \<and> map_of kvs = m"
  have "does (treeAscend k visit s) m (\<lambda>b n. b = visited visit (from_kv (Some k) (SOME kvs. ?Q kvs)) s \<and> n = m)"
  proof (rule does_treeAscend)
    fix kvs assume "sorted_wrt (<) (map fst kvs)" "map_of kvs = m"
    then have q: "?Q kvs" by simp
    then have "?Q (SOME kvs. ?Q kvs)" by (rule someI)
    with q have "kvs = (SOME kvs. ?Q kvs)" by (intro sorted_same_map) auto
    then show "visited visit (from_kv (Some k) kvs) s = visited visit (from_kv (Some k) (SOME kvs. ?Q kvs)) s \<and> m = m" by simp
  qed
  then show "\<exists>a m'. (\<forall>k. P k \<longrightarrow> m' k = m k) \<and> does (treeAscend k visit s) m (\<lambda>b n. b = a \<and> n = m')" by blast
qed

lemma settled_bnd [settle_rules]:
  assumes f: "settled P f" and g: "\<And>a. settled P (g a)"
  shows "settled P (bnd f g)"
proof (rule settledI)
  show "backs (bnd f g)" using settled_backs [OF f] settled_backs [OF g] by (intro back_rules)
  fix m
  from f obtain a m1 where 1: "\<forall>k. P k \<longrightarrow> m1 k = m k" "does f m (\<lambda>b n. b = a \<and> n = m1)" by (rule settledE)
  from g obtain b m2 where 2: "\<forall>k. P k \<longrightarrow> m2 k = m1 k" "does (g a) m1 (\<lambda>c n. c = b \<and> n = m2)" by (rule settledE)
  have "does (bnd f g) m (\<lambda>c n. c = b \<and> n = m2)"
    by (rule does_bnd [OF 1(2)]) (use 2(2) settled_backs [OF g] in auto)
  moreover have "\<forall>k. P k \<longrightarrow> m2 k = m k" using 1(1) 2(1) by simp
  ultimately show "\<exists>a m'. (\<forall>k. P k \<longrightarrow> m' k = m k) \<and> does (bnd f g) m (\<lambda>b n. b = a \<and> n = m')" by blast
qed

lemma settled_cases [settle_rules]:
  "(b \<Longrightarrow> settled P f) \<Longrightarrow> (\<not> b \<Longrightarrow> settled P g) \<Longrightarrow> settled P (if b then f else g)"
  "(z = None \<Longrightarrow> settled P f) \<Longrightarrow> (\<And>a. z = Some a \<Longrightarrow> settled P (h a)) \<Longrightarrow> settled P (case z of None \<Rightarrow> f | Some a \<Rightarrow> h a)"
  "(\<And>e. w = Inl e \<Longrightarrow> settled P (k e)) \<Longrightarrow> (\<And>a. w = Inr a \<Longrightarrow> settled P (l a)) \<Longrightarrow> settled P (case w of Inl e \<Rightarrow> k e | Inr a \<Rightarrow> l a)"
  by (auto split: option.splits sum.splits)

section \<open>The operations of the store\<close>

text \<open>The keys that are not of a document, an index entry or a row of totals.\<close>

definition aside :: "bytes \<Rightarrow> bool" where
  "aside k \<longleftrightarrow> \<not> hasPrefix [spaceDoc] k \<and> \<not> hasPrefix [spaceIndex] k \<and> \<not> hasPrefix [spaceRollups] k"

lemma not_aside: "hasPrefix (documents s) k \<Longrightarrow> \<not> aside k" "hasPrefix (entries s x) k \<Longrightarrow> \<not> aside k" "hasPrefix (rollups s r) k \<Longrightarrow> \<not> aside k"
  by (auto simp: aside_def hasPrefix_append documents_def entries_def rollups_def)

lemma encodeValues_prefix: "encodeValues pre vs fs = Inr key \<Longrightarrow> hasPrefix pre key"
proof (induction pre vs fs rule: encodeValues.induct)
  case (1 pre v vs f fs)
  then obtain mid where m: "Encode pre v (encoding f) = Inr mid" "encodeValues mid vs fs = Inr key" by (auto split: sum.splits)
  then have "hasPrefix pre mid" using Encode_dst [of pre v "encoding f"] by (auto simp: hasPrefix_append split: sum.splits)
  with 1(1) [OF m] show ?case by (auto simp: hasPrefix_append)
qed (auto simp: hasPrefix_append)

lemma entryKey_prefix:
  assumes "entryKey s x vs key = Inr (full, n)"
  shows "hasPrefix (entries s x) full"
proof -
  from assms obtain enc where e: "encodeValues (entries s x) (map keyOf vs) (i_fields x) = Inr enc" "Encode enc (keyOf key) plainField = Inr full"
    by (auto simp: entryKey_def split: sum.splits)
  from e(2) have "hasPrefix enc full" by (subst (asm) Encode_dst) (auto simp: hasPrefix_append split: sum.splits)
  with encodeValues_prefix [OF e(1)] show ?thesis by (auto simp: hasPrefix_append)
qed

lemma entriesOf_prefix: "entriesOf s x carried key vs spread had els = Inr es \<Longrightarrow> e \<in> set es \<Longrightarrow> hasPrefix (entries s x) (e_key e)"
proof (induction els arbitrary: had es)
  case (Cons el els)
  from Cons.prems(1) obtain full n where k: "entryKey s x (case spread of None \<Rightarrow> vs | Some i \<Rightarrow> vs[i := el]) key = Inr (full, n)"
    by (auto split: sum.splits)
  have p: "hasPrefix (entries s x) full" by (rule entryKey_prefix [OF k])
  show ?case
  proof (cases "full \<in> had")
    case True
    with Cons.prems(1) k have "entriesOf s x carried key vs spread had els = Inr es" by simp
    from Cons.IH [OF this Cons.prems(2)] show ?thesis .
  next
    case False
    with Cons.prems(1) k obtain made where m: "entriesOf s x carried key vs spread (insert full had) els = Inr made"
      "es = \<lparr>e_key = full, e_value = carried, e_index = x, e_prefix = n\<rparr> # made" by (auto split: sum.splits)
    from Cons.IH [OF m(1)] Cons.prems(2) m(2) p show ?thesis by auto
  qed
qed simp

lemma entriesForIndex_aside:
  assumes "entriesForIndex j s d key x = Inr es" "e \<in> set es"
  shows "\<not> aside (e_key e)"
proof -
  from assms obtain carried vs spread els where "entriesOf s x carried key vs spread {} els = Inr es"
    by (auto simp: entriesForIndex_def Let_def split: sum.splits option.splits if_splits simp del: entriesOf.simps)
  from not_aside(2) [OF entriesOf_prefix [OF this assms(2)]] show ?thesis .
qed

lemma entriesForAll_aside: "entriesForAll j s d key xs = Inr es \<Longrightarrow> e \<in> set es \<Longrightarrow> \<not> aside (e_key e)"
  by (induction xs arbitrary: es) (auto split: sum.splits dest: entriesForIndex_aside)

lemma entriesFor_aside: "entriesFor j s d key = Inr es \<Longrightarrow> e \<in> set es \<Longrightarrow> \<not> aside (e_key e)"
  unfolding entriesFor_def by (rule entriesForAll_aside)

lemma settled_entries:
  assumes "\<And>e. e \<in> set es \<Longrightarrow> \<not> P (e_key e)"
  shows "settled P (deleteEntries es)" "settled P (putEntries es)"
proof -
  show "settled P (deleteEntries es)" using assms
  proof (induction es)
    case (Cons e es)
    then show ?case unfolding deleteEntries.simps by (intro settle_rules) simp_all
  qed (simp only: deleteEntries.simps settle_rules)
  show "settled P (putEntries es)" using assms
  proof (induction es)
    case (Cons e es)
    then show ?case unfolding putEntries.simps by (intro settle_rules) simp_all
  qed (simp only: putEntries.simps settle_rules)
qed

lemma settled_checkUnique [settle_rules]: "settled P (checkUnique s pk es)"
  by (induction es) (simp_all only: checkUnique.simps Let_def settle_rules)

lemma groupKey_aside: "groupKey s r d = Inr (Some k) \<Longrightarrow> \<not> aside k"
  by (rule not_aside(3) [OF groupKey_prefix])

lemma settled_contribute: "settled aside (contribute jt s d n)"
proof -
  have one: "settled aside (contributeOne jt s d n r)" for r
    unfolding contributeOne_def Let_def by (intro settle_rules) (simp_all add: groupKey_aside)
  have "settled aside (contributeAll jt s d n rs)" for rs by (induction rs) (simp_all only: contributeAll.simps settle_rules one)
  then show ?thesis by (simp add: contribute_def)
qed

lemma settled_read_doc [settle_rules]: "settled P (read_doc jd pk)"
  unfolding read_doc_def by (intro settle_rules)

lemma settled_writeIn:
  assumes "\<not> aside pk"
  shows "settled aside (writeIn jd jt s document key pk)"
  unfolding writeIn_def by (intro settle_rules settled_contribute settled_entries assms) (erule (1) entriesFor_aside)+

lemma settled_removeIn:
  assumes "\<not> aside pk"
  shows "settled aside (removeIn jd jt s key pk)"
  unfolding removeIn_def by (intro settle_rules settled_contribute settled_entries assms) (erule (1) entriesFor_aside)+


section \<open>Walks that collect\<close>

lemma settled_bnd_if:
  assumes f: "settled P f" "\<And>m. does f m (\<lambda>b _. R b)" and g: "\<And>a. R a \<Longrightarrow> settled P (g a)" "\<And>a. backs (g a)"
  shows "settled P (bnd f g)"
proof (rule settledI)
  show "backs (bnd f g)" using settled_backs [OF f(1)] g(2) by (intro back_rules)
  fix m :: view
  from f(1) obtain a m1 where 1: "\<forall>k. P k \<longrightarrow> m1 k = m k" "does f m (\<lambda>b n. b = a \<and> n = m1)" by (rule settledE)
  have 2: "does f m (\<lambda>b n. b = a \<and> n = m1 \<and> R b)" using 1(2) f(2) [of m] unfolding does_def by blast
  show "\<exists>a m'. (\<forall>k. P k \<longrightarrow> m' k = m k) \<and> does (bnd f g) m (\<lambda>b n. b = a \<and> n = m')"
  proof (cases "R a")
    case True
    from g(1) [OF True] obtain b m2 where 3: "\<forall>k. P k \<longrightarrow> m2 k = m1 k" "does (g a) m1 (\<lambda>c n. c = b \<and> n = m2)" by (rule settledE)
    have "does (bnd f g) m (\<lambda>c n. c = b \<and> n = m2)" by (rule does_bnd [OF 1(2) g(2)]) (use 3(2) in auto)
    moreover have "\<forall>k. P k \<longrightarrow> m2 k = m k" using 1(1) 3(1) by simp
    ultimately show ?thesis by blast
  next
    case False
    have "does (bnd f g) m (\<lambda>c n. c = undefined \<and> n = m)" by (rule does_bnd [OF 2 g(2)]) (use False in auto)
    then show ?thesis by blast
  qed
qed

lemma visited_collects:
  assumes "\<And>k v s more s'. visit k v s = (more, s') \<Longrightarrow> Q s \<Longrightarrow> Q s'" "Q s"
  shows "Q (visited visit kvs s)"
  using assms(2)
proof (induction kvs arbitrary: s)
  case (Cons kv kvs)
  obtain more s' where v: "visit (fst kv) (snd kv) s = (more, s')" by (meson surj_pair)
  with Cons assms(1) [OF v] show ?case by (cases kv) auto
qed simp

lemma does_collects:
  assumes "\<And>k v s more s'. visit k v s = (more, s') \<Longrightarrow> Q s \<Longrightarrow> Q s'" "Q s"
  shows "does (treeAscend k visit s) m (\<lambda>b _. Q b)"
  using visited_collects [of visit Q s] assms by (intro does_treeAscend) blast

lemma settled_deleteKeys:
  assumes "\<And>k. k \<in> set ks \<Longrightarrow> \<not> P k"
  shows "settled P (deleteKeys ks)"
  using assms
proof (induction ks)
  case (Cons k ks)
  then show ?case unfolding deleteKeys.simps by (intro settle_rules) simp_all
qed (simp only: deleteKeys.simps settle_rules)

lemma settled_deleteRange:
  assumes "\<And>k. hasPrefix pre k \<Longrightarrow> \<not> P k"
  shows "settled P (deleteRange pre)"
  unfolding deleteRange_def
proof (rule settled_bnd_if [where R = "\<lambda>ks. \<forall>k \<in> set ks. hasPrefix pre k"])
  show "does (treeAscend pre (underPrefix pre) []) m (\<lambda>b _. \<forall>k\<in>set b. hasPrefix pre k)" for m
    by (rule does_collects) (auto simp: underPrefix_def split: if_splits)
qed (use assms in \<open>auto intro!: settle_rules settled_deleteKeys back_rules\<close>)

lemma settled_dropIndexIn: "settled aside (dropIndexIn s x)"
  unfolding dropIndexIn_def by (rule settled_deleteRange) (rule not_aside(2))

lemma settled_fillIndex:
  assumes "\<And>e. e \<in> set es \<Longrightarrow> \<not> P (e_key e)"
  shows "settled P (fillIndex s x es)"
  using assms
proof (induction es)
  case (Cons e es)
  then show ?case unfolding fillIndex.simps by (intro settle_rules) simp_all
qed (simp only: fillIndex.simps settle_rules)

lemma backs_fillIndex [back_rules]: "backs (fillIndex s x es)"
  using settled_backs [OF settled_fillIndex [where P = "\<lambda>_. False"]] by simp

lemma settled_buildIndexIn: "settled aside (buildIndexIn jd s x)"
  unfolding buildIndexIn_def
proof (rule settled_bnd_if [where R = "\<lambda>es. \<forall>e \<in> set es. \<not> aside (e_key e)"])
  show "does (treeAscend (documents s) (collects jd s x) []) m (\<lambda>b _. \<forall>e\<in>set b. \<not> aside (e_key e))" for m
    by (rule does_collects) (auto simp: collects_def split: if_splits option.splits sum.splits dest: entriesForIndex_aside)
qed (auto intro!: settle_rules settled_fillIndex back_rules)

section \<open>The log and the catalogue\<close>

lemma settled_log [settle_rules]: "settled (\<lambda>_. False) latestLSN" "settled (\<lambda>_. False) (setLSN n)" "settled (\<lambda>_. False) (noteWrite j c)"
  unfolding latestLSN_def setLSN_def noteWrite_def by (intro settle_rules; simp)+

lemma settled_dropChanges [settle_rules]: "settled (\<lambda>_. False) (dropChanges cs)"
proof (induction cs)
  case (Cons c cs)
  then show ?case unfolding dropChanges.simps by (intro settle_rules) simp_all
qed (simp only: dropChanges.simps settle_rules)

lemma settled_trim [settle_rules]: "settled (\<lambda>_. False) (trim j n)"
  unfolding trim_def by (intro settle_rules)

lemma settled_catalog:
  "\<not> P nextCollection \<Longrightarrow> settled P readCollectionID" "\<not> P nextCollection \<Longrightarrow> settled P takeCollectionID"
  "\<not> P nextCollection \<Longrightarrow> settled P (reserveCollectionID n)" "\<not> P (catalogKey (s_name s)) \<Longrightarrow> settled P (writeSpec j s)"
  unfolding takeCollectionID_def reserveCollectionID_def readCollectionID_def writeSpec_def by (intro settle_rules; simp)+

end
