(* ===== verification/Store_Solo.thy ===== *)
theory Store_Solo
  imports Store_Settled
begin

text \<open>
  Databases that are one file: for these every operation of a collection is an operation on the one tree,
  chosen by the catalogue alone, and the entry a database records and the one another database applies
  leave the same log.
\<close>

section \<open>Databases in one file\<close>

definition solo :: "database \<Rightarrow> bool" where
  "solo d \<longleftrightarrow> db_files d = None \<and> db_parts d = fmempty"

definition handles_ok :: "database \<Rightarrow> bool" where
  "handles_ok d \<longleftrightarrow> (\<forall>n c. fmlookup (db_collections d) n = Some c \<longrightarrow> c < length (db_objects d) \<and> s_name (db_objects d ! c) = n)"

definition catalog :: "database \<Rightarrow> (bytes, spec) fmap" where
  "catalog d = fmmap (\<lambda>c. specOf c d) (db_collections d)"

text \<open>Nothing but the tree is different.\<close>

definition same_but_tree :: "database \<Rightarrow> database \<Rightarrow> bool" where
  "same_but_tree d d' \<longleftrightarrow> db_collections d' = db_collections d \<and> db_objects d' = db_objects d \<and> db_retain d' = db_retain d
     \<and> db_files d' = db_files d \<and> db_parts d' = db_parts d \<and> db_clock d' = db_clock d"

lemma same_but_tree_refl [simp]: "same_but_tree d d"
  by (simp add: same_but_tree_def)

lemma same_but_treeD:
  assumes "same_but_tree d d'"
  shows "catalog d' = catalog d" "solo d' = solo d" "handles_ok d' = handles_ok d" "db_retain d' = db_retain d" "specOf c d' = specOf c d"
    "db_clock d' = db_clock d"
  using assms by (simp_all add: same_but_tree_def catalog_def solo_def handles_ok_def specOf_def)

lemma onLeader_Inr: "onLeader f d = (Inr a, d') \<longleftrightarrow> (\<exists>t. f (db_tree d) = (Inr a, t) \<and> d' = d\<lparr>db_tree := t\<rparr>)"
  by (auto simp: onLeader_def Let_def split: prod.splits)

lemma Part_solo: "solo d \<Longrightarrow> Part C name d = (Inl ErrNoFiles, d)"
  by (simp add: Part_def solo_def)

lemma into_solo: "solo d \<Longrightarrow> into C c key d = (Inr p, d') \<Longrightarrow> s_partition (specOf c d) = None \<and> p = Leader \<and> d' = d"
  by (auto simp: into_def Part_solo bnd_def split: option.splits sum.splits)

definition lead :: "spec \<Rightarrow> unit on_tree \<Rightarrow> unit on_tree" where
  "lead s f = (if s_partition s = None then f else ret ())"

lemma everywhere_solo:
  assumes "solo d" "everywhere C c f d = (Inr u, d')"
  shows "\<exists>t. lead (specOf c d) (f (specOf c d)) (db_tree d) = (Inr (), t) \<and> d' = d\<lparr>db_tree := t\<rparr>"
proof (cases "s_partition (specOf c d)")
  case None
  with assms show ?thesis
    by (auto simp: everywhere_def across_def lead_def onPlace_def bnd_eq_Inr onLeader_Inr)
next
  case (Some p)
  obtain ps where ps: "openAll C (mine (s_name (specOf c d)) (Parts d)) d = (Inr ps, d)" "eachPlace (f (specOf c d)) ps d = (Inr u, d')"
  proof -
    from assms(2) Some obtain ps d1 where "openAll C (mine (s_name (specOf c d)) (Parts d)) d = (Inr ps, d1)" "eachPlace (f (specOf c d1)) ps d1 = (Inr u, d')"
      by (auto simp: everywhere_def across_def bnd_eq_Inr)
    moreover from this(1) have "d1 = d" by (cases "mine (s_name (specOf c d)) (Parts d)") (auto simp: bnd_def Part_solo [OF assms(1)])
    ultimately show thesis using that by simp
  qed
  have "ps = []" using ps(1) by (cases "mine (s_name (specOf c d)) (Parts d)") (auto simp: bnd_def Part_solo [OF assms(1)])
  with ps(2) Some show ?thesis by (auto simp: lead_def)
qed

fun inTurn :: "unit on_tree list \<Rightarrow> unit on_tree" where
  "inTurn [] = ret ()"
| "inTurn (f # fs) = bnd f (\<lambda>_. inTurn fs)"

lemma dropIndexes_solo:
  "solo d \<Longrightarrow> dropIndexes C c xs d = (Inr u, d') \<Longrightarrow>
     \<exists>t. inTurn (map (\<lambda>x. lead (specOf c d) (dropIndexIn (specOf c d) x)) xs) (db_tree d) = (Inr (), t) \<and> d' = d\<lparr>db_tree := t\<rparr>"
proof (induction xs arbitrary: d)
  case (Cons x xs)
  from Cons.prems(2) obtain d1 where d1: "dropIndex C c x d = (Inr (), d1)" "dropIndexes C c xs d1 = (Inr u, d')" by (auto elim: bnd_InrE)
  from everywhere_solo [OF Cons.prems(1) d1(1) [unfolded dropIndex_def]] obtain t where
    t: "lead (specOf c d) (dropIndexIn (specOf c d) x) (db_tree d) = (Inr (), t)" "d1 = d\<lparr>db_tree := t\<rparr>" by blast
  have "solo d1" "specOf c d1 = specOf c d" using Cons.prems(1) t(2) by (simp_all add: solo_def specOf_def)
  from Cons.IH [OF this(1) d1(2)] this(2) t show ?case by auto
qed auto

lemma buildIndexes_solo:
  "solo d \<Longrightarrow> buildIndexes j C c xs d = (Inr u, d') \<Longrightarrow>
     \<exists>t. inTurn (map (\<lambda>x. lead (specOf c d) (buildIndexIn (j_docs j) (specOf c d) x)) xs) (db_tree d) = (Inr (), t) \<and> d' = d\<lparr>db_tree := t\<rparr>"
proof (induction xs arbitrary: d)
  case (Cons x xs)
  from Cons.prems(2) obtain d1 where d1: "buildIndex j C c x d = (Inr (), d1)" "buildIndexes j C c xs d1 = (Inr u, d')" by (auto elim: bnd_InrE)
  from everywhere_solo [OF Cons.prems(1) d1(1) [unfolded buildIndex_def]] obtain t where
    t: "lead (specOf c d) (buildIndexIn (j_docs j) (specOf c d) x) (db_tree d) = (Inr (), t)" "d1 = d\<lparr>db_tree := t\<rparr>" by blast
  have "solo d1" "specOf c d1 = specOf c d" using Cons.prems(1) t(2) by (simp_all add: solo_def specOf_def)
  from Cons.IH [OF this(1) d1(2)] this(2) t show ?case by auto
qed auto

lemma settled_lead: "settled P f \<Longrightarrow> settled P (lead s f)"
  unfolding lead_def by (intro settle_rules)

lemma settled_inTurn: "(\<And>f. f \<in> set fs \<Longrightarrow> settled P f) \<Longrightarrow> settled P (inTurn fs)"
proof (induction fs)
  case (Cons f fs)
  then show ?case unfolding inTurn.simps by (intro settle_rules) simp_all
qed (simp only: inTurn.simps settle_rules)

section \<open>What the operations do to the tree\<close>

text \<open>Installing a declaration, by what was declared under the name.\<close>

definition installIn :: "json \<Rightarrow> spec \<Rightarrow> spec option \<Rightarrow> unit on_tree" where
  "installIn j s old =
     (case old of
        None \<Rightarrow> writeSpec j s
      | Some former \<Rightarrow>
          bnd (inTurn (map (\<lambda>x. lead s (dropIndexIn s x)) (filter (\<lambda>x. i_name x \<notin> i_name ` set (s_indexes s)) (s_indexes former)))) (\<lambda>_.
          bnd (inTurn (map (\<lambda>x. lead s (buildIndexIn (j_docs j) s x)) (filter (\<lambda>x. i_name x \<notin> i_name ` set (s_indexes former)) (s_indexes s)))) (\<lambda>_.
          writeSpec j s)))"

lemma settled_installIn: "settled (\<lambda>k. aside k \<and> k \<noteq> catalogKey (s_name s)) (installIn j s old)"
proof -
  have w: "settled (\<lambda>k. aside k \<and> k \<noteq> catalogKey (s_name s)) (writeSpec j s)" by (rule settled_catalog) simp
  have d: "settled (\<lambda>k. aside k \<and> k \<noteq> catalogKey (s_name s)) (lead s (dropIndexIn s x))" for x
    by (rule settled_lead, rule settled_weaken [OF settled_dropIndexIn]) simp
  have b: "settled (\<lambda>k. aside k \<and> k \<noteq> catalogKey (s_name s)) (lead s (buildIndexIn jd s x))" for jd x
    by (rule settled_lead, rule settled_weaken [OF settled_buildIndexIn]) simp
  show ?thesis unfolding installIn_def by (intro settle_rules w settled_inTurn) (auto intro: d b)
qed

lemma install_solo:
  assumes "solo d" "handles_ok d" "install j C s d = (Inr u, d')"
  shows "installIn j s (fmlookup (catalog d) (s_name s)) (db_tree d) = (Inr (), db_tree d')" "catalog d' = fmupd (s_name s) s (catalog d)"
    "solo d'" "handles_ok d'" "db_retain d' = db_retain d" "db_clock d' = db_clock d" "db_reads d' = db_reads d"
    "fmlookup (db_collections d') (s_name s) \<noteq> None"
proof -
  have "installIn j s (fmlookup (catalog d) (s_name s)) (db_tree d) = (Inr (), db_tree d') \<and> catalog d' = fmupd (s_name s) s (catalog d)
    \<and> solo d' \<and> handles_ok d' \<and> db_retain d' = db_retain d \<and> db_clock d' = db_clock d \<and> db_reads d' = db_reads d \<and> fmlookup (db_collections d') (s_name s) \<noteq> None"
  proof (cases "fmlookup (db_collections d) (s_name s)")
    case None
    then obtain t where t: "writeSpec j s (db_tree d) = (Inr (), t)" "d' = (newCollection s d)\<lparr>db_tree := t\<rparr>"
      using assms(3) by (auto simp: install_def onLeader_Inr newCollection_def)
    have "fmmap (\<lambda>c. (db_objects d @ [s]) ! c) (fmupd (s_name s) (length (db_objects d)) (db_collections d)) = fmupd (s_name s) s (catalog d)"
    proof (rule fmap_ext)
      fix n
      show "fmlookup (fmmap (\<lambda>c. (db_objects d @ [s]) ! c) (fmupd (s_name s) (length (db_objects d)) (db_collections d))) n = fmlookup (fmupd (s_name s) s (catalog d)) n"
        using assms(2) by (cases "fmlookup (db_collections d) n") (auto simp: catalog_def specOf_def handles_ok_def nth_append)
    qed
    moreover have "handles_ok d'" using assms(2) t(2) by (auto simp: handles_ok_def newCollection_def nth_append less_Suc_eq split: if_splits)
    ultimately show ?thesis using t None assms(1) by (auto simp: catalog_def specOf_def newCollection_def solo_def installIn_def)
  next
    case (Some c)
    let ?d = "setSpec c s d" and ?former = "specOf c d"
    let ?drops = "filter (\<lambda>x. i_name x \<notin> i_name ` set (s_indexes s)) (s_indexes ?former)"
    let ?builds = "filter (\<lambda>x. i_name x \<notin> i_name ` set (s_indexes ?former)) (s_indexes s)"
    from Some assms(2) have c: "c < length (db_objects d)" "s_name ?former = s_name s" by (auto simp: handles_ok_def specOf_def)
    have inj: "n = s_name s" if "fmlookup (db_collections d) n = Some c" for n using assms(2) that c(2) by (auto simp: handles_ok_def specOf_def)
    have so: "solo ?d" "specOf c ?d = s" using assms(1) c by (simp_all add: solo_def setSpec_def specOf_def)
    from assms(3) Some obtain d1 d2 where d: "dropIndexes C c ?drops ?d = (Inr (), d1)" "buildIndexes j C c ?builds d1 = (Inr (), d2)"
      "onLeader (writeSpec j s) d2 = (Inr (), d')"
      by (auto simp: install_def restoring_def Let_def bnd_eq_Inr split: prod.splits sum.splits)
    from dropIndexes_solo [OF so(1) d(1)] so(2) obtain t1 where t1: "inTurn (map (\<lambda>x. lead s (dropIndexIn s x)) ?drops) (db_tree ?d) = (Inr (), t1)"
      "d1 = ?d\<lparr>db_tree := t1\<rparr>" by auto
    have so1: "solo d1" "specOf c d1 = s" using so t1(2) by (simp_all add: solo_def specOf_def)
    from buildIndexes_solo [OF so1(1) d(2)] so1(2) obtain t2 where t2: "inTurn (map (\<lambda>x. lead s (buildIndexIn (j_docs j) s x)) ?builds) (db_tree d1) = (Inr (), t2)"
      "d2 = d1\<lparr>db_tree := t2\<rparr>" by auto
    from d(3) obtain t3 where t3: "writeSpec j s (db_tree d2) = (Inr (), t3)" "d' = d2\<lparr>db_tree := t3\<rparr>" by (auto simp: onLeader_Inr)
    have l: "fmlookup (catalog d) (s_name s) = Some ?former" using Some by (simp add: catalog_def)
    have "installIn j s (Some ?former) (db_tree d) = (Inr (), t3)" using t1 t2 t3 by (simp add: installIn_def setSpec_def)
    moreover have "fmmap (\<lambda>n. (db_objects d)[c := s] ! n) (db_collections d) = fmupd (s_name s) s (catalog d)"
    proof (rule fmap_ext)
      fix n
      show "fmlookup (fmmap (\<lambda>n. (db_objects d)[c := s] ! n) (db_collections d)) n = fmlookup (fmupd (s_name s) s (catalog d)) n"
      proof (cases "n = s_name s")
        case True
        then show ?thesis using c(1) Some by simp
      next
        case False
        then have "fmlookup (db_collections d) n \<noteq> Some c" using inj by blast
        with False show ?thesis by (cases "fmlookup (db_collections d) n") (simp_all add: catalog_def specOf_def nth_list_update)
      qed
    qed
    moreover have "handles_ok d'" using assms(2) c t1(2) t2(2) t3(2) by (auto simp: handles_ok_def setSpec_def nth_list_update specOf_def)
    ultimately show ?thesis using t1(2) t2(2) t3(2) l assms(1) Some by (auto simp: catalog_def specOf_def setSpec_def solo_def)
  qed
  then show "installIn j s (fmlookup (catalog d) (s_name s)) (db_tree d) = (Inr (), db_tree d')" "catalog d' = fmupd (s_name s) s (catalog d)"
    "solo d'" "handles_ok d'" "db_retain d' = db_retain d" "db_clock d' = db_clock d" "db_reads d' = db_reads d" "fmlookup (db_collections d') (s_name s) \<noteq> None" by blast+
qed


text \<open>Writing a document, with its key put in where it had none.\<close>

lemma keyFor_Inr:
  assumes "keyFor c document d = (Inr (key, document'), d')"
  shows "document' = fmupd (k_path (s_key (specOf c d))) key document" "key \<noteq> gnil" "same_but_tree d d'" "db_tree d' = db_tree d" "db_reads d' = db_reads d"
  using assms
  by (auto simp: keyFor_def Let_def gnil_def same_but_tree_def split: option.splits if_splits prod.splits sum.splits intro!: fmap_ext)

lemma keyFor_carried:
  "fmlookup document (k_path (s_key (specOf c d))) = Some key \<Longrightarrow> key \<noteq> gnil \<Longrightarrow> keyFor c document d = (Inr (key, document), d)"
  by (simp add: keyFor_def Let_def)

definition putChange :: "spec \<Rightarrow> gval \<Rightarrow> doc \<Rightarrow> attribution \<Rightarrow> change" where
  "putChange s key document by = blankChange\<lparr>c_kind := ChangePut, c_collection := s_name s, c_key := key,
     c_document := Some (fmupd (k_path (s_key s)) key document), c_by := by\<rparr>"

lemma live_Inr: "live c d = (Inr u, d') \<longleftrightarrow> d' = d \<and> fmlookup (db_collections d) (s_name (specOf c d)) = Some c"
  by (auto simp: live_def)

lemma encodeKey_aside: "encodeKey s key = Inr pk \<Longrightarrow> \<not> aside pk"
  by (rule not_aside(1) [OF encodeKey_prefix])

lemma write_solo:
  assumes "solo d" "write_doc j C c by document record d = (Inr key, d')"
  defines "s \<equiv> specOf c d"
  obtains pk t d1 where "fmlookup (catalog d) (s_name s) = Some s" "key \<noteq> gnil"
    "\<And>k. fmlookup document (k_path (s_key s)) = Some k \<Longrightarrow> k \<noteq> gnil \<Longrightarrow> key = k" "encodeKey s key = Inr pk" "s_partition s = None"
    "writeIn (j_docs j) (j_totals j) s (fmupd (k_path (s_key s)) key document) key pk (db_tree d) = (Inr (), t)"
    "db_tree d1 = t" "same_but_tree d d1" "db_reads d1 = db_reads d"
    "if record then \<exists>lsn. record_store j (putChange s key document by) d1 = (Inr lsn, d') else d' = d1"
proof -
  from assms(2) obtain key' document' d1 where k: "fmlookup (db_collections d) (s_name s) = Some c" "keyFor c document d = (Inr (key', document'), d1)"
    and a: "write_at j C c by record key' document' d1 = (Inr key, d')"
    by (auto simp: write_doc_def live_Inr s_def bnd_eq_Inr)
  obtain pk p d2 d3 where p: "encodeKey (specOf c d1) key = Inr pk" "into C c key d1 = (Inr p, d2)"
    "onPlace p (writeIn (j_docs j) (j_totals j) (specOf c d1) document' key pk) d2 = (Inr (), d3)" "key' = key"
    and w: "(if record
             then bnd (record_store j (blankChange\<lparr>c_kind := ChangePut, c_collection := s_name (specOf c d1), c_key := key,
                         c_document := Some document', c_by := by\<rparr>)) (\<lambda>_. ret ())
             else ret ()) d3 = (Inr (), d')"
    using a unfolding write_at_def by (cases "encodeKey (specOf c d1) key'") (auto simp: bnd_eq_Inr)
  note k = k [unfolded p(4)]
  note kf = keyFor_Inr [OF k(2)]
  have sd: "solo d1" "specOf c d1 = s" using same_but_treeD [OF kf(3)] assms(1) by (simp_all add: s_def)
  note p = p [unfolded sd(2)]
  have r: "if record then \<exists>lsn. record_store j (putChange s key document by) d3 = (Inr lsn, d') else d' = d3"
    using w kf(1) unfolding sd(2) by (auto simp: bnd_eq_Inr putChange_def s_def split: if_splits)
  from into_solo [OF sd(1) p(2)] sd(2) have i: "s_partition s = None" "p = Leader" "d2 = d1" by simp_all
  from p(3) i obtain t where t: "writeIn (j_docs j) (j_totals j) s document' key pk (db_tree d1) = (Inr (), t)" "d3 = d1\<lparr>db_tree := t\<rparr>"
    by (auto simp: onPlace_def onLeader_Inr)
  have "fmlookup (catalog d) (s_name s) = Some s" using k(1) by (simp add: catalog_def s_def)
  moreover have "same_but_tree d d3" using kf(3) t(2) by (simp add: same_but_tree_def)
  moreover have "key = k" if "fmlookup document (k_path (s_key s)) = Some k" "k \<noteq> gnil" for k
    using keyFor_carried [of document c d k] that k(2) by (simp add: s_def)
  ultimately show thesis using that [of pk t d3] p(1) r i(1) t kf by (simp add: s_def)
qed

lemma remove_solo:
  assumes "solo d" "remove_doc j C c by key record d = (Inr found, d')"
  defines "s \<equiv> specOf c d"
  obtains pk t d1 where "fmlookup (catalog d) (s_name s) = Some s" "encodeKey s key = Inr pk" "s_partition s = None"
    "removeIn (j_docs j) (j_totals j) s key pk (db_tree d) = (Inr found, t)" "d1 = d\<lparr>db_tree := t\<rparr>"
    "if record \<and> found then \<exists>lsn. record_store j (blankChange\<lparr>c_kind := ChangeDelete, c_collection := s_name s, c_key := key, c_by := by\<rparr>) d1 = (Inr lsn, d')
     else d' = d1"
proof -
  from assms(2) obtain pk p d1 d2 where p: "fmlookup (db_collections d) (s_name s) = Some c" "encodeKey s key = Inr pk" "into C c key d = (Inr p, d1)"
    "onPlace p (removeIn (j_docs j) (j_totals j) s key pk) d1 = (Inr found, d2)"
    "if record \<and> found then \<exists>lsn. record_store j (blankChange\<lparr>c_kind := ChangeDelete, c_collection := s_name s, c_key := key, c_by := by\<rparr>) d2 = (Inr lsn, d')
     else d' = d2"
    by (auto simp: remove_doc_def live_Inr s_def bnd_eq_Inr split: sum.splits if_splits)
  from into_solo [OF assms(1) p(3)] have i: "s_partition s = None" "p = Leader" "d1 = d" by (simp_all add: s_def)
  have "fmlookup (catalog d) (s_name s) = Some s" using p(1) by (simp add: catalog_def s_def)
  moreover from p(4) i obtain t where "removeIn (j_docs j) (j_totals j) s key pk (db_tree d) = (Inr found, t)" "d2 = d\<lparr>db_tree := t\<rparr>"
    by (auto simp: onPlace_def onLeader_Inr)
  ultimately show thesis using that [of pk t d2] p(2,5) i(1) by blast
qed

text \<open>Dropping a collection.\<close>

definition dropIn :: "spec \<Rightarrow> unit on_tree" where
  "dropIn s = bnd (inTurn (map (\<lambda>x. lead s (dropIndexIn s x)) (s_indexes s))) (\<lambda>_.
     bnd (deleteRange (documents s)) (\<lambda>_. bnd (treeDelete (catalogKey (s_name s))) (\<lambda>_. ret ())))"

lemma settled_dropIn: "settled (\<lambda>k. aside k \<and> k \<noteq> catalogKey (s_name s)) (dropIn s)"
proof -
  have d: "settled (\<lambda>k. aside k \<and> k \<noteq> catalogKey (s_name s)) (lead s (dropIndexIn s x))" for x
    by (rule settled_lead, rule settled_weaken [OF settled_dropIndexIn]) simp
  have r: "settled (\<lambda>k. aside k \<and> k \<noteq> catalogKey (s_name s)) (deleteRange (documents s))"
    by (rule settled_deleteRange) (use not_aside(1) in blast)
  show ?thesis unfolding dropIn_def by (intro settle_rules settled_inTurn r) (auto intro: d)
qed

lemma drop_solo:
  assumes "solo d" "handles_ok d" "drop_collection j C caller name record d = (Inr u, d')"
  obtains s t d1 where "fmlookup (catalog d) name = Some s" "s_name s = name" "dropIn s (db_tree d) = (Inr (), t)"
    "db_tree d1 = t" "catalog d1 = fmdrop name (catalog d)" "solo d1" "handles_ok d1" "db_retain d1 = db_retain d" "db_clock d1 = db_clock d" "db_reads d1 = db_reads d"
    "if record then \<exists>lsn. record_store j (blankChange\<lparr>c_kind := ChangeDrop, c_collection := name, c_by := declared_by (ascii ''drop'') (cl_actor caller)\<rparr>) d1 = (Inr lsn, d')
     else d' = d1"
proof -
  from assms(3) obtain c d1 d2 d3 where d: "fmlookup (db_collections d) name = Some c" "dropIndexes C c (s_indexes (specOf c d)) d = (Inr (), d1)"
    "onLeader (deleteRange (documents (specOf c d))) d1 = (Inr (), d2)" "\<exists>b. onLeader (treeDelete (catalogKey name)) d2 = (Inr b, d3)"
    "if record then \<exists>lsn. record_store j (blankChange\<lparr>c_kind := ChangeDrop, c_collection := name, c_by := declared_by (ascii ''drop'') (cl_actor caller)\<rparr>)
        (d3\<lparr>db_collections := fmdrop name (db_collections d3)\<rparr>) = (Inr lsn, d')
     else d' = d3\<lparr>db_collections := fmdrop name (db_collections d3)\<rparr>"
    by (auto simp: drop_collection_def Collection_def bnd_eq_Inr split: option.splits if_splits)
  let ?s = "specOf c d"
  have n: "s_name ?s = name" "fmlookup (catalog d) name = Some ?s" using assms(2) d(1) by (auto simp: handles_ok_def specOf_def catalog_def)
  from dropIndexes_solo [OF assms(1) d(2)] obtain t1 where t1: "inTurn (map (\<lambda>x. lead ?s (dropIndexIn ?s x)) (s_indexes ?s)) (db_tree d) = (Inr (), t1)" "d1 = d\<lparr>db_tree := t1\<rparr>"
    by blast
  from d(3) t1(2) obtain t2 where t2: "deleteRange (documents ?s) t1 = (Inr (), t2)" "d2 = d\<lparr>db_tree := t2\<rparr>" by (auto simp: onLeader_Inr)
  from d(4) t2(2) obtain b t3 where t3: "treeDelete (catalogKey name) t2 = (Inr b, t3)" "d3 = d\<lparr>db_tree := t3\<rparr>" by (auto simp: onLeader_Inr)
  have "dropIn ?s (db_tree d) = (Inr (), t3)" using t1 t2 t3 n(1) by (simp add: dropIn_def)
  moreover let ?d = "d\<lparr>db_tree := t3, db_collections := fmdrop name (db_collections d)\<rparr>"
  have "catalog ?d = fmdrop name (catalog d)" by (rule fmap_ext) (simp add: catalog_def specOf_def)
  moreover have "solo ?d" "handles_ok ?d" using assms(1,2) by (auto simp: solo_def handles_ok_def)
  ultimately show thesis using that [of ?s t3 ?d] n d(5) [unfolded t3(2)] by (simp cong: if_cong)
qed


section \<open>The entry in both logs\<close>

lemma visited_all: "visited (\<lambda>k v s. (True, s @ [(k, v)])) kvs s = s @ kvs"
  by (induction kvs arbitrary: s) auto

lemma holding_unique: "holding t m \<Longrightarrow> holding t m' \<Longrightarrow> m = m'"
proof -
  assume "holding t m" "holding t m'"
  then obtain F kvs F' kvs' where k: "holds_map t F kvs" "map_of kvs = m" "holds_map t F' kvs'" "map_of kvs' = m'" by (auto simp: holding_def)
  have "from_kv None kvs = from_kv None kvs'"
    using Ascend_visited [OF k(1), of None "\<lambda>k v s. (True, s @ [(k, v)])" "[]"] Ascend_visited [OF k(3), of None "\<lambda>k v s. (True, s @ [(k, v)])" "[]"]
    by (simp add: visited_all)
  then show "m = m'" using k(2,4) by (simp add: from_kv_def)
qed

lemma does_both: "does f m Q \<Longrightarrow> does f m R \<Longrightarrow> does f m (\<lambda>a n. Q a n \<and> R a n)"
  unfolding does_def using holding_unique by metis

definition noted :: "json \<Rightarrow> change \<Rightarrow> view \<Rightarrow> view" where
  "noted j e m =
     (if a_write_id (c_by e) = [] then m
      else case Marshal (j_dones j) \<lparr>d_lsn = c_lsn e, d_key = c_key e, d_changed = 1\<rparr> of None \<Rightarrow> m | Some b \<Rightarrow> m(writeKey (a_write_id (c_by e)) \<mapsto> b))"

lemma does_noteWrite: "does (noteWrite j e) m (\<lambda>_ n. n = noted j e m)"
  unfolding noteWrite_def noted_def by (auto intro!: does_rules split: option.splits)

lemma noted_twist: "noted j e (m(nextLSN \<mapsto> x, logKey l \<mapsto> b)) = (noted j e (m(logKey l \<mapsto> b)))(nextLSN \<mapsto> x)"
  by (auto simp: noted_def fun_eq_iff split: option.splits)

text \<open>What \<^verbatim>\<open>Apply\<close> writes to the log.\<close>

definition logIn :: "json \<Rightarrow> int \<Rightarrow> change \<Rightarrow> unit on_tree" where
  "logIn j retain e =
     (case Marshal (j_changes j) e of
        None \<Rightarrow> throw ErrMarshal
      | Some encoded \<Rightarrow>
          bnd (treePut (logKey (c_lsn e)) encoded) (\<lambda>_. bnd (noteWrite j e) (\<lambda>_. bnd (setLSN (c_lsn e)) (\<lambda>_. trim j retain))))"

lemma logged:
  assumes t: "holding t m" and r: "holding r m" and l: "log_ok j lo hi m" "hi + 1 < 2 ^ 64" "retain < 2 ^ 63"
    and e: "e = c\<lparr>c_lsn := word_of_nat (Suc hi), c_at := (if c_at c = 0 then ms else c_at c)\<rparr>"
    and f: "\<And>b. Marshal (j_changes j) e = Some b \<Longrightarrow> Unmarshal (j_changes j) b = Some e"
    and p: "record_change j retain ms c t = (Inr lsn, t')" "limited t'"
    and q: "logIn j retain e r = (Inr (), r')" "limited r'"
  obtains m' lo' where "holding t' m'" "holding r' m'" "log_ok j lo' (Suc hi) m'" "change_at j m' (Suc hi) = e"
    "\<And>k. \<not> hasPrefix [spaceLog] k \<Longrightarrow> \<not> hasPrefix [spaceWrites] k \<Longrightarrow> k \<noteq> nextLSN \<Longrightarrow> m' k = m k"
proof -
  have el: "c_lsn e = word_of_nat (Suc hi)" using e by simp
  have s: "(word_of_nat hi :: 64 word) + 1 = word_of_nat (Suc hi)" by simp
  from p(1) obtain lsn' t1 where 1: "takeLSN t = (Inr lsn', t1)"
    and rest: "(let c = c\<lparr>c_lsn := lsn', c_at := (if c_at c = 0 then ms else c_at c)\<rparr> in
       case Marshal (j_changes j) c of
         None \<Rightarrow> throw ErrMarshal
       | Some encoded \<Rightarrow>
           bnd (treePut (logKey lsn') encoded) (\<lambda>_.
           bnd (noteWrite j c) (\<lambda>_.
           bnd (trim j retain) (\<lambda>_. ret lsn')))) t1 = (Inr lsn, t')"
    unfolding record_change_def by (rule bnd_InrE)
  obtain u t0 where t0: "latestLSN t = (Inr u, t0)" "setLSN (u + 1) t0 = (Inr (), t1)" "lsn' = u + 1"
    using 1 by (auto simp: takeLSN_def bnd_eq_Inr)
  have "u = word_of_nat hi" "t0 = t" using latest_runs [OF t l(1)] t0(1) by auto
  then have ls: "lsn' = word_of_nat (Suc hi)" "setLSN (word_of_nat (Suc hi)) t = (Inr (), t1)" using t0 s by simp_all
  from rest [unfolded ls(1) Let_def, folded e] obtain b t2 t3 where b: "Marshal (j_changes j) e = Some b"
    "treePut (logKey (word_of_nat (Suc hi))) b t1 = (Inr (), t2)" "noteWrite j e t2 = (Inr (), t3)" "trim j retain t3 = (Inr (), t')"
    by (cases "Marshal (j_changes j) e") (auto simp: bnd_eq_Inr simp del: of_nat_Suc)
  from q(1) b(1) obtain r1 r2 r3 where q1: "treePut (logKey (word_of_nat (Suc hi))) b r = (Inr (), r1)" "noteWrite j e r1 = (Inr (), r2)"
    "setLSN (word_of_nat (Suc hi)) r2 = (Inr (), r3)" "trim j retain r3 = (Inr (), r')"
    by (auto simp: logIn_def el bnd_eq_Inr simp del: of_nat_Suc)
  note bk = settled_backs [OF settled_log(2)] settled_backs [OF settled_log(3)] settled_backs [OF settled_trim]
  have lt: "limited t3" "limited t2" "limited t1"
    using backsD [OF bk(3) b(4) p(2)] backsD [OF bk(2) b(3)] backsD [OF backs_tree(2) b(2)] by blast+
  have lr: "limited r3" "limited r2" "limited r1"
    using backsD [OF bk(3) q1(4) q(2)] backsD [OF bk(1) q1(3)] backsD [OF bk(2) q1(2)] by blast+
  let ?x = "be 8 (unat (word_of_nat (Suc hi) :: 64 word))" and ?k = "logKey (word_of_nat (Suc hi))"
  have put: "holding u' (n(k \<mapsto> v))" if "treePut k v u = (Inr (), u')" "holding u n" "limited u'" for u u' n k v
    using doesD [OF does_treePut [where Q = "\<lambda>_ n'. n' = n(k \<mapsto> v)", OF refl] that(2,1,3)] by blast
  have note1: "holding u' (noted j e n)" if "noteWrite j e u = (Inr (), u')" "holding u n" "limited u'" for u u' n
    using doesD [OF does_noteWrite that(2,1,3)] by blast
  have "holding t3 (noted j e (m(nextLSN \<mapsto> ?x, ?k \<mapsto> b)))"
    by (rule note1 [OF b(3) put [OF b(2) put [OF ls(2) [unfolded setLSN_def] t lt(3)] lt(2)] lt(1)])
  moreover have "holding r3 ((noted j e (m(?k \<mapsto> b)))(nextLSN \<mapsto> ?x))"
    by (rule put [OF q1(3) [unfolded setLSN_def] note1 [OF q1(2) put [OF q1(1) r lr(3)] lr(2)] lr(1)])
  ultimately obtain m' where m': "holding t' m'" "holding r' m'"
    using settled_same [OF settled_trim _ _ b(4) q1(4) p(2) q(2)] by (metis noted_twist)
  from doesD [OF does_record [OF l e f] t p(1,2)] obtain m'' where m'': "holding t' m''" "log_ok j (cut_at retain lo (Suc hi)) (Suc hi) m''"
    "cut_at retain lo (Suc hi) < Suc hi \<longrightarrow> change_at j m'' (Suc hi) = e"
    "\<forall>k. \<not> hasPrefix [spaceWrites] k \<longrightarrow> \<not> hasPrefix [spaceLog] k \<longrightarrow> k \<noteq> nextLSN \<longrightarrow> m'' k = m k" by blast
  have "cut_at retain lo (Suc hi) < Suc hi" using log_okD(1) [OF l(1)] by (auto simp: cut_at_def)
  with m''(3) have "change_at j m'' (Suc hi) = e" by blast
  moreover have "m'' = m'" by (rule holding_unique [OF m''(1) m'(1)])
  ultimately show thesis using that [of m' "cut_at retain lo (Suc hi)"] m' m''(2,4) by blast
qed

lemma log_ok_cong:
  assumes "log_ok j lo hi m" "\<And>k. hasPrefix [spaceLog] k \<or> k = nextLSN \<Longrightarrow> m' k = m k"
  shows "log_ok j lo hi m'"
  using assms(1) assms(2) [of nextLSN] assms(2) [of "logKey l" for l] assms(2) unfolding log_ok_def by simp

end
