(* ===== verification/Store_Replica.thy ===== *)
theory Store_Replica
  imports Store_Solo
begin

text \<open>
  A database that applies the changes of another: two databases in one file each, whose trees hold the same
  map, do so again after the one has changed and the other applied the change. What a change does to
  the tree is the same settled operation on both sides; what differs is where the number comes from.
\<close>

section \<open>In step\<close>

text \<open>The number the next collection gets.\<close>

definition nextID :: "view \<Rightarrow> 32 word" where
  "nextID m = (case m nextCollection of None \<Rightarrow> 1 | Some b \<Rightarrow> word_of_nat (unbe b))"

text \<open>Two databases in one file each, with the same map, catalogue and cap, and the log of the map in order.\<close>

definition in_step :: "json \<Rightarrow> nat \<Rightarrow> nat \<Rightarrow> database \<Rightarrow> database \<Rightarrow> view \<Rightarrow> bool" where
  "in_step j lo hi p r m \<longleftrightarrow> solo p \<and> solo r \<and> handles_ok p \<and> handles_ok r \<and> catalog p = catalog r \<and> db_retain p = db_retain r \<and> db_retain p < 2 ^ 63
     \<and> holding (db_tree p) m \<and> holding (db_tree r) m \<and> log_ok j lo hi m \<and> (\<forall>n s. fmlookup (catalog p) n = Some s \<longrightarrow> s_id s < nextID m)"

lemma in_stepD:
  assumes "in_step j lo hi p r m"
  shows "solo p" "solo r" "handles_ok p" "handles_ok r" "catalog p = catalog r" "db_retain p = db_retain r" "db_retain p < 2 ^ 63"
    "holding (db_tree p) m" "holding (db_tree r) m" "log_ok j lo hi m" "fmlookup (catalog p) n = Some s \<Longrightarrow> s_id s < nextID m"
  using assms unfolding in_step_def by blast+

text \<open>A change as it is recorded.\<close>

definition stamped :: "nat \<Rightarrow> database \<Rightarrow> change \<Rightarrow> change" where
  "stamped hi d c = c\<lparr>c_lsn := word_of_nat (Suc hi), c_at := (if c_at c = 0 then db_clock d (db_reads d) else c_at c)\<rparr>"

lemma record_store_Inr:
  assumes "record_store j c d = (Inr lsn, d')"
  shows "record_change j (db_retain d) (db_clock d (db_reads d)) c (db_tree d) = (Inr lsn, db_tree d')" "same_but_tree d d'"
  using assms by (auto simp: record_store_def onLeader_Inr same_but_tree_def split: if_splits)

lemma nextCollection_apart: "aside nextCollection" "\<not> hasPrefix [spaceLog] nextCollection" "\<not> hasPrefix [spaceWrites] nextCollection"
  "nextCollection \<noteq> nextLSN" "nextCollection \<noteq> catalogKey n" "nextLSN \<noteq> catalogKey n" "\<not> hasPrefix [spaceLog] (catalogKey n)" "aside (catalogKey n)"
  "aside nextLSN" "hasPrefix [spaceLog] k \<Longrightarrow> aside k"
  by (auto simp: nextCollection_def nextLSN_def catalogKey_def aside_def hasPrefix_append space_defs)

lemma finish:
  assumes i: "in_step j lo hi p r m" "hi + 1 < 2 ^ 64" and e: "e = stamped hi p c" "\<And>b. Marshal (j_changes j) e = Some b \<Longrightarrow> Unmarshal (j_changes j) b = Some e"
    and p: "record_store j c p = (Inr lsn, p')" "limited (db_tree p')"
    and r: "logIn j (db_retain r) e (db_tree r) = (Inr (), db_tree r')" "same_but_tree r r'" "limited (db_tree r')"
  shows "\<exists>lo' m'. in_step j lo' (Suc hi) p' r' m' \<and> change_at j m' (Suc hi) = e"
proof -
  note d = in_stepD [OF i(1)] and rc = record_store_Inr [OF p(1)]
  obtain m' lo' where m': "holding (db_tree p') m'" "holding (db_tree r') m'" "log_ok j lo' (Suc hi) m'" "change_at j m' (Suc hi) = e"
    "\<And>k. \<not> hasPrefix [spaceLog] k \<Longrightarrow> \<not> hasPrefix [spaceWrites] k \<Longrightarrow> k \<noteq> nextLSN \<Longrightarrow> m' k = m k"
    using logged [OF d(8,9,10) i(2) d(7) e(1) [unfolded stamped_def] e(2) rc(1) p(2) r(1) [folded d(6)] r(3)] by blast
  have "nextID m' = nextID m" using m'(5) [of nextCollection] nextCollection_apart by (simp add: nextID_def)
  then have "in_step j lo' (Suc hi) p' r' m'"
    using d m'(1-3) same_but_treeD [OF rc(2)] same_but_treeD [OF r(2)] unfolding in_step_def by simp
  with m'(4) show ?thesis by blast
qed

text \<open>The same settled operation on both sides.\<close>

lemma both_sides:
  assumes i: "in_step j lo hi p r m" and f: "settled P f" "\<And>k. hasPrefix [spaceLog] k \<or> k = nextLSN \<Longrightarrow> P k"
    and p: "f (db_tree p) = (Inr a, db_tree p1)" "limited (db_tree p1)" and r: "f (db_tree r) = (Inr b, db_tree r1)" "limited (db_tree r1)"
  obtains m1 where "holding (db_tree p1) m1" "holding (db_tree r1) m1" "log_ok j lo hi m1" "a = b" "\<forall>k. P k \<longrightarrow> m1 k = m k"
proof -
  note d = in_stepD [OF i]
  from settled_same [OF f(1) d(8,9) p(1) r(1) p(2) r(2)] obtain m1 where m1: "holding (db_tree p1) m1" "holding (db_tree r1) m1" "a = b" "\<forall>k. P k \<longrightarrow> m1 k = m k"
    by blast
  have "log_ok j lo hi m1" by (rule log_ok_cong [OF d(10)]) (use f(2) m1(4) in blast)
  with m1 that show thesis by blast
qed

lemma in_step_same:
  assumes i: "in_step j lo hi p r m" and f: "settled aside f"
    and p: "f (db_tree p) = (Inr a, db_tree p1)" "limited (db_tree p1)" "same_but_tree p p1"
    and r: "f (db_tree r) = (Inr b, db_tree r1)" "limited (db_tree r1)" "same_but_tree r r1"
  shows "\<exists>m1. in_step j lo hi p1 r1 m1" "a = b"
proof -
  have k: "hasPrefix [spaceLog] k \<or> k = nextLSN \<Longrightarrow> aside k" for k using nextCollection_apart(9,10) by blast
  obtain m1 where m1: "holding (db_tree p1) m1" "holding (db_tree r1) m1" "log_ok j lo hi m1" "a = b" "\<forall>k. aside k \<longrightarrow> m1 k = m k"
    by (rule both_sides [OF i f k p(1,2) r(1,2)])
  have "nextID m1 = nextID m" using m1(5) nextCollection_apart(1) by (simp add: nextID_def)
  then have "in_step j lo hi p1 r1 m1"
    using in_stepD [OF i] m1(1-3) same_but_treeD [OF p(3)] same_but_treeD [OF r(3)] unfolding in_step_def by simp
  then show "\<exists>m1. in_step j lo hi p1 r1 m1" "a = b" using m1(4) by blast+
qed

lemma Apply_next:
  assumes i: "in_step j lo hi p r m" "hi + 1 < 2 ^ 64" and a: "Apply j C e r = (Inr (), r')" "c_lsn e = word_of_nat (Suc hi)"
  obtains r1 where "apply_kind j C e r = (Inr (), r1)" "logIn j (db_retain r1) e (db_tree r1) = (Inr (), db_tree r')" "same_but_tree r1 r'"
proof -
  note d = in_stepD [OF i(1)]
  have l: "onLeader latestLSN r = (Inr (word_of_nat hi), r)" using latest_runs [OF d(9,10)] by (simp add: onLeader_def)
  have w: "\<not> c_lsn e \<le> word_of_nat hi" "c_lsn e = word_of_nat hi + 1"
    using a(2) i(2) by (simp_all add: word_le_nat_alt unat64 del: of_nat_Suc) simp
  from a(1) l w obtain r1 where r1: "apply_kind j C e r = (Inr (), r1)"
    "(case Marshal (j_changes j) e of
        None \<Rightarrow> throw ErrMarshal
      | Some encoded \<Rightarrow>
          bnd (onLeader (treePut (logKey (c_lsn e)) encoded)) (\<lambda>_.
          bnd (onLeader (noteWrite j e)) (\<lambda>_.
          bnd (onLeader (setLSN (c_lsn e))) (\<lambda>_ d. onLeader (trim j (db_retain d)) d)))) r1 = (Inr (), r')"
    unfolding Apply_def by (auto elim!: bnd_InrE)
  from r1(2) have "logIn j (db_retain r1) e (db_tree r1) = (Inr (), db_tree r')" "same_but_tree r1 r'"
    by (cases "Marshal (j_changes j) e"; auto simp: logIn_def bnd_eq_Inr onLeader_Inr same_but_tree_def)+
  with r1(1) that show thesis by blast
qed


lemma settled_record: "settled (\<lambda>_. False) (record_change j n ms c)" "settled (\<lambda>_. False) (logIn j n c)"
proof -
  have t: "settled (\<lambda>_. False) takeLSN" unfolding takeLSN_def by (intro settle_rules)
  show "settled (\<lambda>_. False) (record_change j n ms c)" unfolding record_change_def Let_def by (intro settle_rules t) simp_all
  show "settled (\<lambda>_. False) (logIn j n c)" unfolding logIn_def by (intro settle_rules) simp_all
qed

lemma limited_before:
  "record_store j c p = (Inr lsn, p') \<Longrightarrow> limited (db_tree p') \<Longrightarrow> limited (db_tree p)"
  "logIn j n e t = (Inr (), t') \<Longrightarrow> limited t' \<Longrightarrow> limited t"
  using backsD [OF settled_backs [OF settled_record(1)] record_store_Inr(1)] backsD [OF settled_backs [OF settled_record(2)]] by blast+

text \<open>The changes a database makes and what it records of each.\<close>

inductive acted :: "json \<Rightarrow> crypto \<Rightarrow> database \<Rightarrow> change \<Rightarrow> database \<Rightarrow> bool" for j C p where
  put: "write_doc j C c by document True p = (Inr key, p') \<Longrightarrow> acted j C p (putChange (specOf c p) key document by) p'"
| delete: "remove_doc j C c by key True p = (Inr True, p') \<Longrightarrow>
     acted j C p (blankChange\<lparr>c_kind := ChangeDelete, c_collection := s_name (specOf c p), c_key := key, c_by := by\<rparr>) p'"
| declare_new: "Declare j C caller s p = (Inr c, p') \<Longrightarrow> s_name s |\<notin>| fmdom (db_collections p) \<Longrightarrow> s_id (specOf c p') \<noteq> - 1 \<Longrightarrow>
     acted j C p (blankChange\<lparr>c_kind := ChangeDeclare, c_collection := s_name s, c_spec := Some (specOf c p'),
       c_by := declared_by (ascii ''declare'') (cl_actor caller)\<rparr>) p'"
| redeclare: "Declare j C caller s p = (Inr c, p') \<Longrightarrow> fmlookup (catalog p) (s_name s) = Some old \<Longrightarrow>
     r_name ` set (s_rollups s) = r_name ` set (s_rollups old) \<Longrightarrow>
     acted j C p (blankChange\<lparr>c_kind := ChangeDeclare, c_collection := s_name s, c_spec := Some (specOf c p'),
       c_by := declared_by (ascii ''declare'') (cl_actor caller)\<rparr>) p'"
| drop: "drop_collection j C caller name True p = (Inr (), p') \<Longrightarrow>
     acted j C p (blankChange\<lparr>c_kind := ChangeDrop, c_collection := name, c_by := declared_by (ascii ''drop'') (cl_actor caller)\<rparr>) p'"

lemma Collection_Inr: "Collection name d = (Inr c, d') \<longleftrightarrow> d' = d \<and> fmlookup (db_collections d) name = Some c"
  by (auto simp: Collection_def split: option.splits)

lemma kinds [simp]: "ChangePut \<noteq> ChangeDelete" "ChangePut \<noteq> ChangeDeclare" "ChangePut \<noteq> ChangeDrop" "ChangeDelete \<noteq> ChangeDeclare" "ChangeDelete \<noteq> ChangeDrop"
  "ChangeDeclare \<noteq> ChangeDrop" "ChangeDrop \<noteq> ChangeOperation" "ChangeDeclare \<noteq> ChangeOperation" "ChangeDelete \<noteq> ChangePut" "ChangeDeclare \<noteq> ChangePut"
  "ChangeDrop \<noteq> ChangePut" "ChangeDeclare \<noteq> ChangeDelete" "ChangeDrop \<noteq> ChangeDelete" "ChangeDrop \<noteq> ChangeDeclare"
  by (simp_all add: ChangePut_def ChangeDelete_def ChangeDeclare_def ChangeDrop_def ChangeOperation_def)

lemma follow_put:
  assumes i: "in_step j lo hi p r m" "hi + 1 < 2 ^ 64" and w: "write_doc j C c by document True p = (Inr key, p')"
    and e: "e = stamped hi p (putChange (specOf c p) key document by)" "\<And>b. Marshal (j_changes j) e = Some b \<Longrightarrow> Unmarshal (j_changes j) b = Some e"
    and a: "Apply j C e r = (Inr (), r')" "limited (db_tree p')" "limited (db_tree r')"
  shows "\<exists>lo' m'. in_step j lo' (Suc hi) p' r' m' \<and> change_at j m' (Suc hi) = e"
proof -
  note d = in_stepD [OF i(1)]
  let ?s = "specOf c p" and ?doc = "fmupd (k_path (s_key (specOf c p))) key document"
  obtain pk t p1 lsn where p: "fmlookup (catalog p) (s_name ?s) = Some ?s" "key \<noteq> gnil" "encodeKey ?s key = Inr pk"
    "writeIn (j_docs j) (j_totals j) ?s ?doc key pk (db_tree p) = (Inr (), db_tree p1)" "same_but_tree p p1" "db_reads p1 = db_reads p"
    "record_store j (putChange ?s key document by) p1 = (Inr lsn, p')"
    by (rule write_solo [OF d(1) w]) auto
  have el: "c_lsn e = word_of_nat (Suc hi)" "c_kind e = ChangePut" "c_collection e = s_name ?s" "c_document e = Some ?doc"
    using e(1) by (simp_all add: stamped_def putChange_def)
  obtain r1 where r1: "apply_kind j C e r = (Inr (), r1)" "logIn j (db_retain r1) e (db_tree r1) = (Inr (), db_tree r')" "same_but_tree r1 r'"
    by (rule Apply_next [OF i a(1) el(1)])
  from r1(1) el obtain c' key' where c': "fmlookup (db_collections r) (s_name ?s) = Some c'" "write_doc j C c' (c_by e) ?doc False r = (Inr key', r1)"
    by (auto simp: apply_kind_def bnd_eq_Inr Collection_Inr)
  have s: "specOf c' r = ?s" using c'(1) p(1) [unfolded d(5)] by (simp add: catalog_def)
  obtain pk' t' r2 where q: "\<And>k. fmlookup ?doc (k_path (s_key ?s)) = Some k \<Longrightarrow> k \<noteq> gnil \<Longrightarrow> key' = k" "encodeKey ?s key' = Inr pk'"
    "writeIn (j_docs j) (j_totals j) ?s (fmupd (k_path (s_key ?s)) key' ?doc) key' pk' (db_tree r) = (Inr (), t')" "db_tree r2 = t'" "same_but_tree r r2" "r1 = r2"
    by (rule write_solo [OF d(2) c'(2), unfolded s]) auto
  have k: "key' = key" "pk' = pk" using q(1) [of key] p(2,3) q(2) by simp_all
  have f: "fmupd (k_path (s_key ?s)) key' ?doc = ?doc" using k by (intro fmap_ext) simp
  note lim = limited_before(1) [OF p(7) a(2)] limited_before(2) [OF r1(2) a(3)]
  have "writeIn (j_docs j) (j_totals j) ?s ?doc key pk (db_tree r) = (Inr (), db_tree r1)" using q(3,4,6) unfolding k f by simp
  from in_step_same(1) [OF i(1) settled_writeIn [OF encodeKey_aside [OF p(3)]] p(4) lim(1) p(5) this lim(2) q(5) [folded q(6)]]
  obtain m1 where m1: "in_step j lo hi p1 r1 m1" by blast
  have "e = stamped hi p1 (putChange ?s key document by)" using e(1) same_but_treeD(6) [OF p(5)] p(6) by (simp add: stamped_def)
  from finish [OF m1 i(2) this e(2) p(7) a(2) r1(2,3) a(3)] show ?thesis .
qed

lemma follow_delete:
  assumes i: "in_step j lo hi p r m" "hi + 1 < 2 ^ 64" and w: "remove_doc j C c by key True p = (Inr True, p')"
    and e: "e = stamped hi p (blankChange\<lparr>c_kind := ChangeDelete, c_collection := s_name (specOf c p), c_key := key, c_by := by\<rparr>)"
      "\<And>b. Marshal (j_changes j) e = Some b \<Longrightarrow> Unmarshal (j_changes j) b = Some e"
    and a: "Apply j C e r = (Inr (), r')" "limited (db_tree p')" "limited (db_tree r')"
  shows "\<exists>lo' m'. in_step j lo' (Suc hi) p' r' m' \<and> change_at j m' (Suc hi) = e"
proof -
  note d = in_stepD [OF i(1)]
  let ?s = "specOf c p" and ?c = "blankChange\<lparr>c_kind := ChangeDelete, c_collection := s_name (specOf c p), c_key := key, c_by := by\<rparr>"
  obtain pk t p1 lsn where p: "fmlookup (catalog p) (s_name ?s) = Some ?s" "encodeKey ?s key = Inr pk"
    "removeIn (j_docs j) (j_totals j) ?s key pk (db_tree p) = (Inr True, t)" "p1 = p\<lparr>db_tree := t\<rparr>" "record_store j ?c p1 = (Inr lsn, p')"
    by (rule remove_solo [OF d(1) w]) auto
  have el: "c_lsn e = word_of_nat (Suc hi)" "c_kind e = ChangeDelete" "c_collection e = s_name ?s" "c_key e = key"
    using e(1) by (simp_all add: stamped_def)
  obtain r1 where r1: "apply_kind j C e r = (Inr (), r1)" "logIn j (db_retain r1) e (db_tree r1) = (Inr (), db_tree r')" "same_but_tree r1 r'"
    by (rule Apply_next [OF i a(1) el(1)])
  from r1(1) el obtain c' found where c': "fmlookup (db_collections r) (s_name ?s) = Some c'" "remove_doc j C c' (c_by e) key False r = (Inr found, r1)"
    by (auto simp: apply_kind_def bnd_eq_Inr Collection_Inr)
  have s: "specOf c' r = ?s" using c'(1) p(1) [unfolded d(5)] by (simp add: catalog_def)
  obtain t' where q: "removeIn (j_docs j) (j_totals j) ?s key pk (db_tree r) = (Inr found, t')" "r1 = r\<lparr>db_tree := t'\<rparr>"
    by (rule remove_solo [OF d(2) c'(2), unfolded s]) (use p(2) in auto)
  note lim = limited_before(1) [OF p(5) a(2)] limited_before(2) [OF r1(2) a(3)]
  obtain m1 where m1: "in_step j lo hi p1 r1 m1"
    using in_step_same(1) [OF i(1) settled_removeIn [OF encodeKey_aside [OF p(2)]], of "j_docs j" "j_totals j" ?s key True p1 found r1] p(3,4) q lim
    by (auto simp: same_but_tree_def)
  have "e = stamped hi p1 ?c" using e(1) p(4) by (simp add: stamped_def)
  from finish [OF m1 i(2) this e(2) p(5) a(2) r1(2,3) a(3)] show ?thesis .
qed


text \<open>After the collection was found, dropping it fails only for other reasons than that it is not there.\<close>

definition spares :: "('s, store_error, 'a) may_fail \<Rightarrow> bool" where
  "spares f \<longleftrightarrow> (\<forall>s. fst (f s) \<noteq> Inl ErrNoCollection)"

lemma spares_basic: "spares (ret a)" "spares (modify g)" "e \<noteq> ErrNoCollection \<Longrightarrow> spares (throw e)" "spares (treeGet k)" "spares (treeDelete k)" "spares (treeAscend k visit x)"
  by (auto simp: spares_def treeGet_def treeDelete_def treeAscend_def onTree_def split: sum.splits prod.splits)

lemma spares_bnd: "spares f \<Longrightarrow> (\<And>a. spares (g a)) \<Longrightarrow> spares (bnd f g)"
  unfolding spares_def bnd_def by (auto split: prod.splits sum.splits) (metis fst_conv)+

lemma spares_onLeader: "spares f \<Longrightarrow> spares (onLeader f)"
  unfolding spares_def onLeader_def by (auto simp: Let_def split: prod.splits) (metis fst_conv)

lemma spares_tree: "spares (dropIndexIn s x)" "spares (deleteRange pre)" "spares (readPart name)"
proof -
  have k: "spares (deleteKeys ks)" for ks by (induction ks) (simp_all only: deleteKeys.simps spares_basic spares_bnd)
  show r: "spares (deleteRange pre)" for pre unfolding deleteRange_def by (intro spares_bnd spares_basic k)
  show "spares (dropIndexIn s x)" unfolding dropIndexIn_def by (rule r)
  show "spares (readPart name)" unfolding readPart_def
    by (intro spares_bnd spares_basic) (auto simp: spares_def split: option.splits)
qed

lemma spares_Part: "spares (Part C name)"
proof -
  have o: "spares (onFolder (Open_file f))" for f
    by (auto simp: spares_def onFolder_def Open_file_def Let_def split: option.splits if_splits)
  have p: "spares (openPart C name pos f)" for pos f
    by (auto simp: spares_def openPart_def Let_def split: prod.splits sum.splits)
  have "spares (bnd (onLeader (readPart name)) (\<lambda>recorded. bnd (onFolder (Open_file (partFile name))) (openPart C name recorded)))"
    by (intro spares_bnd spares_onLeader spares_tree o p)
  then show ?thesis by (auto simp: spares_def Part_def)
qed

lemma spares_dropIndexes: "spares (dropIndexes C c xs)"
proof -
  have a: "spares (openAll C names)" for names by (induction names) (simp_all only: openAll.simps spares_basic spares_bnd spares_Part)
  have "spares (across C c)" using a by (auto simp: spares_def across_def split: option.splits)
  moreover have p: "spares (onPlace q (dropIndexIn s x))" for q s x
    using spares_tree(1) [of s x] by (auto simp: spares_def onPlace_def onLeader_def Let_def split: place.splits option.splits prod.splits) (metis fst_conv)+
  moreover have "spares (eachPlace (dropIndexIn s x) ps)" for s x ps by (induction ps) (simp_all only: eachPlace.simps spares_basic spares_bnd p)
  then have "spares (\<lambda>d. eachPlace (dropIndexIn (specOf c d) x) ps d)" for ps x by (simp add: spares_def)
  ultimately have "spares (dropIndex C c x)" for x unfolding dropIndex_def everywhere_def by (intro spares_bnd)
  then show ?thesis by (induction xs) (simp_all only: dropIndexes.simps spares_basic spares_bnd)
qed

lemma drop_found:
  assumes "name |\<in>| fmdom (db_collections d)"
  shows "fst (drop_collection j C caller name False d) \<noteq> Inl ErrNoCollection"
proof -
  obtain c where c: "Collection name d = (Inr c, d)" using assms by (auto simp: Collection_def split: option.splits)
  have "spares (bnd (dropIndexes C c xs) (\<lambda>_. bnd (onLeader (deleteRange k)) (\<lambda>_. bnd (onLeader (treeDelete (catalogKey name))) (\<lambda>_.
      bnd (modify (\<lambda>d. d\<lparr>db_collections := fmdrop name (db_collections d)\<rparr>)) (\<lambda>_. ret ())))))" for xs k
    by (intro spares_bnd spares_onLeader spares_basic spares_tree spares_dropIndexes)
  then show ?thesis unfolding drop_collection_def spares_def using c by simp
qed

lemma follow_drop:
  assumes i: "in_step j lo hi p r m" "hi + 1 < 2 ^ 64" and w: "drop_collection j C caller name True p = (Inr (), p')"
    and e: "e = stamped hi p (blankChange\<lparr>c_kind := ChangeDrop, c_collection := name, c_by := declared_by (ascii ''drop'') (cl_actor caller)\<rparr>)"
      "\<And>b. Marshal (j_changes j) e = Some b \<Longrightarrow> Unmarshal (j_changes j) b = Some e"
    and a: "Apply j C e r = (Inr (), r')" "limited (db_tree p')" "limited (db_tree r')"
  shows "\<exists>lo' m'. in_step j lo' (Suc hi) p' r' m' \<and> change_at j m' (Suc hi) = e"
proof -
  note d = in_stepD [OF i(1)]
  let ?c = "blankChange\<lparr>c_kind := ChangeDrop, c_collection := name, c_by := declared_by (ascii ''drop'') (cl_actor caller)\<rparr>"
  obtain s p1 lsn where p: "fmlookup (catalog p) name = Some s" "s_name s = name" "dropIn s (db_tree p) = (Inr (), db_tree p1)"
    "catalog p1 = fmdrop name (catalog p)" "solo p1" "handles_ok p1" "db_retain p1 = db_retain p" "db_clock p1 = db_clock p" "db_reads p1 = db_reads p"
    "record_store j ?c p1 = (Inr lsn, p')"
    by (rule drop_solo [OF d(1,3) w]) auto
  have el: "c_lsn e = word_of_nat (Suc hi)" "c_kind e = ChangeDrop" "c_collection e = name" using e(1) by (simp_all add: stamped_def)
  obtain r1 where r1: "apply_kind j C e r = (Inr (), r1)" "logIn j (db_retain r1) e (db_tree r1) = (Inr (), db_tree r')" "same_but_tree r1 r'"
    by (rule Apply_next [OF i a(1) el(1)])
  have "name |\<in>| fmdom (db_collections r)" using p(1) [unfolded d(5)] by (auto simp: catalog_def intro: fmdomI)
  from drop_found [OF this, of j C nobody] have "drop_collection j C nobody name False r = (Inr (), r1)"
    using r1(1) el by (auto simp: apply_kind_def split: prod.splits sum.splits store_error.splits)
  from drop_solo [OF d(2,4) this] obtain s' where q: "fmlookup (catalog r) name = Some s'" "dropIn s' (db_tree r) = (Inr (), db_tree r1)"
    "catalog r1 = fmdrop name (catalog r)" "solo r1" "handles_ok r1" "db_retain r1 = db_retain r" by auto
  have s': "s' = s" using p(1) q(1) d(5) by simp
  note lim = limited_before(1) [OF p(10) a(2)] limited_before(2) [OF r1(2) a(3)]
  obtain m1 where m1: "holding (db_tree p1) m1" "holding (db_tree r1) m1" "log_ok j lo hi m1" "\<forall>k. aside k \<and> k \<noteq> catalogKey (s_name s) \<longrightarrow> m1 k = m k"
    using both_sides [OF i(1) settled_dropIn [of s] _ p(3) lim(1) q(2) [unfolded s'] lim(2)] nextCollection_apart by metis
  have n: "nextID m1 = nextID m" using m1(4) nextCollection_apart by (simp add: nextID_def)
  have "in_step j lo hi p1 r1 m1" unfolding in_step_def
    using p q m1(1-3) d n by (auto split: if_splits)
  moreover have "e = stamped hi p1 ?c" using e(1) p(8,9) by (simp add: stamped_def)
  ultimately show ?thesis using finish [OF _ i(2) _ e(2) p(10) a(2) r1(2,3) a(3)] by blast
qed


lemma readID_runs:
  assumes "holding t m" "readCollectionID t = (Inr n, t')"
  shows "n = nextID m" "t' = t"
proof -
  have "treeGet nextCollection t = (Inr (m nextCollection), t)" using assms(1) by (rule holding_get) (simp_all add: nextCollection_def sizes layout)
  with assms(2) show "n = nextID m" "t' = t" by (auto simp: readCollectionID_def nextID_def split: option.splits if_splits)
qed

lemma put_runs: "treePut k v t = (Inr u, t') \<Longrightarrow> holding t m \<Longrightarrow> limited t' \<Longrightarrow> holding t' (m(k \<mapsto> v))"
  using doesD [OF does_treePut [where Q = "\<lambda>_ n. n = m(k \<mapsto> v)" and m = m, OF refl]] by blast

lemma recordDeclare_Inr:
  assumes "recordDeclare j caller s d = (Inr c, d')"
  obtains lsn where "record_store j (blankChange\<lparr>c_kind := ChangeDeclare, c_collection := s_name s, c_spec := Some s,
      c_by := declared_by (ascii ''declare'') (cl_actor caller)\<rparr>) d = (Inr lsn, d')" "fmlookup (db_collections d') (s_name s) = Some c"
  using assms by (auto simp: recordDeclare_def bnd_eq_Inr Collection_Inr)

lemma recorded_spec:
  assumes "same_but_tree d d'" "fmlookup (catalog d) n = Some s" "fmlookup (db_collections d') n = Some c"
  shows "specOf c d' = s"
  using assms(2,3) same_but_treeD(1) [OF assms(1)] by (simp add: catalog_def) (metis assms(1) option.inject same_but_tree_def same_but_treeD(5))

lemma apply_declare:
  assumes "c_kind e = ChangeDeclare" "c_spec e = Some s" "apply_kind j C e r = (Inr (), r1)"
  obtains r0 where "install j C s r = (Inr (), r0)" "reserveCollectionID (s_id s) (db_tree r0) = (Inr (), db_tree r1)" "same_but_tree r0 r1"
proof -
  from assms obtain r0 t where "install j C s r = (Inr (), r0)" "reserveCollectionID (s_id s) (db_tree r0) = (Inr (), t)" "r1 = r0\<lparr>db_tree := t\<rparr>"
    by (auto simp: apply_kind_def bnd_eq_Inr onLeader_Inr)
  with that [of r0] show thesis by (simp add: same_but_tree_def)
qed

lemma settled_readID: "backs (treePut k v)" "backs readCollectionID" "backs (writeSpec j s)" "backs (reserveCollectionID n)"
  using settled_backs [OF settled_catalog(1) [where P = "\<lambda>_. False"]] settled_backs [OF settled_catalog(4) [where P = "\<lambda>_. False"]]
    settled_backs [OF settled_catalog(3) [where P = "\<lambda>_. False"]] by (auto intro: back_rules)

lemma follow_declare:
  assumes i: "in_step j lo hi p r m" "hi + 1 < 2 ^ 64" and w: "Declare j C caller s p = (Inr c, p')" "s_name s |\<notin>| fmdom (db_collections p)"
    and id: "s_id (specOf c p') \<noteq> - 1"
    and e: "e = stamped hi p (blankChange\<lparr>c_kind := ChangeDeclare, c_collection := s_name s, c_spec := Some (specOf c p'),
        c_by := declared_by (ascii ''declare'') (cl_actor caller)\<rparr>)"
      "\<And>b. Marshal (j_changes j) e = Some b \<Longrightarrow> Unmarshal (j_changes j) b = Some e"
    and a: "Apply j C e r = (Inr (), r')" "limited (db_tree p')" "limited (db_tree r')"
  shows "\<exists>lo' m'. in_step j lo' (Suc hi) p' r' m' \<and> change_at j m' (Suc hi) = e"
proof -
  note d = in_stepD [OF i(1)]
  have none: "fmlookup (db_collections p) (s_name s) = None" "fmlookup (catalog p) (s_name s) = None" "fmlookup (db_collections r) (s_name s) = None"
    using w(2) arg_cong [OF d(5), of "\<lambda>m. fmlookup m (s_name s)"] by (simp_all add: catalog_def fmdom_notD)
  from w(1) none(1) obtain n p0 p1 where q: "onLeader takeCollectionID p = (Inr n, p0)" "install j C (numberSpec n s) p0 = (Inr (), p1)"
    "recordDeclare j caller (numberSpec n s) p1 = (Inr c, p')"
    by (auto simp: Declare_def bnd_eq_Inr split: sum.splits)
  let ?s = "numberSpec n s"
  have sn: "s_name ?s = s_name s" "s_id ?s = n" by (simp_all add: numberSpec_def)
  from q(1) obtain t0 where t0: "takeCollectionID (db_tree p) = (Inr n, t0)" "p0 = p\<lparr>db_tree := t0\<rparr>" by (auto simp: onLeader_Inr)
  have so: "solo p0" "handles_ok p0" "catalog p0 = catalog p" using d t0(2) by (simp_all add: solo_def handles_ok_def catalog_def specOf_def)
  note ip = install_solo [OF so(1,2) q(2)]
  obtain lsn where rs: "record_store j (blankChange\<lparr>c_kind := ChangeDeclare, c_collection := s_name s, c_spec := Some ?s,
      c_by := declared_by (ascii ''declare'') (cl_actor caller)\<rparr>) p1 = (Inr lsn, p')" "fmlookup (db_collections p') (s_name s) = Some c"
    using recordDeclare_Inr [OF q(3)] sn(1) by metis
  have sc: "specOf c p' = ?s" by (rule recorded_spec [OF record_store_Inr(2) [OF rs(1)] _ rs(2)]) (simp add: ip(2) sn)
  have el: "c_lsn e = word_of_nat (Suc hi)" "c_kind e = ChangeDeclare" "c_spec e = Some ?s" using e(1) sc by (simp_all add: stamped_def)
  obtain r1 where r1: "apply_kind j C e r = (Inr (), r1)" "logIn j (db_retain r1) e (db_tree r1) = (Inr (), db_tree r')" "same_but_tree r1 r'"
    by (rule Apply_next [OF i a(1) el(1)])
  obtain r0 where r0: "install j C ?s r = (Inr (), r0)" "reserveCollectionID n (db_tree r0) = (Inr (), db_tree r1)" "same_but_tree r0 r1"
    using apply_declare [OF el(2,3) r1(1)] sn(2) by metis
  note ir = install_solo [OF d(2,4) r0(1)]
  note lim = limited_before(1) [OF rs(1) a(2)] limited_before(2) [OF r1(2) a(3)]
  have wp: "writeSpec j ?s (db_tree p0) = (Inr (), db_tree p1)" using ip(1) so(3) none(2) sn(1) by (simp add: installIn_def)
  have wr: "writeSpec j ?s (db_tree r) = (Inr (), db_tree r0)" using ir(1) none(2) d(5) sn(1) by (simp add: installIn_def)
  obtain b where b: "treePut (catalogKey (s_name s)) b (db_tree p0) = (Inr (), db_tree p1)" "treePut (catalogKey (s_name s)) b (db_tree r) = (Inr (), db_tree r0)"
    using wp wr sn(1) by (auto simp: writeSpec_def split: option.splits)
  have n: "n = nextID m" "treePut nextCollection (be 4 (unat (n + 1))) (db_tree p) = (Inr (), t0)"
    using t0(1) readID_runs [OF d(8)] by (auto simp: takeCollectionID_def bnd_eq_Inr)
  have l0: "limited t0" "limited (db_tree r0)"
    using backsD [OF settled_readID(1) b(1) lim(1)] backsD [OF settled_readID(4) r0(2) lim(2)] t0(2) by simp_all
  let ?m1 = "m(nextCollection \<mapsto> be 4 (unat (n + 1)), catalogKey (s_name s) \<mapsto> b)"
  have h1: "holding (db_tree p1) ?m1" using put_runs [OF b(1) _ lim(1)] put_runs [OF n(2) d(8) l0(1)] t0(2) by simp
  have h0: "holding (db_tree r0) (m(catalogKey (s_name s) \<mapsto> b))" by (rule put_runs [OF b(2) d(9) l0(2)])
  have "nextID (m(catalogKey (s_name s) \<mapsto> b)) = n" using n(1) nextCollection_apart(5) by (simp add: nextID_def)
  with r0(2) readID_runs [OF h0] have "treePut nextCollection (be 4 (unat (n + 1))) (db_tree r0) = (Inr (), db_tree r1)"
    by (auto simp: reserveCollectionID_def bnd_eq_Inr)
  from put_runs [OF this h0 lim(2)] have h2: "holding (db_tree r1) ?m1" using nextCollection_apart(5) by (simp add: fun_upd_twist)
  have lk: "log_ok j lo hi ?m1" by (rule log_ok_cong [OF d(10)]) (use nextCollection_apart in auto)
  have nx: "nextID ?m1 = n + 1"
  proof -
    have "unat (n + 1) < 256 ^ 4" using unsigned_less [of "n + 1"] by simp
    then show ?thesis using nextCollection_apart(5) by (simp add: nextID_def)
  qed
  have up: "n < n + 1"
  proof -
    have "1 + n \<noteq> 0" using id sc sn(2) by (metis add_eq_0_iff)
    then have "unat (1 + n) = Suc (unat n)" by (rule unatSuc)
    then show ?thesis by (simp add: word_less_nat_alt add.commute)
  qed
  have ids: "s_id x < nextID ?m1" if "fmlookup (catalog p1) k = Some x" for k x
    using that d(11) [of k x] ip(2) so(3) sn n(1) up nx by (auto split: if_splits)
  have "in_step j lo hi p1 r1 ?m1" unfolding in_step_def
    using ip ir so d h1 h2 lk ids same_but_treeD [OF r0(3)] t0(2) by simp
  moreover have "e = stamped hi p1 (blankChange\<lparr>c_kind := ChangeDeclare, c_collection := s_name s, c_spec := Some ?s,
      c_by := declared_by (ascii ''declare'') (cl_actor caller)\<rparr>)" using e(1) sc ip(6,7) t0(2) by (simp add: stamped_def)
  ultimately show ?thesis using finish [OF _ i(2) _ e(2) rs(1) a(2) r1(2,3) a(3)] by blast
qed


lemma declareRollups_kept:
  "r_name ` set rs \<subseteq> r_name ` set (s_rollups (specOf c d)) \<Longrightarrow> declareRollups j C c rs next d = (Inr made, d') \<Longrightarrow> d' = d"
proof (induction rs arbitrary: made)
  case (Cons r rs)
  then obtain b where "find (\<lambda>b. r_name b = r_name r) (s_rollups (specOf c d)) = Some b"
    by (cases "find (\<lambda>b. r_name b = r_name r) (s_rollups (specOf c d))") (auto simp: find_None_iff)
  with Cons show ?case by (auto simp: bnd_eq_Inr split: if_splits)
qed simp

lemma follow_redeclare:
  assumes i: "in_step j lo hi p r m" "hi + 1 < 2 ^ 64" and w: "Declare j C caller s p = (Inr c, p')"
    and old: "fmlookup (catalog p) (s_name s) = Some old" "r_name ` set (s_rollups s) = r_name ` set (s_rollups old)"
    and e: "e = stamped hi p (blankChange\<lparr>c_kind := ChangeDeclare, c_collection := s_name s, c_spec := Some (specOf c p'),
        c_by := declared_by (ascii ''declare'') (cl_actor caller)\<rparr>)"
      "\<And>b. Marshal (j_changes j) e = Some b \<Longrightarrow> Unmarshal (j_changes j) b = Some e"
    and a: "Apply j C e r = (Inr (), r')" "limited (db_tree p')" "limited (db_tree r')"
  shows "\<exists>lo' m'. in_step j lo' (Suc hi) p' r' m' \<and> change_at j m' (Suc hi) = e"
proof -
  note d = in_stepD [OF i(1)]
  from old(1) obtain c0 where c0: "fmlookup (db_collections p) (s_name s) = Some c0" "specOf c0 p = old" by (auto simp: catalog_def)
  have on: "s_name old = s_name s" using d(3) c0 by (auto simp: handles_ok_def specOf_def)
  have re: "Redeclare j C caller c0 s p = (Inr c, p')" using w c0(1) by (auto simp: Declare_def split: sum.splits)
  have no: "filter (\<lambda>r. r_name r \<notin> r_name ` set (s_rollups s)) (s_rollups old) = []" using old(2) by (auto simp: filter_empty_conv)
  from re obtain rs nr p0 where q: "declareRollups j C c0 (s_rollups s) (s_next_rollup old) p = (Inr (rs, nr), p0)"
    and q2: "bnd (dropRollups C c0 []) (\<lambda>_.
             case declareIndexes (s_indexes old) (s_indexes s) (s_next_index old) of
               Inl e \<Rightarrow> throw e
             | Inr (xs, next_index) \<Rightarrow>
                 (let updated = old\<lparr>s_indexes := xs, s_next_index := next_index, s_rollups := rs, s_next_rollup := nr\<rparr> in
                  bnd (install j C updated) (\<lambda>_. recordDeclare j caller updated))) p0 = (Inr c, p')"
    unfolding Redeclare_def Let_def c0(2) no by (auto elim!: bnd_InrE split: if_splits)
  have p0: "p0 = p" by (rule declareRollups_kept [OF _ q]) (simp add: c0(2) old(2))
  from q2 obtain xs ni p1 where u: "install j C (old\<lparr>s_indexes := xs, s_next_index := ni, s_rollups := rs, s_next_rollup := nr\<rparr>) p = (Inr (), p1)"
    "recordDeclare j caller (old\<lparr>s_indexes := xs, s_next_index := ni, s_rollups := rs, s_next_rollup := nr\<rparr>) p1 = (Inr c, p')"
    unfolding p0 by (cases "declareIndexes (s_indexes old) (s_indexes s) (s_next_index old)") (auto simp: bnd_eq_Inr Let_def)
  define new where "new = old\<lparr>s_indexes := xs, s_next_index := ni, s_rollups := rs, s_next_rollup := nr\<rparr>"
  note u = u [folded new_def]
  have sn: "s_name new = s_name s" "s_id new = s_id old" using on by (simp_all add: new_def)
  note ip = install_solo [OF d(1,3) u(1)]
  obtain lsn where rs: "record_store j (blankChange\<lparr>c_kind := ChangeDeclare, c_collection := s_name s, c_spec := Some new,
      c_by := declared_by (ascii ''declare'') (cl_actor caller)\<rparr>) p1 = (Inr lsn, p')" "fmlookup (db_collections p') (s_name s) = Some c"
    using recordDeclare_Inr [OF u(2)] sn(1) by metis
  have sc: "specOf c p' = new" by (rule recorded_spec [OF record_store_Inr(2) [OF rs(1)] _ rs(2)]) (simp add: ip(2) sn)
  have el: "c_lsn e = word_of_nat (Suc hi)" "c_kind e = ChangeDeclare" "c_spec e = Some new" using e(1) sc by (simp_all add: stamped_def)
  obtain r1 where r1: "apply_kind j C e r = (Inr (), r1)" "logIn j (db_retain r1) e (db_tree r1) = (Inr (), db_tree r')" "same_but_tree r1 r'"
    by (rule Apply_next [OF i a(1) el(1)])
  obtain r0 where r0: "install j C new r = (Inr (), r0)" "reserveCollectionID (s_id old) (db_tree r0) = (Inr (), db_tree r1)" "same_but_tree r0 r1"
    using apply_declare [OF el(2,3) r1(1)] sn(2) by metis
  note ir = install_solo [OF d(2,4) r0(1)]
  note lim = limited_before(1) [OF rs(1) a(2)] limited_before(2) [OF r1(2) a(3)]
  have l0: "limited (db_tree r0)" by (rule backsD [OF settled_readID(4) r0(2) lim(2)])
  obtain m1 where m1: "holding (db_tree p1) m1" "holding (db_tree r0) m1" "log_ok j lo hi m1" "\<forall>k. aside k \<and> k \<noteq> catalogKey (s_name new) \<longrightarrow> m1 k = m k"
    using both_sides [OF i(1) settled_installIn [of new j] _ ip(1) lim(1) ir(1) [folded d(5)] l0] nextCollection_apart by metis
  have nx: "nextID m1 = nextID m" using m1(4) nextCollection_apart by (simp add: nextID_def)
  have lt: "s_id old < nextID m1" using d(11) [OF old(1)] nx by simp
  have "db_tree r1 = db_tree r0" using r0(2) readID_runs [OF m1(2)] lt by (auto simp: reserveCollectionID_def bnd_eq_Inr)
  moreover have "s_id x < nextID m1" if "fmlookup (catalog p1) k = Some x" for k x
    using that d(11) [of k x] ip(2) sn nx lt by (auto split: if_splits)
  ultimately have "in_step j lo hi p1 r1 m1" unfolding in_step_def
    using ip ir d m1(1-3) same_but_treeD [OF r0(3)] by simp
  moreover have "e = stamped hi p1 (blankChange\<lparr>c_kind := ChangeDeclare, c_collection := s_name s, c_spec := Some new,
      c_by := declared_by (ascii ''declare'') (cl_actor caller)\<rparr>)" using e(1) sc ip(6,7) by (simp add: stamped_def)
  ultimately show ?thesis using finish [OF _ i(2) _ e(2) rs(1) a(2) r1(2,3) a(3)] by blast
qed

lemma follow_acted:
  assumes "in_step j lo hi p r m" "hi + 1 < 2 ^ 64" "acted j C p c p'"
    and "e = stamped hi p c" "\<And>b. Marshal (j_changes j) e = Some b \<Longrightarrow> Unmarshal (j_changes j) b = Some e"
    and "Apply j C e r = (Inr (), r')" "limited (db_tree p')" "limited (db_tree r')"
  shows "\<exists>lo' m'. in_step j lo' (Suc hi) p' r' m' \<and> change_at j m' (Suc hi) = e"
  using assms(3)
proof cases
  case put
  from follow_put [OF assms(1,2) put(2) assms(4) [unfolded put(1)] assms(5-8)] show ?thesis .
next
  case delete
  from follow_delete [OF assms(1,2) delete(2) assms(4) [unfolded delete(1)] assms(5-8)] show ?thesis .
next
  case declare_new
  from follow_declare [OF assms(1,2) declare_new(2-4) assms(4) [unfolded declare_new(1)] assms(5-8)] show ?thesis .
next
  case redeclare
  from follow_redeclare [OF assms(1,2) redeclare(2-4) assms(4) [unfolded redeclare(1)] assms(5-8)] show ?thesis .
next
  case drop
  from follow_drop [OF assms(1,2) drop(2) assms(4) [unfolded drop(1)] assms(5-8)] show ?thesis .
qed


section \<open>An example\<close>

text \<open>A collection with one document in it, and the same collection with a total over it.\<close>

definition ex_plain :: spec where
  "ex_plain = ex_spec\<lparr>s_indexes := [], s_next_index := 0, s_rollups := [], s_next_rollup := 0\<rparr>"

definition ex_rollup :: rollup_decl where
  "ex_rollup = \<lparr>r_name = [110], r_group = [], r_count = True, r_sum = [], r_id = 0\<rparr>"

definition ex_total :: spec where
  "ex_total = ex_plain\<lparr>s_rollups := [ex_rollup], s_next_rollup := 1\<rparr>"

definition ex_declared :: "spec \<Rightarrow> change" where
  "ex_declared s = blankChange\<lparr>c_lsn := 1, c_at := 5, c_kind := ChangeDeclare, c_collection := [99], c_spec := Some s,
     c_by := declared_by (ascii ''declare'') []\<rparr>"

lemma ex_apart: "ex_declared s = ex_declared s' \<longleftrightarrow> s = s'" "ex_total \<noteq> ex_plain"
proof -
  have "s = s'" if "ex_declared s = ex_declared s'" using arg_cong [OF that, of c_spec] by (simp add: ex_declared_def)
  then show "ex_declared s = ex_declared s' \<longleftrightarrow> s = s'" by blast
  have "s_rollups ex_total \<noteq> s_rollups ex_plain" by (simp add: ex_total_def ex_plain_def)
  then show "ex_total \<noteq> ex_plain" by metis
qed

definition ex_forms :: json where
  "ex_forms = ex_json\<lparr>
     j_specs := \<lparr>Marshal = (\<lambda>s. if s = ex_plain then Some [5] else if s = ex_total then Some [6] else None),
                 Unmarshal = (\<lambda>b. if b = [5] then Some ex_plain else if b = [6] then Some ex_total else None)\<rparr>,
     j_changes := \<lparr>Marshal = (\<lambda>c. if c = ex_declared ex_plain then Some [9] else if c = ex_declared ex_total then Some [10] else None),
                   Unmarshal = (\<lambda>b. if b = [9] then Some (ex_declared ex_plain) else if b = [10] then Some (ex_declared ex_total) else None)\<rparr>\<rparr>"

definition ex_db :: "tree \<Rightarrow> database" where
  "ex_db t = \<lparr>db_tree = t, db_collections = fmap_of_list [([99], 0)], db_objects = [ex_plain], db_ids = With (\<lambda>_. 0) (\<lambda>_. []), db_clock = (\<lambda>_. 5), db_reads = 0,
     db_retain = 0, db_budget = 0, db_files = None, db_parts = fmempty, db_dropping = fmempty, db_dropped = [], db_key = [], db_random = (\<lambda>_. 0)\<rparr>"

abbreviation "ex_pk \<equiv> [2, 0, 0, 0, 1, 0x40, 97, 0, 1] :: bytes"
abbreviation "ex_row \<equiv> [8, 0, 0, 0, 1, 0, 0] :: bytes"
abbreviation "ex_map \<equiv> [nextCollection \<mapsto> be 4 2, catalogKey [99] \<mapsto> [5], ex_pk \<mapsto> [7]] :: view"

lemma ex_leads: "f t = (r, t') \<Longrightarrow> onLeader f (ex_db t) = (r, ex_db t')"
  "f t = (r, t') \<Longrightarrow> onLeader f ((ex_db t)\<lparr>db_objects := os\<rparr>) = (r, (ex_db t')\<lparr>db_objects := os\<rparr>)" "db_retain ((ex_db t)\<lparr>db_objects := os\<rparr>) = 0"
  by (simp_all add: onLeader_def ex_db_def)

lemma ex_tree: obtains t where "roomy t ex_map 93"
proof -
  note small = sizes layout nextCollection_def catalogKey_def
  obtain t where t: "roomy t Map.empty 2" by (rule roomy_empty)
  obtain t1 where t1: "roomy t1 [nextCollection \<mapsto> be 4 2] 9" by (rule roomy_put [OF t, of nextCollection "be 4 2"]) (simp_all add: small)
  obtain t2 where t2: "roomy t2 [nextCollection \<mapsto> be 4 2, catalogKey [99] \<mapsto> [5]] 30"
    by (rule roomy_put [OF t1, of "catalogKey [99]" "[5]"]) (simp_all add: small)
  obtain t3 where t3: "roomy t3 ex_map 93" by (rule roomy_put [OF t2, of ex_pk "[7]"]) (simp_all add: small)
  with that show thesis .
qed

lemma ex_in_step: "roomy t ex_map n \<Longrightarrow> in_step ex_forms 0 0 (ex_db t) (ex_db t) ex_map"
proof -
  assume "roomy t ex_map n"
  then have h: "holding t ex_map" by (simp add: roomy_def)
  have "log_ok ex_forms 0 0 ex_map"
    by (auto simp: log_ok_def hasPrefix_def nextCollection_def nextLSN_def catalogKey_def space_defs)
  moreover have "nextID ex_map = 2" by (simp add: nextID_def nextCollection_def catalogKey_def space_defs)
  ultimately show ?thesis using h
    by (auto simp: in_step_def solo_def handles_ok_def catalog_def specOf_def ex_db_def ex_plain_def ex_spec_def fmlookup_of_list split: if_splits)
qed


lemma roomy_log:
  assumes t: "roomy t m n" "3 * n + 3 < 2 ^ 60" and m: "m nextLSN = None" and b: "Marshal (j_changes j) e = Some b" "length b \<le> MaxInline"
    and e: "e = c\<lparr>c_lsn := 1, c_at := (if c_at c = 0 then ms else c_at c)\<rparr>" and w: "a_write_id (c_by c) = []"
  shows "\<exists>t'. record_change j 0 ms c t = (Inr 1, t') \<and> roomy t' (m(nextLSN \<mapsto> be 8 1, logKey 1 \<mapsto> b)) (3 * (3 * n + 3) + 3)"
    "\<exists>t'. logIn j 0 e t = (Inr (), t') \<and> roomy t' (m(logKey 1 \<mapsto> b, nextLSN \<mapsto> be 8 1)) (3 * (3 * n + 3) + 3)"
proof -
  have k: "nextLSN \<noteq> []" "length nextLSN < MaxKey" "logKey 1 \<noteq> []" "length (logKey 1) < MaxKey" "length (be 8 1) \<le> MaxInline"
    by (simp_all add: nextLSN_def logKey_def sizes layout)
  have n: "n < 2 ^ 60" using t(2) by simp
  have l: "latestLSN t = (Inr 0, t)" using roomy_get [OF t(1), of nextLSN] k m by (simp add: latestLSN_def)
  obtain t1 where t1: "treePut nextLSN (be 8 1) t = (Inr (), t1)" "roomy t1 (m(nextLSN \<mapsto> be 8 1)) (3 * n + 3)"
    by (rule roomy_put [OF t(1) n k(1,2,5)])
  obtain t2 where t2: "treePut (logKey 1) b t1 = (Inr (), t2)" "roomy t2 (m(nextLSN \<mapsto> be 8 1, logKey 1 \<mapsto> b)) (3 * (3 * n + 3) + 3)"
    by (rule roomy_put [OF t1(2) t(2) k(3,4) b(2)])
  have "takeLSN t = (Inr 1, t1)" using l t1(1) by (simp add: takeLSN_def setLSN_def)
  then have "record_change j 0 ms c t = (Inr 1, t2)" using b(1) t2(1) w e by (simp add: record_change_def noteWrite_def trim_def)
  with t2(2) show "\<exists>t'. record_change j 0 ms c t = (Inr 1, t') \<and> roomy t' (m(nextLSN \<mapsto> be 8 1, logKey 1 \<mapsto> b)) (3 * (3 * n + 3) + 3)" by blast
  obtain u1 where u1: "treePut (logKey 1) b t = (Inr (), u1)" "roomy u1 (m(logKey 1 \<mapsto> b)) (3 * n + 3)"
    by (rule roomy_put [OF t(1) n k(3,4) b(2)])
  obtain u2 where u2: "treePut nextLSN (be 8 1) u1 = (Inr (), u2)" "roomy u2 (m(logKey 1 \<mapsto> b, nextLSN \<mapsto> be 8 1)) (3 * (3 * n + 3) + 3)"
    by (rule roomy_put [OF u1(2) t(2) k(1,2,5)])
  have "logIn j 0 e t = (Inr (), u2)" using b(1) u1(1) u2(1) w e by (simp add: logIn_def noteWrite_def setLSN_def trim_def)
  with u2(2) show "\<exists>t'. logIn j 0 e t = (Inr (), t') \<and> roomy t' (m(logKey 1 \<mapsto> b, nextLSN \<mapsto> be 8 1)) (3 * (3 * n + 3) + 3)" by blast
qed

text \<open>Installing the declaration again, and applying the change that says so.\<close>

lemma ex_installs:
  assumes "roomy t m n" "n < 2 ^ 60" "s = ex_plain \<and> b = [5] \<or> s = ex_total \<and> b = [6]"
  shows "\<exists>t'. install ex_forms C s (ex_db t) = (Inr (), (ex_db t')\<lparr>db_objects := [s]\<rparr>) \<and> roomy t' (m(catalogKey [99] \<mapsto> b)) (3 * n + 3)"
proof -
  obtain t' where t': "treePut (catalogKey [99]) b t = (Inr (), t')" "roomy t' (m(catalogKey [99] \<mapsto> b)) (3 * n + 3)"
    by (rule roomy_put [OF assms(1,2), of "catalogKey [99]" b]) (use assms(3) in \<open>auto simp: catalogKey_def sizes layout\<close>)
  have "writeSpec ex_forms s t = (Inr (), t')" "s_name s = [99]" "s_indexes s = []"
    using assms(3) t'(1) by (auto simp: writeSpec_def ex_forms_def ex_total_def ex_plain_def ex_spec_def)
  then have "install ex_forms C s (ex_db t) = (Inr (), (ex_db t')\<lparr>db_objects := [s]\<rparr>)"
    by (simp add: install_def ex_db_def fmlookup_of_list specOf_def restoring_def setSpec_def onLeader_def ex_plain_def)
  with t'(2) show ?thesis by blast
qed

lemma ex_applies:
  assumes t: "roomy t ex_map 93" and s: "s = ex_plain \<and> b = [5] \<and> b' = [9] \<or> s = ex_total \<and> b = [6] \<and> b' = [10]"
  shows "\<exists>t'. Apply ex_forms C (ex_declared s) (ex_db t) = (Inr (), (ex_db t')\<lparr>db_objects := [s]\<rparr>)
    \<and> roomy t' (ex_map(catalogKey [99] \<mapsto> b, logKey 1 \<mapsto> b', nextLSN \<mapsto> be 8 1)) 2550"
proof -
  have l: "latestLSN t = (Inr 0, t)"
    using roomy_get [OF t, of nextLSN] by (simp add: latestLSN_def nextLSN_def nextCollection_def catalogKey_def space_defs sizes layout)
  obtain t1 where t1: "install ex_forms C s (ex_db t) = (Inr (), (ex_db t1)\<lparr>db_objects := [s]\<rparr>)" "roomy t1 (ex_map(catalogKey [99] \<mapsto> b)) 282"
    using ex_installs [OF t, of s b C] s by auto
  have "s_id s = 1" using s by (auto simp: ex_total_def ex_plain_def ex_spec_def)
  moreover have "treeGet nextCollection t1 = (Inr (Some (be 4 2)), t1)"
    using roomy_get [OF t1(2), of nextCollection] by (simp add: nextCollection_def catalogKey_def space_defs sizes layout)
  ultimately have rv: "reserveCollectionID (s_id s) t1 = (Inr (), t1)" by (simp add: reserveCollectionID_def readCollectionID_def)
  have mb: "Marshal (j_changes ex_forms) (ex_declared s) = Some b'" using s ex_apart(2) by (auto simp: ex_forms_def ex_apart(1))
  have "\<exists>t'. logIn ex_forms 0 (ex_declared s) t1 = (Inr (), t') \<and> roomy t' (ex_map(catalogKey [99] \<mapsto> b, logKey 1 \<mapsto> b', nextLSN \<mapsto> be 8 1)) (3 * (3 * 282 + 3) + 3)"
    by (rule roomy_log(2) [OF t1(2) _ _ mb, of "ex_declared s"])
      (use s in \<open>auto simp: nextLSN_def nextCollection_def catalogKey_def space_defs sizes layout ex_declared_def declared_by_def noOne_def blankChange_def\<close>)
  then obtain t2 where t2: "logIn ex_forms 0 (ex_declared s) t1 = (Inr (), t2)" "roomy t2 (ex_map(catalogKey [99] \<mapsto> b, logKey 1 \<mapsto> b', nextLSN \<mapsto> be 8 1)) 2550" by auto
  have ed: "c_kind (ex_declared s) = ChangeDeclare" "c_spec (ex_declared s) = Some s" "c_lsn (ex_declared s) = 1" by (simp_all add: ex_declared_def)
  have k: "apply_kind ex_forms C (ex_declared s) (ex_db t) = (Inr (), (ex_db t1)\<lparr>db_objects := [s]\<rparr>)"
    using t1(1) rv by (simp add: apply_kind_def ed onLeader_def) (simp add: ex_db_def)
  from t2(1) mb obtain a1 a2 a3 where "treePut (logKey 1) b' t1 = (Inr (), a1)" "noteWrite ex_forms (ex_declared s) a1 = (Inr (), a2)" "setLSN 1 a2 = (Inr (), a3)" "trim ex_forms 0 a3 = (Inr (), t2)"
    by (auto simp: logIn_def bnd_eq_Inr ed)
  then have "Apply ex_forms C (ex_declared s) (ex_db t) = (Inr (), (ex_db t2)\<lparr>db_objects := [s]\<rparr>)"
    using ex_leads(1) [of latestLSN t "Inr 0" t, OF l] k mb by (simp add: Apply_def ed ex_leads)
  with t2(2) show ?thesis by blast
qed


text \<open>The primary: declaring the collection again as it is, and declaring it with a total.\<close>

lemma ex_valid: "validate ex_plain = Inr ()" "validate ex_total = Inr ()" "validate_rollup ex_rollup = Inr ()"
  by (simp_all add: validate_def ex_total_def ex_plain_def ex_spec_def ex_rollup_def usableName_def refuse_def TypeString_def TypeNumber_def validate_rollup_def)

lemma ex_contributes:
  assumes t: "roomy t ex_map n" "n < 2 ^ 60"
  shows "\<exists>t'. buildRollup ex_docs ex_totals ex_plain ex_rollup t = (Inr (), t') \<and> roomy t' (ex_map(ex_row \<mapsto> [1])) (3 * n + 3)"
proof -
  have dp: "documents ex_plain = [2, 0, 0, 0, 1]" by (simp add: documents_def ex_plain_def ex_spec_def space_defs be_numeral)
  from roomy_ascend [OF t(1), of "documents ex_plain" "gathers ex_docs (documents ex_plain)" "[]"] obtain kvs where
    k: "sorted_wrt (<) (map fst kvs)" "map_of kvs = ex_map"
    "treeAscend (documents ex_plain) (gathers ex_docs (documents ex_plain)) [] t = (Inr (visited (gathers ex_docs (documents ex_plain)) (from_kv (Some (documents ex_plain)) kvs) []), t)" by blast
  have "visited (gathers ex_docs (documents ex_plain)) (from_kv (Some (documents ex_plain)) kvs) []
      = visited (gathers ex_docs (documents ex_plain)) (filter (\<lambda>kv. hasPrefix (documents ex_plain) (fst kv)) kvs) []"
    by (rule prefix_walk [OF k(1)]) (simp add: gathers_def)
  moreover have "filter (\<lambda>kv. hasPrefix (documents ex_plain) (fst kv)) kvs = [(ex_pk, [7])]"
  proof (rule sorted_same_map)
    show "sorted_wrt (<) (map fst (filter (\<lambda>kv. hasPrefix (documents ex_plain) (fst kv)) kvs))" using k(1) by (simp add: sorted_wrt_map sorted_wrt_filter)
    show "map_of (filter (\<lambda>kv. hasPrefix (documents ex_plain) (fst kv)) kvs) = map_of [(ex_pk, [7])]"
      unfolding fun_eq_iff map_of_filter_keys [where P = "hasPrefix (documents ex_plain)"] k(2)
      by (auto simp: dp hasPrefix_def nextCollection_def catalogKey_def space_defs)
  qed simp
  ultimately have v: "treeAscend (documents ex_plain) (gathers ex_docs (documents ex_plain)) [] t = (Inr [ex_doc], t)"
    using k(3) by (simp add: gathers_def dp hasPrefix_def ex_docs_def)
  have g: "groupKey (ex_plain\<lparr>s_rollups := [ex_rollup]\<rparr>) ex_rollup ex_doc = Inr (Some ex_row)"
    by (simp add: groupKey_def ex_rollup_def ex_plain_def ex_spec_def rollups_def EncodeKey_def encodings_def space_defs be_numeral)
  obtain t1 where t1: "treePut ex_row [1] t = (Inr (), t1)" "roomy t1 (ex_map(ex_row \<mapsto> [1])) (3 * n + 3)"
    by (rule roomy_put [OF t, of ex_row "[1]"]) (simp_all add: sizes layout)
  have "treeGet ex_row t = (Inr None, t)" using roomy_get [OF t(1), of ex_row] by (simp add: sizes layout nextCollection_def catalogKey_def space_defs)
  then have "contributeOne ex_totals (ex_plain\<lparr>s_rollups := [ex_rollup]\<rparr>) ex_doc 1 ex_rollup t = (Inr (), t1)"
    using g t1(1) by (simp add: contributeOne_def ex_rollup_def addTotals_def ex_totals_def Let_def fmmap_keys_empty)
  then have "buildRollup ex_docs ex_totals ex_plain ex_rollup t = (Inr (), t1)" using v by (simp add: buildRollup_def contribute_def)
  with t1(2) show ?thesis by blast
qed

lemma ex_records:
  assumes t: "roomy t m n" "3 * n + 3 < 2 ^ 60" "m nextLSN = None" and s: "s = ex_plain \<and> b' = [9] \<or> s = ex_total \<and> b' = [10]"
  shows "\<exists>t'. recordDeclare ex_forms nobody s ((ex_db t)\<lparr>db_objects := [s]\<rparr>) = (Inr 0, (ex_db t')\<lparr>db_objects := [s], db_reads := 1\<rparr>)
    \<and> roomy t' (m(nextLSN \<mapsto> be 8 1, logKey 1 \<mapsto> b')) (3 * (3 * n + 3) + 3)"
proof -
  let ?c = "blankChange\<lparr>c_kind := ChangeDeclare, c_collection := s_name s, c_spec := Some s, c_by := declared_by (ascii ''declare'') []\<rparr>"
  have sn: "s_name s = [99]" using s by (auto simp: ex_total_def ex_plain_def ex_spec_def)
  have mb: "Marshal (j_changes ex_forms) (ex_declared s) = Some b'" using s ex_apart(2) by (auto simp: ex_forms_def ex_apart(1))
  have "\<exists>t'. record_change ex_forms 0 5 ?c t = (Inr 1, t') \<and> roomy t' (m(nextLSN \<mapsto> be 8 1, logKey 1 \<mapsto> b')) (3 * (3 * n + 3) + 3)"
    by (rule roomy_log(1) [OF t mb]) (use s sn in \<open>auto simp: sizes layout ex_declared_def declared_by_def noOne_def blankChange_def\<close>)
  then obtain t' where t': "record_change ex_forms 0 5 ?c t = (Inr 1, t')" "roomy t' (m(nextLSN \<mapsto> be 8 1, logKey 1 \<mapsto> b')) (3 * (3 * n + 3) + 3)" by blast
  have "recordDeclare ex_forms nobody s ((ex_db t)\<lparr>db_objects := [s]\<rparr>) = (Inr 0, (ex_db t')\<lparr>db_objects := [s], db_reads := 1\<rparr>)"
    using t'(1) sn by (simp add: recordDeclare_def record_store_def onLeader_def ex_db_def nobody_def blankChange_def Collection_def fmlookup_of_list)
  with t'(2) show ?thesis by blast
qed

lemma ex_redeclares:
  assumes t: "roomy t ex_map 93"
  shows "\<exists>t'. Declare ex_forms C nobody ex_plain (ex_db t) = (Inr 0, (ex_db t')\<lparr>db_reads := 1\<rparr>)
    \<and> roomy t' (ex_map(catalogKey [99] \<mapsto> [5], nextLSN \<mapsto> be 8 1, logKey 1 \<mapsto> [9])) 2550"
proof -
  obtain t1 where t1: "install ex_forms C ex_plain (ex_db t) = (Inr (), (ex_db t1)\<lparr>db_objects := [ex_plain]\<rparr>)" "roomy t1 (ex_map(catalogKey [99] \<mapsto> [5])) 282"
    using ex_installs [OF t, of ex_plain "[5]" C] by auto
  have "\<exists>t'. recordDeclare ex_forms nobody ex_plain ((ex_db t1)\<lparr>db_objects := [ex_plain]\<rparr>) = (Inr 0, (ex_db t')\<lparr>db_objects := [ex_plain], db_reads := 1\<rparr>)
    \<and> roomy t' (ex_map(catalogKey [99] \<mapsto> [5], nextLSN \<mapsto> be 8 1, logKey 1 \<mapsto> [9])) (3 * (3 * 282 + 3) + 3)"
    by (rule ex_records [OF t1(2)]) (simp_all add: nextLSN_def nextCollection_def catalogKey_def space_defs)
  then obtain t2 where t2: "recordDeclare ex_forms nobody ex_plain ((ex_db t1)\<lparr>db_objects := [ex_plain]\<rparr>) = (Inr 0, (ex_db t2)\<lparr>db_objects := [ex_plain], db_reads := 1\<rparr>)"
    "roomy t2 (ex_map(catalogKey [99] \<mapsto> [5], nextLSN \<mapsto> be 8 1, logKey 1 \<mapsto> [9])) 2550" by auto
  have c: "fmlookup (db_collections (ex_db t)) (s_name ex_plain) = Some 0" "specOf 0 (ex_db t) = ex_plain"
    by (simp_all add: ex_db_def specOf_def ex_plain_def ex_spec_def fmlookup_of_list)
  have p: "s_rollups ex_plain = []" "s_indexes ex_plain = []" "s_next_rollup ex_plain = 0" "s_next_index ex_plain = 0"
    "ex_plain\<lparr>s_indexes := [], s_next_index := 0, s_rollups := [], s_next_rollup := 0\<rparr> = ex_plain" by (simp_all add: ex_plain_def)
  have "Declare ex_forms C nobody ex_plain (ex_db t) = (Inr 0, (ex_db t2)\<lparr>db_objects := [ex_plain], db_reads := 1\<rparr>)"
    using t1(1) t2(1) by (simp add: Declare_def ex_valid c Redeclare_def p samePartition_def)
  moreover have "(ex_db t2)\<lparr>db_objects := [ex_plain], db_reads := 1\<rparr> = (ex_db t2)\<lparr>db_reads := 1\<rparr>" by (simp add: ex_db_def)
  ultimately show ?thesis using t2(2) by metis
qed


lemma ex_adds_total:
  assumes t: "roomy t ex_map 93"
  shows "\<exists>t'. Declare ex_forms C nobody ex_total (ex_db t) = (Inr 0, (ex_db t')\<lparr>db_objects := [ex_total], db_reads := 1\<rparr>)
    \<and> roomy t' (ex_map(ex_row \<mapsto> [1], catalogKey [99] \<mapsto> [6], nextLSN \<mapsto> be 8 1, logKey 1 \<mapsto> [10])) 7653"
proof -
  obtain t0 where t0: "buildRollup ex_docs ex_totals ex_plain ex_rollup t = (Inr (), t0)" "roomy t0 (ex_map(ex_row \<mapsto> [1])) 282"
    using ex_contributes [OF t] by auto
  obtain t1 where t1: "install ex_forms C ex_total (ex_db t0) = (Inr (), (ex_db t1)\<lparr>db_objects := [ex_total]\<rparr>)"
    "roomy t1 (ex_map(ex_row \<mapsto> [1], catalogKey [99] \<mapsto> [6])) 849"
    using ex_installs [OF t0(2), of ex_total "[6]" C] by auto
  have "\<exists>t'. recordDeclare ex_forms nobody ex_total ((ex_db t1)\<lparr>db_objects := [ex_total]\<rparr>) = (Inr 0, (ex_db t')\<lparr>db_objects := [ex_total], db_reads := 1\<rparr>)
    \<and> roomy t' (ex_map(ex_row \<mapsto> [1], catalogKey [99] \<mapsto> [6], nextLSN \<mapsto> be 8 1, logKey 1 \<mapsto> [10])) (3 * (3 * 849 + 3) + 3)"
    by (rule ex_records [OF t1(2)]) (simp_all add: nextLSN_def nextCollection_def catalogKey_def space_defs)
  then obtain t2 where t2: "recordDeclare ex_forms nobody ex_total ((ex_db t1)\<lparr>db_objects := [ex_total]\<rparr>) = (Inr 0, (ex_db t2)\<lparr>db_objects := [ex_total], db_reads := 1\<rparr>)"
    "roomy t2 (ex_map(ex_row \<mapsto> [1], catalogKey [99] \<mapsto> [6], nextLSN \<mapsto> be 8 1, logKey 1 \<mapsto> [10])) 7653" by auto
  have c: "fmlookup (db_collections (ex_db t)) (s_name ex_total) = Some 0" "specOf 0 (ex_db u) = ex_plain" "db_tree (ex_db u) = u" "(ex_db t)\<lparr>db_tree := u\<rparr> = ex_db u" for u
    by (simp_all add: ex_db_def specOf_def ex_total_def ex_plain_def ex_spec_def fmlookup_of_list)
  have p: "s_key ex_plain = s_key ex_total" "s_partition ex_plain = s_partition ex_total" "s_partition ex_plain = None" "s_rollups ex_plain = []" "s_indexes ex_plain = []" "s_indexes ex_total = []"
    "s_rollups ex_total = [ex_rollup]" "s_next_rollup ex_plain = 0" "s_next_index ex_plain = 0"
    "ex_plain\<lparr>s_indexes := [], s_next_index := 0, s_rollups := [ex_rollup], s_next_rollup := 1\<rparr> = ex_total" "ex_rollup\<lparr>r_id := 0\<rparr> = ex_rollup"
    by (simp_all add: ex_total_def ex_plain_def ex_rollup_def ex_spec_def)
  have j: "j_docs ex_forms = ex_docs" "j_totals ex_forms = ex_totals" by (simp_all add: ex_forms_def ex_json_def)
  have ev: "everywhere C 0 (\<lambda>s. buildRollup (j_docs ex_forms) (j_totals ex_forms) s ex_rollup) (ex_db t) = (Inr (), ex_db t0)"
  proof -
    have "across C 0 (ex_db t) = (Inr [Leader], ex_db t)" using p(3) by (simp add: across_def c)
    then show ?thesis using t0(1) by (simp add: everywhere_def c onPlace_def onLeader_def j)
  qed
  have "declareRollups ex_forms C 0 [ex_rollup] 0 (ex_db t) = (Inr ([ex_rollup], 1), ex_db t0)"
    using ev by (simp add: c p ex_valid)
  then have "Declare ex_forms C nobody ex_total (ex_db t) = (Inr 0, (ex_db t2)\<lparr>db_objects := [ex_total], db_reads := 1\<rparr>)"
    using t1(1) t2(1) by (simp add: Declare_def ex_valid c Redeclare_def p samePartition_def del: declareRollups.simps)
  with t2(2) show ?thesis by blast
qed

section \<open>Properties\<close>




text \<open>
  C26. A replica keeps its log without holes: an entry it already has changes nothing, and one that does not
  come right after the last is refused and changes nothing.
\<close>

theorem apply_in_order:
  assumes "holding (db_tree r) m" "log_ok j lo hi m"
  shows "(unat (c_lsn e) \<le> hi \<longrightarrow> Apply j C e r = (Inr (), r)) \<and> (hi + 1 < unat (c_lsn e) \<longrightarrow> Apply j C e r = (Inl ErrOutOfOrder, r))"
proof -
  have l: "onLeader latestLSN r = (Inr (word_of_nat hi), r)" using latest_runs [OF assms] by (simp add: onLeader_def)
  have u: "unat (word_of_nat hi :: 64 word) = hi" by (rule unat64 [OF log_okD(2) [OF assms(2)]])
  have 1: "c_lsn e \<le> word_of_nat hi \<longleftrightarrow> unat (c_lsn e) \<le> hi" by (simp add: word_le_nat_alt u)
  have 2: "c_lsn e \<noteq> word_of_nat hi + 1" if "hi + 1 < unat (c_lsn e)"
  proof -
    have "hi + 1 < 2 ^ 64" using that unsigned_less [of "c_lsn e", where ?'a = nat] by simp
    from unat64 [OF this] have "unat (word_of_nat hi + 1 :: 64 word) = hi + 1" by (simp add: add.commute)
    with that show ?thesis by auto
  qed
  show ?thesis using 1 2 by (auto simp: Apply_def l)
qed

theorem apply_in_order_witness:
  "\<forall>C. \<exists>r. Apply ex_forms C (ex_declared ex_plain\<lparr>c_lsn := 0\<rparr>) r = (Inr (), r) \<and> Apply ex_forms C (ex_declared ex_plain\<lparr>c_lsn := 2\<rparr>) r = (Inl ErrOutOfOrder, r)"
proof
  fix C
  obtain t where t: "roomy t ex_map 93" by (rule ex_tree)
  note d = in_stepD(8,10) [OF ex_in_step [OF t]]
  from apply_in_order [OF d, of "ex_declared ex_plain\<lparr>c_lsn := 0\<rparr>" C] apply_in_order [OF d, of "ex_declared ex_plain\<lparr>c_lsn := 2\<rparr>" C]
  show "\<exists>r. Apply ex_forms C (ex_declared ex_plain\<lparr>c_lsn := 0\<rparr>) r = (Inr (), r) \<and> Apply ex_forms C (ex_declared ex_plain\<lparr>c_lsn := 2\<rparr>) r = (Inl ErrOutOfOrder, r)"
    by auto
qed


end
