(* ===== verification/Store_Calm.thy ===== *)
theory Store_Calm
  imports Store_Invoke Store_Replica
begin

text \<open>
  What running an operation leaves alone. \<open>calm P f\<close> says of an operation on a database in one file that it
  stays one, and that when it succeeds the leader holds the keys of \<open>P\<close> as before. The walks only read:
  a visitor that does not change the database leaves it as it was.
\<close>

section \<open>Walks\<close>

lemma walkAll_stays: "(\<And>x s. x \<in> set xs \<Longrightarrow> Q s \<Longrightarrow> Q (snd (f x s))) \<Longrightarrow> Q s \<Longrightarrow> Q (snd (walkAll f xs s))"
proof (induction xs arbitrary: s)
  case (Cons x xs)
  obtain r s' where f: "f x s = (r, s')" by (meson surj_pair)
  have q: "Q s'" using Cons.prems(1) [of x s] Cons.prems(2) f by simp
  show ?case
  proof (cases r)
    case (Inr more)
    then show ?thesis using f q Cons.IH [OF Cons.prems(1) q] by (cases more) (simp_all add: bnd_def ret_def)
  qed (use f q in \<open>simp add: bnd_def\<close>)
qed (simp add: ret_def)

lemma visitEntry_stays: "(\<And>k v s. Q s \<Longrightarrow> Q (snd (visit k v s))) \<Longrightarrow> Q s \<Longrightarrow> Q (snd (visitEntry st visit e s))"
  by (auto simp: visitEntry_def Let_def split: sum.splits prod.splits) (metis snd_conv)

lemma ascend_stays:
  assumes "\<And>k v s. Q s \<Longrightarrow> Q (snd (visit k v s))"
  shows "Q s \<Longrightarrow> Q (snd (ascend n st visit x s))"
proof (induction n arbitrary: x s)
  case (Suc n)
  show ?case
  proof (cases x)
    case (Pair pid start)
    have "Q (snd (walkAll (visitEntry st visit) es s))" for es by (rule walkAll_stays [where Q = Q], rule visitEntry_stays [where Q = Q]) (use assms Suc.prems in auto)
    moreover have "Q (snd (walkAll (ascend n st visit) ys s))" for ys by (rule walkAll_stays [where Q = Q]) (use Suc in auto)
    ultimately show ?thesis using Pair Suc.prems by (auto simp: Let_def throw_def split: sum.splits node_view.splits simp del: upt_Suc)
  qed
qed (simp add: throw_def)

lemma descend_stays:
  assumes "\<And>k v s. Q s \<Longrightarrow> Q (snd (visit k v s))"
  shows "Q s \<Longrightarrow> Q (snd (descend n st visit x s))"
proof (induction n arbitrary: x s)
  case (Suc n)
  show ?case
  proof (cases x)
    case (Pair pid start)
    have "Q (snd (walkAll (visitEntry st visit) es s))" for es by (rule walkAll_stays [where Q = Q], rule visitEntry_stays [where Q = Q]) (use assms Suc.prems in auto)
    moreover have "Q (snd (walkAll (descend n st visit) ys s))" for ys by (rule walkAll_stays [where Q = Q]) (use Suc in auto)
    ultimately show ?thesis using Pair Suc.prems by (auto simp: Let_def throw_def split: sum.splits node_view.splits simp del: upt_Suc)
  qed
qed (simp add: throw_def)

lemma Ascend_stays: "(\<And>k v s. Q s \<Longrightarrow> Q (snd (visit k v s))) \<Longrightarrow> Q s \<Longrightarrow> Q (snd (Ascend t from visit s))"
  using ascend_stays [of Q visit s "depthFuel (pages t)" "pages t" "(troot t, from)"]
  by (auto simp: Ascend_def bnd_def ret_def split: prod.splits sum.splits)

lemma Descend_stays: "(\<And>k v s. Q s \<Longrightarrow> Q (snd (visit k v s))) \<Longrightarrow> Q s \<Longrightarrow> Q (snd (Descend t from visit s))"
  using descend_stays [of Q visit s "depthFuel (pages t)" "pages t" "(troot t, from)"]
  by (auto simp: Descend_def bnd_def ret_def split: prod.splits sum.splits)

lemma walk_stays:
  assumes v: "\<And>k v s. Q s \<Longrightarrow> Q (snd (visit k v s))" and s: "Q s"
  shows "Q (snd (walk ts rng pre fs visit s))"
proof -
  have b: "Q (fst (snd (bounded dir lower upper visit k val st)))" if "Q (fst st)" for dir lower upper k val st
    using v [OF that, of k val] that by (cases "visit k val (fst st)") (auto simp: bounded_def Let_def)
  have "Q (snd (walkTrees dir lower upper visit ts s))" if "Q s" for dir lower upper ts s
    using that
  proof (induction ts arbitrary: s)
    case (Cons t ts)
    let ?r = "if dir = Reverse then Descend t upper (bounded dir lower upper visit) (s, False) else Ascend t lower (bounded dir lower upper visit) (s, False)"
    have "Q (fst (snd (Descend t upper (bounded dir lower upper visit) (s, False))))"
      by (rule Descend_stays [where Q = "\<lambda>st. Q (fst st)"]) (use b Cons.prems in auto)
    moreover have "Q (fst (snd (Ascend t lower (bounded dir lower upper visit) (s, False))))"
      by (rule Ascend_stays [where Q = "\<lambda>st. Q (fst st)"]) (use b Cons.prems in auto)
    ultimately have "Q (fst (snd ?r))" by (cases "dir = Reverse") simp_all
    then show ?case using Cons.IH by (auto split: prod.splits sum.splits)
  qed simp
  then show ?thesis using s by (auto simp: walk_def split: sum.splits prod.splits)
qed

section \<open>Calm operations\<close>

definition calm :: "(bytes \<Rightarrow> bool) \<Rightarrow> 'a on_store \<Rightarrow> bool" where
  "calm P f \<longleftrightarrow>
     (\<forall>d r d'. solo d \<longrightarrow> f d = (r, d') \<longrightarrow> solo d' \<and> (limited (db_tree d') \<longrightarrow> limited (db_tree d))
        \<and> (\<forall>a m. r = Inr a \<longrightarrow> limited (db_tree d') \<longrightarrow> holding (db_tree d) m \<longrightarrow> (\<exists>m'. holding (db_tree d') m' \<and> (\<forall>k. P k \<longrightarrow> m' k = m k))))"

named_theorems calm_rules "operations on a database that leave keys alone"

lemma calmD:
  assumes "calm P f" "solo d" "f d = (r, d')"
  shows "solo d'" "limited (db_tree d') \<Longrightarrow> limited (db_tree d)"
    "r = Inr a \<Longrightarrow> limited (db_tree d') \<Longrightarrow> holding (db_tree d) m \<Longrightarrow> \<exists>m'. holding (db_tree d') m' \<and> (\<forall>k. P k \<longrightarrow> m' k = m k)"
  using assms unfolding calm_def by blast+

lemma calm_elsewhere:
  assumes "\<And>d. solo d \<Longrightarrow> solo (snd (f d)) \<and> db_tree (snd (f d)) = db_tree d"
  shows "calm P f"
  unfolding calm_def using assms by (metis snd_conv)

lemma calm_still: "(\<And>d. solo d \<Longrightarrow> snd (f d) = d) \<Longrightarrow> calm P f"
  by (rule calm_elsewhere) simp

lemma calm_ret [calm_rules]: "calm P (ret a)" "calm P (throw e)"
  by (auto intro!: calm_still simp: ret_def throw_def)

lemma calm_bnd [calm_rules]:
  assumes f: "calm P f" and g: "\<And>a. calm P (g a)"
  shows "calm P (bnd f g)"
  unfolding calm_def
proof (intro allI impI)
  fix d r d' assume s: "solo d" and r: "bnd f g d = (r, d')"
  obtain x d1 where d1: "f d = (x, d1)" by (meson surj_pair)
  note c = calmD [OF f s d1]
  show "solo d' \<and> (limited (db_tree d') \<longrightarrow> limited (db_tree d))
    \<and> (\<forall>a m. r = Inr a \<longrightarrow> limited (db_tree d') \<longrightarrow> holding (db_tree d) m \<longrightarrow> (\<exists>m'. holding (db_tree d') m' \<and> (\<forall>k. P k \<longrightarrow> m' k = m k)))"
  proof (cases x)
    case (Inl e)
    then show ?thesis using r d1 c by (auto simp: bnd_def)
  next
    case (Inr a)
    with r d1 have g1: "g a d1 = (r, d')" by (simp add: bnd_def)
    note c' = calmD [OF g c(1) g1]
    show ?thesis
    proof (intro conjI allI impI)
      fix b m assume "r = Inr b" "limited (db_tree d')" "holding (db_tree d) m"
      from c(3) [OF Inr c'(2) [OF this(2)] this(3)] obtain m1 where m1: "holding (db_tree d1) m1" "\<forall>k. P k \<longrightarrow> m1 k = m k" by blast
      from c'(3) [OF \<open>r = Inr b\<close> \<open>limited (db_tree d')\<close> m1(1)] m1(2) show "\<exists>m'. holding (db_tree d') m' \<and> (\<forall>k. P k \<longrightarrow> m' k = m k)" by auto
    qed (use c c' in auto)
  qed
qed

lemma calm_cases [calm_rules]:
  "(b \<Longrightarrow> calm P f) \<Longrightarrow> (\<not> b \<Longrightarrow> calm P g) \<Longrightarrow> calm P (if b then f else g)"
  "(z = None \<Longrightarrow> calm P f) \<Longrightarrow> (\<And>a. z = Some a \<Longrightarrow> calm P (h a)) \<Longrightarrow> calm P (case z of None \<Rightarrow> f | Some a \<Rightarrow> h a)"
  "(\<And>e. w = Inl e \<Longrightarrow> calm P (k e)) \<Longrightarrow> (\<And>a. w = Inr a \<Longrightarrow> calm P (l a)) \<Longrightarrow> calm P (case w of Inl e \<Rightarrow> k e | Inr a \<Rightarrow> l a)"
  "(\<And>a b. calm P (q a b)) \<Longrightarrow> calm P (case ab of (a, b) \<Rightarrow> q a b)"
  by (auto split: option.splits sum.splits prod.splits)

text \<open>An operation that first looks at the database.\<close>

lemma calm_reading: "(\<And>d. calm P (f d)) \<Longrightarrow> calm P (\<lambda>d. f d d)"
  unfolding calm_def by blast

lemma calm_leader:
  assumes "settled P f"
  shows "calm P (onLeader f)"
  unfolding calm_def
proof (intro allI impI)
  fix d r d' assume s: "solo d" and r: "onLeader f d = (r, d')"
  then obtain t where t: "f (db_tree d) = (r, t)" "d' = d\<lparr>db_tree := t\<rparr>" by (cases "f (db_tree d)") (auto simp: onLeader_def)
  from assms have b: "backs f" by (rule settled_backs)
  show "solo d' \<and> (limited (db_tree d') \<longrightarrow> limited (db_tree d))
    \<and> (\<forall>a m. r = Inr a \<longrightarrow> limited (db_tree d') \<longrightarrow> holding (db_tree d) m \<longrightarrow> (\<exists>m'. holding (db_tree d') m' \<and> (\<forall>k. P k \<longrightarrow> m' k = m k)))"
  proof (intro conjI allI impI)
    fix a m assume "r = Inr a" "limited (db_tree d')" "holding (db_tree d) m"
    moreover from assms obtain a' m' where "\<forall>k. P k \<longrightarrow> m' k = m k" "does f m (\<lambda>b n. b = a' \<and> n = m')" by (rule settledE)
    ultimately show "\<exists>m'. holding (db_tree d') m' \<and> (\<forall>k. P k \<longrightarrow> m' k = m k)"
      using doesD [of f m _ "db_tree d" a t] t by fastforce
  qed (use s t backsD [OF b t(1)] in \<open>auto simp: solo_def\<close>)
qed

lemma calm_place: "settled P f \<Longrightarrow> calm P (onPlace p f)"
proof (cases p)
  case Leader
  then show "settled P f \<Longrightarrow> calm P (onPlace p f)" using calm_leader [of P f] by (simp add: onPlace_def [abs_def])
next
  case (InPart name)
  then show ?thesis
    by (auto simp: onPlace_def solo_def Let_def split: option.splits prod.splits intro!: calm_elsewhere)
qed

section \<open>The operations of a collection\<close>

text \<open>The declarations: of collections and of operations, and who holds a namespace.\<close>

definition declaration_key :: "bytes \<Rightarrow> bool" where
  "declaration_key k \<longleftrightarrow> hasPrefix [spaceOps] k \<or> hasPrefix [spaceClaims] k \<or> hasPrefix [spaceCatalog] k"

lemma declaration_key_aside: "declaration_key k \<Longrightarrow> aside k"
  by (cases k) (auto simp: declaration_key_def aside_def hasPrefix_def space_defs spaceOps_def spaceClaims_def)

lemma not_declaration [simp]: "\<not> declaration_key (logKey n)" "\<not> declaration_key (writeKey w)" "\<not> declaration_key nextLSN"
  by (auto simp: declaration_key_def logKey_def writeKey_def nextLSN_def hasPrefix_def space_defs spaceOps_def spaceClaims_def)

lemma settled_record_declared: "settled declaration_key (record_change j retain ms c)"
proof -
  have drop: "settled declaration_key (dropChanges cs)" for cs
  proof (induction cs)
    case (Cons c cs)
    then show ?case unfolding dropChanges.simps by (intro settle_rules) simp_all
  qed (simp only: dropChanges.simps settle_rules)
  show ?thesis
    unfolding record_change_def takeLSN_def latestLSN_def setLSN_def noteWrite_def trim_def Let_def by (intro settle_rules drop) simp_all
qed

lemma calm_record [calm_rules]: "calm declaration_key (record_store j c)"
proof -
  have 1: "calm declaration_key (\<lambda>d'. onLeader (record_change j (db_retain d) (db_clock d (db_reads d)) c) (d'\<lparr>db_reads := n\<rparr>))" for d n
  proof -
    have "calm declaration_key (bnd (modify (\<lambda>d'. d'\<lparr>db_reads := n\<rparr>)) (\<lambda>_. onLeader (record_change j (db_retain d) (db_clock d (db_reads d)) c)))"
      by (intro calm_rules calm_leader settled_record_declared calm_elsewhere) (simp add: modify_def solo_def)
    then show ?thesis by (simp add: bnd_def modify_def)
  qed
  have 2: "calm declaration_key (onLeader (record_change j (db_retain d) (db_clock d (db_reads d)) c))" for d by (rule calm_leader [OF settled_record_declared])
  show ?thesis
  proof (cases "c_at c = 0")
    case True
    have "calm declaration_key (\<lambda>d. onLeader (record_change j (db_retain d) (db_clock d (db_reads d)) c) (d\<lparr>db_reads := Suc (db_reads d)\<rparr>))"
      by (rule calm_reading [where f = "\<lambda>d d'. onLeader (record_change j (db_retain d) (db_clock d (db_reads d)) c) (d'\<lparr>db_reads := Suc (db_reads d)\<rparr>)"]) (rule 1)
    then show ?thesis using True by (simp add: record_store_def [abs_def])
  next
    case False
    have "calm declaration_key (\<lambda>d. onLeader (record_change j (db_retain d) (db_clock d (db_reads d)) c) d)"
      by (rule calm_reading [where f = "\<lambda>d. onLeader (record_change j (db_retain d) (db_clock d (db_reads d)) c)"]) (rule 2)
    then show ?thesis using False by (simp add: record_store_def [abs_def])
  qed
qed

lemma calm_into [calm_rules]: "calm P (into C c key)"
  by (rule calm_still) (auto simp: into_def Part_solo bnd_def split: option.splits sum.splits)

lemma calm_across [calm_rules]: "calm P (across C c)"
proof (rule calm_still)
  fix d assume "solo d"
  then have "snd (openAll C ns d) = d" for ns by (cases ns) (auto simp: bnd_def Part_solo ret_def)
  then show "snd (across C c d) = d" by (auto simp: across_def split: option.splits)
qed

lemma calm_basics [calm_rules]: "calm P (Collection n)" "calm P (live c)" "calm P (lift_check r)" "calm P (keyTerm p values)"
  "calm P (onLeader (Operation j n v))" "calm P (onLeader (Wrote j w))"
proof -
  show "calm P (Collection n)" "calm P (live c)" by (rule calm_still, simp add: Collection_def live_def split: option.splits)+
  show l: "calm P (lift_check r)" for r :: "store_error + 'z" unfolding lift_check_def by (intro calm_rules)
  show "calm P (keyTerm p values)" unfolding keyTerm_def by (intro calm_rules l)
  show "calm P (onLeader (Operation j n v))" "calm P (onLeader (Wrote j w))"
    unfolding Operation_def decodeOperation_def Wrote_def by (intro calm_leader settle_rules)+
qed

lemma calm_match_key [calm_rules]:
  assumes "\<And>pk d. encodeKey (specOf c d) key = Inr pk \<Longrightarrow> calm P (g pk d)"
  shows "calm P (\<lambda>d. case encodeKey (specOf c d) key of Inl e \<Rightarrow> (Inl e, d) | Inr pk \<Rightarrow> g pk d d)"
proof (rule calm_reading [of P "\<lambda>d d'. case encodeKey (specOf c d) key of Inl e \<Rightarrow> (Inl e, d') | Inr pk \<Rightarrow> g pk d d'"])
  show "calm P (\<lambda>d'. case encodeKey (specOf c d) key of Inl e \<Rightarrow> (Inl e, d') | Inr pk \<Rightarrow> g pk d d')" for d
    using assms calm_ret(2) [unfolded throw_def] by (cases "encodeKey (specOf c d) key") auto
qed

lemma calm_get_doc [calm_rules]: "calm P (Get_doc j C c key)"
  unfolding Get_doc_def [abs_def] by (intro calm_rules calm_place settle_rules)

lemma calm_write_doc [calm_rules]: "calm declaration_key (write_doc j C c by document record)"
proof -
  have k: "calm declaration_key (keyFor c document)"
    by (rule calm_elsewhere) (auto simp: keyFor_def solo_def Let_def split: option.splits sum.splits prod.splits)
  have "calm declaration_key (write_at j C c by record key document)" for key document
    unfolding write_at_def [abs_def]
    by (intro calm_rules calm_place settled_weaken [OF settled_writeIn] declaration_key_aside encodeKey_aside) auto
  with k show ?thesis unfolding write_doc_def by (intro calm_rules)
qed

lemma calm_remove_doc [calm_rules]: "calm declaration_key (remove_doc j C c by key record)"
proof -
  have g: "calm declaration_key (\<lambda>d.
      bnd (into C c key) (\<lambda>p.
      bnd (onPlace p (removeIn (j_docs j) (j_totals j) (specOf c d) key pk)) (\<lambda>found.
        if \<not> found then ret False
        else bnd (if record
                  then bnd (record_store j (blankChange\<lparr>c_kind := ChangeDelete, c_collection := s_name (specOf c d), c_key := key, c_by := by\<rparr>)) (\<lambda>_. ret ())
                  else ret ()) (\<lambda>_. ret True))) d)" if "encodeKey s key = Inr pk" for s pk
    by (rule calm_reading) (intro calm_rules calm_place settled_weaken [OF settled_removeIn] declaration_key_aside encodeKey_aside [OF that])
  show ?thesis unfolding remove_doc_def by (intro calm_bnd calm_match_key calm_basics) (rule g)
qed

lemma calm_notTaken [calm_rules]: "calm P (notTaken j C c document)"
proof -
  have "calm P (\<lambda>d. (case fmlookup document (k_path (s_key (specOf c d'))) of
        None \<Rightarrow> ret ()
      | Some key \<Rightarrow> if key = gnil then ret () else bnd (Get_doc j C c key) (\<lambda>taken. if taken \<noteq> None then throw ErrExists else ret ())) d)" for d'
    by (intro calm_rules)
  then have "calm P (\<lambda>d. (case fmlookup document (k_path (s_key (specOf c d))) of
        None \<Rightarrow> ret ()
      | Some key \<Rightarrow> if key = gnil then ret () else bnd (Get_doc j C c key) (\<lambda>taken. if taken \<noteq> None then throw ErrExists else ret ())) d)"
    by (rule calm_reading [where f = "\<lambda>d'. case fmlookup document (k_path (s_key (specOf c d'))) of
        None \<Rightarrow> ret ()
      | Some key \<Rightarrow> if key = gnil then ret () else bnd (Get_doc j C c key) (\<lambda>taken. if taken \<noteq> None then throw ErrExists else ret ())"])
  then show ?thesis
    by (rule back_subst [of "calm P"]) (auto simp: notTaken_def ret_def fun_eq_iff split: option.splits)
qed

section \<open>Reading\<close>

text \<open>A visitor that leaves a database in one file as it is.\<close>

definition quiet :: "(bytes \<Rightarrow> bytes \<Rightarrow> 's \<times> database \<Rightarrow> bool \<times> 's \<times> database) \<Rightarrow> bool" where
  "quiet visit \<longleftrightarrow> (\<forall>k v s d. solo d \<longrightarrow> snd (snd (visit k v (s, d))) = d)"

lemma solo_still:
  assumes "solo d"
  shows "snd (into C c key d) = d" "snd (across C c d) = d" "snd (Get_doc j C c key d) = d"
proof -
  show i: "snd (into C c key d) = d" using assms by (auto simp: into_def Part_solo bnd_def split: option.splits sum.splits)
  have "snd (openAll C ns d) = d" for ns using assms by (cases ns) (auto simp: bnd_def Part_solo ret_def)
  then show "snd (across C c d) = d" by (auto simp: across_def split: option.splits)
  show "snd (Get_doc j C c key d) = d"
  proof (cases "encodeKey (specOf c d) key")
    case (Inr pk)
    obtain r where r: "into C c key d = (r, d)" using i by (metis prod.collapse)
    show ?thesis
    proof (cases r)
      case (Inr p)
      with into_solo [OF assms, of C c key p d] r have p: "p = Leader" by simp
      have "snd (read_doc (j_docs j) pk t) = t" for t by (auto simp: read_doc_def treeGet_def bnd_def ret_def throw_def split: sum.splits option.splits)
      then show ?thesis using Inr r p \<open>encodeKey _ _ = Inr pk\<close>
        by (auto simp: Get_doc_def onPlace_def onLeader_def Let_def split: prod.splits) (metis snd_conv database.surjective database.update_convs(1))
    qed (use r Inr in \<open>simp add: Get_doc_def\<close>)
  qed (simp add: Get_doc_def)
qed

lemma walk_store_still:
  assumes "solo d" "quiet visit"
  shows "snd (walk_store C c rng pre fs visit s d) = d"
proof (cases "stretch rng pre fs")
  case (Inr bs)
  obtain r where a: "across C c d = (r, d)" using solo_still(2) [OF assms(1)] by (metis prod.collapse)
  have "snd (snd (walk ts rng pre fs visit (s, d))) = d" for ts
    by (rule walk_stays [where Q = "\<lambda>sd. snd sd = d"]) (use assms in \<open>auto simp: quiet_def\<close>)
  then show ?thesis using Inr a by (cases r) (auto simp: walk_store_def split: prod.splits sum.splits, (metis snd_conv)+)
qed (simp add: walk_store_def)

lemma quiet_apart: "quiet (apart visit)"
  by (simp add: quiet_def apart_def split: prod.splits)

lemma quiet_entry: "(\<And>x s d. solo d \<Longrightarrow> snd (snd (visit x (s, d))) = d) \<Longrightarrow> quiet (shows_entry j pre fs visit)"
  by (auto simp: quiet_def shows_entry_def split: sum.splits option.splits)

lemma calm_walks [calm_rules]: "calm P (walkRange j C c rng f s)" "calm P (walkKeys C c rng g s)" "calm P (run j C c p rng res room)"
  "calm P (runTotals j C c p rng res room)"
proof -
  show r: "calm P (walkRange j C c rng f s)" for f :: "key_value \<Rightarrow> doc \<Rightarrow> 's \<Rightarrow> bool \<times> 's" and s
    by (rule calm_still) (simp add: walkRange_def Let_def walk_store_still quiet_apart)
  have "calm P (\<lambda>d. bnd (walk_store C c rng (documents (specOf c d')) (clusteredFields (specOf c d')) (apart (shows_key (documents (specOf c d')) g)) (s, False))
        (\<lambda>(s, damaged). if damaged then throw ErrDamaged else ret s) d)" for d'
    by (intro calm_rules calm_still walk_store_still quiet_apart)
  from calm_reading [OF this] show "calm P (walkKeys C c rng g s)" by (simp add: walkKeys_def [abs_def] Let_def)
  have a: "calm P (answered st)" for st unfolding answered_def by (intro calm_rules)
  have "snd (snd (shows_found j C c p x (s, d))) = d" if "solo d" for x s d
  proof -
    have "Get_doc j C c (GKey (fo_key x)) d = (fst (Get_doc j C c (GKey (fo_key x)) d), d)" using solo_still(3) [OF that, of j C c "GKey (fo_key x)"] by (simp add: prod_eq_iff)
    moreover obtain r where "fst (Get_doc j C c (GKey (fo_key x)) d) = r" by simp
    ultimately have "Get_doc j C c (GKey (fo_key x)) d = (r, d)" by simp
    then show ?thesis by (auto simp: shows_found_def Let_def split: sum.splits option.splits prod.splits)
  qed
  then have "calm P (Scan j C c name rng (shows_found j C c p) s)" for name s
    by (intro calm_still) (auto simp: Scan_def Let_def split: option.splits intro!: walk_store_still quiet_entry)
  with r a show "calm P (run j C c p rng res room)" unfolding run_def by (intro calm_rules)
  have "calm P (Totals_rows j C c name rng (shows_total j p) s)" for name s
  proof (rule calm_still)
    fix d assume "solo d"
    then obtain r where "across C c d = (r, d)" using solo_still(2) by (metis prod.collapse)
    then show "snd (Totals_rows j C c name rng (shows_total j p) s d) = d"
      by (cases r) (auto simp: Totals_rows_def Let_def split: option.splits sum.splits prod.splits list.splits)
  qed
  with a show "calm P (runTotals j C c p rng res room)" unfolding runTotals_def by (intro calm_rules)
qed

section \<open>Actions\<close>

lemma calm_runPlain: "calm declaration_key (runPlain j C by p values res room)"
proof -
  have k: "calm declaration_key f \<Longrightarrow> calm declaration_key (keeping room f)" for f unfolding keeping_def by (intro calm_rules)
  have h: "calm declaration_key (hashRange j C c p rng res)" for c rng unfolding hashRange_def by (intro calm_rules)
  have r: "calm declaration_key (removeKeys j C c by ks res)" for c ks res
    by (induction ks arbitrary: res) (simp_all only: removeKeys.simps calm_rules)
  have d: "calm declaration_key (runDeleteRange j C by c p rng res)" for c rng unfolding runDeleteRange_def by (intro calm_rules r)
  have "calm declaration_key (runGet j C c p values res room)" "calm declaration_key (runPut j C by c p values res)"
    "calm declaration_key (runUpdate j C by c p values res)" "calm declaration_key (runDelete j C by c p values res)" for c
    unfolding runGet_def runPut_def runUpdate_def runDelete_def Let_def by (intro calm_rules)+
  note this [calm_rules]
  show ?thesis unfolding runPlain_def by (intro calm_rules k h d)
qed

lemma calm_runOwnStep: "calm declaration_key (runOwnStep j C by st values made res room)"
proof -
  have "calm declaration_key (stepDocument j C c st values made)" for c
    unfolding stepDocument_def by (intro calm_rules) (auto split: option.splits bool.splits intro!: calm_rules)
  then show ?thesis unfolding runOwnStep_def by (intro calm_rules)
qed

end
