(* ===== verification/Store_Calls.thy ===== *)
theory Store_Calls
  imports Store_Calm
begin

text \<open>
  Operations that call operations. A declaration may only call what is declared already, at a version that
  is pinned and never written again, and must ask for every scope its callees ask for. So the calls of the
  operations a database holds go down a rank: following them ends, and what a caller may run never needs
  more than the scopes the caller was checked for.
\<close>

section \<open>The operations a map holds\<close>

definition op_at :: "json \<Rightarrow> view \<Rightarrow> bytes \<Rightarrow> int \<Rightarrow> operation option" where
  "op_at j m name version = (case m (operationKey name version) of None \<Rightarrow> None | Some b \<Rightarrow> Unmarshal (j_operations j) b)"

definition callee_key :: "step \<Rightarrow> bytes" where
  "callee_key st = operationKey (sp_operation st) (sp_version st)"

text \<open>Steps whose calls are declared, below the rank \<open>r\<close> and within the scopes \<open>S\<close>.\<close>

definition steps_ok :: "json \<Rightarrow> (bytes \<Rightarrow> nat) \<Rightarrow> view \<Rightarrow> nat \<Rightarrow> bytes set \<Rightarrow> step list \<Rightarrow> bool" where
  "steps_ok j rank m r S sts \<longleftrightarrow>
     (\<forall>st \<in> set sts. sp_operation st \<noteq> [] \<longrightarrow>
        0 < sp_version st \<and> rank (callee_key st) < r
        \<and> (\<exists>q. op_at j m (sp_operation st) (sp_version st) = Some q \<and> set (o_scopes q) \<subseteq> S))"

definition ops_ok :: "json \<Rightarrow> (bytes \<Rightarrow> nat) \<Rightarrow> view \<Rightarrow> bool" where
  "ops_ok j rank m \<longleftrightarrow>
     (\<forall>name version p. 0 < version \<longrightarrow> op_at j m name version = Some p \<longrightarrow> o_action p = ActionBatch \<longrightarrow>
        steps_ok j rank m (rank (operationKey name version)) (set (o_scopes p)) (o_steps p))"

lemma steps_ok_simps [simp]:
  "steps_ok j rank m r S []"
  "steps_ok j rank m r S (st # sts) \<longleftrightarrow>
     (sp_operation st \<noteq> [] \<longrightarrow> 0 < sp_version st \<and> rank (callee_key st) < r
        \<and> (\<exists>q. op_at j m (sp_operation st) (sp_version st) = Some q \<and> set (o_scopes q) \<subseteq> S)) \<and> steps_ok j rank m r S sts"
  by (auto simp: steps_ok_def)

lemma op_at_cong: "(\<And>k. hasPrefix [spaceOps] k \<Longrightarrow> m' k = m k) \<Longrightarrow> op_at j m' = op_at j m"
  by (rule ext)+ (simp add: op_at_def operationKey_def operationPrefix_def hasPrefix_def)

lemma ops_ok_cong:
  assumes "\<And>k. hasPrefix [spaceOps] k \<Longrightarrow> m' k = m k"
  shows "ops_ok j rank m' = ops_ok j rank m" "steps_ok j rank m' = steps_ok j rank m"
proof -
  show s: "steps_ok j rank m' = steps_ok j rank m" by (rule ext)+ (simp add: steps_ok_def op_at_cong [OF assms])
  show "ops_ok j rank m' = ops_ok j rank m" by (simp add: ops_ok_def op_at_cong [OF assms] s)
qed

lemma Operation_at:
  assumes "holding t m" "0 < version" "Operation j name version t = (Inr p, t')"
  shows "op_at j m name version = Some p" "t' = t"
proof -
  from assms(2,3) obtain v where v: "treeGet (operationKey name version) t = (Inr v, t)" "t' = t"
    "(case v of None \<Rightarrow> throw ErrNoOperation | Some b \<Rightarrow> decodeOperation j b) t = (Inr p, t)"
    by (auto simp: Operation_def bnd_eq_Inr treeGet_def decodeOperation_def throw_def ret_def split: sum.splits option.splits)
  have "v = m (operationKey name version)"
    using v(1) assms(1) tree.fetch_spec tree_result(3) by (fastforce simp: treeGet_def holding_def split: sum.splits)
  then show "op_at j m name version = Some p" "t' = t" using v(2,3) by (auto simp: op_at_def decodeOperation_def throw_def ret_def split: option.splits)
qed

lemma among_at: "holding (db_tree d) m \<Longrightarrow> 0 < version \<Longrightarrow> among j d name version = Inr p \<Longrightarrow> op_at j m name version = Some p"
  using Operation_at(1) [of "db_tree d" m version j name p] by (cases "Operation j name version (db_tree d)") (simp add: among_def)

lemma among_ends: "among j d name version \<noteq> Inl OutOfFuel"
proof -
  have "fst (f t) \<noteq> Inl OutOfFuel" if "f = treeGet k \<or> f = treeAscend k v None" for f :: "bytes option on_tree" and t k v
    using that by (auto simp: treeGet_def treeAscend_def split: sum.splits prod.splits)
  then show ?thesis
    by (auto simp: among_def Operation_def decodeOperation_def bnd_def throw_def ret_def split: prod.splits sum.splits option.splits) (metis fst_conv)+
qed

section \<open>Following the calls of a declaration\<close>

lemma ceiling_ends:
  assumes o: "ops_ok j rank m" and f: "\<And>name v p. 0 < v \<Longrightarrow> find_op name v = Inr p \<Longrightarrow> op_at j m name v = Some p" "\<And>name v. find_op name v \<noteq> Inl OutOfFuel"
  shows "steps_ok j rank m r S sts \<Longrightarrow> r \<le> n \<Longrightarrow> ceilingSteps n find_op sts visiting known amount \<noteq> Inl OutOfFuel"
proof (induction n arbitrary: r S sts visiting known amount rule: less_induct)
  case (less n)
  show ?case using less.prems(1)
  proof (induction sts arbitrary: known amount)
    case (Cons st sts)
    note rest = Cons.IH [OF Cons.prems [unfolded steps_ok_simps, THEN conjunct2]]
    show ?case
    proof (cases "sp_operation st = []")
      case False
      show ?thesis
      proof (cases "find_op (sp_operation st) (sp_version st)")
        case (Inr callee)
        have v: "0 < sp_version st" "rank (callee_key st) < n" using Cons.prems False less.prems(2) by auto
        then obtain n' where n': "n = Suc n'" "rank (callee_key st) \<le> n'" by (cases n) auto
        have "op_at j m (sp_operation st) (sp_version st) = Some callee" by (rule f(1) [OF v(1) Inr])
        then have s: "steps_ok j rank m (rank (callee_key st)) (set (o_scopes callee)) (o_steps callee)" if "o_action callee = ActionBatch"
          using o v(1) that unfolding ops_ok_def callee_key_def by blast
        have "ceilingOf n' find_op callee visiting known \<noteq> Inl OutOfFuel" for known
          using less.IH [of n', OF _ s n'(2)] n'(1) by (auto simp: ceilingOf.simps split: option.splits sum.splits)
        then show ?thesis using False Inr n'(1) rest by (auto split: sum.splits)
      qed (use False f(2) in auto)
    qed (use rest in simp)
  qed simp
qed

lemma keyType_ends:
  assumes o: "ops_ok j rank m" and f: "\<And>name v p. 0 < v \<Longrightarrow> find_op name v = Inr p \<Longrightarrow> op_at j m name v = Some p" "\<And>name v. find_op name v \<noteq> Inl OutOfFuel"
    and c: "\<And>name. coll name \<noteq> Inl OutOfFuel"
  shows "(o_action p = ActionBatch \<Longrightarrow> steps_ok j rank m r S (o_steps p)) \<Longrightarrow> r \<le> n \<Longrightarrow> keyTypeOf n find_op coll p \<noteq> Inl OutOfFuel"
proof (induction n arbitrary: r S p rule: less_induct)
  case (less n)
  have k: "keyTypeIn coll name \<noteq> Inl OutOfFuel" for name using c by (auto simp: keyTypeIn_def split: sum.splits)
  show ?case
  proof (cases "o_action p = ActionBatch \<and> o_steps p \<noteq> [] \<and> sp_operation (last (o_steps p)) \<noteq> []")
    case True
    let ?st = "last (o_steps p)"
    have st: "?st \<in> set (o_steps p)" using True by simp
    show ?thesis
    proof (cases "find_op (sp_operation ?st) (sp_version ?st)")
      case (Inr callee)
      have v: "0 < sp_version ?st" "rank (callee_key ?st) < n" using less.prems True st by (auto simp: steps_ok_def)
      then obtain n' where n': "n = Suc n'" "rank (callee_key ?st) \<le> n'" by (cases n) auto
      have "op_at j m (sp_operation ?st) (sp_version ?st) = Some callee" by (rule f(1) [OF v(1) Inr])
      then have s: "steps_ok j rank m (rank (callee_key ?st)) (set (o_scopes callee)) (o_steps callee)" if "o_action callee = ActionBatch"
        using o v(1) that unfolding ops_ok_def callee_key_def by blast
      have "keyTypeOf n' find_op coll callee \<noteq> Inl OutOfFuel" by (rule less.IH [OF _ s n'(2)]) (use n'(1) in simp_all)
      moreover have "keyTypeOf n find_op coll p = keyTypeOf n' find_op coll callee"
        using True Inr n'(1) by (subst keyTypeOf.simps) (simp add: action_defs)
      ultimately show ?thesis by simp
    next
      case (Inl e)
      then have "keyTypeOf n find_op coll p = Inl e" using True by (subst keyTypeOf.simps) (simp add: action_defs)
      then show ?thesis using f(2) [of "sp_operation ?st" "sp_version ?st"] Inl by auto
    qed
  qed (subst keyTypeOf.simps, use k in auto)
qed

section \<open>Running the calls\<close>

lemma lift_check_Inr: "lift_check r d = (Inr a, d') \<longleftrightarrow> r = Inr a \<and> d' = d"
  by (auto simp: lift_check_def throw_def ret_def split: sum.splits)

lemma calm_runSteps: "calm declaration_key (runSteps n j C w sts vals made res room)"
proof (induction n j C w sts vals made res room rule: runSteps.induct)
  case (2 n j C w st sts vals made res room)
  have o: "calm declaration_key (bnd (runOwnStep j C w st vals made res room) (\<lambda>done. ret (Some done)))" by (intro calm_rules calm_runOwnStep)
  have c: "calm declaration_key (case n of 0 \<Rightarrow> ret None
      | Suc n' \<Rightarrow> runSteps n' j C w (o_steps callee) inner fmempty (newResult (o_name callee) (o_version callee)) room)"
    if "sp_operation st \<noteq> []" "o_action callee = ActionBatch" for callee :: operation and inner
    using 2(1) [OF that] calm_ret(1) by (auto split: nat.splits)
  have p: "calm declaration_key (bnd (runPlain j C w callee inner r room) (\<lambda>done. ret (Some done)))" for callee :: operation and inner r
    by (intro calm_rules calm_runPlain)
  show ?case
    unfolding runSteps.simps
  proof (rule calm_bnd)
    show "calm declaration_key (case done of None \<Rightarrow> ret None | Some (key, res, room) \<Rightarrow>
        runSteps n j C w sts vals (if sp_name st = [] then made else fmupd (sp_name st) key made) (res\<lparr>rs_key := key\<rparr>) room)" for "done"
      using 2(2) calm_ret(1) by (auto split: option.splits)
  qed (intro calm_cases calm_bnd calm_basics o c p calm_ret; assumption)
qed (unfold runSteps.simps, rule calm_ret(1))

lemma runSteps_ends:
  assumes "ops_ok j rank m"
  shows "solo d \<Longrightarrow> holding (db_tree d) m \<Longrightarrow> steps_ok j rank m r S sts \<Longrightarrow> r \<le> n \<Longrightarrow>
     runSteps n j C by sts vals made res room d = (Inr done, d') \<Longrightarrow> limited (db_tree d') \<Longrightarrow> done \<noteq> None"
  using assms
proof (induction n arbitrary: r S sts vals made res room d d' m "done" rule: less_induct)
  case (less n)
  show ?case using less.prems
  proof (induction sts arbitrary: made res room d m)
    case Nil
    then show ?case by (auto simp: runSteps.simps)
  next
    case (Cons st sts)
    note l = Cons.prems(6)
    from Cons.prems(5) obtain one d1 where one: "(if sp_operation st = [] then bnd (runOwnStep j C by st vals made res room) (\<lambda>done. ret (Some done))
          else bnd (onLeader (Operation j (sp_operation st) (sp_version st))) (\<lambda>callee.
               bnd (lift_check (callee_arguments st callee vals made)) (\<lambda>inner.
               bnd (if o_action callee = ActionBatch then
                      (case n of
                         0 \<Rightarrow> ret None
                       | Suc n' \<Rightarrow> runSteps n' j C by (o_steps callee) inner fmempty (newResult (o_name callee) (o_version callee)) room)
                    else bnd (runPlain j C by callee inner (newResult (o_name callee) (o_version callee)) room) (\<lambda>done. ret (Some done)))
                 (\<lambda>done. ret (map_option (\<lambda>(sub, room). (rs_key sub, addResult res sub, room)) done))))) d = (Inr one, d1)" (is "?step d = _")
      and next_one: "(case one of None \<Rightarrow> ret None
        | Some (key, res, room) \<Rightarrow>
            runSteps n j C by sts vals (if sp_name st = [] then made else fmupd (sp_name st) key made) (res\<lparr>rs_key := key\<rparr>) room) d1 = (Inr done, d')"
      unfolding runSteps.simps by (rule bnd_InrE)
    have "calm declaration_key ?step"
      by (intro calm_rules calm_runOwnStep calm_runPlain) (simp split: nat.splits add: calm_ret calm_runSteps del: not_None_eq, auto simp: ret_def [symmetric] intro: calm_ret)
    note c = calmD [OF this Cons.prems(1) one]
    have l1: "limited (db_tree d1)"
      using next_one l calmD(2) [OF calm_runSteps c(1)] by (auto split: option.splits prod.splits)
    from c(3) [OF refl l1 Cons.prems(2)] obtain m1 where m1: "holding (db_tree d1) m1" "\<And>k. hasPrefix [spaceOps] k \<Longrightarrow> m1 k = m k"
      by (auto simp: declaration_key_def)
    note cong = ops_ok_cong [OF m1(2)]
    have "one \<noteq> None"
    proof (cases "sp_operation st = []")
      case True
      then show ?thesis using one by (auto simp: bnd_eq_Inr)
    next
      case False
      then obtain callee inner sub t where s: "Operation j (sp_operation st) (sp_version st) (db_tree d) = (Inr callee, t)"
        "(if o_action callee = ActionBatch then
            (case n of 0 \<Rightarrow> ret None
             | Suc n' \<Rightarrow> runSteps n' j C by (o_steps callee) inner fmempty (newResult (o_name callee) (o_version callee)) room)
          else bnd (runPlain j C by callee inner (newResult (o_name callee) (o_version callee)) room) (\<lambda>done. ret (Some done))) (d\<lparr>db_tree := t\<rparr>) = (Inr sub, d1)"
        "one = map_option (\<lambda>(sub, room). (rs_key sub, addResult res sub, room)) sub"
        using one by (auto simp: bnd_eq_Inr onLeader_Inr lift_check_Inr)
      have v: "0 < sp_version st" "rank (callee_key st) < n" using Cons.prems(3,4) False by auto
      then obtain n' where n': "n = Suc n'" "rank (callee_key st) \<le> n'" by (cases n) auto
      from Operation_at [OF Cons.prems(2) v(1) s(1)] have q: "op_at j m (sp_operation st) (sp_version st) = Some callee" "d\<lparr>db_tree := t\<rparr> = d" by simp_all
      show ?thesis
      proof (cases "o_action callee = ActionBatch")
        case True
        with Cons.prems(7) v(1) q(1) have k: "steps_ok j rank m (rank (callee_key st)) (set (o_scopes callee)) (o_steps callee)"
          unfolding ops_ok_def callee_key_def by blast
        have "sub \<noteq> None"
          by (rule less.IH [of n', OF _ Cons.prems(1,2) k n'(2) _ l1 Cons.prems(7)]) (use s(2) True n'(1) q(2) in simp_all)
        then show ?thesis using s(3) by simp
      qed (use s(2,3) in \<open>auto simp: bnd_eq_Inr\<close>)
    qed
    then obtain key res1 room1 where o: "one = Some (key, res1, room1)" by auto
    show ?case
      by (rule Cons.IH [OF c(1) m1(1)]) (use Cons.prems(3,4,7) l next_one o cong in simp_all)
  qed
qed

end
