(* ===== verification/Store_Versions.thy ===== *)
theory Store_Versions
  imports Store_Calls
begin

text \<open>
  Declaring an operation, and what it keeps: every version has its own key and is never written again, a
  new version calls only what is there, and a namespace stays with whoever holds it.
\<close>

section \<open>The keys of the operations\<close>

definition ops_named :: "json \<Rightarrow> view \<Rightarrow> bool" where
  "ops_named j m \<longleftrightarrow>
     (\<forall>k b. hasPrefix [spaceOps] k \<longrightarrow> m k = Some b \<longrightarrow>
        b \<noteq> [] \<and> (\<exists>p. Unmarshal (j_operations j) b = Some p \<and> k = operationKey (o_name p) (o_version p)
          \<and> 0 < o_version p \<and> o_version p < 2 ^ 32 \<and> 0 \<notin> set (o_name p)))"

lemma ops_named_cong: "(\<And>k. hasPrefix [spaceOps] k \<Longrightarrow> m' k = m k) \<Longrightarrow> ops_named j m' = ops_named j m"
  by (auto simp: ops_named_def)

lemma zero_ended:
  assumes "xs @ 0 # a = ys @ 0 # b" "0 \<notin> set xs" "0 \<notin> set ys"
  shows "xs = ys \<and> a = (b :: bytes)"
proof -
  have t: "takeWhile (\<lambda>x. x \<noteq> 0) (zs @ 0 # c) = zs" if "0 \<notin> set zs" for zs c :: bytes
    using that by (subst takeWhile_append2) auto
  from assms(1) have "takeWhile (\<lambda>x. x \<noteq> 0) (xs @ 0 # a) = takeWhile (\<lambda>x. x \<noteq> 0) (ys @ 0 # b)" by simp
  then have "xs = ys" using t assms(2,3) by simp
  with assms(1) show ?thesis by simp
qed

lemma operationKey_prefix:
  assumes "hasPrefix (operationPrefix name) (operationKey name' v)" "0 \<notin> set name" "0 \<notin> set name'"
  shows "name' = name"
proof -
  from assms(1) obtain r where "operationKey name' v = operationPrefix name @ r" by (auto simp: hasPrefix_append)
  then have "name' @ 0 # be 4 (nat (v mod 2 ^ 32)) = name @ 0 # r" by (simp add: operationKey_def operationPrefix_def)
  from zero_ended [OF this assms(3,2)] show ?thesis by simp
qed

lemma operationKey_less:
  assumes "0 \<le> u" "u < v" "v < 2 ^ 32"
  shows "operationKey name u < operationKey name v"
proof -
  have "be 4 (nat u) < be 4 (nat v)" using assms by (intro be_less) auto
  then show ?thesis using assms by (simp add: operationKey_def append_less_append)
qed

lemma visited_newest:
  assumes "\<forall>kv \<in> set kvs. hasPrefix pre (fst kv) \<and> snd kv \<noteq> []"
  shows "visited (newest_version pre) kvs acc = (if kvs = [] then acc else Some (snd (last kvs)))"
  using assms by (induction kvs arbitrary: acc) (auto simp: newest_version_def)

lemma latestVersion_runs:
  assumes h: "holding t m" "ops_named j m" "0 \<notin> set name" and r: "latestVersion j name t = (Inr v, t')"
  shows "t' = t" "0 \<le> v" "v < 2 ^ 32" "\<And>u. 0 < u \<Longrightarrow> u < 2 ^ 32 \<Longrightarrow> m (operationKey name u) \<noteq> None \<Longrightarrow> u \<le> v"
proof -
  let ?pre = "operationPrefix name"
  from h(1) obtain F kvs where k: "holds_map t F kvs" "map_of kvs = m" by (auto simp: holding_def)
  have s: "sorted_wrt (<) (map fst kvs)" by (rule holds_map_sorted [OF k(1)])
  define hits where "hits = filter (\<lambda>kv. hasPrefix ?pre (fst kv)) kvs"
  have own: "\<exists>p. Unmarshal (j_operations j) b = Some p \<and> k = operationKey name (o_version p) \<and> 0 < o_version p \<and> o_version p < 2 ^ 32 \<and> b \<noteq> []"
    if "(k, b) \<in> set hits" for k b
  proof -
    have "m k = Some b" using that s k(2) by (auto simp: hits_def strict_sorted_iff intro: map_of_is_SomeI)
    moreover have p: "hasPrefix ?pre k" using that by (simp add: hits_def)
    moreover from p have "hasPrefix [spaceOps] k" by (auto simp: operationPrefix_def hasPrefix_append)
    ultimately obtain p where "Unmarshal (j_operations j) b = Some p" "k = operationKey (o_name p) (o_version p)" "0 < o_version p" "o_version p < 2 ^ 32"
      "0 \<notin> set (o_name p)" "b \<noteq> []" using h(2) unfolding ops_named_def by blast
    with operationKey_prefix [of name "o_name p"] p h(3) show ?thesis by auto
  qed
  have "Ascend t (Some ?pre) (newest_version ?pre) None = (Inr (), visited (newest_version ?pre) (from_kv (Some ?pre) kvs) None)"
    by (rule Ascend_visited [OF k(1)])
  also have "visited (newest_version ?pre) (from_kv (Some ?pre) kvs) None = visited (newest_version ?pre) hits None"
    unfolding hits_def by (rule prefix_walk [OF s]) (simp add: newest_version_def)
  also have "\<dots> = (if hits = [] then None else Some (snd (last hits)))"
    by (rule visited_newest) (use own in \<open>fastforce simp: hits_def\<close>)
  finally have a: "treeAscend ?pre (newest_version ?pre) None t = (Inr (if hits = [] then None else Some (snd (last hits))), t)"
    by (simp add: treeAscend_def)
  have "t' = t \<and> 0 \<le> v \<and> v < 2 ^ 32 \<and> (\<forall>u. 0 < u \<longrightarrow> u < 2 ^ 32 \<longrightarrow> m (operationKey name u) \<noteq> None \<longrightarrow> u \<le> v)"
  proof (cases "hits = []")
    case True
    have "m (operationKey name u) = None" if "0 < u" "u < 2 ^ 32" for u
    proof -
      have "hasPrefix ?pre (operationKey name u)" by (auto simp: operationKey_def hasPrefix_append)
      with True have "operationKey name u \<notin> fst ` set kvs" by (auto simp: hits_def filter_empty_conv)
      then show ?thesis using k(2) by (auto simp: map_of_eq_None_iff)
    qed
    then show ?thesis using r a True by (auto simp: latestVersion_def Operation_def throw_def)
  next
    case False
    obtain kl bl where l: "last hits = (kl, bl)" by (meson surj_pair)
    then have "(kl, bl) \<in> set hits" using False last_in_set by metis
    from own [OF this] obtain p where p: "Unmarshal (j_operations j) bl = Some p" "kl = operationKey name (o_version p)" "0 < o_version p" "o_version p < 2 ^ 32" by blast
    have v: "v = o_version p" "t' = t" using r a False l p(1) by (auto simp: latestVersion_def Operation_def decodeOperation_def ret_def)
    have "u \<le> v" if u: "0 < u" "u < 2 ^ 32" "m (operationKey name u) \<noteq> None" for u
    proof (rule ccontr)
      assume "\<not> u \<le> v"
      with operationKey_less [of v u name] v(1) p(2,3) u(2) have lt: "kl < operationKey name u" by simp
      from u(3) k(2) obtain b where "(operationKey name u, b) \<in> set kvs" by (metis map_of_SomeD not_None_eq)
      then have "(operationKey name u, b) \<in> set hits" by (auto simp: hits_def operationKey_def hasPrefix_append)
      then have "operationKey name u \<in> set (map fst hits)" by force
      moreover have "sorted_wrt (<) (map fst hits)" using s by (auto simp: hits_def sorted_wrt_map sorted_wrt_filter)
      moreover have "map fst hits = butlast (map fst hits) @ [last (map fst hits)]" using False by simp
      ultimately have "operationKey name u \<le> last (map fst hits)" by (metis (no_types, lifting) less_imp_le list.set_intros(1) order_refl set_ConsD set_append sorted_wrt_append Un_iff empty_iff list.set(1))
      then show False using lt l False by (simp add: last_map)
    qed
    then show ?thesis using v p(3,4) by auto
  qed
  then show "t' = t" "0 \<le> v" "v < 2 ^ 32" "\<And>u. 0 < u \<Longrightarrow> u < 2 ^ 32 \<Longrightarrow> m (operationKey name u) \<noteq> None \<Longrightarrow> u \<le> v" by blast+
qed

section \<open>What a declaration was checked for\<close>

lemma validated_steps:
  "validateSteps n j d parent params earlier known amount sts = Inr x \<Longrightarrow> st \<in> set sts \<Longrightarrow> sp_operation st \<noteq> [] \<Longrightarrow>
     0 < sp_version st \<and> (\<exists>callee. among j d (sp_operation st) (sp_version st) = Inr callee \<and> set (o_scopes callee) \<subseteq> set (o_scopes parent))"
proof (induction sts arbitrary: earlier known amount)
  case (Cons st' sts)
  from Cons.prems(1) obtain offer known' where v: "validateStep n j d parent params earlier st' known = Inr (offer, known')"
    "validateSteps n j d parent params (if sp_name st' = [] then earlier else fmupd (sp_name st') offer earlier) known'
       (wrap64 (amount + of_ceiling offer)) sts = Inr x"
    by (auto split: sum.splits if_splits)
  show ?case
  proof (cases "st = st'")
    case True
    with v(1) Cons.prems(3) show ?thesis
      by (auto simp: validateStep_def validateComposedStep_def split: sum.splits if_splits)
  qed (use Cons.IH [OF v(2) _ Cons.prems(3)] Cons.prems(2) in auto)
qed simp

lemma checks_Cons_accept: "checks (c # cs) = Inr () \<Longrightarrow> c = Inr () \<and> checks cs = Inr ()"
  by (cases c) auto

lemma validated:
  assumes "validateOperation n j d p = Inr ()"
  shows "0 \<notin> set (o_name p)"
    "o_action p = ActionBatch \<Longrightarrow> st \<in> set (o_steps p) \<Longrightarrow> sp_operation st \<noteq> [] \<Longrightarrow>
       0 < sp_version st \<and> (\<exists>callee. among j d (sp_operation st) (sp_version st) = Inr callee \<and> set (o_scopes callee) \<subseteq> set (o_scopes p))"
proof -
  from assms have "usableName (o_name p) = Inr ()" by (auto simp: validateOperation_def usableName_def split: sum.splits if_splits)
  then show "0 \<notin> set (o_name p)" by (auto simp: usableName_def split: if_splits)
  assume a: "o_action p = ActionBatch" "st \<in> set (o_steps p)" "sp_operation st \<noteq> []"
  from assms obtain s params where "validateAction n j d s params p = Inr ()"
    by (auto simp: validateOperation_def split: sum.splits dest: checks_Cons_accept)
  with a(1) obtain x where "validateSteps n j d p params fmempty fmempty 0 (o_steps p) = Inr x"
    by (auto simp: validateAction_def validateBatch_def action_defs split: sum.splits if_splits)
  from validated_steps [OF this a(2,3)]
  show "0 < sp_version st \<and> (\<exists>callee. among j d (sp_operation st) (sp_version st) = Inr callee \<and> set (o_scopes callee) \<subseteq> set (o_scopes p))" .
qed

section \<open>Declaring\<close>

lemma settled_claimFor: "settled (\<lambda>k. \<not> hasPrefix [spaceClaims] k) (claimFor j caller name)"
  unfolding claimFor_def NamespaceClaim_def by (auto intro!: settle_rules split: sum.splits prod.splits simp: claimKey_def hasPrefix_def)

lemma does_claimFor:
  "does (claimFor j caller name) m (\<lambda>_ m'. \<forall>k. m k \<noteq> None \<or> \<not> hasPrefix [spaceClaims] k \<longrightarrow> m' k = m k)" (is "does _ _ ?Q")
proof (cases "SplitOperationName name")
  case (Inr nl)
  obtain ns l where nl: "nl = (ns, l)" by (meson surj_pair)
  have n: "does (NamespaceClaim j ns) m (\<lambda>v m'. m' = m \<and> (v = None \<longrightarrow> ns \<noteq> [] \<longrightarrow> m (claimKey ns) = None))"
    unfolding NamespaceClaim_def by (auto intro!: does_rules does_bnd [where Q = "\<lambda>v m'. m' = m \<and> v = m (claimKey ns)"] back_rules)
  have c: "hasPrefix [spaceClaims] (claimKey ns)" by (simp add: claimKey_def hasPrefix_def)
  show ?thesis
  proof (cases "ns = []")
    case False
    then show ?thesis
      unfolding claimFor_def Inr nl sum.case prod.case if_False
      using c by (auto intro!: does_rules does_bnd [OF n] back_rules simp: nl)
  qed (simp add: claimFor_def Inr nl does_ret)
qed (simp add: claimFor_def does_throw)

lemma settled_lookup [settle_rules]: "settled P (Operation j n v)" "settled P (NamespaceClaim j ns)"
  unfolding Operation_def decodeOperation_def NamespaceClaim_def by (intro settle_rules)+

text \<open>What a declaration goes through.\<close>

lemma DeclareOperation_runs:
  assumes "DeclareOperation n j caller p d = (Inr q, d')"
  obtains latest t1 t2 lsn b d2 where "validateOperation n j d p = Inr ()" "claimFor j caller (o_name p) (db_tree d) = (Inr (), t1)"
    "latestVersion j (o_name p) t1 = (Inr latest, t2)" "q = p\<lparr>o_version := wrap64 (latest + 1), o_declared_by := declarerOf caller\<rparr>"
    "Marshal (j_operations j) q = Some b" "treePut (operationKey (o_name q) (o_version q)) b t2 = (Inr (), db_tree d2)"
    "d2 = d\<lparr>db_tree := db_tree d2\<rparr>"
    "record_store j (blankChange\<lparr>c_kind := ChangeOperation, c_operation := Some q, c_by := declared_by (ascii ''declare'') (cl_actor caller)\<rparr>) d2 = (Inr lsn, d')"
proof -
  from assms obtain t1 latest t2 d2 lsn where v: "validateOperation n j d p = Inr ()" and c: "claimFor j caller (o_name p) (db_tree d) = (Inr (), t1)"
    and l: "latestVersion j (o_name p) t1 = (Inr latest, t2)" and w: "onLeader (writeOperation j (p\<lparr>o_version := wrap64 (latest + 1), o_declared_by := declarerOf caller\<rparr>)) (d\<lparr>db_tree := t2\<rparr>) = (Inr (), d2)"
    and r: "record_store j (blankChange\<lparr>c_kind := ChangeOperation, c_operation := Some (p\<lparr>o_version := wrap64 (latest + 1), o_declared_by := declarerOf caller\<rparr>),
        c_by := declared_by (ascii ''declare'') (cl_actor caller)\<rparr>) d2 = (Inr lsn, d')"
    and q: "q = p\<lparr>o_version := wrap64 (latest + 1), o_declared_by := declarerOf caller\<rparr>"
    unfolding DeclareOperation_def by (auto simp: bnd_eq_Inr onLeader_Inr Let_def split: sum.splits)
  from w [folded q] obtain b where b: "Marshal (j_operations j) q = Some b" "treePut (operationKey (o_name q) (o_version q)) b t2 = (Inr (), db_tree d2)"
    "d2 = d\<lparr>db_tree := db_tree d2\<rparr>"
    by (auto simp: onLeader_Inr writeOperation_def throw_def split: option.splits)
  show thesis by (rule that [OF v c l q b r [folded q]])
qed

lemma steps_ok_cong:
  assumes "steps_ok j rank m r S sts" "\<And>k. hasPrefix [spaceOps] k \<Longrightarrow> m k \<noteq> None \<Longrightarrow> m' k = m k \<and> rank' k = rank k"
  shows "steps_ok j rank' m' r S sts"
  unfolding steps_ok_def
proof (intro ballI impI)
  fix st assume "st \<in> set sts" "sp_operation st \<noteq> []"
  with assms(1) obtain q where q: "0 < sp_version st" "rank (callee_key st) < r" "op_at j m (sp_operation st) (sp_version st) = Some q" "set (o_scopes q) \<subseteq> S"
    by (auto simp: steps_ok_def)
  have "hasPrefix [spaceOps] (callee_key st)" by (simp add: callee_key_def operationKey_def operationPrefix_def hasPrefix_def)
  moreover from q(3) have "m (callee_key st) \<noteq> None" by (auto simp: op_at_def callee_key_def split: option.splits)
  ultimately have "m' (callee_key st) = m (callee_key st)" "rank' (callee_key st) = rank (callee_key st)" using assms(2) by blast+
  with q show "0 < sp_version st \<and> rank' (callee_key st) < r \<and> (\<exists>q. op_at j m' (sp_operation st) (sp_version st) = Some q \<and> set (o_scopes q) \<subseteq> S)"
    by (auto simp: op_at_def callee_key_def)
qed

text \<open>A new version on top of the others: its rank is above those of the operations it calls.\<close>

lemma new_version_ok:
  assumes o: "ops_ok j rank m" and fresh: "m key = None" "key = operationKey (o_name q) (o_version q)" "Unmarshal (j_operations j) b = Some q"
    and s: "\<And>st. o_action q = ActionBatch \<Longrightarrow> st \<in> set (o_steps q) \<Longrightarrow> sp_operation st \<noteq> [] \<Longrightarrow>
      0 < sp_version st \<and> (\<exists>c. op_at j m (sp_operation st) (sp_version st) = Some c \<and> set (o_scopes c) \<subseteq> set (o_scopes q))"
  shows "ops_ok j (rank(key := Suc (Max (insert 0 (rank ` callee_key ` set (o_steps q)))))) (m(key \<mapsto> b))" (is "ops_ok j ?rank ?m")
  unfolding ops_ok_def
proof (intro allI impI)
  fix name version p assume v: "0 < version" and p: "op_at j ?m name version = Some p" and a: "o_action p = ActionBatch"
  have keep: "?m k = m k \<and> ?rank k = rank k" if "m k \<noteq> None" for k using that fresh(1) by auto
  show "steps_ok j ?rank ?m (?rank (operationKey name version)) (set (o_scopes p)) (o_steps p)"
  proof (cases "operationKey name version = key")
    case True
    with p fresh(3) have pq: "p = q" by (simp add: op_at_def)
    have "steps_ok j rank m (?rank key) (set (o_scopes q)) (o_steps q)"
      unfolding steps_ok_def
    proof (intro ballI impI)
      fix st assume st: "st \<in> set (o_steps q)" "sp_operation st \<noteq> []"
      have "rank (callee_key st) \<le> Max (insert 0 (rank ` callee_key ` set (o_steps q)))" using st(1) by (intro Max_ge) auto
      with s [OF _ st] a pq
      show "0 < sp_version st \<and> rank (callee_key st) < ?rank key \<and> (\<exists>c. op_at j m (sp_operation st) (sp_version st) = Some c \<and> set (o_scopes c) \<subseteq> set (o_scopes q))"
        by simp
    qed
    from steps_ok_cong [OF this, of ?m ?rank] keep show ?thesis using True pq by simp
  next
    case False
    with p have "op_at j m name version = Some p" by (simp add: op_at_def)
    with o v a have "steps_ok j rank m (rank (operationKey name version)) (set (o_scopes p)) (o_steps p)" unfolding ops_ok_def by blast
    from steps_ok_cong [OF this, of ?m ?rank] keep show ?thesis using False by simp
  qed
qed

text \<open>What the operations of a database have to satisfy, and what declaring keeps of it.\<close>

definition operations_ok :: "json \<Rightarrow> view \<Rightarrow> bool" where
  "operations_ok j m \<longleftrightarrow> ops_named j m \<and> (\<exists>rank. ops_ok j rank m)"

lemma declared_next:
  assumes d: "solo d" "holding (db_tree d) m" "operations_ok j m" and r: "DeclareOperation n j caller p d = (Inr q, d')"
    and c: "\<And>b. Marshal (j_operations j) q = Some b \<Longrightarrow> b \<noteq> [] \<and> Unmarshal (j_operations j) b = Some q"
    and l: "limited (db_tree d')" "o_version q < 2 ^ 32"
  shows "\<exists>m'. holding (db_tree d') m' \<and> operations_ok j m' \<and> m (operationKey (o_name q) (o_version q)) = None
    \<and> op_at j m' (o_name q) (o_version q) = Some q
    \<and> (\<forall>k. hasPrefix [spaceOps] k \<or> hasPrefix [spaceClaims] k \<or> hasPrefix [spaceCatalog] k \<longrightarrow> m k \<noteq> None \<longrightarrow> m' k = m k)"
proof -
  from d(3) obtain rank where o: "ops_named j m" "ops_ok j rank m" by (auto simp: operations_ok_def)
  from r obtain latest t1 t2 lsn b d2 where v: "validateOperation n j d p = Inr ()" and t1: "claimFor j caller (o_name p) (db_tree d) = (Inr (), t1)"
    and t2: "latestVersion j (o_name p) t1 = (Inr latest, t2)" and q: "q = p\<lparr>o_version := wrap64 (latest + 1), o_declared_by := declarerOf caller\<rparr>"
    and b: "Marshal (j_operations j) q = Some b" and w: "treePut (operationKey (o_name q) (o_version q)) b t2 = (Inr (), db_tree d2)"
    and d2: "d2 = d\<lparr>db_tree := db_tree d2\<rparr>"
    and rec: "record_store j (blankChange\<lparr>c_kind := ChangeOperation, c_operation := Some q, c_by := declared_by (ascii ''declare'') (cl_actor caller)\<rparr>) d2 = (Inr lsn, d')"
    by (rule DeclareOperation_runs)
  let ?key = "operationKey (o_name q) (o_version q)"
  note z = validated(1) [OF v] and calls = validated(2) [OF v]
  have s2: "solo d2" using d(1) d2 by (metis database.select_convs(9,10) database.surjective database.update_convs(1) solo_def)
  note cr = calmD [OF calm_record s2 rec]
  have l2: "limited (db_tree d2)" by (rule cr(2) [OF l(1)])
  have lt2: "limited t2" by (rule backsD [OF backs_tree(2) w l2])
  have "backs (claimFor j caller (o_name p))" by (rule settled_backs [OF settled_claimFor])
  obtain m1 where m1: "holding t1 m1" "\<And>k. m k \<noteq> None \<or> \<not> hasPrefix [spaceClaims] k \<Longrightarrow> m1 k = m k"
  proof -
    have "t2 = t1" using t2 by (auto simp: latestVersion_def Operation_def bnd_def treeAscend_def decodeOperation_def throw_def ret_def
        split: prod.splits sum.splits option.splits if_splits)
    with doesD [OF does_claimFor d(2) t1] lt2 that show thesis by blast
  qed
  have ops1: "hasPrefix [spaceOps] k \<Longrightarrow> m1 k = m k" for k
    using m1(2) [of k] by (cases k) (auto simp: hasPrefix_def spaceOps_def spaceClaims_def)
  have o1: "ops_named j m1" "ops_ok j rank m1" using o ops_named_cong [of m1 m j] ops_ok_cong(1) [of m1 m j rank] ops1 by auto
  note lv = latestVersion_runs [OF m1(1) o1(1) z t2]
  have ver: "o_version q = latest + 1" "o_name q = o_name p" "o_steps q = o_steps p" "o_action q = o_action p" "o_scopes q = o_scopes p"
  proof -
    have "wrap64 (latest + 1) = latest + 1" using lv(2,3) by (simp add: wrap64_def signed_take_bit_int_eq_self)
    then show "o_version q = latest + 1" using q by simp
  qed (simp_all add: q)
  have fresh: "m1 ?key = None"
  proof (rule ccontr)
    assume "m1 ?key \<noteq> None"
    then have "o_version q \<le> latest" using lv(4) [of "o_version q"] lv(2) ver(1,2) l(2) by simp
    with ver(1) show False by simp
  qed
  have put: "holding (db_tree d2) (m1(?key \<mapsto> b))"
    using doesD [OF does_treePut [where Q = "\<lambda>_ n. n = m1(?key \<mapsto> b)", OF refl] _ w l2] m1(1) lv(1) by blast
  from cr(3) [OF refl l(1) put] obtain m' where m': "holding (db_tree d') m'" "\<And>k. declaration_key k \<Longrightarrow> m' k = (m1(?key \<mapsto> b)) k" by blast
  have ops': "hasPrefix [spaceOps] k \<Longrightarrow> m' k = (m1(?key \<mapsto> b)) k" for k using m'(2) by (simp add: declaration_key_def)
  have kp: "hasPrefix [spaceOps] ?key" by (simp add: operationKey_def operationPrefix_def hasPrefix_def)
  note cb = c [OF b]
  have "ops_ok j (rank(?key := Suc (Max (insert 0 (rank ` callee_key ` set (o_steps q)))))) (m1(?key \<mapsto> b))"
  proof (rule new_version_ok [OF o1(2) fresh refl conjunct2 [OF cb]])
    fix st assume st: "o_action q = ActionBatch" "st \<in> set (o_steps q)" "sp_operation st \<noteq> []"
    with calls ver obtain callee where k: "0 < sp_version st" "among j d (sp_operation st) (sp_version st) = Inr callee" "set (o_scopes callee) \<subseteq> set (o_scopes q)"
      by auto
    from among_at [OF d(2) k(1,2)] ops1 have "op_at j m1 (sp_operation st) (sp_version st) = Some callee" using op_at_cong [of m1 m j] by auto
    with k show "0 < sp_version st \<and> (\<exists>c. op_at j m1 (sp_operation st) (sp_version st) = Some c \<and> set (o_scopes c) \<subseteq> set (o_scopes q))" by blast
  qed
  then have "\<exists>rank. ops_ok j rank m'" using ops_ok_cong(1) [of m' "m1(?key \<mapsto> b)" j] ops' by auto
  moreover have "ops_named j m'"
  proof -
    have "ops_named j (m1(?key \<mapsto> b))" using o1(1) cb lv(2) ver l(2) z unfolding ops_named_def by auto
    then show ?thesis using ops_named_cong [of m' "m1(?key \<mapsto> b)" j] ops' by auto
  qed
  moreover have "op_at j m' (o_name q) (o_version q) = Some q" using ops' [OF kp] cb by (simp add: op_at_def)
  moreover have "m' k = m k" if "hasPrefix [spaceOps] k \<or> hasPrefix [spaceClaims] k \<or> hasPrefix [spaceCatalog] k" "m k \<noteq> None" for k
  proof -
    have "k \<noteq> ?key" using that(2) fresh m1(2) [of k] by auto
    then show ?thesis using m'(2) [of k] m1(2) [of k] that by (simp add: declaration_key_def)
  qed
  ultimately show ?thesis using m'(1) fresh ops1 [OF kp] by (auto simp: operations_ok_def)
qed

end
