(* ===== verification/Store_Promises.thy ===== *)
theory Store_Promises
  imports Store_Versions
begin

text \<open>
  What a database promises about its operations: declaring one never touches another, following the calls
  ends, the scopes checked at the door cover everything behind it, and a namespace stays with its holder.
\<close>

section \<open>Lookups by name\<close>

lemma Operation_stored:
  assumes h: "holding t m" "ops_named j m" and r: "Operation j name version t = (Inr p, t')"
  shows "t' = t" "0 < o_version p" "op_at j m (o_name p) (o_version p) = Some p"
proof -
  have own: "0 < o_version p \<and> op_at j m (o_name p) (o_version p) = Some p" if "hasPrefix [spaceOps] k" "m k = Some b" "Unmarshal (j_operations j) b = Some p" for k b
    using h(2) that unfolding ops_named_def op_at_def by fastforce
  have pre: "hasPrefix [spaceOps] (operationKey name version)" by (simp add: operationKey_def operationPrefix_def hasPrefix_def)
  have "t' = t \<and> 0 < o_version p \<and> op_at j m (o_name p) (o_version p) = Some p"
  proof (cases "0 < version")
    case True
    from Operation_at [OF h(1) True r] obtain b where "m (operationKey name version) = Some b" "Unmarshal (j_operations j) b = Some p" "t' = t"
      by (auto simp: op_at_def split: option.splits)
    with own [OF pre] show ?thesis by blast
  next
    case False
    let ?pre = "operationPrefix name"
    from h(1) obtain F kvs where k: "holds_map t F kvs" "map_of kvs = m" by (auto simp: holding_def)
    have s: "sorted_wrt (<) (map fst kvs)" by (rule holds_map_sorted [OF k(1)])
    define hits where "hits = filter (\<lambda>kv. hasPrefix ?pre (fst kv)) kvs"
    have ops: "hasPrefix [spaceOps] k" if "hasPrefix ?pre k" for k using that by (auto simp: operationPrefix_def hasPrefix_append)
    have kv: "m k = Some b" if "(k, b) \<in> set hits" for k b using that s k(2) by (auto simp: hits_def strict_sorted_iff intro: map_of_is_SomeI)
    have ne: "b \<noteq> [] \<and> hasPrefix ?pre k" if "(k, b) \<in> set hits" for k b
      using kv [OF that] that h(2) ops unfolding ops_named_def hits_def by fastforce
    have "visited (newest_version ?pre) (from_kv (Some ?pre) kvs) None = visited (newest_version ?pre) hits None"
      unfolding hits_def by (rule prefix_walk [OF s]) (simp add: newest_version_def)
    also have "\<dots> = (if hits = [] then None else Some (snd (last hits)))" by (rule visited_newest) (use ne in fastforce)
    finally have a: "treeAscend ?pre (newest_version ?pre) None t = (Inr (if hits = [] then None else Some (snd (last hits))), t)"
      by (simp add: treeAscend_def Ascend_visited [OF k(1)])
    with r False have n: "hits \<noteq> []" "Unmarshal (j_operations j) (snd (last hits)) = Some p" "t' = t"
      by (auto simp: Operation_def decodeOperation_def throw_def ret_def split: option.splits if_splits)
    then have l: "(fst (last hits), snd (last hits)) \<in> set hits" using last_in_set by simp
    from own [OF ops [OF conjunct2 [OF ne [OF l]]] kv [OF l] n(2)] n(3) show ?thesis by simp
  qed
  then show "t' = t" "0 < o_version p" "op_at j m (o_name p) (o_version p) = Some p" by blast+
qed

section \<open>Calls\<close>

text \<open>One operation calls another in a database that holds the map \<open>m\<close>.\<close>

inductive calls :: "json \<Rightarrow> view \<Rightarrow> operation \<Rightarrow> operation \<Rightarrow> bool" for j m where
  call: "o_action p = ActionBatch \<Longrightarrow> st \<in> set (o_steps p) \<Longrightarrow> sp_operation st \<noteq> [] \<Longrightarrow>
     op_at j m (sp_operation st) (sp_version st) = Some q \<Longrightarrow> calls j m p q"

inductive_cases callsE: "calls j m p q"

lemma calls_scopes:
  assumes o: "ops_ok j rank m" and p: "op_at j m name version = Some p" "0 < version" and c: "(calls j m)\<^sup>*\<^sup>* p q"
  shows "set (o_scopes q) \<subseteq> set (o_scopes p) \<and> (\<exists>name' version'. 0 < version' \<and> op_at j m name' version' = Some q)"
  using c
proof (induction rule: rtranclp_induct)
  case base
  then show ?case using p by blast
next
  case (step q q')
  from step.IH obtain name' version' where q: "set (o_scopes q) \<subseteq> set (o_scopes p)" "0 < version'" "op_at j m name' version' = Some q" by blast
  from step.hyps(2) obtain st where st: "o_action q = ActionBatch" "st \<in> set (o_steps q)" "sp_operation st \<noteq> []"
    "op_at j m (sp_operation st) (sp_version st) = Some q'" by (rule callsE)
  from o q(2,3) st(1) have "steps_ok j rank m (rank (operationKey name' version')) (set (o_scopes q)) (o_steps q)" unfolding ops_ok_def by blast
  with st(2-4) have "0 < sp_version st" "set (o_scopes q') \<subseteq> set (o_scopes q)" unfolding steps_ok_def by fastforce+
  with q(1) st(4) show ?case by blast
qed

section \<open>Ranks\<close>

lemma finite_ranks: "holding t m \<Longrightarrow> \<exists>N. \<forall>k. m k \<noteq> None \<longrightarrow> rank k \<le> (N :: nat)"
proof -
  assume "holding t m"
  then obtain kvs where "map_of kvs = m" by (auto simp: holding_def)
  then have "finite (dom m)" by (metis finite_dom_map_of)
  then have "rank k \<le> Max (rank ` dom m)" if "m k \<noteq> None" for k using that by (intro Max_ge) auto
  then show ?thesis by blast
qed

lemma stored_steps:
  assumes "ops_ok j rank m" "\<forall>k. m k \<noteq> None \<longrightarrow> rank k \<le> N" "op_at j m name version = Some p" "0 < version" "o_action p = ActionBatch"
  obtains r where "steps_ok j rank m r (set (o_scopes p)) (o_steps p)" "r \<le> N"
proof (rule that [of "rank (operationKey name version)"])
  show "steps_ok j rank m (rank (operationKey name version)) (set (o_scopes p)) (o_steps p)"
    using assms(1,3-5) unfolding ops_ok_def by blast
  have "m (operationKey name version) \<noteq> None" using assms(3) by (auto simp: op_at_def split: option.splits)
  then show "rank (operationKey name version) \<le> N" using assms(2) by blast
qed

lemma collectionOf_ends: "collectionOf d name \<noteq> Inl OutOfFuel"
  by (simp add: collectionOf_def split: option.splits)

text \<open>A request never runs deeper than the ranks go.\<close>

lemma Invoke_ends:
  assumes d: "solo d" "holding (db_tree d) m" "ops_named j m" "ops_ok j rank m" "\<forall>k. m k \<noteq> None \<longrightarrow> rank k \<le> N" "N \<le> n"
    and r: "Invoke_store n j C caller name version arguments d = (Inr res, d')" and l: "limited (db_tree d')"
  shows "res \<noteq> None"
proof -
  from r obtain p t where p: "Operation j name version (db_tree d) = (Inr p, t)" and f: "perform n j C caller p arguments (d\<lparr>db_tree := t\<rparr>) = (Inr res, d')"
    unfolding Invoke_store_def by (auto simp: bnd_eq_Inr onLeader_Inr throw_def split: sum.splits) (metis old.unit.exhaust sumE)
  note s = Operation_stored [OF d(2,3) p]
  have f: "perform n j C caller p arguments d = (Inr res, d')" using f s(1) by simp
  then obtain vals already d1 where w: "(if Writes (o_action p) \<and> cl_write_id caller \<noteq> [] then onLeader (Wrote j (cl_write_id caller)) else ret None) d = (Inr already, d1)"
    and g: "(case already of Some (lsn, key) \<Rightarrow> ret (Some (repeatedResult p lsn key))
            | None \<Rightarrow>
                bnd (runInline n j C (attributionOf caller p) p vals (newResult (o_name p) (o_version p))
                       \<lparr>bg_most = db_budget d, bg_used = 0, bg_rows = 0\<rparr>) (\<lambda>done.
                case done of
                  None \<Rightarrow> ret None
                | Some (res, room) \<Rightarrow> bnd (if rs_changed res > 0 then Commit_store else ret ()) (\<lambda>_. ret (Some res)))) d1 = (Inr res, d')"
    by (auto simp: perform_def bnd_eq_Inr split: sum.splits)
  have "snd (Wrote j wid t) = t" for wid t by (auto simp: Wrote_def treeGet_def bnd_def ret_def throw_def split: sum.splits option.splits)
  then have d1: "d1 = d" using w by (auto simp: onLeader_Inr split: if_splits) (metis database.surjective database.update_convs(1) snd_conv)+
  show ?thesis
  proof (cases already)
    case None
    with g d1 obtain out d2 where o: "runInline n j C (attributionOf caller p) p vals (newResult (o_name p) (o_version p)) \<lparr>bg_most = db_budget d, bg_used = 0, bg_rows = 0\<rparr> d = (Inr out, d2)"
      and h: "(case out of None \<Rightarrow> ret None | Some (res, room) \<Rightarrow> bnd (if rs_changed res > 0 then Commit_store else ret ()) (\<lambda>_. ret (Some res))) d2 = (Inr res, d')"
      by (auto simp: bnd_eq_Inr)
    show ?thesis
    proof
      assume "res = None"
      with h have n: "out = None" "d2 = d'" by (auto simp: bnd_eq_Inr split: option.splits)
      then have a: "o_action p = ActionBatch" using o by (auto simp: runInline_def bnd_eq_Inr split: if_splits)
      with o n obtain d3 where b: "runBatch n j C (attributionOf caller p) p vals (newResult (o_name p) (o_version p)) \<lparr>bg_most = db_budget d, bg_used = 0, bg_rows = 0\<rparr> d = (Inr None, d')"
        by (auto simp: runInline_def bnd_eq_Inr Collection_def split: option.splits)
      from stored_steps [OF d(4,5) s(3,2) a] obtain r where k: "steps_ok j rank m r (set (o_scopes p)) (o_steps p)" "r \<le> N" .
      have "r \<le> n" using k(2) d(6) by simp
      from b have "runSteps n j C (attributionOf caller p) (o_steps p) vals fmempty (newResult (o_name p) (o_version p)) \<lparr>bg_most = db_budget d, bg_used = 0, bg_rows = 0\<rparr> d
          = (Inr None, d')"
        by (auto simp: runBatch_def split: if_splits prod.splits sum.splits)
      from runSteps_ends [OF d(4,1,2) k(1) \<open>r \<le> n\<close> this l] show False by simp
    qed
  qed (use g in \<open>auto split: prod.splits\<close>)
qed

lemma ceiling_of_stored:
  assumes d: "holding (db_tree d) m" "ops_ok j rank m" "\<forall>k. m k \<noteq> None \<longrightarrow> rank k \<le> N" "N \<le> n" and p: "0 < version" "op_at j m name version = Some p"
  shows "ceilingOf n (among j d) p {} fmempty \<noteq> Inl OutOfFuel" "keyTypeOf n (among j d) (collectionOf d) p \<noteq> Inl OutOfFuel"
proof -
  note f = among_at [OF d(1)] among_ends
  have s: "\<exists>r. steps_ok j rank m r (set (o_scopes p)) (o_steps p) \<and> r \<le> n" if "o_action p = ActionBatch"
  proof -
    from stored_steps [OF d(2,3) p(2,1) that] obtain r where "steps_ok j rank m r (set (o_scopes p)) (o_steps p)" "r \<le> N" .
    with d(4) show ?thesis by (intro exI [of _ r]) simp
  qed
  show "ceilingOf n (among j d) p {} fmempty \<noteq> Inl OutOfFuel"
  proof (cases "o_action p = ActionBatch")
    case True
    with s obtain r where "steps_ok j rank m r (set (o_scopes p)) (o_steps p)" "r \<le> n" by blast
    from ceiling_ends [OF d(2) f this] show ?thesis using True by (auto simp: ceilingOf.simps split: sum.splits)
  qed (simp add: ceilingOf.simps)
  show "keyTypeOf n (among j d) (collectionOf d) p \<noteq> Inl OutOfFuel"
  proof (cases "o_action p = ActionBatch")
    case True
    with s obtain r where r: "steps_ok j rank m r (set (o_scopes p)) (o_steps p)" "r \<le> n" by blast
    show ?thesis
      by (rule keyType_ends [where find_op = "among j d" and coll = "collectionOf d" and r = r and S = "set (o_scopes p)", OF d(2)])
        (use among_at [OF d(1)] among_ends collectionOf_ends r in blast)+
  next
    case False
    have "keyTypeIn (collectionOf d) c \<noteq> Inl OutOfFuel" for c using collectionOf_ends by (auto simp: keyTypeIn_def split: sum.splits)
    then show ?thesis using False by (subst keyTypeOf.simps) simp
  qed
qed

section \<open>The promises\<close>



text \<open>
  C18. The scopes checked at the door cover everything behind it: a caller that lacks a scope of any operation
  the requested one calls, however deep, is refused, and the database is left as it was.
\<close>

theorem scopes_fail_closed:
  assumes "holding (db_tree d) m" "operations_ok j m" "Operation j name version (db_tree d) = (Inr p, t)"
    and "(calls j m)\<^sup>*\<^sup>* p q" "\<not> set (o_scopes q) \<subseteq> set (cl_scopes caller)"
  shows "Invoke_store n j C caller name version arguments d = (Inl ErrNotAllowed, d)"
proof -
  from assms(2) obtain rank where o: "ops_named j m" "ops_ok j rank m" by (auto simp: operations_ok_def)
  note s = Operation_stored [OF assms(1) o(1) assms(3)]
  have "\<not> set (o_scopes p) \<subseteq> set (cl_scopes caller)" using calls_scopes [OF o(2) s(3,2) assms(4)] assms(5) by blast
  then show ?thesis using assms(3) s(1) by (simp add: Invoke_store_def bnd_def onLeader_def allowed_def refuse_def throw_def)
qed

text \<open>
  C25. A namespace stays with whoever holds it: a declaration under it by anyone else is refused and leaves the
  database as it was.
\<close>

theorem namespace_stays:
  assumes "holding (db_tree d) m" "SplitOperationName (o_name p) = Inr (namespace, local)" "namespace \<noteq> []"
    and "m (claimKey namespace) = Some b" "Unmarshal (j_claims j) b = Some owner" "\<not> same_claim owner (holder namespace caller)"
  shows "\<exists>e. DeclareOperation n j caller p d = (Inl e, d)"
proof (cases "validateOperation n j d p")
  case (Inr u)
  have "treeGet (claimKey namespace) (db_tree d) = (Inr (Some b), db_tree d) \<or> (\<exists>e. treeGet (claimKey namespace) (db_tree d) = (Inl e, db_tree d))"
    using assms(1,4) tree.fetch_spec tree_result(3) by (fastforce simp: treeGet_def holding_def split: sum.splits)
  then have "\<exists>e. claimFor j caller (o_name p) (db_tree d) = (Inl e, db_tree d)"
    using assms(2,3,5,6) by (auto simp: claimFor_def NamespaceClaim_def throw_def ret_def)
  then show ?thesis using Inr by (auto simp: DeclareOperation_def onLeader_def)
qed (simp add: DeclareOperation_def)

section \<open>An example\<close>

text \<open>A stored operation that reads one document, and a batch that calls it.\<close>

definition ex_blank :: operation where
  "ex_blank = \<lparr>o_name = [], o_collection = [99], o_action = [], o_input = [], o_key = None, o_rollup = [], o_index = [], o_from = None, o_to = None,
     o_direction = None, o_document = fmempty, o_set = fmempty, o_steps = [], o_field = [], o_decode = [], o_projection = [], o_limit = 0,
     o_scopes = [[114]], o_version = 1, o_declared_by = None\<rparr>"

definition ex_get :: operation where
  "ex_get = ex_blank\<lparr>o_name := [103], o_action := ActionGet,
     o_key := Some \<lparr>tm_arg = [], tm_value = GKey (VString [97]), tm_constant = True, tm_step = [], tm_field = []\<rparr>\<rparr>"

definition ex_call :: step where
  "ex_call = \<lparr>sp_name = [], sp_action = [], sp_collection = [], sp_operation = [103], sp_version = 1, sp_with = fmempty, sp_key = None,
     sp_document = fmempty, sp_set = fmempty, sp_exists = None, sp_require = []\<rparr>"

definition ex_batch :: operation where
  "ex_batch = ex_blank\<lparr>o_name := [98], o_action := ActionBatch, o_steps := [ex_call], o_limit := 1\<rparr>"

lemma ex_get_not_batch [simp]: "ex_get \<noteq> ex_batch"
proof
  assume "ex_get = ex_batch"
  then have "o_name ex_get = o_name ex_batch" by simp
  then show False by (simp add: ex_get_def ex_batch_def)
qed

definition ex_ops :: json where
  "ex_ops = ex_json\<lparr>
     j_operations := \<lparr>Marshal = (\<lambda>p. if p = ex_get then Some [7] else if p = ex_batch then Some [8] else None),
                      Unmarshal = (\<lambda>b. if b = [7] then Some ex_get else if b = [8] then Some ex_batch else None)\<rparr>,
     j_changes := \<lparr>Marshal = (\<lambda>_. Some [11]), Unmarshal = (\<lambda>_. None)\<rparr>,
     j_claims := \<lparr>Marshal = (\<lambda>_. None), Unmarshal = (\<lambda>_. Some \<lparr>cm_namespace = [110], cm_kind = ClaimedByKey, cm_identity = [1]\<rparr>)\<rparr>\<rparr>"

abbreviation "ex_get_key \<equiv> [4, 103, 0, 0, 0, 0, 1] :: bytes"
abbreviation "ex_batch_key \<equiv> [4, 98, 0, 0, 0, 0, 1] :: bytes"

lemma ex_keys [simp]: "operationKey [103] 1 = ex_get_key" "operationKey [98] 1 = ex_batch_key" "operationPrefix [98] = [4, 98, 0]"
  by (simp_all add: operationKey_def operationPrefix_def spaceOps_def be_numeral)

lemma ex_ops_ok: "operations_ok ex_ops [ex_get_key \<mapsto> [7]]"
proof -
  have "ops_named ex_ops [ex_get_key \<mapsto> [7]]"
    by (auto simp: ops_named_def ex_ops_def ex_get_def ex_blank_def split: if_splits)
  moreover have "ops_ok ex_ops (\<lambda>_. 0) [ex_get_key \<mapsto> [7]]"
    by (auto simp: ops_ok_def op_at_def ex_ops_def ex_get_def ex_blank_def action_defs split: if_splits)
  ultimately show ?thesis by (auto simp: operations_ok_def)
qed

lemma ex_ops_tree: obtains t where "roomy t [ex_get_key \<mapsto> [7]] 9"
proof -
  obtain t where t: "roomy t Map.empty 2" by (rule roomy_empty)
  show thesis by (rule roomy_put [OF t, of ex_get_key "[7]"]) (use that in \<open>simp_all add: sizes layout\<close>)
qed

lemma latest_none:
  assumes "roomy t m n" "\<And>k. hasPrefix (operationPrefix name) k \<Longrightarrow> m k = None"
  shows "latestVersion j name t = (Inr 0, t)"
proof -
  let ?pre = "operationPrefix name"
  from roomy_ascend [OF assms(1), of ?pre "newest_version ?pre" None] obtain kvs where k: "sorted_wrt (<) (map fst kvs)" "map_of kvs = m"
    "treeAscend ?pre (newest_version ?pre) None t = (Inr (visited (newest_version ?pre) (from_kv (Some ?pre) kvs) None), t)" by blast
  have "filter (\<lambda>kv. hasPrefix ?pre (fst kv)) kvs = []"
    using assms(2) k(2) by (auto simp: filter_empty_conv) (metis map_of_eq_None_iff image_eqI fst_conv)
  then have "visited (newest_version ?pre) (from_kv (Some ?pre) kvs) None = None"
    using prefix_walk [OF k(1), of ?pre "newest_version ?pre" None] by (simp add: newest_version_def)
  with k(3) show ?thesis by (simp add: latestVersion_def Operation_def throw_def)
qed

lemma ex_declares:
  assumes "roomy t [ex_get_key \<mapsto> [7]] 9"
  obtains d' where "DeclareOperation 1 ex_ops nobody (ex_batch\<lparr>o_version := 0\<rparr>) (ex_db t) = (Inr ex_batch, d')" "limited (db_tree d')"
proof -
  have g: "Operation ex_ops [103] 1 t = (Inr ex_get, t)"
    using roomy_get [OF assms, of ex_get_key] by (simp add: Operation_def decodeOperation_def ex_ops_def sizes layout)
  have a: "among ex_ops (ex_db t) [103] 1 = Inr ex_get" using g by (simp add: among_def ex_db_def)
  have c: "collectionOf (ex_db t) [99] = Inr ex_plain" by (simp add: collectionOf_def ex_db_def specOf_def)
  have "validateComposedStep 1 ex_ops (ex_db t) (ex_batch\<lparr>o_version := 0\<rparr>) fmempty fmempty ex_call fmempty = Inr (\<lparr>of_key_type = [], of_ceiling = 1\<rparr>, fmempty)"
    using a by (simp add: validateComposedStep_def ex_call_def ceilingOf.simps keyTypeOf.simps ex_get_def ex_batch_def ex_blank_def checkPassed_def refuse_def action_defs)
  then have "validateBatch 1 ex_ops (ex_db t) fmempty (ex_batch\<lparr>o_version := 0\<rparr>) = Inr ()"
    by (simp add: validateBatch_def validateStep_def ex_batch_def ex_blank_def ex_call_def refuse_def wrap64_def)
  then have v: "validateOperation 1 ex_ops (ex_db t) (ex_batch\<lparr>o_version := 0\<rparr>) = Inr ()"
    using c by (simp add: validateOperation_def validateAction_def usableName_def SplitOperationName_def NamespaceSeparator_def refuse_def ex_batch_def ex_blank_def action_defs)
  have f: "claimFor ex_ops nobody [98] t = (Inr (), t)" by (simp add: claimFor_def SplitOperationName_def NamespaceSeparator_def)
  have l: "latestVersion ex_ops [98] t = (Inr 0, t)" by (rule latest_none [OF assms]) (auto simp: hasPrefix_def)
  have q: "ex_batch\<lparr>o_version := 1, o_declared_by := declarerOf nobody\<rparr> = ex_batch"
    by (simp add: ex_batch_def ex_blank_def declarerOf_def nobody_def)
  obtain t1 where t1: "treePut ex_batch_key [8] t = (Inr (), t1)" "roomy t1 [ex_get_key \<mapsto> [7], ex_batch_key \<mapsto> [8]] 30"
    by (rule roomy_put [OF assms, of ex_batch_key "[8]"]) (simp_all add: sizes layout)
  have "operationKey (o_name ex_batch) (o_version ex_batch) = ex_batch_key" by (simp add: ex_batch_def ex_blank_def)
  then have w: "writeOperation ex_ops ex_batch t = (Inr (), t1)"
    using t1(1) ex_get_not_batch [symmetric] by (simp add: writeOperation_def ex_ops_def del: ex_get_not_batch)
  let ?c = "blankChange\<lparr>c_kind := ChangeOperation, c_operation := Some ex_batch, c_by := declared_by (ascii ''declare'') (cl_actor nobody)\<rparr>"
  have m: "[ex_get_key \<mapsto> [7], ex_batch_key \<mapsto> [8]] nextLSN = None" by (simp add: nextLSN_def space_defs)
  let ?e = "?c\<lparr>c_lsn := 1, c_at := 5\<rparr>"
  have e: "?e = ?c\<lparr>c_lsn := 1, c_at := if c_at ?c = 0 then 5 else c_at ?c\<rparr>" by (simp add: blankChange_def)
  have i: "a_write_id (c_by ?c) = []" by (simp add: blankChange_def declared_by_def noOne_def)
  have b: "Marshal (j_changes ex_ops) ?e = Some [11]" by (simp add: ex_ops_def)
  have s: "(3 :: nat) * 30 + 3 < 2 ^ 60" "length [11 :: byte] \<le> MaxInline" by (simp_all add: sizes)
  obtain t2 m2 where t2: "record_change ex_ops 0 5 ?c t1 = (Inr 1, t2)" "roomy t2 m2 (3 * (3 * 30 + 3) + 3)"
    using roomy_log(1) [OF t1(2) s(1) m b s(2) e i] by (elim exE conjE) (rule that)
  have r: "record_store ex_ops ?c (ex_db t1) = (Inr 1, (ex_db t2)\<lparr>db_reads := 1\<rparr>)"
    using t2(1) by (simp add: record_store_def onLeader_def ex_db_def blankChange_def)
  have n: "o_name ex_batch = [98]" by (simp add: ex_batch_def ex_blank_def)
  have "DeclareOperation 1 ex_ops nobody (ex_batch\<lparr>o_version := 0\<rparr>) (ex_db t) = (Inr ex_batch, (ex_db t2)\<lparr>db_reads := 1\<rparr>)"
    using v f l w r q by (simp add: DeclareOperation_def ex_leads(1) n wrap64_def Let_def)
  moreover have "limited (db_tree ((ex_db t2)\<lparr>db_reads := 1\<rparr>))" using roomy_limit [OF t2(2)] by (simp add: limited_def ex_db_def)
  ultimately show thesis by (rule that)
qed

lemma ex_ready: "roomy t m n \<Longrightarrow> solo (ex_db t) \<and> holding (db_tree (ex_db t)) m"
  by (simp add: solo_def ex_db_def roomy_def)



lemma ex_calls: "calls ex_ops [ex_get_key \<mapsto> [7], ex_batch_key \<mapsto> [8]] ex_batch ex_get"
  by (rule call [where st = ex_call]) (simp_all add: ex_batch_def ex_blank_def ex_call_def op_at_def ex_ops_def)

theorem scopes_fail_closed_witness:
  "\<exists>t. \<forall>n C. Invoke_store n ex_ops C nobody [98] 1 fmempty (ex_db t) = (Inl ErrNotAllowed, ex_db t)"
proof -
  let ?m = "[ex_get_key \<mapsto> [7], ex_batch_key \<mapsto> [8]]"
  obtain t where t: "roomy t [ex_get_key \<mapsto> [7]] 9" by (rule ex_ops_tree)
  obtain t1 where t1: "treePut ex_batch_key [8] t = (Inr (), t1)" "roomy t1 ?m 30"
    by (rule roomy_put [OF t, of ex_batch_key "[8]"]) (simp_all add: sizes layout)
  have "Operation ex_ops [98] 1 t1 = (Inr ex_batch, t1)"
    using roomy_get [OF t1(2), of ex_batch_key] by (simp add: Operation_def decodeOperation_def ex_ops_def sizes layout)
  then have o: "Operation ex_ops [98] 1 (db_tree (ex_db t1)) = (Inr ex_batch, t1)" by (simp add: ex_db_def)
  have "ops_named ex_ops ?m" by (auto simp: ops_named_def ex_ops_def ex_get_def ex_batch_def ex_blank_def split: if_splits)
  moreover have "ops_ok ex_ops ((\<lambda>_. 0)(ex_batch_key := 1)) ?m"
    by (auto simp: ops_ok_def op_at_def steps_ok_def callee_key_def ex_ops_def ex_get_def ex_batch_def ex_call_def ex_blank_def action_defs split: if_splits)
  ultimately have k: "operations_ok ex_ops ?m" by (auto simp: operations_ok_def)
  have s: "\<not> set (o_scopes ex_get) \<subseteq> set (cl_scopes nobody)" by (simp add: ex_get_def ex_blank_def nobody_def)
  show ?thesis
    using scopes_fail_closed [OF conjunct2 [OF ex_ready [OF t1(2)]] k o r_into_rtranclp [of "calls ex_ops ?m", OF ex_calls] s] by blast
qed

theorem namespace_stays_witness:
  "\<exists>t e. DeclareOperation 1 ex_ops nobody (ex_get\<lparr>o_name := [110, 58, 103]\<rparr>) (ex_db t) = (Inl e, ex_db t)"
proof -
  obtain t where t: "roomy t Map.empty 2" by (rule roomy_empty)
  obtain t1 where t1: "treePut (claimKey [110]) [1] t = (Inr (), t1)" "roomy t1 [claimKey [110] \<mapsto> [1]] 9"
    by (rule roomy_put [OF t, of "claimKey [110]" "[1]"]) (simp_all add: claimKey_def sizes layout)
  have s: "SplitOperationName (o_name (ex_get\<lparr>o_name := [110, 58, 103]\<rparr>)) = Inr ([110], [103])"
    by (simp add: SplitOperationName_def NamespaceSeparator_def usableNamespaceByte_def)
  have c: "Unmarshal (j_claims ex_ops) [1] = Some \<lparr>cm_namespace = [110], cm_kind = ClaimedByKey, cm_identity = [1]\<rparr>" by (simp add: ex_ops_def)
  have n: "\<not> same_claim \<lparr>cm_namespace = [110], cm_kind = ClaimedByKey, cm_identity = [1]\<rparr> (holder [110] nobody)"
    by (simp add: same_claim_def holder_def nobody_def ClaimedByKey_def ClaimedByActor_def)
  have "\<exists>e. DeclareOperation 1 ex_ops nobody (ex_get\<lparr>o_name := [110, 58, 103]\<rparr>) (ex_db t1) = (Inl e, ex_db t1)"
    by (rule namespace_stays [OF conjunct2 [OF ex_ready [OF t1(2)]] s _ _ c n]) simp_all
  then show ?thesis by blast
qed

end
