(* ===== verification/Store_Answers.thy ===== *)
theory Store_Answers
  imports Store_Promises
begin

text \<open>
  How large an answer may get: the budget its rows are charged to, shared by a batch and everything it
  calls, and the number of rows that the declarations allow.
\<close>

section \<open>The budget\<close>

definition row_cost :: "json \<Rightarrow> doc \<Rightarrow> int" where
  "row_cost j row = (case Marshal (j_docs j) row of None \<Rightarrow> 0 | Some b \<Rightarrow> int (length b) + 1)"

text \<open>The rows that were charged to a budget on its way from one state to another.\<close>

definition charged :: "json \<Rightarrow> budget \<Rightarrow> doc list \<Rightarrow> budget \<Rightarrow> bool" where
  "charged j room rows room' \<longleftrightarrow> bg_most room' = bg_most room
     \<and> (0 < bg_most room \<longrightarrow> bg_used room' = bg_used room + sum_list (map (row_cost j) rows)
          \<and> (bg_used room \<le> bg_most room \<longrightarrow> bg_used room' \<le> bg_most room)
          \<and> (\<forall>row \<in> set rows. Marshal (j_docs j) row \<noteq> None))"

lemma charged_none [simp]: "charged j room [] room"
  by (simp add: charged_def)

lemma charged_append: "charged j room xs room1 \<Longrightarrow> charged j room1 ys room2 \<Longrightarrow> charged j room (xs @ ys) room2"
  by (auto simp: charged_def)

lemma charged_spend: "spend j row room = Inr room' \<Longrightarrow> charged j room [row] room'"
  by (auto simp: spend_def charged_def row_cost_def Let_def split: if_splits option.splits)

text \<open>The rows a visitor collects are charged one by one.\<close>

definition pays :: "json \<Rightarrow> budget \<Rightarrow> reading \<Rightarrow> bool" where
  "pays j room st \<longleftrightarrow> charged j room (rs_rows (fst st)) (fst (snd st))"

lemma pays_addRow: "pays j room st \<Longrightarrow> pays j room (snd (addRow j p row st))"
  by (auto simp: pays_def addRow_def split: sum.splits prod.splits intro: charged_append charged_spend)

lemma pays_visitors:
  assumes "pays j room st"
  shows "pays j room (snd (shows_total j p r st))" "pays j room (snd (shows_row j p key document st))"
  using assms pays_addRow [OF assms] by (auto simp: shows_total_def shows_row_def pays_def Let_def)

section \<open>The number of rows\<close>

text \<open>What a visitor may collect when the operation declares a limit.\<close>

definition inLimit :: "operation \<Rightarrow> reading \<Rightarrow> bool" where
  "inLimit p st \<longleftrightarrow> int (length (rs_rows (fst st))) \<le> o_limit p \<and> (o_action p = ActionCount \<longrightarrow> rs_rows (fst st) = [])"

lemma inLimit_addRow: "inLimit p st \<Longrightarrow> \<not> full p (fst st) \<Longrightarrow> o_action p \<noteq> ActionCount \<Longrightarrow> inLimit p (snd (addRow j p row st))"
  by (auto simp: inLimit_def full_def addRow_def split: sum.splits prod.splits)

lemma inLimit_visitors:
  assumes "inLimit p st"
  shows "o_action p \<noteq> ActionCount \<Longrightarrow> inLimit p (snd (shows_total j p r st))" "inLimit p (snd (shows_row j p key document st))"
  using assms inLimit_addRow [OF assms] by (auto simp: shows_total_def shows_row_def inLimit_def Let_def)

section \<open>Readings\<close>

text \<open>What every visitor of a reading keeps holds of its answer.\<close>

definition keeps :: "('s \<Rightarrow> bool) \<Rightarrow> ('s \<Rightarrow> bool \<times> 's) \<Rightarrow> bool" where
  "keeps Q f \<longleftrightarrow> (\<forall>s. Q s \<longrightarrow> Q (snd (f s)))"

lemma keepsD: "keeps Q f \<Longrightarrow> Q s \<Longrightarrow> Q (snd (f s))"
  by (simp add: keeps_def)

lemma keeps_walk_store:
  assumes v: "\<And>k v. keeps (\<lambda>sd. Q (fst sd)) (visit k v)" and s: "Q s" and w: "walk_store C c rng pre fs visit s d = (Inr s', d')"
  shows "Q s'"
proof -
  have q: "Q (fst (snd (walk ts rng pre fs visit (s, d1))))" for ts d1
    by (rule walk_stays [where Q = "\<lambda>sd. Q (fst sd)"]) (use keepsD [OF v] s in auto)
  obtain bs where "stretch rng pre fs = Inr bs" using w by (auto simp: walk_store_def split: sum.splits)
  with w have "bnd (across C c) (\<lambda>places d. case walk (List.map_filter (treeAt d) places) rng pre fs visit (s, d) of
      (Inl e, _, d) \<Rightarrow> (Inl e, d) | (Inr _, s, d) \<Rightarrow> (Inr s, d)) d = (Inr s', d')" by (simp add: walk_store_def)
  then obtain places d1 where "(case walk (List.map_filter (treeAt d1) places) rng pre fs visit (s, d1) of
      (Inl e, _, d) \<Rightarrow> (Inl e, d) | (Inr _, s, d) \<Rightarrow> (Inr s, d)) = (Inr s', d')" by (rule bnd_InrE)
  then show ?thesis using q [of "List.map_filter (treeAt d1) places" d1] by (auto split: prod.splits sum.splits)
qed

lemma keeps_apart: "keeps Q (visit a b) \<Longrightarrow> keeps (\<lambda>sd. Q (fst sd)) (apart visit a b)"
  by (auto simp: keeps_def apart_def split: prod.splits)

lemma keeps_shows_doc: "(\<And>key document. keeps Q (visit key document)) \<Longrightarrow> keeps Q (shows_doc j pre visit k v)"
  by (auto simp: keeps_def shows_doc_def split: sum.splits option.splits prod.splits)

lemma keeps_shows_entry: "(\<And>x. keeps Q (visit x)) \<Longrightarrow> keeps Q (shows_entry j pre fs visit k v)"
  by (auto simp: keeps_def shows_entry_def split: sum.splits option.splits prod.splits)

lemma keeps_shows_totals: "(\<And>r. keeps Q (visit r)) \<Longrightarrow> keeps Q (shows_totals j pre fs upper visit k v)"
  by (auto simp: keeps_def shows_totals_def split: sum.splits option.splits prod.splits)

lemma keeps_shows_found:
  assumes "\<And>key document. keeps Q (shows_row j p key document)"
  shows "keeps (\<lambda>sd. Q (fst sd)) (shows_found j C c p x)"
proof -
  have "Q (fst (snd (shows_found j C c p x (s, d))))" if q: "Q s" for s d
  proof -
    obtain r d1 where g: "Get_doc j C c (GKey (fo_key x)) d = (r, d1)" by (meson surj_pair)
    show ?thesis
    proof (cases "\<exists>document. r = Inr (Some document)")
      case True
      then obtain document where "r = Inr (Some document)" by blast
      moreover have "Q (snd (shows_row j p (fo_key x) document s))" by (rule keepsD [OF assms q])
      ultimately show ?thesis using g by (cases "shows_row j p (fo_key x) document s") (simp add: shows_found_def)
    qed (use g q in \<open>auto simp: shows_found_def split: sum.splits option.splits\<close>)
  qed
  then show ?thesis by (auto simp: keeps_def)
qed

lemma keeps_answered: "answered st d = (Inr (res, room), d') \<Longrightarrow> st = (res, room, None)"
  by (auto simp: answered_def throw_def ret_def split: option.splits prod.splits)

lemma keeps_run:
  assumes v: "\<And>key document. keeps Q (shows_row j p key document)" and s: "Q (res, room, None)"
    and r: "run j C c p rng res room d = (Inr (res', room'), d')"
  shows "Q (res', room', None)"
proof -
  from r obtain st d1 where st: "(if o_index p = ClusteredIndex \<or> o_index p = [] then walkRange j C c rng (shows_row j p) (res, room, None)
      else Scan j C c (o_index p) rng (shows_found j C c p) (res, room, None)) d = (Inr st, d1)" "answered st d1 = (Inr (res', room'), d')"
    unfolding run_def by (rule bnd_InrE)
  have "Q st"
  proof (cases "o_index p = ClusteredIndex \<or> o_index p = []")
    case True
    with st(1) have w: "walk_store C c rng (documents (specOf c d)) (clusteredFields (specOf c d))
        (apart (shows_doc j (documents (specOf c d)) (shows_row j p))) (res, room, None) d = (Inr st, d1)" by (auto simp: walkRange_def Let_def)
    have "keeps (\<lambda>sd. Q (fst sd)) (apart (shows_doc j pre (shows_row j p)) k v)" for pre k v
      by (intro keeps_apart keeps_shows_doc v)
    then show ?thesis by (rule keeps_walk_store [where Q = Q, OF _ s w])
  next
    case False
    with st(1) obtain x where w: "walk_store C c rng (entries (specOf c d) x) (i_fields x)
        (shows_entry j (entries (specOf c d) x) (i_fields x) (shows_found j C c p)) (res, room, None) d = (Inr st, d1)"
      by (auto simp: Scan_def Let_def split: option.splits)
    have "keeps (\<lambda>sd. Q (fst sd)) (shows_entry j pre fs (shows_found j C c p) k v)" for pre fs k v
      by (intro keeps_shows_entry keeps_shows_found v)
    then show ?thesis by (rule keeps_walk_store [where Q = Q, OF _ s w])
  qed
  then show ?thesis using keeps_answered [OF st(2)] by simp
qed

lemma keeps_visitRows: "(\<And>r. keeps Q (visit r)) \<Longrightarrow> Q s \<Longrightarrow> Q (visitRows visit rows s)"
proof (induction rows arbitrary: s)
  case (Cons r rows)
  obtain more s' where v: "visit r s = (more, s')" by (meson surj_pair)
  then have "Q s'" using keepsD [OF Cons.prems(1), of s r] Cons.prems(2) by simp
  then show ?case using Cons.IH [OF Cons.prems(1)] v by simp
qed simp

lemma keeps_totalsIn:
  assumes "\<And>r. keeps Q (visit r)" "Q s" "totalsIn j pre fs lower upper visit t s = (x, s')"
  shows "Q s'"
proof -
  have "Q (snd (Ascend t lower (shows_totals j pre fs upper visit) s))"
    by (rule Ascend_stays [OF keepsD [OF keeps_shows_totals [OF assms(1)]] assms(2)])
  then show ?thesis using assms(3) by (auto simp: totalsIn_def split: prod.splits sum.splits)
qed

lemma keeps_runTotals:
  assumes v: "\<And>r. keeps Q (shows_total j p r)" and s: "Q (res, room, None)"
    and r: "runTotals j C c p rng res room d = (Inr (res', room'), d')"
  shows "Q (res', room', None)"
proof -
  from r obtain st d1 where st: "Totals_rows j C c (o_rollup p) rng (shows_total j p) (res, room, None) d = (Inr st, d1)" "answered st d1 = (Inr (res', room'), d')"
    unfolding runTotals_def by (rule bnd_InrE)
  let ?s = "(res, room, None :: store_error option)"
  have shown: "Q st" if "(case ts of
        [t] \<Rightarrow> (case totalsIn j pre fs lower upper (shows_total j p) t ?s of (Inl e, _) \<Rightarrow> (Inl e, d2) | (Inr _, s) \<Rightarrow> (Inr s, d2))
      | ts \<Rightarrow>
          (case mergeTrees j pre fs lower upper ts ([], fmempty) of
             Inl e \<Rightarrow> (Inl e, d2)
           | Inr (keyed, added) \<Rightarrow> (Inr (visitRows (shows_total j p) (List.map_filter (fmlookup added) (sort keyed)) ?s), d2))) = (Inr st, d1)"
    for ts pre fs lower upper d2
  proof (cases "\<exists>t. ts = [t]")
    case True
    then obtain t where "ts = [t]" by blast
    with that obtain x where "totalsIn j pre fs lower upper (shows_total j p) t ?s = (x, st)" by (auto split: prod.splits sum.splits)
    from keeps_totalsIn [OF v s this] show ?thesis .
  next
    case False
    with that have "\<exists>rows. st = visitRows (shows_total j p) rows ?s"
    proof (cases ts rule: remdups_adj.cases)
      case 1
      with that have "st = visitRows (shows_total j p) [] ?s" by simp
      then show ?thesis by blast
    qed (auto split: sum.splits prod.splits)
    then obtain rows where "st = visitRows (shows_total j p) rows ?s" by (elim exE)
    then show ?thesis by (simp only: keeps_visitRows [where Q = Q, OF v s])
  qed
  obtain r where r: "rollup_named (specOf c d) (o_rollup p) = Some r" using st(1) by (cases "rollup_named (specOf c d) (o_rollup p)") (auto simp: Totals_rows_def)
  moreover have f: "Direction rng = Forward" using st(1) r by (cases "Direction rng = Forward") (auto simp: Totals_rows_def)
  ultimately obtain lower upper where "stretch rng (rollups (specOf c d) r) (r_group r) = Inr (lower, upper)"
    using st(1) by (cases "stretch rng (rollups (specOf c d) r) (r_group r)") (auto simp: Totals_rows_def Let_def)
  with st(1) r f have "Q st"
    by (simp add: Totals_rows_def Let_def) (erule bnd_InrE, erule shown)
  then show ?thesis using keeps_answered [OF st(2)] by simp
qed

section \<open>Actions\<close>

lemma removeKeys_rows: "removeKeys j C c w ks res d = (Inr res', d') \<Longrightarrow> rs_rows res' = rs_rows res"
proof (induction ks arbitrary: res d)
  case (Cons k ks)
  then obtain removed d1 where "removeKeys j C c w ks (if removed then res\<lparr>rs_changed := rs_changed res + 1, rs_key := GKey k\<rparr> else res) d1 = (Inr res', d')"
    by (auto simp: bnd_eq_Inr)
  from Cons.IH [OF this] show ?case by (simp split: if_splits)
qed (simp add: ret_def)

text \<open>The answer of a single action: charged to its budget, and no longer than the action may be.\<close>

definition plain_rows :: "operation \<Rightarrow> int" where
  "plain_rows p = (if o_action p \<in> {ActionScan, ActionTotals, ActionDeleteRange} then o_limit p else 1)"

lemma runPlain_answer:
  assumes r: "runPlain j C w p vals res room d = (Inr (res', room'), d')" and e: "rs_rows res = []"
  shows "charged j room (rs_rows res') room'
    \<and> ((o_action p \<in> {ActionScan, ActionTotals, ActionDeleteRange, ActionCount} \<longrightarrow> 0 < o_limit p) \<longrightarrow> int (length (rs_rows res')) \<le> plain_rows p)"
proof -
  from r obtain c d1 where b: "(if o_action p = ActionGet then runGet j C c p vals res room
       else if o_action p = ActionTotals then bnd (lift_check (bounds p vals)) (\<lambda>rng. runTotals j C c p rng res room)
       else if o_action p \<in> {ActionScan, ActionCount} then bnd (lift_check (bounds p vals)) (\<lambda>rng. run j C c p rng res room)
       else if o_action p = ActionHashRange then bnd (lift_check (bounds p vals)) (\<lambda>rng. keeping room (hashRange j C c p rng res))
       else if o_action p = ActionDeleteRange then bnd (lift_check (bounds p vals)) (\<lambda>rng. keeping room (runDeleteRange j C w c p rng res))
       else if o_action p \<in> {ActionInsert, ActionPut} then keeping room (runPut j C w c p vals res)
       else if o_action p = ActionUpdate then keeping room (runUpdate j C w c p vals res)
       else if o_action p = ActionDelete then keeping room (runDelete j C w c p vals res)
       else throw ErrDeclaration) d1 = (Inr (res', room'), d')"
    unfolding runPlain_def by (rule bnd_InrE)
  have p: "pays j room (res, room, None)" "0 < o_limit p \<Longrightarrow> inLimit p (res, room, None)" using e by (simp_all add: pays_def inLimit_def)
  have k: "rs_rows res' = [] \<and> room' = room" if "keeping room f d2 = (Inr (res', room'), d')" "\<And>x d d'. f d = (Inr x, d') \<Longrightarrow> rs_rows x = rs_rows res" for f d2
    using that e by (auto simp: keeping_def bnd_eq_Inr)
  consider "o_action p = ActionGet" | "o_action p = ActionTotals" | "o_action p \<in> {ActionScan, ActionCount}"
    | "rs_rows res' = []" "room' = room" "o_action p \<notin> {ActionGet, ActionTotals, ActionScan, ActionCount}"
  proof (cases "o_action p \<in> {ActionGet, ActionTotals, ActionScan, ActionCount}")
    case False
    have "rs_rows res' = [] \<and> room' = room"
    proof (cases "o_action p \<in> {ActionHashRange, ActionDeleteRange}")
      case True
      have h: "rs_rows x = rs_rows res" if "hashRange j C c p rng res d = (Inr x, d')" for rng x d d'
        using that by (auto simp: hashRange_def bnd_eq_Inr throw_def split: option.splits)
      have g: "rs_rows x = rs_rows res" if "runDeleteRange j C w c p rng res d = (Inr x, d')" for rng x d d'
        using that removeKeys_rows by (auto simp: runDeleteRange_def bnd_eq_Inr)
      from True b obtain rng d2 where "keeping room (if o_action p = ActionHashRange then hashRange j C c p rng res else runDeleteRange j C w c p rng res) d2 = (Inr (res', room'), d')"
        by (auto simp: bnd_eq_Inr action_defs)
      then show ?thesis by (rule k) (use h g in \<open>auto split: if_splits\<close>)
    next
      case other: False
      have "keeping room (if o_action p \<in> {ActionInsert, ActionPut} then runPut j C w c p vals res
          else if o_action p = ActionUpdate then runUpdate j C w c p vals res else if o_action p = ActionDelete then runDelete j C w c p vals res else throw ErrDeclaration) d1
          = (Inr (res', room'), d')"
        using b other False by (auto simp: keeping_def bnd_def throw_def split: if_splits)
      then show ?thesis
        by (rule k) (auto simp: runPut_def runUpdate_def runDelete_def bnd_eq_Inr throw_def split: if_splits option.splits)
    qed
    then show thesis using that(4) False by blast
  qed (use that in blast)
  then show ?thesis
  proof cases
    case 1
    with b have "runGet j C c p vals res room d1 = (Inr (res', room'), d')" by simp
    then show ?thesis using e 1 charged_spend
      by (auto simp: runGet_def bnd_eq_Inr Let_def lift_check_Inr plain_rows_def action_defs split: option.splits)
  next
    case 2
    with b obtain rng d2 where t: "runTotals j C c p rng res room d2 = (Inr (res', room'), d')" by (auto simp: bnd_eq_Inr action_defs)
    have "keeps (pays j room) (shows_total j p r)" "keeps (inLimit p) (shows_total j p r)" for r
      using pays_visitors inLimit_visitors 2 by (auto simp: keeps_def action_defs)
    from keeps_runTotals [where Q = "pays j room", OF this(1) p(1) t] keeps_runTotals [where Q = "inLimit p", OF this(2) p(2) t] 2
    show ?thesis by (simp add: pays_def inLimit_def plain_rows_def)
  next
    case 3
    with b obtain rng d2 where t: "run j C c p rng res room d2 = (Inr (res', room'), d')" by (auto simp: bnd_eq_Inr action_defs)
    have "keeps (pays j room) (shows_row j p key document)" "keeps (inLimit p) (shows_row j p key document)" for key document
      using pays_visitors inLimit_visitors by (auto simp: keeps_def)
    from keeps_run [where Q = "pays j room", OF this(1) p(1) t] keeps_run [where Q = "inLimit p", OF this(2) p(2) t] 3
    show ?thesis by (auto simp: pays_def inLimit_def plain_rows_def)
  next
    case 4
    then show ?thesis by (auto simp: plain_rows_def)
  qed
qed

lemmas runPlain_charged = runPlain_answer [THEN conjunct1]
lemmas runPlain_rows = runPlain_answer [THEN conjunct2, rule_format]

lemma runOwnStep_answer:
  assumes "runOwnStep j C w st vals made res room d = (Inr (key, res', room'), d')"
  shows "\<exists>rows. rs_rows res' = rs_rows res @ rows \<and> length rows \<le> 1 \<and> charged j room rows room'"
proof -
  from assms obtain c d1 key1 document d2 where b: "(if sp_action st = ActionGet then
         (case document of
            None \<Rightarrow> ret (key1, res, room)
          | Some row \<Rightarrow>
              bnd (lift_check (spend j row room)) (\<lambda>room.
              ret (key1, res\<lparr>rs_rows := rs_rows res @ [row], rs_count := int (length (rs_rows res @ [row]))\<rparr>, room)))
       else if sp_action st \<in> {ActionInsert, ActionPut} then
         bnd (lift_check (buildIn (sp_document st) vals made)) (\<lambda>document.
         bnd (if sp_action st = ActionInsert then notTaken j C c document else ret ()) (\<lambda>_.
         bnd (write_doc j C c w document True) (\<lambda>key.
         ret (key, res\<lparr>rs_changed := rs_changed res + 1\<rparr>, room))))
       else if sp_action st = ActionUpdate then
         (case document of
            None \<Rightarrow> throw ErrMissing
          | Some document \<Rightarrow>
              bnd (lift_check (buildIn (sp_set st) vals made)) (\<lambda>changes.
              bnd (write_doc j C c w (fmadd document changes) True) (\<lambda>_.
              ret (key1, res\<lparr>rs_changed := rs_changed res + 1\<rparr>, room))))
       else if sp_action st = ActionDelete then
         bnd (remove_doc j C c w key1 True) (\<lambda>removed.
         ret (key1, if removed then res\<lparr>rs_changed := rs_changed res + 1\<rparr> else res, room))
       else throw ErrDeclaration) d2 = (Inr (key, res', room'), d')"
    unfolding runOwnStep_def by (elim bnd_InrE) (simp split: prod.splits)
  show ?thesis
  proof (cases "sp_action st = ActionGet \<and> document \<noteq> None")
    case True
    then obtain row where "document = Some row" by blast
    with b True have "rs_rows res' = rs_rows res @ [row]" "spend j row room = Inr room'" by (auto simp: bnd_eq_Inr lift_check_Inr)
    then show ?thesis using charged_spend by fastforce
  next
    case False
    then have "rs_rows res' = rs_rows res \<and> room' = room"
      using b by (auto simp: bnd_eq_Inr throw_def split: if_split_asm option.split_asm)
    then show ?thesis by simp
  qed
qed

section \<open>Batches\<close>

text \<open>Everything a batch runs, however deep, is charged to the one budget of the request.\<close>

lemma runSteps_charged:
  "runSteps n j C w sts vals made res room d = (Inr (Some (res', room')), d') \<Longrightarrow>
     \<exists>rows. rs_rows res' = rs_rows res @ rows \<and> charged j room rows room'"
proof (induction n j C w sts vals made res room arbitrary: res' room' d d' rule: runSteps.induct)
  case (1 n j C w vals made res room)
  then show ?case by (simp add: runSteps.simps)
next
  case (2 n j C w st sts vals made res room)
  from "2.prems" obtain key res1 room1 d1 where
    one: "(if sp_operation st = [] then bnd (runOwnStep j C w st vals made res room) (\<lambda>done. ret (Some done))
          else bnd (onLeader (Operation j (sp_operation st) (sp_version st))) (\<lambda>callee.
               bnd (lift_check (callee_arguments st callee vals made)) (\<lambda>inner.
               bnd (if o_action callee = ActionBatch then
                      (case n of
                         0 \<Rightarrow> ret None
                       | Suc n' \<Rightarrow> runSteps n' j C w (o_steps callee) inner fmempty (newResult (o_name callee) (o_version callee)) room)
                    else bnd (runPlain j C w callee inner (newResult (o_name callee) (o_version callee)) room) (\<lambda>done. ret (Some done)))
                 (\<lambda>done. ret (map_option (\<lambda>(sub, room). (rs_key sub, addResult res sub, room)) done))))) d = (Inr (Some (key, res1, room1)), d1)"
    and rest: "runSteps n j C w sts vals (if sp_name st = [] then made else fmupd (sp_name st) key made) (res1\<lparr>rs_key := key\<rparr>) room1 d1 = (Inr (Some (res', room')), d')"
    unfolding runSteps.simps by (elim bnd_InrE) (auto split: option.splits prod.splits simp: ret_def)
  have "\<exists>rows. rs_rows res1 = rs_rows res @ rows \<and> charged j room rows room1"
  proof (cases "sp_operation st = []")
    case True
    with one have "runOwnStep j C w st vals made res room d = (Inr (key, res1, room1), d1)" by (auto simp: bnd_eq_Inr)
    from runOwnStep_answer [OF this] show ?thesis by blast
  next
    case False
    with one obtain callee :: operation and inner sub d2 where s: "(if o_action callee = ActionBatch then
            (case n of 0 \<Rightarrow> ret None
             | Suc n' \<Rightarrow> runSteps n' j C w (o_steps callee) inner fmempty (newResult (o_name callee) (o_version callee)) room)
          else bnd (runPlain j C w callee inner (newResult (o_name callee) (o_version callee)) room) (\<lambda>done. ret (Some done))) d2 = (Inr (Some (sub, room1)), d1)"
      "res1 = addResult res sub"
      by (auto simp: bnd_eq_Inr)
    have "charged j room (rs_rows sub) room1"
    proof (cases "o_action callee = ActionBatch")
      case True
      with s(1) obtain n' where n': "n = Suc n'" "runSteps n' j C w (o_steps callee) inner fmempty (newResult (o_name callee) (o_version callee)) room d2 = (Inr (Some (sub, room1)), d1)"
        by (cases n) auto
      from "2.IH"(1) [OF False True n'(1) n'(2)] show ?thesis by (auto simp: newResult_def)
    next
      case other: False
      with s(1) have p: "runPlain j C w callee inner (newResult (o_name callee) (o_version callee)) room d2 = (Inr (sub, room1), d1)" by (auto simp: bnd_eq_Inr)
      show ?thesis by (rule runPlain_charged [OF p]) (simp add: newResult_def)
    qed
    then show ?thesis using s(2) by (auto simp: addResult_def)
  qed
  then obtain rows where rows: "rs_rows res1 = rs_rows res @ rows" "charged j room rows room1" by blast
  from "2.IH"(2) [OF rest] obtain more where "rs_rows res' = rs_rows res1 @ more" "charged j room1 more room'" by auto
  with rows show ?case using charged_append by (intro exI [of _ "rows @ more"]) auto
qed

lemma Invoke_charged:
  assumes "Invoke_store n j C caller name version arguments d = (Inr (Some res), d')" "0 < db_budget d"
  shows "\<exists>room. bg_most room = db_budget d \<and> charged j \<lparr>bg_most = db_budget d, bg_used = 0, bg_rows = 0\<rparr> (rs_rows res) room"
proof -
  let ?r = "\<lparr>bg_most = db_budget d, bg_used = 0, bg_rows = 0\<rparr>"
  obtain p t where a: "(case allowed caller p of Inl e \<Rightarrow> throw e | Inr _ \<Rightarrow> perform n j C caller p arguments) (d\<lparr>db_tree := t\<rparr>) = (Inr (Some res), d')"
    using assms(1) by (auto simp: Invoke_store_def bnd_eq_Inr onLeader_Inr)
  then have p: "perform n j C caller p arguments (d\<lparr>db_tree := t\<rparr>) = (Inr (Some res), d')"
    by (cases "allowed caller p") (simp_all add: throw_def)
  then obtain vals where b: "bind_arguments p arguments = Inr vals" by (auto simp: perform_def split: sum.splits)
  show ?thesis
  proof (cases "rs_rows res = []")
    case True
    then show ?thesis by (intro exI [of _ ?r]) simp
  next
    case False
    have "rs_rows (repeatedResult p lsn key) = []" for lsn key by (simp add: repeatedResult_def newResult_def)
    then obtain room d1 d2 where i: "runInline n j C (attributionOf caller p) p vals (newResult (o_name p) (o_version p)) ?r d1 = (Inr (Some (res, room)), d2)"
      using p b False by (auto simp: perform_def bnd_eq_Inr split: option.splits)
    have "\<exists>rows. rs_rows res = [] @ rows \<and> charged j ?r rows room"
    proof (cases "o_action p = ActionBatch")
      case True
      then show ?thesis using i runSteps_charged [of n j C "attributionOf caller p" "o_steps p" vals fmempty "newResult (o_name p) (o_version p)" ?r _ res room]
        by (auto simp: runInline_def runBatch_def bnd_eq_Inr newResult_def split: if_splits prod.splits sum.splits)
    next
      case other: False
      with i obtain d3 d4 where "runPlain j C (attributionOf caller p) p vals (newResult (o_name p) (o_version p)) ?r d3 = (Inr (res, room), d4)"
        by (auto simp: runInline_def bnd_eq_Inr)
      from runPlain_charged [OF this] show ?thesis by (simp add: newResult_def)
    qed
    then show ?thesis by (auto simp: charged_def)
  qed
qed

section \<open>The rows an operation reaches\<close>

text \<open>
  The rows an operation may answer with, added up over everything it calls without the wrap-around of a
  machine integer. \<open>F\<close> finds the operations that are called.
\<close>

inductive reaches :: "(bytes \<Rightarrow> int \<Rightarrow> operation option) \<Rightarrow> operation \<Rightarrow> int \<Rightarrow> bool" for F where
  plain: "\<lbrakk>o_action p \<noteq> ActionBatch; o_action p \<in> {ActionScan, ActionTotals, ActionDeleteRange, ActionCount, ActionHashRange} \<Longrightarrow> 0 < o_limit p\<rbrakk>
    \<Longrightarrow> reaches F p (plain_rows p)"
| batch: "\<lbrakk>o_action p = ActionBatch;
    list_all2 (\<lambda>st k. if sp_operation st = [] then k = 1
      else 0 < sp_version st \<and> (\<exists>q. F (sp_operation st) (sp_version st) = Some q \<and> reaches F q k)) (o_steps p) ks\<rbrakk>
    \<Longrightarrow> reaches F p (sum_list ks)"

definition steps_reach :: "(bytes \<Rightarrow> int \<Rightarrow> operation option) \<Rightarrow> step list \<Rightarrow> int list \<Rightarrow> bool" where
  "steps_reach F = list_all2 (\<lambda>st k. if sp_operation st = [] then k = 1
     else 0 < sp_version st \<and> (\<exists>q. F (sp_operation st) (sp_version st) = Some q \<and> reaches F q k))"

inductive_cases reachesE: "reaches F p k"

lemma reaches_batch: "o_action p = ActionBatch \<Longrightarrow> reaches F p k \<Longrightarrow> \<exists>ks. k = sum_list ks \<and> steps_reach F (o_steps p) ks"
  unfolding steps_reach_def by (erule reachesE) blast+

lemma reaches_plain:
  "o_action p \<noteq> ActionBatch \<Longrightarrow> reaches F p k \<Longrightarrow>
     k = plain_rows p \<and> (o_action p \<in> {ActionScan, ActionTotals, ActionDeleteRange, ActionCount, ActionHashRange} \<longrightarrow> 0 < o_limit p)"
  by (erule reachesE) auto

lemma reaches_nonneg: "reaches F p k \<Longrightarrow> 0 \<le> k"
proof (induction rule: reaches.induct)
  case (batch p ks)
  have "0 \<le> k" if "k \<in> set ks" for k
    using batch(2) that by (auto simp: list_all2_conv_all_nth in_set_conv_nth split: if_splits)
  then show ?case by (rule sum_list_nonneg)
qed (auto simp: plain_rows_def)

lemma steps_reach_Cons:
  "steps_reach F (st # sts) ks \<longleftrightarrow> (\<exists>k ks'. ks = k # ks' \<and> steps_reach F sts ks'
     \<and> (if sp_operation st = [] then k = 1 else 0 < sp_version st \<and> (\<exists>q. F (sp_operation st) (sp_version st) = Some q \<and> reaches F q k)))"
  by (cases ks) (auto simp: steps_reach_def)

lemma runSteps_reach:
  "solo d \<Longrightarrow> holding (db_tree d) m \<Longrightarrow> steps_reach (op_at j m) sts ks \<Longrightarrow>
     runSteps n j C w sts vals made res room d = (Inr (Some (res', room')), d') \<Longrightarrow> limited (db_tree d') \<Longrightarrow>
     int (length (rs_rows res')) \<le> int (length (rs_rows res)) + sum_list ks"
proof (induction n j C w sts vals made res room arbitrary: res' room' d d' m ks rule: runSteps.induct)
  case (1 n j C w vals made res room)
  then show ?case by (auto simp: runSteps.simps steps_reach_def)
next
  case (2 n j C w st sts vals made res room)
  let ?step = "(if sp_operation st = [] then bnd (runOwnStep j C w st vals made res room) (\<lambda>done. ret (Some done))
          else bnd (onLeader (Operation j (sp_operation st) (sp_version st))) (\<lambda>callee.
               bnd (lift_check (callee_arguments st callee vals made)) (\<lambda>inner.
               bnd (if o_action callee = ActionBatch then
                      (case n of
                         0 \<Rightarrow> ret None
                       | Suc n' \<Rightarrow> runSteps n' j C w (o_steps callee) inner fmempty (newResult (o_name callee) (o_version callee)) room)
                    else bnd (runPlain j C w callee inner (newResult (o_name callee) (o_version callee)) room) (\<lambda>done. ret (Some done)))
                 (\<lambda>done. ret (map_option (\<lambda>(sub, room). (rs_key sub, addResult res sub, room)) done)))))"
  from "2.prems"(4) obtain key res1 room1 d1 where one: "?step d = (Inr (Some (key, res1, room1)), d1)"
    and rest: "runSteps n j C w sts vals (if sp_name st = [] then made else fmupd (sp_name st) key made) (res1\<lparr>rs_key := key\<rparr>) room1 d1 = (Inr (Some (res', room')), d')"
    unfolding runSteps.simps by (elim bnd_InrE) (auto split: option.splits prod.splits simp: ret_def)
  have deeper: "calm declaration_key (case n of 0 \<Rightarrow> ret None
      | Suc n' \<Rightarrow> runSteps n' j C w (o_steps callee) inner fmempty (newResult (o_name callee) (o_version callee)) room)" for callee :: operation and inner
    by (cases n) (simp_all only: nat.case calm_runSteps calm_ret)
  have "calm declaration_key ?step"
    by (intro calm_rules calm_runOwnStep calm_runPlain deeper)
  note c = calmD [OF this "2.prems"(1) one]
  have l1: "limited (db_tree d1)" using calmD(2) [OF calm_runSteps c(1) rest] "2.prems"(5) by blast
  from c(3) [OF refl l1 "2.prems"(2)] obtain m1 where m1: "holding (db_tree d1) m1" "\<And>k. hasPrefix [spaceOps] k \<Longrightarrow> m1 k = m k"
    by (auto simp: declaration_key_def)
  from "2.prems"(3) obtain k ks' where k: "ks = k # ks'" "steps_reach (op_at j m) sts ks'"
    "if sp_operation st = [] then k = 1 else 0 < sp_version st \<and> (\<exists>q. op_at j m (sp_operation st) (sp_version st) = Some q \<and> reaches (op_at j m) q k)"
    unfolding steps_reach_Cons by blast
  have "int (length (rs_rows res1)) \<le> int (length (rs_rows res)) + k"
  proof (cases "sp_operation st = []")
    case True
    with one have "runOwnStep j C w st vals made res room d = (Inr (key, res1, room1), d1)" by (auto simp: bnd_eq_Inr)
    from runOwnStep_answer [OF this] True k(3) show ?thesis by auto
  next
    case False
    with one obtain callee :: operation and inner sub t where o: "Operation j (sp_operation st) (sp_version st) (db_tree d) = (Inr callee, t)"
      and s: "(if o_action callee = ActionBatch then
            (case n of 0 \<Rightarrow> ret None
             | Suc n' \<Rightarrow> runSteps n' j C w (o_steps callee) inner fmempty (newResult (o_name callee) (o_version callee)) room)
          else bnd (runPlain j C w callee inner (newResult (o_name callee) (o_version callee)) room) (\<lambda>done. ret (Some done))) (d\<lparr>db_tree := t\<rparr>) = (Inr (Some (sub, room1)), d1)"
      and r: "res1 = addResult res sub"
      by (auto simp: bnd_eq_Inr onLeader_Inr lift_check_Inr)
    from k(3) False have v: "0 < sp_version st" by simp
    from Operation_at [OF "2.prems"(2) v o] k(3) False have q: "reaches (op_at j m) callee k" "d\<lparr>db_tree := t\<rparr> = d" by auto
    have "int (length (rs_rows sub)) \<le> k"
    proof (cases "o_action callee = ActionBatch")
      case True
      with s q(2) obtain n' where n': "n = Suc n'" "runSteps n' j C w (o_steps callee) inner fmempty (newResult (o_name callee) (o_version callee)) room d = (Inr (Some (sub, room1)), d1)"
        by (cases n) auto
      from reaches_batch [OF True q(1)] obtain ks2 where "k = sum_list ks2" "steps_reach (op_at j m) (o_steps callee) ks2" by blast
      with "2.IH"(1) [OF False True n'(1) "2.prems"(1,2) _ n'(2) l1] show ?thesis by (simp add: newResult_def)
    next
      case other: False
      with s q(2) have p: "runPlain j C w callee inner (newResult (o_name callee) (o_version callee)) room d = (Inr (sub, room1), d1)" by (auto simp: bnd_eq_Inr)
      show ?thesis using runPlain_rows [OF p] reaches_plain [OF other q(1)] by (auto simp: newResult_def)
    qed
    then show ?thesis using r by (simp add: addResult_def)
  qed
  moreover have "int (length (rs_rows res')) \<le> int (length (rs_rows res1)) + sum_list ks'"
    using "2.IH"(2) [OF c(1) m1(1) _ rest "2.prems"(5)] k(2) op_at_cong [OF m1(2)] by simp
  ultimately show ?case using k(1) by simp
qed

section \<open>The ceiling that is declared\<close>

lemma wrap64_twice: "wrap64 (wrap64 a + b) = wrap64 (a + b)" "wrap64 (a + wrap64 b) = wrap64 (a + b)" "wrap64 (wrap64 a) = wrap64 a"
  by (simp_all add: wrap64_def signed_take_bit_eq_take_bit_shift take_bit_eq_mod mod_simps algebra_simps)

lemma wrap64_small: "0 \<le> a \<Longrightarrow> a < 2 ^ 63 \<Longrightarrow> wrap64 a = a"
  by (simp add: wrap64_def signed_take_bit_int_eq_self)

text \<open>Totals found before, each that of the stored operation it is kept under.\<close>

definition totals_known :: "(bytes \<Rightarrow> int \<Rightarrow> operation option) \<Rightarrow> (ref, int) fmap \<Rightarrow> bool" where
  "totals_known F known \<longleftrightarrow>
     (\<forall>name v k p. fmlookup known (name, v) = Some k \<longrightarrow> F name v = Some p \<longrightarrow> (\<exists>K. reaches F p K \<and> wrap64 k = wrap64 K))"

lemma ceiling_reaches:
  assumes own: "\<And>name v p. 0 < v \<Longrightarrow> F name v = Some p \<Longrightarrow> 0 < o_version p \<and> F (o_name p) (o_version p) = Some p"
    and pos: "\<And>name v p st. 0 < v \<Longrightarrow> F name v = Some p \<Longrightarrow> o_action p = ActionBatch \<Longrightarrow> st \<in> set (o_steps p) \<Longrightarrow> sp_operation st \<noteq> [] \<Longrightarrow> 0 < sp_version st"
  shows "(\<And>name v p. 0 < v \<Longrightarrow> find_op name v = Inr p \<Longrightarrow> F name v = Some p) \<Longrightarrow> ceilingOf n find_op p visiting known = Inr (k, known') \<Longrightarrow> 0 < v \<Longrightarrow> F name v = Some p \<Longrightarrow> totals_known F known \<Longrightarrow>
      totals_known F known' \<and> (\<exists>K. reaches F p K \<and> wrap64 k = wrap64 K)"
    and "(\<And>name v p. 0 < v \<Longrightarrow> find_op name v = Inr p \<Longrightarrow> F name v = Some p) \<Longrightarrow> ceilingSteps n find_op sts visiting known amount = Inr (k, known') \<Longrightarrow>
      (\<And>st. st \<in> set sts \<Longrightarrow> sp_operation st \<noteq> [] \<Longrightarrow> 0 < sp_version st) \<Longrightarrow> totals_known F known \<Longrightarrow>
      totals_known F known' \<and> (\<exists>ks. steps_reach F sts ks \<and> wrap64 k = wrap64 (amount + sum_list ks))"
proof (induction n find_op p visiting known and n find_op sts visiting known amount arbitrary: k known' name v and k known' rule: ceilingOf_ceilingSteps.induct)
  case (1 n find_op p visiting known)
  show ?case
  proof (cases "o_action p = ActionBatch")
    case False
    then have "known' = known" "k = plain_rows p" "o_action p \<in> {ActionScan, ActionTotals, ActionDeleteRange, ActionCount, ActionHashRange} \<Longrightarrow> 0 < o_limit p"
      using "1.prems"(2) by (auto simp: ceilingOf.simps plain_rows_def action_defs split: if_splits)
    with reaches.plain [OF False] "1.prems"(5) show ?thesis by blast
  next
    case b: True
    from own [OF "1.prems"(3,4)] have p: "0 < o_version p" "F (o_name p) (o_version p) = Some p" by simp_all
    show ?thesis
    proof (cases "fmlookup known (refOf p)")
      case (Some amount)
      with "1.prems"(2) b have "k = amount" "known' = known" by (auto simp: ceilingOf.simps action_defs)
      with Some "1.prems"(5) p(2) show ?thesis unfolding totals_known_def refOf_def by blast
    next
      case None
      with "1.prems"(2) b have v: "refOf p \<notin> visiting" by (auto simp: ceilingOf.simps action_defs split: if_splits)
      with "1.prems"(2) b None p(1) obtain known1 where s: "ceilingSteps n find_op (o_steps p) (insert (refOf p) visiting) known 0 = Inr (k, known1)"
        "known' = fmupd (refOf p) k known1"
        by (auto simp: ceilingOf.simps action_defs split: sum.splits prod.splits)
      have n: "o_action p \<notin> {ActionGet, ActionInsert, ActionPut, ActionUpdate, ActionDelete}" "o_action p \<notin> {ActionScan, ActionTotals, ActionDeleteRange}"
        "o_action p \<notin> {ActionCount, ActionHashRange}" using b by (simp_all add: action_defs)
      from "1.IH" [OF n b None v "1.prems"(1) s(1) pos [OF "1.prems"(3,4) b] "1.prems"(5)] obtain ks where ks: "totals_known F known1" "steps_reach F (o_steps p) ks" "wrap64 k = wrap64 (sum_list ks)" by auto
      have r: "reaches F p (sum_list ks)" by (rule reaches.batch [OF b ks(2) [unfolded steps_reach_def]])
      with ks(1,3) p(2) have "totals_known F known'" unfolding totals_known_def s(2) refOf_def by auto
      with r ks(3) show ?thesis by blast
    qed
  qed
next
  case (2 n find_op visiting known amount)
  then show ?case by (auto simp: steps_reach_def)
next
  case (3 n find_op st sts visiting known amount)
  note rest = "3.prems"(3) [OF list.set_intros(2)]
  show ?case
  proof (cases "sp_operation st = []")
    case True
    with "3.prems"(2) have "ceilingSteps n find_op sts visiting known (wrap64 (amount + 1)) = Inr (k, known')" by simp
    from "3.IH"(1) [OF True "3.prems"(1) this rest "3.prems"(4)] obtain ks where
      ks: "totals_known F known'" "steps_reach F sts ks" "wrap64 k = wrap64 (wrap64 (amount + 1) + sum_list ks)" by blast
    have "steps_reach F (st # sts) (1 # ks)" using ks(2) True by (simp add: steps_reach_Cons)
    with ks(1,3) show ?thesis by (intro conjI exI [of _ "1 # ks"]) (simp_all add: wrap64_twice add.assoc)
  next
    case False
    with "3.prems"(2) obtain callee n' reach known1 where o: "find_op (sp_operation st) (sp_version st) = Inr callee" "n = Suc n'"
      "ceilingOf n' find_op callee visiting known = Inr (reach, known1)"
      "ceilingSteps n find_op sts visiting known1 (wrap64 (amount + reach)) = Inr (k, known')"
      by (auto split: sum.splits nat.splits prod.splits)
    have v: "0 < sp_version st" using "3.prems"(3) [OF list.set_intros(1) False] .
    note q = "3.prems"(1) [OF v o(1)]
    from "3.IH"(2) [OF False o(1,2) "3.prems"(1) o(3) v q "3.prems"(4)] obtain K where K: "totals_known F known1" "reaches F callee K" "wrap64 reach = wrap64 K" by blast
    from "3.IH"(3) [OF False o(1,2,3) refl "3.prems"(1) o(4) rest K(1)] obtain ks where
      ks: "totals_known F known'" "steps_reach F sts ks" "wrap64 k = wrap64 (wrap64 (amount + reach) + sum_list ks)" by blast
    have "steps_reach F (st # sts) (K # ks)" using ks(2) False v q K(2) by (simp add: steps_reach_Cons)
    moreover have "wrap64 k = wrap64 (amount + K + sum_list ks)" using ks(3) K(3) by (metis wrap64_twice(1,2) add.commute)
    ultimately show ?thesis using ks(1) by (intro conjI exI [of _ "K # ks"]) (simp_all add: add.assoc)
  qed
qed

lemma ceiling_wrapped: "ceilingSteps n find_op sts visiting known amount = Inr (k, known') \<Longrightarrow> wrap64 amount = amount \<Longrightarrow> wrap64 k = k"
proof (induction sts arbitrary: known amount)
  case (Cons st sts)
  then show ?case using Cons.IH wrap64_twice(3) by (auto split: if_splits sum.splits nat.splits prod.splits)
qed simp

text \<open>A request with rows in its answer ran its operation.\<close>

lemma Invoke_ran:
  assumes h: "holding (db_tree d) m" "ops_named j m" and o: "Operation j name version (db_tree d) = (Inr p, t)"
    and r: "Invoke_store n j C caller name version arguments d = (Inr (Some res), d')" and rows: "rs_rows res \<noteq> []"
  obtains vals room d2 where
    "runInline n j C (attributionOf caller p) p vals (newResult (o_name p) (o_version p)) \<lparr>bg_most = db_budget d, bg_used = 0, bg_rows = 0\<rparr> d = (Inr (Some (res, room)), d2)"
    "(if rs_changed res > 0 then Commit_store else ret ()) d2 = (Inr (), d')"
proof -
  note s = Operation_stored [OF h o]
  have a: "(case allowed caller p of Inl e \<Rightarrow> throw e | Inr _ \<Rightarrow> perform n j C caller p arguments) d = (Inr (Some res), d')"
    using r o s(1) by (auto simp: Invoke_store_def bnd_eq_Inr onLeader_Inr)
  then have "perform n j C caller p arguments d = (Inr (Some res), d')" by (cases "allowed caller p") (simp_all add: throw_def)
  then obtain vals already d1 where w: "(if Writes (o_action p) \<and> cl_write_id caller \<noteq> [] then onLeader (Wrote j (cl_write_id caller)) else ret None) d = (Inr already, d1)"
    and g: "(case already of Some (lsn, key) \<Rightarrow> ret (Some (repeatedResult p lsn key))
            | None \<Rightarrow>
                bnd (runInline n j C (attributionOf caller p) p vals (newResult (o_name p) (o_version p))
                       \<lparr>bg_most = db_budget d, bg_used = 0, bg_rows = 0\<rparr>) (\<lambda>done.
                case done of
                  None \<Rightarrow> ret None
                | Some (res, room) \<Rightarrow> bnd (if rs_changed res > 0 then Commit_store else ret ()) (\<lambda>_. ret (Some res)))) d1 = (Inr (Some res), d')"
    by (auto simp: perform_def bnd_eq_Inr split: sum.splits)
  have "snd (Wrote j wid t) = t" for wid t by (auto simp: Wrote_def treeGet_def bnd_def ret_def throw_def split: sum.splits option.splits)
  then have d1: "d1 = d" using w by (auto simp: onLeader_Inr split: if_splits) (metis database.surjective database.update_convs(1) snd_conv)+
  have "already = None" using g rows by (cases already) (auto simp: repeatedResult_def newResult_def split: prod.splits)
  with g d1 obtain out d2 where i: "runInline n j C (attributionOf caller p) p vals (newResult (o_name p) (o_version p))
      \<lparr>bg_most = db_budget d, bg_used = 0, bg_rows = 0\<rparr> d = (Inr out, d2)"
    and c: "(case out of None \<Rightarrow> ret None | Some (res, room) \<Rightarrow> bnd (if rs_changed res > 0 then Commit_store else ret ()) (\<lambda>_. ret (Some res))) d2 = (Inr (Some res), d')"
    by (auto simp: bnd_eq_Inr)
  from c obtain room where "out = Some (res, room)" "(if rs_changed res > 0 then Commit_store else ret ()) d2 = (Inr (), d')"
    by (auto simp: bnd_eq_Inr split: option.splits prod.splits)
  with i show thesis using that by blast
qed

lemma solo_commit:
  assumes "solo d" "Commit_store d = (Inr (), d')" "limited (db_tree d')"
  shows "limited (db_tree d)"
proof -
  have "commitParts d = (Inr (), d)" using assms(1) by (simp add: commitParts_def solo_def sorted_list_of_fset_def)
  with assms(2) have "bnd (onLeader (onTree Commit_tree)) (\<lambda>_ d. if db_dropped d = [] then (Inr (), d) else dropFiles d) d = (Inr (), d')"
    by (simp add: Commit_store_def bnd_def)
  then obtain t where t: "onTree Commit_tree (db_tree d) = (Inr (), t)" and f: "(if db_dropped d = [] then (Inr (), d\<lparr>db_tree := t\<rparr>) else dropFiles (d\<lparr>db_tree := t\<rparr>)) = (Inr (), d')"
    by (auto simp: bnd_eq_Inr onLeader_Inr)
  have e: "db_tree (snd (eachName dropFile names d)) = db_tree d" for names d
  proof (induction names arbitrary: d)
    case (Cons name names)
    have "db_tree (snd (dropFile name d)) = db_tree d"
      by (auto simp: dropFile_def bnd_def onFolder_def closeFile_def Let_def split: option.splits prod.splits sum.splits)
    with Cons show ?case by (cases "dropFile name d") (auto simp: bnd_def split: sum.splits)
  qed simp
  have "db_tree d' = t" using f e [of "db_dropped d" "d\<lparr>db_tree := t\<rparr>"]
    by (auto simp: dropFiles_def bnd_def modify_def split: if_splits sum.splits prod.splits)
  moreover have "Commit (troot (db_tree d)) (pages (db_tree d)) = (Inr (), pages t)"
    using t by (auto simp: onTree_def Commit_tree_def onPages_apply split: prod.splits sum.splits)
  then have "PageCount (meta (pages (db_tree d))) \<le> PageCount (meta (pages t))"
    by (cases rule: Commit_Inr) (use list_anchor in \<open>fastforce simp: same_anchor_def\<close>)
  ultimately show ?thesis using assms(3) by (simp add: limited_def pageLimit_def)
qed

lemma Inline_reach:
  assumes d: "solo d" "holding (db_tree d) m" and K: "reaches (op_at j m) p K"
    and i: "runInline n j C w p vals (newResult (o_name p) (o_version p)) room d = (Inr (Some (res, room')), d2)"
    and c: "(if rs_changed res > 0 then Commit_store else ret ()) d2 = (Inr (), d')" and l: "pageLimit (pages (db_tree d'))"
  shows "int (length (rs_rows res)) \<le> K"
proof (cases "o_action p = ActionBatch")
  case True
  with i have s: "runSteps n j C w (o_steps p) vals fmempty (newResult (o_name p) (o_version p)) room d = (Inr (Some (res, room')), d2)"
    by (auto simp: runInline_def runBatch_def bnd_eq_Inr Collection_def split: if_splits prod.splits sum.splits option.splits)
  have "solo d2" using calmD(1) [OF calm_runSteps d(1) s] .
  then have "limited (db_tree d2)" using c l solo_commit [of d2 d'] by (auto simp: limited_def split: if_splits)
  with reaches_batch [OF True K] runSteps_reach [OF d _ s] show ?thesis by (auto simp: newResult_def)
next
  case False
  with i obtain d3 where "runPlain j C w p vals (newResult (o_name p) (o_version p)) room d3 = (Inr (res, room'), d2)" by (auto simp: runInline_def bnd_eq_Inr)
  from runPlain_rows [OF this] reaches_plain [OF False K] show ?thesis by (auto simp: newResult_def)
qed

lemma op_at_own:
  assumes "ops_named j m" "op_at j m name v = Some p"
  shows "0 < o_version p \<and> op_at j m (o_name p) (o_version p) = Some p"
proof -
  from assms(2) obtain b where b: "m (operationKey name v) = Some b" "Unmarshal (j_operations j) b = Some p" by (auto simp: op_at_def split: option.splits)
  have "hasPrefix [spaceOps] (operationKey name v)" by (simp add: operationKey_def operationPrefix_def hasPrefix_def)
  with assms(1) b have "operationKey name v = operationKey (o_name p) (o_version p)" "0 < o_version p" unfolding ops_named_def by fastforce+
  with assms(2) show ?thesis by (simp add: op_at_def)
qed

section \<open>The bounds\<close>

text \<open>
  C21. The rows of an answer, written out one per line, fit the budget of an answer: the budget is shared by a
  batch and everything it calls, however deep.
\<close>

theorem answer_fits_budget:
  assumes "Invoke_store n j C caller name version arguments d = (Inr (Some res), d')" "0 < db_budget d"
  shows "(\<forall>row \<in> set (rs_rows res). Marshal (j_docs j) row \<noteq> None)
    \<and> (\<Sum>row \<leftarrow> rs_rows res. int (length (the (Marshal (j_docs j) row))) + 1) \<le> db_budget d"
proof -
  from Invoke_charged [OF assms] assms(2) obtain room where room: "\<forall>row \<in> set (rs_rows res). Marshal (j_docs j) row \<noteq> None"
    "sum_list (map (row_cost j) (rs_rows res)) \<le> db_budget d" by (auto simp: charged_def)
  have "map (row_cost j) (rs_rows res) = map (\<lambda>row. int (length (the (Marshal (j_docs j) row))) + 1) (rs_rows res)"
    using room(1) by (auto simp: row_cost_def)
  with room show ?thesis by simp
qed


section \<open>An example\<close>

abbreviation "ex_asks \<equiv> nobody\<lparr>cl_scopes := [[114]]\<rparr>"

definition ex_answer :: result where
  "ex_answer = (newResult [103] 1)\<lparr>rs_rows := [ex_doc], rs_count := 1\<rparr>"

lemma ex_asked:
  assumes t: "roomy t ([ex_get_key \<mapsto> [7]](ex_pk \<mapsto> [7])) 30"
  shows "Invoke_store n ex_ops C ex_asks [103] 1 fmempty ((ex_db t)\<lparr>db_budget := 10\<rparr>) = (Inr (Some ex_answer), (ex_db t)\<lparr>db_budget := 10\<rparr>)"
    and "Operation ex_ops [103] 1 t = (Inr ex_get, t)"
proof -
  have g: "treeGet ex_get_key t = (Inr (Some [7]), t)" "treeGet ex_pk t = (Inr (Some [7]), t)"
    using roomy_get [OF t, of ex_get_key] roomy_get [OF t, of ex_pk] by (simp_all add: sizes layout)
  show o: "Operation ex_ops [103] 1 t = (Inr ex_get, t)" using g(1) by (simp add: Operation_def decodeOperation_def ex_ops_def)
  let ?d = "(ex_db t)\<lparr>db_budget := 10\<rparr>"
  have a: "allowed ex_asks ex_get = Inr ()" by (simp add: allowed_def refuse_def ex_get_def ex_blank_def)
  have b: "bind_arguments ex_get fmempty = Inr fmempty" by (simp add: bind_arguments_def ex_get_def ex_blank_def)
  have c: "Collection (o_collection ex_get) ?d = (Inr 0, ?d)" by (simp add: Collection_def ex_get_def ex_blank_def ex_db_def)
  have k: "keyTerm ex_get fmempty ?d = (Inr (GKey (VString [97])), ?d)"
    by (simp add: keyTerm_def ex_get_def resolve_def lift_check_def)
  have pk: "encodeKey (specOf 0 ?d) (GKey (VString [97])) = Inr ex_pk"
    by (simp add: encodeKey_def ex_plain_def ex_spec_def specOf_def ex_db_def matches_def TypeString_def TypeAny_def keyOf_def documents_def Encode_def
        encodeString_def plainField_def tag_defs space_defs be_numeral)
  have r: "read_doc (j_docs ex_ops) ex_pk t = (Inr (Some ex_doc), t)"
    using g(2) by (simp add: read_doc_def ex_ops_def ex_json_def ex_docs_def)
  have "Get_doc ex_ops C 0 (GKey (VString [97])) ?d = (Inr (Some ex_doc), ?d)"
    using pk r by (simp add: Get_doc_def into_def onPlace_def onLeader_def specOf_def ex_db_def ex_plain_def ex_spec_def)
  moreover have "spend ex_ops ex_doc \<lparr>bg_most = 10, bg_used = 0, bg_rows = 0\<rparr> = Inr \<lparr>bg_most = 10, bg_used = 2, bg_rows = 1\<rparr>"
    by (simp add: spend_def ex_ops_def ex_json_def ex_docs_def)
  moreover have "project ex_doc (o_projection ex_get) = ex_doc" by (simp add: project_def ex_get_def ex_blank_def)
  ultimately have "runGet ex_ops C 0 ex_get fmempty (newResult [103] 1) \<lparr>bg_most = 10, bg_used = 0, bg_rows = 0\<rparr> ?d
      = (Inr (ex_answer, \<lparr>bg_most = 10, bg_used = 2, bg_rows = 1\<rparr>), ?d)"
    using k by (simp add: runGet_def lift_check_def ex_answer_def)
  moreover have act: "o_action ex_get = ActionGet" "o_name ex_get = [103]" "o_version ex_get = 1" by (simp_all add: ex_get_def ex_blank_def)
  ultimately have i: "runInline n ex_ops C w ex_get fmempty (newResult [103] 1) \<lparr>bg_most = 10, bg_used = 0, bg_rows = 0\<rparr> ?d
      = (Inr (Some (ex_answer, \<lparr>bg_most = 10, bg_used = 2, bg_rows = 1\<rparr>)), ?d)" for w
    using c by (simp add: runInline_def runPlain_def action_defs)
  have "\<not> Writes (o_action ex_get)" using act by (simp add: Writes_def action_defs)
  then have "perform n ex_ops C ex_asks ex_get fmempty ?d = (Inr (Some ex_answer), ?d)"
    using b i act by (simp add: perform_def ex_answer_def newResult_def ex_db_def)
  then show "Invoke_store n ex_ops C ex_asks [103] 1 fmempty ?d = (Inr (Some ex_answer), ?d)"
    using o a by (simp add: Invoke_store_def onLeader_def ex_db_def)
qed

lemma ex_asked_tree: obtains t where "roomy t ([ex_get_key \<mapsto> [7]](ex_pk \<mapsto> [7])) 30"
proof -
  obtain t where t: "roomy t [ex_get_key \<mapsto> [7]] 9" by (rule ex_ops_tree)
  show thesis by (rule roomy_put [OF t, of ex_pk "[7]"]) (use that in \<open>simp_all add: sizes layout\<close>)
qed

theorem answer_fits_budget_witness:
  "\<exists>t. \<forall>n C. Invoke_store n ex_ops C ex_asks [103] 1 fmempty ((ex_db t)\<lparr>db_budget := 10\<rparr>) = (Inr (Some ex_answer), (ex_db t)\<lparr>db_budget := 10\<rparr>)
     \<and> rs_rows ex_answer = [ex_doc]
     \<and> (\<Sum>row \<leftarrow> rs_rows ex_answer. int (length (the (Marshal (j_docs ex_ops) row))) + 1) \<le> 10"
proof -
  obtain t where t: "roomy t ([ex_get_key \<mapsto> [7]](ex_pk \<mapsto> [7])) 30" by (rule ex_asked_tree)
  have "(\<Sum>row \<leftarrow> rs_rows ex_answer. int (length (the (Marshal (j_docs ex_ops) row))) + 1) \<le> db_budget ((ex_db t)\<lparr>db_budget := 10\<rparr>)"
    by (rule answer_fits_budget [OF ex_asked(1) [OF t], THEN conjunct2]) simp
  then show ?thesis using ex_asked(1) [OF t] by (intro exI [of _ t] allI conjI) (simp_all add: ex_answer_def)
qed


end
