(* ===== verification/Store_Shared.thy ===== *)
theory Store_Shared
  imports Store_Answers
begin

text \<open>
  Reading beside other readers. An operation that is found shareable changes nothing and reaches no divided
  collection, at any depth: running it leaves the database as it was. The exception is a batch that fails,
  which is rolled back although it wrote nothing.
\<close>

section \<open>Leaving a database as it is\<close>

definition still :: "database \<Rightarrow> 'a on_store \<Rightarrow> bool" where
  "still d f \<longleftrightarrow> snd (f d) = d"

named_theorems still_rules "operations that leave a database as it is"

lemma stillD: "still d f \<Longrightarrow> f d = (r, d') \<Longrightarrow> d' = d"
  by (simp add: still_def)

lemma still_bnd [still_rules]: "still d f \<Longrightarrow> (\<And>a. f d = (Inr a, d) \<Longrightarrow> still d (g a)) \<Longrightarrow> still d (bnd f g)"
  by (auto simp: still_def bnd_def split: prod.splits sum.splits)

lemma still_basics [still_rules]:
  "still d (ret a)" "still d (throw e)" "still d (lift_check r)" "still d (Collection name)"
  by (simp_all add: still_def throw_def lift_check_def Collection_def split: sum.splits option.splits)

lemma still_cases [still_rules]:
  "(b \<Longrightarrow> still d f) \<Longrightarrow> (\<not> b \<Longrightarrow> still d g) \<Longrightarrow> still d (if b then f else g)"
  "(x = None \<Longrightarrow> still d f) \<Longrightarrow> (\<And>a. x = Some a \<Longrightarrow> still d (h a)) \<Longrightarrow> still d (case x of None \<Rightarrow> f | Some a \<Rightarrow> h a)"
  "(\<And>a b. z = (a, b) \<Longrightarrow> still d (k a b)) \<Longrightarrow> still d (case z of (a, b) \<Rightarrow> k a b)"
  by (auto split: option.splits prod.splits)

lemma still_leader:
  assumes "\<And>t. snd (f t) = t"
  shows "still d (onLeader f)"
proof -
  obtain r t where "f (db_tree d) = (r, t)" by (meson surj_pair)
  moreover from this have "t = db_tree d" using assms [of "db_tree d"] by simp
  ultimately show ?thesis by (simp add: still_def onLeader_def)
qed

lemma still_lookups [still_rules]: "still d (onLeader (Operation j name version))" "still d (onLeader (Wrote j wid))"
proof -
  have r: "snd (treeAscend k v s t) = t" for k :: "bytes" and v :: "bytes \<Rightarrow> bytes \<Rightarrow> bytes option \<Rightarrow> bool \<times> bytes option" and s t
    by (auto simp: treeAscend_def split: prod.splits sum.splits)
  have "snd (Operation j name version t) = t" for t
    using r by (auto simp: Operation_def treeGet_def decodeOperation_def bnd_def ret_def throw_def split: prod.splits sum.splits option.splits) (metis snd_conv)+
  moreover have "snd (Wrote j wid t) = t" for t by (auto simp: Wrote_def treeGet_def bnd_def ret_def throw_def split: sum.splits option.splits)
  ultimately show "still d (onLeader (Operation j name version))" "still d (onLeader (Wrote j wid))" by (simp_all add: still_leader)
qed

section \<open>Reading an undivided collection\<close>

definition undivided :: "nat \<Rightarrow> database \<Rightarrow> bool" where
  "undivided c d \<longleftrightarrow> s_partition (specOf c d) = None"

lemma undivided_places: "undivided c d \<Longrightarrow> into C c key d = (Inr Leader, d)" "undivided c d \<Longrightarrow> across C c d = (Inr [Leader], d)"
  by (simp_all add: undivided_def into_def across_def)

lemma still_Get_doc [still_rules]:
  assumes "undivided c d"
  shows "still d (Get_doc j C c key)"
proof (cases "encodeKey (specOf c d) key")
  case (Inr pk)
  have "snd (read_doc (j_docs j) pk t) = t" for t by (auto simp: read_doc_def treeGet_def bnd_def ret_def throw_def split: sum.splits option.splits)
  then have "still d (onLeader (read_doc (j_docs j) pk))" by (rule still_leader)
  then show ?thesis using Inr undivided_places(1) [OF assms] by (simp add: still_def Get_doc_def onPlace_def bnd_def)
qed (simp add: still_def Get_doc_def)

lemma still_walk_store:
  assumes u: "undivided c d" and v: "\<And>k v s. snd (snd (visit k v (s, d))) = d"
  shows "still d (walk_store C c rng pre fs visit s)"
proof (cases "stretch rng pre fs")
  case (Inr bs)
  have "snd (snd (walk ts rng pre fs visit (s, d))) = d" for ts
    by (rule walk_stays [where Q = "\<lambda>sd. snd sd = d"]) (use v in auto)
  then show ?thesis using Inr undivided_places(2) [OF u]
    by (auto simp: still_def walk_store_def bnd_def split: prod.splits sum.splits) (metis snd_conv)+
qed (simp add: still_def walk_store_def)

lemma still_walks [still_rules]:
  assumes "undivided c d"
  shows "still d (walkRange j C c rng f s)" "still d (run j C c p rng res room)" "still d (runTotals j C c p rng res room)"
proof -
  show r: "still d (walkRange j C c rng f s)" for f :: "key_value \<Rightarrow> doc \<Rightarrow> 's \<Rightarrow> bool \<times> 's" and s
    using still_walk_store [OF assms, of "apart (shows_doc j (documents (specOf c d)) f)" C rng "documents (specOf c d)" "clusteredFields (specOf c d)" s]
    by (simp add: still_def walkRange_def Let_def apart_def split: prod.splits)
  have a: "still d (answered st)" for st unfolding answered_def by (intro still_rules)
  have "snd (snd (shows_found j C c p x (s, d))) = d" for x s
    using stillD [OF still_Get_doc [OF assms]] by (auto simp: shows_found_def Let_def split: sum.splits option.splits prod.splits)
  then have "snd (snd (shows_entry j pre fs (shows_found j C c p) k v (s, d))) = d" for pre fs k v s
    by (auto simp: shows_entry_def split: sum.splits option.splits)
  then have w: "still d (walk_store C c rng pre fs (shows_entry j pre fs (shows_found j C c p)) s)" for pre fs s
    by (rule still_walk_store [OF assms])
  have "still d (Scan j C c name rng (shows_found j C c p) s)" for name s
    by (cases "index_named (specOf c d) name") (use w in \<open>simp_all add: still_def Scan_def Let_def\<close>)
  then show "still d (run j C c p rng res room)" unfolding run_def by (intro still_rules r a)
  have "still d (Totals_rows j C c name rng (shows_total j p) s)" for name s
    using undivided_places(2) [OF assms]
    by (auto simp: still_def Totals_rows_def Let_def bnd_def split: option.splits sum.splits prod.splits list.splits)
  then show "still d (runTotals j C c p rng res room)" unfolding runTotals_def by (intro still_rules a)
qed

lemma Collection_found: "Collection name d = (Inr c, d') \<longleftrightarrow> fmlookup (db_collections d) name = Some c \<and> d' = d"
  by (auto simp: Collection_def split: option.splits)

lemma collectionOf_undivided: "collectionOf d name = Inr s \<Longrightarrow> s_partition s = None \<Longrightarrow> fmlookup (db_collections d) name = Some c \<Longrightarrow> undivided c d"
  by (simp add: collectionOf_def undivided_def)

lemma still_runPlain:
  assumes "\<not> Writes (o_action p)" "collectionOf d (o_collection p) = Inr s" "s_partition s = None"
  shows "still d (runPlain j C by p vals res room)"
proof -
  have u: "undivided c d" if "Collection (o_collection p) d = (Inr c, d)" for c
    using collectionOf_undivided [OF assms(2,3)] that by (simp add: Collection_found)
  have "still d (runGet j C c p vals res room)" "still d (hashRange j C c p rng res)" if "undivided c d" for c rng
    using that unfolding runGet_def keyTerm_def Let_def hashRange_def by (intro still_rules; assumption)+
  note this [still_rules]
  have k: "still d f \<Longrightarrow> still d (keeping room f)" for f unfolding keeping_def by (intro still_rules)
  show ?thesis
    unfolding runPlain_def
  proof (rule still_bnd [OF still_basics(4)])
    fix c assume "Collection (o_collection p) d = (Inr c, d)"
    note u [OF this, still_rules]
    show "still d (if o_action p = ActionGet then runGet j C c p vals res room
       else if o_action p = ActionTotals then bnd (lift_check (bounds p vals)) (\<lambda>rng. runTotals j C c p rng res room)
       else if o_action p \<in> {ActionScan, ActionCount} then bnd (lift_check (bounds p vals)) (\<lambda>rng. run j C c p rng res room)
       else if o_action p = ActionHashRange then bnd (lift_check (bounds p vals)) (\<lambda>rng. keeping room (hashRange j C c p rng res))
       else if o_action p = ActionDeleteRange then bnd (lift_check (bounds p vals)) (\<lambda>rng. keeping room (runDeleteRange j C by c p rng res))
       else if o_action p \<in> {ActionInsert, ActionPut} then keeping room (runPut j C by c p vals res)
       else if o_action p = ActionUpdate then keeping room (runUpdate j C by c p vals res)
       else if o_action p = ActionDelete then keeping room (runDelete j C by c p vals res)
       else throw ErrDeclaration)"
      using assms(1) unfolding Writes_def
      by (intro still_rules k) auto
  qed
qed

lemma still_runOwnStep:
  assumes "sp_action st = ActionGet" "collectionOf d (sp_collection st) = Inr s" "s_partition s = None"
  shows "still d (runOwnStep j C by st vals made res room)"
proof -
  have u: "undivided c d" if "Collection (sp_collection st) d = (Inr c, d)" for c
    using collectionOf_undivided [OF assms(2,3)] that by (simp add: Collection_found)
  have "still d (stepDocument j C c st vals made)" if "undivided c d" for c
    using that unfolding stepDocument_def by (auto split: option.splits bool.splits intro!: still_rules)
  note this [still_rules]
  show ?thesis
    unfolding runOwnStep_def
  proof (rule still_bnd [OF still_basics(4)])
    fix c assume "Collection (sp_collection st) d = (Inr c, d)"
    note u [OF this, still_rules]
    show "still d (bnd (stepDocument j C c st vals made) (\<lambda>(key, document).
       if sp_action st = ActionGet then
         (case document of
            None \<Rightarrow> ret (key, res, room)
          | Some row \<Rightarrow>
              bnd (lift_check (spend j row room)) (\<lambda>room.
              ret (key, res\<lparr>rs_rows := rs_rows res @ [row], rs_count := int (length (rs_rows res @ [row]))\<rparr>, room)))
       else if sp_action st \<in> {ActionInsert, ActionPut} then
         bnd (lift_check (buildIn (sp_document st) vals made)) (\<lambda>document.
         bnd (if sp_action st = ActionInsert then notTaken j C c document else ret ()) (\<lambda>_.
         bnd (write_doc j C c by document True) (\<lambda>key.
         ret (key, res\<lparr>rs_changed := rs_changed res + 1\<rparr>, room))))
       else if sp_action st = ActionUpdate then
         (case document of
            None \<Rightarrow> throw ErrMissing
          | Some document \<Rightarrow>
              bnd (lift_check (buildIn (sp_set st) vals made)) (\<lambda>changes.
              bnd (write_doc j C c by (fmadd document changes) True) (\<lambda>_.
              ret (key, res\<lparr>rs_changed := rs_changed res + 1\<rparr>, room))))
       else if sp_action st = ActionDelete then
         bnd (remove_doc j C c by key True) (\<lambda>removed.
         ret (key, if removed then res\<lparr>rs_changed := rs_changed res + 1\<rparr> else res, room))
       else throw ErrDeclaration))"
      using assms(1) by (intro still_rules) simp_all
  qed
qed

section \<open>Operations that only read\<close>

inductive reads_only :: "(bytes \<Rightarrow> int \<Rightarrow> store_error + operation) \<Rightarrow> (bytes \<Rightarrow> store_error + spec) \<Rightarrow> operation \<Rightarrow> bool" for find_op coll where
  plain: "\<lbrakk>\<not> Writes (o_action p); coll (o_collection p) = Inr s; s_partition s = None\<rbrakk> \<Longrightarrow> reads_only find_op coll p"
| batch: "\<lbrakk>o_action p = ActionBatch;
    \<And>st. st \<in> set (o_steps p) \<Longrightarrow> sp_operation st = [] \<Longrightarrow> sp_action st = ActionGet \<and> (\<exists>s. coll (sp_collection st) = Inr s \<and> s_partition s = None);
    \<And>st. st \<in> set (o_steps p) \<Longrightarrow> sp_operation st \<noteq> [] \<Longrightarrow> \<exists>q. find_op (sp_operation st) (sp_version st) = Inr q \<and> reads_only find_op coll q\<rbrakk>
    \<Longrightarrow> reads_only find_op coll p"

definition step_reads :: "(bytes \<Rightarrow> int \<Rightarrow> store_error + operation) \<Rightarrow> (bytes \<Rightarrow> store_error + spec) \<Rightarrow> step \<Rightarrow> bool" where
  "step_reads find_op coll st \<longleftrightarrow>
     (if sp_operation st = [] then sp_action st = ActionGet \<and> (\<exists>s. coll (sp_collection st) = Inr s \<and> s_partition s = None)
      else \<exists>q. find_op (sp_operation st) (sp_version st) = Inr q \<and> reads_only find_op coll q)"

inductive_cases reads_onlyE: "reads_only find_op coll p"

lemma batch_Writes: "o_action p = ActionBatch \<Longrightarrow> Writes (o_action p)"
  by (simp add: Writes_def)

lemma reads_batch: "o_action p = ActionBatch \<Longrightarrow> reads_only find_op coll p \<longleftrightarrow> (\<forall>st \<in> set (o_steps p). step_reads find_op coll st)"
  using batch_Writes reads_only.batch [of p coll find_op] by (auto simp: step_reads_def elim!: reads_onlyE)

lemma reads_plain: "o_action p \<noteq> ActionBatch \<Longrightarrow> reads_only find_op coll p \<longleftrightarrow> \<not> Writes (o_action p) \<and> (\<exists>s. coll (o_collection p) = Inr s \<and> s_partition s = None)"
  by (auto elim!: reads_onlyE intro: reads_only.plain)

lemma still_runSteps:
  "(\<And>st. st \<in> set sts \<Longrightarrow> step_reads (among j d) (collectionOf d) st) \<Longrightarrow> still d (runSteps n j C w sts vals made res room)"
proof (induction n j C w sts vals made res room rule: runSteps.induct)
  case (1 n j C w vals made res room)
  then show ?case by (simp add: runSteps.simps still_def)
next
  case (2 n j C w st sts vals made res room)
  note st = "2.prems" [OF list.set_intros(1)]
  have o: "still d (runOwnStep j C w st vals made res room)" if "sp_operation st = []"
    using st that still_runOwnStep by (auto simp: step_reads_def)
  have f: "reads_only (among j d) (collectionOf d) callee" if "sp_operation st \<noteq> []" "onLeader (Operation j (sp_operation st) (sp_version st)) d = (Inr callee, d)" for callee
  proof -
    from that(2) have "among j d (sp_operation st) (sp_version st) = Inr callee" by (auto simp: among_def onLeader_Inr)
    with st that(1) show ?thesis by (auto simp: step_reads_def)
  qed
  have c: "still d (case n of 0 \<Rightarrow> ret None
      | Suc n' \<Rightarrow> runSteps n' j C w (o_steps callee) inner fmempty (newResult (o_name callee) (o_version callee)) room)"
    if "sp_operation st \<noteq> []" "o_action callee = ActionBatch" "reads_only (among j d) (collectionOf d) callee" for callee :: operation and inner
    using "2.IH"(1) [OF that(1,2)] that(3) reads_batch [OF that(2)] still_basics(1) by (cases n) auto
  have p: "still d (runPlain j C w callee inner r room)" if "o_action callee \<noteq> ActionBatch" "reads_only (among j d) (collectionOf d) callee" for callee :: operation and inner r
    using that(2) reads_plain [OF that(1)] still_runPlain by blast
  note rest = "2.IH"(2) [OF "2.prems" [OF list.set_intros(2)]]
  show ?case
    unfolding runSteps.simps
    by (intro still_rules o c p rest) (use f in \<open>auto\<close>)
qed

section \<open>Finding out\<close>

text \<open>Answers found before, each that of the operation it is kept under.\<close>

definition answers_known :: "(operation \<Rightarrow> bool) \<Rightarrow> (operation \<Rightarrow> bool) \<Rightarrow> (ref, bool) fmap \<Rightarrow> bool" where
  "answers_known found reads known \<longleftrightarrow> (\<forall>p. found p \<longrightarrow> fmlookup known (refOf p) = Some True \<longrightarrow> reads p)"

lemma shareable_reads:
  assumes uniq: "\<And>p q. found p \<Longrightarrow> found q \<Longrightarrow> refOf p = refOf q \<Longrightarrow> p = q"
  shows "(\<And>name v p. find_op name v = Inr p \<Longrightarrow> found p) \<Longrightarrow> shareable n find_op coll p visiting known = Inr (a, known') \<Longrightarrow> found p \<Longrightarrow>
      answers_known found (reads_only find_op coll) known \<Longrightarrow> answers_known found (reads_only find_op coll) known' \<and> (a \<longrightarrow> reads_only find_op coll p)"
    and "(\<And>name v p. find_op name v = Inr p \<Longrightarrow> found p) \<Longrightarrow> stepsShare n find_op coll sts visiting known = Inr (a, known') \<Longrightarrow>
      answers_known found (reads_only find_op coll) known \<Longrightarrow> answers_known found (reads_only find_op coll) known' \<and> (a \<longrightarrow> (\<forall>st \<in> set sts. step_reads find_op coll st))"
proof (induction n find_op coll p visiting known and n find_op coll sts visiting known arbitrary: a known' and a known' rule: shareable_stepsShare.induct)
  case (1 n find_op coll p visiting known)
  show ?case
  proof (cases "o_action p = ActionBatch")
    case False
    with "1.prems"(2) have "known' = known" "a \<longrightarrow> reads_only find_op coll p"
      using reads_plain [OF False] by (auto simp: shareable.simps split: if_splits sum.splits)
    with "1.prems"(4) show ?thesis by simp
  next
    case b: True
    show ?thesis
    proof (cases "fmlookup known (refOf p)")
      case (Some answer)
      with "1.prems"(2) b have "a = answer" "known' = known" by (auto simp: shareable.simps)
      with Some "1.prems"(3,4) show ?thesis by (simp add: answers_known_def)
    next
      case None
      with "1.prems"(2) b have v: "refOf p \<notin> visiting" by (auto simp: shareable.simps split: if_splits)
      with "1.prems"(2) b None obtain known1 where s: "stepsShare n find_op coll (o_steps p) (insert (refOf p) visiting) known = Inr (a, known1)"
        "known' = (if o_version p > 0 then fmupd (refOf p) a known1 else known1)"
        by (auto simp: shareable.simps split: sum.splits)
      from "1.IH" [OF _ None v "1.prems"(1) s(1) "1.prems"(4)] b
      have r: "answers_known found (reads_only find_op coll) known1" "a \<longrightarrow> reads_only find_op coll p" by (simp_all add: reads_batch [OF b])
      have "answers_known found (reads_only find_op coll) known'"
        using r uniq [OF _ "1.prems"(3)] unfolding answers_known_def s(2) by (auto split: if_splits)
      with r show ?thesis by simp
    qed
  qed
next
  case (3 n find_op coll st sts visiting known)
  show ?case
  proof (cases "sp_operation st = []")
    case True
    then show ?thesis using "3.prems" "3.IH"(1) [OF True] by (auto simp: step_reads_def split: if_splits sum.splits)
  next
    case False
    show ?thesis
    proof (cases "find_op (sp_operation st) (sp_version st)")
      case (Inr callee)
      with "3.prems"(2) False obtain n' reads known1 where o: "n = Suc n'" "shareable n' find_op coll callee visiting known = Inr (reads, known1)"
        "(if \<not> reads then Inr (False, known1) else stepsShare n find_op coll sts visiting known1) = Inr (a, known')"
        by (auto split: sum.splits nat.splits prod.splits)
      from "3.IH"(2) [OF False Inr o(1) "3.prems"(1) o(2) "3.prems"(1) [OF Inr] "3.prems"(3)]
      have r: "answers_known found (reads_only find_op coll) known1" "reads \<longrightarrow> reads_only find_op coll callee" by simp_all
      show ?thesis
      proof (cases reads)
        case True
        with o(3) have s: "stepsShare n find_op coll sts visiting known1 = Inr (a, known')" by simp
        from "3.IH"(3) [OF False Inr o(1,2) refl _ "3.prems"(1) s r(1)] True r(2) Inr False show ?thesis by (auto simp: step_reads_def)
      qed (use o(3) r(1) in simp)
    qed (use "3.prems"(2) False in auto)
  qed
qed auto

section \<open>Shared reads\<close>

lemma shared_reads_only:
  assumes h: "holding (db_tree d) m" "ops_named j m" and s: "SharedRead n j caller name version d = (Inr (p, True), d1)"
  shows "d1 = d" "reads_only (among j d) (collectionOf d) p"
proof -
  from s obtain t where o: "Operation j name version (db_tree d) = (Inr p, t)"
    and c: "(case allowed caller p of
         Inl e \<Rightarrow> (Inl e, d\<lparr>db_tree := t\<rparr>)
       | Inr _ \<Rightarrow>
           (case shareable n (among j (d\<lparr>db_tree := t\<rparr>)) (collectionOf (d\<lparr>db_tree := t\<rparr>)) p {} fmempty of
              Inl e \<Rightarrow> (Inl e, d\<lparr>db_tree := t\<rparr>)
            | Inr (shared, _) \<Rightarrow> (Inr (p, shared), d\<lparr>db_tree := t\<rparr>))) = (Inr (p, True), d1)"
  proof -
    from s obtain q d2 where q: "onLeader (Operation j name version) d = (Inr q, d2)"
      "(case allowed caller q of Inl e \<Rightarrow> (Inl e, d2)
        | Inr _ \<Rightarrow> (case shareable n (among j d2) (collectionOf d2) q {} fmempty of Inl e \<Rightarrow> (Inl e, d2) | Inr (shared, _) \<Rightarrow> (Inr (q, shared), d2)))
        = (Inr (p, True), d1)"
      unfolding SharedRead_def by (rule bnd_InrE)
    then have "q = p" by (auto split: sum.splits prod.splits)
    with q show thesis using that by (auto simp: onLeader_Inr)
  qed
  from Operation_stored(1) [OF h o] have t: "d\<lparr>db_tree := t\<rparr> = d" by simp
  with c obtain known where k: "shareable n (among j d) (collectionOf d) p {} fmempty = Inr (True, known)" "d1 = d"
    by (auto split: sum.splits prod.splits)
  let ?found = "\<lambda>q. op_at j m (o_name q) (o_version q) = Some q"
  have f: "?found q" if "among j d name v = Inr q" for name v q
  proof -
    obtain x t where o: "Operation j name v (db_tree d) = (x, t)" by (meson surj_pair)
    with that have "x = Inr q" by (simp only: among_def fst_conv)
    with o show ?thesis by (intro Operation_stored(3) [OF h, of name v q t]) (simp only:)
  qed
  have "p = q" if "?found p" "?found q" "refOf p = refOf q" for p q
    using that unfolding refOf_def by (metis prod.inject option.inject)
  note u = this
  have none: "answers_known ?found (reads_only (among j d) (collectionOf d)) fmempty" by (simp add: answers_known_def)
  have "answers_known ?found (reads_only (among j d) (collectionOf d)) known \<and> (True \<longrightarrow> reads_only (among j d) (collectionOf d) p)"
    by (rule shareable_reads(1) [where found = ?found, OF _ _ k(1) Operation_stored(3) [OF h o] none]) (rule u f; assumption)+
  then show "reads_only (among j d) (collectionOf d) p" by simp
  show "d1 = d" by (rule k(2))
qed

section \<open>Nothing is counted as changed\<close>

text \<open>So that a request which only reads is not committed.\<close>

lemma unchanged_visitors:
  "keeps (\<lambda>st. rs_changed (fst st) = 0) (shows_total j p r)" "keeps (\<lambda>st. rs_changed (fst st) = 0) (shows_row j p key document)"
  by (auto simp: keeps_def shows_total_def shows_row_def addRow_def Let_def split: sum.splits prod.splits)

lemma runPlain_unchanged:
  assumes r: "runPlain j C w p vals res room d = (Inr (res', room'), d')" and p: "\<not> Writes (o_action p)" and z: "rs_changed res = 0"
  shows "rs_changed res' = 0"
proof -
  from r obtain c d1 where b: "(if o_action p = ActionGet then runGet j C c p vals res room
       else if o_action p = ActionTotals then bnd (lift_check (bounds p vals)) (\<lambda>rng. runTotals j C c p rng res room)
       else if o_action p \<in> {ActionScan, ActionCount} then bnd (lift_check (bounds p vals)) (\<lambda>rng. run j C c p rng res room)
       else if o_action p = ActionHashRange then bnd (lift_check (bounds p vals)) (\<lambda>rng. keeping room (hashRange j C c p rng res))
       else if o_action p = ActionDeleteRange then bnd (lift_check (bounds p vals)) (\<lambda>rng. keeping room (runDeleteRange j C w c p rng res))
       else if o_action p \<in> {ActionInsert, ActionPut} then keeping room (runPut j C w c p vals res)
       else if o_action p = ActionUpdate then keeping room (runUpdate j C w c p vals res)
       else if o_action p = ActionDelete then keeping room (runDelete j C w c p vals res)
       else throw ErrDeclaration) d1 = (Inr (res', room'), d')"
    unfolding runPlain_def by (rule bnd_InrE)
  let ?Q = "\<lambda>st :: reading. rs_changed (fst st) = 0"
  have q: "?Q (res, room, None)" using z by simp
  consider "runGet j C c p vals res room d1 = (Inr (res', room'), d')" | rng d2 where "runTotals j C c p rng res room d2 = (Inr (res', room'), d')"
    | rng d2 where "run j C c p rng res room d2 = (Inr (res', room'), d')" | rng d2 where "keeping room (hashRange j C c p rng res) d2 = (Inr (res', room'), d')"
    using b p by (auto simp: Writes_def bnd_eq_Inr throw_def split: if_splits)
  then show ?thesis
  proof cases
    case 1
    then show ?thesis using z by (auto simp: runGet_def bnd_eq_Inr Let_def split: option.splits)
  next
    case 2
    from keeps_runTotals [where Q = ?Q, OF unchanged_visitors(1) q 2] show ?thesis by simp
  next
    case 3
    from keeps_run [where Q = ?Q, OF unchanged_visitors(2) q 3] show ?thesis by simp
  next
    case 4
    then show ?thesis using z by (auto simp: keeping_def hashRange_def bnd_eq_Inr throw_def split: option.splits)
  qed
qed

lemma runOwnStep_unchanged:
  assumes "runOwnStep j C w st vals made res room d = (Inr (key, res', room'), d')" "sp_action st = ActionGet"
  shows "rs_changed res' = rs_changed res"
  using assms by (auto simp: runOwnStep_def bnd_eq_Inr split: option.splits)

lemma runSteps_unchanged:
  "(\<And>st. st \<in> set sts \<Longrightarrow> step_reads (among j d) (collectionOf d) st) \<Longrightarrow>
     runSteps n j C w sts vals made res room d = (Inr (Some (res', room')), d') \<Longrightarrow> rs_changed res = 0 \<Longrightarrow> rs_changed res' = 0"
proof (induction n j C w sts vals made res room arbitrary: res' room' d' rule: runSteps.induct)
  case (1 n j C w vals made res room)
  then show ?case by (simp add: runSteps.simps)
next
  case (2 n j C w st sts vals made res room)
  note st = "2.prems"(1) [OF list.set_intros(1)]
  from "2.prems"(2) obtain key res1 room1 d1 where
    one: "(if sp_operation st = [] then bnd (runOwnStep j C w st vals made res room) (\<lambda>done. ret (Some done))
          else bnd (onLeader (Operation j (sp_operation st) (sp_version st))) (\<lambda>callee.
               bnd (lift_check (callee_arguments st callee vals made)) (\<lambda>inner.
               bnd (if o_action callee = ActionBatch then
                      (case n of
                         0 \<Rightarrow> ret None
                       | Suc n' \<Rightarrow> runSteps n' j C w (o_steps callee) inner fmempty (newResult (o_name callee) (o_version callee)) room)
                    else bnd (runPlain j C w callee inner (newResult (o_name callee) (o_version callee)) room) (\<lambda>done. ret (Some done)))
                 (\<lambda>done. ret (map_option (\<lambda>(sub, room). (rs_key sub, addResult res sub, room)) done))))) d = (Inr (Some (key, res1, room1)), d1)"
    and rest: "runSteps n j C w sts vals (if sp_name st = [] then made else fmupd (sp_name st) key made) (res1\<lparr>rs_key := key\<rparr>) room1 d1 = (Inr (Some (res', room')), d')"
    unfolding runSteps.simps by (elim bnd_InrE) (auto split: option.splits prod.splits simp: ret_def)
  have "rs_changed res1 = 0 \<and> d1 = d"
  proof (cases "sp_operation st = []")
    case True
    with one have r: "runOwnStep j C w st vals made res room d = (Inr (key, res1, room1), d1)" by (auto simp: bnd_eq_Inr)
    from st True obtain s where a: "sp_action st = ActionGet" "collectionOf d (sp_collection st) = Inr s" "s_partition s = None" by (auto simp: step_reads_def)
    from runOwnStep_unchanged [OF r a(1)] stillD [OF still_runOwnStep [OF a] r] "2.prems"(3) show ?thesis by simp
  next
    case False
    with one obtain callee :: operation and inner sub t where o: "Operation j (sp_operation st) (sp_version st) (db_tree d) = (Inr callee, t)"
      and s: "(if o_action callee = ActionBatch then
            (case n of 0 \<Rightarrow> ret None
             | Suc n' \<Rightarrow> runSteps n' j C w (o_steps callee) inner fmempty (newResult (o_name callee) (o_version callee)) room)
          else bnd (runPlain j C w callee inner (newResult (o_name callee) (o_version callee)) room) (\<lambda>done. ret (Some done))) (d\<lparr>db_tree := t\<rparr>) = (Inr (Some (sub, room1)), d1)"
      and r: "res1 = addResult res sub"
      by (auto simp: bnd_eq_Inr onLeader_Inr lift_check_Inr)
    from stillD [OF still_lookups(1)] o have t: "d\<lparr>db_tree := t\<rparr> = d" by (metis onLeader_Inr)
    from o have "among j d (sp_operation st) (sp_version st) = Inr callee" by (simp add: among_def)
    with st False have c: "reads_only (among j d) (collectionOf d) callee" by (auto simp: step_reads_def)
    have "rs_changed sub = 0 \<and> d1 = d"
    proof (cases "o_action callee = ActionBatch")
      case True
      with s t obtain n' where n': "n = Suc n'" "runSteps n' j C w (o_steps callee) inner fmempty (newResult (o_name callee) (o_version callee)) room d = (Inr (Some (sub, room1)), d1)"
        by (cases n) auto
      have cs: "step_reads (among j d) (collectionOf d) st" if "st \<in> set (o_steps callee)" for st using c reads_batch [OF True] that by blast
      from "2.IH"(1) [OF False True n'(1) cs n'(2)] stillD [OF still_runSteps [OF cs] n'(2)] show ?thesis by (simp add: newResult_def)
    next
      case other: False
      with s t have p: "runPlain j C w callee inner (newResult (o_name callee) (o_version callee)) room d = (Inr (sub, room1), d1)" by (auto simp: bnd_eq_Inr)
      from c reads_plain [OF other] obtain q where q: "\<not> Writes (o_action callee)" "collectionOf d (o_collection callee) = Inr q" "s_partition q = None" by blast
      from runPlain_unchanged [OF p q(1)] stillD [OF still_runPlain [OF q] p] show ?thesis by (simp add: newResult_def)
    qed
    then show ?thesis using r "2.prems"(3) by (simp add: addResult_def)
  qed
  then have d1: "rs_changed (res1\<lparr>rs_key := key\<rparr>) = 0" "d1 = d" by simp_all
  show ?case by (rule "2.IH"(2) [OF "2.prems"(1) [OF list.set_intros(2)] rest [unfolded d1(2)] d1(1)])
qed

lemma Inline_reads:
  assumes p: "reads_only (among j d) (collectionOf d) p" and i: "runInline n j C w p vals (newResult (o_name p) (o_version p)) room d = (r, d')"
  shows "(\<forall>done. r = Inr done \<longrightarrow> d' = d \<and> (\<forall>res room'. done = Some (res, room') \<longrightarrow> rs_changed res = 0))
    \<and> (d' = d \<or> o_action p = ActionBatch \<and> d' = snd (Rollback_store j d))"
proof (cases "o_action p = ActionBatch")
  case True
  have st: "step_reads (among j d) (collectionOf d) st" if "st \<in> set (o_steps p)" for st using p reads_batch [OF True] that by blast
  let ?run = "runSteps n j C w (o_steps p) vals fmempty (newResult (o_name p) (o_version p)) room d"
  obtain x where x: "?run = (x, d)" using stillD [OF still_runSteps [OF st]] by (metis surj_pair)
  show ?thesis
  proof (cases "fmlookup (db_collections d) (o_collection p)")
    case None
    then show ?thesis using i True by (auto simp: runInline_def Collection_def bnd_def)
  next
    case (Some c)
    with i True x have "(r, d') = (if Pending (pages (db_tree d)) then (Inl ErrUncommitted, d)
        else case x of Inl e \<Rightarrow> (Inl e, snd (Rollback_store j d)) | Inr done \<Rightarrow> (Inr done, d))"
      by (auto simp: runInline_def runBatch_def Collection_def bnd_def split: sum.splits)
    moreover have "rs_changed res = 0" if "x = Inr (Some (res, room'))" for res room'
      by (rule runSteps_unchanged [OF st]) (use x that in \<open>auto simp: newResult_def\<close>)
    ultimately show ?thesis using True by (auto split: if_splits sum.splits)
  qed
next
  case False
  with p reads_plain obtain s where s: "\<not> Writes (o_action p)" "collectionOf d (o_collection p) = Inr s" "s_partition s = None" by blast
  obtain x where x: "runPlain j C w p vals (newResult (o_name p) (o_version p)) room d = (x, d)" using stillD [OF still_runPlain [OF s]] by (metis surj_pair)
  have "rs_changed res = 0" if "x = Inr (res, room')" for res room'
    by (rule runPlain_unchanged [OF _ s(1)]) (use x that in \<open>auto simp: newResult_def\<close>)
  with i False x show ?thesis by (auto simp: runInline_def bnd_def split: sum.splits)
qed

section \<open>The promise\<close>

text \<open>
  C19. What is run beside other readers changes nothing. An operation found shareable leaves the database exactly
  as it was, whatever it calls and whatever other collections there are, with one exception: a batch that fails
  is rolled back, although there is nothing to take back.
\<close>

theorem shared_reads_change_nothing:
  assumes "holding (db_tree d) m" "ops_named j m" "SharedRead n j caller name version d = (Inr (p, True), d1)"
    and "perform n' j C caller p arguments d = (r, d')"
  shows "d' = d \<or> o_action p = ActionBatch \<and> (\<exists>e. r = Inl e) \<and> d' = snd (Rollback_store j d)"
proof (cases "bind_arguments p arguments")
  case (Inr vals)
  note p = shared_reads_only(2) [OF assms(1-3)]
  let ?w = "attributionOf caller p" and ?room = "\<lparr>bg_most = db_budget d, bg_used = 0, bg_rows = 0\<rparr>"
  obtain x where w: "(if Writes (o_action p) \<and> cl_write_id caller \<noteq> [] then onLeader (Wrote j (cl_write_id caller)) else ret None) d = (x, d)"
    using stillD [OF still_cases(1) [OF still_lookups(2) still_basics(1)]] by (metis surj_pair)
  obtain y d2 where i: "runInline n' j C ?w p vals (newResult (o_name p) (o_version p)) ?room d = (y, d2)" by (meson surj_pair)
  note s = Inline_reads [OF p i]
  show ?thesis using assms(4) Inr w i s
    by (auto simp: perform_def bnd_def split: sum.splits option.splits prod.splits)
qed (use assms(4) in \<open>simp add: perform_def\<close>)

theorem shared_reads_change_nothing_witness:
  "\<exists>t. \<forall>n C arguments. \<exists>r. SharedRead 0 ex_ops ex_asks [103] 1 (ex_db t) = (Inr (ex_get, True), ex_db t)
     \<and> perform n ex_ops C ex_asks ex_get arguments (ex_db t) = (r, ex_db t)"
proof -
  obtain t where t: "roomy t ([ex_get_key \<mapsto> [7]](ex_pk \<mapsto> [7])) 30" by (rule ex_asked_tree)
  let ?m = "[ex_get_key \<mapsto> [7]](ex_pk \<mapsto> [7])"
  have m: "hasPrefix [spaceOps] k \<Longrightarrow> ?m k = [ex_get_key \<mapsto> [7]] k" for k by (auto simp: hasPrefix_def spaceOps_def)
  have "ops_named ex_ops ?m = ops_named ex_ops [ex_get_key \<mapsto> [7]]" by (rule ops_named_cong) (rule m)
  then have o: "ops_named ex_ops ?m" using ex_ops_ok by (simp only: operations_ok_def)
  have h: "holding (db_tree (ex_db t)) ?m" using ex_ready [OF t] by simp
  have a: "allowed ex_asks ex_get = Inr ()" by (simp add: allowed_def refuse_def ex_get_def ex_blank_def)
  have act: "o_action ex_get = ActionGet" "o_collection ex_get = [99]" by (simp_all add: ex_get_def ex_blank_def)
  have c: "collectionOf (ex_db t) [99] = Inr ex_plain" "s_partition ex_plain = None"
    by (simp_all add: collectionOf_def ex_db_def specOf_def ex_plain_def ex_spec_def)
  have "\<not> Writes (o_action ex_get)" "o_action ex_get \<noteq> ActionBatch" using act by (simp_all add: Writes_def action_defs)
  then have sh: "shareable 0 (among ex_ops (ex_db t)) (collectionOf (ex_db t)) ex_get {} fmempty = Inr (True, fmempty)"
    using act c by (simp add: shareable.simps)
  have "onLeader (Operation ex_ops [103] 1) (ex_db t) = (Inr ex_get, ex_db t)" using ex_asked(2) [OF t] by (simp add: onLeader_def ex_db_def)
  then have s: "SharedRead 0 ex_ops ex_asks [103] 1 (ex_db t) = (Inr (ex_get, True), ex_db t)"
    using a sh by (simp add: SharedRead_def bnd_def)
  have "d' = ex_db t" if "perform n ex_ops C ex_asks ex_get arguments (ex_db t) = (r, d')" for n C arguments r d'
    using shared_reads_change_nothing [OF h o s that] \<open>o_action ex_get \<noteq> ActionBatch\<close> by blast
  then have "\<exists>r. perform n ex_ops C ex_asks ex_get arguments (ex_db t) = (r, ex_db t)" for n C arguments by (metis surj_pair)
  with s show ?thesis by blast
qed

end
