(* ===== verification/Store_Explore.thy ===== *)
theory Store_Explore
  imports Store_Shared
begin

text \<open>
  Looking at a database without a declared operation (\<^verbatim>\<open>internal/store/explore.go\<close>): what an operator types
  becomes the operation it would have to be declared as, passes the same checks, runs like any other and is
  written down. With it, what an operation may touch, worked out from its declaration alone
  (\<^verbatim>\<open>internal/store/envelope.go\<close>).
\<close>

section \<open>Typed accesses\<close>

definition MostRows :: int where "MostRows = 1000"

text \<open>The bounds of an access carry whatever was typed.\<close>

record access =
  ac_kind :: bytes
  ac_collection :: bytes
  ac_key :: gval
  ac_index :: bytes
  ac_from :: "(gval list \<times> bool) option"
  ac_to :: "(gval list \<times> bool) option"
  ac_limit :: int
  ac_projection :: "bytes list"
  ac_field :: bytes
  ac_decode :: bytes

definition constantTerm :: "gval \<Rightarrow> term_decl" where
  "constantTerm v = \<lparr>tm_arg = [], tm_value = v, tm_constant = True, tm_step = [], tm_field = []\<rparr>"

definition endpointOf :: "(gval list \<times> bool) option \<Rightarrow> endpoint option" where
  "endpointOf = map_option (\<lambda>(vs, exclusive). \<lparr>en_terms = map constantTerm vs, en_exclusive = exclusive\<rparr>)"

definition noOperation :: operation where
  "noOperation = \<lparr>o_name = [], o_collection = [], o_action = [], o_input = [], o_key = None, o_rollup = [], o_index = [],
     o_from = None, o_to = None, o_direction = None, o_document = fmempty, o_set = fmempty, o_steps = [], o_field = [], o_decode = [],
     o_projection = [], o_limit = 0, o_scopes = [], o_version = 0, o_declared_by = None\<rparr>"

definition asOperation :: "access \<Rightarrow> store_error + operation" where
  "asOperation a =
     (let p = noOperation\<lparr>o_collection := ac_collection a, o_projection := ac_projection a, o_name := ac_collection a @ ascii ''.'' @ ac_kind a\<rparr>;
          between = p\<lparr>o_from := endpointOf (ac_from a), o_to := endpointOf (ac_to a)\<rparr> in
      if ac_kind a = ascii ''get'' then
        if ac_key a = gnil then Inl ErrDeclaration
        else Inr (p\<lparr>o_action := ActionGet, o_key := Some (constantTerm (ac_key a))\<rparr>)
      else if ac_kind a = ascii ''scan'' \<or> ac_kind a = ascii ''count'' then
        Inr (between\<lparr>o_action := (if ac_kind a = ascii ''count'' then ActionCount else ActionScan), o_index := ac_index a,
               o_limit := (if ac_limit a \<le> 0 \<or> ac_limit a > MostRows then MostRows else ac_limit a)\<rparr>)
      else if ac_kind a = ascii ''hash'' then
        if ac_limit a \<le> 0 then Inl ErrDeclaration
        else Inr (between\<lparr>o_action := ActionHashRange, o_field := ac_field a, o_decode := ac_decode a, o_limit := ac_limit a\<rparr>)
      else if ac_kind a = ascii ''delete'' then
        if ac_limit a \<le> 0 then Inl ErrDeclaration
        else Inr (between\<lparr>o_action := ActionDeleteRange, o_limit := ac_limit a\<rparr>)
      else Inl ErrDeclaration)"

definition readChange :: "access \<Rightarrow> operation \<Rightarrow> caller \<Rightarrow> change" where
  "readChange a p caller =
     blankChange\<lparr>c_kind := ChangeRead, c_collection := ac_collection a, c_key := ac_key a, c_operation := Some p,
       c_by := declared_by (ascii ''explore'') (cl_actor caller)\<rparr>"

definition Explore_store :: "nat \<Rightarrow> json \<Rightarrow> crypto \<Rightarrow> caller \<Rightarrow> access \<Rightarrow> (operation \<times> result) option on_store" where
  "Explore_store n j C caller a d =
     (case asOperation a of
        Inl e \<Rightarrow> (Inl e, d)
      | Inr p \<Rightarrow>
          (case validateOperation n j d p of
             Inl e \<Rightarrow> (Inl e, d)
           | Inr _ \<Rightarrow>
               bnd (perform n j C caller p fmempty) (\<lambda>done.
                 case done of
                   None \<Rightarrow> ret None
                 | Some res \<Rightarrow>
                     bnd (if rs_changed res = 0 then bnd (record_store j (readChange a p caller)) (\<lambda>_. ret ()) else ret ()) (\<lambda>_.
                     bnd Commit_store (\<lambda>_.
                     ret (Some (p, res\<lparr>rs_operation := [], rs_version := 0\<rparr>))))) d))"

section \<open>Envelopes\<close>

record envelope =
  ev_operation :: bytes
  ev_version :: int
  ev_collections :: "bytes list"
  ev_indexes :: "bytes list"
  ev_limit :: int
  ev_projection :: "bytes list"
  ev_whole :: bool
  ev_scopes :: "bytes list"

text \<open>What the walk over an operation and its callees gathers.\<close>

record gathered =
  ga_collections :: "bytes fset"
  ga_indexes :: "bytes fset"
  ga_projection :: "bytes fset"
  ga_whole :: bool
  ga_visited :: "ref set"

definition indexName :: "bytes \<Rightarrow> bytes" where
  "indexName index = (if index = [] then ClusteredIndex else index)"

definition gatherPlain :: "operation \<Rightarrow> gathered \<Rightarrow> gathered" where
  "gatherPlain p g =
     (let g = (if o_collection p = [] then g else g\<lparr>ga_collections := finsert (o_collection p) (ga_collections g)\<rparr>);
          g = (if o_action p \<in> {ActionScan, ActionGet}
               then if o_projection p = [] then g\<lparr>ga_whole := True\<rparr> else g\<lparr>ga_projection := ga_projection g |\<union>| fset_of_list (o_projection p)\<rparr>
               else g) in
      if o_action p \<in> {ActionScan, ActionCount, ActionHashRange, ActionDeleteRange}
      then g\<lparr>ga_indexes := finsert (indexName (o_index p)) (ga_indexes g)\<rparr> else g)"

definition gatherStep :: "step \<Rightarrow> gathered \<Rightarrow> gathered" where
  "gatherStep st g =
     g\<lparr>ga_collections := finsert (sp_collection st) (ga_collections g), ga_whole := (ga_whole g \<or> sp_action st = ActionGet)\<rparr>"

function (sequential) gather :: "nat \<Rightarrow> (bytes \<Rightarrow> int \<Rightarrow> store_error + operation) \<Rightarrow> operation \<Rightarrow> gathered \<Rightarrow> store_error + gathered"
  and gatherSteps :: "nat \<Rightarrow> (bytes \<Rightarrow> int \<Rightarrow> store_error + operation) \<Rightarrow> step list \<Rightarrow> gathered \<Rightarrow> store_error + gathered" where
  "gather n find_op p g =
     (if o_version p > 0 \<and> refOf p \<in> ga_visited g then Inr g
      else let g = (if o_version p > 0 then g\<lparr>ga_visited := insert (refOf p) (ga_visited g)\<rparr> else g) in
        if o_action p = ActionBatch then gatherSteps n find_op (o_steps p) g else Inr (gatherPlain p g))"
| "gatherSteps n find_op [] g = Inr g"
| "gatherSteps n find_op (st # sts) g =
     (if sp_operation st = [] then gatherSteps n find_op sts (gatherStep st g)
      else (case find_op (sp_operation st) (sp_version st) of
              Inl e \<Rightarrow> Inl e
            | Inr callee \<Rightarrow>
                (case n of
                   0 \<Rightarrow> Inl OutOfFuel
                 | Suc n' \<Rightarrow> (case gather n' find_op callee g of Inl e \<Rightarrow> Inl e | Inr g \<Rightarrow> gatherSteps n find_op sts g))))"
  by pat_completeness auto
termination
  by (relation "measures [case_sum (\<lambda>(n, _). 2 * n + 1) (\<lambda>(n, _). 2 * n), case_sum (\<lambda>_. 0) (\<lambda>(_, _, sts, _). length sts)]") auto

declare gather.simps [simp del]

definition EnvelopeOf :: "nat \<Rightarrow> (bytes \<Rightarrow> int \<Rightarrow> store_error + operation) \<Rightarrow> operation \<Rightarrow> store_error + envelope" where
  "EnvelopeOf n find_op p =
     (case (if o_action p \<in> {ActionCount, ActionHashRange} then Inr (o_limit p, fmempty) else ceilingOf n find_op p {} fmempty) of
        Inl e \<Rightarrow> Inl e
      | Inr (limit, _) \<Rightarrow>
          (case gather n find_op p \<lparr>ga_collections = {||}, ga_indexes = {||}, ga_projection = {||}, ga_whole = False, ga_visited = {}\<rparr> of
             Inl e \<Rightarrow> Inl e
           | Inr g \<Rightarrow>
               Inr \<lparr>ev_operation = o_name p, ev_version = o_version p, ev_collections = sorted_list_of_fset (ga_collections g),
                    ev_indexes = sorted_list_of_fset (ga_indexes g), ev_limit = limit,
                    ev_projection = (if ga_whole g then [] else sorted_list_of_fset (ga_projection g)), ev_whole = ga_whole g,
                    ev_scopes = o_scopes p\<rparr>))"

definition Envelope_store :: "nat \<Rightarrow> json \<Rightarrow> bytes \<Rightarrow> int \<Rightarrow> envelope on_store" where
  "Envelope_store n j name version =
     bnd (onLeader (Operation j name version)) (\<lambda>p d.
       case EnvelopeOf n (among j d) p of Inl e \<Rightarrow> (Inl e, d) | Inr ev \<Rightarrow> (Inr ev, d))"

section \<open>The catalogue\<close>

record catalogue =
  ca_collections :: "spec list"
  ca_operations :: "operation list"
  ca_envelopes :: "envelope list"

text \<open>The names of the collections come in the order \<open>arrange\<close> of the map they are the keys of.\<close>

definition Collections :: "(bytes fset \<Rightarrow> bytes list) \<Rightarrow> database \<Rightarrow> bytes list" where
  "Collections arrange d = arrange (fmdom (db_collections d))"

fun specsOf :: "database \<Rightarrow> bytes list \<Rightarrow> store_error + spec list" where
  "specsOf d [] = Inr []"
| "specsOf d (name # names) =
     (case collectionOf d name of
        Inl e \<Rightarrow> Inl e
      | Inr s \<Rightarrow> (case specsOf d names of Inl e \<Rightarrow> Inl e | Inr specs \<Rightarrow> Inr (s # specs)))"

fun envelopesOf :: "nat \<Rightarrow> (bytes \<Rightarrow> int \<Rightarrow> store_error + operation) \<Rightarrow> operation list \<Rightarrow> store_error + envelope list" where
  "envelopesOf n find_op [] = Inr []"
| "envelopesOf n find_op (p # ps) =
     (case EnvelopeOf n find_op p of
        Inl e \<Rightarrow> Inl e
      | Inr ev \<Rightarrow> (case envelopesOf n find_op ps of Inl e \<Rightarrow> Inl e | Inr evs \<Rightarrow> Inr (ev # evs)))"

definition WhatIsHere :: "nat \<Rightarrow> json \<Rightarrow> (bytes fset \<Rightarrow> bytes list) \<Rightarrow> caller \<Rightarrow> catalogue on_store" where
  "WhatIsHere n j arrange caller d =
     (case specsOf d (Collections arrange d) of
        Inl e \<Rightarrow> (Inl e, d)
      | Inr specs \<Rightarrow>
          bnd (onLeader (Operations j)) (\<lambda>ps d.
            case envelopesOf n (among j d) ps of
              Inl e \<Rightarrow> (Inl e, d)
            | Inr evs \<Rightarrow>
                bnd (record_store j (blankChange\<lparr>c_kind := ChangeRead, c_by := declared_by (ascii ''catalogue'') (cl_actor caller)\<rparr>)) (\<lambda>_.
                bnd Commit_store (\<lambda>_.
                ret \<lparr>ca_collections = specs, ca_operations = ps, ca_envelopes = evs\<rparr>)) d) d)"

section \<open>Typing is declaring\<close>

lemma asOperation_reads:
  assumes "asOperation a = Inr p" "ac_kind a \<noteq> ascii ''delete''"
  shows "\<not> Writes (o_action p)" "o_action p \<noteq> ActionBatch" "o_collection p = ac_collection a" "o_input p = []" "o_action p \<noteq> ActionTotals"
    "o_action p \<in> {ActionScan, ActionCount} \<Longrightarrow> 0 < o_limit p \<and> o_limit p \<le> MostRows"
  using assms by (auto simp: asOperation_def Let_def Writes_def action_defs noOperation_def MostRows_def split: if_splits)


text \<open>A typed read of the one document of the example.\<close>

definition ex_access :: access where
  "ex_access = \<lparr>ac_kind = ascii ''get'', ac_collection = [99], ac_key = GKey (VString [97]), ac_index = [], ac_from = None, ac_to = None,
     ac_limit = 0, ac_projection = [], ac_field = [], ac_decode = []\<rparr>"

definition ex_typed :: operation where
  "ex_typed = noOperation\<lparr>o_collection := [99], o_name := [99, 46, 103, 101, 116], o_action := ActionGet, o_key := Some (constantTerm (GKey (VString [97])))\<rparr>"

lemma ex_access_typed: "asOperation ex_access = Inr ex_typed"
  by (simp add: asOperation_def ex_access_def ex_typed_def noOperation_def Let_def ascii_def gnil_def)

lemma ex_typed_valid: "validateOperation n ex_ops (ex_db t) ex_typed = Inr ()"
proof -
  have c: "collectionOf (ex_db t) [99] = Inr ex_plain" by (simp add: collectionOf_def ex_db_def specOf_def)
  then show ?thesis
    by (simp add: validateOperation_def validateAction_def usableName_def SplitOperationName_def NamespaceSeparator_def refuse_def ex_typed_def noOperation_def action_defs constantTerm_def
        checkTerm_def checkTerms_def gnil_def ex_plain_def ex_spec_def matches_def TypeString_def)
qed

lemma ex_typed_run:
  assumes t: "roomy t ([ex_get_key \<mapsto> [7]](ex_pk \<mapsto> [7])) 30"
  shows "perform n ex_ops C nobody ex_typed fmempty (ex_db t)
    = (Inr (Some ((newResult [99, 46, 103, 101, 116] 0)\<lparr>rs_rows := [ex_doc], rs_count := 1\<rparr>)), ex_db t)"
proof -
  let ?d = "ex_db t"
  have g: "treeGet ex_pk t = (Inr (Some [7]), t)" using roomy_get [OF t, of ex_pk] by (simp add: sizes layout)
  have act: "o_action ex_typed = ActionGet" "o_name ex_typed = [99, 46, 103, 101, 116]" "o_version ex_typed = 0" "o_collection ex_typed = [99]"
    "o_projection ex_typed = []" "o_input ex_typed = []" by (simp_all add: ex_typed_def noOperation_def)
  have c: "Collection [99] ?d = (Inr 0, ?d)" by (simp add: Collection_def ex_db_def)
  have k: "keyTerm ex_typed fmempty ?d = (Inr (GKey (VString [97])), ?d)"
    by (simp add: keyTerm_def ex_typed_def resolve_def lift_check_def constantTerm_def)
  have pk: "encodeKey (specOf 0 ?d) (GKey (VString [97])) = Inr ex_pk"
    by (simp add: encodeKey_def ex_plain_def ex_spec_def specOf_def ex_db_def matches_def TypeString_def TypeAny_def keyOf_def documents_def Encode_def
        encodeString_def plainField_def tag_defs space_defs be_numeral)
  have r: "read_doc (j_docs ex_ops) ex_pk t = (Inr (Some ex_doc), t)"
    using g by (simp add: read_doc_def ex_ops_def ex_json_def ex_docs_def)
  have "Get_doc ex_ops C 0 (GKey (VString [97])) ?d = (Inr (Some ex_doc), ?d)"
    using pk r by (simp add: Get_doc_def into_def onPlace_def onLeader_def specOf_def ex_db_def ex_plain_def ex_spec_def)
  moreover have "spend ex_ops ex_doc \<lparr>bg_most = 0, bg_used = 0, bg_rows = 0\<rparr> = Inr \<lparr>bg_most = 0, bg_used = 0, bg_rows = 0\<rparr>"
    by (simp add: spend_def)
  moreover have "project ex_doc [] = ex_doc" by (simp add: project_def)
  ultimately have "runPlain ex_ops C w ex_typed fmempty (newResult [99, 46, 103, 101, 116] 0) \<lparr>bg_most = 0, bg_used = 0, bg_rows = 0\<rparr> ?d
      = (Inr ((newResult [99, 46, 103, 101, 116] 0)\<lparr>rs_rows := [ex_doc], rs_count := 1\<rparr>, \<lparr>bg_most = 0, bg_used = 0, bg_rows = 0\<rparr>), ?d)" for w
    using k act c by (simp add: runPlain_def runGet_def lift_check_def newResult_def action_defs)
  moreover have "\<not> Writes (o_action ex_typed)" "o_action ex_typed \<noteq> ActionBatch" using act by (simp_all add: Writes_def action_defs)
  moreover have "db_budget ?d = 0" "bind_arguments ex_typed fmempty = Inr fmempty" using act by (simp_all add: ex_db_def bind_arguments_def)
  ultimately show ?thesis
    using act c by (simp add: perform_def runInline_def newResult_def)
qed


section \<open>Envelopes cover\<close>

text \<open>What one operation touches by itself, and what it may hand back: the collections, the indexes, the fields of documents, or whole documents.\<close>

definition touches :: "operation \<Rightarrow> bytes set" where
  "touches p =
     (if o_action p = ActionBatch then sp_collection ` {st \<in> set (o_steps p). sp_operation st = []}
      else if o_collection p = [] then {} else {o_collection p})"

definition walks :: "operation \<Rightarrow> bytes set" where
  "walks p = (if o_action p \<in> {ActionScan, ActionCount, ActionHashRange, ActionDeleteRange} then {indexName (o_index p)} else {})"

definition answers_whole :: "operation \<Rightarrow> bool" where
  "answers_whole p \<longleftrightarrow>
     (if o_action p = ActionBatch then \<exists>st \<in> set (o_steps p). sp_operation st = [] \<and> sp_action st = ActionGet
      else o_action p \<in> {ActionScan, ActionGet} \<and> o_projection p = [])"

definition answers_fields :: "operation \<Rightarrow> bytes set" where
  "answers_fields p = (if o_action p \<in> {ActionScan, ActionGet} then set (o_projection p) else {})"

definition covered :: "operation \<Rightarrow> gathered \<Rightarrow> bool" where
  "covered p g \<longleftrightarrow> touches p \<subseteq> fset (ga_collections g) \<and> walks p \<subseteq> fset (ga_indexes g) \<and> (answers_whole p \<longrightarrow> ga_whole g)
     \<and> answers_fields p \<subseteq> fset (ga_projection g)"

text \<open>A walk only adds, and leaves every operation it visits first covered and what it calls visited.\<close>

definition grown :: "gathered \<Rightarrow> gathered \<Rightarrow> bool" where
  "grown g g' \<longleftrightarrow> ga_collections g |\<subseteq>| ga_collections g' \<and> ga_indexes g |\<subseteq>| ga_indexes g' \<and> ga_projection g |\<subseteq>| ga_projection g'
     \<and> (ga_whole g \<longrightarrow> ga_whole g') \<and> ga_visited g \<subseteq> ga_visited g'"

definition walked :: "(operation \<Rightarrow> bool) \<Rightarrow> (operation \<Rightarrow> operation \<Rightarrow> bool) \<Rightarrow> gathered \<Rightarrow> gathered \<Rightarrow> bool" where
  "walked found next_op g g' \<longleftrightarrow> grown g g'
     \<and> (\<forall>q. found q \<longrightarrow> refOf q \<in> ga_visited g' - ga_visited g \<longrightarrow> covered q g' \<and> (\<forall>r. next_op q r \<longrightarrow> refOf r \<in> ga_visited g'))"

lemma grown_refl [simp]: "grown g g"
  by (simp add: grown_def)

lemma grown_trans: "grown a b \<Longrightarrow> grown b c \<Longrightarrow> grown a c"
  unfolding grown_def by blast

lemma covered_grown: "covered p g \<Longrightarrow> grown g g' \<Longrightarrow> covered p g'"
  unfolding covered_def grown_def less_eq_fset.rep_eq by blast

lemma walked_grown: "walked found next_op g g' \<Longrightarrow> grown g g'"
  by (simp add: walked_def)

lemma walked_refl [simp]: "walked found next_op g g"
  by (simp add: walked_def)

lemma grown_visited: "grown g g' \<Longrightarrow> r \<in> ga_visited g \<Longrightarrow> r \<in> ga_visited g'"
  by (auto simp: grown_def)

lemma walked_trans: "walked found next_op a b \<Longrightarrow> walked found next_op b c \<Longrightarrow> walked found next_op a c"
proof -
  assume w: "walked found next_op a b" "walked found next_op b c"
  note g = walked_grown [OF w(1)] walked_grown [OF w(2)]
  have "covered q c \<and> (\<forall>r. next_op q r \<longrightarrow> refOf r \<in> ga_visited c)" if q: "found q" "refOf q \<in> ga_visited c - ga_visited a" for q
  proof (cases "refOf q \<in> ga_visited b")
    case True
    with w(1) q have "covered q b" "\<forall>r. next_op q r \<longrightarrow> refOf r \<in> ga_visited b" unfolding walked_def by blast+
    then show ?thesis using covered_grown [OF _ g(2)] grown_visited [OF g(2)] by blast
  next
    case False
    with w(2) q show ?thesis unfolding walked_def by blast
  qed
  then show ?thesis unfolding walked_def using grown_trans [OF g] by blast
qed

lemma walked_same: "grown g g' \<Longrightarrow> ga_visited g' = ga_visited g \<Longrightarrow> walked found next_op g g'"
  by (simp add: walked_def)

lemma gatherPlain_walked:
  "grown g (gatherPlain p g)" "ga_visited (gatherPlain p g) = ga_visited g" "o_action p \<noteq> ActionBatch \<Longrightarrow> covered p (gatherPlain p g)"
  by (auto simp: gatherPlain_def Let_def grown_def covered_def touches_def walks_def answers_whole_def answers_fields_def fset_of_list_elem action_defs)

lemma gatherStep_walked: "walked found next_op g (gatherStep st g)" "sp_collection st |\<in>| ga_collections (gatherStep st g)"
  "sp_action st = ActionGet \<Longrightarrow> ga_whole (gatherStep st g)"
proof -
  show "walked found next_op g (gatherStep st g)" by (rule walked_same) (auto simp: gatherStep_def grown_def)
qed (simp_all add: gatherStep_def)

text \<open>One operation calls another, as a lookup sees it.\<close>

definition calls_in :: "(bytes \<Rightarrow> int \<Rightarrow> operation option) \<Rightarrow> operation \<Rightarrow> operation \<Rightarrow> bool" where
  "calls_in at_op p q \<longleftrightarrow> o_action p = ActionBatch
     \<and> (\<exists>st \<in> set (o_steps p). sp_operation st \<noteq> [] \<and> at_op (sp_operation st) (sp_version st) = Some q)"

definition found_in :: "(bytes \<Rightarrow> int \<Rightarrow> operation option) \<Rightarrow> operation \<Rightarrow> bool" where
  "found_in at_op p \<longleftrightarrow> 0 < o_version p \<and> at_op (o_name p) (o_version p) = Some p"

lemma found_same: "found_in at_op p \<Longrightarrow> found_in at_op q \<Longrightarrow> refOf p = refOf q \<Longrightarrow> p = q"
  unfolding found_in_def refOf_def by (metis option.inject prod.inject)

definition pinned_in :: "(bytes \<Rightarrow> int \<Rightarrow> operation option) \<Rightarrow> step \<Rightarrow> bool" where
  "pinned_in at_op st \<longleftrightarrow> (sp_operation st \<noteq> [] \<longrightarrow> 0 < sp_version st)"

definition looks_in :: "(bytes \<Rightarrow> int \<Rightarrow> operation option) \<Rightarrow> (bytes \<Rightarrow> int \<Rightarrow> store_error + operation) \<Rightarrow> bool" where
  "looks_in at_op find_op \<longleftrightarrow> (\<forall>name v q. 0 < v \<longrightarrow> find_op name v = Inr q \<longrightarrow> at_op name v = Some q \<and> found_in at_op q)"

lemma gather_covers:
  assumes pinned: "\<And>q st. found_in at_op q \<Longrightarrow> o_action q = ActionBatch \<Longrightarrow> st \<in> set (o_steps q) \<Longrightarrow> pinned_in at_op st"
  shows "looks_in at_op find_op \<Longrightarrow> found_in at_op p \<Longrightarrow> gather n find_op p g = Inr g'
      \<Longrightarrow> walked (found_in at_op) (calls_in at_op) g g' \<and> refOf p \<in> ga_visited g'"
    and "looks_in at_op find_op \<Longrightarrow> (\<forall>st \<in> set sts. pinned_in at_op st) \<Longrightarrow> gatherSteps n find_op sts g = Inr g'
      \<Longrightarrow> walked (found_in at_op) (calls_in at_op) g g'
      \<and> (\<forall>st \<in> set sts. if sp_operation st = [] then sp_collection st |\<in>| ga_collections g' \<and> (sp_action st = ActionGet \<longrightarrow> ga_whole g')
           else \<forall>q. at_op (sp_operation st) (sp_version st) = Some q \<longrightarrow> refOf q \<in> ga_visited g')"
proof (induction n find_op p g and n find_op sts g arbitrary: g' and g' rule: gather_gatherSteps.induct)
  case (1 n find_op p g)
  let ?w = "walked (found_in at_op) (calls_in at_op)"
  have v: "o_version p > 0" using "1.prems"(2) by (simp add: found_in_def)
  show ?case
  proof (cases "refOf p \<in> ga_visited g")
    case True
    with v "1.prems"(3) show ?thesis by (simp add: gather.simps)
  next
    case False
    let ?g = "g\<lparr>ga_visited := insert (refOf p) (ga_visited g)\<rparr>"
    have up: "grown g ?g" by (auto simp: grown_def)
    have new: "?w g g' \<and> refOf p \<in> ga_visited g'"
      if w: "?w ?g g'" and c: "covered p g'" "\<And>r. calls_in at_op p r \<Longrightarrow> refOf r \<in> ga_visited g'"
    proof -
      have v: "refOf p \<in> ga_visited g'" by (rule grown_visited [OF walked_grown [OF w]]) simp
      moreover have "covered q g' \<and> (\<forall>r. calls_in at_op q r \<longrightarrow> refOf r \<in> ga_visited g')"
        if q: "found_in at_op q" "refOf q \<in> ga_visited g' - ga_visited g" for q
      proof (cases "refOf q = refOf p")
        case True
        from found_same [OF q(1) "1.prems"(2) this] c show ?thesis by blast
      next
        case False
        then have "refOf q \<in> ga_visited g' - ga_visited ?g" using q(2) by simp
        with w q(1) show ?thesis unfolding walked_def by blast
      qed
      ultimately show ?thesis using grown_trans [OF up walked_grown [OF w]] unfolding walked_def by blast
    qed
    show ?thesis
    proof (cases "o_action p = ActionBatch")
      case batch: True
      have r: "gatherSteps n find_op (o_steps p) ?g = Inr g'" using "1.prems"(3) v False batch by (simp add: gather.simps)
      have n: "\<not> (0 < o_version p \<and> refOf p \<in> ga_visited g)" "?g = (if 0 < o_version p then ?g else g)" using False v by simp_all
      have a: "\<forall>st \<in> set (o_steps p). pinned_in at_op st" using pinned [OF "1.prems"(2) batch] by blast
      from "1.IH" [OF n batch "1.prems"(1) a r]
      have s: "?w ?g g'" "\<And>st. st \<in> set (o_steps p) \<Longrightarrow> if sp_operation st = [] then sp_collection st |\<in>| ga_collections g' \<and> (sp_action st = ActionGet \<longrightarrow> ga_whole g')
           else \<forall>q. at_op (sp_operation st) (sp_version st) = Some q \<longrightarrow> refOf q \<in> ga_visited g'" by blast+
      have "covered p g'" using s(2) batch by (fastforce simp: covered_def touches_def walks_def answers_whole_def answers_fields_def action_defs)
      moreover have "refOf r \<in> ga_visited g'" if c: "calls_in at_op p r" for r using s(2) c by (fastforce simp: calls_in_def)
      ultimately show ?thesis using new s(1) by blast
    next
      case plain: False
      then have r: "g' = gatherPlain p ?g" using "1.prems"(3) v False by (simp add: gather.simps)
      have "?w ?g g'" unfolding r by (rule walked_same) (simp_all add: gatherPlain_walked)
      then show ?thesis by (rule new) (use plain r gatherPlain_walked(3) in \<open>auto simp: calls_in_def\<close>)
    qed
  qed
next
  case (2 n find_op g)
  then show ?case by simp
next
  case (3 n find_op st sts g)
  let ?w = "walked (found_in at_op) (calls_in at_op)"
  have ok: "\<forall>st \<in> set sts. pinned_in at_op st" using "3.prems"(2) by simp
  show ?case
  proof (cases "sp_operation st = []")
    case True
    then have "gatherSteps n find_op sts (gatherStep st g) = Inr g'" using "3.prems"(3) by simp
    note r = "3.IH"(1) [OF True "3.prems"(1) ok this]
    have up: "grown (gatherStep st g) g'" using r walked_grown by blast
    then have "sp_collection st |\<in>| ga_collections g' \<and> (sp_action st = ActionGet \<longrightarrow> ga_whole g')"
      using gatherStep_walked(2,3) [of st g] by (auto simp: grown_def)
    moreover have "?w g g'" using walked_trans [OF gatherStep_walked(1)] r by blast
    ultimately show ?thesis using r True by simp
  next
    case False
    then obtain callee n' g1 where k: "find_op (sp_operation st) (sp_version st) = Inr callee" "n = Suc n'"
      "gather n' find_op callee g = Inr g1" "gatherSteps n find_op sts g1 = Inr g'"
      using "3.prems"(3) by (auto split: sum.splits nat.splits)
    have "0 < sp_version st" using "3.prems"(2) False by (simp add: pinned_in_def)
    then have q: "at_op (sp_operation st) (sp_version st) = Some callee" "found_in at_op callee" using "3.prems"(1) k(1) unfolding looks_in_def by blast+
    have a: "?w g g1" "refOf callee \<in> ga_visited g1" using "3.IH"(2) [OF False k(1,2) "3.prems"(1) q(2) k(3)] by blast+
    note b = "3.IH"(3) [OF False k(1,2,3) "3.prems"(1) ok k(4)]
    have "refOf callee \<in> ga_visited g'" using b a(2) grown_visited walked_grown by blast
    then show ?thesis using b False q(1) walked_trans [OF a(1)] by simp
  qed
qed

lemma gather_ends:
  assumes o: "ops_ok j rank m" and f: "\<And>name v p. 0 < v \<Longrightarrow> find_op name v = Inr p \<Longrightarrow> op_at j m name v = Some p" "\<And>name v. find_op name v \<noteq> Inl OutOfFuel"
  shows "steps_ok j rank m r S sts \<Longrightarrow> r \<le> n \<Longrightarrow> gatherSteps n find_op sts g \<noteq> Inl OutOfFuel"
proof (induction n arbitrary: r S sts g rule: less_induct)
  case (less n)
  show ?case using less.prems(1)
  proof (induction sts arbitrary: g)
    case (Cons st sts)
    note rest = Cons.IH [OF Cons.prems [unfolded steps_ok_simps, THEN conjunct2]]
    show ?case
    proof (cases "sp_operation st = []")
      case False
      show ?thesis
      proof (cases "find_op (sp_operation st) (sp_version st)")
        case (Inr callee)
        have v: "0 < sp_version st" "rank (callee_key st) < n" using Cons.prems False less.prems(2) by auto
        then obtain n' where n': "n = Suc n'" "rank (callee_key st) \<le> n'" by (cases n) auto
        have "op_at j m (sp_operation st) (sp_version st) = Some callee" by (rule f(1) [OF v(1) Inr])
        then have s: "steps_ok j rank m (rank (callee_key st)) (set (o_scopes callee)) (o_steps callee)" if "o_action callee = ActionBatch"
          using o v(1) that unfolding ops_ok_def callee_key_def by blast
        have "gather n' find_op callee g \<noteq> Inl OutOfFuel" for g
          using less.IH [of n', OF _ s n'(2)] n'(1) by (simp add: gather.simps)
        then show ?thesis using False Inr n'(1) rest by (auto split: sum.splits)
      qed (use False f(2) in auto)
    qed (use rest in simp)
  qed simp
qed

lemma EnvelopeOf_ends:
  assumes h: "holding (db_tree d) m" and o: "ops_ok j rank m" and s: "o_action p = ActionBatch \<Longrightarrow> steps_ok j rank m r S (o_steps p)" and n: "r \<le> n"
  shows "EnvelopeOf n (among j d) p \<noteq> Inl OutOfFuel"
proof -
  have "gather n (among j d) p g \<noteq> Inl OutOfFuel" for g
    using gather_ends [OF o among_at [OF h] among_ends s n] by (simp add: gather.simps)
  moreover have "ceilingOf n (among j d) p {} known \<noteq> Inl OutOfFuel" for known
    using ceiling_ends [OF o among_at [OF h] among_ends s n] by (auto simp: ceilingOf.simps split: option.splits sum.splits)
  ultimately show ?thesis by (auto simp: EnvelopeOf_def split: sum.splits prod.splits if_splits)
qed

lemma calls_in_op_at: "calls_in (op_at j m) p q \<longleftrightarrow> calls j m p q"
  by (auto simp: calls_in_def intro: call elim: callsE)

text \<open>
  C22. An envelope says the worst. What an operation of a database touches is in its envelope, however deep the
  operation that touches it is called: the collections, the indexes it walks, the scopes it needs, and which
  fields of documents or whole documents it may hand back. Working it out ends.
\<close>

theorem envelope_covers:
  assumes "holding (db_tree d) m" "operations_ok j m" "Operation j name version (db_tree d) = (Inr p, t)"
    and "Envelope_store n j name version d = (Inr ev, d')" "(calls j m)\<^sup>*\<^sup>* p q"
  shows "touches q \<subseteq> set (ev_collections ev) \<and> walks q \<subseteq> set (ev_indexes ev) \<and> set (o_scopes q) \<subseteq> set (ev_scopes ev)
    \<and> (answers_whole q \<longrightarrow> ev_whole ev) \<and> (\<not> ev_whole ev \<longrightarrow> answers_fields q \<subseteq> set (ev_projection ev))
    \<and> d' = d \<and> (\<exists>N. \<forall>n \<ge> N. fst (Envelope_store n j name version d) \<noteq> Inl OutOfFuel)"
proof -
  from assms(2) obtain rank where o: "ops_named j m" "ops_ok j rank m" by (auto simp: operations_ok_def)
  note own = Operation_stored [OF assms(1) o(1) assms(3)]
  have op: "onLeader (Operation j name version) d = (Inr p, d)" using assms(3) own(1) by (simp add: onLeader_def)
  then have e: "EnvelopeOf n (among j d) p = Inr ev" and d': "d' = d" using assms(4) by (auto simp: Envelope_store_def split: sum.splits)
  let ?g0 = "\<lparr>ga_collections = {||}, ga_indexes = {||}, ga_projection = {||}, ga_whole = False, ga_visited = {}\<rparr>"
  from e obtain g where g: "gather n (among j d) p ?g0 = Inr g"
    and ev: "set (ev_collections ev) = fset (ga_collections g)" "set (ev_indexes ev) = fset (ga_indexes g)" "ev_whole ev = ga_whole g"
      "ev_scopes ev = o_scopes p" "\<not> ev_whole ev \<Longrightarrow> set (ev_projection ev) = fset (ga_projection g)"
    by (auto simp: EnvelopeOf_def split: sum.splits prod.splits if_splits)
  have found: "found_in (op_at j m) p" using own by (simp add: found_in_def)
  have look: "looks_in (op_at j m) (among j d)"
    unfolding looks_in_def found_in_def using among_at [OF assms(1)] op_at_own [OF o(1)] by blast
  have pinned: "pinned_in (op_at j m) st" if "found_in (op_at j m) q" "o_action q = ActionBatch" "st \<in> set (o_steps q)" for q st
  proof -
    have "steps_ok j rank m (rank (operationKey (o_name q) (o_version q))) (set (o_scopes q)) (o_steps q)"
      using that(1,2) o(2) unfolding ops_ok_def found_in_def by blast
    then show ?thesis using that(3) by (simp add: steps_ok_def pinned_in_def)
  qed
  have w: "walked (found_in (op_at j m)) (calls_in (op_at j m)) ?g0 g \<and> refOf p \<in> ga_visited g"
    by (rule gather_covers(1) [OF _ look found g]) (rule pinned)
  have "refOf q \<in> ga_visited g \<and> found_in (op_at j m) q" using assms(5)
  proof (induction rule: rtranclp_induct)
    case base
    then show ?case using w found by blast
  next
    case (step q r)
    then have "refOf r \<in> ga_visited g" using w unfolding walked_def calls_in_op_at by auto
    moreover have "found_in (op_at j m) r" using step.hyps(2) op_at_own [OF o(1)] unfolding found_in_def by (blast elim: callsE)
    ultimately show ?case by blast
  qed
  then have "covered q g" using w unfolding walked_def by auto
  moreover have "set (o_scopes q) \<subseteq> set (o_scopes p)" using calls_scopes [OF o(2) own(3,2) assms(5)] by blast
  moreover have "fst (Envelope_store n j name version d) \<noteq> Inl OutOfFuel" if n: "rank (operationKey (o_name p) (o_version p)) \<le> n" for n
  proof -
    have "EnvelopeOf n (among j d) p \<noteq> Inl OutOfFuel"
      by (rule EnvelopeOf_ends [OF assms(1) o(2) _ n]) (use o(2) own(2,3) in \<open>unfold ops_ok_def, blast\<close>)
    then show ?thesis using op by (auto simp: Envelope_store_def split: sum.splits)
  qed
  then have "\<exists>N. \<forall>n \<ge> N. fst (Envelope_store n j name version d) \<noteq> Inl OutOfFuel" by blast
  ultimately show ?thesis using ev d' unfolding covered_def by simp
qed

theorem envelope_covers_witness:
  "\<exists>t ev. Envelope_store 1 ex_ops [98] 1 (ex_db t) = (Inr ev, ex_db t) \<and> [99] \<in> set (ev_collections ev) \<and> ev_whole ev \<and> ev_limit ev = 1"
proof -
  let ?m = "[ex_get_key \<mapsto> [7], ex_batch_key \<mapsto> [8]]"
  obtain t where t: "roomy t [ex_get_key \<mapsto> [7]] 9" by (rule ex_ops_tree)
  obtain t1 where t1: "treePut ex_batch_key [8] t = (Inr (), t1)" "roomy t1 ?m 30"
    by (rule roomy_put [OF t, of ex_batch_key "[8]"]) (simp_all add: sizes layout)
  let ?d = "ex_db t1"
  have b: "Operation ex_ops [98] 1 t1 = (Inr ex_batch, t1)" "Operation ex_ops [103] 1 t1 = (Inr ex_get, t1)"
    using roomy_get [OF t1(2), of ex_batch_key] roomy_get [OF t1(2), of ex_get_key] by (simp_all add: Operation_def decodeOperation_def ex_ops_def sizes layout)
  then have o: "Operation ex_ops [98] 1 (db_tree ?d) = (Inr ex_batch, t1)" by (simp add: ex_db_def)
  have "ops_named ex_ops ?m" by (auto simp: ops_named_def ex_ops_def ex_get_def ex_batch_def ex_blank_def split: if_splits)
  moreover have "ops_ok ex_ops ((\<lambda>_. 0)(ex_batch_key := 1)) ?m"
    by (auto simp: ops_ok_def op_at_def steps_ok_def callee_key_def ex_ops_def ex_get_def ex_batch_def ex_call_def ex_blank_def action_defs split: if_splits)
  ultimately have k: "operations_ok ex_ops ?m" by (auto simp: operations_ok_def)
  have a: "among ex_ops ?d [103] 1 = Inr ex_get" using b by (simp add: among_def ex_db_def)
  have sh: "o_action ex_batch = ActionBatch" "o_steps ex_batch = [ex_call]" "o_action ex_get = ActionGet" "sp_operation ex_call = [103]" "sp_version ex_call = 1"
    "refOf ex_batch = ([98], 1)" "refOf ex_get = ([103], 1)" "o_version ex_batch = 1" "o_version ex_get = 1"
    by (simp_all add: ex_batch_def ex_get_def ex_blank_def ex_call_def refOf_def)
  have c: "\<exists>known. ceilingOf 1 (among ex_ops ?d) ex_batch {} fmempty = Inr (1, known)"
    using a sh by (simp add: ceilingOf.simps action_defs wrap64_def)
  have g: "\<exists>g. gather 1 (among ex_ops ?d) ex_batch \<lparr>ga_collections = {||}, ga_indexes = {||}, ga_projection = {||}, ga_whole = False, ga_visited = {}\<rparr> = Inr g"
    using a sh by (simp add: gather.simps action_defs)
  from c g obtain ev where "EnvelopeOf 1 (among ex_ops ?d) ex_batch = Inr ev" "ev_limit ev = 1"
    using sh by (auto simp: EnvelopeOf_def action_defs)
  moreover have "onLeader (Operation ex_ops [98] 1) ?d = (Inr ex_batch, ?d)" using o by (simp add: onLeader_def ex_db_def)
  ultimately have e: "Envelope_store 1 ex_ops [98] 1 ?d = (Inr ev, ?d)" "ev_limit ev = 1" by (simp_all add: Envelope_store_def)
  from envelope_covers [OF conjunct2 [OF ex_ready [OF t1(2)]] k o e(1) r_into_rtranclp [of "calls ex_ops ?m", OF ex_calls]]
  have "touches ex_get \<subseteq> set (ev_collections ev)" "answers_whole ex_get \<longrightarrow> ev_whole ev" by blast+
  moreover have "touches ex_get = {[99]}" "answers_whole ex_get" by (simp_all add: touches_def answers_whole_def ex_get_def ex_blank_def action_defs)
  ultimately show ?thesis using e by blast
qed

end
