(* ===== verification/Spec2Isabelle.thy ===== *)
theory Spec2Isabelle
  imports Keys Protocol Store_Explore
begin

text \<open>
  SapeDB is a database server: a process that keeps databases in single files and answers named
  operations over a framed protocol. This library models its storage engine and its encodings.
\<close>

end
